(* ===== verification/Prelude.thy ===== *)
theory Prelude
  imports Main "HOL-Library.Word"
begin

text \<open>
  Shared vocabulary of the development: the machine types of the code, the saturating
  operations of Rust's integers, and the operations of \<open>str\<close> and slices the components use.

  A Rust \<open>str\<close> is a \<^typ>\<open>string\<close>, one \<^typ>\<open>char\<close> per UTF-8 byte, so that \<open>length\<close> and every
  index count bytes, as \<open>str::len\<close> and byte ranges do.  The delimiters the code searches for
  are ASCII, and an ASCII byte never occurs inside a multi-byte UTF-8 sequence, so searching
  bytes and searching characters give the same positions.
\<close>

type_synonym u8 = "8 word"
type_synonym u16 = "16 word"
type_synonym u32 = "32 word"
type_synonym u64 = "64 word"
type_synonym bytes = "8 word list"

named_theorems str_simps \<open>evaluation of the string operations on known shapes\<close>

subsection \<open>Saturating arithmetic\<close>

definition sat_add :: "'a::len word \<Rightarrow> 'a word \<Rightarrow> 'a word" where
  "sat_add a b = (if unat a + unat b < 2 ^ LENGTH('a) then a + b else - 1)"

definition sat_sub :: "'a::len word \<Rightarrow> 'a word \<Rightarrow> 'a word" where
  "sat_sub a b = (if b \<le> a then a - b else 0)"

definition sat_mul :: "'a::len word \<Rightarrow> 'a word \<Rightarrow> 'a word" where
  "sat_mul a b = (if unat a * unat b < 2 ^ LENGTH('a) then a * b else - 1)"

lemma unat_minus_one_word: "unat (- 1 :: 'a::len word) = 2 ^ LENGTH('a) - 1"
  by (simp add: unsigned_minus_1_eq_mask mask_eq_exp_minus_1)

lemma unat_sat_add: "unat (sat_add a b) = min (unat a + unat b) (2 ^ LENGTH('a) - 1)"
  for a b :: "'a::len word"
  by (simp add: sat_add_def unat_minus_one_word unat_word_ariths)

lemma unat_sat_sub: "unat (sat_sub a b) = unat a - unat b"
  by (simp add: sat_sub_def unat_sub word_le_nat_alt)

lemma unat_sat_mul: "unat (sat_mul a b) = min (unat a * unat b) (2 ^ LENGTH('a) - 1)"
  for a b :: "'a::len word"
  by (simp add: sat_mul_def unat_minus_one_word unat_word_ariths)

lemma unat_bound: "unat w < 2 ^ LENGTH('a)" for w :: "'a::len word"
  by (rule unsigned_less)

text \<open>A checked increment that keeps the maximum is the saturating one.\<close>

lemma sat_add_1: "sat_add d 1 = (if d = - 1 then d else d + 1)" for d :: "'a::len word"
proof (cases "d = - 1")
  case False
  then have "unat d \<noteq> unat (- 1 :: 'a word)" by (simp only: word_unat_eq_iff not_False_eq_True)
  then have "unat d \<noteq> 2 ^ LENGTH('a) - 1" by (simp only: unat_minus_one_word not_False_eq_True)
  then have "unat d + 1 < 2 ^ LENGTH('a)" using unat_bound [of d] by linarith
  then have "unat d + unat (1 :: 'a word) < 2 ^ LENGTH('a)" by simp
  then show ?thesis using False by (simp only: sat_add_def if_True if_False)
qed (simp add: sat_add_def unat_minus_one_word)

subsection \<open>Splitting and joining\<close>

text \<open>\<open>str::split\<close> on one character: always at least one piece.\<close>

fun split_on :: "'a \<Rightarrow> 'a list \<Rightarrow> 'a list list" where
  "split_on c [] = [[]]"
| "split_on c (x # xs) =
     (if x = c then [] # split_on c xs
      else (case split_on c xs of [] \<Rightarrow> [[x]] | y # ys \<Rightarrow> (x # y) # ys))"

text \<open>\<open>[T]::join\<close>.\<close>

fun join_with :: "'a list \<Rightarrow> 'a list list \<Rightarrow> 'a list" where
  "join_with s [] = []"
| "join_with s [x] = x"
| "join_with s (x # y # ys) = x @ s @ join_with s (y # ys)"

lemma split_on_ne [simp]: "split_on c xs \<noteq> []"
  by (induction xs) (auto split: list.splits)

lemma split_on_not_Nil [simp]: "[] \<noteq> split_on c xs"
  using split_on_ne by metis

lemma split_on_no_sep: "s \<in> set (split_on c xs) \<Longrightarrow> c \<notin> set s"
  by (induction xs arbitrary: s) (auto split: list.splits if_splits)

lemma split_on_free: "c \<notin> set xs \<Longrightarrow> split_on c xs = [xs]"
  by (induction xs) auto

lemma join_with_Cons: "xs \<noteq> [] \<Longrightarrow> join_with s (x # xs) = x @ s @ join_with s xs"
  by (cases xs) auto

lemma join_split_on: "join_with [c] (split_on c xs) = xs"
proof (induction xs)
  case Nil
  then show ?case by simp
next
  case (Cons x xs)
  then show ?case
    by (cases "split_on c xs"; cases "tl (split_on c xs)") (auto simp: join_with_Cons)
qed

lemma split_on_append_sep: "split_on c (xs @ c # ys) = split_on c xs @ split_on c ys"
  by (induction xs) (auto split: list.splits)

lemma split_on_join:
  assumes "xss \<noteq> []" and "\<And>xs. xs \<in> set xss \<Longrightarrow> c \<notin> set xs"
  shows "split_on c (join_with [c] xss) = xss"
  using assms
proof (induction xss)
  case Nil
  then show ?case by simp
next
  case (Cons x xss)
  then show ?case
    by (cases "xss = []") (auto simp: join_with_Cons split_on_append_sep split_on_free)
qed

lemma split_on_inject: "split_on c xs = split_on c ys \<Longrightarrow> xs = ys"
  by (metis join_split_on)

text \<open>The pieces of one string are a prefix of the pieces of another exactly when the first
  string is the second, or the second cut at a separator.\<close>

lemma split_on_prefix_iff:
  "(\<exists>zs. split_on c t = split_on c p @ zs) \<longleftrightarrow> t = p \<or> (\<exists>r. t = p @ c # r)"
proof
  assume "\<exists>zs. split_on c t = split_on c p @ zs"
  then obtain zs where zs: "split_on c t = split_on c p @ zs" by blast
  show "t = p \<or> (\<exists>r. t = p @ c # r)"
  proof (cases "zs = []")
    case True
    then show ?thesis using zs split_on_inject by auto
  next
    case False
    have "c \<notin> set z" if "z \<in> set zs" for z
      by (rule split_on_no_sep [of z c t]) (simp add: that zs)
    then have "split_on c (join_with [c] zs) = zs"
      using False by (simp add: split_on_join)
    then have "split_on c t = split_on c p @ split_on c (join_with [c] zs)"
      using zs by simp
    then have "split_on c t = split_on c (p @ c # join_with [c] zs)"
      by (simp add: split_on_append_sep)
    then have "t = p @ c # join_with [c] zs" by (rule split_on_inject)
    then show ?thesis by auto
  qed
next
  assume "t = p \<or> (\<exists>r. t = p @ c # r)"
  then show "\<exists>zs. split_on c t = split_on c p @ zs"
    by (auto simp: split_on_append_sep)
qed

subsection \<open>Prefixes, suffixes and searching\<close>

definition starts_with :: "'a list \<Rightarrow> 'a list \<Rightarrow> bool" where
  "starts_with p xs \<longleftrightarrow> take (length p) xs = p"

definition strip_prefix :: "'a list \<Rightarrow> 'a list \<Rightarrow> 'a list option" where
  "strip_prefix p xs = (if starts_with p xs then Some (drop (length p) xs) else None)"

definition strip_suffix :: "'a list \<Rightarrow> 'a list \<Rightarrow> 'a list option" where
  "strip_suffix p xs =
     (if length p \<le> length xs \<and> drop (length xs - length p) xs = p
      then Some (take (length xs - length p) xs) else None)"

text \<open>\<open>str::find\<close> of a substring: the first index where it starts.\<close>

fun find_sub :: "'a list \<Rightarrow> 'a list \<Rightarrow> nat option" where
  "find_sub s xs =
     (if starts_with s xs then Some 0
      else (case xs of [] \<Rightarrow> None | _ # ys \<Rightarrow> map_option Suc (find_sub s ys)))"

declare find_sub.simps [simp del]

definition split_once :: "'a list \<Rightarrow> 'a list \<Rightarrow> ('a list \<times> 'a list) option" where
  "split_once s xs =
     (case find_sub s xs of None \<Rightarrow> None | Some i \<Rightarrow> Some (take i xs, drop (i + length s) xs))"

text \<open>\<open>Iterator::position\<close>.\<close>

fun position :: "('a \<Rightarrow> bool) \<Rightarrow> 'a list \<Rightarrow> nat option" where
  "position P [] = None"
| "position P (x # xs) = (if P x then Some 0 else map_option Suc (position P xs))"

lemma starts_with_iff: "starts_with p xs \<longleftrightarrow> (\<exists>r. xs = p @ r)"
  unfolding starts_with_def by (metis append_eq_conv_conj append_take_drop_id)

lemma starts_with_append [simp]: "starts_with p (p @ r)"
  by (simp add: starts_with_def)

lemma strip_prefix_Some: "strip_prefix p xs = Some r \<longleftrightarrow> xs = p @ r"
  by (auto simp: strip_prefix_def starts_with_iff)

lemma strip_suffix_Some: "strip_suffix p xs = Some r \<longleftrightarrow> xs = r @ p"
  by (auto simp: strip_suffix_def)
    (metis append_take_drop_id)

lemma position_Some:
  "position P xs = Some i \<longleftrightarrow> i < length xs \<and> P (xs ! i) \<and> (\<forall>j < i. \<not> P (xs ! j))"
proof (induction xs arbitrary: i)
  case Nil
  then show ?case by simp
next
  case (Cons x xs)
  show ?case
  proof (cases i)
    case 0
    then show ?thesis by auto
  next
    case (Suc k)
    then show ?thesis using Cons [of k] by (auto simp: nth_Cons split: nat.splits)
  qed
qed

lemma position_None: "position P xs = None \<longleftrightarrow> (\<forall>x \<in> set xs. \<not> P x)"
  by (induction xs) auto

lemma position_append_first:
  "(\<forall>x \<in> set xs. \<not> P x) \<Longrightarrow> P y \<Longrightarrow> position P (xs @ y # ys) = Some (length xs)"
  by (induction xs) auto

lemma position_length: "position P xs = Some i \<Longrightarrow> i < length xs"
  by (simp add: position_Some)

lemma position_split:
  assumes "position P xs = Some i"
  shows "xs = take i xs @ xs ! i # drop (Suc i) xs" and "\<forall>x \<in> set (take i xs). \<not> P x" and "P (xs ! i)"
  using assms id_take_nth_drop [of i xs] by (auto simp: position_Some in_set_conv_nth)

text \<open>One list against another at the same place: the first is long enough, or ends early.\<close>

lemma append_split_cases [consumes 1, case_names whole part]:
  assumes "bs @ xs = w @ rest"
  obtains us where "bs = w @ us" and "us @ xs = rest"
  | us where "w = bs @ us" and "us \<noteq> []" and "xs = us @ rest"
proof -
  from assms obtain us where "bs = w @ us \<and> us @ xs = rest \<or> bs @ us = w \<and> xs = us @ rest"
    by (auto simp: append_eq_append_conv2)
  then show ?thesis using that by (cases "us = []") auto
qed

subsection \<open>Byte order\<close>

text \<open>\<open>u32::to_be_bytes\<close> and \<open>u32::from_be_bytes\<close>.\<close>

definition be32 :: "u32 \<Rightarrow> bytes" where
  "be32 w = [ucast (drop_bit 24 w), ucast (drop_bit 16 w), ucast (drop_bit 8 w), ucast w]"

definition of_be32 :: "u8 \<Rightarrow> u8 \<Rightarrow> u8 \<Rightarrow> u8 \<Rightarrow> u32" where
  "of_be32 a b c d = or (push_bit 24 (ucast a)) (or (push_bit 16 (ucast b)) (or (push_bit 8 (ucast c)) (ucast d)))"

lemma length_be32 [simp]: "length (be32 w) = 4"
  by (simp add: be32_def)

lemma bit_u8_high: "8 \<le> n \<Longrightarrow> \<not> bit x n" for x :: u8
  using bit_imp_le_length [of x n] by auto

lemma bit_of_be32_raw:
  "n < 32 \<Longrightarrow> bit (of_be32 a b c d) n \<longleftrightarrow>
     24 \<le> n \<and> bit a (n - 24) \<or> 16 \<le> n \<and> bit b (n - 16) \<or> 8 \<le> n \<and> bit c (n - 8) \<or> bit d n"
  unfolding of_be32_def
  by (simp only: bit_or_iff bit_push_bit_iff bit_unsigned_iff possible_bit_word
      len_num1 len_bit0 len_bit1) auto

lemma bit_of_be32:
  "n < 32 \<Longrightarrow> bit (of_be32 a b c d) n \<longleftrightarrow>
     (if n < 8 then bit d n else if n < 16 then bit c (n - 8)
      else if n < 24 then bit b (n - 16) else bit a (n - 24))"
  by (simp add: bit_of_be32_raw bit_u8_high)

lemma of_be32_be32:
  "of_be32 (be32 w ! 0) (be32 w ! 1) (be32 w ! 2) (be32 w ! 3) = w"
  by (rule bit_word_eqI)
    (auto simp: bit_of_be32 be32_def bit_unsigned_iff bit_drop_bit_eq)

text \<open>\<open>to_le_bytes\<close> and \<open>from_le_bytes\<close> of an \<open>n\<close>-byte number.\<close>

fun le_bytes :: "nat \<Rightarrow> nat \<Rightarrow> bytes" where
  "le_bytes 0 k = []"
| "le_bytes (Suc n) k = of_nat (k mod 256) # le_bytes n (k div 256)"

fun of_le_bytes :: "bytes \<Rightarrow> nat" where
  "of_le_bytes [] = 0"
| "of_le_bytes (b # bs) = unat b + 256 * of_le_bytes bs"

lemma length_le_bytes [simp]: "length (le_bytes n k) = n"
  by (induction n arbitrary: k) auto

lemma of_le_bytes_le_bytes: "k < 256 ^ n \<Longrightarrow> of_le_bytes (le_bytes n k) = k"
proof (induction n arbitrary: k)
  case (Suc n)
  have "k div 256 < 256 ^ n" using Suc.prems by (simp add: div_less_iff_less_mult mult.commute)
  moreover have "unat (of_nat (k mod 256) :: u8) = k mod 256" by (simp add: unat_of_nat)
  ultimately show ?case using Suc.IH [of "k div 256"] by simp
qed simp

lemma of_le_bytes_bound: "of_le_bytes bs < 256 ^ length bs"
proof (induction bs)
  case (Cons b bs)
  have "unat b < 256" using unat_bound [of b] by simp
  moreover have "of_le_bytes bs + 1 \<le> 256 ^ length bs" using Cons.IH by simp
  then have "256 * (of_le_bytes bs + 1) \<le> 256 * 256 ^ length bs" by (rule mult_le_mono2)
  ultimately show ?case by simp
qed simp

end
