(* ===== verification/Topic_Match.thy ===== *)
theory Topic_Match
  imports Prelude
begin

text \<open>
  \<open>aimdb-core/src/session/topic_match.rs\<close>: matching of dot-separated record keys against
  patterns with \<open>*\<close> (one segment) and \<open>#\<close> (any number of segments), and containment of
  one pattern in another, which the access check of a wildcard subscription rests on.
\<close>

subsection \<open>The code\<close>

type_synonym segment = string

abbreviation dot :: char where "dot \<equiv> CHR ''.''"

abbreviation hash :: segment where "hash \<equiv> ''#''"

abbreviation star :: segment where "star \<equiv> ''*''"

text \<open>
  The walk of \<open>match_segments\<close>.  The two \<open>Split\<close> iterators are the lists of segments they
  still have to yield; \<open>resume\<close> is the pattern tail after the most recent \<open>#\<close> and the
  subject where that \<open>#\<close> stops absorbing.
\<close>

definition hash_count :: "segment list \<Rightarrow> nat" where
  "hash_count ps = length (filter (\<lambda>p. p = hash) ps)"

function match_loop ::
  "(segment \<Rightarrow> segment \<Rightarrow> bool) \<Rightarrow> segment list \<Rightarrow> segment list
     \<Rightarrow> (segment list \<times> segment list) option \<Rightarrow> bool" where
  "match_loop covers pat sub resume =
     (if pat \<noteq> [] \<and> hd pat = hash then
        match_loop covers (tl pat) sub (Some (tl pat, sub))
      else if pat \<noteq> [] \<and> sub \<noteq> [] \<and> covers (hd pat) (hd sub) then
        match_loop covers (tl pat) (tl sub) resume
      else if pat = [] \<and> sub = [] then True
      else
        (case resume of
           None \<Rightarrow> False
         | Some (pat_after_hash, sub_at_hash) \<Rightarrow>
             (case sub_at_hash of
                [] \<Rightarrow> False
              | _ # grown \<Rightarrow>
                  match_loop covers pat_after_hash grown (Some (pat_after_hash, grown)))))"
  by pat_completeness auto
termination
  by (relation "measures [\<lambda>(c, p, s, r). max (hash_count p)
                             (case r of None \<Rightarrow> 0 | Some (ph, sh) \<Rightarrow> hash_count ph),
                          \<lambda>(c, p, s, r). case r of None \<Rightarrow> 0 | Some (ph, sh) \<Rightarrow> length sh,
                          \<lambda>(c, p, s, r). length p]")
    (auto simp: hash_count_def neq_Nil_conv split: option.splits)

declare match_loop.simps [simp del]

definition match_segments :: "(segment \<Rightarrow> segment \<Rightarrow> bool) \<Rightarrow> string \<Rightarrow> string \<Rightarrow> bool" where
  "match_segments covers pattern subject =
     match_loop covers (split_on dot pattern) (split_on dot subject) None"

definition topic_covers :: "segment \<Rightarrow> segment \<Rightarrow> bool" where
  "topic_covers p t \<longleftrightarrow> p = star \<or> p = t"

definition topic_matches :: "string \<Rightarrow> string \<Rightarrow> bool" where
  "topic_matches pattern topic =
     (if pattern = topic then True
      else if pattern = hash then True
      else (case strip_suffix ''.#'' pattern of
              Some prefix \<Rightarrow>
                if CHR ''*'' \<notin> set prefix \<and> CHR ''#'' \<notin> set prefix
                then starts_with prefix topic \<and>
                     (length topic = length prefix
                      \<or> (length prefix < length topic \<and> topic ! length prefix = dot))
                else match_segments topic_covers pattern topic
            | None \<Rightarrow> match_segments topic_covers pattern topic))"

definition is_wildcard :: "string \<Rightarrow> bool" where
  "is_wildcard pattern \<longleftrightarrow> CHR ''#'' \<in> set pattern \<or> CHR ''*'' \<in> set pattern"

definition grant_covers :: "segment \<Rightarrow> segment \<Rightarrow> bool" where
  "grant_covers g r \<longleftrightarrow> (if g = star then r \<noteq> hash else g = r)"

definition pattern_contains :: "string \<Rightarrow> string \<Rightarrow> bool" where
  "pattern_contains grant requested = match_segments grant_covers grant requested"

subsection \<open>The meaning of a pattern\<close>

text \<open>
  What the walk is meant to decide: \<open>#\<close> absorbs any number of subject segments, any other
  pattern segment exactly one that it covers.
\<close>

inductive seg_match :: "(segment \<Rightarrow> segment \<Rightarrow> bool) \<Rightarrow> segment list \<Rightarrow> segment list \<Rightarrow> bool"
  for covers where
  seg_nil: "seg_match covers [] []"
| seg_one: "p \<noteq> hash \<Longrightarrow> covers p s \<Longrightarrow> seg_match covers ps ss
             \<Longrightarrow> seg_match covers (p # ps) (s # ss)"
| seg_hash_stop: "seg_match covers ps ss \<Longrightarrow> seg_match covers (hash # ps) ss"
| seg_hash_take: "seg_match covers (hash # ps) ss \<Longrightarrow> seg_match covers (hash # ps) (s # ss)"

code_pred seg_match .

inductive_cases seg_match_NilE: "seg_match covers [] ss"
inductive_cases seg_match_hashE: "seg_match covers (hash # ps) ss"
inductive_cases seg_match_ConsE: "seg_match covers (p # ps) ss"

lemma seg_match_Nil_iff [simp]: "seg_match covers [] ss \<longleftrightarrow> ss = []"
  by (auto elim: seg_match_NilE intro: seg_match.intros)

lemma seg_match_one_iff [simp]:
  "p \<noteq> hash \<Longrightarrow> seg_match covers (p # ps) ss \<longleftrightarrow>
     (\<exists>s ss'. ss = s # ss' \<and> covers p s \<and> seg_match covers ps ss')"
  by (auto elim: seg_match_ConsE intro: seg_match.intros)

lemma seg_match_hash_absorb: "seg_match covers ps ss \<Longrightarrow> seg_match covers (hash # ps) (us @ ss)"
  by (induction us) (auto intro: seg_match.intros)

lemma seg_match_hash_iff:
  "seg_match covers (hash # ps) ss \<longleftrightarrow> (\<exists>k \<le> length ss. seg_match covers ps (drop k ss))"
proof
  assume "seg_match covers (hash # ps) ss"
  then show "\<exists>k \<le> length ss. seg_match covers ps (drop k ss)"
  proof (induction "hash # ps" ss)
    case (seg_hash_stop ss)
    then show ?case by (intro exI [of _ 0]) simp
  next
    case (seg_hash_take ss s)
    then obtain k where "k \<le> length ss" "seg_match covers ps (drop k ss)" by blast
    then show ?case by (intro exI [of _ "Suc k"]) simp
  qed simp
next
  assume "\<exists>k \<le> length ss. seg_match covers ps (drop k ss)"
  then obtain k where "seg_match covers ps (drop k ss)" by blast
  then show "seg_match covers (hash # ps) ss"
    using seg_match_hash_absorb [of covers ps "drop k ss" "take k ss"] by simp
qed

text \<open>A subject splits along any split of the pattern.\<close>

lemma seg_match_append:
  "seg_match covers (ps @ qs) ss \<longleftrightarrow>
     (\<exists>us vs. ss = us @ vs \<and> seg_match covers ps us \<and> seg_match covers qs vs)"
proof (induction ps arbitrary: ss)
  case Nil
  then show ?case by simp
next
  case (Cons p ps)
  show ?case
  proof (cases "p = hash")
    case False
    show ?thesis
    proof
      assume "seg_match covers ((p # ps) @ qs) ss"
      then obtain s us vs where "ss = s # us @ vs" "covers p s" "seg_match covers ps us"
        "seg_match covers qs vs"
        using False Cons by auto
      then show "\<exists>us vs. ss = us @ vs \<and> seg_match covers (p # ps) us \<and> seg_match covers qs vs"
        using False by (intro exI [of _ "s # us"] exI [of _ vs]) simp
    next
      assume "\<exists>us vs. ss = us @ vs \<and> seg_match covers (p # ps) us \<and> seg_match covers qs vs"
      then obtain s us vs where "ss = s # us @ vs" "covers p s" "seg_match covers ps us"
        "seg_match covers qs vs"
        using False by auto
      moreover from this have "seg_match covers (ps @ qs) (us @ vs)" using Cons by blast
      ultimately show "seg_match covers ((p # ps) @ qs) ss" using False by simp
    qed
  next
    case True
    show ?thesis
    proof
      assume "seg_match covers ((p # ps) @ qs) ss"
      then obtain k where "seg_match covers (ps @ qs) (drop k ss)"
        using True by (auto simp: seg_match_hash_iff)
      then obtain us vs where "drop k ss = us @ vs" "seg_match covers ps us" "seg_match covers qs vs"
        using Cons by blast
      then show "\<exists>us vs. ss = us @ vs \<and> seg_match covers (p # ps) us \<and> seg_match covers qs vs"
        using True seg_match_hash_absorb append_take_drop_id [of k ss]
        by (metis append.assoc)
    next
      assume "\<exists>us vs. ss = us @ vs \<and> seg_match covers (p # ps) us \<and> seg_match covers qs vs"
      then obtain us vs where ss: "ss = us @ vs" and us: "seg_match covers (hash # ps) us"
        and vs: "seg_match covers qs vs" using True by blast
      from us obtain k where k: "k \<le> length us" "seg_match covers ps (drop k us)"
        by (auto simp: seg_match_hash_iff)
      then have "seg_match covers (ps @ qs) (drop k us @ vs)" using vs Cons by blast
      then show "seg_match covers ((p # ps) @ qs) ss"
        using True ss k by (auto simp: seg_match_hash_iff intro!: exI [of _ k])
    qed
  qed
qed

lemma seg_match_literals:
  assumes "hash \<notin> set ps" and "\<And>p s. p \<in> set ps \<Longrightarrow> covers p s \<longleftrightarrow> p = s"
  shows "seg_match covers ps ss \<longleftrightarrow> ss = ps"
  using assms by (induction ps arbitrary: ss) auto

subsection \<open>The walk decides the meaning\<close>

text \<open>
  Why one backtrack point is enough: the pattern tail remembered at the last \<open>#\<close> is the
  current tail after some segments \<open>pre\<close> without a \<open>#\<close>, which took equally many subject
  segments.  Whatever an older \<open>#\<close> could still absorb, the newer one can.
\<close>

definition resume_ok ::
  "segment list \<Rightarrow> segment list \<Rightarrow> (segment list \<times> segment list) option \<Rightarrow> bool" where
  "resume_ok pat sub resume \<longleftrightarrow>
     (\<forall>ph sh. resume = Some (ph, sh) \<longrightarrow>
        (\<exists>pre us. ph = pre @ pat \<and> sh = us @ sub \<and> length pre = length us \<and> hash \<notin> set pre))"

definition resume_match ::
  "(segment \<Rightarrow> segment \<Rightarrow> bool) \<Rightarrow> (segment list \<times> segment list) option \<Rightarrow> bool" where
  "resume_match covers resume \<longleftrightarrow>
     (\<exists>ph sh k. resume = Some (ph, sh) \<and> 1 \<le> k \<and> k \<le> length sh \<and> seg_match covers ph (drop k sh))"

lemma resume_match_None [simp]: "\<not> resume_match covers None"
  by (simp add: resume_match_def)

lemma resume_match_Nil [simp]: "\<not> resume_match covers (Some (ph, []))"
  by (simp add: resume_match_def)

lemma resume_match_Cons:
  "resume_match covers (Some (ph, s # grown)) \<longleftrightarrow>
     seg_match covers ph grown \<or> resume_match covers (Some (ph, grown))"
proof
  assume "resume_match covers (Some (ph, s # grown))"
  then obtain k where "1 \<le> k" "k \<le> Suc (length grown)" "seg_match covers ph (drop k (s # grown))"
    by (auto simp: resume_match_def)
  then show "seg_match covers ph grown \<or> resume_match covers (Some (ph, grown))"
    by (cases k; cases "k - 1") (auto simp: resume_match_def)
next
  assume "seg_match covers ph grown \<or> resume_match covers (Some (ph, grown))"
  then have "\<exists>k \<le> length grown. seg_match covers ph (drop k grown)"
    by (auto simp: resume_match_def intro: exI [of _ 0])
  then obtain k where "k \<le> length grown" "seg_match covers ph (drop k grown)"
    by blast
  then show "resume_match covers (Some (ph, s # grown))"
    by (auto simp: resume_match_def intro!: exI [of _ "Suc k"])
qed

lemma resume_match_fresh:
  "seg_match covers ps sub \<or> resume_match covers (Some (ps, sub)) \<longleftrightarrow>
     (\<exists>k \<le> length sub. seg_match covers ps (drop k sub))"
  using resume_match_Cons [of covers ps undefined sub]
  by (auto simp: resume_match_def)

lemma resume_ok_fresh [simp]: "resume_ok pat sub (Some (pat, sub))" "resume_ok pat sub None"
  by (auto simp: resume_ok_def intro!: exI [of _ "[]"])

lemma resume_ok_advance:
  assumes "resume_ok (p # pat) (s # sub) resume" and "p \<noteq> hash"
  shows "resume_ok pat sub resume"
  unfolding resume_ok_def
proof (intro allI impI)
  fix ph sh
  assume "resume = Some (ph, sh)"
  then obtain pre us where "ph = pre @ p # pat" "sh = us @ s # sub" "length pre = length us"
    "hash \<notin> set pre"
    using assms(1) by (auto simp: resume_ok_def)
  then show "\<exists>pre us. ph = pre @ pat \<and> sh = us @ sub \<and> length pre = length us \<and> hash \<notin> set pre"
    using assms(2) by (intro exI [of _ "pre @ [p]"] exI [of _ "us @ [s]"]) auto
qed

lemma seg_match_same_length:
  "seg_match covers pre us \<Longrightarrow> hash \<notin> set pre \<Longrightarrow> length pre = length us"
  by (induction rule: seg_match.induct) auto

lemma resume_match_at_hash:
  assumes "resume_ok (hash # pat) sub resume" and "resume_match covers resume"
  shows "seg_match covers (hash # pat) sub"
proof -
  from assms(2) obtain ph sh k where r: "resume = Some (ph, sh)" "k \<le> length sh"
    and m: "seg_match covers ph (drop k sh)"
    by (auto simp: resume_match_def)
  from r(1) assms(1) obtain pre us where ph: "ph = pre @ hash # pat" and sh: "sh = us @ sub"
    and len: "length pre = length us" and pre: "hash \<notin> set pre"
    by (auto simp: resume_ok_def)
  from m ph obtain vs ws where split: "drop k sh = vs @ ws" "seg_match covers pre vs"
    and ws: "seg_match covers (hash # pat) ws"
    by (auto simp: seg_match_append)
  have "length vs = length us" using seg_match_same_length [OF split(2) pre] len by simp
  then have "ws = drop (length us) (drop k sh)" using split(1) by simp
  also have "\<dots> = drop k (drop (length us) sh)" by (simp add: add.commute)
  also have "\<dots> = drop k sub" using sh by simp
  finally have "ws = drop k sub" .
  moreover obtain j where "seg_match covers pat (drop j ws)"
    using ws by (auto simp: seg_match_hash_iff)
  ultimately have "seg_match covers pat (drop (j + k) sub)" by simp
  then show ?thesis
    using seg_match_hash_absorb [of covers pat "drop (j + k) sub" "take (j + k) sub"] by simp
qed

lemma match_loop_correct:
  "resume_ok pat sub resume \<Longrightarrow>
     match_loop covers pat sub resume \<longleftrightarrow> seg_match covers pat sub \<or> resume_match covers resume"
proof (induction covers pat sub resume rule: match_loop.induct)
  case (1 covers pat sub resume)
  consider (hash) "pat \<noteq> [] \<and> hd pat = hash"
    | (one) "\<not> (pat \<noteq> [] \<and> hd pat = hash)" "pat \<noteq> [] \<and> sub \<noteq> [] \<and> covers (hd pat) (hd sub)"
    | (fin) "pat = []" "sub = []"
    | (stuck) "\<not> (pat \<noteq> [] \<and> hd pat = hash)"
        "\<not> (pat \<noteq> [] \<and> sub \<noteq> [] \<and> covers (hd pat) (hd sub))" "\<not> (pat = [] \<and> sub = [])"
    by blast
  then show ?case
  proof cases
    case hash
    then obtain ps where ps: "pat = hash # ps" by (cases pat) auto
    have "match_loop covers pat sub resume \<longleftrightarrow> match_loop covers ps sub (Some (ps, sub))"
      by (subst match_loop.simps) (simp add: ps)
    also have "\<dots> \<longleftrightarrow> seg_match covers ps sub \<or> resume_match covers (Some (ps, sub))"
      using "1.IH"(1) ps by simp
    also have "\<dots> \<longleftrightarrow> seg_match covers pat sub"
      unfolding ps seg_match_hash_iff by (rule resume_match_fresh)
    finally show ?thesis
      using resume_match_at_hash [of ps sub resume covers] "1.prems" ps by auto
  next
    case (one)
    then obtain p ps s ss where one: "pat = p # ps" "p \<noteq> hash" "sub = s # ss" "covers p s"
      by (cases pat; cases sub) auto
    have "match_loop covers pat sub resume \<longleftrightarrow> match_loop covers ps ss resume"
      by (subst match_loop.simps) (simp add: one)
    also have "\<dots> \<longleftrightarrow> seg_match covers ps ss \<or> resume_match covers resume"
      using "1.IH"(2) resume_ok_advance [of p ps s ss resume] "1.prems" one by simp
    finally show ?thesis using one by simp
  next
    case fin
    then show ?thesis by (simp add: match_loop.simps)
  next
    case stuck
    have no: "\<not> seg_match covers pat sub"
      using stuck by (cases pat; cases sub) auto
    show ?thesis
    proof (cases "\<exists>ph s grown. resume = Some (ph, s # grown)")
      case True
      then obtain ph s grown where r: "resume = Some (ph, s # grown)" by blast
      have "match_loop covers pat sub resume \<longleftrightarrow> match_loop covers ph grown (Some (ph, grown))"
        unfolding match_loop.simps [of covers pat sub resume] using stuck r
        by (simp only: if_False) simp
      also have "\<dots> \<longleftrightarrow> resume_match covers resume"
        using "1.IH"(3) [OF stuck(1-3) r] by (simp add: r resume_match_Cons)
      finally show ?thesis using no by simp
    next
      case False
      then have "sh = []" if "resume = Some (ph, sh)" for ph sh
        using that by (cases sh) auto
      then have "\<not> resume_match covers resume"
        by (auto simp: resume_match_def)
      moreover have "\<not> match_loop covers pat sub resume"
        unfolding match_loop.simps [of covers pat sub resume] using stuck(1-3) False
        by (auto split: option.splits list.splits)
      ultimately show ?thesis using no by simp
    qed
  qed
qed

lemma match_segments_iff:
  "match_segments covers pattern subject \<longleftrightarrow>
     seg_match covers (split_on dot pattern) (split_on dot subject)"
  by (simp add: match_segments_def match_loop_correct)

subsection \<open>Matching\<close>

lemma seg_match_refl: "(\<And>s. covers s s) \<Longrightarrow> seg_match covers ps ps"
proof (induction ps)
  case (Cons p ps)
  then show ?case
    by (cases "p = hash") (auto intro: seg_match.intros)
qed (simp add: seg_match.intros)

lemma seg_match_only_hash: "seg_match covers [hash] ss"
  using seg_match_hash_absorb [of covers "[]" "[]" ss] by simp

lemma split_on_set: "s \<in> set (split_on c xs) \<Longrightarrow> x \<in> set s \<Longrightarrow> x \<in> set xs"
  by (induction xs arbitrary: s) (fastforce split: list.splits if_splits)+

lemma prefix_fast_path:
  assumes "CHR ''*'' \<notin> set prefix" and "CHR ''#'' \<notin> set prefix"
  shows "seg_match topic_covers (split_on dot (prefix @ ''.#'')) (split_on dot topic) \<longleftrightarrow>
     starts_with prefix topic \<and>
       (length topic = length prefix
        \<or> (length prefix < length topic \<and> topic ! length prefix = dot))"
proof -
  have lit: "p \<noteq> hash \<and> p \<noteq> star" if "p \<in> set (split_on dot prefix)" for p
    using split_on_set [OF that] assms by auto
  have lits: "seg_match topic_covers (split_on dot prefix) us \<longleftrightarrow> us = split_on dot prefix" for us
    by (rule seg_match_literals) (use lit in \<open>auto simp: topic_covers_def\<close>)
  have "seg_match topic_covers (split_on dot (prefix @ ''.#'')) (split_on dot topic) \<longleftrightarrow>
      (\<exists>us vs. split_on dot topic = us @ vs \<and> us = split_on dot prefix)"
    using lits by (simp add: split_on_append_sep seg_match_append seg_match_only_hash)
  also have "\<dots> \<longleftrightarrow> (\<exists>zs. split_on dot topic = split_on dot prefix @ zs)"
    by blast
  also have "\<dots> \<longleftrightarrow> topic = prefix \<or> (\<exists>r. topic = prefix @ dot # r)"
    by (rule split_on_prefix_iff)
  also have "\<dots> \<longleftrightarrow> starts_with prefix topic \<and>
       (length topic = length prefix
        \<or> (length prefix < length topic \<and> topic ! length prefix = dot))"
    by (auto simp: starts_with_iff) (metis list.exhaust nth_append_length)
  finally show ?thesis .
qed

text \<open>
  C1. \<open>topic_matches\<close>, fast paths included, decides exactly the RabbitMQ meaning of the
  pattern over the dot-separated segments: \<open>#\<close> any number of segments, \<open>*\<close> exactly one, a
  literal itself.
\<close>

theorem topic_matches_exact:
  "topic_matches pattern topic \<longleftrightarrow>
     seg_match topic_covers (split_on dot pattern) (split_on dot topic)"
proof -
  have "seg_match topic_covers (split_on dot hash) (split_on dot topic)"
    using seg_match_only_hash by simp
  moreover have "seg_match topic_covers (split_on dot topic) (split_on dot topic)"
    by (rule seg_match_refl) (simp add: topic_covers_def)
  moreover have "pattern = prefix @ ''.#''" if "strip_suffix ''.#'' pattern = Some prefix" for prefix
    using that by (simp add: strip_suffix_Some)
  ultimately show ?thesis
    unfolding topic_matches_def
    by (auto simp: match_segments_iff prefix_fast_path split: option.splits if_splits)
qed

subsection \<open>Containment\<close>

lemma grant_trans:
  assumes "seg_match grant_covers gs rs" and "seg_match topic_covers rs ts"
  shows "seg_match topic_covers gs ts"
  using assms
proof (induction arbitrary: ts rule: seg_match.induct)
  case seg_nil
  then show ?case by simp
next
  case (seg_one g r gs rs)
  then have "r \<noteq> hash" by (auto simp: grant_covers_def split: if_splits)
  with seg_one show ?case
    by (auto simp: grant_covers_def topic_covers_def split: if_splits)
next
  case (seg_hash_stop gs rs)
  then show ?case by (auto intro: seg_match.intros)
next
  case (seg_hash_take gs rs r)
  from seg_hash_take.prems obtain us vs where "ts = us @ vs" "seg_match topic_covers rs vs"
    using seg_match_append [of topic_covers "[r]" rs ts] by auto
  moreover have "seg_match topic_covers (hash # gs) vs" using seg_hash_take.IH calculation by blast
  ultimately show ?case
    by (metis seg_match_hash_iff seg_match_append seg_match_hash_absorb append_assoc
        append_take_drop_id)
qed

text \<open>
  C2. The access check is sound: when \<open>pattern_contains grant requested\<close> answers yes, every
  topic the requested pattern matches is matched by the grant, so a subscription can never
  reach past its grant.
\<close>

theorem pattern_contains_sound:
  assumes "pattern_contains grant requested" and "topic_matches requested topic"
  shows "topic_matches grant topic"
  using assms grant_trans
  unfolding topic_matches_exact pattern_contains_def match_segments_iff by blast

theorem pattern_contains_sound_witness:
  "pattern_contains ''a.#.secret'' ''a.b.secret'' \<and> topic_matches ''a.b.secret'' ''a.b.secret''
     \<and> topic_matches ''a.#.secret'' ''a.b.secret''"
proof -
  have g: "pattern_contains ''a.#.secret'' ''a.b.secret''"
    by (simp add: pattern_contains_def match_segments_def match_loop.simps grant_covers_def)
  have r: "topic_matches ''a.b.secret'' ''a.b.secret''" by (simp add: topic_matches_def)
  show ?thesis using g r pattern_contains_sound [OF g r] by blast
qed

end
