(* ===== verification/Dependency_Graph.thy ===== *)
theory Dependency_Graph
  imports Prelude "HOL-Library.AList" "HOL-Library.Multiset"
begin

text \<open>
  \<open>aimdb-core/src/graph.rs\<close>: the dependency graph of the records, validated once when the
  database is built.  \<open>build_and_validate_seeded\<close> checks that every transform input is a record,
  sorts the records topologically (Kahn's algorithm, optionally with a seeded choice among the
  ready records) and derives the edges.

  The hash maps are association lists (\<open>in_degree\<close>) and maps (\<open>adjacency\<close>); the code never
  iterates over them.  A decrement of a \<open>usize\<close> that is already zero would panic, so the sort
  returns an \<open>option\<close>, with \<open>None\<close> the panic.
\<close>

subsection \<open>Data\<close>

datatype record_origin =
    Source
  | Link string string
  | Transform string
  | TransformJoin "string list"
  | Passive

record schema_info =
  schema_name :: string
  schema_version :: u32

record graph_node =
  node_key :: string
  node_origin :: record_origin
  buffer_type :: string
  buffer_capacity :: "nat option"
  tap_count :: nat
  has_outbound_link :: bool
  outbound_links :: "string list"
  node_schema :: "schema_info option"

datatype edge_type =
    ESource
  | ELink string
  | ETransform
  | ETransformJoin
  | ETap nat
  | ELinkOut string

record graph_edge =
  edge_from :: "string option"
  edge_to :: "string option"
  edge_kind :: edge_type

record dependency_graph =
  graph_nodes :: "graph_node list"
  graph_edges :: "graph_edge list"
  topo_order :: "string list"

datatype graph_error =
    TransformInputNotFound string string
  | CyclicDependency "string list"

subsection \<open>The seeded choice\<close>

text \<open>\<open>SplitMix64::next\<close>: the value and the new state.\<close>

definition splitmix_next :: "u64 \<Rightarrow> u64 \<times> u64" where
  "splitmix_next s =
     (let s' = s + 0x9E3779B97F4A7C15;
          z = s';
          z = xor z (drop_bit 30 z) * 0xBF58476D1CE4E5B9;
          z = xor z (drop_bit 27 z) * 0x94D049BB133111EB
      in (xor z (drop_bit 31 z), s'))"

text \<open>\<open>SplitMix64::below\<close>: the high half of a 64 by 64 bit product.\<close>

definition splitmix_below :: "u64 \<Rightarrow> nat \<Rightarrow> nat \<times> u64" where
  "splitmix_below s len = (let (x, s') = splitmix_next s in ((unat x * len) div 2 ^ 64, s'))"

text \<open>\<open>VecDeque::swap_remove_back\<close> and \<open>VecDeque::pop_front\<close>.\<close>

definition swap_remove_back :: "nat \<Rightarrow> 'a list \<Rightarrow> ('a \<times> 'a list) option" where
  "swap_remove_back i q = (if i < length q then Some (q ! i, butlast (q[i := last q])) else None)"

definition pop_front :: "'a list \<Rightarrow> ('a \<times> 'a list) option" where
  "pop_front q = (case q of [] \<Rightarrow> None | x # xs \<Rightarrow> Some (x, xs))"

definition next_ready :: "u64 option \<Rightarrow> string list \<Rightarrow> (string \<times> string list) option \<times> u64 option" where
  "next_ready rng queue =
     (case rng of
        Some s \<Rightarrow>
          if queue \<noteq> []
          then (let (i, s') = splitmix_below s (length queue) in (swap_remove_back i queue, Some s'))
          else (pop_front queue, rng)
      | None \<Rightarrow> (pop_front queue, rng))"

subsection \<open>Kahn's algorithm\<close>

definition transform_input :: "graph_node \<Rightarrow> (string \<times> string list) option" where
  "transform_input n =
     (case node_origin n of
        Transform input \<Rightarrow> Some (node_key n, [input])
      | TransformJoin inputs \<Rightarrow> Some (node_key n, inputs)
      | _ \<Rightarrow> None)"

definition transform_inputs :: "graph_node list \<Rightarrow> (string \<times> string list) list" where
  "transform_inputs nodes = List.map_filter transform_input nodes"

text \<open>The (output, input) pairs in the order the two nested loops visit them.\<close>

definition input_pairs :: "graph_node list \<Rightarrow> (string \<times> string) list" where
  "input_pairs nodes = concat (map (\<lambda>(out, ins). map (\<lambda>i. (out, i)) ins) (transform_inputs nodes))"

definition missing_input :: "graph_node list \<Rightarrow> (string \<times> string) option" where
  "missing_input nodes = List.find (\<lambda>(out, i). i \<notin> set (map node_key nodes)) (input_pairs nodes)"

type_synonym degrees = "(string \<times> nat) list"
type_synonym adjacency = "string \<rightharpoonup> string list"

definition init_degrees :: "graph_node list \<Rightarrow> degrees" where
  "init_degrees nodes = map (\<lambda>k. (k, 0)) (remdups (map node_key nodes))"

definition init_adjacency :: "graph_node list \<Rightarrow> adjacency" where
  "init_adjacency nodes = (\<lambda>k. if k \<in> set (map node_key nodes) then Some [] else None)"

fun add_input_edges :: "(string \<times> string) list \<Rightarrow> adjacency \<Rightarrow> degrees \<Rightarrow> adjacency \<times> degrees" where
  "add_input_edges [] adj deg = (adj, deg)"
| "add_input_edges ((out, i) # ps) adj deg =
     add_input_edges ps
       (adj(i \<mapsto> (case adj i of None \<Rightarrow> [] | Some outs \<Rightarrow> outs) @ [out]))
       (AList.update out (Suc (case map_of deg out of None \<Rightarrow> 0 | Some d \<Rightarrow> d)) deg)"

fun relax :: "string list \<Rightarrow> degrees \<Rightarrow> string list \<Rightarrow> (degrees \<times> string list) option" where
  "relax [] deg queue = Some (deg, queue)"
| "relax (n # ns) deg queue =
     (case map_of deg n of
        None \<Rightarrow> relax ns deg queue
      | Some 0 \<Rightarrow> None
      | Some (Suc d) \<Rightarrow>
          relax ns (AList.update n d deg) (if d = 0 then queue @ [n] else queue))"

lemma sum_update:
  "map_of deg n = Some d \<Longrightarrow>
     sum_list (map snd (AList.update n e deg)) + d = sum_list (map snd deg) + e"
  for deg :: degrees
  by (induction deg) (auto simp: algebra_simps split: if_splits)

lemma relax_measure:
  "relax ns deg queue = Some (deg', queue') \<Longrightarrow>
     sum_list (map snd deg') + length queue' \<le> sum_list (map snd deg) + length queue"
proof (induction ns deg queue rule: relax.induct)
  case (2 n ns deg queue)
  show ?case
  proof (cases "map_of deg n")
    case None
    then show ?thesis using 2 by simp
  next
    case (Some d)
    then show ?thesis
      using 2 sum_update [OF Some, of "d - 1"] by (cases d) (force split: if_splits)+
  qed
qed simp

lemma swap_remove_back_length:
  "swap_remove_back i q = Some (x, q') \<Longrightarrow> length q = Suc (length q')"
  by (auto simp: swap_remove_back_def split: if_splits)

lemma pop_front_length: "pop_front q = Some (x, q') \<Longrightarrow> length q = Suc (length q')"
  by (cases q) (auto simp: pop_front_def)

lemma next_ready_length:
  "next_ready rng queue = (Some (n, queue'), rng') \<Longrightarrow> length queue = Suc (length queue')"
  by (auto simp: next_ready_def dest: swap_remove_back_length pop_front_length
      split: option.splits prod.splits if_splits)

function kahn_loop ::
  "adjacency \<Rightarrow> u64 option \<Rightarrow> string list \<Rightarrow> degrees \<Rightarrow> string list \<Rightarrow> (string list \<times> degrees) option" where
  "kahn_loop adj rng queue deg topo =
     (case next_ready rng queue of
        (None, rng') \<Rightarrow> Some (topo, deg)
      | (Some (node, queue'), rng') \<Rightarrow>
          (case adj node of
             None \<Rightarrow> kahn_loop adj rng' queue' deg (topo @ [node])
           | Some neighbors \<Rightarrow>
               (case relax neighbors deg queue' of
                  None \<Rightarrow> None
                | Some (deg', queue'') \<Rightarrow> kahn_loop adj rng' queue'' deg' (topo @ [node]))))"
  by pat_completeness auto
termination
proof (relation "measure (\<lambda>(adj, rng, queue, deg, topo). sum_list (map snd deg) + length queue)",
    goal_cases)
  case 1
  then show ?case by simp
next
  case (2 adj rng queue deg topo x rng' y node queue')
  then have "next_ready rng queue = (Some (node, queue'), rng')" by simp
  then show ?case by (auto dest: next_ready_length)
next
  case (3 adj rng queue deg topo x rng' y node queue' neighbors z deg' queue'')
  then have "next_ready rng queue = (Some (node, queue'), rng')"
    and "relax neighbors deg queue' = Some (deg', queue'')" by simp_all
  then show ?case by (auto dest!: next_ready_length relax_measure)
qed

declare kahn_loop.simps [simp del]

subsection \<open>Edges and the whole construction\<close>

definition origin_edges :: "graph_node \<Rightarrow> graph_edge list" where
  "origin_edges n =
     (case node_origin n of
        Source \<Rightarrow> [\<lparr>edge_from = None, edge_to = Some (node_key n), edge_kind = ESource\<rparr>]
      | Link protocol _ \<Rightarrow>
          [\<lparr>edge_from = None, edge_to = Some (node_key n), edge_kind = ELink protocol\<rparr>]
      | Transform input \<Rightarrow>
          [\<lparr>edge_from = Some input, edge_to = Some (node_key n), edge_kind = ETransform\<rparr>]
      | TransformJoin inputs \<Rightarrow>
          map (\<lambda>i. \<lparr>edge_from = Some i, edge_to = Some (node_key n), edge_kind = ETransformJoin\<rparr>) inputs
      | Passive \<Rightarrow> [])"

definition link_scheme :: "string \<Rightarrow> string" where
  "link_scheme address = (case split_once ''://'' address of None \<Rightarrow> '''' | Some (scheme, _) \<Rightarrow> scheme)"

definition node_edges :: "graph_node \<Rightarrow> graph_edge list" where
  "node_edges n =
     origin_edges n
     @ map (\<lambda>a. \<lparr>edge_from = Some (node_key n), edge_to = None, edge_kind = ELinkOut (link_scheme a)\<rparr>)
         (outbound_links n)
     @ map (\<lambda>i. \<lparr>edge_from = Some (node_key n), edge_to = None, edge_kind = ETap i\<rparr>)
         [0..<tap_count n]"

definition build_and_validate_seeded ::
  "graph_node list \<Rightarrow> u64 option \<Rightarrow> (graph_error + dependency_graph) option" where
  "build_and_validate_seeded nodes seed =
     (case missing_input nodes of
        Some (out, i) \<Rightarrow> Some (Inl (TransformInputNotFound out i))
      | None \<Rightarrow>
          (let (adj, deg) = add_input_edges (input_pairs nodes) (init_adjacency nodes) (init_degrees nodes);
               queue = filter (\<lambda>k. map_of deg k = Some 0) (map node_key nodes)
           in case kahn_loop adj seed queue deg [] of
                None \<Rightarrow> None
              | Some (topo, deg') \<Rightarrow>
                  if length topo \<noteq> length (remdups (map node_key nodes)) then
                    Some (Inl (CyclicDependency
                      (filter (\<lambda>k. case map_of deg' k of None \<Rightarrow> False | Some d \<Rightarrow> 0 < d) (map node_key nodes))))
                  else
                    Some (Inr \<lparr>graph_nodes = nodes, graph_edges = concat (map node_edges nodes),
                               topo_order = topo\<rparr>)))"

definition build_and_validate :: "graph_node list \<Rightarrow> (graph_error + dependency_graph) option" where
  "build_and_validate nodes = build_and_validate_seeded nodes None"

definition graph_node_of :: "dependency_graph \<Rightarrow> string \<Rightarrow> graph_node option" where
  "graph_node_of g key = List.find (\<lambda>n. node_key n = key) (graph_nodes g)"

subsection \<open>One relaxation\<close>

lemma relax_spec:
  assumes "\<And>n. n \<in> set ns \<Longrightarrow> \<exists>d. map_of deg n = Some d \<and> count_list ns n \<le> d"
  shows "\<exists>deg' add. relax ns deg queue = Some (deg', queue @ add)
     \<and> (\<forall>v. map_of deg' v = map_option (\<lambda>d. d - count_list ns v) (map_of deg v))
     \<and> distinct add \<and> set add = {v \<in> set ns. map_of deg v = Some (count_list ns v)}"
  using assms
proof (induction ns arbitrary: deg queue)
  case Nil
  then show ?case
    by (intro exI [of _ deg] exI [of _ "[]"]) (auto simp: option.map_ident)
next
  case (Cons n ns)
  from Cons.prems [of n] obtain d' where "map_of deg n = Some d'" "Suc (count_list ns n) \<le> d'"
    by auto
  then obtain d where d: "map_of deg n = Some (Suc d)" "count_list ns n \<le> d"
    by (cases d') auto
  let ?deg = "AList.update n d deg"
  let ?queue = "if d = 0 then queue @ [n] else queue"
  have "\<exists>e. map_of ?deg m = Some e \<and> count_list ns m \<le> e" if "m \<in> set ns" for m
    using Cons.prems [of m] that d by (auto simp: update_conv')
  from Cons.IH [of ?deg ?queue, OF this] obtain deg' add where
    r: "relax ns ?deg ?queue = Some (deg', ?queue @ add)"
      "\<And>v. map_of deg' v = map_option (\<lambda>e. e - count_list ns v) (map_of ?deg v)"
      "distinct add" "set add = {v \<in> set ns. map_of ?deg v = Some (count_list ns v)}"
    by blast
  let ?add = "(if d = 0 then [n] else []) @ add"
  have "relax (n # ns) deg queue = Some (deg', queue @ ?add)"
    using r(1) d by auto
  moreover have "map_of deg' v = map_option (\<lambda>e. e - count_list (n # ns) v) (map_of deg v)" for v
    using r(2) [of v] d by (auto simp: update_conv')
  moreover have "distinct ?add"
    using r(3,4) d by (auto simp: update_conv' count_list_0_iff)
  moreover have "set ?add = {v \<in> set (n # ns). map_of deg v = Some (count_list (n # ns) v)}"
  proof (rule set_eqI)
    fix v
    have mem: "v \<in> set add \<longleftrightarrow> v \<in> set ns \<and> map_of ?deg v = Some (count_list ns v)"
      using r(4) by simp
    show "v \<in> set ?add \<longleftrightarrow> v \<in> {v \<in> set (n # ns). map_of deg v = Some (count_list (n # ns) v)}"
    proof (cases "v = n")
      case True
      then show ?thesis using mem d by (cases "n \<in> set ns") (auto simp: update_conv')
    next
      case False
      then show ?thesis using mem by (simp add: update_conv')
    qed
  qed
  ultimately show ?case by blast
qed

subsection \<open>Degrees and adjacency lists\<close>

text \<open>How many inputs of \<open>v\<close> are not among the records already placed.\<close>

definition open_inputs :: "(string \<times> string) list \<Rightarrow> string set \<Rightarrow> string \<Rightarrow> nat" where
  "open_inputs ps placed v = length (filter (\<lambda>(out, i). out = v \<and> i \<notin> placed) ps)"

definition consumers :: "(string \<times> string) list \<Rightarrow> string \<Rightarrow> string list" where
  "consumers ps u = map fst (filter (\<lambda>(out, i). i = u) ps)"

lemma add_input_edges_spec:
  assumes "add_input_edges ps adj deg = (adj', deg')"
    and "\<And>out i. (out, i) \<in> set ps \<Longrightarrow> map_of deg out \<noteq> None \<and> adj i \<noteq> None"
  shows "map_of deg' v = map_option (\<lambda>d. d + open_inputs ps {} v) (map_of deg v)"
    and "adj' u = map_option (\<lambda>outs. outs @ consumers ps u) (adj u)"
  using assms
proof (induction ps arbitrary: adj deg)
  case Nil
  {
    case 1
    then show ?case by (simp add: open_inputs_def option.map_ident)
  next
    case 2
    then show ?case by (simp add: consumers_def option.map_ident)
  }
next
  case (Cons p ps)
  obtain out i where p: "p = (out, i)" by fastforce
  {
    case 1
    obtain d outs where d: "map_of deg out = Some d" "adj i = Some outs"
      using 1(2) [of out i] p by auto
    have "map_of deg' v =
        map_option (\<lambda>e. e + open_inputs ps {} v) (map_of (AList.update out (Suc d) deg) v)"
    proof (rule Cons.IH(1) [of "adj(i \<mapsto> outs @ [out])"])
      show "add_input_edges ps (adj(i \<mapsto> outs @ [out])) (AList.update out (Suc d) deg) = (adj', deg')"
        using 1(1) p d by simp
    qed (use 1(2) p in \<open>auto simp: update_conv'\<close>)
    then show ?case using d p by (auto simp: update_conv' open_inputs_def)
  next
    case 2
    obtain d outs where d: "map_of deg out = Some d" "adj i = Some outs"
      using 2(2) [of out i] p by auto
    have "adj' u = map_option (\<lambda>os. os @ consumers ps u) ((adj(i \<mapsto> outs @ [out])) u)"
    proof (rule Cons.IH(2) [of "adj(i \<mapsto> outs @ [out])" "AList.update out (Suc d) deg"])
      show "add_input_edges ps (adj(i \<mapsto> outs @ [out])) (AList.update out (Suc d) deg) = (adj', deg')"
        using 2(1) p d by simp
    qed (use 2(2) p in \<open>auto simp: update_conv'\<close>)
    then show ?case using d p by (auto simp: consumers_def)
  }
qed

lemma count_consumers: "count_list (consumers ps u) v = length (filter (\<lambda>(out, i). out = v \<and> i = u) ps)"
  by (induction ps) (auto simp: consumers_def)

lemma set_consumers: "v \<in> set (consumers ps u) \<longleftrightarrow> (v, u) \<in> set ps"
  by (force simp: consumers_def)

lemma open_inputs_insert:
  "u \<notin> placed \<Longrightarrow>
     open_inputs ps placed v = open_inputs ps (insert u placed) v + count_list (consumers ps u) v"
  unfolding count_consumers by (induction ps) (auto simp: open_inputs_def)

lemma open_inputs_0: "open_inputs ps placed v = 0 \<longleftrightarrow> (\<forall>i. (v, i) \<in> set ps \<longrightarrow> i \<in> placed)"
  by (auto simp: open_inputs_def filter_empty_conv)

subsection \<open>The loop invariant\<close>

definition inputs_before :: "(string \<times> string) list \<Rightarrow> string list \<Rightarrow> bool" where
  "inputs_before ps topo \<longleftrightarrow>
     (\<forall>xs v ys. topo = xs @ v # ys \<longrightarrow> (\<forall>i. (v, i) \<in> set ps \<longrightarrow> i \<in> set xs))"

definition kahn_inv ::
  "string set \<Rightarrow> (string \<times> string) list \<Rightarrow> string list \<Rightarrow> degrees \<Rightarrow> string list \<Rightarrow> bool" where
  "kahn_inv keys ps queue deg topo \<longleftrightarrow>
     distinct (topo @ queue) \<and> set (topo @ queue) \<subseteq> keys
     \<and> (\<forall>v. map_of deg v = (if v \<in> keys then Some (open_inputs ps (set topo) v) else None))
     \<and> (\<forall>v \<in> keys. v \<in> set (topo @ queue) \<longleftrightarrow> open_inputs ps (set topo) v = 0)
     \<and> inputs_before ps topo"

lemma swap_remove_back_mset:
  assumes "swap_remove_back i q = Some (x, q')"
  shows "mset q = add_mset x (mset q')"
proof -
  from assms have i: "i < length q" and x: "x = q ! i" and q': "q' = butlast (q[i := last q])"
    by (auto simp: swap_remove_back_def split: if_splits)
  then have "q \<noteq> []" by auto
  then have "q' @ [last q] = q[i := last q]"
    using append_butlast_last_id [of "q[i := last q]"] q' last_list_update [of q i "last q"] by auto
  then have "add_mset (last q) (mset q') = mset (q[i := last q])"
    by (metis add_mset_add_single mset_append mset_single_iff)
  also have "\<dots> = add_mset (last q) (mset q - {#q ! i#})"
    using i by (rule mset_update)
  finally have "mset q' = mset q - {#q ! i#}" by simp
  then show ?thesis using i x by simp
qed

lemma next_ready_mset:
  "next_ready rng queue = (Some (n, queue'), rng') \<Longrightarrow> mset queue = add_mset n (mset queue')"
  by (auto simp: next_ready_def pop_front_def dest: swap_remove_back_mset
      split: option.splits prod.splits if_splits list.splits)

lemma next_ready_spec:
  assumes "next_ready rng queue = (Some (n, queue'), rng')"
  shows "set queue = insert n (set queue')"
    and "distinct queue \<longleftrightarrow> distinct queue' \<and> n \<notin> set queue'"
proof -
  have "mset queue = mset (n # queue')" using next_ready_mset [OF assms] by simp
  then show "set queue = insert n (set queue')"
    and "distinct queue \<longleftrightarrow> distinct queue' \<and> n \<notin> set queue'"
    using mset_eq_setD [of queue "n # queue'"] mset_eq_imp_distinct_iff [of queue "n # queue'"]
    by auto
qed

lemma splitmix_below_bound: "0 < len \<Longrightarrow> fst (splitmix_below s len) < len"
proof -
  assume "0 < len"
  have "unat x * len < 2 ^ 64 * len" for x :: u64
    using \<open>0 < len\<close> unsigned_less [of x] by (intro mult_strict_right_mono) auto
  then have "unat x * len div 2 ^ 64 < len" for x :: u64
    by (simp add: less_mult_imp_div_less mult.commute)
  then show ?thesis by (simp add: splitmix_below_def split: prod.splits)
qed

lemma next_ready_None: "fst (next_ready rng queue) = None \<longleftrightarrow> queue = []"
proof (cases "rng")
  case None
  then show ?thesis by (simp add: next_ready_def pop_front_def split: list.splits)
next
  case (Some s)
  obtain i s' where b: "splitmix_below s (length queue) = (i, s')" by fastforce
  have "queue \<noteq> [] \<Longrightarrow> i < length queue" using splitmix_below_bound [of "length queue" s] b by simp
  then show ?thesis using Some b
    by (auto simp: next_ready_def swap_remove_back_def pop_front_def split: prod.splits)
qed

lemma inputs_before_snoc:
  assumes "inputs_before ps topo" and "\<And>i. (v, i) \<in> set ps \<Longrightarrow> i \<in> set topo"
  shows "inputs_before ps (topo @ [v])"
  unfolding inputs_before_def
proof (intro allI impI)
  fix xs w ys i
  assume "topo @ [v] = xs @ w # ys" and "(w, i) \<in> set ps"
  then show "i \<in> set xs"
    using assms by (cases ys rule: rev_cases) (auto simp: inputs_before_def)
qed

text \<open>What the sort starts from: every record has its list of consumers.\<close>

definition kahn_setup :: "string set \<Rightarrow> (string \<times> string) list \<Rightarrow> adjacency \<Rightarrow> bool" where
  "kahn_setup keys ps adj \<longleftrightarrow>
     (\<forall>out i. (out, i) \<in> set ps \<longrightarrow> out \<in> keys \<and> i \<in> keys)
     \<and> (\<forall>u. adj u = (if u \<in> keys then Some (consumers ps u) else None))"

lemma kahn_step:
  assumes su: "kahn_setup keys ps adj" and inv: "kahn_inv keys ps queue deg topo"
    and nr: "next_ready rng queue = (Some (n, queue'), rng')"
  shows "\<exists>deg' queue''. adj n = Some (consumers ps n)
     \<and> relax (consumers ps n) deg queue' = Some (deg', queue'')
     \<and> kahn_inv keys ps queue'' deg' (topo @ [n])"
proof -
  note q = next_ready_spec [OF nr]
  let ?P = "set topo"
  from inv have dist: "distinct (topo @ queue)" and sub: "set (topo @ queue) \<subseteq> keys"
    and deg: "\<And>v. map_of deg v = (if v \<in> keys then Some (open_inputs ps ?P v) else None)"
    and ready: "\<And>v. v \<in> keys \<Longrightarrow> v \<in> set (topo @ queue) \<longleftrightarrow> open_inputs ps ?P v = 0"
    and before: "inputs_before ps topo"
    by (auto simp: kahn_inv_def)
  have n: "n \<in> keys" "n \<notin> ?P" "open_inputs ps ?P n = 0" "n \<in> set queue"
    using sub dist ready [of n] q(1) by auto
  have consumer: "v \<in> keys" if "v \<in> set (consumers ps n)" for v
    using that su by (auto simp: kahn_setup_def set_consumers)
  have open_n: "open_inputs ps ?P v = open_inputs ps (insert n ?P) v + count_list (consumers ps n) v" for v
    by (rule open_inputs_insert) (rule n(2))
  have pre: "\<exists>d. map_of deg v = Some d \<and> count_list (consumers ps n) v \<le> d"
    if "v \<in> set (consumers ps n)" for v
    using deg [of v] consumer [OF that] open_n [of v] by auto
  from relax_spec [OF pre, of queue'] obtain deg' add where
    r: "relax (consumers ps n) deg queue' = Some (deg', queue' @ add)"
    and deg': "\<And>v. map_of deg' v = map_option (\<lambda>d. d - count_list (consumers ps n) v) (map_of deg v)"
    and add: "distinct add"
      "set add = {v \<in> set (consumers ps n). map_of deg v = Some (count_list (consumers ps n) v)}"
    by blast
  have in_add: "v \<in> set add \<longleftrightarrow> v \<in> keys \<and> open_inputs ps ?P v \<noteq> 0 \<and> open_inputs ps (insert n ?P) v = 0" for v
  proof (cases "v \<in> set (consumers ps n)")
    case True
    then have "count_list (consumers ps n) v \<noteq> 0" by (simp add: count_list_0_iff)
    then show ?thesis using True add(2) deg [of v] consumer [OF True] open_n [of v] by simp
  next
    case False
    then have "count_list (consumers ps n) v = 0" by (simp add: count_list_0_iff)
    then show ?thesis using False add(2) open_n [of v] by auto
  qed
  have fresh: "v \<notin> set (topo @ queue)" if "v \<in> set add" for v
    using that in_add [of v] ready [of v] by auto
  have "kahn_inv keys ps (queue' @ add) deg' (topo @ [n])"
    unfolding kahn_inv_def
  proof (intro conjI allI ballI)
    show "distinct ((topo @ [n]) @ queue' @ add)"
      using dist q add(1) fresh n(2) by auto
    show "set ((topo @ [n]) @ queue' @ add) \<subseteq> keys"
      using sub q(1) in_add by auto
    show "map_of deg' v = (if v \<in> keys then Some (open_inputs ps (set (topo @ [n])) v) else None)" for v
      using deg' [of v] deg [of v] open_n [of v] by simp
    show "v \<in> set ((topo @ [n]) @ queue' @ add) \<longleftrightarrow> open_inputs ps (set (topo @ [n])) v = 0"
      if "v \<in> keys" for v
      using ready [OF that] in_add [of v] open_n [of v] q(1) that by auto
    show "inputs_before ps (topo @ [n])"
      by (rule inputs_before_snoc [OF before]) (use n(3) in \<open>simp add: open_inputs_0\<close>)
  qed
  then show ?thesis using r n(1) su by (auto simp: kahn_setup_def)
qed

lemma kahn_loop_correct:
  assumes "kahn_setup keys ps adj" and "kahn_inv keys ps queue deg topo"
  shows "\<exists>topo' deg'. kahn_loop adj rng queue deg topo = Some (topo', deg') \<and> kahn_inv keys ps [] deg' topo'"
  using assms
proof (induction adj rng queue deg topo rule: kahn_loop.induct)
  case (1 adj rng queue deg topo)
  obtain nx rng' where nr: "next_ready rng queue = (nx, rng')" by fastforce
  show ?case
  proof (cases nx)
    case None
    then have "queue = []" using nr next_ready_None [of rng queue] by simp
    then show ?thesis using "1.prems" nr None by (subst kahn_loop.simps) auto
  next
    case (Some nq)
    then obtain n queue' where nq: "next_ready rng queue = (Some (n, queue'), rng')"
      using nr by (cases nq) auto
    from kahn_step [OF "1.prems" nq] obtain deg' queue'' where
      s: "adj n = Some (consumers ps n)" "relax (consumers ps n) deg queue' = Some (deg', queue'')"
        "kahn_inv keys ps queue'' deg' (topo @ [n])"
      by blast
    have "kahn_loop adj rng queue deg topo = kahn_loop adj rng' queue'' deg' (topo @ [n])"
      by (subst kahn_loop.simps) (simp add: nq s(1,2))
    then show ?thesis
      using "1.IH"(2) [OF nq [symmetric] refl refl s(1) s(2) refl "1.prems"(1) s(3)] by simp
  qed
qed

subsection \<open>The construction\<close>

definition node_keys :: "graph_node list \<Rightarrow> string list" where
  "node_keys nodes = map node_key nodes"

text \<open>The dependency relation of the records: from an input to its consumer.\<close>

definition depends :: "graph_node list \<Rightarrow> (string \<times> string) set" where
  "depends nodes = {(i, out). (out, i) \<in> set (input_pairs nodes)}"

lemma missing_input_None:
  "missing_input nodes = None \<longleftrightarrow> (\<forall>(out, i) \<in> set (input_pairs nodes). i \<in> set (node_keys nodes))"
  by (auto simp: missing_input_def find_None_iff node_keys_def split: prod.splits)

lemma transform_input_key: "transform_input n = Some (out, ins) \<Longrightarrow> out = node_key n"
  by (cases "node_origin n") (auto simp: transform_input_def)

lemma input_pairs_iff:
  "(out, i) \<in> set (input_pairs nodes) \<longleftrightarrow>
     (\<exists>n \<in> set nodes. \<exists>ins. transform_input n = Some (out, ins) \<and> i \<in> set ins)"
  unfolding input_pairs_def transform_inputs_def map_filter_def
  by (auto simp: image_iff) force+

lemma input_pairs_out: "(out, i) \<in> set (input_pairs nodes) \<Longrightarrow> out \<in> set (node_keys nodes)"
  by (auto simp: input_pairs_iff node_keys_def dest!: transform_input_key)

lemma map_of_init_degrees:
  "map_of (init_degrees nodes) v = (if v \<in> set (node_keys nodes) then Some 0 else None)"
  by (simp add: init_degrees_def node_keys_def map_of_map_restrict restrict_map_def)

lemma open_inputs_initial: "kahn_inv keys ps queue deg [] \<longleftrightarrow>
   distinct queue \<and> set queue \<subseteq> keys
   \<and> (\<forall>v. map_of deg v = (if v \<in> keys then Some (open_inputs ps {} v) else None))
   \<and> (\<forall>v \<in> keys. v \<in> set queue \<longleftrightarrow> open_inputs ps {} v = 0)"
  by (simp add: kahn_inv_def inputs_before_def)

lemma kahn_initial:
  assumes "distinct (node_keys nodes)" and "missing_input nodes = None"
    and "add_input_edges (input_pairs nodes) (init_adjacency nodes) (init_degrees nodes) = (adj, deg)"
  shows "kahn_setup (set (node_keys nodes)) (input_pairs nodes) adj"
    and "kahn_inv (set (node_keys nodes)) (input_pairs nodes)
           (filter (\<lambda>k. map_of deg k = Some 0) (map node_key nodes)) deg []"
proof -
  let ?ps = "input_pairs nodes" and ?keys = "set (node_keys nodes)"
  have ends: "out \<in> ?keys \<and> i \<in> ?keys" if "(out, i) \<in> set ?ps" for out i
    using that assms(2) input_pairs_out by (auto simp: missing_input_None)
  have known: "map_of (init_degrees nodes) out \<noteq> None \<and> init_adjacency nodes i \<noteq> None"
    if "(out, i) \<in> set ?ps" for out i
    using ends [OF that] by (simp add: map_of_init_degrees init_adjacency_def node_keys_def)
  have deg: "map_of deg v = (if v \<in> ?keys then Some (open_inputs ?ps {} v) else None)" for v
    using add_input_edges_spec(1) [OF assms(3) known, of v] by (simp add: map_of_init_degrees)
  have "adj u = (if u \<in> ?keys then Some (consumers ?ps u) else None)" for u
    using add_input_edges_spec(2) [OF assms(3) known, of u]
    by (simp add: init_adjacency_def node_keys_def)
  then show "kahn_setup ?keys ?ps adj" using ends by (simp add: kahn_setup_def)
  show "kahn_inv ?keys ?ps (filter (\<lambda>k. map_of deg k = Some 0) (map node_key nodes)) deg []"
    unfolding open_inputs_initial
    using deg assms(1) by (auto simp: node_keys_def distinct_map)
qed

lemma depends_ranked:
  assumes "distinct topo" and "inputs_before ps topo" and "(out, i) \<in> set ps" and "out \<in> set topo"
  shows "\<exists>xs ys zs. topo = xs @ i # ys @ out # zs"
proof -
  obtain xs zs where t: "topo = xs @ out # zs" using assms(4) by (auto simp: in_set_conv_decomp)
  then have "i \<in> set xs" using assms(2,3) by (auto simp: inputs_before_def)
  then obtain us vs where "xs = us @ i # vs" by (auto simp: in_set_conv_decomp)
  then show ?thesis using t by auto
qed

lemma inputs_before_acyclic:
  assumes "distinct topo" and "inputs_before ps topo" and "\<And>out i. (out, i) \<in> set ps \<Longrightarrow> out \<in> set topo"
  shows "acyclic {(i, out). (out, i) \<in> set ps}"
proof -
  define rank where "rank v = the (position (\<lambda>x. x = v) topo)" for v
  have "rank i < rank out" if dep: "(out, i) \<in> set ps" for out i
  proof -
    obtain xs ys zs where t: "topo = xs @ i # ys @ out # zs"
      using depends_ranked [OF assms(1,2) dep assms(3) [OF dep]] by blast
    have "position (\<lambda>x. x = i) topo = Some (length xs)"
      using t assms(1) by (auto intro!: position_append_first)
    moreover have "position (\<lambda>x. x = out) ((xs @ i # ys) @ out # zs) = Some (length (xs @ i # ys))"
      by (rule position_append_first) (use t assms(1) in auto)
    ultimately show ?thesis using t by (simp add: rank_def)
  qed
  then have "{(i, out). (out, i) \<in> set ps} \<subseteq> measure rank" by auto
  then show ?thesis using wf_acyclic wf_subset wf_measure by metis
qed

lemma blocked_cyclic:
  assumes "finite keys" and "v \<in> keys - P"
    and "\<And>v. v \<in> keys - P \<Longrightarrow> \<exists>i \<in> keys - P. (v, i) \<in> set ps"
  shows "\<not> acyclic {(i, out). (out, i) \<in> set ps}"
proof
  let ?R = "{(i, out). (out, i) \<in> set ps}"
  assume "acyclic ?R"
  moreover have "finite ?R"
    by (rule finite_subset [of _ "(\<lambda>(out, i). (i, out)) ` set ps"]) auto
  ultimately have "wf ?R" by (simp add: finite_acyclic_wf)
  then obtain z where "z \<in> keys - P" "\<And>y. (y, z) \<in> ?R \<Longrightarrow> y \<notin> keys - P"
    using assms(2) wfE_min by metis
  then show False using assms(3) by auto
qed

lemma blocked_input:
  assumes "kahn_inv keys ps [] deg topo" and "snd ` set ps \<subseteq> keys" and "v \<in> keys - set topo"
  shows "\<exists>i \<in> keys - set topo. (v, i) \<in> set ps"
proof -
  have "open_inputs ps (set topo) v \<noteq> 0" using assms(1,3) by (auto simp: kahn_inv_def)
  then obtain i where "(v, i) \<in> set ps" "i \<notin> set topo" by (auto simp: open_inputs_0)
  then show ?thesis using assms(2) by force
qed

text \<open>The shape of every run on distinct keys whose inputs exist.\<close>

lemma build_run:
  assumes "distinct (node_keys nodes)" and "missing_input nodes = None"
  obtains topo deg' where
    "build_and_validate_seeded nodes seed =
       (if length topo \<noteq> length nodes
        then Some (Inl (CyclicDependency (filter (\<lambda>k. k \<notin> set topo) (node_keys nodes))))
        else Some (Inr \<lparr>graph_nodes = nodes, graph_edges = concat (map node_edges nodes),
                        topo_order = topo\<rparr>))"
    and "kahn_inv (set (node_keys nodes)) (input_pairs nodes) [] deg' topo"
proof -
  obtain adj deg where ad:
    "add_input_edges (input_pairs nodes) (init_adjacency nodes) (init_degrees nodes) = (adj, deg)"
    by fastforce
  obtain topo deg' where k: "kahn_loop adj seed
      (filter (\<lambda>k. map_of deg k = Some 0) (map node_key nodes)) deg [] = Some (topo, deg')"
    and inv: "kahn_inv (set (node_keys nodes)) (input_pairs nodes) [] deg' topo"
    using kahn_loop_correct [OF kahn_initial [OF assms ad]] by blast
  have stuck: "filter (\<lambda>k. case map_of deg' k of None \<Rightarrow> False | Some d \<Rightarrow> 0 < d) (map node_key nodes)
      = filter (\<lambda>k. k \<notin> set topo) (node_keys nodes)"
    unfolding node_keys_def
    by (rule filter_cong) (use inv in \<open>auto simp: kahn_inv_def node_keys_def\<close>)
  have "length (remdups (map node_key nodes)) = length nodes"
    using assms(1) by (simp add: node_keys_def distinct_remdups_id)
  then have "build_and_validate_seeded nodes seed =
       (if length topo \<noteq> length nodes
        then Some (Inl (CyclicDependency (filter (\<lambda>k. k \<notin> set topo) (node_keys nodes))))
        else Some (Inr \<lparr>graph_nodes = nodes, graph_edges = concat (map node_edges nodes),
                        topo_order = topo\<rparr>))"
    by (simp add: build_and_validate_seeded_def assms(2) ad k stuck [unfolded node_keys_def] node_keys_def)
  then show thesis using inv that by blast
qed

lemma kahn_inv_complete:
  assumes "kahn_inv (set ks) ps [] deg topo" and "distinct ks"
  shows "length topo = length ks \<longleftrightarrow> set topo = set ks"
proof -
  have t: "distinct topo" "set topo \<subseteq> set ks" using assms(1) by (auto simp: kahn_inv_def)
  then have "length topo = card (set topo)" "length ks = card (set ks)"
    using assms(2) by (simp_all add: distinct_card)
  then show ?thesis using t(2) by (metis List.finite_set card_subset_eq)
qed

subsection \<open>Properties\<close>

text \<open>
  C23. An accepted graph is in dependency order whatever the seed: every record is placed
  exactly once, and after every input of its transform.
\<close>

theorem build_topo_order:
  assumes "distinct (node_keys nodes)" and "build_and_validate_seeded nodes seed = Some (Inr g)"
  shows "distinct (topo_order g) \<and> set (topo_order g) = set (node_keys nodes)
     \<and> inputs_before (input_pairs nodes) (topo_order g)"
proof -
  have "missing_input nodes = None"
    using assms(2) by (cases "missing_input nodes") (auto simp: build_and_validate_seeded_def)
  from build_run [OF assms(1) this, of seed] obtain topo deg' where
    r: "build_and_validate_seeded nodes seed =
       (if length topo \<noteq> length nodes
        then Some (Inl (CyclicDependency (filter (\<lambda>k. k \<notin> set topo) (node_keys nodes))))
        else Some (Inr \<lparr>graph_nodes = nodes, graph_edges = concat (map node_edges nodes),
                        topo_order = topo\<rparr>))"
    and inv: "kahn_inv (set (node_keys nodes)) (input_pairs nodes) [] deg' topo"
    by blast
  from r assms(2) have "topo_order g = topo" "length topo = length nodes"
    by (auto split: if_splits)
  then show ?thesis
    using inv kahn_inv_complete [OF inv assms(1)] by (simp add: kahn_inv_def node_keys_def)
qed

text \<open>
  The verdict is exact and never a panic: a graph of records with distinct keys is
  accepted if and only if every transform input is a record and the dependency relation has
  no cycle; in particular the verdict does not depend on the seed.
\<close>

theorem build_accepts_iff:
  assumes "distinct (node_keys nodes)"
  shows "build_and_validate_seeded nodes seed \<noteq> None
     \<and> ((\<exists>g. build_and_validate_seeded nodes seed = Some (Inr g)) \<longleftrightarrow>
          snd ` set (input_pairs nodes) \<subseteq> set (node_keys nodes) \<and> acyclic (depends nodes))"
proof (cases "missing_input nodes")
  case (Some oi)
  then have "\<not> snd ` set (input_pairs nodes) \<subseteq> set (node_keys nodes)"
    using missing_input_None [of nodes] by force
  then show ?thesis
    using Some by (auto simp: build_and_validate_seeded_def split: prod.splits)
next
  case None
  let ?keys = "set (node_keys nodes)" and ?ps = "input_pairs nodes"
  have known: "snd ` set ?ps \<subseteq> ?keys" using None missing_input_None [of nodes] by force
  from build_run [OF assms None, of seed] obtain topo deg' where
    r: "build_and_validate_seeded nodes seed =
       (if length topo \<noteq> length nodes
        then Some (Inl (CyclicDependency (filter (\<lambda>k. k \<notin> set topo) (node_keys nodes))))
        else Some (Inr \<lparr>graph_nodes = nodes, graph_edges = concat (map node_edges nodes),
                        topo_order = topo\<rparr>))"
    and inv: "kahn_inv ?keys ?ps [] deg' topo"
    by blast
  have full: "length topo = length nodes \<longleftrightarrow> set topo = ?keys"
    using kahn_inv_complete [OF inv assms] by (simp add: node_keys_def)
  have "set topo = ?keys \<longleftrightarrow> acyclic (depends nodes)"
  proof
    assume "set topo = ?keys"
    then show "acyclic (depends nodes)"
      unfolding depends_def
      by (intro inputs_before_acyclic [of topo]) (use inv input_pairs_out in \<open>auto simp: kahn_inv_def\<close>)
  next
    assume ac: "acyclic (depends nodes)"
    show "set topo = ?keys"
    proof (rule ccontr)
      assume "set topo \<noteq> ?keys"
      then obtain v where v: "v \<in> ?keys - set topo" using inv by (auto simp: kahn_inv_def)
      have "\<exists>i \<in> ?keys - set topo. (w, i) \<in> set ?ps" if "w \<in> ?keys - set topo" for w
        by (rule blocked_input [OF inv known that])
      then show False using blocked_cyclic [OF _ v] ac by (auto simp: depends_def)
    qed
  qed
  then show ?thesis using r full known by auto
qed

text \<open>
  What the two errors name.  A missing-input error names a record and one of its inputs
  that is no record; a cycle error names records each of which waits for another named
  record, and there is at least one.
\<close>

theorem build_errors:
  assumes "distinct (node_keys nodes)" and "build_and_validate_seeded nodes seed = Some (Inl e)"
  shows "case e of
      TransformInputNotFound out i \<Rightarrow> (out, i) \<in> set (input_pairs nodes) \<and> i \<notin> set (node_keys nodes)
    | CyclicDependency ks \<Rightarrow>
        ks \<noteq> [] \<and> set ks \<subseteq> set (node_keys nodes)
        \<and> (\<forall>v \<in> set ks. \<exists>i \<in> set ks. (v, i) \<in> set (input_pairs nodes))"
proof (cases "missing_input nodes")
  case (Some oi)
  then obtain out i where oi: "missing_input nodes = Some (out, i)" by (cases oi) auto
  then have "(out, i) \<in> set (input_pairs nodes) \<and> i \<notin> set (node_keys nodes)"
    unfolding missing_input_def node_keys_def by (auto simp: find_Some_iff) (metis nth_mem)
  then show ?thesis using assms(2) oi by (auto simp: build_and_validate_seeded_def)
next
  case None
  let ?keys = "set (node_keys nodes)" and ?ps = "input_pairs nodes"
  from build_run [OF assms(1) None, of seed] obtain topo deg' where
    r: "build_and_validate_seeded nodes seed =
       (if length topo \<noteq> length nodes
        then Some (Inl (CyclicDependency (filter (\<lambda>k. k \<notin> set topo) (node_keys nodes))))
        else Some (Inr \<lparr>graph_nodes = nodes, graph_edges = concat (map node_edges nodes),
                        topo_order = topo\<rparr>))"
    and inv: "kahn_inv ?keys ?ps [] deg' topo"
    by blast
  from r assms(2) have e: "e = CyclicDependency (filter (\<lambda>k. k \<notin> set topo) (node_keys nodes))"
    and len: "length topo \<noteq> length nodes" by (auto split: if_splits)
  have "filter (\<lambda>k. k \<notin> set topo) (node_keys nodes) \<noteq> []"
    using len kahn_inv_complete [OF inv assms(1)] inv
    by (auto simp: filter_empty_conv kahn_inv_def node_keys_def)
  moreover have "snd ` set ?ps \<subseteq> ?keys" using None missing_input_None [of nodes] by force
  then have "\<exists>i \<in> ?keys - set topo. (v, i) \<in> set ?ps" if "v \<in> ?keys - set topo" for v
    by (rule blocked_input [OF inv _ that])
  ultimately show ?thesis using e by auto
qed

text \<open>A record with the given origin and nothing attached.\<close>

definition plain_node :: "string \<Rightarrow> record_origin \<Rightarrow> graph_node" where
  "plain_node k r =
     \<lparr>node_key = k, node_origin = r, buffer_type = ''single_latest'', buffer_capacity = None,
      tap_count = 0, has_outbound_link = False, outbound_links = [], node_schema = None\<rparr>"

lemma build_demo_run:
  "map_option (map_sum id topo_order) (build_and_validate_seeded
      [plain_node ''b'' (Transform ''a''), plain_node ''a'' Source] None)
     = Some (Inr [''a'', ''b''])"
  by code_simp

lemma build_demo_accepts:
  "\<exists>g. build_and_validate_seeded
      [plain_node ''b'' (Transform ''a''), plain_node ''a'' Source] None = Some (Inr g)
     \<and> topo_order g = [''a'', ''b'']"
  using build_demo_run
  by (cases "build_and_validate_seeded
      [plain_node ''b'' (Transform ''a''), plain_node ''a'' Source] None")
    (auto simp: map_sum_def split: sum.splits)

lemma build_demo_cycle_run:
  "map_option (map_sum id topo_order) (build_and_validate_seeded
      [plain_node ''a'' (Transform ''a''), plain_node ''b'' (Transform ''a'')] None)
     = Some (Inl (CyclicDependency [''a'', ''b'']))"
  by code_simp

text \<open>A record downstream of a cycle is named too, though it is on no cycle itself.\<close>

lemma build_demo_cycle:
  "build_and_validate_seeded
      [plain_node ''a'' (Transform ''a''), plain_node ''b'' (Transform ''a'')] None
     = Some (Inl (CyclicDependency [''a'', ''b'']))"
  using build_demo_cycle_run
  by (cases "build_and_validate_seeded
      [plain_node ''a'' (Transform ''a''), plain_node ''b'' (Transform ''a'')] None")
    (auto simp: map_sum_def split: sum.splits)

theorem build_topo_order_witness:
  "\<exists>g. build_and_validate_seeded
        [plain_node ''b'' (Transform ''a''), plain_node ''a'' Source] None = Some (Inr g)
     \<and> distinct (topo_order g)"
proof -
  have d: "distinct (node_keys [plain_node ''b'' (Transform ''a''), plain_node ''a'' Source])"
    by code_simp
  from build_demo_accepts show ?thesis using build_topo_order [OF d] by blast
qed

theorem build_accepts_iff_witness:
  "acyclic (depends [plain_node ''b'' (Transform ''a''), plain_node ''a'' Source])"
proof -
  have d: "distinct (node_keys [plain_node ''b'' (Transform ''a''), plain_node ''a'' Source])"
    by code_simp
  from build_demo_accepts show ?thesis using build_accepts_iff [OF d, of None] by blast
qed

theorem build_errors_witness:
  "(\<exists>i \<in> {''a'', ''b''}.
      (''a'', i) \<in> set (input_pairs [plain_node ''a'' (Transform ''a''), plain_node ''b'' (Transform ''a'')]))
   \<and> (\<exists>i \<in> {''a'', ''b''}.
      (''b'', i) \<in> set (input_pairs [plain_node ''a'' (Transform ''a''), plain_node ''b'' (Transform ''a'')]))"
proof -
  have d: "distinct (node_keys [plain_node ''a'' (Transform ''a''), plain_node ''b'' (Transform ''a'')])"
    by code_simp
  from build_errors [OF d build_demo_cycle] show ?thesis by simp
qed

end
