(* ===== verification/Framed_Connection.thy ===== *)
theory Framed_Connection
  imports Prelude
begin

text \<open>
  \<open>aimdb-core/src/session/io.rs\<close>: a byte stream and a framer make a connection.  The framer is
  an interface (the locale \<open>stream_framer\<close>); the TCP length prefix and the serial COBS framing
  provide it in their own theories.  The byte stream belongs to the runtime adapter: its reads
  are a script of outcomes and its writes a parameter.
\<close>

subsection \<open>Data\<close>

datatype transport_error = Closed | Io | Framing | Busy

datatype frame_fault = Recoverable | Fatal

text \<open>What one \<open>read\<close> of the stream yields; no bytes is the end of the stream.\<close>

datatype read_result = ReadBytes bytes | ReadErr transport_error

text \<open>What \<open>recv\<close> yields: a frame, the end of the stream, or an error.\<close>

datatype recv_result = RecvFrame bytes | RecvClosed | RecvErr transport_error

subsection \<open>Receiving\<close>

text \<open>
  \<open>FramedConnection::recv\<close>.  The loop ends only if the framer makes progress on a recoverable
  fault, which is a law of the interface, so it is a partial function here.  When the script
  of reads is over the peer has closed.
\<close>

partial_function (option) recv ::
  "(bytes \<Rightarrow> 'f \<Rightarrow> 'f) \<Rightarrow> ('f \<Rightarrow> (frame_fault + bytes) option \<times> 'f) \<Rightarrow> 'f \<Rightarrow> read_result list
     \<Rightarrow> (recv_result \<times> 'f \<times> read_result list) option" where
  "recv push next_frame f reads =
     (case next_frame f of
        (Some (Inr frame), f') \<Rightarrow> Some (RecvFrame frame, f', reads)
      | (Some (Inl Recoverable), f') \<Rightarrow> recv push next_frame f' reads
      | (Some (Inl Fatal), f') \<Rightarrow> Some (RecvErr Framing, f', reads)
      | (None, f') \<Rightarrow>
          (case reads of
             [] \<Rightarrow> Some (RecvClosed, f', [])
           | ReadErr e # rs \<Rightarrow> Some (RecvErr e, f', rs)
           | ReadBytes bs # rs \<Rightarrow>
               if bs = [] then Some (RecvClosed, f', rs)
               else recv push next_frame (push bs f') rs))"

text \<open>The results of \<open>n\<close> calls in a row.\<close>

fun recv_many ::
  "(bytes \<Rightarrow> 'f \<Rightarrow> 'f) \<Rightarrow> ('f \<Rightarrow> (frame_fault + bytes) option \<times> 'f) \<Rightarrow> nat \<Rightarrow> 'f \<Rightarrow> read_result list
     \<Rightarrow> recv_result list option" where
  "recv_many push next_frame 0 f reads = Some []"
| "recv_many push next_frame (Suc n) f reads =
     (case recv push next_frame f reads of
        None \<Rightarrow> None
      | Some (r, f', reads') \<Rightarrow>
          map_option ((#) r) (recv_many push next_frame n f' reads'))"

subsection \<open>Sending\<close>

text \<open>\<open>[T]::chunks\<close>, for a nonzero size.\<close>

function chunks :: "nat \<Rightarrow> 'a list \<Rightarrow> 'a list list" where
  "chunks n xs = (if xs = [] \<or> n = 0 then [] else take n xs # chunks n (drop n xs))"
  by pat_completeness auto
termination
  by (relation "measure (\<lambda>(n, xs). length xs)") auto

declare chunks.simps [simp del]

fun write_chunks ::
  "(bytes \<Rightarrow> 's \<Rightarrow> transport_error option \<times> 's) \<Rightarrow> bytes list \<Rightarrow> 's \<Rightarrow> transport_error option \<times> 's" where
  "write_chunks write_all [] s = (None, s)"
| "write_chunks write_all (c # cs) s =
     (case write_all c s of (Some e, s') \<Rightarrow> (Some e, s') | (None, s') \<Rightarrow> write_chunks write_all cs s')"

definition send ::
  "(bytes \<Rightarrow> frame_fault + bytes) \<Rightarrow> nat \<Rightarrow> (bytes \<Rightarrow> 's \<Rightarrow> transport_error option \<times> 's)
     \<Rightarrow> ('s \<Rightarrow> transport_error option \<times> 's) \<Rightarrow> bytes \<Rightarrow> 's \<Rightarrow> transport_error option \<times> 's" where
  "send encode wc write_all flush frame s =
     (case encode frame of
        Inl fault \<Rightarrow> (Some Framing, s)
      | Inr out \<Rightarrow>
          (case write_chunks write_all (chunks wc out) s of
             (Some e, s') \<Rightarrow> (Some e, s')
           | (None, s') \<Rightarrow> flush s'))"

text \<open>A stream that takes every write: the writes so far.\<close>

definition log_write :: "bytes \<Rightarrow> bytes list \<Rightarrow> transport_error option \<times> bytes list" where
  "log_write c s = (None, s @ [c])"

definition log_flush :: "bytes list \<Rightarrow> transport_error option \<times> bytes list" where
  "log_flush s = (None, s)"

fun send_many :: "(bytes \<Rightarrow> frame_fault + bytes) \<Rightarrow> nat \<Rightarrow> bytes list \<Rightarrow> bytes list \<Rightarrow> bytes list" where
  "send_many encode wc [] s = s"
| "send_many encode wc (p # ps) s =
     send_many encode wc ps (snd (send encode wc log_write log_flush p s))"

subsection \<open>Moved-in resources\<close>

text \<open>\<open>OneShot::take\<close>, \<open>OneShotDialer::connect\<close>.\<close>

definition one_shot_take :: "'a option \<Rightarrow> 'a option \<times> 'a option" where
  "one_shot_take cell = (cell, None)"

definition one_shot_connect :: "'a option \<Rightarrow> (transport_error + 'a) \<times> 'a option" where
  "one_shot_connect cell =
     (case one_shot_take cell of
        (Some c, cell') \<Rightarrow> (Inr c, cell')
      | (None, cell') \<Rightarrow> (Inl Closed, cell'))"

subsection \<open>Chunks\<close>

lemma concat_chunks: "0 < n \<Longrightarrow> concat (chunks n xs) = xs"
  by (induction n xs rule: chunks.induct) (subst chunks.simps, auto)

lemma chunks_size: "0 < n \<Longrightarrow> c \<in> set (chunks n xs) \<Longrightarrow> c \<noteq> [] \<and> length c \<le> n"
  by (induction n xs rule: chunks.induct) (subst (asm) (2) chunks.simps, auto split: if_splits)

lemma write_chunks_log: "write_chunks log_write cs s = (None, s @ cs)"
  by (induction cs arbitrary: s) (simp_all add: log_write_def)

lemma send_log:
  "encode p = Inr w \<Longrightarrow> send encode wc log_write log_flush p s = (None, s @ chunks wc w)"
  by (simp add: send_def write_chunks_log log_flush_def)

subsection \<open>The framer interface\<close>

text \<open>
  \<open>holds f bs\<close>: the framer is aligned on a frame boundary and \<open>bs\<close> are the bytes it has
  buffered since.  \<open>wire p\<close> is the encoding of \<open>p\<close>, \<open>fits\<close> the frames both ends accept.
\<close>

locale stream_framer =
  fixes encode :: "bytes \<Rightarrow> frame_fault + bytes"
    and push :: "bytes \<Rightarrow> 'f \<Rightarrow> 'f"
    and next_frame :: "'f \<Rightarrow> (frame_fault + bytes) option \<times> 'f"
    and wire :: "bytes \<Rightarrow> bytes"
    and fits :: "bytes \<Rightarrow> bool"
    and holds :: "'f \<Rightarrow> bytes \<Rightarrow> bool"
    and weight :: "'f \<Rightarrow> nat"
  assumes encode_fits: "fits p \<Longrightarrow> encode p = Inr (wire p)"
    and push_holds: "holds f bs \<Longrightarrow> holds (push ds f) (bs @ ds)"
    and next_whole: "holds f (wire p @ rest) \<Longrightarrow> fits p \<Longrightarrow>
           \<exists>f'. next_frame f = (Some (Inr p), f') \<and> holds f' rest"
    and next_part: "holds f bs \<Longrightarrow> fits p \<Longrightarrow> wire p = bs @ ds \<Longrightarrow> ds \<noteq> [] \<Longrightarrow>
           \<exists>f'. next_frame f = (None, f') \<and> holds f' bs"
    and next_idle: "holds f [] \<Longrightarrow> \<exists>f'. next_frame f = (None, f') \<and> holds f' []"
    and next_progress: "next_frame f = (Some (Inl Recoverable), f') \<Longrightarrow> weight f' < weight f"
begin

lemma recv_returns: "\<exists>r. recv push next_frame f reads = Some r"
proof (induction reads arbitrary: f rule: length_induct)
  case (1 reads)
  show ?case
  proof (induction f rule: measure_induct_rule [of weight])
    case (less f)
    obtain r f' where n: "next_frame f = (r, f')" by fastforce
    show ?case
    proof (cases r)
      case (Some out)
      show ?thesis
      proof (cases "out = Inl Recoverable")
        case True
        then have "weight f' < weight f" using next_progress [of f f'] n Some by simp
        from less.IH [OF this] show ?thesis
          using n Some True by (subst recv.simps) (auto simp del: split_paired_Ex)
      next
        case False
        then show ?thesis using n Some
          by (cases out; cases "projl out") (subst recv.simps, simp)+
      qed
    next
      case None
      show ?thesis
      proof (cases reads)
        case (Cons rd rs)
        then have "\<exists>r'. recv push next_frame (push bs f') rs = Some r'" for bs
          using "1.IH" by simp
        then show ?thesis using n None Cons
          by (cases rd) (subst recv.simps, simp del: split_paired_Ex)+
      qed (use n None in \<open>subst recv.simps, simp\<close>)
    qed
  qed
qed

lemma recv_frame:
  assumes "holds f bs" and "fits p" and "bs @ concat cs = wire p @ rest"
    and "\<And>c. c \<in> set cs \<Longrightarrow> c \<noteq> []"
  shows "\<exists>f' bs' cs'. recv push next_frame f (map ReadBytes cs) = Some (RecvFrame p, f', map ReadBytes cs')
     \<and> holds f' bs' \<and> bs' @ concat cs' = rest \<and> set cs' \<subseteq> set cs"
  using assms
proof (induction cs arbitrary: f bs)
  case Nil
  then have "holds f (wire p @ rest)" by simp
  then obtain f' where "next_frame f = (Some (Inr p), f')" "holds f' rest"
    using next_whole Nil.prems(2) by blast
  then show ?case by (intro exI [of _ f'] exI [of _ rest] exI [of _ "[]"]) (simp add: recv.simps)
next
  case (Cons c cs)
  from Cons.prems(3) show ?case
  proof (cases rule: append_split_cases)
    case (whole us)
    then obtain f' where "next_frame f = (Some (Inr p), f')" "holds f' us"
      using next_whole Cons.prems(1,2) by blast
    then show ?thesis using whole
      by (intro exI [of _ f'] exI [of _ us] exI [of _ "c # cs"]) (simp add: recv.simps)
  next
    case (part us)
    then obtain f' where f': "next_frame f = (None, f')" "holds f' bs"
      using next_part Cons.prems(1,2) by blast
    have "c \<noteq> []" using Cons.prems(4) by simp
    then have step: "recv push next_frame f (map ReadBytes (c # cs))
        = recv push next_frame (push c f') (map ReadBytes cs)"
      using f' by (subst recv.simps) simp
    obtain f'' bs' cs' where
      "recv push next_frame (push c f') (map ReadBytes cs) = Some (RecvFrame p, f'', map ReadBytes cs')"
      "holds f'' bs'" "bs' @ concat cs' = rest" "set cs' \<subseteq> set cs"
      using Cons.IH [OF push_holds [OF f'(2), of c] Cons.prems(2)] Cons.prems(3,4) by auto
    then show ?thesis unfolding step by auto
  qed
qed

lemma recv_end: "holds f [] \<Longrightarrow> \<exists>f'. recv push next_frame f [] = Some (RecvClosed, f', [])"
  using next_idle [of f] by (subst recv.simps) auto

text \<open>However the stream is cut into reads, the frames come out whole and in order.\<close>

lemma recv_all:
  assumes "holds f bs" and "\<And>p. p \<in> set ps \<Longrightarrow> fits p"
    and "bs @ concat cs = concat (map wire ps)" and "[] \<notin> set cs"
  shows "recv_many push next_frame (Suc (length ps)) f (map ReadBytes cs)
     = Some (map RecvFrame ps @ [RecvClosed])"
  using assms
proof (induction ps arbitrary: f bs cs)
  case Nil
  then have "cs = []" by (cases cs) auto
  then show ?case using Nil recv_end [of f] by auto
next
  case (Cons p ps)
  obtain f' bs' cs' where
    r: "recv push next_frame f (map ReadBytes cs) = Some (RecvFrame p, f', map ReadBytes cs')"
      "holds f' bs'" "bs' @ concat cs' = concat (map wire ps)" "set cs' \<subseteq> set cs"
    using recv_frame [of f bs p cs "concat (map wire ps)"] Cons.prems by auto
  have "recv_many push next_frame (Suc (length ps)) f' (map ReadBytes cs')
      = Some (map RecvFrame ps @ [RecvClosed])"
    using Cons.IH [OF r(2) _ r(3)] Cons.prems(2,4) r(4) by auto
  then show ?case using r(1) by simp
qed

lemma send_all:
  assumes "\<And>p. p \<in> set ps \<Longrightarrow> fits p" and "0 < wc"
  shows "concat (send_many encode wc ps s) = concat s @ concat (map wire ps)"
  using assms
  by (induction ps arbitrary: s) (auto simp: send_log [OF encode_fits] concat_chunks)

lemma delivered:
  assumes "holds f []" and "\<And>p. p \<in> set ps \<Longrightarrow> fits p" and "0 < wc"
    and "concat cs = concat (send_many encode wc ps [])" and "[] \<notin> set cs"
  shows "recv_many push next_frame (Suc (length ps)) f (map ReadBytes cs)
     = Some (map RecvFrame ps @ [RecvClosed])"
  by (rule recv_all [OF assms(1,2)]) (use assms send_all [of ps wc "[]"] in auto)

end

end
