(* ===== verification/Tcp_Framing.thy ===== *)
theory Tcp_Framing
  imports Framed_Connection
begin

text \<open>
  \<open>aimdb-tcp-connector/src/framing.rs\<close>: a frame is its length as a big-endian \<open>u32\<close> and its
  payload.  \<open>ptr_max\<close> is the largest \<open>usize\<close> of the target; nothing else depends on it.
\<close>

subsection \<open>The code\<close>

datatype tcp_frame_error = TooLarge | LengthOverflow

record tcp_acc =
  tcp_buf :: bytes
  tcp_max :: nat

definition header_len :: nat where "header_len = 4"

definition tcp_encode_frame :: "bytes \<Rightarrow> tcp_frame_error + bytes" where
  "tcp_encode_frame frame =
     (if length frame < 2 ^ 32 then Inr (be32 (of_nat (length frame)) @ frame) else Inl LengthOverflow)"

definition tcp_with_max_frame :: "nat \<Rightarrow> tcp_acc" where
  "tcp_with_max_frame max_frame = \<lparr>tcp_buf = [], tcp_max = max_frame\<rparr>"

definition tcp_push_bytes :: "bytes \<Rightarrow> tcp_acc \<Rightarrow> tcp_acc" where
  "tcp_push_bytes bs acc = acc\<lparr>tcp_buf := tcp_buf acc @ bs\<rparr>"

definition tcp_acc_next :: "nat \<Rightarrow> tcp_acc \<Rightarrow> (tcp_frame_error + bytes) option \<times> tcp_acc" where
  "tcp_acc_next ptr_max acc =
     (let buf = tcp_buf acc in
      if length buf < header_len then (None, acc)
      else
        (let len = unat (of_be32 (buf ! 0) (buf ! 1) (buf ! 2) (buf ! 3)) in
         if tcp_max acc < len then (Some (Inl TooLarge), acc\<lparr>tcp_buf := []\<rparr>)
         else if ptr_max < header_len + len then (Some (Inl LengthOverflow), acc\<lparr>tcp_buf := []\<rparr>)
         else if length buf < header_len + len then (None, acc)
         else (Some (Inr (take len (drop header_len buf))),
               acc\<lparr>tcp_buf := drop len (drop header_len buf)\<rparr>)))"

text \<open>\<open>LengthFramer\<close> as core's \<open>Framer\<close>.\<close>

definition tcp_encode :: "nat \<Rightarrow> bytes \<Rightarrow> frame_fault + bytes" where
  "tcp_encode max_frame frame =
     (if max_frame < length frame then Inl Recoverable
      else map_sum (\<lambda>_. Recoverable) id (tcp_encode_frame frame))"

definition tcp_next_frame :: "nat \<Rightarrow> tcp_acc \<Rightarrow> (frame_fault + bytes) option \<times> tcp_acc" where
  "tcp_next_frame ptr_max acc =
     (case tcp_acc_next ptr_max acc of (r, acc') \<Rightarrow> (map_option (map_sum (\<lambda>_. Fatal) id) r, acc'))"

subsection \<open>The framer interface\<close>

definition tcp_wire :: "bytes \<Rightarrow> bytes" where
  "tcp_wire p = be32 (of_nat (length p)) @ p"

definition tcp_fits :: "nat \<Rightarrow> nat \<Rightarrow> bytes \<Rightarrow> bool" where
  "tcp_fits ptr_max max_frame p \<longleftrightarrow>
     length p \<le> max_frame \<and> length p < 2 ^ 32 \<and> header_len + length p \<le> ptr_max"

definition tcp_holds :: "nat \<Rightarrow> tcp_acc \<Rightarrow> bytes \<Rightarrow> bool" where
  "tcp_holds max_frame acc bs \<longleftrightarrow> tcp_buf acc = bs \<and> tcp_max acc = max_frame"

lemma length_tcp_wire: "length (tcp_wire p) = header_len + length p"
  by (simp add: tcp_wire_def header_len_def)

text \<open>The header of a frame reads back as its length.\<close>

lemma tcp_header:
  assumes "length p < 2 ^ 32" and "tcp_wire p @ rest = buf @ xs" and "header_len \<le> length buf"
  shows "unat (of_be32 (buf ! 0) (buf ! 1) (buf ! 2) (buf ! 3)) = length p"
proof -
  have "buf ! i = be32 (of_nat (length p)) ! i" if "i < 4" for i
  proof -
    have "buf ! i = (buf @ xs) ! i" using assms(3) that by (simp add: nth_append header_len_def)
    also have "\<dots> = (tcp_wire p @ rest) ! i" by (simp only: assms(2))
    also have "\<dots> = be32 (of_nat (length p)) ! i" using that by (simp add: tcp_wire_def nth_append)
    finally show ?thesis .
  qed
  then have "of_be32 (buf ! 0) (buf ! 1) (buf ! 2) (buf ! 3) = of_nat (length p)"
    using of_be32_be32 [of "of_nat (length p)"] by simp
  then show ?thesis using assms(1) by (simp add: unat_of_nat)
qed

lemma tcp_next_whole:
  assumes "tcp_holds m acc (tcp_wire p @ rest)" and "tcp_fits ptr_max m p"
  shows "\<exists>acc'. tcp_next_frame ptr_max acc = (Some (Inr p), acc') \<and> tcp_holds m acc' rest"
proof -
  have h: "unat (of_be32 (tcp_buf acc ! 0) (tcp_buf acc ! 1) (tcp_buf acc ! 2) (tcp_buf acc ! 3)) = length p"
    by (rule tcp_header [of _ rest _ "[]"]) (use assms in \<open>auto simp: tcp_holds_def tcp_fits_def length_tcp_wire\<close>)
  have len: "length (tcp_buf acc) = header_len + length p + length rest"
    and body: "drop header_len (tcp_buf acc) = p @ rest"
    using assms(1) by (simp_all add: tcp_holds_def length_tcp_wire) (simp add: tcp_wire_def header_len_def)
  show ?thesis
    using assms h len body
    by (simp add: tcp_next_frame_def tcp_acc_next_def tcp_holds_def tcp_fits_def Let_def)
qed

lemma tcp_next_part:
  assumes "tcp_holds m acc bs" and "tcp_fits ptr_max m p" and "tcp_wire p = bs @ ds" and "ds \<noteq> []"
  shows "\<exists>acc'. tcp_next_frame ptr_max acc = (None, acc') \<and> tcp_holds m acc' bs"
proof (cases "length bs < header_len")
  case True
  then show ?thesis
    using assms(1) by (simp add: tcp_next_frame_def tcp_acc_next_def tcp_holds_def Let_def)
next
  case False
  have h: "unat (of_be32 (bs ! 0) (bs ! 1) (bs ! 2) (bs ! 3)) = length p"
    by (rule tcp_header [of _ "[]" _ ds]) (use assms False in \<open>auto simp: tcp_fits_def\<close>)
  have "length bs < header_len + length p"
    using arg_cong [OF assms(3), of length] assms(4) by (simp add: length_tcp_wire)
  then show ?thesis
    using assms(1,2) h False
    by (simp add: tcp_next_frame_def tcp_acc_next_def tcp_holds_def tcp_fits_def Let_def)
qed

lemma tcp_fault_fatal: "tcp_next_frame ptr_max acc \<noteq> (Some (Inl Recoverable), acc')"
  by (cases "fst (tcp_acc_next ptr_max acc)"; cases "the (fst (tcp_acc_next ptr_max acc))")
    (auto simp: tcp_next_frame_def split: prod.splits)

interpretation tcp: stream_framer "tcp_encode m" tcp_push_bytes "tcp_next_frame ptr_max"
  tcp_wire "tcp_fits ptr_max m" "tcp_holds m" "\<lambda>_. 0"
  for m ptr_max
proof unfold_locales
  show "tcp_encode m p = Inr (tcp_wire p)" if "tcp_fits ptr_max m p" for p
    using that by (simp add: tcp_encode_def tcp_encode_frame_def tcp_fits_def tcp_wire_def)
  show "tcp_holds m (tcp_push_bytes ds f) (bs @ ds)" if "tcp_holds m f bs" for f bs ds
    using that by (simp add: tcp_holds_def tcp_push_bytes_def)
  show "\<exists>f'. tcp_next_frame ptr_max f = (None, f') \<and> tcp_holds m f' []" if "tcp_holds m f []" for f
    using that by (simp add: tcp_next_frame_def tcp_acc_next_def tcp_holds_def header_len_def Let_def)
qed (auto intro: tcp_next_whole tcp_next_part simp: tcp_fault_fatal)

subsection \<open>Properties\<close>

text \<open>
  C29. TCP framing end to end.  Frames up to the maximum, sent in any write size and cut by
  the network into any reads, are received whole, unaltered and in order, then end of stream.
\<close>

theorem tcp_delivers:
  assumes "\<And>p. p \<in> set ps \<Longrightarrow> tcp_fits ptr_max m p" and "0 < wc"
    and "concat cs = concat (send_many (tcp_encode m) wc ps [])" and "[] \<notin> set cs"
  shows "recv_many tcp_push_bytes (tcp_next_frame ptr_max) (Suc (length ps)) (tcp_with_max_frame m)
       (map ReadBytes cs) = Some (map RecvFrame ps @ [RecvClosed])"
  by (rule tcp.delivered [OF _ assms]) (simp_all add: tcp_holds_def tcp_with_max_frame_def)

theorem tcp_delivers_witness:
  "recv_many tcp_push_bytes (tcp_next_frame 4294967295) 3 (tcp_with_max_frame 8)
     (map ReadBytes [[0, 0, 0], [2, 7, 8, 0, 0, 0, 0]])
   = Some [RecvFrame [7, 8], RecvFrame [], RecvClosed]"
proof -
  have "recv_many tcp_push_bytes (tcp_next_frame 4294967295) (Suc (length ([[7, 8], []] :: bytes list))) (tcp_with_max_frame 8)
       (map ReadBytes [[0, 0, 0], [2, 7, 8, 0, 0, 0, 0]])
     = Some (map RecvFrame [[7, 8], []] @ [RecvClosed])"
  proof (rule tcp_delivers [where m = 8 and wc = 3])
    have "concat (send_many (tcp_encode 8) 3 [[7, 8], []] []) = concat [] @ concat (map tcp_wire [[7, 8], []])"
      by (rule tcp.send_all [of _ 4294967295]) (auto simp: tcp_fits_def header_len_def)
    also have "\<dots> = [0, 0, 0, 2, 7, 8, 0, 0, 0, 0]" by (simp add: tcp_wire_def be32_def)
    finally show "concat [[0, 0, 0], [2, 7, 8, 0, 0, 0, 0]]
        = concat (send_many (tcp_encode 8) 3 [[7, 8], []] [])"
      by (simp del: send_many.simps)
  qed (auto simp: tcp_fits_def header_len_def)
  then show ?thesis by (simp add: numeral_3_eq_3 del: recv_many.simps)
qed

text \<open>
  A peer cannot make the receiver buffer without bound: when \<open>next_frame\<close> asks for more
  bytes, the buffer holds less than one maximal frame, and a header announcing a larger one
  is fatal at once, with the buffer dropped.
\<close>

theorem tcp_bounded:
  "case tcp_next_frame ptr_max acc of
     (None, acc') \<Rightarrow> tcp_buf acc' = tcp_buf acc \<and> length (tcp_buf acc') < header_len + tcp_max acc
   | (Some (Inl fault), acc') \<Rightarrow> fault = Fatal \<and> tcp_buf acc' = []
   | (Some (Inr p), acc') \<Rightarrow> length p \<le> tcp_max acc \<and> length (tcp_buf acc') + length p + header_len = length (tcp_buf acc)"
  by (auto simp: tcp_next_frame_def tcp_acc_next_def header_len_def Let_def)

end
