(* ===== verification/Serial_Framing.thy ===== *)
theory Serial_Framing
  imports Framed_Connection
begin

text \<open>
  \<open>aimdb-serial-connector/src/framing.rs\<close>: COBS frames delimited by a zero byte.  The \<open>cobs\<close>
  crate is a parameter, \<open>enc\<close> for \<open>encode_vec\<close> and \<open>dec\<close> for \<open>decode_vec\<close>, with its documented
  contract \<open>cobs_laws\<close>: an encoding is nonempty, free of zero bytes, and decodes to the payload.
\<close>

subsection \<open>The code\<close>

record serial_acc =
  ser_buf :: bytes
  resyncing :: bool
  ser_max :: nat

definition delim :: u8 where "delim = 0"

definition serial_encode_frame :: "(bytes \<Rightarrow> bytes) \<Rightarrow> bytes \<Rightarrow> bytes" where
  "serial_encode_frame enc payload = enc payload @ [delim]"

definition serial_with_max_frame :: "nat \<Rightarrow> serial_acc" where
  "serial_with_max_frame max_frame = \<lparr>ser_buf = [], resyncing = False, ser_max = max_frame\<rparr>"

definition serial_push_bytes :: "bytes \<Rightarrow> serial_acc \<Rightarrow> serial_acc" where
  "serial_push_bytes bs acc = acc\<lparr>ser_buf := ser_buf acc @ bs\<rparr>"

text \<open>The first half of the loop: drop the tail of an abandoned frame.\<close>

definition serial_resync :: "serial_acc \<Rightarrow> serial_acc option" where
  "serial_resync acc =
     (if resyncing acc then
        (case position (\<lambda>b. b = delim) (ser_buf acc) of
           Some pos \<Rightarrow> Some (acc\<lparr>ser_buf := drop (Suc pos) (ser_buf acc), resyncing := False\<rparr>)
         | None \<Rightarrow> None)
      else Some acc)"

lemma serial_resync_length:
  "serial_resync acc = Some acc' \<Longrightarrow> length (ser_buf acc') \<le> length (ser_buf acc)"
  by (auto simp: serial_resync_def split: if_splits option.splits)

function serial_acc_next :: "(bytes \<Rightarrow> bytes option) \<Rightarrow> serial_acc \<Rightarrow> (unit + bytes) option \<times> serial_acc" where
  "serial_acc_next dec acc =
     (case serial_resync acc of
        None \<Rightarrow> (None, acc\<lparr>ser_buf := []\<rparr>)
      | Some acc1 \<Rightarrow>
          (case position (\<lambda>b. b = delim) (ser_buf acc1) of
             None \<Rightarrow>
               if ser_max acc1 < length (ser_buf acc1)
               then (Some (Inl ()), acc1\<lparr>ser_buf := [], resyncing := True\<rparr>)
               else (None, acc1)
           | Some pos \<Rightarrow>
               let encoded = take pos (ser_buf acc1);
                   acc2 = acc1\<lparr>ser_buf := drop (Suc pos) (ser_buf acc1)\<rparr>
               in if encoded = [] then serial_acc_next dec acc2
                  else (Some (case dec encoded of None \<Rightarrow> Inl () | Some p \<Rightarrow> Inr p), acc2)))"
  by pat_completeness auto
termination
proof (relation "measure (\<lambda>(dec, acc). length (ser_buf acc))", goal_cases)
  case (2 dec acc acc1 pos encoded acc2)
  then have "pos < length (ser_buf acc1)" by (simp add: position_Some)
  then show ?case using 2 serial_resync_length [of acc acc1] by simp
qed simp

declare serial_acc_next.simps [simp del]

text \<open>\<open>CobsFramer\<close> as core's \<open>Framer\<close>.\<close>

definition serial_encode :: "(bytes \<Rightarrow> bytes) \<Rightarrow> bytes \<Rightarrow> frame_fault + bytes" where
  "serial_encode enc frame = Inr (serial_encode_frame enc frame)"

definition serial_next_frame ::
  "(bytes \<Rightarrow> bytes option) \<Rightarrow> serial_acc \<Rightarrow> (frame_fault + bytes) option \<times> serial_acc" where
  "serial_next_frame dec acc =
     (case serial_acc_next dec acc of (r, acc') \<Rightarrow> (map_option (map_sum (\<lambda>_. Recoverable) id) r, acc'))"

subsection \<open>The contract of COBS and the framer interface\<close>

definition cobs_laws :: "(bytes \<Rightarrow> bytes) \<Rightarrow> (bytes \<Rightarrow> bytes option) \<Rightarrow> bool" where
  "cobs_laws enc dec \<longleftrightarrow> (\<forall>p. enc p \<noteq> [] \<and> 0 \<notin> set (enc p) \<and> dec (enc p) = Some p)"

definition serial_fits :: "(bytes \<Rightarrow> bytes) \<Rightarrow> nat \<Rightarrow> bytes \<Rightarrow> bool" where
  "serial_fits enc m p \<longleftrightarrow> length (enc p) \<le> m"

definition serial_holds :: "nat \<Rightarrow> serial_acc \<Rightarrow> bytes \<Rightarrow> bool" where
  "serial_holds m acc bs \<longleftrightarrow> ser_buf acc = bs \<and> \<not> resyncing acc \<and> ser_max acc = m"

lemma position_delim:
  "delim \<notin> set xs \<Longrightarrow> position (\<lambda>b. b = delim) (xs @ delim # ys) = Some (length xs)"
  by (rule position_append_first) auto

lemma position_no_delim: "delim \<notin> set xs \<Longrightarrow> position (\<lambda>b. b = delim) xs = None"
  by (auto simp: position_None)

lemma serial_next_smaller:
  "serial_acc_next dec acc = (Some r, acc') \<Longrightarrow> length (ser_buf acc') < length (ser_buf acc)"
proof (induction dec acc rule: serial_acc_next.induct)
  case (1 dec acc)
  note IH = "1.IH" and run = "1.prems"
  show ?case
  proof (cases "serial_resync acc")
    case None
    then show ?thesis using run by (simp add: serial_acc_next.simps)
  next
    case (Some acc1)
    note le = serial_resync_length [OF Some]
    show ?thesis
    proof (cases "position (\<lambda>b. b = delim) (ser_buf acc1)")
      case None
      then show ?thesis
        using run Some le by (simp add: serial_acc_next.simps split: if_splits) auto
    next
      case (Some pos)
      then have pos: "pos < length (ser_buf acc1)" by (simp add: position_Some)
      show ?thesis
      proof (cases "take pos (ser_buf acc1) = []")
        case True
        then have "serial_acc_next dec (acc1\<lparr>ser_buf := drop (Suc pos) (ser_buf acc1)\<rparr>) = (Some r, acc')"
          using run Some \<open>serial_resync acc = Some acc1\<close>
          by (subst (asm) serial_acc_next.simps) (simp add: Let_def)
        from IH [OF \<open>serial_resync acc = Some acc1\<close> Some refl refl True this] show ?thesis
          using le pos by simp
      next
        case False
        then show ?thesis using run Some \<open>serial_resync acc = Some acc1\<close> le pos
          by (subst (asm) serial_acc_next.simps) (auto simp: Let_def)
      qed
    qed
  qed
qed

text \<open>On an aligned buffer that starts with a whole delimited run.\<close>

lemma serial_next_run:
  assumes "serial_holds m acc (xs @ delim # rest)" and "delim \<notin> set xs" and "xs \<noteq> []"
  shows "serial_acc_next dec acc =
     (Some (case dec xs of None \<Rightarrow> Inl () | Some p \<Rightarrow> Inr p), acc\<lparr>ser_buf := rest\<rparr>)"
  using assms
  by (subst serial_acc_next.simps) (simp add: serial_resync_def serial_holds_def position_delim Let_def)

lemma serial_next_none:
  assumes "serial_holds m acc xs" and "delim \<notin> set xs" and "length xs \<le> m"
  shows "serial_acc_next dec acc = (None, acc)"
  using assms
  by (subst serial_acc_next.simps) (simp add: serial_resync_def serial_holds_def position_no_delim)

lemma serial_stream_framer:
  assumes laws: "cobs_laws enc dec"
  shows "stream_framer (serial_encode enc) serial_push_bytes (serial_next_frame dec)
     (serial_encode_frame enc) (serial_fits enc m) (serial_holds m) (\<lambda>acc. length (ser_buf acc))"
proof
  show "serial_encode enc p = Inr (serial_encode_frame enc p)" for p
    by (simp add: serial_encode_def)
  show "serial_holds m (serial_push_bytes ds f) (bs @ ds)" if "serial_holds m f bs" for f bs ds
    using that by (simp add: serial_holds_def serial_push_bytes_def)
  show "\<exists>f'. serial_next_frame dec f = (Some (Inr p), f') \<and> serial_holds m f' rest"
    if "serial_holds m f (serial_encode_frame enc p @ rest)" and "serial_fits enc m p" for f p rest
    using that serial_next_run [of m f "enc p" rest dec] laws
    by (auto simp: serial_encode_frame_def serial_next_frame_def cobs_laws_def delim_def serial_holds_def)
  show "\<exists>f'. serial_next_frame dec f = (None, f') \<and> serial_holds m f' bs"
    if h: "serial_holds m f bs" "serial_fits enc m p" "serial_encode_frame enc p = bs @ ds"
      "ds \<noteq> []" for f bs p ds
  proof -
    obtain us where us: "enc p = bs @ us"
      using h(3,4) by (cases ds rule: rev_cases) (auto simp: serial_encode_frame_def)
    have "0 \<notin> set (enc p)" using laws by (simp add: cobs_laws_def)
    then have "delim \<notin> set bs" "length bs \<le> m"
      using us h(2) by (auto simp: delim_def serial_fits_def)
    then show ?thesis
      using serial_next_none [OF h(1)] h(1) by (simp add: serial_next_frame_def)
  qed
  show "\<exists>f'. serial_next_frame dec f = (None, f') \<and> serial_holds m f' []" if "serial_holds m f []" for f
    using serial_next_none [OF that] that by (simp add: serial_next_frame_def)
  show "length (ser_buf f') < length (ser_buf f)"
    if "serial_next_frame dec f = (Some (Inl Recoverable), f')" for f f'
    using that serial_next_smaller [of dec f _ f']
    by (auto simp: serial_next_frame_def split: prod.splits)
qed

subsection \<open>Draining and resynchronising\<close>

text \<open>What repeated calls of \<open>next_frame\<close> yield until it asks for more bytes.\<close>

function serial_drain :: "(bytes \<Rightarrow> bytes option) \<Rightarrow> serial_acc \<Rightarrow> (unit + bytes) list \<times> serial_acc" where
  "serial_drain dec acc =
     (case serial_acc_next dec acc of
        (None, acc') \<Rightarrow> ([], acc')
      | (Some r, acc') \<Rightarrow> (case serial_drain dec acc' of (rs, acc'') \<Rightarrow> (r # rs, acc'')))"
  by pat_completeness auto
termination
  by (relation "measure (\<lambda>(dec, acc). length (ser_buf acc))")
    (auto dest: serial_next_smaller [OF sym])

declare serial_drain.simps [simp del]

lemma serial_drain_frames:
  assumes "cobs_laws enc dec" and "serial_holds m acc (concat (map (serial_encode_frame enc) ps))"
  shows "\<exists>acc'. serial_drain dec acc = (map Inr ps, acc') \<and> serial_holds m acc' []"
  using assms(2)
proof (induction ps arbitrary: acc)
  case Nil
  then show ?case
    using serial_next_none [of m acc "[]" dec] by (subst serial_drain.simps) simp
next
  case (Cons p ps)
  let ?rest = "concat (map (serial_encode_frame enc) ps)"
  have "serial_holds m acc (enc p @ delim # ?rest)"
    using Cons.prems serial_encode_frame_def [of enc p] by simp
  moreover have "delim \<notin> set (enc p)" "enc p \<noteq> []" "dec (enc p) = Some p"
    using assms(1) by (simp_all add: cobs_laws_def delim_def)
  ultimately have "serial_acc_next dec acc = (Some (Inr p), acc\<lparr>ser_buf := ?rest\<rparr>)"
    by (simp add: serial_next_run)
  moreover have "serial_holds m (acc\<lparr>ser_buf := ?rest\<rparr>) ?rest"
    using Cons.prems by (simp add: serial_holds_def)
  ultimately show ?case using Cons.IH by (subst serial_drain.simps) fastforce
qed

text \<open>Whatever the state, draining passes the next delimiter and is aligned behind it.\<close>

lemma serial_drain_resync:
  assumes "ser_buf acc = xs @ delim # rest"
  shows "\<exists>junk acc'. serial_holds (ser_max acc) acc' rest
     \<and> fst (serial_drain dec acc) = junk @ fst (serial_drain dec acc')
     \<and> snd (serial_drain dec acc) = snd (serial_drain dec acc')"
  using assms
proof (induction "length xs" arbitrary: xs acc rule: less_induct)
  case less
  obtain k where pos: "position (\<lambda>b. b = delim) (ser_buf acc) = Some k" and k: "k \<le> length xs"
  proof -
    obtain k where k: "position (\<lambda>b. b = delim) (ser_buf acc) = Some k"
      using less.prems by (cases "position (\<lambda>b. b = delim) (ser_buf acc)") (auto simp: position_None)
    moreover have "k \<le> length xs"
      using k less.prems by (auto simp: position_Some nth_append dest: spec [of _ "length xs"])
    ultimately show thesis using that by blast
  qed
  define acc' where "acc' = acc\<lparr>ser_buf := drop (Suc k) (ser_buf acc), resyncing := False\<rparr>"
  have drained: "\<exists>junk. fst (serial_drain dec acc) = junk @ fst (serial_drain dec acc')
      \<and> snd (serial_drain dec acc) = snd (serial_drain dec acc')"
  proof (cases "resyncing acc")
    case True
    then have "serial_acc_next dec acc = serial_acc_next dec acc'"
      using pos by (subst (1 2) serial_acc_next.simps) (simp add: serial_resync_def acc'_def)
    then have "serial_drain dec acc = serial_drain dec acc'"
      by (subst (1 2) serial_drain.simps) simp
    then show ?thesis by (intro exI [of _ "[]"]) simp
  next
    case False
    then have acc': "acc' = acc\<lparr>ser_buf := drop (Suc k) (ser_buf acc)\<rparr>"
      by (cases acc) (simp add: acc'_def)
    show ?thesis
    proof (cases "take k (ser_buf acc) = []")
      case True
      then have "serial_acc_next dec acc = serial_acc_next dec acc'"
        using pos False unfolding acc'
        by (subst serial_acc_next.simps) (simp add: serial_resync_def Let_def)
      then have "serial_drain dec acc = serial_drain dec acc'"
        by (subst (1 2) serial_drain.simps) simp
      then show ?thesis by (intro exI [of _ "[]"]) simp
    next
      case ne: False
      have "\<exists>r. serial_acc_next dec acc = (Some r, acc')"
        using pos False ne unfolding acc'
        by (subst serial_acc_next.simps) (simp add: serial_resync_def Let_def)
      then obtain r where "serial_acc_next dec acc = (Some r, acc')" by blast
      then show ?thesis
        by (intro exI [of _ "[r]"]) (subst (1 3) serial_drain.simps, simp split: prod.splits)
    qed
  qed
  show ?case
  proof (cases "k = length xs")
    case True
    then have "serial_holds (ser_max acc) acc' rest"
      using less.prems by (simp add: serial_holds_def acc'_def)
    then show ?thesis using drained by blast
  next
    case False
    with k have lt: "Suc k \<le> length xs" by simp
    then have "ser_buf acc' = drop (Suc k) xs @ delim # rest"
      using less.prems by (simp add: acc'_def)
    from less.hyps [OF _ this] lt drained show ?thesis
      by (fastforce simp: acc'_def)
  qed
qed

subsection \<open>Properties\<close>

text \<open>
  C32. Serial framing end to end.  With COBS as documented, frames whose encoding fits the cap,
  sent in any write size and read in any pieces, are received whole, unaltered and in order.
\<close>

theorem serial_delivers:
  assumes "cobs_laws enc dec" and "\<And>p. p \<in> set ps \<Longrightarrow> serial_fits enc m p" and "0 < wc"
    and "concat cs = concat (send_many (serial_encode enc) wc ps [])" and "[] \<notin> set cs"
  shows "recv_many serial_push_bytes (serial_next_frame dec) (Suc (length ps)) (serial_with_max_frame m)
       (map ReadBytes cs) = Some (map RecvFrame ps @ [RecvClosed])"
  by (rule stream_framer.delivered [OF serial_stream_framer [OF assms(1)] _ assms(2-5)])
    (simp_all add: serial_holds_def serial_with_max_frame_def)

text \<open>
  Self-synchronisation.  From any state of the receiver and after any noise, once a
  delimiter has arrived every later frame is recovered, in order, and the receiver ends
  aligned with an empty buffer.
\<close>

theorem serial_resynchronises:
  assumes "cobs_laws enc dec"
  shows "\<exists>junk acc'. serial_drain dec
       (serial_push_bytes (noise @ delim # concat (map (serial_encode_frame enc) ps)) acc)
     = (junk @ map Inr ps, acc') \<and> serial_holds (ser_max acc) acc' []"
proof -
  let ?wires = "concat (map (serial_encode_frame enc) ps)"
  let ?acc = "serial_push_bytes (noise @ delim # ?wires) acc"
  have "ser_buf ?acc = (ser_buf acc @ noise) @ delim # ?wires" "ser_max ?acc = ser_max acc"
    by (simp_all add: serial_push_bytes_def)
  then obtain junk acc' where a: "serial_holds (ser_max acc) acc' ?wires"
    "fst (serial_drain dec ?acc) = junk @ fst (serial_drain dec acc')"
    "snd (serial_drain dec ?acc) = snd (serial_drain dec acc')"
    using serial_drain_resync [of ?acc "ser_buf acc @ noise" ?wires dec] by auto
  obtain acc'' where "serial_drain dec acc' = (map Inr ps, acc'')" "serial_holds (ser_max acc) acc'' []"
    using serial_drain_frames [OF assms a(1)] by blast
  then show ?thesis using a(2,3) by (metis fst_conv snd_conv prod.collapse)
qed

text \<open>
  The receiver's memory is bounded: whenever \<open>next_frame\<close> waits for bytes it holds at most
  \<open>max_frame\<close> of them, whatever the peer sent.
\<close>

theorem serial_bounded:
  assumes "serial_next_frame dec acc = (None, acc')"
  shows "length (ser_buf acc') \<le> ser_max acc"
proof -
  have "serial_acc_next dec acc = (None, acc') \<Longrightarrow> length (ser_buf acc') \<le> ser_max acc" for dec acc
  proof (induction dec acc rule: serial_acc_next.induct)
    case (1 dec acc)
    have same: "ser_max acc1 = ser_max acc" if "serial_resync acc = Some acc1" for acc1
      using that by (auto simp: serial_resync_def split: if_splits option.splits)
    show ?case
    proof (cases "serial_resync acc")
      case None
      then show ?thesis using "1.prems" by (auto simp: serial_acc_next.simps [of dec acc])
    next
      case (Some acc1)
      note r = Some
      show ?thesis
      proof (cases "position (\<lambda>b. b = delim) (ser_buf acc1)")
        case None
        then show ?thesis using "1.prems" r same [OF r]
          by (simp add: serial_acc_next.simps [of dec acc] split: if_splits)
      next
        case (Some pos)
        have e: "take pos (ser_buf acc1) = []"
          using "1.prems" r Some by (simp add: serial_acc_next.simps [of dec acc] Let_def split: if_splits)
        then have "serial_acc_next dec (acc1\<lparr>ser_buf := drop (Suc pos) (ser_buf acc1)\<rparr>) = (None, acc')"
          using "1.prems" r Some by (simp add: serial_acc_next.simps [of dec acc] Let_def)
        from "1.IH" [OF r Some refl refl e this] show ?thesis using same [OF r] by simp
      qed
    qed
  qed
  then show ?thesis using assms by (auto simp: serial_next_frame_def split: prod.splits)
qed

subsection \<open>Witnesses\<close>

text \<open>A byte-stuffing codec with the laws of COBS: a leading 2, then 0 and 1 escaped by 1.\<close>

definition stuff_encode :: "bytes \<Rightarrow> bytes" where
  "stuff_encode p = 2 # concat (map (\<lambda>b. if b = 0 then [1, 2] else if b = 1 then [1, 1] else [b]) p)"

fun unstuff :: "bytes \<Rightarrow> bytes option" where
  "unstuff [] = Some []"
| "unstuff (x # xs) =
     (if x = 1 then (case xs of [] \<Rightarrow> None
                     | y # ys \<Rightarrow> map_option ((#) (if y = 2 then 0 else 1)) (unstuff ys))
      else map_option ((#) x) (unstuff xs))"

definition stuff_decode :: "bytes \<Rightarrow> bytes option" where
  "stuff_decode bs = (case bs of [] \<Rightarrow> None | _ # xs \<Rightarrow> unstuff xs)"

lemma stuff_laws: "cobs_laws stuff_encode stuff_decode"
proof -
  have "stuff_decode (stuff_encode p) = Some p" for p
    by (induction p) (auto simp: stuff_encode_def stuff_decode_def)
  moreover have "0 \<notin> set (stuff_encode p)" "stuff_encode p \<noteq> []" for p
    by (auto simp: stuff_encode_def)
  ultimately show ?thesis by (simp add: cobs_laws_def)
qed

theorem serial_delivers_witness:
  "recv_many serial_push_bytes (serial_next_frame stuff_decode) 3 (serial_with_max_frame 8)
     (map ReadBytes [[2, 1], [2, 7, 0, 2], [0]])
   = Some [RecvFrame [0, 7], RecvFrame [], RecvClosed]"
proof -
  have "recv_many serial_push_bytes (serial_next_frame stuff_decode) (Suc (length ([[0, 7], []] :: bytes list)))
       (serial_with_max_frame 8) (map ReadBytes [[2, 1], [2, 7, 0, 2], [0]])
     = Some (map RecvFrame [[0, 7], []] @ [RecvClosed])"
  proof (rule serial_delivers [OF stuff_laws, where m = 8 and wc = 3])
    show "concat [[2, 1], [2, 7, 0, 2], [0]]
        = concat (send_many (serial_encode stuff_encode) 3 [[0, 7], []] [])"
      by code_simp
  qed (auto simp: serial_fits_def stuff_encode_def)
  then show ?thesis by (simp add: numeral_3_eq_3 del: recv_many.simps)
qed

theorem serial_resynchronises_witness:
  "\<exists>junk acc'. serial_drain stuff_decode
       (serial_push_bytes ([9, 1] @ delim # concat (map (serial_encode_frame stuff_encode) [[5]]))
          \<lparr>ser_buf = [3], resyncing = True, ser_max = 4\<rparr>)
     = (junk @ map Inr [[5]], acc') \<and> serial_holds 4 acc' []"
  using serial_resynchronises [OF stuff_laws, of "[9, 1]" "[[5]]" "\<lparr>ser_buf = [3], resyncing = True, ser_max = 4\<rparr>"]
  by simp

theorem serial_bounded_witness:
  "serial_next_frame stuff_decode \<lparr>ser_buf = [0, 5, 6], resyncing = False, ser_max = 2\<rparr>
     = (None, \<lparr>ser_buf = [5, 6], resyncing = False, ser_max = 2\<rparr>)
   \<and> length ([5, 6] :: bytes) \<le> 2"
proof -
  have "serial_next_frame stuff_decode \<lparr>ser_buf = [0, 5, 6], resyncing = False, ser_max = 2\<rparr>
     = (None, \<lparr>ser_buf = [5, 6], resyncing = False, ser_max = 2\<rparr>)"
    by (simp add: serial_next_frame_def serial_acc_next.simps serial_resync_def delim_def)
  from serial_bounded [OF this] this show ?thesis by simp
qed

end
