(* ===== verification/Topic_Pattern.thy ===== *)
theory Topic_Pattern
  imports Prelude
begin

text \<open>
  \<open>aimdb-core/src/topic_pattern.rs\<close>: inbound topic patterns with \<open>{name}\<close> and \<open>{name..}\<close>
  captures, the match a pattern route hands to its ingest callback, and the grammar without
  wildcards.  The messages of \<open>PatternError\<close> are the constructors of \<open>pattern_error\<close>.
\<close>

subsection \<open>Data\<close>

datatype part = Text string | Capture string bool

datatype pattern_error =
    UnbalancedClose
  | UnbalancedOpen
  | EmptyName
  | BadName string
  | DuplicateName string
  | TooManyCaptures

definition max_captures :: nat where "max_captures = 8"

type_synonym spans = "(u16 \<times> u16) list"

definition no_spans :: spans where "no_spans = replicate max_captures (0, 0)"

subsection \<open>Parsing\<close>

definition is_brace :: "char \<Rightarrow> bool" where
  "is_brace c \<longleftrightarrow> c = CHR ''{'' \<or> c = CHR ''}''"

definition name_char :: "char \<Rightarrow> bool" where
  "name_char c \<longleftrightarrow>
     c \<in> set ''ABCDEFGHIJKLMNOPQRSTUVWXYZabcdefghijklmnopqrstuvwxyz0123456789_''"

definition capture_parts :: "part list \<Rightarrow> string list" where
  "capture_parts ps = concat (map (\<lambda>p. case p of Capture n _ \<Rightarrow> [n] | Text _ \<Rightarrow> []) ps)"

text \<open>The body of a capture: its name, and whether it is \<open>{name..}\<close>.\<close>

definition capture_body :: "string \<Rightarrow> string \<times> bool" where
  "capture_body body = (case strip_suffix ''..'' body of Some name \<Rightarrow> (name, True) | None \<Rightarrow> (body, False))"

function parse_loop :: "string \<Rightarrow> part list \<Rightarrow> nat \<Rightarrow> pattern_error + part list" where
  "parse_loop rest parts captures =
     (case position is_brace rest of
        None \<Rightarrow> Inr (if rest \<noteq> [] then parts @ [Text rest] else parts)
      | Some opn \<Rightarrow>
          if rest ! opn = CHR ''}'' then Inl UnbalancedClose
          else
            (let after = drop (Suc opn) rest in
             case position is_brace after of
               None \<Rightarrow> Inl UnbalancedOpen
             | Some close \<Rightarrow>
                 if after ! close \<noteq> CHR ''}'' then Inl UnbalancedOpen
                 else
                   (let (name, multi) = capture_body (take close after) in
                    if name = [] then Inl EmptyName
                    else if \<not> list_all name_char name then Inl (BadName name)
                    else if name \<in> set (capture_parts parts) then Inl (DuplicateName name)
                    else if captures = max_captures then Inl TooManyCaptures
                    else parse_loop (drop (Suc close) after)
                           ((if 0 < opn then parts @ [Text (take opn rest)] else parts)
                            @ [Capture name multi])
                           (Suc captures))))"
  by pat_completeness auto
termination
proof (relation "measure (\<lambda>(rest, parts, captures). length rest)", goal_cases)
  case (2 rest parts captures opn after close)
  then show ?case by (auto dest!: position_length)
qed simp

declare parse_loop.simps [simp del]

definition parse_pattern :: "string \<Rightarrow> pattern_error + part list" where
  "parse_pattern topic = parse_loop topic [] 0"

definition has_captures :: "part list \<Rightarrow> bool" where
  "has_captures ps \<longleftrightarrow> list_ex (\<lambda>p. case p of Capture _ _ \<Rightarrow> True | Text _ \<Rightarrow> False) ps"

subsection \<open>The matched topic\<close>

text \<open>\<open>str::get\<close> of a byte range.\<close>

definition str_slice :: "nat \<Rightarrow> nat \<Rightarrow> 'a list \<Rightarrow> 'a list option" where
  "str_slice a b xs = (if a \<le> b \<and> b \<le> length xs then Some (take (b - a) (drop a xs)) else None)"

record topic_match =
  tm_topic :: string
  tm_names :: "string list"
  tm_spans :: spans
  tm_key :: "nat option"

definition span_text :: "string \<Rightarrow> spans \<Rightarrow> nat \<Rightarrow> string option" where
  "span_text topic spans i =
     (if i < length spans then str_slice (unat (fst (spans ! i))) (unat (snd (spans ! i))) topic
      else None)"

definition tm_get :: "topic_match \<Rightarrow> string \<Rightarrow> string option" where
  "tm_get m name =
     (case position (\<lambda>n. n = name) (tm_names m) of
        None \<Rightarrow> None
      | Some i \<Rightarrow> span_text (tm_topic m) (tm_spans m) i)"

subsection \<open>Compiled filters and the grammar without wildcards\<close>

text \<open>\<open>TopicFilter\<close>: the filter to subscribe, whether it matches only itself, and \<open>matches\<close>,
  which writes the spans it is handed.\<close>

record topic_filter =
  tf_filter :: string
  tf_literal :: bool
  tf_matches :: "string \<Rightarrow> spans \<Rightarrow> bool \<times> spans"

definition exact_filter :: "string \<Rightarrow> topic_filter" where
  "exact_filter s = \<lparr>tf_filter = s, tf_literal = True, tf_matches = (\<lambda>topic spans. (topic = s, spans))\<rparr>"

definition exact_compile :: "string \<Rightarrow> part list \<Rightarrow> topic_filter option" where
  "exact_compile topic parts = (if has_captures parts then None else Some (exact_filter topic))"

definition exact_covers :: "string \<Rightarrow> string \<Rightarrow> bool" where
  "exact_covers a b \<longleftrightarrow> a = b"

subsection \<open>The grammar interface\<close>

text \<open>
  What the router relies on: a compiled filter is valid, matches what its filter string means
  and, when literal, only itself; covering is transitive and sound for the meaning.
\<close>

locale topic_grammar =
  fixes compile :: "string \<Rightarrow> part list \<Rightarrow> topic_filter option"
    and covers :: "string \<Rightarrow> string \<Rightarrow> bool"
    and valid :: "string \<Rightarrow> bool"
    and meaning :: "string \<Rightarrow> string \<Rightarrow> bool"
  assumes compile_valid: "compile topic ps = Some f \<Longrightarrow> valid (tf_filter f)"
    and compile_meaning: "compile topic ps = Some f \<Longrightarrow>
           fst (tf_matches f t spans) \<longleftrightarrow> meaning (tf_filter f) t"
    and compile_literal: "compile topic ps = Some f \<Longrightarrow> tf_literal f \<Longrightarrow>
           meaning (tf_filter f) t \<longleftrightarrow> tf_filter f = t"
    and covers_trans: "valid a \<Longrightarrow> valid b \<Longrightarrow> valid c \<Longrightarrow> covers a b \<Longrightarrow> covers b c \<Longrightarrow> covers a c"
    and covers_meaning: "valid a \<Longrightarrow> valid b \<Longrightarrow> covers a b \<Longrightarrow> meaning b t \<Longrightarrow> meaning a t"

interpretation exact: topic_grammar exact_compile exact_covers "\<lambda>_. True" "\<lambda>f t. f = t"
  by unfold_locales (auto simp: exact_compile_def exact_filter_def exact_covers_def split: if_splits)

subsection \<open>What a valid pattern is\<close>

definition render_part :: "part \<Rightarrow> string" where
  "render_part p =
     (case p of
        Text t \<Rightarrow> t
      | Capture n multi \<Rightarrow> ''{'' @ n @ (if multi then ''..'' else []) @ ''}'')"

definition render :: "part list \<Rightarrow> string" where
  "render ps = concat (map render_part ps)"

definition text_ok :: "string \<Rightarrow> bool" where
  "text_ok t \<longleftrightarrow> t \<noteq> [] \<and> list_all (\<lambda>c. \<not> is_brace c) t"

definition name_ok :: "string \<Rightarrow> bool" where
  "name_ok n \<longleftrightarrow> n \<noteq> [] \<and> list_all name_char n"

text \<open>Texts are nonempty, free of braces and never adjacent; names are valid.\<close>

fun parts_ok :: "part list \<Rightarrow> bool" where
  "parts_ok [] \<longleftrightarrow> True"
| "parts_ok [Text t] \<longleftrightarrow> text_ok t"
| "parts_ok (Text t # Text u # ps) \<longleftrightarrow> False"
| "parts_ok (Text t # Capture n m # ps) \<longleftrightarrow> text_ok t \<and> name_ok n \<and> parts_ok ps"
| "parts_ok (Capture n m # ps) \<longleftrightarrow> name_ok n \<and> parts_ok ps"

definition pattern_ok :: "part list \<Rightarrow> bool" where
  "pattern_ok ps \<longleftrightarrow>
     parts_ok ps \<and> distinct (capture_parts ps) \<and> length (capture_parts ps) \<le> max_captures"

lemma capture_parts_simps [simp]:
  "capture_parts [] = []"
  "capture_parts (Text t # ps) = capture_parts ps"
  "capture_parts (Capture n m # ps) = n # capture_parts ps"
  "capture_parts (ps @ qs) = capture_parts ps @ capture_parts qs"
  by (simp_all add: capture_parts_def)

lemma render_simps [simp]:
  "render [] = []"
  "render (Text t # ps) = t @ render ps"
  "render (Capture n m # ps) = ''{'' @ n @ (if m then ''..'' else []) @ ''}'' @ render ps"
  by (simp_all add: render_def render_part_def)

lemma name_char_plain: "name_char c \<Longrightarrow> \<not> is_brace c \<and> c \<noteq> CHR ''.''"
  by (auto simp: name_char_def is_brace_def)

lemma capture_body_render:
  assumes "name_ok n"
  shows "capture_body (n @ (if m then ''..'' else [])) = (n, m)"
proof (cases m)
  case True
  then show ?thesis by (simp add: capture_body_def strip_suffix_Some split: option.splits)
next
  case False
  have "strip_suffix ''..'' n \<noteq> Some r" for r
    using assms name_char_plain [of "CHR ''.''"] by (auto simp: strip_suffix_Some name_ok_def)
  then show ?thesis using False by (auto simp: capture_body_def split: option.splits)
qed

lemma capture_body_sound: "capture_body body = (n, m) \<Longrightarrow> body = n @ (if m then ''..'' else [])"
  by (auto simp: capture_body_def strip_suffix_Some split: option.splits)

lemma name_no_brace: "name_ok n \<Longrightarrow> \<forall>c \<in> set (n @ (if m then ''..'' else [])). \<not> is_brace c"
  using name_char_plain by (auto simp: name_ok_def list_all_iff is_brace_def)

lemma position_brace: "\<forall>c \<in> set xs. \<not> is_brace c \<Longrightarrow> is_brace b \<Longrightarrow>
   position is_brace (xs @ b # ys) = Some (length xs)"
  by (rule position_append_first)

text \<open>One turn of the loop over a text (possibly empty) and a capture.\<close>

lemma parse_loop_capture:
  assumes "\<forall>c \<in> set t. \<not> is_brace c" and "name_ok n" and "n \<notin> set (capture_parts parts)"
    and "captures < max_captures"
  shows "parse_loop (t @ ''{'' @ n @ (if m then ''..'' else []) @ ''}'' @ rest) parts captures
     = parse_loop rest ((if t \<noteq> [] then parts @ [Text t] else parts) @ [Capture n m]) (Suc captures)"
proof -
  let ?body = "n @ (if m then ''..'' else [])"
  have p: "position is_brace (t @ CHR ''{'' # ?body @ ''}'' @ rest) = Some (length t)"
    using assms(1) by (simp add: position_brace is_brace_def)
  have q: "position is_brace (?body @ CHR ''}'' # rest) = Some (length ?body)"
    using name_no_brace [OF assms(2)] by (rule position_brace) (simp add: is_brace_def)
  show ?thesis
    using p q capture_body_render [OF assms(2), of m] assms
    by (subst parse_loop.simps) (auto simp: Let_def nth_append name_ok_def)
qed

lemma parse_loop_text:
  "\<forall>c \<in> set t. \<not> is_brace c \<Longrightarrow>
     parse_loop t parts captures = Inr (if t \<noteq> [] then parts @ [Text t] else parts)"
  by (subst parse_loop.simps) (simp add: position_None [THEN iffD2])

lemma parse_loop_render:
  "parts_ok ps \<Longrightarrow> distinct (capture_parts (acc @ ps))
     \<Longrightarrow> length (capture_parts (acc @ ps)) \<le> max_captures
     \<Longrightarrow> parse_loop (render ps) acc (length (capture_parts acc)) = Inr (acc @ ps)"
proof (induction ps arbitrary: acc rule: parts_ok.induct)
  case 1
  then show ?case using parse_loop_text [of "[]"] by simp
next
  case (2 t)
  then show ?case using parse_loop_text [of t] by (auto simp: text_ok_def list_all_iff)
next
  case (4 t n m ps)
  then have "\<forall>c \<in> set t. \<not> is_brace c" "t \<noteq> []" by (simp_all add: text_ok_def list_all_iff)
  then show ?case
    using 4 "4.IH" [of "acc @ [Text t, Capture n m]"]
      parse_loop_capture [of t n acc "length (capture_parts acc)" m "render ps"] by simp
next
  case (5 n m ps)
  then show ?case
    using "5.IH" [of "acc @ [Capture n m]"]
      parse_loop_capture [of "[]" n acc "length (capture_parts acc)" m "render ps"] by simp
qed simp

lemma parse_loop_sound:
  "parse_loop rest parts captures = Inr ps \<Longrightarrow> captures = length (capture_parts parts)
     \<Longrightarrow> captures \<le> max_captures \<Longrightarrow> distinct (capture_parts parts)
     \<Longrightarrow> \<exists>qs. ps = parts @ qs \<and> render qs = rest \<and> parts_ok qs
           \<and> distinct (capture_parts ps) \<and> length (capture_parts ps) \<le> max_captures"
proof (induction rest parts captures rule: parse_loop.induct)
  case (1 rest parts captures)
  show ?case
  proof (cases "position is_brace rest")
    case None
    then have "list_all (\<lambda>c. \<not> is_brace c) rest" by (simp add: position_None list_all_iff)
    then show ?thesis using "1.prems" None
      by (subst (asm) parse_loop.simps) (auto simp: text_ok_def)
  next
    case (Some opn)
    note opn = position_split [OF Some]
    let ?after = "drop (Suc opn) rest"
    have o: "rest ! opn \<noteq> CHR ''}''"
      using "1.prems"(1) Some by (subst (asm) parse_loop.simps) auto
    obtain close where c: "position is_brace ?after = Some close"
      using "1.prems"(1) Some o by (subst (asm) parse_loop.simps) (auto simp: Let_def split: option.splits)
    note close = position_split [OF c]
    have cl: "?after ! close = CHR ''}''"
      using "1.prems"(1) Some o c by (subst (asm) parse_loop.simps) (auto simp: Let_def split: if_splits)
    obtain n m where nm: "capture_body (take close ?after) = (n, m)" by fastforce
    let ?parts = "(if 0 < opn then parts @ [Text (take opn rest)] else parts) @ [Capture n m]"
    have ok: "n \<noteq> []" "list_all name_char n" "n \<notin> set (capture_parts parts)" "captures \<noteq> max_captures"
      and run: "parse_loop (drop (Suc close) ?after) ?parts (Suc captures) = Inr ps"
      using "1.prems"(1) Some o c cl nm
      by (subst (asm) parse_loop.simps; simp add: Let_def split: if_splits)+
    obtain qs where qs: "ps = ?parts @ qs" "render qs = drop (Suc close) ?after" "parts_ok qs"
      "distinct (capture_parts ps)" "length (capture_parts ps) \<le> max_captures"
    proof -
      note IH = "1.IH" [OF Some o refl c _ refl nm [symmetric] ok(1) _ ok(3,4) run]
      have "length (capture_parts ?parts) = Suc captures" "distinct (capture_parts ?parts)"
        "Suc captures \<le> max_captures"
        using "1.prems"(2-4) ok(3,4) by auto
      then show thesis using IH ok(2) cl that by auto
    qed
    define ps' where "ps' = (if 0 < opn then [Text (take opn rest)] else []) @ Capture n m # qs"
    have ps: "ps = parts @ ps'" using qs(1) by (simp add: ps'_def)
    have "rest = take opn rest @ ''{'' @ n @ (if m then ''..'' else []) @ ''}'' @ render qs"
    proof -
      have "rest ! opn = CHR ''{''" using opn(3) o by (auto simp: is_brace_def)
      moreover have "?after = take close ?after @ CHR ''}'' # render qs"
        using close(1) cl qs(2) by simp
      ultimately show ?thesis using opn(1) capture_body_sound [OF nm] by (metis append_Cons append_Nil append_assoc)
    qed
    moreover have "render ps' =
        take opn rest @ ''{'' @ n @ (if m then ''..'' else []) @ ''}'' @ render qs"
      by (cases "0 < opn") (simp_all add: ps'_def)
    ultimately have rendered: "render ps' = rest" by (simp only:)
    have "parts_ok ps'"
      using qs(3) ok opn(2) position_length [OF Some]
      by (auto simp: ps'_def name_ok_def text_ok_def list_all_iff)
    then show ?thesis using ps rendered qs(4,5) by blast
  qed
qed

subsection \<open>Properties\<close>

text \<open>
  \<open>TopicPattern::parse\<close> is exactly the inverse of writing a pattern down: it accepts a
  topic if and only if the topic is the text of a valid pattern (names well formed and
  distinct, at most eight captures, braces balanced), and then returns that pattern.
\<close>

theorem parse_pattern_iff:
  "parse_pattern topic = Inr ps \<longleftrightarrow> pattern_ok ps \<and> render ps = topic"
proof
  assume "parse_pattern topic = Inr ps"
  then show "pattern_ok ps \<and> render ps = topic"
    using parse_loop_sound [of topic "[]" 0 ps] by (auto simp: parse_pattern_def pattern_ok_def)
next
  assume "pattern_ok ps \<and> render ps = topic"
  then show "parse_pattern topic = Inr ps"
    using parse_loop_render [of ps "[]"] by (auto simp: parse_pattern_def pattern_ok_def)
qed

end
