(* ===== verification/Mqtt_Grammar.thy ===== *)
theory Mqtt_Grammar
  imports Topic_Pattern
begin

text \<open>
  \<open>aimdb-mqtt-connector/src/grammar.rs\<close>: MQTT topic filters.  A pattern compiles to a filter
  string for the broker and a list of levels the router matches with; \<open>covers\<close> decides which
  subscriptions make others redundant.
\<close>

subsection \<open>Compiling\<close>

datatype level = Literal string | Single "nat option" | Multi "nat option"

record raw_level =
  raw_text :: string
  raw_capture :: "(nat \<times> bool) option"

datatype mqtt_error = PartOfLevel | PartialWildcard string | MultiNotLast

definition raw_default :: raw_level where
  "raw_default = \<lparr>raw_text = [], raw_capture = None\<rparr>"

definition update_last :: "('a \<Rightarrow> 'a) \<Rightarrow> 'a list \<Rightarrow> 'a list" where
  "update_last f xs = (if xs = [] then [] else butlast xs @ [f (last xs)])"

abbreviation slash :: char where "slash \<equiv> CHR ''/''"

text \<open>The segments of a text: the first extends the last level, the others open new ones.\<close>

definition push_text :: "string \<Rightarrow> raw_level list \<Rightarrow> raw_level list" where
  "push_text text raw =
     (case split_on slash text of
        [] \<Rightarrow> raw
      | s # ss \<Rightarrow> update_last (\<lambda>l. l\<lparr>raw_text := raw_text l @ s\<rparr>) raw
                  @ map (\<lambda>t. \<lparr>raw_text = t, raw_capture = None\<rparr>) ss)"

fun raw_levels :: "part list \<Rightarrow> raw_level list \<Rightarrow> nat \<Rightarrow> mqtt_error + raw_level list" where
  "raw_levels [] raw captures = Inr raw"
| "raw_levels (Text text # ps) raw captures = raw_levels ps (push_text text raw) captures"
| "raw_levels (Capture name multi # ps) raw captures =
     (if raw_capture (last raw) \<noteq> None then Inl PartOfLevel
      else raw_levels ps (update_last (\<lambda>l. l\<lparr>raw_capture := Some (captures, multi)\<rparr>) raw) (Suc captures))"

definition level_of :: "raw_level \<Rightarrow> mqtt_error + level" where
  "level_of r =
     (case raw_capture r of
        Some (n, multi) \<Rightarrow>
          if raw_text r \<noteq> [] then Inl PartOfLevel
          else Inr (if multi then Multi (Some n) else Single (Some n))
      | None \<Rightarrow>
          if raw_text r = ''+'' then Inr (Single None)
          else if raw_text r = ''#'' then Inr (Multi None)
          else if CHR ''+'' \<in> set (raw_text r) \<or> CHR ''#'' \<in> set (raw_text r)
          then Inl (PartialWildcard (raw_text r))
          else Inr (Literal (raw_text r)))"

fun levels_of :: "raw_level list \<Rightarrow> mqtt_error + level list" where
  "levels_of [] = Inr []"
| "levels_of (r # rs) =
     (case level_of r of
        Inl e \<Rightarrow> Inl e
      | Inr l \<Rightarrow>
          if (case l of Multi _ \<Rightarrow> True | _ \<Rightarrow> False) \<and> rs \<noteq> [] then Inl MultiNotLast
          else map_sum id ((#) l) (levels_of rs))"

definition level_text :: "level \<Rightarrow> string" where
  "level_text l = (case l of Literal t \<Rightarrow> t | Single _ \<Rightarrow> ''+'' | Multi _ \<Rightarrow> ''#'')"

subsection \<open>Matching\<close>

definition span_of :: "nat \<Rightarrow> nat \<Rightarrow> u16 \<times> u16" where
  "span_of a b = (of_nat a, of_nat b)"

definition set_span :: "nat option \<Rightarrow> u16 \<times> u16 \<Rightarrow> spans \<Rightarrow> spans" where
  "set_span capture sp spans = (case capture of None \<Rightarrow> spans | Some n \<Rightarrow> spans[n := sp])"

text \<open>The level at the front of the rest, and what follows its separator.\<close>

definition next_level :: "string \<Rightarrow> string \<times> string option" where
  "next_level r =
     (case position (\<lambda>c. c = slash) r of
        None \<Rightarrow> (r, None)
      | Some i \<Rightarrow> (take i r, Some (drop (Suc i) r)))"

fun match_levels ::
  "string \<Rightarrow> nat \<Rightarrow> level list \<Rightarrow> string option \<Rightarrow> nat \<Rightarrow> spans \<Rightarrow> bool \<times> spans" where
  "match_levels topic i [] rest pos spans = (rest = None, spans)"
| "match_levels topic i (Multi capture # ls) rest pos spans =
     (if i = 0 \<and> starts_with ''$'' topic then (False, spans)
      else (True, set_span capture
             (span_of (if rest \<noteq> None then pos else length topic) (length topic)) spans))"
| "match_levels topic i (Literal lit # ls) rest pos spans =
     (case rest of
        None \<Rightarrow> (False, spans)
      | Some r \<Rightarrow>
          (let (text, next) = next_level r in
           if lit \<noteq> text then (False, spans)
           else match_levels topic (Suc i) ls next (pos + length text + 1) spans))"
| "match_levels topic i (Single capture # ls) rest pos spans =
     (case rest of
        None \<Rightarrow> (False, spans)
      | Some r \<Rightarrow>
          (let (text, next) = next_level r in
           if i = 0 \<and> starts_with ''$'' text then (False, spans)
           else match_levels topic (Suc i) ls next (pos + length text + 1)
                  (set_span capture (span_of pos (pos + length text)) spans)))"

definition mqtt_filter_of :: "level list \<Rightarrow> topic_filter" where
  "mqtt_filter_of ls =
     \<lparr>tf_filter = join_with [slash] (map level_text ls),
      tf_literal = list_all (\<lambda>l. case l of Literal _ \<Rightarrow> True | _ \<Rightarrow> False) ls,
      tf_matches = (\<lambda>topic spans. match_levels topic 0 ls (Some topic) 0 spans)\<rparr>"

definition mqtt_levels :: "part list \<Rightarrow> mqtt_error + level list" where
  "mqtt_levels ps =
     (case raw_levels ps [raw_default] 0 of Inl e \<Rightarrow> Inl e | Inr raw \<Rightarrow> levels_of raw)"

definition mqtt_compile :: "part list \<Rightarrow> mqtt_error + topic_filter" where
  "mqtt_compile ps = map_sum id mqtt_filter_of (mqtt_levels ps)"

subsection \<open>Covering\<close>

fun covers_from :: "nat \<Rightarrow> string list \<Rightarrow> string list \<Rightarrow> bool" where
  "covers_from i [] [] \<longleftrightarrow> True"
| "covers_from i [] (y # ys) \<longleftrightarrow> False"
| "covers_from i (x # xs) bs \<longleftrightarrow>
     (if x = ''#'' then 0 < i \<or> \<not> (bs \<noteq> [] \<and> starts_with ''$'' (hd bs))
      else (case bs of
              [] \<Rightarrow> False
            | y # ys \<Rightarrow>
                if x = ''+'' \<and> y \<noteq> ''#''
                then (if i = 0 \<and> starts_with ''$'' y then False else covers_from (Suc i) xs ys)
                else if x = y \<and> x \<noteq> ''+'' then covers_from (Suc i) xs ys
                else False))"

definition mqtt_covers :: "string \<Rightarrow> string \<Rightarrow> bool" where
  "mqtt_covers a b = covers_from 0 (split_on slash a) (split_on slash b)"

subsection \<open>The meaning of a filter\<close>

text \<open>MQTT 3.1.1, 4.7, on the levels of a filter and of a topic.\<close>

fun filter_sem :: "string list \<Rightarrow> string list \<Rightarrow> bool" where
  "filter_sem [] ts \<longleftrightarrow> ts = []"
| "filter_sem (f # fs) ts \<longleftrightarrow>
     (if f = ''#'' then fs = []
      else (case ts of [] \<Rightarrow> False | t # ts' \<Rightarrow> (f = ''+'' \<or> f = t) \<and> filter_sem fs ts'))"

definition is_wild :: "string \<Rightarrow> bool" where
  "is_wild f \<longleftrightarrow> f = ''+'' \<or> f = ''#''"

definition mqtt_meaning :: "string \<Rightarrow> string \<Rightarrow> bool" where
  "mqtt_meaning filter_str topic \<longleftrightarrow>
     filter_sem (split_on slash filter_str) (split_on slash topic)
     \<and> \<not> (is_wild (hd (split_on slash filter_str)) \<and> starts_with ''$'' topic)"

text \<open>A well-formed filter: wildcards are whole levels and \<open>#\<close> is the last one.\<close>

definition level_ok :: "string \<Rightarrow> bool" where
  "level_ok t \<longleftrightarrow> is_wild t \<or> (CHR ''+'' \<notin> set t \<and> CHR ''#'' \<notin> set t)"

definition mqtt_valid :: "string \<Rightarrow> bool" where
  "mqtt_valid f \<longleftrightarrow> list_all level_ok (split_on slash f) \<and> ''#'' \<notin> set (butlast (split_on slash f))"

subsection \<open>What compiling yields\<close>

fun levels_ok :: "level list \<Rightarrow> bool" where
  "levels_ok [] \<longleftrightarrow> True"
| "levels_ok (Literal t # ls) \<longleftrightarrow>
     slash \<notin> set t \<and> CHR ''+'' \<notin> set t \<and> CHR ''#'' \<notin> set t \<and> levels_ok ls"
| "levels_ok (Single c # ls) \<longleftrightarrow> levels_ok ls"
| "levels_ok (Multi c # ls) \<longleftrightarrow> ls = []"

definition raw_ok :: "raw_level list \<Rightarrow> bool" where
  "raw_ok raw \<longleftrightarrow> raw \<noteq> [] \<and> (\<forall>r \<in> set raw. slash \<notin> set (raw_text r))"

definition raw_numbers :: "raw_level list \<Rightarrow> nat list" where
  "raw_numbers raw = concat (map (\<lambda>r. case raw_capture r of None \<Rightarrow> [] | Some (n, _) \<Rightarrow> [n]) raw)"

definition level_numbers :: "level list \<Rightarrow> nat list" where
  "level_numbers ls =
     concat (map (\<lambda>l. case l of Single (Some n) \<Rightarrow> [n] | Multi (Some n) \<Rightarrow> [n] | _ \<Rightarrow> []) ls)"

lemma update_last_snoc [simp]: "update_last f (xs @ [x]) = xs @ [f x]"
  by (simp add: update_last_def)

lemma raw_numbers_append [simp]: "raw_numbers (xs @ ys) = raw_numbers xs @ raw_numbers ys"
  by (simp add: raw_numbers_def)

lemma push_text_props:
  assumes "raw_ok raw"
  shows "raw_ok (push_text tx raw) \<and> raw_numbers (push_text tx raw) = raw_numbers raw"
proof -
  obtain init l where raw: "raw = init @ [l]" using assms by (metis raw_ok_def append_butlast_last_id)
  obtain s ss where ss: "split_on slash tx = s # ss" by (metis list.exhaust split_on_ne)
  then have "slash \<notin> set s" "\<forall>t \<in> set ss. slash \<notin> set t"
    using split_on_no_sep [of _ slash tx] by auto
  then show ?thesis
    using assms raw ss by (auto simp: push_text_def raw_ok_def raw_numbers_def)
qed

lemma raw_levels_props:
  "raw_levels ps raw captures = Inr raw' \<Longrightarrow> raw_ok raw \<Longrightarrow> raw_numbers raw = [0..<captures] \<Longrightarrow>
     raw_ok raw' \<and> raw_numbers raw' = [0..<captures + length (capture_parts ps)]"
proof (induction ps raw captures rule: raw_levels.induct)
  case (2 tx ps raw captures)
  then show ?case using push_text_props [of raw tx] by simp
next
  case (3 name multi ps raw captures)
  obtain init l where raw: "raw = init @ [l]" using 3(3) by (metis raw_ok_def append_butlast_last_id)
  have none: "raw_capture l = None" using 3(2) raw by (cases "raw_capture l") (auto split: if_splits)
  let ?raw = "init @ [l\<lparr>raw_capture := Some (captures, multi)\<rparr>]"
  have "raw_numbers ?raw = [0..<Suc captures]"
    using 3(4) raw none by (simp add: raw_numbers_def)
  moreover have "raw_ok ?raw" using 3(3) raw by (auto simp: raw_ok_def)
  ultimately show ?case using "3.IH" 3(2) raw none by simp
qed simp

lemma levels_of_props:
  "levels_of raw = Inr ls \<Longrightarrow> \<forall>r \<in> set raw. slash \<notin> set (raw_text r) \<Longrightarrow>
     levels_ok ls \<and> length ls = length raw \<and> level_numbers ls = raw_numbers raw"
proof (induction raw arbitrary: ls)
  case (Cons r rs)
  obtain l where l: "level_of r = Inr l" using Cons.prems by (cases "level_of r") auto
  obtain ls' where ls': "levels_of rs = Inr ls'" "ls = l # ls'"
    using Cons.prems l by (cases "levels_of rs") (auto split: if_splits)
  have last: "(\<exists>c. l = Multi c) \<Longrightarrow> rs = []"
    using Cons.prems l by (auto split: if_splits)
  have ok: "levels_ok ls'" "length ls' = length rs" "level_numbers ls' = raw_numbers rs"
    using Cons ls' by auto
  have "level_numbers (l # ls') = raw_numbers (r # rs)"
    using l ok(3) by (auto simp: level_of_def level_numbers_def raw_numbers_def split: option.splits if_splits)
  moreover have "levels_ok (l # ls')"
    using l last ok Cons.prems(2) by (cases l) (auto simp: level_of_def split: option.splits if_splits)
  ultimately show ?case using ls' ok by simp
qed (simp add: level_numbers_def raw_numbers_def)

lemma mqtt_levels_props:
  assumes "mqtt_levels ps = Inr ls"
  shows "levels_ok ls" and "ls \<noteq> []" and "level_numbers ls = [0..<length (capture_parts ps)]"
proof -
  obtain raw where raw: "raw_levels ps [raw_default] 0 = Inr raw" and ls: "levels_of raw = Inr ls"
    using assms by (auto simp: mqtt_levels_def split: sum.splits)
  have "raw_ok raw \<and> raw_numbers raw = [0..<0 + length (capture_parts ps)]"
    by (rule raw_levels_props [OF raw]) (auto simp: raw_ok_def raw_default_def raw_numbers_def)
  then show "levels_ok ls" and "ls \<noteq> []" and "level_numbers ls = [0..<length (capture_parts ps)]"
    using levels_of_props [OF ls] by (auto simp: raw_ok_def)
qed

lemma mqtt_compile_levels:
  assumes "mqtt_compile ps = Inr f"
  obtains ls where "mqtt_levels ps = Inr ls" and "f = mqtt_filter_of ls"
  using assms by (auto simp: mqtt_compile_def map_sum_def split: sum.splits)

lemma level_text_no_slash: "levels_ok ls \<Longrightarrow> t \<in> set (map level_text ls) \<Longrightarrow> slash \<notin> set t"
  by (induction ls rule: levels_ok.induct) (auto simp: level_text_def)

lemma split_filter:
  "levels_ok ls \<Longrightarrow> ls \<noteq> [] \<Longrightarrow> split_on slash (tf_filter (mqtt_filter_of ls)) = map level_text ls"
  unfolding mqtt_filter_of_def
  using level_text_no_slash [of ls] by (simp, intro split_on_join) auto

subsection \<open>Matching decides the meaning\<close>

definition rest_of :: "string list \<Rightarrow> string option" where
  "rest_of ts = (if ts = [] then None else Some (join_with [slash] ts))"

lemma next_level_join:
  assumes "slash \<notin> set t"
  shows "next_level (join_with [slash] (t # ts)) = (t, rest_of ts)"
proof (cases "ts = []")
  case True
  then have "position (\<lambda>c. c = slash) t = None" using assms by (auto simp: position_None)
  then show ?thesis using True by (simp add: next_level_def rest_of_def)
next
  case False
  then have "position (\<lambda>c. c = slash) (t @ slash # join_with [slash] ts) = Some (length t)"
    using assms by (auto intro: position_append_first)
  then show ?thesis using False by (simp add: next_level_def rest_of_def join_with_Cons)
qed

lemma rest_of_simps [simp]: "rest_of [] = None" "rest_of (t # ts) = Some (join_with [slash] (t # ts))"
  by (simp_all add: rest_of_def)

lemma match_levels_sem:
  "levels_ok ls \<Longrightarrow> \<forall>t \<in> set ts. slash \<notin> set t \<Longrightarrow>
     fst (match_levels topic (Suc i) ls (rest_of ts) pos spans) \<longleftrightarrow> filter_sem (map level_text ls) ts"
proof (induction ls arbitrary: ts i pos spans rule: levels_ok.induct)
  case 1
  then show ?case by (auto simp: rest_of_def)
next
  case (2 lit ls)
  then show ?case
    by (cases ts) (auto simp: level_text_def next_level_join is_wild_def simp del: join_with.simps)
next
  case (3 c ls)
  then show ?case
    by (cases ts) (auto simp: level_text_def next_level_join simp del: join_with.simps)
next
  case (4 c ls)
  then show ?case by (simp add: level_text_def)
qed

lemma starts_dollar_split:
  "starts_with ''$'' (hd (split_on slash topic)) \<longleftrightarrow> starts_with ''$'' topic"
  by (cases topic) (auto simp: starts_with_def split: list.splits)

lemma mqtt_matches_meaning:
  assumes ok: "levels_ok ls" and ne: "ls \<noteq> []"
  shows "fst (tf_matches (mqtt_filter_of ls) topic spans) \<longleftrightarrow>
     mqtt_meaning (tf_filter (mqtt_filter_of ls)) topic"
proof -
  obtain t ts where split: "split_on slash topic = t # ts" by (metis list.exhaust split_on_ne)
  then have topic: "Some topic = rest_of (t # ts)" using join_split_on [of slash topic] by simp
  have free: "slash \<notin> set t" "\<forall>t \<in> set ts. slash \<notin> set t"
    using split_on_no_sep [of _ slash topic] split by auto
  have dollar: "starts_with ''$'' t \<longleftrightarrow> starts_with ''$'' topic"
    using starts_dollar_split [of topic] split by simp
  obtain l ls' where ls: "ls = l # ls'" using ne by (cases ls) auto
  have "fst (match_levels topic 0 ls (rest_of (t # ts)) 0 spans) \<longleftrightarrow>
      filter_sem (map level_text ls) (t # ts) \<and> \<not> (is_wild (level_text l) \<and> starts_with ''$'' topic)"
  proof (cases l)
    case (Literal lit)
    then have "\<not> is_wild lit" using ok ls by (auto simp: is_wild_def)
    then show ?thesis
      using Literal ls ok free match_levels_sem [of ls' ts topic 0]
      by (auto simp: level_text_def next_level_join is_wild_def simp del: join_with.simps One_nat_def)
  next
    case (Single c)
    then show ?thesis
      using ls ok free dollar match_levels_sem [of ls' ts topic 0]
      by (auto simp: level_text_def next_level_join is_wild_def simp del: join_with.simps One_nat_def)
  next
    case (Multi c)
    then show ?thesis using ls ok by (simp add: level_text_def is_wild_def)
  qed
  then show ?thesis
    using split_filter [OF ok ne] split topic ls
    by (simp add: mqtt_meaning_def) (simp add: mqtt_filter_of_def)
qed

subsection \<open>Captures\<close>

lemma span_text_of:
  assumes "a \<le> b" and "b \<le> length topic" and "length topic < 2 ^ 16" and "n < length spans"
    and "spans ! n = span_of a b"
  shows "span_text topic spans n = Some (take (b - a) (drop a topic))"
  using assms by (simp add: span_text_def span_of_def str_slice_def unat_of_nat)

lemma length_set_span [simp]: "length (set_span c sp spans) = length spans"
  by (cases c) (simp_all add: set_span_def)

definition captured :: "string \<Rightarrow> level list \<Rightarrow> string list \<Rightarrow> spans \<Rightarrow> bool" where
  "captured topic ls ts spans \<longleftrightarrow>
     (\<forall>k < length ls. \<forall>n.
        (ls ! k = Single (Some n) \<longrightarrow> k < length ts \<and> span_text topic spans n = Some (ts ! k))
        \<and> (ls ! k = Multi (Some n) \<longrightarrow> span_text topic spans n = Some (join_with [slash] (drop k ts))))"

lemma captured_Cons:
  assumes "captured topic ls ts spans"
    and "\<And>n. l = Single (Some n) \<Longrightarrow> span_text topic spans n = Some t"
    and "\<And>n. l \<noteq> Multi (Some n)"
  shows "captured topic (l # ls) (t # ts) spans"
  unfolding captured_def
proof (intro allI impI)
  fix k n assume "k < length (l # ls)"
  then show "((l # ls) ! k = Single (Some n) \<longrightarrow>
        k < length (t # ts) \<and> span_text topic spans n = Some ((t # ts) ! k))
      \<and> ((l # ls) ! k = Multi (Some n) \<longrightarrow>
        span_text topic spans n = Some (join_with [slash] (drop k (t # ts))))"
    using assms by (cases k) (auto simp: captured_def)
qed

lemma match_levels_captures:
  assumes "match_levels topic i ls (rest_of ts) pos spans = (True, spans')"
    and "levels_ok ls" and "distinct (level_numbers ls)"
    and "\<forall>n \<in> set (level_numbers ls). n < length spans"
    and "ts \<noteq> [] \<Longrightarrow> \<exists>pre. topic = pre @ join_with [slash] ts \<and> length pre = pos"
    and "length topic < 2 ^ 16" and "\<forall>t \<in> set ts. slash \<notin> set t"
  shows "length spans' = length spans
     \<and> (\<forall>n. n \<notin> set (level_numbers ls) \<longrightarrow> spans' ! n = spans ! n)
     \<and> captured topic ls ts spans'"
  using assms
proof (induction ls arbitrary: ts i pos spans rule: levels_ok.induct)
  case 1
  then show ?case by (simp add: captured_def)
next
  case (2 lit ls)
  obtain t ts' where ts: "ts = t # ts'" using "2.prems"(1) by (cases ts) auto
  obtain pre where pre: "topic = pre @ join_with [slash] ts" "length pre = pos"
    using "2.prems"(5) ts by auto
  have "match_levels topic (Suc i) ls (rest_of ts') (pos + length t + 1) spans = (True, spans')"
    using "2.prems"(1,7) ts by (auto simp: next_level_join simp del: join_with.simps split: if_splits)
  moreover have "\<exists>pre'. topic = pre' @ join_with [slash] ts' \<and> length pre' = pos + length t + 1"
    if "ts' \<noteq> []"
    using pre ts that by (intro exI [of _ "pre @ t @ [slash]"]) (simp add: join_with_Cons)
  ultimately have "length spans' = length spans
     \<and> (\<forall>n. n \<notin> set (level_numbers ls) \<longrightarrow> spans' ! n = spans ! n) \<and> captured topic ls ts' spans'"
    using "2.IH" "2.prems" ts by (simp add: level_numbers_def)
  then show ?case using ts by (auto simp: level_numbers_def intro: captured_Cons)
next
  case (3 c ls)
  obtain t ts' where ts: "ts = t # ts'" using "3.prems"(1) by (cases ts) auto
  obtain pre where pre: "topic = pre @ join_with [slash] ts" "length pre = pos"
    using "3.prems"(5) ts by auto
  let ?spans = "set_span c (span_of pos (pos + length t)) spans"
  have "match_levels topic (Suc i) ls (rest_of ts') (pos + length t + 1) ?spans = (True, spans')"
    using "3.prems"(1,7) ts by (auto simp: next_level_join simp del: join_with.simps split: if_splits)
  moreover have "\<exists>pre'. topic = pre' @ join_with [slash] ts' \<and> length pre' = pos + length t + 1"
    if "ts' \<noteq> []"
    using pre ts that by (intro exI [of _ "pre @ t @ [slash]"]) (simp add: join_with_Cons)
  moreover have "distinct (level_numbers ls)" "\<forall>n \<in> set (level_numbers ls). n < length ?spans"
    using "3.prems"(3,4) by (auto simp: level_numbers_def split: option.splits)
  ultimately have IH: "length spans' = length ?spans"
     "\<forall>n. n \<notin> set (level_numbers ls) \<longrightarrow> spans' ! n = ?spans ! n" "captured topic ls ts' spans'"
    using "3.IH" "3.prems"(2,6,7) ts by simp_all
  have "span_text topic spans' n = Some t" if "c = Some n" for n
  proof -
    have "take (length t) (drop pos topic) = t" "pos + length t \<le> length topic"
      using pre ts by (cases "ts' = []"; auto simp: join_with_Cons)+
    moreover have "n < length spans'" "spans' ! n = span_of pos (pos + length t)"
      using IH(1,2) "3.prems"(3,4) that by (auto simp: level_numbers_def set_span_def)
    ultimately show ?thesis
      using span_text_of [of pos "pos + length t" topic n spans'] "3.prems"(6) by simp
  qed
  then have "captured topic (Single c # ls) ts spans'"
    unfolding ts using IH(3) by (intro captured_Cons) auto
  moreover have "spans' ! n = spans ! n" if "n \<notin> set (level_numbers (Single c # ls))" for n
    using IH(2) that by (auto simp: level_numbers_def set_span_def split: option.splits)
  ultimately show ?case using IH(1) by simp
next
  case (4 c ls)
  have s: "spans' = set_span c (span_of (if rest_of ts \<noteq> None then pos else length topic) (length topic)) spans"
    using "4.prems"(1) by (simp split: if_splits)
  have body: "drop (if rest_of ts \<noteq> None then pos else length topic) topic = join_with [slash] ts"
    and le: "(if rest_of ts \<noteq> None then pos else length topic) \<le> length topic"
    using "4.prems"(5) by (cases "ts = []"; auto simp: rest_of_def)+
  have "span_text topic spans' n = Some (join_with [slash] ts)" if "c = Some n" for n
    using span_text_of [OF le, of topic n spans'] body "4.prems"(4,6) that s
    by (simp add: level_numbers_def set_span_def)
  moreover have "spans' ! n = spans ! n" if "n \<notin> set (level_numbers (Multi c # ls))" for n
    using s that by (auto simp: level_numbers_def set_span_def split: option.splits)
  ultimately show ?case using s "4.prems"(2) by (auto simp: captured_def)
qed

subsection \<open>Covering\<close>

lemma filter_sem_covers:
  "covers_from i fs gs \<Longrightarrow> ''#'' \<notin> set (butlast fs) \<Longrightarrow> filter_sem gs ts \<Longrightarrow> filter_sem fs ts"
proof (induction i fs gs arbitrary: ts rule: covers_from.induct)
  case (3 i x xs bs)
  show ?case
  proof (cases "x = ''#''")
    case True
    then show ?thesis using "3.prems"(2) by (cases xs) auto
  next
    case False
    then obtain y ys where bs: "bs = y # ys" using "3.prems"(1) by (cases bs) auto
    have rest: "covers_from (Suc i) xs ys" and xy: "x = ''+'' \<and> y \<noteq> ''#'' \<or> x = y"
      using "3.prems"(1) False bs by (auto split: if_splits)
    obtain t ts' where ts: "ts = t # ts'" "filter_sem ys ts'" "y = ''+'' \<or> y = t"
      using "3.prems"(3) bs xy False by (cases ts) auto
    have "''#'' \<notin> set (butlast xs)" using "3.prems"(2) by (auto split: if_splits)
    then have "filter_sem xs ts'" using "3.IH" False bs rest ts(2) xy "3.prems"(1) by (auto split: if_splits)
    then show ?thesis using ts xy False bs "3.prems"(1) by (auto split: if_splits)
  qed
qed auto

lemma covers_from_trans:
  "covers_from i as bs \<Longrightarrow> covers_from i bs cs \<Longrightarrow> covers_from i as cs"
proof (induction i as bs arbitrary: cs rule: covers_from.induct)
  case (3 i x xs bs)
  show ?case
  proof (cases "x = ''#''")
    case True
    have "\<not> starts_with ''$'' z" if iz: "i = 0" "cs = z # zs" for z zs
    proof -
      obtain y ys where "bs = y # ys" using "3.prems"(2) iz by (cases bs) auto
      then show ?thesis using "3.prems" iz True by (auto split: if_splits)
    qed
    then show ?thesis using True by (cases cs) auto
  next
    case False
    then obtain y ys where bs: "bs = y # ys" using "3.prems"(1) by (cases bs) auto
    have y: "y \<noteq> ''#''" using "3.prems"(1) False bs by (auto split: if_splits)
    then obtain z zs where cs: "cs = z # zs" using "3.prems"(2) bs by (cases cs) auto
    have rest: "covers_from (Suc i) xs ys" "covers_from (Suc i) ys zs"
      and xy: "x = ''+'' \<and> \<not> (i = 0 \<and> starts_with ''$'' y) \<or> x = y \<and> x \<noteq> ''+''"
      and yz: "y = ''+'' \<and> z \<noteq> ''#'' \<and> \<not> (i = 0 \<and> starts_with ''$'' z) \<or> y = z \<and> y \<noteq> ''+''"
      using "3.prems" False bs cs y by (auto split: if_splits)
    have "covers_from (Suc i) xs zs"
      using "3.IH" [OF False bs] xy y rest by blast
    then show ?thesis using False cs xy yz y by auto
  qed
qed (case_tac cs; simp)+

lemma covers_from_dollar:
  assumes "covers_from 0 (f # fs) (g # gs)" and "is_wild f" and "\<not> is_wild g"
  shows "\<not> starts_with ''$'' g"
  using assms by (auto simp: is_wild_def split: if_splits)

lemma mqtt_covers_sound:
  assumes "mqtt_covers a b" and "mqtt_valid a" and "mqtt_meaning b topic"
  shows "mqtt_meaning a topic"
proof -
  obtain f fs g gs t ts where split: "split_on slash a = f # fs" "split_on slash b = g # gs"
    "split_on slash topic = t # ts" by (metis list.exhaust split_on_ne)
  have dollar: "starts_with ''$'' t \<longleftrightarrow> starts_with ''$'' topic"
    using starts_dollar_split [of topic] split by simp
  have "\<not> (is_wild f \<and> starts_with ''$'' topic)"
  proof
    assume w: "is_wild f \<and> starts_with ''$'' topic"
    then have g: "\<not> is_wild g" using assms(3) split by (simp add: mqtt_meaning_def)
    then have "g = t" using assms(3) split by (auto simp: mqtt_meaning_def is_wild_def split: if_splits)
    then show False
      using covers_from_dollar [of f fs g gs] assms(1) split w g dollar by (simp add: mqtt_covers_def)
  qed
  moreover have "filter_sem (f # fs) (t # ts)"
    using filter_sem_covers [of 0 "f # fs" "g # gs" "t # ts"] assms split
    by (simp add: mqtt_covers_def mqtt_valid_def mqtt_meaning_def
        del: covers_from.simps filter_sem.simps butlast.simps)
  ultimately show ?thesis using split by (simp add: mqtt_meaning_def del: filter_sem.simps)
qed

lemma mqtt_covers_trans: "mqtt_covers a b \<Longrightarrow> mqtt_covers b c \<Longrightarrow> mqtt_covers a c"
  unfolding mqtt_covers_def by (rule covers_from_trans)

lemma levels_ok_hash: "levels_ok ls \<Longrightarrow> ''#'' \<notin> set (butlast (map level_text ls))"
  by (induction ls rule: levels_ok.induct) (auto simp: level_text_def)

lemma mqtt_valid_filter:
  assumes "levels_ok ls" and "ls \<noteq> []"
  shows "mqtt_valid (tf_filter (mqtt_filter_of ls))"
proof -
  have "list_all level_ok (map level_text ls)"
    using assms(1)
    by (induction ls rule: levels_ok.induct) (auto simp: level_text_def level_ok_def is_wild_def)
  then show ?thesis
    using split_filter [OF assms] levels_ok_hash [OF assms(1)] by (simp add: mqtt_valid_def)
qed

lemma mqtt_literal_meaning:
  assumes "levels_ok ls" and "ls \<noteq> []" and "tf_literal (mqtt_filter_of ls)"
  shows "mqtt_meaning (tf_filter (mqtt_filter_of ls)) topic \<longleftrightarrow> tf_filter (mqtt_filter_of ls) = topic"
proof -
  let ?fs = "map level_text ls"
  have lit: "list_all (\<lambda>l. case l of Literal _ \<Rightarrow> True | _ \<Rightarrow> False) ls"
    using assms(3) by (simp add: mqtt_filter_of_def)
  have plain: "\<not> is_wild f" if "f \<in> set ?fs" for f
    using that lit assms(1)
    by (induction ls rule: levels_ok.induct) (auto simp: level_text_def is_wild_def)
  have "filter_sem fs ts \<longleftrightarrow> fs = ts" if "\<And>f. f \<in> set fs \<Longrightarrow> \<not> is_wild f" for fs ts
    using that by (induction fs ts rule: filter_sem.induct) (auto simp: is_wild_def split: list.splits)
  then have "filter_sem ?fs (split_on slash topic) \<longleftrightarrow> ?fs = split_on slash topic"
    using plain by blast
  moreover have "\<not> is_wild (hd ?fs)" using plain assms(2) by (cases ls) auto
  ultimately show ?thesis
    unfolding mqtt_meaning_def using split_filter [OF assms(1,2)] split_on_inject
    by metis
qed

subsection \<open>MQTT provides the grammar interface\<close>

definition mqtt_compile_opt :: "string \<Rightarrow> part list \<Rightarrow> topic_filter option" where
  "mqtt_compile_opt topic ps = (case mqtt_compile ps of Inl _ \<Rightarrow> None | Inr f \<Rightarrow> Some f)"

lemma mqtt_compile_opt_levels:
  assumes "mqtt_compile_opt topic ps = Some f"
  obtains ls where "levels_ok ls" and "ls \<noteq> []" and "f = mqtt_filter_of ls"
proof -
  have "mqtt_compile ps = Inr f"
    using assms by (auto simp: mqtt_compile_opt_def split: sum.splits)
  then show thesis using mqtt_compile_levels mqtt_levels_props that by metis
qed

interpretation mqtt: topic_grammar mqtt_compile_opt mqtt_covers mqtt_valid mqtt_meaning
proof unfold_locales
  show "mqtt_valid (tf_filter f)" if "mqtt_compile_opt topic ps = Some f" for topic ps f
    using mqtt_compile_opt_levels [OF that] mqtt_valid_filter by metis
  show "fst (tf_matches f t spans) \<longleftrightarrow> mqtt_meaning (tf_filter f) t"
    if "mqtt_compile_opt topic ps = Some f" for topic ps f t spans
    using mqtt_compile_opt_levels [OF that] mqtt_matches_meaning by metis
  show "mqtt_meaning (tf_filter f) t \<longleftrightarrow> tf_filter f = t"
    if "mqtt_compile_opt topic ps = Some f" and "tf_literal f" for topic ps f t
    using mqtt_compile_opt_levels [OF that(1)] mqtt_literal_meaning that(2) by metis
qed (auto intro: mqtt_covers_sound mqtt_covers_trans)

subsection \<open>Properties\<close>

text \<open>
  The router and the broker agree: the matcher a pattern compiles to accepts exactly the
  topics that the filter string subscribed at the broker selects under MQTT 3.1.1 4.7.
\<close>

theorem mqtt_matches_exact:
  assumes "mqtt_compile ps = Inr f"
  shows "fst (tf_matches f topic spans) \<longleftrightarrow> mqtt_meaning (tf_filter f) topic"
proof -
  obtain ls where ls: "mqtt_levels ps = Inr ls" "f = mqtt_filter_of ls"
    using mqtt_compile_levels [OF assms] .
  then show ?thesis using mqtt_matches_meaning mqtt_levels_props [OF ls(1)] by blast
qed

text \<open>
  A match captures what it should: in a topic the router passes, the span of every
  \<open>{name}\<close> is exactly the topic level at its place, and of \<open>{name..}\<close> the rest of the topic.
\<close>

theorem mqtt_captures_exact:
  assumes "pattern_ok ps" and "mqtt_levels ps = Inr ls" and "length topic < 2 ^ 16"
    and "tf_matches (mqtt_filter_of ls) topic no_spans = (True, spans)"
  shows "captured topic ls (split_on slash topic) spans"
proof -
  note props = mqtt_levels_props [OF assms(2)]
  have "split_on slash topic \<noteq> []" by simp
  then have "rest_of (split_on slash topic) = Some topic"
    using join_split_on [of slash topic] by (simp add: rest_of_def)
  then have m: "match_levels topic 0 ls (rest_of (split_on slash topic)) 0 no_spans = (True, spans)"
    using assms(4) by (simp add: mqtt_filter_of_def)
  have "length (capture_parts ps) \<le> max_captures" using assms(1) by (simp add: pattern_ok_def)
  then have "distinct (level_numbers ls)" "\<forall>n \<in> set (level_numbers ls). n < length no_spans"
    using props(3) by (auto simp: no_spans_def)
  then show ?thesis
    using match_levels_captures [OF m props(1) _ _ _ assms(3)] split_on_no_sep [of _ slash topic]
      join_split_on [of slash topic] by auto
qed

text \<open>
  Dropping a covered subscription loses nothing: when \<open>covers\<close> says a valid filter covers
  another, it matches every topic the other one does, \<open>$\<close> topics included.
\<close>

theorem mqtt_covers_complete:
  assumes "mqtt_covers a b" and "mqtt_valid a" and "mqtt_meaning b topic"
  shows "mqtt_meaning a topic"
  using assms by (rule mqtt_covers_sound)

theorem mqtt_matches_exact_witness:
  "fst (tf_matches (mqtt_filter_of [Literal ''a'', Single (Some 0)]) ''a/b'' no_spans)
     \<longleftrightarrow> mqtt_meaning ''a/+'' ''a/b''"
proof -
  have "mqtt_compile [Text ''a/'', Capture ''x'' False] = Inr (mqtt_filter_of [Literal ''a'', Single (Some 0)])"
    by (simp add: mqtt_compile_def mqtt_levels_def push_text_def update_last_def raw_default_def level_of_def)
  from mqtt_matches_exact [OF this, of "''a/b''" no_spans] show ?thesis
    by (simp add: mqtt_filter_of_def level_text_def)
qed

theorem mqtt_captures_exact_witness:
  "captured ''a/b'' [Literal ''a'', Single (Some 0)] [''a'', ''b'']
     [(2, 3), (0, 0), (0, 0), (0, 0), (0, 0), (0, 0), (0, 0), (0, 0)]"
proof -
  have "captured ''a/b'' [Literal ''a'', Single (Some 0)] (split_on slash ''a/b'')
     [(2, 3), (0, 0), (0, 0), (0, 0), (0, 0), (0, 0), (0, 0), (0, 0)]"
  proof (rule mqtt_captures_exact)
    show "pattern_ok [Text ''a/'', Capture ''x'' False]"
      by (simp add: pattern_ok_def text_ok_def name_ok_def is_brace_def name_char_def max_captures_def)
    show "mqtt_levels [Text ''a/'', Capture ''x'' False] = Inr [Literal ''a'', Single (Some 0)]"
      by (simp add: mqtt_levels_def push_text_def update_last_def raw_default_def level_of_def)
    show "tf_matches (mqtt_filter_of [Literal ''a'', Single (Some 0)]) ''a/b'' no_spans
        = (True, [(2, 3), (0, 0), (0, 0), (0, 0), (0, 0), (0, 0), (0, 0), (0, 0)])"
      by (simp add: mqtt_filter_of_def next_level_def no_spans_def max_captures_def set_span_def
          span_of_def starts_with_def eval_nat_numeral)
  qed simp
  then show ?thesis by simp
qed

theorem mqtt_covers_complete_witness:
  "mqtt_meaning ''a/#'' ''a/b/c''"
  by (rule mqtt_covers_complete [of _ "''a/+/c''"])
    (simp_all add: mqtt_covers_def mqtt_valid_def mqtt_meaning_def level_ok_def is_wild_def starts_with_def)

end
