(* ===== verification/Key_Table.thy ===== *)
theory Key_Table
  imports Prelude
begin

text \<open>
  \<open>aimdb-core/src/inbound_key.rs\<close>: the small integers that stand for the values of a capture.
  A \<open>KeyId\<close> is the nonzero \<open>u16\<close> inside it; the mutex makes every operation atomic, so the
  operations are functions of the table.
\<close>

subsection \<open>The code\<close>

record key_table =
  kt_capacity :: u16
  by_name :: "string \<rightharpoonup> u16"
  key_names :: "string list"
  kt_dropped :: u32

definition key_index :: "u16 \<Rightarrow> nat" where "key_index key = unat key - 1"

definition kt_new :: "u16 \<Rightarrow> key_table" where
  "kt_new capacity =
     \<lparr>kt_capacity = capacity, by_name = (\<lambda>_. None), key_names = [], kt_dropped = 0\<rparr>"

text \<open>The next id, if it is a \<open>u16\<close> within the capacity.\<close>

definition next_key :: "key_table \<Rightarrow> u16 option" where
  "next_key t =
     (let n = length (key_names t) + 1 in
      if n < 2 ^ 16 \<and> (of_nat n :: u16) \<le> kt_capacity t then Some (of_nat n) else None)"

definition kt_key :: "string \<Rightarrow> key_table \<Rightarrow> u16 option \<times> key_table" where
  "kt_key name t =
     (case by_name t name of
        Some key \<Rightarrow> (Some key, t)
      | None \<Rightarrow>
          (case next_key t of
             None \<Rightarrow>
               (None, t\<lparr>kt_dropped := if kt_dropped t = - 1 then kt_dropped t else kt_dropped t + 1\<rparr>)
           | Some key \<Rightarrow>
               (Some key, t\<lparr>by_name := (by_name t)(name \<mapsto> key), key_names := key_names t @ [name]\<rparr>)))"

definition kt_name :: "u16 \<Rightarrow> key_table \<Rightarrow> string option" where
  "kt_name key t =
     (if key_index key < length (key_names t) then Some (key_names t ! key_index key) else None)"

subsection \<open>Invariant\<close>

text \<open>The two indexes are inverse to each other and within the capacity.\<close>

definition kt_inv :: "key_table \<Rightarrow> bool" where
  "kt_inv t \<longleftrightarrow>
     distinct (key_names t) \<and> length (key_names t) \<le> unat (kt_capacity t)
     \<and> (\<forall>name key. by_name t name = Some key \<longleftrightarrow>
          0 < unat key \<and> unat key \<le> length (key_names t) \<and> key_names t ! key_index key = name)"

lemma kt_inv_new: "kt_inv (kt_new capacity)"
  by (auto simp: kt_inv_def kt_new_def)

lemma next_key_unat:
  assumes "next_key t = Some key"
  shows "unat key = Suc (length (key_names t))" and "unat key \<le> unat (kt_capacity t)"
proof -
  have n: "Suc (length (key_names t)) < 2 ^ 16" "key = of_nat (Suc (length (key_names t)))"
    "key \<le> kt_capacity t"
    using assms by (auto simp: next_key_def Let_def split: if_splits)
  then show "unat key = Suc (length (key_names t))"
    by (simp add: unat_of_nat del: of_nat_Suc)
  show "unat key \<le> unat (kt_capacity t)" using n(3) by (simp add: word_le_nat_alt)
qed

lemma next_key_None: "kt_inv t \<Longrightarrow> next_key t = None \<longleftrightarrow> length (key_names t) = unat (kt_capacity t)"
proof -
  assume inv: "kt_inv t"
  let ?n = "Suc (length (key_names t))"
  have cap: "unat (kt_capacity t) < 2 ^ 16" using unsigned_less [of "kt_capacity t"] by simp
  have "(of_nat ?n :: u16) \<le> kt_capacity t \<longleftrightarrow> ?n \<le> unat (kt_capacity t)" if "?n < 2 ^ 16"
    using that by (simp add: word_le_nat_alt unat_of_nat del: of_nat_Suc)
  then show ?thesis using inv cap by (auto simp: next_key_def Let_def kt_inv_def)
qed

lemma kt_small: "kt_inv t \<Longrightarrow> length (key_names t) < 2 ^ 16"
  using unat_bound [of "kt_capacity t"] by (simp add: kt_inv_def)

lemma by_name_iff:
  "kt_inv t \<Longrightarrow> by_name t name = Some key \<longleftrightarrow>
     0 < unat key \<and> unat key \<le> length (key_names t) \<and> key_names t ! key_index key = name"
  by (simp add: kt_inv_def)

lemma by_name_nth:
  assumes "kt_inv t" and "i < length (key_names t)"
  shows "by_name t (key_names t ! i) = Some (of_nat (Suc i))"
proof -
  have "unat (of_nat (Suc i) :: u16) = Suc i"
    using assms(2) kt_small [OF assms(1)] by (simp add: unat_of_nat del: of_nat_Suc)
  then show ?thesis
    using assms by (simp add: by_name_iff key_index_def del: of_nat_Suc)
qed

lemma by_name_None:
  assumes "kt_inv t"
  shows "by_name t name = None \<longleftrightarrow> name \<notin> set (key_names t)"
proof
  assume "by_name t name = None"
  then show "name \<notin> set (key_names t)"
    using by_name_nth [OF assms] by (auto simp: in_set_conv_nth)
next
  assume "name \<notin> set (key_names t)"
  then show "by_name t name = None"
    using by_name_iff [OF assms] by (cases "by_name t name") (auto simp: key_index_def)
qed

lemma kt_inv_key:
  assumes inv: "kt_inv t"
  shows "kt_inv (snd (kt_key name t))"
proof (cases "by_name t name")
  case (Some key)
  then show ?thesis using inv by (simp add: kt_key_def)
next
  case None
  show ?thesis
  proof (cases "next_key t")
    case None
    then show ?thesis using inv \<open>by_name t name = None\<close> by (simp add: kt_key_def kt_inv_def)
  next
    case (Some key)
    note key = next_key_unat [OF Some]
    have fresh: "name \<notin> set (key_names t)" using None by (simp add: by_name_None [OF inv])
    have old: "by_name t n = Some k \<longleftrightarrow> 0 < unat k \<and> unat k \<le> length (key_names t)
        \<and> key_names t ! key_index k = n" for n k
      using inv by (simp add: kt_inv_def)
    have "(if n = name then Some key else by_name t n) = Some k \<longleftrightarrow>
        0 < unat k \<and> unat k \<le> Suc (length (key_names t)) \<and> (key_names t @ [name]) ! key_index k = n" for n k
    proof (cases "k = key")
      case True
      then show ?thesis using key old [of n k] by (auto simp: key_index_def nth_append)
    next
      case False
      then have "unat k \<noteq> Suc (length (key_names t))" using key(1) by (metis word_unat_eq_iff)
      then show ?thesis using False old [of n k] fresh
        by (auto simp: key_index_def nth_append in_set_conv_nth)
    qed
    then show ?thesis
      using inv None Some key fresh by (simp add: kt_key_def kt_inv_def)
  qed
qed

fun kt_keys :: "string list \<Rightarrow> key_table \<Rightarrow> key_table" where
  "kt_keys [] t = t"
| "kt_keys (n # ns) t = kt_keys ns (snd (kt_key n t))"

lemma kt_inv_keys: "kt_inv t \<Longrightarrow> kt_inv (kt_keys ns t)"
  by (induction ns arbitrary: t) (auto intro: kt_inv_key)

lemma kt_key_grows: "\<exists>more. key_names (snd (kt_key name t)) = key_names t @ more"
  by (auto simp: kt_key_def split: option.splits)

lemma kt_keys_grows: "\<exists>more. key_names (kt_keys ns t) = key_names t @ more"
proof (induction ns arbitrary: t)
  case (Cons n ns)
  then show ?case using kt_key_grows [of n t] by (metis append.assoc kt_keys.simps(2))
qed simp

lemma kt_key_Some:
  assumes "kt_inv t" and "kt_key name t = (Some key, t')"
  shows "by_name t' name = Some key" and "kt_inv t'"
proof -
  show "kt_inv t'" using kt_inv_key [OF assms(1), of name] assms(2) by simp
  show "by_name t' name = Some key"
    using assms(2) by (auto simp: kt_key_def split: option.splits)
qed

subsection \<open>Properties\<close>

text \<open>
  A key stands for its value for good.  Once a value has a key, every later lookup of the
  value, after any further messages, returns the same key, the key reads back as the value,
  and no other value ever gets it.
\<close>

theorem key_stable:
  assumes "kt_key name (kt_keys ns (kt_new capacity)) = (Some key, t)"
  shows "kt_name key (kt_keys ms t) = Some name
     \<and> fst (kt_key name (kt_keys ms t)) = Some key
     \<and> (\<forall>other. fst (kt_key other (kt_keys ms t)) = Some key \<longrightarrow> other = name)"
proof -
  have inv: "kt_inv (kt_keys ns (kt_new capacity))" by (intro kt_inv_keys kt_inv_new)
  note t = kt_key_Some [OF inv assms]
  let ?t = "kt_keys ms t"
  have inv': "kt_inv ?t" using t(2) by (rule kt_inv_keys)
  obtain more where names: "key_names ?t = key_names t @ more" using kt_keys_grows by blast
  have k: "0 < unat key" "unat key \<le> length (key_names t)" "key_names t ! key_index key = name"
    using t by (auto simp: kt_inv_def)
  then have found: "key_names ?t ! key_index key = name" "key_index key < length (key_names ?t)"
    using names by (auto simp: nth_append key_index_def)
  then have "by_name ?t name = Some key"
    using inv' k names by (simp add: kt_inv_def)
  then have first: "fst (kt_key name ?t) = Some key" by (simp add: kt_key_def)
  moreover have "other = name" if "fst (kt_key other ?t) = Some key" for other
  proof (cases "by_name ?t other")
    case None
    then have "next_key ?t = Some key" using that by (auto simp: kt_key_def split: option.splits)
    then have "unat key = Suc (length (key_names ?t))" by (rule next_key_unat)
    then show ?thesis using k names by simp
  next
    case (Some key')
    then have "key' = key" using that by (simp add: kt_key_def)
    then have "by_name ?t other = Some key" using Some by simp
    then have "key_names ?t ! key_index key = other" using by_name_iff [OF inv'] by blast
    then show ?thesis using found(1) by (rule trans [OF sym])
  qed
  moreover have "kt_name key ?t = Some name" using found by (simp add: kt_name_def)
  ultimately show ?thesis by blast
qed

text \<open>
  A message is turned away only by a full table: a lookup fails exactly when the value is
  new and all \<open>capacity\<close> keys are assigned, and then nothing changes but the drop counter, by
  one, up to its maximum.
\<close>

theorem key_refused_iff_full:
  "let t = kt_keys ns (kt_new capacity) in
     (fst (kt_key name t) = None \<longleftrightarrow>
        name \<notin> set (key_names t) \<and> length (key_names t) = unat capacity)
     \<and> length (key_names t) \<le> unat capacity
     \<and> (fst (kt_key name t) = None \<longrightarrow> snd (kt_key name t) = t\<lparr>kt_dropped := sat_add (kt_dropped t) 1\<rparr>)"
proof -
  define t where "t = kt_keys ns (kt_new capacity)"
  have inv: "kt_inv t" unfolding t_def by (intro kt_inv_keys kt_inv_new)
  have cap: "kt_capacity t = capacity"
  proof -
    have "kt_capacity (snd (kt_key n u)) = kt_capacity u" for n u
      by (auto simp: kt_key_def split: option.splits)
    then have "kt_capacity (kt_keys ns u) = kt_capacity u" for u
      by (induction ns arbitrary: u) auto
    then show ?thesis by (simp add: t_def kt_new_def)
  qed
  have len: "length (key_names t) \<le> unat capacity" using inv cap by (simp add: kt_inv_def)
  have "by_name t name = None \<longleftrightarrow> name \<notin> set (key_names t)"
    by (rule by_name_None [OF inv])
  then have "(fst (kt_key name t) = None \<longleftrightarrow>
        name \<notin> set (key_names t) \<and> length (key_names t) = unat capacity)
     \<and> length (key_names t) \<le> unat capacity
     \<and> (fst (kt_key name t) = None \<longrightarrow> snd (kt_key name t) = t\<lparr>kt_dropped := sat_add (kt_dropped t) 1\<rparr>)"
    using next_key_None [OF inv] len cap by (cases "by_name t name") (auto simp: kt_key_def sat_add_1 split: option.splits)
  then show ?thesis by (simp add: t_def Let_def)
qed

theorem key_stable_witness:
  "kt_name 1 (kt_keys [''b''] (snd (kt_key ''a'' (kt_new 2)))) = Some ''a''"
proof -
  have "kt_key ''a'' (kt_keys [] (kt_new 2)) = (Some 1, snd (kt_key ''a'' (kt_new 2)))"
    by (simp add: kt_key_def kt_new_def next_key_def)
  from key_stable [OF this, of "[''b'']"] show ?thesis by (simp del: kt_keys.simps)
qed

theorem key_refused_iff_full_witness:
  "fst (kt_key ''b'' (snd (kt_key ''a'' (kt_new 1)))) = None
     \<and> length (key_names (snd (kt_key ''a'' (kt_new 1)))) \<le> 1"
  using key_refused_iff_full [of "[''a'']" 1 "''b''"]
  by (simp add: Let_def kt_key_def kt_new_def next_key_def)

end
