(* ===== verification/Router.thy ===== *)
theory Router
  imports Mqtt_Grammar Key_Table "HOL-Library.List_Lexorder" "HOL-Library.Char_ord"
begin

text \<open>
  \<open>aimdb-core/src/router.rs\<close> and \<open>inbound_dispatch.rs\<close>: dispatch of an inbound message to the
  ingest callbacks of every matching route, and the filters a connector subscribes.  The
  wildcard rules come from the connector's grammar, an interface (the locale \<open>topic_grammar\<close>).

  The key tables the routes share (\<open>Arc<KeyTable>\<close>) live in a store indexed by number.  The
  ingest callback of a route is a parameter of the route; what \<open>route\<close> does is the list of the
  calls it makes, each with the match it hands over and its outcome.
\<close>

subsection \<open>The code\<close>

type_synonym key_store = "key_table list"

record compiled_route =
  cr_filter :: string
  cr_matcher :: "topic_filter option"
  cr_names :: "string list"
  cr_key :: "(nat \<times> nat) option"
  cr_ingest :: "topic_match \<Rightarrow> bytes \<Rightarrow> bool"

definition route_pattern ::
  "topic_filter \<Rightarrow> string list \<Rightarrow> (nat \<times> nat) option \<Rightarrow> (topic_match \<Rightarrow> bytes \<Rightarrow> bool) \<Rightarrow> compiled_route" where
  "route_pattern f names key ingest =
     \<lparr>cr_filter = tf_filter f, cr_matcher = (if tf_literal f then None else Some f),
      cr_names = names, cr_key = key, cr_ingest = ingest\<rparr>"

definition route_matches :: "compiled_route \<Rightarrow> string \<Rightarrow> spans \<Rightarrow> bool \<times> spans" where
  "route_matches r topic spans =
     (case cr_matcher r of
        None \<Rightarrow> (cr_filter r = topic, spans)
      | Some f \<Rightarrow> if length topic < 2 ^ 16 then tf_matches f topic spans else (False, spans))"

text \<open>\<open>None\<close>: the message is dropped; \<open>Some None\<close>: the link is not keyed.\<close>

definition route_key ::
  "compiled_route \<Rightarrow> string \<Rightarrow> spans \<Rightarrow> key_store \<Rightarrow> u16 option option \<times> key_store" where
  "route_key r topic spans store =
     (case cr_key r of
        None \<Rightarrow> (Some None, store)
      | Some (table, capture) \<Rightarrow>
          (case span_text topic spans capture of
             None \<Rightarrow> (None, store)
           | Some v \<Rightarrow>
               (let (key, t') = kt_key v (store ! table) in
                (map_option Some key, store[table := t']))))"

record ingest_call =
  ic_route :: nat
  ic_match :: topic_match
  ic_ok :: bool

fun route_from ::
  "nat \<Rightarrow> compiled_route list \<Rightarrow> string \<Rightarrow> bytes \<Rightarrow> key_store \<Rightarrow> ingest_call list \<times> key_store" where
  "route_from i [] topic payload store = ([], store)"
| "route_from i (r # rs) topic payload store =
     (let (hit, spans) = route_matches r topic no_spans in
      if \<not> hit then route_from (Suc i) rs topic payload store
      else
        (case route_key r topic spans store of
           (None, store') \<Rightarrow> route_from (Suc i) rs topic payload store'
         | (Some key, store') \<Rightarrow>
             (let m = \<lparr>tm_topic = topic, tm_names = cr_names r, tm_spans = spans,
                       tm_key = map_option unat key\<rparr>;
                  (calls, store'') = route_from (Suc i) rs topic payload store'
              in (\<lparr>ic_route = i, ic_match = m, ic_ok = cr_ingest r m payload\<rparr> # calls, store''))))"

definition route :: "compiled_route list \<Rightarrow> string \<Rightarrow> bytes \<Rightarrow> key_store \<Rightarrow> ingest_call list \<times> key_store" where
  "route rs topic payload store = route_from 0 rs topic payload store"

definition dispatch :: "compiled_route list \<Rightarrow> string \<Rightarrow> bytes \<Rightarrow> key_store \<Rightarrow> ingest_call list \<times> key_store" where
  "dispatch rs topic payload store = route rs topic payload store"

definition resource_ids :: "compiled_route list \<Rightarrow> string list" where
  "resource_ids rs = remdups_adj (sort (map cr_filter rs))"

definition redundant :: "(string \<Rightarrow> string \<Rightarrow> bool) \<Rightarrow> string list \<Rightarrow> nat \<Rightarrow> bool" where
  "redundant covers ids i \<longleftrightarrow>
     list_ex (\<lambda>j. j \<noteq> i \<and> covers (ids ! j) (ids ! i) \<and> (j < i \<or> \<not> covers (ids ! i) (ids ! j)))
       [0..<length ids]"

definition subscriptions :: "(string \<Rightarrow> string \<Rightarrow> bool) \<Rightarrow> compiled_route list \<Rightarrow> string list" where
  "subscriptions covers rs =
     (let ids = resource_ids rs in
      map (\<lambda>i. ids ! i) (filter (\<lambda>i. \<not> redundant covers ids i) [0..<length ids]))"

subsection \<open>Identifiers\<close>

lemma set_resource_ids [simp]: "set (resource_ids rs) = cr_filter ` set rs"
  by (simp add: resource_ids_def)

lemma distinct_remdups_adj_sorted: "sorted xs \<Longrightarrow> distinct (remdups_adj xs)"
  for xs :: "'a::linorder list"
  by (induction xs rule: remdups_adj.induct) (auto dest: order.antisym)

lemma distinct_resource_ids: "distinct (resource_ids rs)"
  unfolding resource_ids_def by (rule distinct_remdups_adj_sorted) simp

subsection \<open>Routes of any grammar\<close>

context topic_grammar begin

definition compiled :: "compiled_route \<Rightarrow> bool" where
  "compiled r \<longleftrightarrow> (\<exists>topic ps f names key ingest.
     compile topic ps = Some f \<and> r = route_pattern f names key ingest)"

lemma compiledE:
  assumes "compiled r"
  obtains topic ps f where "compile topic ps = Some f" and "cr_filter r = tf_filter f"
    and "cr_matcher r = (if tf_literal f then None else Some f)"
  using assms by (auto simp: compiled_def route_pattern_def)

lemma compiled_matches:
  assumes "compiled r" and "length t < 2 ^ 16"
  shows "fst (route_matches r t spans) \<longleftrightarrow> meaning (cr_filter r) t"
proof -
  obtain topic ps f where f: "compile topic ps = Some f" "cr_filter r = tf_filter f"
    "cr_matcher r = (if tf_literal f then None else Some f)" using compiledE [OF assms(1)] .
  show ?thesis
    using f assms(2) compile_meaning [OF f(1)] compile_literal [OF f(1)]
    by (cases "tf_literal f") (simp_all add: route_matches_def)
qed

lemma compiled_hit:
  assumes "compiled r" and "fst (route_matches r t spans)"
  shows "meaning (cr_filter r) t"
proof -
  obtain topic ps f where f: "compile topic ps = Some f" "cr_filter r = tf_filter f"
    "cr_matcher r = (if tf_literal f then None else Some f)" using compiledE [OF assms(1)] .
  show ?thesis
    using f assms(2) compile_meaning [OF f(1)] compile_literal [OF f(1)]
    by (cases "tf_literal f") (auto simp: route_matches_def split: if_splits)
qed

lemma compiled_valid: "compiled r \<Longrightarrow> valid (cr_filter r)"
  using compile_valid by (elim compiledE) simp

text \<open>Every filter is covered by one that is subscribed: follow the covering filters up.\<close>

lemma subscribed_above:
  assumes "\<forall>a \<in> set ids. valid a" and "distinct ids" and "i < length ids"
  shows "\<exists>j < length ids. \<not> redundant covers ids j \<and> (j = i \<or> covers (ids ! j) (ids ! i))"
proof -
  define R where "R = {(j, i). i < length ids \<and> j < length ids \<and> j \<noteq> i \<and> covers (ids ! j) (ids ! i)
    \<and> (j < i \<or> \<not> covers (ids ! i) (ids ! j))}"
  have v: "valid (ids ! k)" if "k < length ids" for k using assms(1) that by simp
  have "trans R"
  proof (rule transI)
    fix k j i assume kj: "(k, j) \<in> R" and ji: "(j, i) \<in> R"
    then have bound: "k < length ids" "j < length ids" "i < length ids"
      and c: "covers (ids ! k) (ids ! j)" "covers (ids ! j) (ids ! i)"
      and strict: "k < j \<or> \<not> covers (ids ! j) (ids ! k)" "j < i \<or> \<not> covers (ids ! i) (ids ! j)"
      by (auto simp: R_def)
    have ki: "covers (ids ! k) (ids ! i)"
      using covers_trans [OF v v v c] bound by blast
    have "k < i \<or> \<not> covers (ids ! i) (ids ! k)"
    proof (rule ccontr)
      assume "\<not> (k < i \<or> \<not> covers (ids ! i) (ids ! k))"
      then have le: "i \<le> k" and ik: "covers (ids ! i) (ids ! k)" by auto
      have "covers (ids ! i) (ids ! j)" using covers_trans [OF v v v ik c(1)] bound by blast
      moreover have "covers (ids ! j) (ids ! k)" using covers_trans [OF v v v c(2) ik] bound by blast
      ultimately have "k < j" "j < i" using strict by auto
      then show False using le by simp
    qed
    moreover have "k \<noteq> i"
    proof
      assume "k = i"
      then have "k < j" "j < k" using strict c by auto
      then show False by simp
    qed
    ultimately show "(k, i) \<in> R" using ki bound by (simp add: R_def)
  qed
  moreover have "irrefl R" by (auto simp: R_def irrefl_def)
  moreover have "R \<subseteq> {..<length ids} \<times> {..<length ids}" by (auto simp: R_def)
  then have "finite R" by (rule finite_subset) simp
  ultimately have "wf R"
    by (simp add: finite_acyclic_wf acyclic_irrefl)
  then have "i < length ids \<longrightarrow> (\<exists>j < length ids. \<not> redundant covers ids j \<and> (j = i \<or> covers (ids ! j) (ids ! i)))" for i
  proof (induction i rule: wf_induct_rule)
    case (less i)
    show ?case
    proof (cases "i < length ids \<and> redundant covers ids i")
      case True
      then have "\<exists>k \<in> set [0..<length ids]. k \<noteq> i \<and> covers (ids ! k) (ids ! i)
          \<and> (k < i \<or> \<not> covers (ids ! i) (ids ! k))"
        by (simp only: redundant_def list_ex_iff)
      then obtain k where "k \<in> set [0..<length ids]" "k \<noteq> i" "covers (ids ! k) (ids ! i)"
        "k < i \<or> \<not> covers (ids ! i) (ids ! k)" by blast
      then have ki: "(k, i) \<in> R" using True unfolding R_def by simp
      then have k: "k < length ids" "covers (ids ! k) (ids ! i)" by (auto simp: R_def)
      obtain j where j: "j < length ids" "\<not> redundant covers ids j" "j = k \<or> covers (ids ! j) (ids ! k)"
        using less [OF ki] k(1) by blast
      then have "covers (ids ! j) (ids ! i)"
        using k covers_trans [OF v v v _ k(2)] True by blast
      then show ?thesis using j by blast
    qed blast
  qed
  then show ?thesis using assms(3) by blast
qed

lemma subscription_above:
  assumes "\<forall>r \<in> set rs. compiled r" and "r \<in> set rs"
  shows "\<exists>s \<in> set (subscriptions covers rs). valid s \<and> (s = cr_filter r \<or> covers s (cr_filter r))"
proof -
  let ?ids = "resource_ids rs"
  have valid: "\<forall>a \<in> set ?ids. valid a" using assms(1) compiled_valid by auto
  obtain i where i: "i < length ?ids" "?ids ! i = cr_filter r"
    using assms(2) by (metis image_eqI in_set_conv_nth set_resource_ids)
  obtain j where j: "j < length ?ids" "\<not> redundant covers ?ids j" "j = i \<or> covers (?ids ! j) (?ids ! i)"
    using subscribed_above [OF valid distinct_resource_ids i(1)] by blast
  have "?ids ! j \<in> set (subscriptions covers rs)" using j by (auto simp: subscriptions_def Let_def)
  moreover have "valid (?ids ! j)" using valid j(1) nth_mem by blast
  ultimately show ?thesis using j(3) i(2) by auto
qed

lemma subscriptions_cover:
  assumes "\<forall>r \<in> set rs. compiled r" and "r \<in> set rs" and "meaning (cr_filter r) t"
  shows "\<exists>s \<in> set (subscriptions covers rs). meaning s t"
proof -
  obtain s where s: "s \<in> set (subscriptions covers rs)" "valid s" "s = cr_filter r \<or> covers s (cr_filter r)"
    using subscription_above [OF assms(1,2)] by blast
  have "valid (cr_filter r)" using assms(1,2) compiled_valid by blast
  then have "meaning s t" using s(2,3) assms(3) covers_meaning [of s "cr_filter r" t] by auto
  then show ?thesis using s(1) by blast
qed

lemma matched_subscribed:
  assumes "\<forall>r \<in> set rs. compiled r" and "r \<in> set rs" and "fst (route_matches r t no_spans)"
  shows "\<exists>s \<in> set (subscriptions covers rs). meaning s t"
proof -
  have "meaning (cr_filter r) t"
    using assms compiled_hit by blast
  then show ?thesis by (rule subscriptions_cover [OF assms(1,2)])
qed

end

subsection \<open>Routing\<close>

text \<open>A route hit by a message, with the spans of the hit.\<close>

definition hits :: "compiled_route \<Rightarrow> string \<Rightarrow> bool" where
  "hits r topic \<longleftrightarrow> fst (route_matches r topic no_spans)"

lemma route_from_miss:
  "\<not> hits r topic \<Longrightarrow> route_from i (r # rs) topic payload store = route_from (Suc i) rs topic payload store"
  by (cases "route_matches r topic no_spans") (simp add: hits_def)

lemma route_from_drop:
  "hits r topic \<Longrightarrow> route_key r topic (snd (route_matches r topic no_spans)) store = (None, store')
     \<Longrightarrow> route_from i (r # rs) topic payload store = route_from (Suc i) rs topic payload store'"
  by (cases "route_matches r topic no_spans") (simp add: hits_def)

definition match_of :: "compiled_route \<Rightarrow> string \<Rightarrow> u16 option \<Rightarrow> topic_match" where
  "match_of r topic key =
     \<lparr>tm_topic = topic, tm_names = cr_names r, tm_spans = snd (route_matches r topic no_spans),
      tm_key = map_option unat key\<rparr>"

lemma route_from_call:
  "hits r topic \<Longrightarrow> route_key r topic (snd (route_matches r topic no_spans)) store = (Some key, store')
     \<Longrightarrow> route_from i (r # rs) topic payload store =
       (\<lparr>ic_route = i, ic_match = match_of r topic key, ic_ok = cr_ingest r (match_of r topic key) payload\<rparr>
          # fst (route_from (Suc i) rs topic payload store'),
        snd (route_from (Suc i) rs topic payload store'))"
  by (cases "route_matches r topic no_spans") (simp add: hits_def match_of_def Let_def case_prod_beta)

lemma route_from_unkeyed:
  assumes "\<forall>r \<in> set rs. cr_key r = None"
  shows "map ic_route (fst (route_from i rs topic payload store))
       = filter (\<lambda>k. hits (rs ! (k - i)) topic) [i..<i + length rs]
     \<and> snd (route_from i rs topic payload store) = store"
  using assms
proof (induction rs arbitrary: i)
  case (Cons r rs)
  have idx: "[i..<i + length (r # rs)] = i # [Suc i..<Suc i + length rs]"
    by (simp add: upt_conv_Cons del: upt_Suc)
  have tail: "filter (\<lambda>k. hits ((r # rs) ! (k - i)) topic) [Suc i..<Suc i + length rs]
      = filter (\<lambda>k. hits (rs ! (k - Suc i)) topic) [Suc i..<Suc i + length rs]"
    by (rule filter_cong) (auto simp: nth_Cons')
  note IH = Cons.IH [of "Suc i"] and unkeyed = Cons.prems
  have key: "route_key r topic sp store = (Some None, store)" for sp
    using unkeyed by (simp add: route_key_def)
  show ?case unfolding idx
    using IH unkeyed tail route_from_miss [of r topic i rs payload store]
      route_from_call [of r topic store None store i rs payload] key
    by (cases "hits r topic") (simp_all del: route_from.simps upt_Suc)
qed simp

lemma route_from_calls:
  "c \<in> set (fst (route_from i rs topic payload store)) \<Longrightarrow>
     \<exists>k key. k < length rs \<and> ic_route c = i + k \<and> hits (rs ! k) topic
       \<and> ic_match c = match_of (rs ! k) topic key"
proof (induction rs arbitrary: i store)
  case (Cons r rs)
  have later: "\<exists>k key. k < length (r # rs) \<and> ic_route c = i + k \<and> hits ((r # rs) ! k) topic
      \<and> ic_match c = match_of ((r # rs) ! k) topic key"
    if later: "c \<in> set (fst (route_from (Suc i) rs topic payload store'))" for store'
  proof -
    obtain k key where "k < length rs" "ic_route c = Suc i + k" "hits (rs ! k) topic"
      "ic_match c = match_of (rs ! k) topic key"
      using Cons.IH [OF later] by blast
    then show ?thesis by (intro exI [of _ "Suc k"] exI [of _ key]) simp
  qed
  show ?case
  proof (cases "hits r topic")
    case False
    then show ?thesis using later Cons.prems route_from_miss [of r topic i rs payload store] by simp
  next
    case True
    obtain key store' where rk:
      "route_key r topic (snd (route_matches r topic no_spans)) store = (key, store')" by fastforce
    show ?thesis
    proof (cases key)
      case None
      then show ?thesis
        using later Cons.prems route_from_drop [OF True, of store store' i rs payload] rk by simp
    next
      case (Some k)
      then consider "c \<in> set (fst (route_from (Suc i) rs topic payload store'))"
        | "ic_route c = i" "ic_match c = match_of r topic k"
        using Cons.prems route_from_call [OF True, of store k store' i rs payload] rk
        by (auto simp del: route_from.simps)
      then show ?thesis
      proof cases
        case 2
        then show ?thesis using True by (intro exI [of _ 0] exI [of _ k]) simp
      qed (rule later)
    qed
  qed
qed simp

subsection \<open>Properties\<close>

text \<open>A route a connector with the MQTT grammar registers.\<close>

definition mqtt_route :: "compiled_route \<Rightarrow> bool" where
  "mqtt_route r \<longleftrightarrow>
     (\<exists>ps f names key ingest. mqtt_compile ps = Inr f \<and> r = route_pattern f names key ingest)"

lemma mqtt_route_compiled: "mqtt_route r \<Longrightarrow> mqtt.compiled r"
  unfolding mqtt_route_def mqtt.compiled_def mqtt_compile_opt_def by (metis sum.case(2))

text \<open>
  Exact delivery: a message calls the ingest callback of every route whose filter selects
  its topic, each once, in registration order, and of no other route.
\<close>

theorem route_delivers:
  assumes "\<forall>r \<in> set rs. mqtt_route r \<and> cr_key r = None" and "length topic < 2 ^ 16"
  shows "map ic_route (fst (dispatch rs topic payload store))
     = filter (\<lambda>k. mqtt_meaning (cr_filter (rs ! k)) topic) [0..<length rs]"
proof -
  have "hits (rs ! k) topic \<longleftrightarrow> mqtt_meaning (cr_filter (rs ! k)) topic" if "k < length rs" for k
    using mqtt.compiled_matches [OF mqtt_route_compiled assms(2)] assms(1) that by (simp add: hits_def)
  then have "filter (\<lambda>k. hits (rs ! (k - 0)) topic) [0..<0 + length rs]
      = filter (\<lambda>k. mqtt_meaning (cr_filter (rs ! k)) topic) [0..<length rs]"
    by (intro filter_cong) auto
  then show ?thesis
    using route_from_unkeyed [of rs 0 topic payload store] assms(1)
    by (simp add: dispatch_def route_def del: route_from.simps)
qed

text \<open>
  C17. The pruned subscriptions lose nothing: whenever a message would hit some route, one of
  the subscribed filters selects its topic, so the broker delivers it.
\<close>

theorem subscriptions_lossless:
  assumes "\<forall>r \<in> set rs. mqtt_route r" and "r \<in> set rs" and "fst (route_matches r topic no_spans)"
  shows "\<exists>s \<in> set (subscriptions mqtt_covers rs). mqtt_meaning s topic"
  by (rule mqtt.matched_subscribed [OF _ assms(2,3)]) (use assms(1) mqtt_route_compiled in blast)

definition demo_route :: compiled_route where
  "demo_route = route_pattern (mqtt_filter_of [Literal ''a'', Single (Some 0)]) [''x''] None (\<lambda>_ _. True)"

lemma demo_route: "mqtt_route demo_route"
proof -
  have "mqtt_compile [Text ''a/'', Capture ''x'' False] = Inr (mqtt_filter_of [Literal ''a'', Single (Some 0)])"
    by (simp add: mqtt_compile_def mqtt_levels_def push_text_def update_last_def raw_default_def level_of_def)
  then show ?thesis unfolding mqtt_route_def demo_route_def by blast
qed

theorem route_delivers_witness:
  "map ic_route (fst (dispatch [demo_route] ''a/b'' [1] [])) = [0]"
proof -
  have "map ic_route (fst (dispatch [demo_route] ''a/b'' [1] []))
      = filter (\<lambda>k. mqtt_meaning (cr_filter ([demo_route] ! k)) ''a/b'') [0..<length [demo_route]]"
    by (rule route_delivers) (simp_all add: demo_route, simp add: demo_route_def route_pattern_def)
  then show ?thesis
    by (simp add: demo_route_def route_pattern_def mqtt_filter_of_def level_text_def mqtt_meaning_def
        is_wild_def del: route_from.simps)
qed

theorem subscriptions_lossless_witness:
  "\<exists>s \<in> set (subscriptions mqtt_covers [demo_route]). mqtt_meaning s ''a/b''"
proof (rule subscriptions_lossless [of _ demo_route])
  show "fst (route_matches demo_route ''a/b'' no_spans)"
    by (simp add: demo_route_def route_pattern_def route_matches_def mqtt_filter_of_def next_level_def
        starts_with_def)
qed (simp_all add: demo_route)

end
