(* ===== verification/Wasm_Buffer.thy ===== *)
theory Wasm_Buffer
  imports Prelude
begin

text \<open>
  \<open>aimdb-wasm-adapter/src/buffer.rs\<close>: the three record buffers of the single-threaded runtime (a
  ring with per-reader cursors, a latest-value slot, a mailbox).  \<open>Rc<RefCell>\<close> in one thread makes
  every operation a function of the buffer and the reader.  A waker is the number of the task it
  wakes.  The counters of the optional \<open>observability\<close> feature are left out.
\<close>

subsection \<open>The code\<close>

datatype buffer_cfg = CfgSpmcRing nat | CfgSingleLatest | CfgMailbox

datatype 'a wasm_inner =
    SpmcRing "'a list" nat u64 "nat list"
  | SingleLatest "'a option" u64 "nat list"
  | Mailbox "'a option" "nat list"

datatype reader_state = RingReader u64 | LatestReader u64 | MailboxReader

text \<open>The outcomes of \<open>try_recv\<close>; \<open>Mismatch\<close> is its \<open>unreachable!\<close>.\<close>

datatype 'a received = Got 'a | BufferEmpty | BufferLagged u64 | Mismatch

definition wasm_new :: "buffer_cfg \<Rightarrow> 'a wasm_inner" where
  "wasm_new cfg =
     (case cfg of
        CfgSpmcRing capacity \<Rightarrow> SpmcRing [] capacity 0 []
      | CfgSingleLatest \<Rightarrow> SingleLatest None 0 []
      | CfgMailbox \<Rightarrow> Mailbox None [])"

text \<open>\<open>push\<close>: the new state and the tasks \<open>wake_all\<close> wakes.\<close>

fun wasm_push :: "'a \<Rightarrow> 'a wasm_inner \<Rightarrow> 'a wasm_inner \<times> nat list" where
  "wasm_push v (SpmcRing ring capacity write_seq wakers) =
     (SpmcRing ((if capacity \<le> length ring then tl ring else ring) @ [v]) capacity (write_seq + 1) [], wakers)"
| "wasm_push v (SingleLatest slot version wakers) = (SingleLatest (Some v) (version + 1) [], wakers)"
| "wasm_push v (Mailbox slot wakers) = (Mailbox (Some v) [], wakers)"

fun wasm_subscribe :: "'a wasm_inner \<Rightarrow> reader_state" where
  "wasm_subscribe (SpmcRing ring capacity write_seq wakers) = RingReader write_seq"
| "wasm_subscribe (SingleLatest slot version wakers) = LatestReader 0"
| "wasm_subscribe (Mailbox slot wakers) = MailboxReader"

fun wasm_peek :: "'a wasm_inner \<Rightarrow> 'a option" where
  "wasm_peek (SingleLatest slot version wakers) = slot"
| "wasm_peek (Mailbox slot wakers) = slot"
| "wasm_peek (SpmcRing ring capacity write_seq wakers) = None"

fun wasm_try_recv ::
  "'a wasm_inner \<Rightarrow> reader_state \<Rightarrow> 'a received \<times> 'a wasm_inner \<times> reader_state" where
  "wasm_try_recv (SpmcRing ring capacity write_seq wakers) (RingReader read_seq) =
     (let inner = SpmcRing ring capacity write_seq wakers in
      if write_seq \<le> read_seq then (BufferEmpty, inner, RingReader read_seq)
      else
        (let oldest_seq = sat_sub write_seq (of_nat (length ring)) in
         if read_seq < oldest_seq
         then (BufferLagged (oldest_seq - read_seq), inner, RingReader oldest_seq)
         else (Got (ring ! unat (read_seq - oldest_seq)), inner, RingReader (read_seq + 1))))"
| "wasm_try_recv (SingleLatest slot version wakers) (LatestReader last_seen) =
     (if version = last_seen then (BufferEmpty, SingleLatest slot version wakers, LatestReader last_seen)
      else
        (case slot of
           Some v \<Rightarrow> (Got v, SingleLatest slot version wakers, LatestReader version)
         | None \<Rightarrow> (BufferEmpty, SingleLatest slot version wakers, LatestReader last_seen)))"
| "wasm_try_recv (Mailbox slot wakers) MailboxReader =
     (case slot of
        Some v \<Rightarrow> (Got v, Mailbox None wakers, MailboxReader)
      | None \<Rightarrow> (BufferEmpty, Mailbox None wakers, MailboxReader))"
| "wasm_try_recv inner rd = (Mismatch, inner, rd)"

definition add_waker :: "nat \<Rightarrow> nat list \<Rightarrow> nat list" where
  "add_waker w ws = (if w \<in> set ws then ws else ws @ [w])"

fun register_waker :: "nat \<Rightarrow> 'a wasm_inner \<Rightarrow> 'a wasm_inner" where
  "register_waker w (SpmcRing ring capacity write_seq wakers) = SpmcRing ring capacity write_seq (add_waker w wakers)"
| "register_waker w (SingleLatest slot version wakers) = SingleLatest slot version (add_waker w wakers)"
| "register_waker w (Mailbox slot wakers) = Mailbox slot (add_waker w wakers)"

text \<open>\<open>poll_recv\<close>: \<open>None\<close> is \<open>Poll::Pending\<close>.\<close>

definition wasm_poll_recv ::
  "nat \<Rightarrow> 'a wasm_inner \<Rightarrow> reader_state \<Rightarrow> 'a received option \<times> 'a wasm_inner \<times> reader_state" where
  "wasm_poll_recv w inner rd =
     (case wasm_try_recv inner rd of
        (BufferEmpty, inner', rd') \<Rightarrow> (None, register_waker w inner', rd')
      | (r, inner', rd') \<Rightarrow> (Some r, inner', rd'))"

subsection \<open>Cancellation\<close>

record cancel_inner =
  cancelled :: bool
  cancel_waker :: "nat option"

definition cancel_new :: cancel_inner where
  "cancel_new = \<lparr>cancelled = False, cancel_waker = None\<rparr>"

definition cancel_register :: "nat \<Rightarrow> cancel_inner \<Rightarrow> cancel_inner" where
  "cancel_register w c = c\<lparr>cancel_waker := Some w\<rparr>"

definition cancel :: "cancel_inner \<Rightarrow> cancel_inner \<times> nat option" where
  "cancel c = (\<lparr>cancelled = True, cancel_waker = None\<rparr>, cancel_waker c)"

subsection \<open>A buffer and its readers\<close>

text \<open>
  Any interleaving of pushes, subscriptions and reads.  \<open>sys_log\<close> (everything pushed),
  \<open>sys_start\<close> (the length of the log at each subscription) and \<open>sys_trace\<close> (reader, length of
  the log, outcome) record the history; the code does not look at them.
\<close>

datatype 'a buf_op = Push 'a | Subscribe | Recv nat | Poll nat nat

record 'a buf_sys =
  sys_buf :: "'a wasm_inner"
  sys_readers :: "reader_state list"
  sys_log :: "'a list"
  sys_start :: "nat list"
  sys_trace :: "(nat \<times> nat \<times> 'a received) list"

definition sys_init :: "buffer_cfg \<Rightarrow> 'a buf_sys" where
  "sys_init cfg =
     \<lparr>sys_buf = wasm_new cfg, sys_readers = [], sys_log = [], sys_start = [], sys_trace = []\<rparr>"

definition sys_read :: "nat \<Rightarrow> 'a received \<times> 'a wasm_inner \<times> reader_state \<Rightarrow> 'a buf_sys \<Rightarrow> 'a buf_sys" where
  "sys_read i out s =
     (case out of (r, buf, rd) \<Rightarrow>
        s\<lparr>sys_buf := buf, sys_readers := (sys_readers s)[i := rd],
          sys_trace := sys_trace s @ [(i, length (sys_log s), r)]\<rparr>)"

fun sys_step :: "'a buf_op \<Rightarrow> 'a buf_sys \<Rightarrow> 'a buf_sys" where
  "sys_step (Push v) s =
     s\<lparr>sys_buf := fst (wasm_push v (sys_buf s)), sys_log := sys_log s @ [v]\<rparr>"
| "sys_step Subscribe s =
     s\<lparr>sys_readers := sys_readers s @ [wasm_subscribe (sys_buf s)],
       sys_start := sys_start s @ [length (sys_log s)]\<rparr>"
| "sys_step (Recv i) s =
     (if i < length (sys_readers s)
      then sys_read i (wasm_try_recv (sys_buf s) (sys_readers s ! i)) s else s)"
| "sys_step (Poll i w) s =
     (if i < length (sys_readers s)
      then (case wasm_poll_recv w (sys_buf s) (sys_readers s ! i) of
              (r, buf, rd) \<Rightarrow>
                sys_read i (case r of None \<Rightarrow> BufferEmpty | Some x \<Rightarrow> x, buf, rd) s)
      else s)"

definition sys_run :: "'a buf_op list \<Rightarrow> 'a buf_sys \<Rightarrow> 'a buf_sys" where
  "sys_run ops s = fold sys_step ops s"

definition reader_trace :: "nat \<Rightarrow> 'a buf_sys \<Rightarrow> (nat \<times> 'a received) list" where
  "reader_trace i s = map snd (filter (\<lambda>e. fst e = i) (sys_trace s))"

subsection \<open>What a ring reader should see\<close>

text \<open>
  The specification of a reader at position \<open>p\<close> of the log, with the last \<open>m\<close> values retained:
  the value at \<open>p\<close> if it is retained, a lag that says exactly how many values are gone
  otherwise, and empty only at the end of the log.
\<close>

fun ring_ok :: "nat \<Rightarrow> 'a list \<Rightarrow> nat \<Rightarrow> (nat \<times> 'a received) list \<Rightarrow> nat option" where
  "ring_ok m log p [] = Some p"
| "ring_ok m log p ((n, r) # es) =
     (case r of
        Got v \<Rightarrow> if p < n \<and> n \<le> p + m \<and> v = log ! p then ring_ok m log (Suc p) es else None
      | BufferLagged k \<Rightarrow>
          if p + m < n \<and> p + unat k + m = n then ring_ok m log (p + unat k) es else None
      | BufferEmpty \<Rightarrow> if p = n then ring_ok m log p es else None
      | Mismatch \<Rightarrow> None)"

fun latest_ok :: "'a list \<Rightarrow> nat \<Rightarrow> (nat \<times> 'a received) list \<Rightarrow> nat option" where
  "latest_ok log p [] = Some p"
| "latest_ok log p ((n, r) # es) =
     (case r of
        Got v \<Rightarrow> if p < n \<and> v = log ! (n - 1) then latest_ok log n es else None
      | BufferEmpty \<Rightarrow> if p = n then latest_ok log p es else None
      | _ \<Rightarrow> None)"

lemma ring_ok_append:
  "ring_ok m log p (xs @ ys) = Option.bind (ring_ok m log p xs) (\<lambda>q. ring_ok m log q ys)"
  by (induction m log p xs rule: ring_ok.induct) (auto split: received.splits)

lemma latest_ok_append:
  "latest_ok log p (xs @ ys) = Option.bind (latest_ok log p xs) (\<lambda>q. latest_ok log q ys)"
  by (induction log p xs rule: latest_ok.induct) (auto split: received.splits)

lemma ring_ok_log:
  "ring_ok m log p es = Some q \<Longrightarrow> \<forall>e \<in> set es. fst e \<le> length log \<Longrightarrow>
     ring_ok m (log @ [v]) p es = Some q"
  by (induction m log p es rule: ring_ok.induct)
    (auto simp: nth_append split: received.splits if_splits)

lemma latest_ok_log:
  "latest_ok log p es = Some q \<Longrightarrow> \<forall>e \<in> set es. fst e \<le> length log \<Longrightarrow>
     latest_ok (log @ [v]) p es = Some q"
  by (induction log p es rule: latest_ok.induct)
    (auto simp: nth_append split: received.splits if_splits)

subsection \<open>One read\<close>

text \<open>The last \<open>m\<close> values of the log; a ring of capacity 0 still keeps one.\<close>

definition retained :: "nat \<Rightarrow> 'a list \<Rightarrow> 'a list" where
  "retained m log = drop (length log - m) log"

lemma push_retained:
  assumes "0 < m"
  shows "(if m \<le> length (retained m log) then tl (retained m log) else retained m log) @ [v]
     = retained m (log @ [v])"
proof (cases "m \<le> length log")
  case True
  then show ?thesis using assms
    by (simp add: retained_def tl_drop Suc_diff_le flip: drop_Suc)
next
  case False
  then show ?thesis by (simp add: retained_def)
qed

lemma ring_try_recv:
  assumes "wasm_try_recv (SpmcRing (retained m log) cap W wk) (RingReader p) = (r, inner', rd')"
    and "unat W = length log" and "length log < 2 ^ 64" and "unat p \<le> length log" and "0 < m"
  shows "inner' = SpmcRing (retained m log) cap W wk
     \<and> (\<exists>q. rd' = RingReader q \<and> unat q \<le> length log
          \<and> ring_ok m log (unat p) [(length log, r)] = Some (unat q))"
proof (cases "W \<le> p")
  case True
  then have "unat p = length log" using assms(2,4) by (simp add: word_le_nat_alt)
  then show ?thesis using assms(1) True by auto
next
  case False
  let ?oldest = "sat_sub W (of_nat (length (retained m log)))"
  have lt: "unat p < length log" using False assms(2) by (simp add: word_le_nat_alt)
  have len: "length (retained m log) = min m (length log)" by (simp add: retained_def)
  have oldest: "unat ?oldest = length log - m"
    using assms(2,3) by (simp add: unat_sat_sub unat_of_nat len min_def)
  show ?thesis
  proof (cases "p < ?oldest")
    case True
    then have "unat (?oldest - p) = length log - m - unat p" "unat p < length log - m"
      using oldest by (simp_all add: unat_sub word_less_nat_alt order.strict_implies_order)
    then show ?thesis using assms(1) False True oldest
      by (auto simp: Let_def)
  next
    case within: False
    then have "unat (p - ?oldest) = unat p - (length log - m)" "length log - m \<le> unat p"
      using oldest by (simp_all add: unat_sub word_le_nat_alt not_less)
    then have "retained m log ! unat (p - ?oldest) = log ! unat p"
      using lt by (simp add: retained_def)
    moreover have "unat (p + 1) = Suc (unat p)"
      using lt assms(3) by (simp add: unat_word_ariths)
    ultimately show ?thesis using assms(1) False within lt \<open>length log - m \<le> unat p\<close>
      by (auto simp: Let_def)
  qed
qed

lemma latest_try_recv:
  assumes "wasm_try_recv (SingleLatest (if log = [] then None else Some (last log)) W wk) (LatestReader p)
       = (r, inner', rd')"
    and "unat W = length log" and "unat p \<le> length log"
  shows "inner' = SingleLatest (if log = [] then None else Some (last log)) W wk
     \<and> (\<exists>q. rd' = LatestReader q \<and> unat q \<le> length log
          \<and> latest_ok log (unat p) [(length log, r)] = Some (unat q))"
proof (cases "W = p")
  case True
  then show ?thesis using assms by auto
next
  case False
  then have "unat p < length log" using assms(2,3) by (metis order_le_less word_unat_eq_iff)
  then have "log \<noteq> []" by auto
  then show ?thesis using assms False \<open>unat p < length log\<close> by (auto simp: last_conv_nth)
qed

subsection \<open>The invariants\<close>

definition history_ok :: "'a buf_sys \<Rightarrow> bool" where
  "history_ok s \<longleftrightarrow> length (sys_start s) = length (sys_readers s)
     \<and> (\<forall>(i, n, r) \<in> set (sys_trace s). i < length (sys_readers s) \<and> n \<le> length (sys_log s))"

definition ring_inv :: "nat \<Rightarrow> 'a buf_sys \<Rightarrow> bool" where
  "ring_inv cap s \<longleftrightarrow> history_ok s
     \<and> (\<exists>W wk. sys_buf s = SpmcRing (retained (max 1 cap) (sys_log s)) cap W wk \<and> unat W = length (sys_log s))
     \<and> (\<forall>i < length (sys_readers s). \<exists>p. sys_readers s ! i = RingReader p \<and> unat p \<le> length (sys_log s)
          \<and> ring_ok (max 1 cap) (sys_log s) (sys_start s ! i) (reader_trace i s) = Some (unat p))"

definition latest_inv :: "'a buf_sys \<Rightarrow> bool" where
  "latest_inv s \<longleftrightarrow> history_ok s
     \<and> (\<exists>W wk. sys_buf s = SingleLatest (if sys_log s = [] then None else Some (last (sys_log s))) W wk
          \<and> unat W = length (sys_log s))
     \<and> (\<forall>i < length (sys_readers s). \<exists>p. sys_readers s ! i = LatestReader p \<and> unat p \<le> length (sys_log s)
          \<and> latest_ok (sys_log s) 0 (reader_trace i s) = Some (unat p))"

lemma reader_trace_le:
  "history_ok s \<Longrightarrow> \<forall>e \<in> set (reader_trace i s). fst e \<le> length (sys_log s)"
  by (auto simp: history_ok_def reader_trace_def)

lemma reader_trace_fresh: "history_ok s \<Longrightarrow> length (sys_readers s) \<le> i \<Longrightarrow> reader_trace i s = []"
  by (force simp: history_ok_def reader_trace_def filter_empty_conv)

lemma reader_trace_read:
  "reader_trace j (sys_read i (r, buf, rd) s) =
     reader_trace j s @ (if i = j then [(length (sys_log s), r)] else [])"
  by (simp add: sys_read_def reader_trace_def)

lemma sys_read_simps [simp]:
  "sys_buf (sys_read i (r, buf, rd) s) = buf"
  "sys_log (sys_read i (r, buf, rd) s) = sys_log s"
  "sys_start (sys_read i (r, buf, rd) s) = sys_start s"
  "sys_readers (sys_read i (r, buf, rd) s) = (sys_readers s)[i := rd]"
  by (simp_all add: sys_read_def)

lemma history_ok_read:
  "history_ok s \<Longrightarrow> i < length (sys_readers s) \<Longrightarrow> history_ok (sys_read i (r, buf, rd) s)"
  by (auto simp: history_ok_def sys_read_def)

lemma history_ok_push:
  "history_ok s \<Longrightarrow> history_ok (s\<lparr>sys_buf := b, sys_log := sys_log s @ [v]\<rparr>)"
  by (force simp: history_ok_def)

lemma history_ok_subscribe:
  "history_ok s \<Longrightarrow> history_ok (s\<lparr>sys_readers := sys_readers s @ [rd], sys_start := sys_start s @ [n]\<rparr>)"
  by (force simp: history_ok_def)

lemma reader_trace_update [simp]:
  "reader_trace i (s\<lparr>sys_buf := b\<rparr>) = reader_trace i s"
  "reader_trace i (s\<lparr>sys_log := l\<rparr>) = reader_trace i s"
  "reader_trace i (s\<lparr>sys_readers := rs\<rparr>) = reader_trace i s"
  "reader_trace i (s\<lparr>sys_start := ns\<rparr>) = reader_trace i s"
  by (simp_all add: reader_trace_def)

text \<open>A poll is a read that may also register a waker, which no reader sees.\<close>

lemma poll_as_recv:
  assumes "i < length (sys_readers s)"
  shows "\<exists>buf. sys_step (Poll i w) s = (sys_step (Recv i) s)\<lparr>sys_buf := buf\<rparr>
     \<and> (buf = sys_buf (sys_step (Recv i) s) \<or> buf = register_waker w (sys_buf (sys_step (Recv i) s)))"
proof -
  obtain r buf rd where t: "wasm_try_recv (sys_buf s) (sys_readers s ! i) = (r, buf, rd)"
    by (metis prod_cases3)
  then show ?thesis using assms
    by (cases r; cases s) (auto simp: wasm_poll_recv_def sys_read_def)
qed

lemma history_ok_buf [simp]: "history_ok (s\<lparr>sys_buf := b\<rparr>) = history_ok s"
  by (simp add: history_ok_def)

lemma ring_inv_waker:
  assumes "ring_inv cap s"
  shows "ring_inv cap (s\<lparr>sys_buf := register_waker w (sys_buf s)\<rparr>)"
  using assms by (auto simp: ring_inv_def)

lemma latest_inv_waker:
  assumes "latest_inv s"
  shows "latest_inv (s\<lparr>sys_buf := register_waker w (sys_buf s)\<rparr>)"
  using assms by (auto simp: latest_inv_def)

lemma ring_inv_recv:
  assumes inv: "ring_inv cap s" and i: "i < length (sys_readers s)" and small: "length (sys_log s) < 2 ^ 64"
  shows "ring_inv cap (sys_step (Recv i) s)"
proof -
  let ?m = "max 1 cap" and ?log = "sys_log s"
  have m: "0 < ?m" by simp
  obtain W wk where buf: "sys_buf s = SpmcRing (retained ?m ?log) cap W wk" and W: "unat W = length ?log"
    using inv by (auto simp: ring_inv_def)
  obtain p where p: "sys_readers s ! i = RingReader p" "unat p \<le> length ?log"
    "ring_ok ?m ?log (sys_start s ! i) (reader_trace i s) = Some (unat p)"
    using inv i by (auto simp: ring_inv_def)
  obtain r buf' rd' where t: "wasm_try_recv (SpmcRing (retained ?m ?log) cap W wk) (RingReader p) = (r, buf', rd')"
    by (metis prod_cases3)
  obtain q where q: "buf' = SpmcRing (retained ?m ?log) cap W wk" "rd' = RingReader q"
    "unat q \<le> length ?log" "ring_ok ?m ?log (unat p) [(length ?log, r)] = Some (unat q)"
    using ring_try_recv [OF t W small p(2) m] by blast
  have step: "sys_step (Recv i) s = sys_read i (r, buf', rd') s"
    using i buf p(1) t by simp
  have tr: "ring_ok ?m ?log (sys_start s ! i) (reader_trace i (sys_read i (r, buf', rd') s)) = Some (unat q)"
    using p(3) q(4) by (simp add: reader_trace_read ring_ok_append del: ring_ok.simps)
  show ?thesis
    unfolding step ring_inv_def
  proof (intro conjI allI impI)
    show "history_ok (sys_read i (r, buf', rd') s)"
      using inv i by (auto simp: ring_inv_def intro: history_ok_read)
    show "\<exists>W wk. sys_buf (sys_read i (r, buf', rd') s)
        = SpmcRing (retained ?m (sys_log (sys_read i (r, buf', rd') s))) cap W wk
        \<and> unat W = length (sys_log (sys_read i (r, buf', rd') s))"
      using q(1) W by simp
    fix j assume j: "j < length (sys_readers (sys_read i (r, buf', rd') s))"
    show "\<exists>p. sys_readers (sys_read i (r, buf', rd') s) ! j = RingReader p
        \<and> unat p \<le> length (sys_log (sys_read i (r, buf', rd') s))
        \<and> ring_ok ?m (sys_log (sys_read i (r, buf', rd') s)) (sys_start (sys_read i (r, buf', rd') s) ! j)
            (reader_trace j (sys_read i (r, buf', rd') s)) = Some (unat p)"
    proof (cases "j = i")
      case True
      then show ?thesis using tr q(2,3) i by simp
    next
      case False
      then show ?thesis using inv j by (simp add: ring_inv_def reader_trace_read)
    qed
  qed
qed

lemma latest_inv_recv:
  assumes inv: "latest_inv s" and i: "i < length (sys_readers s)"
  shows "latest_inv (sys_step (Recv i) s)"
proof -
  let ?log = "sys_log s" and ?slot = "if sys_log s = [] then None else Some (last (sys_log s))"
  obtain W wk where buf: "sys_buf s = SingleLatest ?slot W wk" and W: "unat W = length ?log"
    using inv by (auto simp: latest_inv_def)
  obtain p where p: "sys_readers s ! i = LatestReader p" "unat p \<le> length ?log"
    "latest_ok ?log 0 (reader_trace i s) = Some (unat p)"
    using inv i by (auto simp: latest_inv_def)
  obtain r buf' rd' where t: "wasm_try_recv (SingleLatest ?slot W wk) (LatestReader p) = (r, buf', rd')"
    by (metis prod_cases3)
  obtain q where q: "buf' = SingleLatest ?slot W wk" "rd' = LatestReader q"
    "unat q \<le> length ?log" "latest_ok ?log (unat p) [(length ?log, r)] = Some (unat q)"
    using latest_try_recv [OF t W p(2)] by blast
  have step: "sys_step (Recv i) s = sys_read i (r, buf', rd') s"
    using i buf p(1) t by simp
  have tr: "latest_ok ?log 0 (reader_trace i (sys_read i (r, buf', rd') s)) = Some (unat q)"
    using p(3) q(4) by (simp add: reader_trace_read latest_ok_append del: latest_ok.simps)
  show ?thesis
    unfolding step latest_inv_def
  proof (intro conjI allI impI)
    show "history_ok (sys_read i (r, buf', rd') s)"
      using inv i by (auto simp: latest_inv_def intro: history_ok_read)
    show "\<exists>W wk. sys_buf (sys_read i (r, buf', rd') s)
        = SingleLatest (if sys_log (sys_read i (r, buf', rd') s) = [] then None
             else Some (last (sys_log (sys_read i (r, buf', rd') s)))) W wk
        \<and> unat W = length (sys_log (sys_read i (r, buf', rd') s))"
      using q(1) W by simp
    fix j assume j: "j < length (sys_readers (sys_read i (r, buf', rd') s))"
    show "\<exists>p. sys_readers (sys_read i (r, buf', rd') s) ! j = LatestReader p
        \<and> unat p \<le> length (sys_log (sys_read i (r, buf', rd') s))
        \<and> latest_ok (sys_log (sys_read i (r, buf', rd') s)) 0
            (reader_trace j (sys_read i (r, buf', rd') s)) = Some (unat p)"
    proof (cases "j = i")
      case True
      then show ?thesis using tr q(2,3) i by simp
    next
      case False
      then show ?thesis using inv j by (simp add: latest_inv_def reader_trace_read)
    qed
  qed
qed

lemma ring_inv_poll:
  assumes "ring_inv cap s" and "i < length (sys_readers s)" and "length (sys_log s) < 2 ^ 64"
  shows "ring_inv cap (sys_step (Poll i w) s)"
proof -
  note r = ring_inv_recv [OF assms]
  obtain b where b: "sys_step (Poll i w) s = (sys_step (Recv i) s)\<lparr>sys_buf := b\<rparr>"
    "b = sys_buf (sys_step (Recv i) s) \<or> b = register_waker w (sys_buf (sys_step (Recv i) s))"
    using poll_as_recv [OF assms(2)] by blast
  from b(2) show ?thesis unfolding b(1)
  proof
    assume "b = sys_buf (sys_step (Recv i) s)"
    then show "ring_inv cap ((sys_step (Recv i) s)\<lparr>sys_buf := b\<rparr>)" using r by (simp del: sys_step.simps)
  next
    assume "b = register_waker w (sys_buf (sys_step (Recv i) s))"
    then show "ring_inv cap ((sys_step (Recv i) s)\<lparr>sys_buf := b\<rparr>)"
      using ring_inv_waker [OF r, of w] by (simp del: sys_step.simps)
  qed
qed

lemma latest_inv_poll:
  assumes "latest_inv s" and "i < length (sys_readers s)"
  shows "latest_inv (sys_step (Poll i w) s)"
proof -
  note r = latest_inv_recv [OF assms]
  obtain b where b: "sys_step (Poll i w) s = (sys_step (Recv i) s)\<lparr>sys_buf := b\<rparr>"
    "b = sys_buf (sys_step (Recv i) s) \<or> b = register_waker w (sys_buf (sys_step (Recv i) s))"
    using poll_as_recv [OF assms(2)] by blast
  from b(2) show ?thesis unfolding b(1)
  proof
    assume "b = sys_buf (sys_step (Recv i) s)"
    then show "latest_inv ((sys_step (Recv i) s)\<lparr>sys_buf := b\<rparr>)" using r by (simp del: sys_step.simps)
  next
    assume "b = register_waker w (sys_buf (sys_step (Recv i) s))"
    then show "latest_inv ((sys_step (Recv i) s)\<lparr>sys_buf := b\<rparr>)"
      using latest_inv_waker [OF r, of w] by (simp del: sys_step.simps)
  qed
qed

lemma unat_incr: "unat W = n \<Longrightarrow> Suc n < 2 ^ 64 \<Longrightarrow> unat (W + 1) = Suc n" for W :: u64
  by (simp add: unat_word_ariths)

lemma ring_inv_push:
  assumes inv: "ring_inv cap s" and small: "Suc (length (sys_log s)) < 2 ^ 64"
  shows "ring_inv cap (sys_step (Push v) s)"
proof -
  let ?log = "sys_log s"
  define m where "m = max 1 cap"
  obtain W wk where buf: "sys_buf s = SpmcRing (retained m ?log) cap W wk" and W: "unat W = length ?log"
    using inv by (auto simp: ring_inv_def m_def)
  have h: "history_ok s" using inv by (simp add: ring_inv_def)
  have "(if cap \<le> length (retained m ?log) then tl (retained m ?log) else retained m ?log) @ [v]
      = retained m (?log @ [v])"
  proof (cases cap)
    case 0
    then show ?thesis using push_retained [of m ?log v]
      by (cases "?log = []") (simp_all add: retained_def Suc_le_eq m_def)
  next
    case (Suc c)
    then show ?thesis using push_retained [of m ?log v] by (simp add: m_def)
  qed
  then have buf': "sys_buf (sys_step (Push v) s) = SpmcRing (retained m (?log @ [v])) cap (W + 1) []"
    using buf by simp
  have "ring_ok m (?log @ [v]) a (reader_trace i s) = Some q"
    if "ring_ok m ?log a (reader_trace i s) = Some q" for a i q
    using that reader_trace_le [OF h] by (rule ring_ok_log)
  note log = this
  show ?thesis
    unfolding ring_inv_def m_def [symmetric]
  proof (intro conjI allI impI)
    show "history_ok (sys_step (Push v) s)" using history_ok_push [OF h] by simp
    show "\<exists>W wk. sys_buf (sys_step (Push v) s) = SpmcRing (retained m (sys_log (sys_step (Push v) s))) cap W wk
        \<and> unat W = length (sys_log (sys_step (Push v) s))"
      unfolding buf' using unat_incr [OF W small] by simp
    fix i assume "i < length (sys_readers (sys_step (Push v) s))"
    then obtain p where "sys_readers s ! i = RingReader p" "unat p \<le> length ?log"
      "ring_ok m ?log (sys_start s ! i) (reader_trace i s) = Some (unat p)"
      using inv by (auto simp: ring_inv_def m_def)
    then show "\<exists>p. sys_readers (sys_step (Push v) s) ! i = RingReader p
        \<and> unat p \<le> length (sys_log (sys_step (Push v) s))
        \<and> ring_ok m (sys_log (sys_step (Push v) s)) (sys_start (sys_step (Push v) s) ! i)
            (reader_trace i (sys_step (Push v) s)) = Some (unat p)"
      using log by simp
  qed
qed

lemma latest_inv_push:
  assumes inv: "latest_inv s" and small: "Suc (length (sys_log s)) < 2 ^ 64"
  shows "latest_inv (sys_step (Push v) s)"
proof -
  let ?log = "sys_log s"
  obtain W wk where buf: "sys_buf s = SingleLatest (if ?log = [] then None else Some (last ?log)) W wk"
    and W: "unat W = length ?log"
    using inv by (auto simp: latest_inv_def)
  have h: "history_ok s" using inv by (simp add: latest_inv_def)
  have "latest_ok (?log @ [v]) a (reader_trace i s) = Some q"
    if "latest_ok ?log a (reader_trace i s) = Some q" for a i q
    using that reader_trace_le [OF h] by (rule latest_ok_log)
  then show ?thesis
    using inv buf unat_incr [OF W small] history_ok_push [OF h]
    by (fastforce simp: latest_inv_def)
qed

lemma ring_inv_subscribe:
  assumes inv: "ring_inv cap s"
  shows "ring_inv cap (sys_step Subscribe s)"
proof -
  have h: "history_ok s" using inv by (simp add: ring_inv_def)
  obtain W wk where buf: "sys_buf s = SpmcRing (retained (max 1 cap) (sys_log s)) cap W wk"
    and W: "unat W = length (sys_log s)"
    using inv by (auto simp: ring_inv_def)
  then show ?thesis
    using inv history_ok_subscribe [OF h] reader_trace_fresh [OF h]
    by (auto simp: ring_inv_def nth_append history_ok_def less_Suc_eq)
qed

lemma latest_inv_subscribe:
  assumes inv: "latest_inv s"
  shows "latest_inv (sys_step Subscribe s)"
proof -
  have h: "history_ok s" using inv by (simp add: latest_inv_def)
  obtain W wk where buf: "sys_buf s = SingleLatest (if sys_log s = [] then None else Some (last (sys_log s))) W wk"
    and W: "unat W = length (sys_log s)"
    using inv by (auto simp: latest_inv_def)
  then show ?thesis
    using inv history_ok_subscribe [OF h] reader_trace_fresh [OF h]
    by (auto simp: latest_inv_def nth_append history_ok_def less_Suc_eq)
qed

definition pushes :: "'a buf_op list \<Rightarrow> 'a list" where
  "pushes ops = concat (map (\<lambda>oper. case oper of Push v \<Rightarrow> [v] | _ \<Rightarrow> []) ops)"

lemma sys_log_step: "sys_log (sys_step oper s) = sys_log s @ pushes [oper]"
  by (cases oper) (auto simp: pushes_def sys_read_def split: prod.splits)

lemma ring_inv_run:
  "ring_inv cap s \<Longrightarrow> length (sys_log s) + length (pushes ops) < 2 ^ 64 \<Longrightarrow>
     ring_inv cap (sys_run ops s) \<and> sys_log (sys_run ops s) = sys_log s @ pushes ops"
proof (induction ops arbitrary: s)
  case (Cons oper ops)
  have split: "pushes (oper # ops) = pushes [oper] @ pushes ops" by (simp add: pushes_def)
  have "ring_inv cap (sys_step oper s)"
  proof (cases oper)
    case (Push v)
    then have len: "length (pushes (oper # ops)) = Suc (length (pushes ops))" by (simp add: pushes_def)
    have "Suc (length (sys_log s)) < 2 ^ 64"
      by (rule le_less_trans [OF _ Cons.prems(2)]) (simp add: len)
    then show ?thesis unfolding Push by (rule ring_inv_push [OF Cons.prems(1)])
  next
    case Subscribe
    then show ?thesis using Cons.prems ring_inv_subscribe by blast
  next
    case (Recv i)
    then show ?thesis using Cons.prems ring_inv_recv [of cap s i]
      by (cases "i < length (sys_readers s)") (simp del: sys_step.simps, simp)
  next
    case (Poll i w)
    then show ?thesis using Cons.prems ring_inv_poll [of cap s i w]
      by (cases "i < length (sys_readers s)") (simp del: sys_step.simps, simp)
  qed
  moreover have "length (sys_log (sys_step oper s)) + length (pushes ops) < 2 ^ 64"
    using Cons.prems(2) by (simp only: split sys_log_step length_append add.assoc)
  ultimately show ?case
    using Cons.IH [of "sys_step oper s"] unfolding split sys_run_def sys_log_step
    by (simp only: fold_Cons o_apply append_assoc)
qed (simp add: sys_run_def pushes_def)

lemma latest_inv_run:
  "latest_inv s \<Longrightarrow> length (sys_log s) + length (pushes ops) < 2 ^ 64 \<Longrightarrow>
     latest_inv (sys_run ops s) \<and> sys_log (sys_run ops s) = sys_log s @ pushes ops"
proof (induction ops arbitrary: s)
  case (Cons oper ops)
  have split: "pushes (oper # ops) = pushes [oper] @ pushes ops" by (simp add: pushes_def)
  have "latest_inv (sys_step oper s)"
  proof (cases oper)
    case (Push v)
    then have len: "length (pushes (oper # ops)) = Suc (length (pushes ops))" by (simp add: pushes_def)
    have "Suc (length (sys_log s)) < 2 ^ 64"
      by (rule le_less_trans [OF _ Cons.prems(2)]) (simp add: len)
    then show ?thesis unfolding Push by (rule latest_inv_push [OF Cons.prems(1)])
  next
    case Subscribe
    then show ?thesis using Cons.prems latest_inv_subscribe by blast
  next
    case (Recv i)
    then show ?thesis using Cons.prems latest_inv_recv [of s i]
      by (cases "i < length (sys_readers s)") (simp del: sys_step.simps, simp)
  next
    case (Poll i w)
    then show ?thesis using Cons.prems latest_inv_poll [of s i w]
      by (cases "i < length (sys_readers s)") (simp del: sys_step.simps, simp)
  qed
  moreover have "length (sys_log (sys_step oper s)) + length (pushes ops) < 2 ^ 64"
    using Cons.prems(2) by (simp only: split sys_log_step length_append add.assoc)
  ultimately show ?case
    using Cons.IH [of "sys_step oper s"] unfolding split sys_run_def sys_log_step
    by (simp only: fold_Cons o_apply append_assoc)
qed (simp add: sys_run_def pushes_def)

subsection \<open>Wake-ups\<close>

fun wakers_of :: "'a wasm_inner \<Rightarrow> nat list" where
  "wakers_of (SpmcRing ring capacity write_seq wakers) = wakers"
| "wakers_of (SingleLatest slot version wakers) = wakers"
| "wakers_of (Mailbox slot wakers) = wakers"

lemma push_wakes: "snd (wasm_push v inner) = wakers_of inner"
  by (cases inner) auto

lemma try_recv_wakers: "wakers_of (fst (snd (wasm_try_recv inner rd))) = wakers_of inner"
  by (induction inner rd rule: wasm_try_recv.induct) (auto simp: Let_def split: option.splits)

lemma register_wakers: "set (wakers_of (register_waker w inner)) = insert w (set (wakers_of inner))"
  by (cases inner) (auto simp: add_waker_def)

lemma poll_recv_wakers:
  "set (wakers_of inner) \<subseteq> set (wakers_of (fst (snd (wasm_poll_recv w inner rd))))
   \<and> (fst (wasm_poll_recv w inner rd) = None \<longrightarrow> w \<in> set (wakers_of (fst (snd (wasm_poll_recv w inner rd)))))"
  using try_recv_wakers [of inner rd]
  by (auto simp: wasm_poll_recv_def register_wakers split: prod.splits received.splits)

lemma step_wakers:
  assumes "\<And>v. oper \<noteq> Push v"
  shows "set (wakers_of (sys_buf s)) \<subseteq> set (wakers_of (sys_buf (sys_step oper s)))"
proof (cases oper)
  case (Push v)
  then show ?thesis using assms by blast
next
  case Subscribe
  then show ?thesis by simp
next
  case (Recv i)
  then show ?thesis using try_recv_wakers [of "sys_buf s" "sys_readers s ! i"]
    by (cases "wasm_try_recv (sys_buf s) (sys_readers s ! i)") auto
next
  case (Poll i w)
  then show ?thesis using poll_recv_wakers [of "sys_buf s" w "sys_readers s ! i"]
    by (cases "wasm_poll_recv w (sys_buf s) (sys_readers s ! i)") auto
qed

lemma run_wakers:
  "\<forall>oper \<in> set ops. \<forall>v. oper \<noteq> Push v \<Longrightarrow>
     set (wakers_of (sys_buf s)) \<subseteq> set (wakers_of (sys_buf (sys_run ops s)))"
proof (induction ops arbitrary: s)
  case (Cons oper ops)
  then have "set (wakers_of (sys_buf s)) \<subseteq> set (wakers_of (sys_buf (sys_step oper s)))"
    by (intro step_wakers) auto
  also have "\<dots> \<subseteq> set (wakers_of (sys_buf (sys_run ops (sys_step oper s))))"
    using Cons by (intro Cons.IH) auto
  finally show ?case by (simp add: sys_run_def)
qed (simp add: sys_run_def)

subsection \<open>Properties\<close>

lemma ring_init: "ring_inv cap (sys_init (CfgSpmcRing cap))"
  by (simp add: ring_inv_def sys_init_def wasm_new_def history_ok_def retained_def)

lemma latest_init: "latest_inv (sys_init CfgSingleLatest)"
  by (simp add: latest_inv_def sys_init_def wasm_new_def history_ok_def)

text \<open>
  C6. A ring loses nothing silently.  In any interleaving of pushes, subscriptions and reads,
  each reader sees exactly the log from the point it subscribed: every value in order and once,
  except those it is told about, by a lag that counts exactly the values already overwritten;
  and it is told the buffer is empty only when it has seen everything.
\<close>

theorem ring_readers_exact:
  assumes "length (pushes ops) < 2 ^ 64" and "i < length (sys_readers (sys_run ops (sys_init (CfgSpmcRing cap))))"
  shows "\<exists>p. ring_ok (max 1 cap) (pushes ops) (sys_start (sys_run ops (sys_init (CfgSpmcRing cap))) ! i)
      (reader_trace i (sys_run ops (sys_init (CfgSpmcRing cap)))) = Some p \<and> p \<le> length (pushes ops)"
proof -
  have "length (sys_log (sys_init (CfgSpmcRing cap) :: 'a buf_sys)) + length (pushes ops) < 2 ^ 64"
    using assms(1) by (simp add: sys_init_def)
  then have "ring_inv cap (sys_run ops (sys_init (CfgSpmcRing cap)))
      \<and> sys_log (sys_run ops (sys_init (CfgSpmcRing cap))) = pushes ops"
    using ring_inv_run [OF ring_init] by (simp add: sys_init_def)
  then show ?thesis using assms(2) by (auto simp: ring_inv_def)
qed

text \<open>
  A latest-value reader is never stale and never repeats: each read yields the newest value
  of that moment, at most once per push, and empty only if nothing was pushed since.
\<close>

theorem latest_readers_exact:
  assumes "length (pushes ops) < 2 ^ 64" and "i < length (sys_readers (sys_run ops (sys_init CfgSingleLatest)))"
  shows "\<exists>p. latest_ok (pushes ops) 0 (reader_trace i (sys_run ops (sys_init CfgSingleLatest))) = Some p
      \<and> p \<le> length (pushes ops)"
proof -
  have "length (sys_log (sys_init CfgSingleLatest :: 'a buf_sys)) + length (pushes ops) < 2 ^ 64"
    using assms(1) by (simp add: sys_init_def)
  then have "latest_inv (sys_run ops (sys_init CfgSingleLatest))
      \<and> sys_log (sys_run ops (sys_init CfgSingleLatest)) = pushes ops"
    using latest_inv_run [OF latest_init] by (simp add: sys_init_def)
  then show ?thesis using assms(2) by (auto simp: latest_inv_def)
qed

text \<open>
  No lost wake-up: a task whose poll was pending is woken by the next push, whatever other
  readers do in between.
\<close>

theorem pending_woken:
  assumes "wasm_poll_recv w (sys_buf s) rd = (None, buf, rd')"
    and "\<forall>oper \<in> set ops. \<forall>v. oper \<noteq> Push v"
  shows "w \<in> set (snd (wasm_push v (sys_buf (sys_run ops (s\<lparr>sys_buf := buf\<rparr>)))))"
proof -
  have "w \<in> set (wakers_of buf)" using poll_recv_wakers [of "sys_buf s" w rd] assms(1) by simp
  then show ?thesis
    using run_wakers [OF assms(2), of "s\<lparr>sys_buf := buf\<rparr>"] unfolding push_wakes by auto
qed

theorem ring_readers_exact_witness:
  "\<exists>p. ring_ok 2 [10, 20, 30 :: nat] 0
     (reader_trace 0 (sys_run [Subscribe, Push 10, Push 20, Push 30, Recv 0, Recv 0] (sys_init (CfgSpmcRing 2))))
     = Some p \<and> p \<le> 3"
  using ring_readers_exact [of "[Subscribe, Push (10 :: nat), Push 20, Push 30, Recv 0, Recv 0]" 0 2]
  by (simp add: Let_def sat_sub_def word_le_nat_alt word_less_nat_alt pushes_def sys_run_def sys_init_def wasm_new_def reader_trace_def sys_read_def)

theorem latest_readers_exact_witness:
  "\<exists>p. latest_ok [10, 20 :: nat] 0
     (reader_trace 0 (sys_run [Subscribe, Push 10, Push 20, Recv 0] (sys_init CfgSingleLatest)))
     = Some p \<and> p \<le> 2"
  using latest_readers_exact [of "[Subscribe, Push (10 :: nat), Push 20, Recv 0]" 0]
  by (simp add: pushes_def sys_run_def sys_init_def wasm_new_def reader_trace_def sys_read_def)

theorem pending_woken_witness:
  "7 \<in> set (snd (wasm_push (1 :: nat) (Mailbox None [7])))"
proof -
  have "wasm_poll_recv 7 (sys_buf (sys_init CfgMailbox :: nat buf_sys)) MailboxReader
      = (None, Mailbox None [7], MailboxReader)"
    by (simp add: wasm_poll_recv_def sys_init_def wasm_new_def add_waker_def)
  from pending_woken [OF this, of "[]" 1] show ?thesis by (simp add: sys_run_def)
qed

end
