(* ===== verification/Session_Messages.thy ===== *)
theory Session_Messages
  imports Prelude
begin

text \<open>
  The types the session engines share (\<open>aimdb-core/src/session/mod.rs\<close>): updates, errors and the
  logical messages of both directions.  A value stamp (\<open>clock.rs\<close>) is its nanoseconds.
\<close>

datatype rpc_error = NotFound | Denied | Internal | VersionMismatch | Protocol

datatype codec_error = Malformed | MissingStamp string

type_synonym stamp = u64

record sub_update =
  su_topic :: "string option"
  su_data :: bytes
  su_ts :: stamp
  su_skipped :: u64
  su_snapshot_end :: bool

definition sub_update_new :: "bytes \<Rightarrow> stamp \<Rightarrow> sub_update" where
  "sub_update_new data ts =
     \<lparr>su_topic = None, su_data = data, su_ts = ts, su_skipped = 0, su_snapshot_end = False\<rparr>"

definition sub_update_tagged :: "string \<Rightarrow> bytes \<Rightarrow> stamp \<Rightarrow> sub_update" where
  "sub_update_tagged topic data ts =
     \<lparr>su_topic = Some topic, su_data = data, su_ts = ts, su_skipped = 0, su_snapshot_end = False\<rparr>"

datatype inbound =
    Request u64 string bytes
  | Subscribe u64 string
  | Unsubscribe string
  | Write string bytes
  | Ping

datatype outbound =
    Reply u64 "rpc_error + bytes"
  | Event string u64 "string option" stamp bytes
  | Snapshot string u64 bool string stamp bytes
  | Subscribed string
  | Pong

record session_limits =
  max_connections :: nat
  max_subs_per_connection :: nat

definition default_limits :: session_limits where
  "default_limits = \<lparr>max_connections = 16, max_subs_per_connection = 32\<rparr>"

subsection \<open>Decimal ids\<close>

text \<open>\<open>u64::to_string\<close>.\<close>

definition digit :: "nat \<Rightarrow> char" where
  "digit n = ''0123456789'' ! n"

fun decimal :: "nat \<Rightarrow> string" where
  "decimal n = (if n < 10 then [digit n] else decimal (n div 10) @ [digit (n mod 10)])"

declare decimal.simps [simp del]

definition id_string :: "u64 \<Rightarrow> string" where
  "id_string i = decimal (unat i)"

lemma digit_inject: "m < 10 \<Longrightarrow> n < 10 \<Longrightarrow> digit m = digit n \<longleftrightarrow> m = n"
  using nth_eq_iff_index_eq [of "''0123456789''" m n] by (simp add: digit_def)

lemma decimal_not_Nil [simp]: "decimal n \<noteq> []"
  by (subst decimal.simps) simp

lemma decimal_Nil_not [simp]: "[] \<noteq> decimal n"
  using decimal_not_Nil by metis

lemma decimal_inject: "decimal m = decimal n \<longleftrightarrow> m = n"
proof (induction m arbitrary: n rule: less_induct)
  case (less m)
  show ?case
  proof
    assume eq: "decimal m = decimal n"
    have "m < 10 \<longleftrightarrow> n < 10"
      using arg_cong [OF eq, of butlast] by (auto simp: decimal.simps [of m] decimal.simps [of n] split: if_splits)
    moreover have "m div 10 = n div 10" if "\<not> m < 10" "\<not> n < 10"
      using less.IH [of "m div 10" "n div 10"] that eq
      by (auto simp: decimal.simps [of m] decimal.simps [of n])
    moreover have "m mod 10 = n mod 10" if "m < 10 \<longleftrightarrow> n < 10"
      using arg_cong [OF eq, of last] that digit_inject
      by (auto simp: decimal.simps [of m] decimal.simps [of n] split: if_splits)
    ultimately show "m = n" by (metis div_mult_mod_eq mod_less)
  qed simp
qed

lemma id_string_inject: "id_string a = id_string b \<longleftrightarrow> a = b"
  by (simp add: id_string_def decimal_inject word_unat_eq_iff)

end
