(* ===== verification/Channels.thy ===== *)
theory Channels
  imports Prelude
begin

text \<open>
  The bounded multi-producer channel (\<open>async-channel\<close>) the session engines use for commands,
  subscription sinks and events.  It is a parameter: a record of its operations, with its
  documented behaviour (FIFO, bounded, closed once the receiver is gone) as the locale
  \<open>bounded_channel\<close>, stated over the items it holds.
\<close>

datatype send_result = Sent | SendFull | SendClosed

text \<open>\<open>ch_force_send\<close> yields \<open>None\<close> on a closed channel, else the item it displaced, if any.\<close>

record ('a, 'c) chan_ops =
  ch_capacity :: "'c \<Rightarrow> nat option"
  ch_len :: "'c \<Rightarrow> nat"
  ch_try_send :: "'a \<Rightarrow> 'c \<Rightarrow> send_result \<times> 'c"
  ch_force_send :: "'a \<Rightarrow> 'c \<Rightarrow> 'a option option \<times> 'c"
  ch_try_recv :: "'c \<Rightarrow> 'a option \<times> 'c"

definition chan_full :: "nat option \<Rightarrow> nat \<Rightarrow> bool" where
  "chan_full cap n \<longleftrightarrow> (case cap of None \<Rightarrow> False | Some k \<Rightarrow> k \<le> n)"

locale bounded_channel =
  fixes ops :: "('a, 'c) chan_ops"
    and items :: "'c \<Rightarrow> 'a list"
    and is_open :: "'c \<Rightarrow> bool"
  assumes len_items: "ch_len ops c = length (items c)"
    and try_send_closed: "\<not> is_open c \<Longrightarrow> ch_try_send ops x c = (SendClosed, c)"
    and try_send_full: "is_open c \<Longrightarrow> chan_full (ch_capacity ops c) (length (items c)) \<Longrightarrow>
           ch_try_send ops x c = (SendFull, c)"
    and try_send_room: "is_open c \<Longrightarrow> \<not> chan_full (ch_capacity ops c) (length (items c)) \<Longrightarrow>
           \<exists>c'. ch_try_send ops x c = (Sent, c') \<and> items c' = items c @ [x] \<and> is_open c'
             \<and> ch_capacity ops c' = ch_capacity ops c"
    and force_send_closed: "\<not> is_open c \<Longrightarrow> ch_force_send ops x c = (None, c)"
    and force_send_full: "is_open c \<Longrightarrow> chan_full (ch_capacity ops c) (length (items c)) \<Longrightarrow>
           items c = y # ys \<Longrightarrow>
           \<exists>c'. ch_force_send ops x c = (Some (Some y), c') \<and> items c' = ys @ [x] \<and> is_open c'
             \<and> ch_capacity ops c' = ch_capacity ops c"
    and force_send_room: "is_open c \<Longrightarrow> \<not> chan_full (ch_capacity ops c) (length (items c)) \<Longrightarrow>
           \<exists>c'. ch_force_send ops x c = (Some None, c') \<and> items c' = items c @ [x] \<and> is_open c'
             \<and> ch_capacity ops c' = ch_capacity ops c"
    and try_recv_empty: "items c = [] \<Longrightarrow> ch_try_recv ops c = (None, c)"
    and try_recv_item: "items c = y # ys \<Longrightarrow>
           \<exists>c'. ch_try_recv ops c = (Some y, c') \<and> items c' = ys \<and> (is_open c' \<longleftrightarrow> is_open c)
             \<and> ch_capacity ops c' = ch_capacity ops c"
begin

lemma try_send_cases:
  obtains (closed) "\<not> is_open c" and "ch_try_send ops x c = (SendClosed, c)"
  | (full) "is_open c" and "chan_full (ch_capacity ops c) (length (items c))"
      and "ch_try_send ops x c = (SendFull, c)"
  | (sent) c' where "is_open c" and "\<not> chan_full (ch_capacity ops c) (length (items c))"
      and "ch_try_send ops x c = (Sent, c')" and "items c' = items c @ [x]" and "is_open c'"
      and "ch_capacity ops c' = ch_capacity ops c"
  using try_send_closed [of c x] try_send_full [of c x] try_send_room [of c x] by metis

end

subsection \<open>A channel as a list\<close>

record 'a list_chan =
  lc_items :: "'a list"
  lc_capacity :: "nat option"
  lc_open :: bool

definition list_chan_ops :: "('a, 'a list_chan) chan_ops" where
  "list_chan_ops =
     \<lparr>ch_capacity = lc_capacity,
      ch_len = (\<lambda>c. length (lc_items c)),
      ch_try_send = (\<lambda>x c.
        if \<not> lc_open c then (SendClosed, c)
        else if chan_full (lc_capacity c) (length (lc_items c)) then (SendFull, c)
        else (Sent, c\<lparr>lc_items := lc_items c @ [x]\<rparr>)),
      ch_force_send = (\<lambda>x c.
        if \<not> lc_open c then (None, c)
        else if chan_full (lc_capacity c) (length (lc_items c)) \<and> lc_items c \<noteq> []
        then (Some (Some (hd (lc_items c))), c\<lparr>lc_items := tl (lc_items c) @ [x]\<rparr>)
        else (Some None, c\<lparr>lc_items := lc_items c @ [x]\<rparr>)),
      ch_try_recv = (\<lambda>c. case lc_items c of [] \<Rightarrow> (None, c) | y # ys \<Rightarrow> (Some y, c\<lparr>lc_items := ys\<rparr>))\<rparr>"

interpretation list_channel: bounded_channel list_chan_ops lc_items lc_open
  by unfold_locales (auto simp: list_chan_ops_def)

end
