(* ===== verification/Session_Client.thy ===== *)
theory Session_Client
  imports Session_Messages Channels Framed_Connection
begin

text \<open>
  \<open>aimdb-core/src/session/client.rs\<close>: the client engine.  One step of \<open>drive_connection\<close> is a
  function of the step the biased select chose, the engine state, the clock and what the codec
  and the connection answered.  A caller's reply channel is a token; whether its receiver is
  gone (\<open>is_canceled\<close>) is a predicate of the moment.  Channels are the parameter \<open>ops\<close>.
\<close>

subsection \<open>Configuration and backoff\<close>

record client_config =
  reconnect :: bool
  reconnect_delay :: u64
  max_reconnect_delay :: u64
  max_reconnect_attempts :: nat
  keepalive_interval :: "u64 option"
  max_offline_queue :: nat
  sends_hello :: bool

definition default_config :: client_config where
  "default_config =
     \<lparr>reconnect = True, reconnect_delay = 200, max_reconnect_delay = 200,
      max_reconnect_attempts = 0, keepalive_interval = None, max_offline_queue = 256,
      sends_hello = False\<rparr>"

definition backoff_delay :: "client_config \<Rightarrow> nat \<Rightarrow> u64" where
  "backoff_delay config attempt =
     (let base = reconnect_delay config;
          cap = max (max_reconnect_delay config) base;
          shift = min (attempt - 1) 16
      in min (sat_mul base (push_bit shift 1)) cap)"

subsection \<open>The handle\<close>

datatype 'c client_cmd =
    Call u64 string bytes nat
  | CancelCall u64
  | CmdSubscribe u64 string 'c
  | CmdWrite string bytes

text \<open>
  The channels behind a handle: the command queue, the sweep request (a channel of capacity one
  of nothing: whether a request is queued) and the id counter, a \<open>usize\<close> with maximum \<open>umax\<close>.
\<close>

record 'q handle =
  cmd_queue :: 'q
  prune_signal :: bool
  id_counter :: nat

definition next_id :: "nat \<Rightarrow> nat \<Rightarrow> (rpc_error + u64) \<times> nat" where
  "next_id umax counter =
     (if counter + 1 \<le> umax then (Inr (of_nat counter), counter + 1) else (Inl Internal, counter))"

definition request_prune :: "'q handle \<Rightarrow> 'q handle" where
  "request_prune h = h\<lparr>prune_signal := True\<rparr>"

definition enqueue ::
  "('c client_cmd, 'q) chan_ops \<Rightarrow> 'c client_cmd \<Rightarrow> 'q handle \<Rightarrow> (rpc_error + unit) \<times> 'q handle" where
  "enqueue qops cmd h =
     (case ch_force_send qops cmd (cmd_queue h) of
        (None, q) \<Rightarrow> (Inl Internal, h\<lparr>cmd_queue := q\<rparr>)
      | (Some (Some (CancelCall i)), q) \<Rightarrow> (Inr (), request_prune (h\<lparr>cmd_queue := q\<rparr>))
      | (Some _, q) \<Rightarrow> (Inr (), h\<lparr>cmd_queue := q\<rparr>))"

text \<open>\<open>CancelOnDrop::drop\<close>, when armed.\<close>

definition cancel_on_drop ::
  "('c client_cmd, 'q) chan_ops \<Rightarrow> u64 \<Rightarrow> 'q handle \<Rightarrow> 'q handle" where
  "cancel_on_drop qops i h =
     (case ch_try_send qops (CancelCall i) (cmd_queue h) of
        (Sent, q) \<Rightarrow> h\<lparr>cmd_queue := q\<rparr>
      | (_, q) \<Rightarrow> request_prune (h\<lparr>cmd_queue := q\<rparr>))"

text \<open>The queueing half of \<open>call\<close>: the id it allocated.\<close>

definition start_call ::
  "nat \<Rightarrow> ('c client_cmd, 'q) chan_ops \<Rightarrow> string \<Rightarrow> bytes \<Rightarrow> nat \<Rightarrow> 'q handle
     \<Rightarrow> (rpc_error + u64) \<times> 'q handle" where
  "start_call umax qops method params token h =
     (case next_id umax (id_counter h) of
        (Inl e, n) \<Rightarrow> (Inl e, h\<lparr>id_counter := n\<rparr>)
      | (Inr i, n) \<Rightarrow>
          (case enqueue qops (Call i method params token) (h\<lparr>id_counter := n\<rparr>) of
             (Inl e, h') \<Rightarrow> (Inl e, h')
           | (Inr _, h') \<Rightarrow> (Inr i, h')))"

definition start_subscribe ::
  "nat \<Rightarrow> ('c client_cmd, 'q) chan_ops \<Rightarrow> string \<Rightarrow> 'c \<Rightarrow> 'q handle
     \<Rightarrow> (rpc_error + u64) \<times> 'q handle" where
  "start_subscribe umax qops topic events h =
     (case next_id umax (id_counter h) of
        (Inl e, n) \<Rightarrow> (Inl e, h\<lparr>id_counter := n\<rparr>)
      | (Inr i, n) \<Rightarrow>
          (case enqueue qops (CmdSubscribe i topic events) (h\<lparr>id_counter := n\<rparr>) of
             (Inl e, h') \<Rightarrow> (Inl e, h')
           | (Inr _, h') \<Rightarrow> (Inr i, h')))"

definition start_write ::
  "('c client_cmd, 'q) chan_ops \<Rightarrow> string \<Rightarrow> bytes \<Rightarrow> 'q handle
     \<Rightarrow> (rpc_error + unit) \<times> 'q handle" where
  "start_write qops topic payload h = enqueue qops (CmdWrite topic payload) h"

definition queue_capacity :: "client_config \<Rightarrow> nat" where
  "queue_capacity config = min (max (max_offline_queue config) 1) 8192"

subsection \<open>Delivering updates\<close>

datatype delivery = LiveEvent | BurstBody | BurstEnd

type_synonym sink_item = "rpc_error + sub_update"

record 'c engine =
  pending :: "u64 \<rightharpoonup> nat"
  subs :: "string \<rightharpoonup> 'c"
  last_seq :: "string \<rightharpoonup> u64"
  last_activity :: u64

definition deliver ::
  "(sink_item, 'c) chan_ops \<Rightarrow> string \<Rightarrow> u64 \<Rightarrow> sub_update \<Rightarrow> delivery \<Rightarrow> 'c engine \<Rightarrow> 'c engine" where
  "deliver ops sub seq update mode e =
     (let prev = (case last_seq e sub of None \<Rightarrow> 0 | Some s \<Rightarrow> s);
          skipped = sat_sub seq (sat_add prev 1)
      in case subs e sub of
           None \<Rightarrow> e
         | Some tx \<Rightarrow>
             (let reserved = (if mode = BurstBody then 2 else 1) in
              if (case ch_capacity ops tx of None \<Rightarrow> False | Some cap \<Rightarrow> cap \<le> ch_len ops tx + reserved)
              then e
              else
                (case ch_try_send ops
                        (Inr (update\<lparr>su_skipped := skipped, su_snapshot_end := (mode = BurstEnd)\<rparr>)) tx of
                   (Sent, tx') \<Rightarrow>
                     e\<lparr>subs := (subs e)(sub \<mapsto> tx'), last_seq := (last_seq e)(sub \<mapsto> max seq prev)\<rparr>
                 | (SendFull, tx') \<Rightarrow> e\<lparr>subs := (subs e)(sub \<mapsto> tx')\<rparr>
                 | (SendClosed, tx') \<Rightarrow>
                     e\<lparr>subs := (subs e)(sub := None), last_seq := (last_seq e)(sub := None)\<rparr>)))"

text \<open>\<open>end_sub\<close>: also the sink as it leaves the engine.\<close>

definition end_sub ::
  "(sink_item, 'c) chan_ops \<Rightarrow> string \<Rightarrow> rpc_error \<Rightarrow> 'c engine \<Rightarrow> 'c engine \<times> 'c option" where
  "end_sub ops sub err e =
     (case subs e sub of
        None \<Rightarrow> (e, None)
      | Some tx \<Rightarrow>
          (e\<lparr>subs := (subs e)(sub := None), last_seq := (last_seq e)(sub := None)\<rparr>,
           Some (snd (ch_try_send ops (Inl err) tx))))"

definition sweep_abandoned :: "(nat \<Rightarrow> bool) \<Rightarrow> 'c engine \<Rightarrow> 'c engine" where
  "sweep_abandoned canceled e =
     e\<lparr>pending := (\<lambda>i. case pending e i of
        None \<Rightarrow> None | Some t \<Rightarrow> if canceled t then None else Some t)\<rparr>"

subsection \<open>One connection\<close>

datatype ended = Disconnected | HandlesDropped

text \<open>What one iteration was told: a frame as the codec decoded it (\<open>None\<close>: closed or failed).\<close>

datatype 'c client_step =
    InboundStep "(codec_error + outbound) option"
  | KeepaliveStep
  | PruneStep
  | CmdStep "'c client_cmd option"

datatype 'c effect =
    SendFrame inbound
  | Resolve nat "rpc_error + bytes"
  | EndSink 'c
  | ArmTimer u64

text \<open>The answers of the codec and the connection to the frame an iteration sends, and the clock
  before and after it (nanoseconds).\<close>

record wire_answer =
  encode_ok :: bool
  send_ok :: bool
  now_before :: u64
  now_after :: u64

definition handle_reply ::
  "(sink_item, 'c) chan_ops \<Rightarrow> u64 \<Rightarrow> rpc_error + bytes \<Rightarrow> 'c engine \<Rightarrow> 'c effect list \<times> 'c engine" where
  "handle_reply ops i result e =
     (case pending e i of
        Some token \<Rightarrow> ([Resolve token result], e\<lparr>pending := (pending e)(i := None)\<rparr>)
      | None \<Rightarrow>
          (case result of
             Inl err \<Rightarrow>
               (case end_sub ops (id_string i) err e of
                  (e', None) \<Rightarrow> ([], e')
                | (e', Some sink) \<Rightarrow> ([EndSink sink], e'))
           | Inr _ \<Rightarrow> ([], e)))"

definition handle_frame ::
  "(sink_item, 'c) chan_ops \<Rightarrow> codec_error + outbound \<Rightarrow> 'c engine \<Rightarrow> 'c effect list \<times> 'c engine" where
  "handle_frame ops frame e =
     (case frame of
        Inr (Reply i result) \<Rightarrow> handle_reply ops i result e
      | Inr (Event sub seq topic ts data) \<Rightarrow>
          ([], deliver ops sub seq
                 (case topic of Some t \<Rightarrow> sub_update_tagged t data ts | None \<Rightarrow> sub_update_new data ts)
                 LiveEvent e)
      | Inr (Snapshot sub seq lst topic ts data) \<Rightarrow>
          ([], deliver ops sub seq (sub_update_tagged topic data ts)
                 (if lst then BurstEnd else BurstBody) e)
      | Inr Pong \<Rightarrow> ([], e)
      | Inr (Subscribed _) \<Rightarrow> ([], e)
      | Inl (MissingStamp sub) \<Rightarrow>
          (case end_sub ops sub Protocol e of
             (e', None) \<Rightarrow> ([], e')
           | (e', Some sink) \<Rightarrow> ([EndSink sink], e'))
      | Inl Malformed \<Rightarrow> ([], e))"

definition handle_cmd ::
  "(nat \<Rightarrow> bool) \<Rightarrow> wire_answer \<Rightarrow> 'c client_cmd \<Rightarrow> 'c engine
     \<Rightarrow> ended option \<times> 'c effect list \<times> 'c engine" where
  "handle_cmd canceled ans cmd e =
     (let sent = (encode_ok ans \<and> send_ok ans);
          ended = (if sent then None else Some Disconnected) in
      case cmd of
        Call i method params token \<Rightarrow>
          if canceled token then (None, [], e)
          else if sent
          then (None, [SendFrame (Request i method params)], e\<lparr>pending := (pending e)(i \<mapsto> token)\<rparr>)
          else (Some Disconnected, [Resolve token (Inl Internal)], e\<lparr>pending := (pending e)(i := None)\<rparr>)
      | CancelCall i \<Rightarrow> (None, [], e\<lparr>pending := (pending e)(i := None)\<rparr>)
      | CmdSubscribe i topic events \<Rightarrow>
          (ended, if sent then [SendFrame (inbound.Subscribe i topic)] else [], e\<lparr>subs := (subs e)(id_string i \<mapsto> events)\<rparr>)
      | CmdWrite topic payload \<Rightarrow> (ended, if sent then [SendFrame (Write topic payload)] else [], e))"

definition handle_keepalive ::
  "client_config \<Rightarrow> wire_answer \<Rightarrow> 'c engine \<Rightarrow> ended option \<times> 'c effect list \<times> 'c engine" where
  "handle_keepalive config ans e =
     (let interval_ms = (case keepalive_interval config of None \<Rightarrow> 0 | Some ms \<Rightarrow> ms);
          idle_ms = sat_sub (now_before ans) (last_activity e) div 1000000
      in if interval_ms \<le> idle_ms
         then if encode_ok ans \<and> \<not> send_ok ans then (Some Disconnected, [], e)
              else (None, (if encode_ok ans then [SendFrame Ping] else []) @ [ArmTimer interval_ms],
                    e\<lparr>last_activity := now_after ans\<rparr>)
         else (None, [ArmTimer (interval_ms - idle_ms)], e))"

definition drive_step ::
  "(sink_item, 'c) chan_ops \<Rightarrow> client_config \<Rightarrow> (nat \<Rightarrow> bool) \<Rightarrow> wire_answer \<Rightarrow> 'c client_step
     \<Rightarrow> 'c engine \<Rightarrow> ended option \<times> 'c effect list \<times> 'c engine" where
  "drive_step ops config canceled ans step e =
     (let e1 = (case step of
                  KeepaliveStep \<Rightarrow> e
                | PruneStep \<Rightarrow> e
                | _ \<Rightarrow> e\<lparr>last_activity := now_before ans\<rparr>)
      in case step of
           InboundStep None \<Rightarrow> (Some Disconnected, [], e1)
         | InboundStep (Some frame) \<Rightarrow> (None, handle_frame ops frame e1)
         | PruneStep \<Rightarrow> (None, [], sweep_abandoned canceled e1)
         | KeepaliveStep \<Rightarrow> handle_keepalive config ans e1
         | CmdStep None \<Rightarrow> (Some HandlesDropped, [], e1)
         | CmdStep (Some cmd) \<Rightarrow> handle_cmd canceled ans cmd e1)"

text \<open>The handshake: what the codec and the connection answered to the ping, and the frame that came back.\<close>

definition handshake ::
  "client_config \<Rightarrow> wire_answer \<Rightarrow> (codec_error + outbound) option \<Rightarrow> ended option" where
  "handshake config ans reply =
     (if \<not> sends_hello config then None
      else if \<not> (encode_ok ans \<and> send_ok ans) then Some Disconnected
      else if reply = Some (Inr Pong) then None else Some Disconnected)"

definition engine_new :: "u64 \<Rightarrow> 'c engine" where
  "engine_new now =
     \<lparr>pending = (\<lambda>_. None), subs = (\<lambda>_. None), last_seq = (\<lambda>_. None), last_activity = now\<rparr>"

subsection \<open>Redialling\<close>

text \<open>\<open>reconnect_after\<close>: the new attempt count and, to retry, the sleep in milliseconds.\<close>

definition reconnect_after :: "client_config \<Rightarrow> nat \<Rightarrow> nat \<times> u64 option" where
  "reconnect_after config attempt =
     (if \<not> reconnect config then (attempt, None)
      else
        (let attempt' = attempt + 1 in
         if max_reconnect_attempts config \<noteq> 0 \<and> max_reconnect_attempts config \<le> attempt'
         then (attempt', None)
         else (attempt', Some (backoff_delay config attempt'))))"

text \<open>
  \<open>client_loop\<close> against a script of dial outcomes: a failed dial, or a connection and the way
  it ended.  The result is the list of sleeps; a script that ends leaves the engine dialling
  (\<open>True\<close>), else it stopped.
\<close>

datatype dial_outcome = DialFailed transport_error | DialedThen ended

fun client_loop :: "client_config \<Rightarrow> nat \<Rightarrow> dial_outcome list \<Rightarrow> u64 list \<times> bool" where
  "client_loop config attempt [] = ([], True)"
| "client_loop config attempt (DialFailed err # rest) =
     (if err = Closed then ([], False)
      else
        (case reconnect_after config attempt of
           (attempt', Some ms) \<Rightarrow>
             (case client_loop config attempt' rest of (sleeps, going) \<Rightarrow> (ms # sleeps, going))
         | (_, None) \<Rightarrow> ([], False)))"
| "client_loop config attempt (DialedThen HandlesDropped # rest) = ([], False)"
| "client_loop config attempt (DialedThen Disconnected # rest) =
     (case reconnect_after config 0 of
        (attempt', Some ms) \<Rightarrow>
          (case client_loop config attempt' rest of (sleeps, going) \<Rightarrow> (ms # sleeps, going))
      | (_, None) \<Rightarrow> ([], False))"

subsection \<open>One subscription\<close>

text \<open>Frames the engine delivers to a subscription and items its subscriber takes, interleaved.\<close>

datatype sink_op = Frame u64 sub_update delivery | Take

fun sink_step ::
  "(sink_item, 'c) chan_ops \<Rightarrow> string \<Rightarrow> sink_op \<Rightarrow> 'c engine \<times> sink_item list \<Rightarrow> 'c engine \<times> sink_item list" where
  "sink_step ops sub (Frame seq update mode) (e, taken) = (deliver ops sub seq update mode e, taken)"
| "sink_step ops sub Take (e, taken) =
     (case subs e sub of
        None \<Rightarrow> (e, taken)
      | Some tx \<Rightarrow>
          (case ch_try_recv ops tx of
             (None, tx') \<Rightarrow> (e\<lparr>subs := (subs e)(sub \<mapsto> tx')\<rparr>, taken)
           | (Some x, tx') \<Rightarrow> (e\<lparr>subs := (subs e)(sub \<mapsto> tx')\<rparr>, taken @ [x])))"

definition sink_run ::
  "(sink_item, 'c) chan_ops \<Rightarrow> string \<Rightarrow> sink_op list \<Rightarrow> 'c engine \<times> sink_item list \<Rightarrow> 'c engine \<times> sink_item list" where
  "sink_run ops sub sops st = fold (sink_step ops sub) sops st"

definition frame_seqs :: "sink_op list \<Rightarrow> u64 list" where
  "frame_seqs sops = concat (map (\<lambda>s. case s of Frame seq _ _ \<Rightarrow> [seq] | Take \<Rightarrow> []) sops)"

text \<open>What a subscriber can account for: each update, and the ones reported lost before it.\<close>

definition accounted :: "sink_item list \<Rightarrow> nat" where
  "accounted xs = sum_list (map (\<lambda>x. case x of Inr u \<Rightarrow> Suc (unat (su_skipped u)) | Inl _ \<Rightarrow> 0) xs)"

lemma accounted_append [simp]: "accounted (xs @ ys) = accounted xs + accounted ys"
  by (simp add: accounted_def)

lemma accounted_Cons: "accounted (x # xs) = accounted [x] + accounted xs"
  by (simp add: accounted_def)

definition seq_of :: "'c engine \<Rightarrow> string \<Rightarrow> u64" where
  "seq_of e sub = (case last_seq e sub of None \<Rightarrow> 0 | Some s \<Rightarrow> s)"

locale sink_channel = bounded_channel ops items is_open
  for ops :: "(sink_item, 'c) chan_ops" and items and is_open
begin

text \<open>A live sink of capacity \<open>cap\<close> with \<open>room\<close> slots to spare.\<close>

definition live :: "nat \<Rightarrow> nat \<Rightarrow> string \<Rightarrow> 'c engine \<Rightarrow> 'c \<Rightarrow> bool" where
  "live cap room sub e tx \<longleftrightarrow> subs e sub = Some tx \<and> is_open tx \<and> ch_capacity ops tx = Some cap
     \<and> length (items tx) + room \<le> cap"

text \<open>A delivery either finds no room beyond the reserve and changes nothing, or is sent.\<close>

lemma deliver_live:
  assumes "live cap room sub e tx" and "reserve = (if mode = BurstBody then 2 else 1)"
  shows "if cap \<le> length (items tx) + reserve then deliver ops sub seq update mode e = e
     else \<exists>tx'. deliver ops sub seq update mode e =
            e\<lparr>subs := (subs e)(sub \<mapsto> tx'), last_seq := (last_seq e)(sub \<mapsto> max seq (seq_of e sub))\<rparr>
          \<and> items tx' = items tx @ [Inr (update\<lparr>su_skipped := sat_sub seq (sat_add (seq_of e sub) 1),
                                             su_snapshot_end := (mode = BurstEnd)\<rparr>)]
          \<and> is_open tx' \<and> ch_capacity ops tx' = Some cap"
proof (cases "cap \<le> length (items tx) + reserve")
  case True
  then show ?thesis using assms
    by (auto simp: deliver_def live_def len_items Let_def)
next
  case False
  let ?x = "Inr (update\<lparr>su_skipped := sat_sub seq (sat_add (seq_of e sub) 1),
                          su_snapshot_end := (mode = BurstEnd)\<rparr>)"
  have "\<not> chan_full (ch_capacity ops tx) (length (items tx))"
    using assms False by (simp add: live_def chan_full_def)
  then obtain tx' where "ch_try_send ops ?x tx = (Sent, tx')" "items tx' = items tx @ [?x]"
    "is_open tx'" "ch_capacity ops tx' = Some cap"
    using try_send_room [of tx ?x] assms(1) by (auto simp: live_def)
  then show ?thesis using assms False
    by (auto simp: deliver_def live_def len_items Let_def seq_of_def)
qed

lemma take_live:
  assumes "live cap room sub e tx"
  shows "\<exists>e' tx' xs. sink_step ops sub Take (e, taken) = (e', taken @ xs)
     \<and> live cap room sub e' tx' \<and> items tx = xs @ items tx' \<and> last_seq e' = last_seq e"
proof (cases "items tx")
  case Nil
  then show ?thesis using assms try_recv_empty [of tx]
    by (intro exI [of _ "e\<lparr>subs := (subs e)(sub \<mapsto> tx)\<rparr>"] exI [of _ tx] exI [of _ "[]"])
      (simp add: live_def)
next
  case (Cons y ys)
  then obtain tx' where "ch_try_recv ops tx = (Some y, tx')" "items tx' = ys" "is_open tx' \<longleftrightarrow> is_open tx"
    "ch_capacity ops tx' = ch_capacity ops tx"
    using try_recv_item by blast
  then show ?thesis using assms Cons
    by (intro exI [of _ "e\<lparr>subs := (subs e)(sub \<mapsto> tx')\<rparr>"] exI [of _ tx'] exI [of _ "[y]"])
      (simp add: live_def)
qed

lemma accounted_step:
  assumes "live cap 1 sub e tx" and "accounted (taken @ items tx) = unat (seq_of e sub)"
    and "\<And>seq update mode. sop = Frame seq update mode \<Longrightarrow> seq_of e sub < seq"
  shows "\<exists>e' taken' tx'. sink_step ops sub sop (e, taken) = (e', taken') \<and> live cap 1 sub e' tx'
     \<and> accounted (taken' @ items tx') = unat (seq_of e' sub)
     \<and> seq_of e' sub \<le> (case sop of Frame seq _ _ \<Rightarrow> seq | Take \<Rightarrow> seq_of e sub)"
proof (cases sop)
  case Take
  obtain e' tx' xs where "sink_step ops sub Take (e, taken) = (e', taken @ xs)" "live cap 1 sub e' tx'"
    "items tx = xs @ items tx'" "last_seq e' = last_seq e"
    using take_live [OF assms(1)] by blast
  then show ?thesis using assms(2) Take by (auto simp: seq_of_def)
next
  case (Frame seq update mode)
  note lt = assms(3) [OF Frame]
  note d = deliver_live [OF assms(1) refl, of mode seq update]
  show ?thesis
  proof (cases "cap \<le> length (items tx) + (if mode = BurstBody then 2 else 1)")
    case True
    then have "deliver ops sub seq update mode e = e" using d by simp
    then show ?thesis using assms(1,2) Frame lt by (auto intro!: exI [of _ tx])
  next
    case False
    then obtain tx' where tx': "deliver ops sub seq update mode e =
        e\<lparr>subs := (subs e)(sub \<mapsto> tx'), last_seq := (last_seq e)(sub \<mapsto> max seq (seq_of e sub))\<rparr>"
      "items tx' = items tx @ [Inr (update\<lparr>su_skipped := sat_sub seq (sat_add (seq_of e sub) 1),
                                             su_snapshot_end := (mode = BurstEnd)\<rparr>)]"
      "is_open tx'" "ch_capacity ops tx' = Some cap"
      using d by auto
    have "unat (seq_of e sub) < unat seq" "unat seq < 2 ^ 64"
      using lt unat_bound [of seq] by (simp_all add: word_less_nat_alt)
    then have "accounted (taken @ items tx') = unat seq"
      using assms(2) tx'(2) by (simp add: accounted_def unat_sat_sub unat_sat_add)
    moreover have "live cap 1 sub (deliver ops sub seq update mode e) tx'"
      using tx' False by (auto simp: live_def split: if_splits)
    moreover have "seq_of (deliver ops sub seq update mode e) sub = seq"
      using tx'(1) max.absorb1 [OF less_imp_le [OF lt]] by (simp add: seq_of_def)
    ultimately show ?thesis using Frame by auto
  qed
qed

lemma accounted_run:
  "live cap 1 sub e tx \<Longrightarrow> accounted (taken @ items tx) = unat (seq_of e sub) \<Longrightarrow>
     sorted_wrt (<) (frame_seqs sops) \<Longrightarrow> \<forall>s \<in> set (frame_seqs sops). seq_of e sub < s \<Longrightarrow>
     \<exists>e' taken' tx'. sink_run ops sub sops (e, taken) = (e', taken') \<and> live cap 1 sub e' tx'
       \<and> accounted (taken' @ items tx') = unat (seq_of e' sub)"
proof (induction sops arbitrary: e tx taken)
  case (Cons sop sops)
  obtain e' taken' tx' where
    s: "sink_step ops sub sop (e, taken) = (e', taken')" "live cap 1 sub e' tx'"
      "accounted (taken' @ items tx') = unat (seq_of e' sub)"
      "seq_of e' sub \<le> (case sop of Frame seq _ _ \<Rightarrow> seq | Take \<Rightarrow> seq_of e sub)"
  proof -
    have "seq_of e sub < seq" if f: "sop = Frame seq update mode" for seq update mode
      using Cons.prems(4) f by (simp add: frame_seqs_def)
    then show thesis using accounted_step [OF Cons.prems(1,2), of sop] that by blast
  qed
  have "\<forall>s \<in> set (frame_seqs sops). seq_of e' sub < s"
    using s(4) Cons.prems(3,4) by (cases sop) (auto simp: frame_seqs_def intro: le_less_trans)
  moreover have "sorted_wrt (<) (frame_seqs sops)"
    using Cons.prems(3) by (cases sop) (auto simp: frame_seqs_def)
  ultimately show ?case using Cons.IH [OF s(2,3)] s(1) by (simp add: sink_run_def)
qed (auto simp: sink_run_def)

text \<open>While only burst bodies arrive, two slots stay free, so the end of the burst fits.\<close>

lemma burst_run:
  "live cap 2 sub e tx \<Longrightarrow> \<forall>sop \<in> set sops. \<forall>seq update mode. sop = Frame seq update mode \<longrightarrow> mode = BurstBody
     \<Longrightarrow> \<exists>e' taken' tx'. sink_run ops sub sops (e, taken) = (e', taken') \<and> live cap 2 sub e' tx'"
proof (induction sops arbitrary: e tx taken)
  case (Cons sop sops)
  have "\<exists>e' taken' tx'. sink_step ops sub sop (e, taken) = (e', taken') \<and> live cap 2 sub e' tx'"
  proof (cases sop)
    case Take
    then show ?thesis using take_live [OF Cons.prems(1), of taken] by blast
  next
    case (Frame seq update mode)
    then have body: "mode = BurstBody" using Cons.prems(2) by simp
    show ?thesis
    proof (cases "cap \<le> length (items tx) + 2")
      case True
      then have "deliver ops sub seq update mode e = e"
        using deliver_live [OF Cons.prems(1) refl, of mode seq update] body by simp
      then show ?thesis using Frame Cons.prems(1) by auto
    next
      case False
      then obtain tx' where "deliver ops sub seq update mode e =
          e\<lparr>subs := (subs e)(sub \<mapsto> tx'), last_seq := (last_seq e)(sub \<mapsto> max seq (seq_of e sub))\<rparr>"
        "length (items tx') = Suc (length (items tx))" "is_open tx'" "ch_capacity ops tx' = Some cap"
        using deliver_live [OF Cons.prems(1) refl, of mode seq update] body by auto
      then have "live cap 2 sub (deliver ops sub seq update mode e) tx'" using False by (simp add: live_def)
      then show ?thesis using Frame by auto
    qed
  qed
  then show ?case using Cons.IH Cons.prems(2) by (fastforce simp: sink_run_def)
qed (auto simp: sink_run_def)

lemma live_run:
  "live cap 1 sub e tx \<Longrightarrow>
     \<exists>e' taken' tx'. sink_run ops sub sops (e, taken) = (e', taken') \<and> live cap 1 sub e' tx'"
proof (induction sops arbitrary: e tx taken)
  case (Cons sop sops)
  have "\<exists>e' taken' tx'. sink_step ops sub sop (e, taken) = (e', taken') \<and> live cap 1 sub e' tx'"
  proof (cases sop)
    case Take
    then show ?thesis using take_live [OF Cons.prems(1), of taken] by blast
  next
    case (Frame seq update mode)
    note d = deliver_live [OF Cons.prems(1) refl, of mode seq update]
    show ?thesis
    proof (cases "cap \<le> length (items tx) + (if mode = BurstBody then 2 else 1)")
      case True
      then show ?thesis using d Frame Cons.prems(1) by auto
    next
      case False
      then obtain tx' where "deliver ops sub seq update mode e =
          e\<lparr>subs := (subs e)(sub \<mapsto> tx'), last_seq := (last_seq e)(sub \<mapsto> max seq (seq_of e sub))\<rparr>"
        "length (items tx') = Suc (length (items tx))" "is_open tx'" "ch_capacity ops tx' = Some cap"
        using d by auto
      then have "live cap 1 sub (deliver ops sub seq update mode e) tx'"
        using False by (auto simp: live_def split: if_splits)
      then show ?thesis using Frame by auto
    qed
  qed
  then show ?case using Cons.IH by (fastforce simp: sink_run_def)
qed (auto simp: sink_run_def)

lemma end_sub_live:
  assumes "live cap 1 sub e tx"
  shows "\<exists>sink. end_sub ops sub err e =
           (e\<lparr>subs := (subs e)(sub := None), last_seq := (last_seq e)(sub := None)\<rparr>, Some sink)
         \<and> items sink = items tx @ [Inl err]"
proof -
  have "\<not> chan_full (ch_capacity ops tx) (length (items tx))" "is_open tx" "subs e sub = Some tx"
    using assms by (auto simp: live_def chan_full_def)
  then show ?thesis using try_send_room [of tx "Inl err"] by (auto simp: end_sub_def)
qed

text \<open>The three guarantees of a subscription whose sink starts empty.\<close>

definition fresh_sink :: "nat \<Rightarrow> string \<Rightarrow> 'c engine \<Rightarrow> bool" where
  "fresh_sink cap sub e \<longleftrightarrow> last_seq e sub = None \<and>
     (\<exists>tx. subs e sub = Some tx \<and> items tx = [] \<and> is_open tx \<and> ch_capacity ops tx = Some cap)"

lemma fresh_live: "fresh_sink cap sub e \<Longrightarrow> room \<le> cap \<Longrightarrow> \<exists>tx. live cap room sub e tx \<and> items tx = []"
  by (auto simp: fresh_sink_def live_def)

lemma accounts:
  assumes "fresh_sink cap sub e" and "1 \<le> cap"
    and "sorted_wrt (<) (frame_seqs sops)" and "\<forall>s \<in> set (frame_seqs sops). 0 < s"
  shows "\<exists>e' taken tx'. sink_run ops sub sops (e, []) = (e', taken) \<and> subs e' sub = Some tx'
           \<and> accounted (taken @ items tx') = unat (seq_of e' sub) \<and> length (items tx') < cap"
proof -
  obtain tx where tx: "live cap 1 sub e tx" "items tx = []" using fresh_live [OF assms(1,2)] by blast
  have s: "seq_of e sub = 0" using assms(1) by (simp add: fresh_sink_def seq_of_def)
  obtain e' taken' tx' where "sink_run ops sub sops (e, []) = (e', taken')" "live cap 1 sub e' tx'"
    "accounted (taken' @ items tx') = unat (seq_of e' sub)"
    using accounted_run [OF tx(1), of "[]" sops] assms(3,4) s tx(2) by (auto simp: accounted_def)
  then show ?thesis by (auto simp: live_def)
qed

lemma terminal:
  assumes "fresh_sink cap sub e" and "1 \<le> cap"
  shows "\<exists>e' taken tx' e'' sink. sink_run ops sub sops (e, []) = (e', taken) \<and> subs e' sub = Some tx'
           \<and> end_sub ops sub err e' = (e'', Some sink) \<and> items sink = items tx' @ [Inl err] \<and> subs e'' sub = None"
proof -
  obtain tx where tx: "live cap 1 sub e tx" using fresh_live [OF assms] by blast
  obtain e' taken' tx' where r: "sink_run ops sub sops (e, []) = (e', taken')" "live cap 1 sub e' tx'"
    using live_run [OF tx] by blast
  then show ?thesis using end_sub_live [OF r(2), of err] by (auto simp: live_def)
qed

lemma burst:
  assumes "fresh_sink cap sub e" and "2 \<le> cap"
    and "\<forall>sop \<in> set bodies. \<forall>seq update mode. sop = Frame seq update mode \<longrightarrow> mode = BurstBody"
  shows "\<exists>e' taken tx' tx''. sink_run ops sub bodies (e, []) = (e', taken) \<and> subs e' sub = Some tx'
           \<and> subs (deliver ops sub seq update BurstEnd e') sub = Some tx''
           \<and> items tx'' = items tx' @ [Inr (update\<lparr>su_skipped := sat_sub seq (sat_add (seq_of e' sub) 1),
                                                  su_snapshot_end := True\<rparr>)]"
proof -
  obtain tx where tx: "live cap 2 sub e tx" using fresh_live [OF assms(1,2)] by blast
  obtain e' taken' tx' where r: "sink_run ops sub bodies (e, []) = (e', taken')" "live cap 2 sub e' tx'"
    using burst_run [OF tx assms(3)] by blast
  then show ?thesis using deliver_live [OF r(2) refl, of BurstEnd seq update] by (auto simp: live_def)
qed

end

interpretation list_sink: sink_channel "list_chan_ops :: (sink_item, sink_item list_chan) chan_ops" lc_items lc_open
  by (rule sink_channel.intro) (rule list_channel.bounded_channel_axioms)


subsection \<open>What a subscriber sees\<close>

definition demo_engine :: "sink_item list_chan engine" where
  "demo_engine = (engine_new 0)\<lparr>subs := [''7'' \<mapsto> \<lparr>lc_items = [], lc_capacity = Some 2, lc_open = True\<rparr>]\<rparr>"

definition demo_update :: sub_update where
  "demo_update = sub_update_new [1] 0"

text \<open>
  C8. Subscription accounting: on a fresh sink, with sequence numbers that only grow, what the
  subscriber took, what waits in its sink and what those updates report as skipped add up to the
  last delivered sequence number, whatever was dropped in between: no update before a delivered
  one is lost unreported, and none is counted twice.
\<close>

theorem subscription_accounts:
  assumes "sink_channel ops items is_open" and "last_seq e sub = None" and "subs e sub = Some tx" and "items tx = []"
    and "is_open tx" and "ch_capacity ops tx = Some cap" and "1 \<le> cap"
    and "sorted_wrt (<) (frame_seqs sops)" and "\<forall>s \<in> set (frame_seqs sops). 0 < s"
  shows "\<exists>e' taken tx'. sink_run ops sub sops (e, []) = (e', taken) \<and> subs e' sub = Some tx'
           \<and> accounted (taken @ items tx') = unat (seq_of e' sub) \<and> length (items tx') < cap"
  using sink_channel.accounts [OF assms(1)] sink_channel.fresh_sink_def [OF assms(1)] assms by blast

theorem subscription_accounts_witness:
  "\<exists>e' taken tx'. sink_run list_chan_ops ''7'' [Frame 1 demo_update LiveEvent, Frame 2 demo_update LiveEvent, Take,
       Frame 5 demo_update LiveEvent] (demo_engine, []) = (e', taken) \<and> subs e' ''7'' = Some tx'
     \<and> accounted (taken @ lc_items tx') = unat (seq_of e' ''7'') \<and> length (lc_items tx') < 2"
  by (rule subscription_accounts [OF list_sink.sink_channel_axioms, of demo_engine "''7''"
        "\<lparr>lc_items = [], lc_capacity = Some 2, lc_open = True\<rparr>"])
    (simp_all add: demo_engine_def engine_new_def list_chan_ops_def frame_seqs_def)

text \<open>
  A terminal error always reaches the subscriber: whatever was delivered and taken before,
  \<open>end_sub\<close> finds room, the error is the last item of the sink, and the subscription is gone.
\<close>

theorem terminal_error_delivered:
  assumes "sink_channel ops items is_open" and "last_seq e sub = None" and "subs e sub = Some tx" and "items tx = []"
    and "is_open tx" and "ch_capacity ops tx = Some cap" and "1 \<le> cap"
  shows "\<exists>e' taken tx' e'' sink. sink_run ops sub sops (e, []) = (e', taken) \<and> subs e' sub = Some tx'
           \<and> end_sub ops sub err e' = (e'', Some sink) \<and> items sink = items tx' @ [Inl err] \<and> subs e'' sub = None"
  using sink_channel.terminal [OF assms(1)] sink_channel.fresh_sink_def [OF assms(1)] assms by blast

theorem terminal_error_delivered_witness:
  "\<exists>e' taken tx' e'' sink. sink_run list_chan_ops ''7'' [Frame 1 demo_update LiveEvent, Frame 2 demo_update LiveEvent]
       (demo_engine, []) = (e', taken) \<and> subs e' ''7'' = Some tx'
     \<and> end_sub list_chan_ops ''7'' Denied e' = (e'', Some sink) \<and> lc_items sink = lc_items tx' @ [Inl Denied]
     \<and> subs e'' ''7'' = None"
  by (rule terminal_error_delivered [OF list_sink.sink_channel_axioms, of demo_engine "''7''"
        "\<lparr>lc_items = [], lc_capacity = Some 2, lc_open = True\<rparr>" 2])
    (simp_all add: demo_engine_def engine_new_def list_chan_ops_def)

text \<open>
  A burst is never truncated silently: after any number of burst bodies, taken or not, the
  final snapshot is delivered, marked as the end and carrying the whole loss count.
\<close>

theorem burst_end_delivered:
  assumes "sink_channel ops items is_open" and "last_seq e sub = None" and "subs e sub = Some tx" and "items tx = []"
    and "is_open tx" and "ch_capacity ops tx = Some cap" and "2 \<le> cap"
    and "\<forall>sop \<in> set bodies. \<forall>seq update mode. sop = Frame seq update mode \<longrightarrow> mode = BurstBody"
  shows "\<exists>e' taken tx' tx''. sink_run ops sub bodies (e, []) = (e', taken) \<and> subs e' sub = Some tx'
           \<and> subs (deliver ops sub seq update BurstEnd e') sub = Some tx''
           \<and> items tx'' = items tx' @ [Inr (update\<lparr>su_skipped := sat_sub seq (sat_add (seq_of e' sub) 1),
                                                  su_snapshot_end := True\<rparr>)]"
  using sink_channel.burst [OF assms(1)] sink_channel.fresh_sink_def [OF assms(1)] assms by blast

theorem burst_end_delivered_witness:
  "\<exists>e' taken tx' tx''. sink_run list_chan_ops ''7'' [Frame 1 demo_update BurstBody, Frame 2 demo_update BurstBody]
       (demo_engine, []) = (e', taken) \<and> subs e' ''7'' = Some tx'
     \<and> subs (deliver list_chan_ops ''7'' 3 demo_update BurstEnd e') ''7'' = Some tx''
     \<and> lc_items tx'' = lc_items tx' @ [Inr (demo_update\<lparr>su_skipped := sat_sub 3 (sat_add (seq_of e' ''7'') 1),
                                                        su_snapshot_end := True\<rparr>)]"
  by (rule burst_end_delivered [OF list_sink.sink_channel_axioms, of demo_engine "''7''"
        "\<lparr>lc_items = [], lc_capacity = Some 2, lc_open = True\<rparr>" 2])
    (simp_all add: demo_engine_def engine_new_def list_chan_ops_def)

subsection \<open>Redialling\<close>

text \<open>
  The backoff is exactly the doubled base, sixteen doublings at most, capped at the configured
  maximum (or the base where that is larger): no shift or product overflows into a shorter delay.
\<close>

theorem backoff_exact:
  "unat (backoff_delay config attempt) =
     min (unat (reconnect_delay config) * 2 ^ min (attempt - 1) 16)
         (max (unat (max_reconnect_delay config)) (unat (reconnect_delay config)))"
proof -
  have p: "unat ((2 :: u64) ^ k) = 2 ^ k" if "k \<le> 16" for k
  proof -
    have "(2 :: nat) ^ k < 2 ^ 64" using that by (intro power_strict_increasing) simp_all
    moreover have "(2 :: u64) ^ k = of_nat (2 ^ k)" by simp
    ultimately show ?thesis by (simp add: unat_of_nat del: of_nat_power)
  qed
  have m: "unat (min a b) = min (unat a) (unat b)" "unat (max a b) = max (unat a) (unat b)" for a b :: u64
    by (simp_all add: min_def max_def word_le_nat_alt)
  have "max (unat (max_reconnect_delay config)) (unat (reconnect_delay config)) \<le> 2 ^ 64 - 1"
    using unat_bound [of "reconnect_delay config"] unat_bound [of "max_reconnect_delay config"] by simp
  then have "min (min x (2 ^ 64 - 1)) (max (unat (max_reconnect_delay config)) (unat (reconnect_delay config)))
      = min x (max (unat (max_reconnect_delay config)) (unat (reconnect_delay config)))" for x
    by (simp only: min.assoc min.absorb2)
  then show ?thesis by (simp add: backoff_delay_def Let_def m unat_sat_mul p)
qed

lemma client_loop_fails:
  assumes "reconnect config" and "max_reconnect_attempts config = n" and "a < n" and "Closed \<notin> set errs"
  shows "client_loop config a (map DialFailed errs) =
     (map (backoff_delay config) [a + 1 ..< min n (a + length errs + 1)], a + length errs < n)"
  using assms(3,4)
proof (induction errs arbitrary: a)
  case (Cons err errs)
  show ?case
  proof (cases "a + 1 < n")
    case True
    then have "client_loop config (a + 1) (map DialFailed errs) =
       (map (backoff_delay config) [a + 2 ..< min n (a + length errs + 2)], a + length errs + 1 < n)"
      using Cons.IH [of "a + 1"] Cons.prems(2) by simp
    moreover have "[a + 1 ..< min n (a + length errs + 2)] = (a + 1) # [a + 2 ..< min n (a + length errs + 2)]"
      using True by (simp add: upt_conv_Cons)
    ultimately show ?thesis
      using True assms(1,2) Cons.prems(2) by (auto simp: reconnect_after_def Let_def)
  next
    case False
    then show ?thesis using assms(1,2) Cons.prems by (auto simp: reconnect_after_def Let_def)
  qed
qed simp

text \<open>
  C39. The redial budget: with a limit of \<open>n\<close> attempts, a client whose every dial fails sleeps the
  backoffs of the attempts 1 to \<open>n - 1\<close>, in order, and then stops at its \<open>n\<close>th failure.
\<close>

theorem redial_budget:
  assumes "reconnect config" and "max_reconnect_attempts config = n" and "0 < n" and "Closed \<notin> set errs"
    and "n \<le> length errs"
  shows "client_loop config 0 (map DialFailed errs) = (map (backoff_delay config) [1 ..< n], False)"
  using client_loop_fails [OF assms(1,2,3,4)] assms(5) by (simp add: min_def)

theorem redial_budget_witness:
  "client_loop (default_config\<lparr>max_reconnect_attempts := 2\<rparr>) 0 (map DialFailed [Io, Busy, Io])
     = (map (backoff_delay (default_config\<lparr>max_reconnect_attempts := 2\<rparr>)) [1 ..< 2], False)"
  by (rule redial_budget) (simp_all add: default_config_def)

end
