(* ===== verification/Session_Calls.thy ===== *)
theory Session_Calls
  imports Session_Client
begin

text \<open>
  Callers and engine of \<open>client.rs\<close> together: a step relation over the handle, the engine of the
  live connection, the callers that gave up and the id every call was given.  Every step is an
  operation of \<open>Session_Client\<close>; it is labelled with the engine's effects.
\<close>

record ('q, 'c) session =
  sess_handle :: "'q handle"
  sess_engine :: "'c engine"
  sess_canceled :: "nat set"
  sess_ids :: "nat \<rightharpoonup> u64"

inductive call_step ::
  "('c client_cmd, 'q) chan_ops \<Rightarrow> (sink_item, 'c) chan_ops \<Rightarrow> nat \<Rightarrow> client_config
     \<Rightarrow> ('q, 'c) session \<Rightarrow> 'c effect list \<Rightarrow> ('q, 'c) session \<Rightarrow> bool"
  for qops sops umax config where
  caller_calls:
    "token \<notin> dom (sess_ids s) \<Longrightarrow> token \<notin> sess_canceled s \<Longrightarrow>
     start_call umax qops meth args token (sess_handle s) = (Inr i, h) \<Longrightarrow>
     call_step qops sops umax config s [] (s\<lparr>sess_handle := h, sess_ids := (sess_ids s)(token \<mapsto> i)\<rparr>)"
| caller_refused:
    "start_call umax qops meth args token (sess_handle s) = (Inl err, h) \<Longrightarrow>
     call_step qops sops umax config s [] (s\<lparr>sess_handle := h\<rparr>)"
| caller_subscribes:
    "start_subscribe umax qops topic events (sess_handle s) = (result, h) \<Longrightarrow>
     call_step qops sops umax config s [] (s\<lparr>sess_handle := h\<rparr>)"
| caller_writes:
    "start_write qops topic payload (sess_handle s) = (written, h) \<Longrightarrow>
     call_step qops sops umax config s [] (s\<lparr>sess_handle := h\<rparr>)"
| caller_gives_up:
    "sess_ids s token = Some i \<Longrightarrow>
     call_step qops sops umax config s []
       (s\<lparr>sess_handle := cancel_on_drop qops i (sess_handle s),
          sess_canceled := insert token (sess_canceled s)\<rparr>)"
| engine_prunes:
    "prune_signal (sess_handle s) \<Longrightarrow>
     drive_step sops config (\<lambda>t. t \<in> sess_canceled s) ans PruneStep (sess_engine s) = (None, effs, e) \<Longrightarrow>
     call_step qops sops umax config s effs
       (s\<lparr>sess_handle := (sess_handle s)\<lparr>prune_signal := False\<rparr>, sess_engine := e\<rparr>)"
| engine_takes:
    "ch_try_recv qops (cmd_queue (sess_handle s)) = (Some cmd, q) \<Longrightarrow>
     drive_step sops config (\<lambda>t. t \<in> sess_canceled s) ans (CmdStep (Some cmd)) (sess_engine s) = (None, effs, e) \<Longrightarrow>
     call_step qops sops umax config s effs
       (s\<lparr>sess_handle := (sess_handle s)\<lparr>cmd_queue := q\<rparr>, sess_engine := e\<rparr>)"
| engine_hears:
    "drive_step sops config (\<lambda>t. t \<in> sess_canceled s) ans (InboundStep (Some frame)) (sess_engine s) = (None, effs, e) \<Longrightarrow>
     call_step qops sops umax config s effs (s\<lparr>sess_engine := e\<rparr>)"
| engine_idles:
    "drive_step sops config (\<lambda>t. t \<in> sess_canceled s) ans KeepaliveStep (sess_engine s) = (None, effs, e) \<Longrightarrow>
     call_step qops sops umax config s effs (s\<lparr>sess_engine := e\<rparr>)"

inductive_cases call_step_cases: "call_step qops sops umax config s effs s'"

definition session_new :: "'q \<Rightarrow> u64 \<Rightarrow> ('q, 'c) session" where
  "session_new q now =
     \<lparr>sess_handle = \<lparr>cmd_queue = q, prune_signal = False, id_counter = 1\<rparr>,
      sess_engine = engine_new now, sess_canceled = {}, sess_ids = (\<lambda>_. None)\<rparr>"

inductive call_reachable ::
  "('c client_cmd, 'q) chan_ops \<Rightarrow> (sink_item, 'c) chan_ops \<Rightarrow> nat \<Rightarrow> client_config
     \<Rightarrow> ('q, 'c) session \<Rightarrow> ('q, 'c) session \<Rightarrow> bool"
  for qops sops umax config s0 where
  reach_start: "call_reachable qops sops umax config s0 s0"
| reach_step: "call_reachable qops sops umax config s0 s \<Longrightarrow> call_step qops sops umax config s effs s' \<Longrightarrow>
     call_reachable qops sops umax config s0 s'"

subsection \<open>What the engine does to the table of calls\<close>

lemma pending_deliver [simp]: "pending (deliver sops sub seq update mode e) = pending e"
  by (simp add: deliver_def Let_def split: option.splits prod.splits send_result.splits)

lemma pending_end_sub: "end_sub sops sub err e = (e', r) \<Longrightarrow> pending e' = pending e"
  by (auto simp: end_sub_def split: option.splits)

lemma hears_pending:
  assumes "drive_step sops config canceled ans (InboundStep (Some frame)) e = (x, effs, e')"
    and "pending e i = Some t"
  shows "pending e' i = Some t \<or> (\<exists>r. frame = Inr (Reply i r) \<and> effs = [Resolve t r])"
  using assms
  by (auto simp: drive_step_def handle_frame_def handle_reply_def Let_def dest!: pending_end_sub
      split: sum.splits codec_error.splits outbound.splits option.splits prod.splits if_splits)

lemma hears_pending_sub:
  assumes "drive_step sops config canceled ans (InboundStep (Some frame)) e = (x, effs, e')"
    and "pending e' i = Some t"
  shows "pending e i = Some t"
  using assms
  by (auto simp: drive_step_def handle_frame_def handle_reply_def Let_def dest!: pending_end_sub
      split: sum.splits codec_error.splits outbound.splits option.splits prod.splits if_splits)

lemma idles_pending:
  "drive_step sops config canceled ans KeepaliveStep e = (x, effs, e') \<Longrightarrow> pending e' = pending e"
  by (auto simp: drive_step_def handle_keepalive_def Let_def split: if_splits)

lemma prunes_pending:
  "drive_step sops config canceled ans PruneStep e = (x, effs, e') \<Longrightarrow>
     pending e' i = Some t \<longleftrightarrow> pending e i = Some t \<and> \<not> canceled t"
  by (auto simp: drive_step_def sweep_abandoned_def Let_def split: option.splits if_splits)

lemma takes_pending:
  assumes "drive_step sops config canceled ans (CmdStep (Some cmd)) e = (None, effs, e')"
  shows "pending e' = (case cmd of
       Call i _ _ t \<Rightarrow> if canceled t then pending e else (pending e)(i \<mapsto> t)
     | CancelCall i \<Rightarrow> (pending e)(i := None)
     | _ \<Rightarrow> pending e)"
  using assms by (auto simp: drive_step_def handle_cmd_def Let_def split: client_cmd.splits if_splits)

subsection \<open>What the callers do to the queue\<close>

locale command_queue = bounded_channel qops items is_open
  for qops :: "('c client_cmd, 'q) chan_ops" and items and is_open
begin

lemma force_send_cases:
  obtains (closed) "ch_force_send qops x q = (None, q)"
  | (evicted) y ys q' where "ch_force_send qops x q = (Some (Some y), q')" and "items q = y # ys"
      and "items q' = ys @ [x]" and "ch_capacity qops q' = ch_capacity qops q"
  | (room) q' where "ch_force_send qops x q = (Some None, q')" and "items q' = items q @ [x]"
      and "ch_capacity qops q' = ch_capacity qops q"
  | (empty) "items q = []" and "is_open q" and "chan_full (ch_capacity qops q) (length (items q))"
proof (cases "is_open q")
  case False
  then show ?thesis using force_send_closed closed by blast
next
  case op: True
  show ?thesis
  proof (cases "chan_full (ch_capacity qops q) (length (items q))")
    case False
    then show ?thesis using force_send_room [OF op] room by blast
  next
    case True
    show ?thesis
    proof (cases "items q")
      case Nil
      then show ?thesis using empty op True by blast
    next
      case (Cons y ys)
      then show ?thesis using force_send_full [OF op True] evicted by blast
    qed
  qed
qed

text \<open>A command is queued behind a suffix of what was there; a cancellation lost on the way is signalled.\<close>

lemma enqueue_spec:
  assumes "enqueue qops cmd h = (r, h')" and "ch_capacity qops (cmd_queue h) \<noteq> Some 0"
  shows "id_counter h' = id_counter h \<and> ch_capacity qops (cmd_queue h') = ch_capacity qops (cmd_queue h)
    \<and> (prune_signal h \<longrightarrow> prune_signal h')
    \<and> set (items (cmd_queue h')) \<subseteq> insert cmd (set (items (cmd_queue h)))
    \<and> (r = Inl Internal \<and> h' = h \<or> r = Inr () \<and> cmd \<in> set (items (cmd_queue h')))
    \<and> (\<forall>i. CancelCall i \<in> set (items (cmd_queue h)) \<longrightarrow>
             CancelCall i \<in> set (items (cmd_queue h')) \<or> prune_signal h')"
proof (cases rule: force_send_cases [of cmd "cmd_queue h"])
  case closed
  then show ?thesis using assms(1) by (cases h) (auto simp: enqueue_def)
next
  case (evicted y ys q')
  then show ?thesis using assms(1)
    by (cases y) (auto simp: enqueue_def request_prune_def)
next
  case (room q')
  then show ?thesis using assms(1) by (auto simp: enqueue_def)
next
  case empty
  then show ?thesis using assms(2) by (auto simp: chan_full_def split: option.splits)
qed

lemma cancel_spec:
  "id_counter (cancel_on_drop qops i h) = id_counter h
    \<and> ch_capacity qops (cmd_queue (cancel_on_drop qops i h)) = ch_capacity qops (cmd_queue h)
    \<and> (prune_signal h \<longrightarrow> prune_signal (cancel_on_drop qops i h))
    \<and> set (items (cmd_queue (cancel_on_drop qops i h))) \<subseteq> insert (CancelCall i) (set (items (cmd_queue h)))
    \<and> set (items (cmd_queue h)) \<subseteq> set (items (cmd_queue (cancel_on_drop qops i h)))
    \<and> (CancelCall i \<in> set (items (cmd_queue (cancel_on_drop qops i h))) \<or> prune_signal (cancel_on_drop qops i h))"
proof (cases rule: try_send_cases [of "cmd_queue h" "CancelCall i"])
  case (sent c')
  then show ?thesis by (auto simp: cancel_on_drop_def)
qed (auto simp: cancel_on_drop_def request_prune_def)

lemma start_call_spec:
  assumes "start_call umax qops meth args token h = (r, h')" and "ch_capacity qops (cmd_queue h) \<noteq> Some 0"
  shows "ch_capacity qops (cmd_queue h') = ch_capacity qops (cmd_queue h) \<and> (prune_signal h \<longrightarrow> prune_signal h')
    \<and> (case r of
        Inr i \<Rightarrow> i = of_nat (id_counter h) \<and> id_counter h' = Suc (id_counter h) \<and> Suc (id_counter h) \<le> umax
          \<and> set (items (cmd_queue h')) \<subseteq> insert (Call i meth args token) (set (items (cmd_queue h)))
      | Inl _ \<Rightarrow> set (items (cmd_queue h')) \<subseteq> set (items (cmd_queue h)) \<and> id_counter h \<le> id_counter h'
          \<and> (id_counter h \<le> umax \<longrightarrow> id_counter h' \<le> umax))
    \<and> (\<forall>i. CancelCall i \<in> set (items (cmd_queue h)) \<longrightarrow>
             CancelCall i \<in> set (items (cmd_queue h')) \<or> prune_signal h')"
proof (cases "id_counter h + 1 \<le> umax")
  case True
  let ?cmd = "Call (of_nat (id_counter h)) meth args token" and ?h = "h\<lparr>id_counter := id_counter h + 1\<rparr>"
  obtain x h2 where e: "enqueue qops ?cmd ?h = (x, h2)" by fastforce
  show ?thesis
    using enqueue_spec [OF e] assms True e
    by (cases x) (auto simp: start_call_def next_id_def)
next
  case False
  then show ?thesis using assms by (auto simp: start_call_def next_id_def)
qed

lemma start_other_spec:
  assumes "start_subscribe umax qops topic events h = (r, h') \<or> start_write qops topic' payload h = (w, h')"
    and "ch_capacity qops (cmd_queue h) \<noteq> Some 0" and "id_counter h \<le> umax"
  shows "ch_capacity qops (cmd_queue h') = ch_capacity qops (cmd_queue h) \<and> (prune_signal h \<longrightarrow> prune_signal h')
    \<and> id_counter h \<le> id_counter h' \<and> id_counter h' \<le> umax
    \<and> (\<forall>cmd \<in> set (items (cmd_queue h')). cmd \<in> set (items (cmd_queue h))
          \<or> (\<forall>i m p t. cmd \<noteq> Call i m p t) \<and> (\<forall>i. cmd \<noteq> CancelCall i))
    \<and> (\<forall>i. CancelCall i \<in> set (items (cmd_queue h)) \<longrightarrow>
             CancelCall i \<in> set (items (cmd_queue h')) \<or> prune_signal h')"
proof (cases "id_counter h + 1 \<le> umax")
  case True
  let ?cmd = "CmdSubscribe (of_nat (id_counter h)) topic events" and ?h = "h\<lparr>id_counter := id_counter h + 1\<rparr>"
  obtain x h2 where e: "enqueue qops ?cmd ?h = (x, h2)" by fastforce
  obtain y h3 where f: "enqueue qops (CmdWrite topic' payload) h = (y, h3)" by fastforce
  show ?thesis
    using enqueue_spec [OF e] enqueue_spec [OF f] assms True e f
    by (cases x) (auto simp: start_subscribe_def start_write_def next_id_def)
next
  case False
  obtain y h3 where f: "enqueue qops (CmdWrite topic' payload) h = (y, h3)" by fastforce
  show ?thesis using enqueue_spec [OF f] assms False f
    by (auto simp: start_subscribe_def start_write_def next_id_def)
qed

text \<open>
  The invariant: ids are allocated once, the table and the queue agree with the allocation, only
  abandoned calls are cancelled, and an abandoned entry has a cancellation or a sweep on its way.
\<close>

definition ids_inv :: "nat \<Rightarrow> ('q, 'c) session \<Rightarrow> bool" where
  "ids_inv umax s \<longleftrightarrow> id_counter (sess_handle s) \<le> umax
     \<and> (\<forall>t i. sess_ids s t = Some i \<longrightarrow> unat i < id_counter (sess_handle s))
     \<and> (\<forall>t u i. sess_ids s t = Some i \<longrightarrow> sess_ids s u = Some i \<longrightarrow> t = u)"

definition table_inv :: "('q, 'c) session \<Rightarrow> bool" where
  "table_inv s \<longleftrightarrow> ch_capacity qops (cmd_queue (sess_handle s)) \<noteq> Some 0
     \<and> (\<forall>i t. pending (sess_engine s) i = Some t \<longrightarrow> sess_ids s t = Some i)
     \<and> (\<forall>i m p t. Call i m p t \<in> set (items (cmd_queue (sess_handle s))) \<longrightarrow> sess_ids s t = Some i)
     \<and> (\<forall>i. CancelCall i \<in> set (items (cmd_queue (sess_handle s))) \<longrightarrow>
              (\<exists>t. sess_ids s t = Some i \<and> t \<in> sess_canceled s))"

definition cancel_inv :: "('q, 'c) session \<Rightarrow> bool" where
  "cancel_inv s \<longleftrightarrow> (\<forall>i t. pending (sess_engine s) i = Some t \<longrightarrow> t \<in> sess_canceled s \<longrightarrow>
     prune_signal (sess_handle s) \<or> CancelCall i \<in> set (items (cmd_queue (sess_handle s))))"

lemma ids_inv_step:
  assumes "umax < 2 ^ 64" and "ids_inv umax s" and "table_inv s" and "call_step qops sops umax config s effs s'"
  shows "ids_inv umax s'"
  using assms(4)
proof (cases rule: call_step.cases)
  case (caller_calls token meth args i h)
  have cap: "ch_capacity qops (cmd_queue (sess_handle s)) \<noteq> Some 0" using assms(3) by (simp add: table_inv_def)
  note sp = start_call_spec [OF caller_calls(5) cap]
  have u: "unat i = id_counter (sess_handle s)"
    using sp assms(1) by (auto simp: unat_of_nat intro!: mod_less)
  have "sess_ids s t \<noteq> Some i" for t
    using assms(2) u unfolding ids_inv_def by (metis less_irrefl)
  then show ?thesis using caller_calls(2) sp u assms(2) by (auto simp: ids_inv_def intro: less_SucI)
next
  case (caller_refused meth args token err h)
  have cap: "ch_capacity qops (cmd_queue (sess_handle s)) \<noteq> Some 0" using assms(3) by (simp add: table_inv_def)
  show ?thesis using caller_refused start_call_spec [OF caller_refused(3) cap] assms(2)
    by (fastforce simp: ids_inv_def)
next
  case (caller_subscribes topic events result h)
  then show ?thesis using start_other_spec [of umax topic events "sess_handle s" result h] assms(2,3)
    by (fastforce simp: ids_inv_def table_inv_def)
next
  case (caller_writes topic payload written h)
  then show ?thesis using start_other_spec [of umax _ _ "sess_handle s" _ h topic payload written] assms(2,3)
    by (fastforce simp: ids_inv_def table_inv_def)
next
  case (caller_gives_up token i)
  then show ?thesis using cancel_spec [of i "sess_handle s"] assms(2) by (simp add: ids_inv_def)
qed (use assms(2) in \<open>simp_all add: ids_inv_def\<close>)

lemma table_inv_step:
  assumes "ids_inv umax s" and "table_inv s" and "call_step qops sops umax config s effs s'"
  shows "table_inv s'"
  using assms(3)
proof (cases rule: call_step.cases)
  case (caller_calls token meth args i h)
  have cap: "ch_capacity qops (cmd_queue (sess_handle s)) \<noteq> Some 0" using assms(2) by (simp add: table_inv_def)
  note sp = start_call_spec [OF caller_calls(5) cap]
  have new: "sess_ids s token = None" using caller_calls(3) by blast
  have cancels: "CancelCall j \<in> set (items (cmd_queue (sess_handle s)))"
    if "CancelCall j \<in> set (items (cmd_queue h))" for j using sp that by auto
  show ?thesis using caller_calls(2) sp new cancels assms(2) unfolding table_inv_def
    by (auto split: if_splits) (metis option.distinct(1))+
next
  case (caller_refused meth args token err h)
  have cap: "ch_capacity qops (cmd_queue (sess_handle s)) \<noteq> Some 0" using assms(2) by (simp add: table_inv_def)
  show ?thesis using caller_refused start_call_spec [OF caller_refused(3) cap] assms(2)
    by (auto simp: table_inv_def)
next
  case (caller_subscribes topic events result h)
  then show ?thesis using start_other_spec [of umax topic events "sess_handle s" result h] assms
    by (fastforce simp: ids_inv_def table_inv_def)
next
  case (caller_writes topic payload written h)
  then show ?thesis using start_other_spec [of umax _ _ "sess_handle s" _ h topic payload written] assms
    by (fastforce simp: ids_inv_def table_inv_def)
next
  case (caller_gives_up token i)
  then show ?thesis using cancel_spec [of i "sess_handle s"] assms(2)
    by (fastforce simp: table_inv_def)
next
  case (engine_prunes ans e)
  then show ?thesis using prunes_pending [OF engine_prunes(3)] assms(2) by (auto simp: table_inv_def)
next
  case (engine_takes cmd q ans e)
  obtain ys where "items (cmd_queue (sess_handle s)) = cmd # ys" "items q = ys"
    "ch_capacity qops q = ch_capacity qops (cmd_queue (sess_handle s))"
    using engine_takes(2) try_recv_empty try_recv_item
    by (cases "items (cmd_queue (sess_handle s))") fastforce+
  then show ?thesis using engine_takes(1) takes_pending [OF engine_takes(3)] assms(2)
    by (auto simp: table_inv_def split: client_cmd.splits if_splits)
next
  case (engine_hears ans frame e)
  then show ?thesis using hears_pending_sub [OF engine_hears(2)] assms(2) by (auto simp: table_inv_def)
next
  case (engine_idles ans e)
  then show ?thesis using idles_pending [OF engine_idles(2)] assms(2) by (auto simp: table_inv_def)
qed

lemma cancel_inv_step:
  assumes "ids_inv umax s" and "table_inv s" and "cancel_inv s" and "call_step qops sops umax config s effs s'"
  shows "cancel_inv s'"
  using assms(4)
proof (cases rule: call_step.cases)
  case (caller_calls token meth args i h)
  have cap: "ch_capacity qops (cmd_queue (sess_handle s)) \<noteq> Some 0" using assms(2) by (simp add: table_inv_def)
  show ?thesis using caller_calls(2) start_call_spec [OF caller_calls(5) cap] assms(3)
    unfolding cancel_inv_def by auto
next
  case (caller_refused meth args token err h)
  have cap: "ch_capacity qops (cmd_queue (sess_handle s)) \<noteq> Some 0" using assms(2) by (simp add: table_inv_def)
  show ?thesis using caller_refused(2) start_call_spec [OF caller_refused(3) cap] assms(3)
    unfolding cancel_inv_def by auto
next
  case (caller_subscribes topic events result h)
  have "ch_capacity qops (cmd_queue (sess_handle s)) \<noteq> Some 0" "id_counter (sess_handle s) \<le> umax"
    using assms(1,2) by (simp_all add: ids_inv_def table_inv_def)
  note sp = start_other_spec [of umax topic events "sess_handle s" result h, OF disjI1, OF caller_subscribes(3) this]
  show ?thesis using caller_subscribes(2) sp assms(3) unfolding cancel_inv_def by simp blast
next
  case (caller_writes topic payload written h)
  have "ch_capacity qops (cmd_queue (sess_handle s)) \<noteq> Some 0" "id_counter (sess_handle s) \<le> umax"
    using assms(1,2) by (simp_all add: ids_inv_def table_inv_def)
  note sp = start_other_spec [of umax _ _ "sess_handle s" _ h topic payload written, OF disjI2, OF caller_writes(3) this]
  show ?thesis using caller_writes(2) sp assms(3) unfolding cancel_inv_def by simp blast
next
  case (caller_gives_up token i)
  have "sess_ids s t = Some j" if "pending (sess_engine s) j = Some t" for j t
    using assms(2) that by (simp add: table_inv_def)
  then show ?thesis using caller_gives_up cancel_spec [of i "sess_handle s"] assms(3)
    unfolding cancel_inv_def by fastforce
next
  case (engine_prunes ans e)
  then show ?thesis using prunes_pending [OF engine_prunes(3)] by (simp add: cancel_inv_def)
next
  case (engine_takes cmd q ans e)
  obtain ys where "items (cmd_queue (sess_handle s)) = cmd # ys" "items q = ys"
    using engine_takes(2) try_recv_empty try_recv_item
    by (cases "items (cmd_queue (sess_handle s))") fastforce+
  then show ?thesis using engine_takes(1) takes_pending [OF engine_takes(3)] assms(3)
    by (auto simp: cancel_inv_def split: client_cmd.splits if_splits)
next
  case (engine_hears ans frame e)
  then show ?thesis using hears_pending_sub [OF engine_hears(2)] assms(3) by (auto simp: cancel_inv_def)
next
  case (engine_idles ans e)
  then show ?thesis using idles_pending [OF engine_idles(2)] assms(3) by (auto simp: cancel_inv_def)
qed

lemma reachable_inv:
  assumes "items q = []" and "ch_capacity qops q \<noteq> Some 0"
    and "1 \<le> umax" and "umax < 2 ^ 64" and "call_reachable qops sops umax config (session_new q now) s"
  shows "ids_inv umax s \<and> table_inv s \<and> cancel_inv s"
  using assms(5)
proof (induction rule: call_reachable.induct)
  case reach_start
  show ?case using assms(1-4) by (simp add: session_new_def engine_new_def ids_inv_def table_inv_def cancel_inv_def)
next
  case (reach_step s effs s')
  then show ?case using ids_inv_step [OF assms(4)] table_inv_step cancel_inv_step by blast
qed

lemma reclaimed:
  assumes "items q = []" and "ch_capacity qops q \<noteq> Some 0"
    and "1 \<le> umax" and "umax < 2 ^ 64" and "call_reachable qops sops umax config (session_new q now) s"
    and "items (cmd_queue (sess_handle s)) = []" and "\<not> prune_signal (sess_handle s)"
    and "pending (sess_engine s) i = Some t"
  shows "sess_ids s t = Some i \<and> t \<notin> sess_canceled s"
  using reachable_inv [OF assms(1-5)] assms(6-8) unfolding table_inv_def cancel_inv_def
  by (metis list.set(1) empty_iff)

lemma step_resolves:
  assumes "call_step qops sops umax config s effs s'" and "Resolve t r \<in> set effs"
  shows "\<exists>i. pending (sess_engine s) i = Some t \<and> pending (sess_engine s') i = None
    \<and> (\<forall>j. j \<noteq> i \<longrightarrow> pending (sess_engine s') j = pending (sess_engine s) j)"
  using assms
  by (cases rule: call_step.cases)
    (auto simp: drive_step_def handle_frame_def handle_reply_def handle_cmd_def handle_keepalive_def Let_def
      dest!: pending_end_sub split: sum.splits codec_error.splits outbound.splits option.splits prod.splits
        if_splits client_cmd.splits)

lemma awaited:
  assumes "items q = []" and "ch_capacity qops q \<noteq> Some 0"
    and "1 \<le> umax" and "umax < 2 ^ 64" and "call_reachable qops sops umax config (session_new q now) s"
    and "call_step qops sops umax config s effs s'"
    and "pending (sess_engine s) i = Some t" and "t \<notin> sess_canceled s"
  shows "pending (sess_engine s') i = Some t \<or> (\<exists>r. effs = [Resolve t r])"
proof -
  have inv: "table_inv s" "ids_inv umax s" using reachable_inv [OF assms(1-5)] by blast+
  show ?thesis using assms(6)
  proof (cases rule: call_step.cases)
    case (engine_prunes ans e)
    then show ?thesis using prunes_pending [OF engine_prunes(3)] assms(7,8) by simp
  next
    case (engine_takes cmd q ans e)
    have hd: "cmd \<in> set (items (cmd_queue (sess_handle s)))"
      using engine_takes(2) try_recv_empty try_recv_item
      by (cases "items (cmd_queue (sess_handle s))") fastforce+
    have own: "sess_ids s t = Some i" using inv assms(7) by (simp add: table_inv_def)
    have "cmd \<noteq> CancelCall i"
      using hd own inv assms(8) unfolding table_inv_def ids_inv_def by metis
    moreover have "u = t" if "cmd = Call i m p u" for m p u
      using hd own inv that unfolding table_inv_def ids_inv_def by metis
    ultimately show ?thesis using engine_takes(1) takes_pending [OF engine_takes(3)] assms(7)
      by (auto split: client_cmd.splits)
  next
    case (engine_hears ans frame e)
    then show ?thesis using hears_pending [OF engine_hears(2) assms(7)] by auto
  next
    case (engine_idles ans e)
    then show ?thesis using idles_pending [OF engine_idles(2)] assms(7) by simp
  qed (use assms(7) in simp_all)
qed

lemma resolved:
  assumes "items q = []" and "ch_capacity qops q \<noteq> Some 0"
    and "1 \<le> umax" and "umax < 2 ^ 64" and "call_reachable qops sops umax config (session_new q now) s"
    and "call_step qops sops umax config s effs s'" and "Resolve t r \<in> set effs"
  shows "(\<exists>i. sess_ids s t = Some i \<and> pending (sess_engine s) i = Some t)
    \<and> (\<forall>j. pending (sess_engine s') j \<noteq> Some t)"
proof -
  have inv: "table_inv s" using reachable_inv [OF assms(1-5)] by blast
  obtain i where i: "pending (sess_engine s) i = Some t" "pending (sess_engine s') i = None"
    "\<forall>j. j \<noteq> i \<longrightarrow> pending (sess_engine s') j = pending (sess_engine s) j"
    using step_resolves [OF assms(6,7)] by blast
  have "pending (sess_engine s') j \<noteq> Some t" for j
    using i inv unfolding table_inv_def by (metis option.distinct(1) option.inject)
  then show ?thesis using i inv unfolding table_inv_def by blast
qed

end

interpretation list_cmds: command_queue "list_chan_ops :: (sink_item list_chan client_cmd, sink_item list_chan client_cmd list_chan) chan_ops" lc_items lc_open
  by (rule command_queue.intro) (rule list_channel.bounded_channel_axioms)

subsection \<open>What a caller can rely on\<close>

definition demo_queue :: "sink_item list_chan client_cmd list_chan" where
  "demo_queue = \<lparr>lc_items = [], lc_capacity = Some 4, lc_open = True\<rparr>"

definition demo_session :: "(sink_item list_chan client_cmd list_chan, sink_item list_chan) session" where
  "demo_session =
     \<lparr>sess_handle = \<lparr>cmd_queue = demo_queue, prune_signal = False, id_counter = 2\<rparr>,
      sess_engine = (engine_new 0)\<lparr>pending := [1 \<mapsto> 0]\<rparr>, sess_canceled = {}, sess_ids = [0 \<mapsto> 1]\<rparr>"

lemma demo_reached: "call_reachable list_chan_ops list_chan_ops 10 default_config (session_new demo_queue 0) demo_session"
proof -
  let ?q = "\<lparr>lc_items = [Call 1 ''get'' [] 0], lc_capacity = Some 4, lc_open = True\<rparr>"
  let ?s = "\<lparr>sess_handle = \<lparr>cmd_queue = ?q, prune_signal = False, id_counter = 2\<rparr>,
      sess_engine = engine_new 0 :: sink_item list_chan engine, sess_canceled = {}, sess_ids = [0 \<mapsto> 1]\<rparr>"
  have "call_step list_chan_ops list_chan_ops 10 default_config (session_new demo_queue 0) [] ?s"
    using call_step.caller_calls [of 0 "session_new demo_queue 0" 10 list_chan_ops "''get''" "[]" 1
        "sess_handle ?s" list_chan_ops default_config]
    by (simp add: session_new_def demo_queue_def start_call_def next_id_def enqueue_def list_chan_ops_def
        chan_full_def numeral_2_eq_2)
  moreover have "call_step list_chan_ops list_chan_ops 10 default_config ?s [SendFrame (Request 1 ''get'' [])] demo_session"
    using call_step.engine_takes [of list_chan_ops ?s "Call 1 ''get'' [] 0" demo_queue list_chan_ops default_config
        "\<lparr>encode_ok = True, send_ok = True, now_before = 0, now_after = 0\<rparr>"
        "[SendFrame (Request 1 ''get'' [])]" "(engine_new 0)\<lparr>pending := [1 \<mapsto> 0]\<rparr>" 10]
    by (simp add: demo_session_def demo_queue_def drive_step_def handle_cmd_def engine_new_def list_chan_ops_def)
  ultimately show ?thesis by (rule reach_step [OF reach_step [OF reach_start]])
qed

lemma demo_replied:
  "call_step list_chan_ops list_chan_ops 10 default_config demo_session [Resolve 0 (Inr [7])]
     (demo_session\<lparr>sess_engine := engine_new 5\<rparr>)"
  using call_step.engine_hears [of list_chan_ops default_config demo_session
      "\<lparr>encode_ok = True, send_ok = True, now_before = 5, now_after = 5\<rparr>" "Inr (Reply 1 (Inr [7]))"
      "[Resolve 0 (Inr [7])]" "engine_new 5" list_chan_ops 10]
  by (simp add: demo_session_def drive_step_def handle_frame_def handle_reply_def engine_new_def)

text \<open>
  C12. No abandoned call leaks: however calls, abandonments, evictions and engine steps interleave,
  once the command queue is drained and no sweep is requested, every entry of the engine's table is
  a call whose caller still waits, under the id that call was given.
\<close>

theorem abandoned_calls_reclaimed:
  assumes "command_queue qops items is_open" and "items q = []" and "ch_capacity qops q \<noteq> Some 0"
    and "1 \<le> umax" and "umax < 2 ^ 64" and "call_reachable qops sops umax config (session_new q now) s"
    and "items (cmd_queue (sess_handle s)) = []" and "\<not> prune_signal (sess_handle s)"
    and "pending (sess_engine s) i = Some t"
  shows "sess_ids s t = Some i \<and> t \<notin> sess_canceled s"
  using command_queue.reclaimed [OF assms] .

theorem abandoned_calls_reclaimed_witness:
  "sess_ids demo_session 0 = Some 1 \<and> 0 \<notin> sess_canceled demo_session"
  by (rule abandoned_calls_reclaimed [OF list_cmds.command_queue_axioms _ _ _ _ demo_reached])
    (simp_all add: demo_session_def demo_queue_def list_chan_ops_def)

text \<open>
  A call whose caller still waits stays in the table through every step of callers and engine,
  whatever was evicted or cancelled, until the step that resolves it.
\<close>

theorem awaited_call_kept:
  assumes "command_queue qops items is_open" and "items q = []" and "ch_capacity qops q \<noteq> Some 0"
    and "1 \<le> umax" and "umax < 2 ^ 64" and "call_reachable qops sops umax config (session_new q now) s"
    and "call_step qops sops umax config s effs s'"
    and "pending (sess_engine s) i = Some t" and "t \<notin> sess_canceled s"
  shows "pending (sess_engine s') i = Some t \<or> (\<exists>r. effs = [Resolve t r])"
  using command_queue.awaited [OF assms] .

theorem awaited_call_kept_witness:
  "pending (sess_engine (demo_session\<lparr>sess_engine := engine_new 5\<rparr>)) 1 = Some 0
     \<or> (\<exists>r. [Resolve 0 (Inr [7])] = ([Resolve 0 r] :: sink_item list_chan effect list))"
  by (rule awaited_call_kept [OF list_cmds.command_queue_axioms _ _ _ _ demo_reached demo_replied])
    (simp_all add: demo_session_def demo_queue_def list_chan_ops_def)

text \<open>
  A call is resolved at most once: a step resolves only a call waiting in the table under its
  own id, and after it the call is nowhere in the table.
\<close>

theorem call_resolved_once:
  assumes "command_queue qops items is_open" and "items q = []" and "ch_capacity qops q \<noteq> Some 0"
    and "1 \<le> umax" and "umax < 2 ^ 64" and "call_reachable qops sops umax config (session_new q now) s"
    and "call_step qops sops umax config s effs s'" and "Resolve t r \<in> set effs"
  shows "(\<exists>i. sess_ids s t = Some i \<and> pending (sess_engine s) i = Some t)
    \<and> (\<forall>j. pending (sess_engine s') j \<noteq> Some t)"
  using command_queue.resolved [OF assms] .

theorem call_resolved_once_witness:
  "(\<exists>i. sess_ids demo_session 0 = Some i \<and> pending (sess_engine demo_session) i = Some 0)
    \<and> (\<forall>j. pending (sess_engine (demo_session\<lparr>sess_engine := engine_new 5\<rparr>)) j \<noteq> Some 0)"
  by (rule call_resolved_once [OF list_cmds.command_queue_axioms _ _ _ _ demo_reached demo_replied])
    (simp_all add: demo_session_def demo_queue_def list_chan_ops_def)

end
