(* ===== verification/Session_Server.thy ===== *)
theory Session_Server
  imports Session_Messages Channels Framed_Connection "HOL-Library.Sublist"
begin

text \<open>
  \<open>aimdb-core/src/session/server.rs\<close>: the engine of one accepted connection (\<open>run_session\<close>),
  the pumps of its subscriptions, and the accept loop (\<open>serve\<close>).  One iteration is a function
  of the step the select chose.  The dispatch behind a session, the codec, the link and the event
  funnel are parameters; frames that left are kept in order.
\<close>

record session_config =
  limits :: session_limits
  reads_hello :: bool
  acks_subscribe :: bool

definition event_buffer :: nat where
  "event_buffer = 256"

record sub_event =
  ev_sub :: string
  ev_seq :: u64
  ev_topic :: "string option"
  ev_ts :: stamp
  ev_data :: bytes

text \<open>A subscription's pump; it is cancelled once its entry in the cancel table is gone.\<close>

record pump =
  pump_sub :: string
  pump_generation :: nat
  pump_seq :: u64

text \<open>
  The dispatch: what a session answers, and the state \<open>'s\<close> it works on: what all sessions share and
  what is its own.  \<open>open\<close> replaces the session's own part by a fresh one.
\<close>

record 's dispatch =
  sess_open :: "'s \<Rightarrow> 's"
  sess_starts :: "string \<Rightarrow> 's \<Rightarrow> bool"
  sess_call :: "string \<Rightarrow> bytes \<Rightarrow> 's \<Rightarrow> (rpc_error + bytes) \<times> 's"
  sess_subscribe :: "string \<Rightarrow> 's \<Rightarrow> (rpc_error + unit) \<times> 's"
  sess_snapshots :: "string \<Rightarrow> 's \<Rightarrow> (string \<times> bytes \<times> stamp) list \<times> 's"
  sess_write :: "string \<Rightarrow> bytes \<Rightarrow> 's \<Rightarrow> (rpc_error + unit) \<times> 's"

text \<open>Which messages the codec encodes, and whether the \<open>n\<close>th send succeeds.\<close>

record wire =
  encodes :: "outbound \<Rightarrow> bool"
  link_up :: "nat \<Rightarrow> bool"

record ('s, 'q) server =
  srv_session :: 's
  srv_pumps :: "pump list"
  srv_cancels :: "string \<rightharpoonup> nat"
  srv_live :: nat
  srv_next_generation :: nat
  srv_greeted :: bool
  srv_funnel :: 'q
  srv_sends :: nat
  srv_sent :: "outbound list"

subsection \<open>Sending\<close>

datatype put_result = Unencodable | Delivered | LinkDown

definition put :: "wire \<Rightarrow> outbound \<Rightarrow> ('s, 'q) server \<Rightarrow> put_result \<times> ('s, 'q) server" where
  "put wr msg st =
     (if \<not> encodes wr msg then (Unencodable, st)
      else if link_up wr (srv_sends st)
      then (Delivered, st\<lparr>srv_sends := Suc (srv_sends st), srv_sent := srv_sent st @ [msg]\<rparr>)
      else (LinkDown, st\<lparr>srv_sends := Suc (srv_sends st)\<rparr>))"

definition event_message :: "sub_event \<Rightarrow> outbound" where
  "event_message ev = Event (ev_sub ev) (ev_seq ev) (ev_topic ev) (ev_ts ev) (ev_data ev)"

definition send_event :: "wire \<Rightarrow> sub_event \<Rightarrow> ('s, 'q) server \<Rightarrow> bool \<times> ('s, 'q) server" where
  "send_event wr ev st =
     (case put wr (event_message ev) st of (r, st') \<Rightarrow> (r \<noteq> LinkDown, st'))"

definition send_reply_err :: "wire \<Rightarrow> u64 \<Rightarrow> rpc_error \<Rightarrow> ('s, 'q) server \<Rightarrow> ('s, 'q) server" where
  "send_reply_err wr i err st = snd (put wr (Reply i (Inl err)) st)"

subsection \<open>The cancel table\<close>

text \<open>\<open>srv_live\<close> is the table's \<open>len()\<close>.\<close>

definition cancels_insert :: "string \<Rightarrow> nat \<Rightarrow> ('s, 'q) server \<Rightarrow> ('s, 'q) server" where
  "cancels_insert sub g st =
     st\<lparr>srv_cancels := (srv_cancels st)(sub \<mapsto> g),
        srv_live := (if srv_cancels st sub = None then Suc (srv_live st) else srv_live st)\<rparr>"

definition cancels_remove :: "string \<Rightarrow> ('s, 'q) server \<Rightarrow> ('s, 'q) server" where
  "cancels_remove sub st =
     st\<lparr>srv_cancels := (srv_cancels st)(sub := None),
        srv_live := (if srv_cancels st sub = None then srv_live st else srv_live st - 1)\<rparr>"

subsection \<open>Pumps\<close>

definition pump_live :: "('s, 'q) server \<Rightarrow> pump \<Rightarrow> bool" where
  "pump_live st p \<longleftrightarrow> srv_cancels st (pump_sub p) = Some (pump_generation p)"

definition pump_event :: "pump \<Rightarrow> sub_update \<Rightarrow> sub_event" where
  "pump_event p u =
     \<lparr>ev_sub = pump_sub p, ev_seq = pump_seq p + (su_skipped u + 1), ev_topic = su_topic u,
      ev_ts = su_ts u, ev_data = su_data u\<rparr>"

text \<open>One update through \<open>pump_subscription\<close>: whether the pump goes on, and the pump and funnel after.\<close>

definition pump_update ::
  "(sub_event, 'q) chan_ops \<Rightarrow> sub_update \<Rightarrow> pump \<times> 'q \<Rightarrow> bool \<times> pump \<times> 'q" where
  "pump_update fops u st =
     (case st of (p, q) \<Rightarrow>
        (case ch_try_send fops (pump_event p u) q of
           (r, q') \<Rightarrow> (r \<noteq> SendClosed, p\<lparr>pump_seq := pump_seq p + (su_skipped u + 1)\<rparr>, q')))"

subsection \<open>Subscribing\<close>

text \<open>The late-join burst: whether the link failed, and the last sequence number used.\<close>

fun send_snapshots ::
  "wire \<Rightarrow> string \<Rightarrow> nat \<Rightarrow> nat \<Rightarrow> u64 \<Rightarrow> (string \<times> bytes \<times> stamp) list \<Rightarrow> ('s, 'q) server
     \<Rightarrow> bool \<times> u64 \<times> ('s, 'q) server" where
  "send_snapshots wr sub burst i seq [] st = (False, seq, st)"
| "send_snapshots wr sub burst i seq ((topic, data, ts) # snaps) st =
     (let seq' = seq + 1 in
      case put wr (Snapshot sub seq' (i + 1 = burst) topic ts data) st of
        (LinkDown, st') \<Rightarrow> (True, seq', st')
      | (_, st') \<Rightarrow> send_snapshots wr sub burst (i + 1) seq' snaps st')"

definition start_pump :: "string \<Rightarrow> u64 \<Rightarrow> ('s, 'q) server \<Rightarrow> ('s, 'q) server" where
  "start_pump sub seq st =
     (let g = srv_next_generation st in
      cancels_insert sub g
        (st\<lparr>srv_next_generation := Suc g,
            srv_pumps := srv_pumps st @ [\<lparr>pump_sub = sub, pump_generation = g, pump_seq = seq\<rparr>]\<rparr>))"

text \<open>A handler yields whether the session goes on.\<close>

definition handle_subscribe ::
  "session_config \<Rightarrow> 's dispatch \<Rightarrow> wire \<Rightarrow> u64 \<Rightarrow> string \<Rightarrow> ('s, 'q) server \<Rightarrow> bool \<times> ('s, 'q) server" where
  "handle_subscribe config disp wr i topic st =
     (let sub = id_string i in
      if srv_cancels st sub \<noteq> None then (True, send_reply_err wr i Denied st)
      else if max_subs_per_connection (limits config) \<le> srv_live st
      then (True, send_reply_err wr i Denied st)
      else
        (case sess_subscribe disp topic (srv_session st) of
           (Inl err, s) \<Rightarrow> (True, send_reply_err wr i err (st\<lparr>srv_session := s\<rparr>))
         | (Inr _, s) \<Rightarrow>
             (case (if acks_subscribe config then put wr (Subscribed sub) (st\<lparr>srv_session := s\<rparr>)
                    else (Delivered, st\<lparr>srv_session := s\<rparr>)) of
                (LinkDown, st1) \<Rightarrow> (False, st1)
              | (_, st1) \<Rightarrow>
                  (case sess_snapshots disp topic (srv_session st1) of
                     (snaps, s') \<Rightarrow>
                       (case send_snapshots wr sub (length snaps) 0 0 snaps (st1\<lparr>srv_session := s'\<rparr>) of
                          (True, _, st2) \<Rightarrow> (False, st2)
                        | (False, seq, st2) \<Rightarrow> (True, start_pump sub seq st2))))))"

subsection \<open>Requests\<close>

definition handshake_reset :: "'s dispatch \<Rightarrow> 'q \<Rightarrow> ('s, 'q) server \<Rightarrow> ('s, 'q) server" where
  "handshake_reset disp funnel st =
     st\<lparr>srv_pumps := [], srv_cancels := (\<lambda>_. None), srv_live := 0, srv_funnel := funnel,
        srv_session := sess_open disp (srv_session st)\<rparr>"

definition handle_request ::
  "'s dispatch \<Rightarrow> wire \<Rightarrow> 'q \<Rightarrow> u64 \<Rightarrow> string \<Rightarrow> bytes \<Rightarrow> ('s, 'q) server \<Rightarrow> bool \<times> ('s, 'q) server" where
  "handle_request disp wr funnel i method params st =
     (let st1 = (if sess_starts disp method (srv_session st)
                 then (if srv_greeted st then handshake_reset disp funnel st else st)\<lparr>srv_greeted := True\<rparr>
                 else st)
      in case sess_call disp method params (srv_session st1) of
           (result, s) \<Rightarrow>
             (case put wr (Reply i result) (st1\<lparr>srv_session := s\<rparr>) of (r, st2) \<Rightarrow> (r \<noteq> LinkDown, st2)))"

definition handle_inbound ::
  "session_config \<Rightarrow> 's dispatch \<Rightarrow> wire \<Rightarrow> 'q \<Rightarrow> codec_error + inbound \<Rightarrow> ('s, 'q) server
     \<Rightarrow> bool \<times> ('s, 'q) server" where
  "handle_inbound config disp wr funnel msg st =
     (case msg of
        Inl _ \<Rightarrow> (True, st)
      | Inr (Request i method params) \<Rightarrow> handle_request disp wr funnel i method params st
      | Inr (Subscribe i topic) \<Rightarrow> handle_subscribe config disp wr i topic st
      | Inr (Unsubscribe sub) \<Rightarrow> (True, cancels_remove sub st)
      | Inr (Write topic payload) \<Rightarrow>
          (True, st\<lparr>srv_session := snd (sess_write disp topic payload (srv_session st))\<rparr>)
      | Inr Ping \<Rightarrow> (case put wr Pong st of (r, st') \<Rightarrow> (r \<noteq> LinkDown, st')))"

subsection \<open>A pump that ended\<close>

text \<open>Sending what the funnel still holds; \<open>n\<close> bounds the items (its length).\<close>

fun flush_funnel ::
  "(sub_event, 'q) chan_ops \<Rightarrow> wire \<Rightarrow> nat \<Rightarrow> ('s, 'q) server \<Rightarrow> bool \<times> ('s, 'q) server" where
  "flush_funnel fops wr 0 st = (True, st)"
| "flush_funnel fops wr (Suc n) st =
     (case ch_try_recv fops (srv_funnel st) of
        (None, q) \<Rightarrow> (True, st\<lparr>srv_funnel := q\<rparr>)
      | (Some ev, q) \<Rightarrow>
          (case send_event wr ev (st\<lparr>srv_funnel := q\<rparr>) of
             (False, st') \<Rightarrow> (False, st')
           | (True, st') \<Rightarrow> flush_funnel fops wr n st'))"

text \<open>\<open>str::parse::<u64>\<close>.\<close>

definition digit_value :: "char \<Rightarrow> nat option" where
  "digit_value c = (let n = (of_char c :: nat) in if 48 \<le> n \<and> n \<le> 57 then Some (n - 48) else None)"

fun parse_digits :: "nat \<Rightarrow> string \<Rightarrow> nat option" where
  "parse_digits n [] = Some n"
| "parse_digits n (c # cs) =
     (case digit_value c of
        None \<Rightarrow> None
      | Some d \<Rightarrow> if n * 10 + d < 2 ^ 64 then parse_digits (n * 10 + d) cs else None)"

definition parse_u64 :: "string \<Rightarrow> u64 option" where
  "parse_u64 s =
     (let digits = (case s of c # cs \<Rightarrow> if c = CHR ''+'' then cs else s | [] \<Rightarrow> s) in
      if digits = [] then None else map_option of_nat (parse_digits 0 digits))"

definition handle_drained ::
  "(sub_event, 'q) chan_ops \<Rightarrow> wire \<Rightarrow> pump \<Rightarrow> bool \<Rightarrow> ('s, 'q) server \<Rightarrow> bool \<times> ('s, 'q) server" where
  "handle_drained fops wr p exhausted st =
     (if srv_cancels st (pump_sub p) \<noteq> Some (pump_generation p) then (True, st)
      else
        (let st1 = cancels_remove (pump_sub p) st in
         if \<not> exhausted then (True, st1)
         else
           (case flush_funnel fops wr (ch_len fops (srv_funnel st1)) st1 of
              (False, st2) \<Rightarrow> (False, st2)
            | (True, st2) \<Rightarrow>
                (True, case parse_u64 (pump_sub p) of
                         Some i \<Rightarrow> send_reply_err wr i Internal st2
                       | None \<Rightarrow> st2))))"

subsection \<open>One iteration of the engine\<close>

text \<open>
  \<open>Pumped n u\<close>: the reap arm polled the \<open>n\<close>th pump and its stream yielded \<open>u\<close>.  A pump whose
  cancel resolved ends before it looks at its stream; a closed funnel ends it as well.
\<close>

datatype server_step =
    FrameStep "codec_error + inbound"
  | ClosedStep
  | EventStep
  | Pumped nat sub_update
  | StreamEnded nat

definition drop_pump :: "nat \<Rightarrow> ('s, 'q) server \<Rightarrow> ('s, 'q) server" where
  "drop_pump n st = st\<lparr>srv_pumps := take n (srv_pumps st) @ drop (Suc n) (srv_pumps st)\<rparr>"

definition poll_pump ::
  "(sub_event, 'q) chan_ops \<Rightarrow> wire \<Rightarrow> nat \<Rightarrow> sub_update option \<Rightarrow> ('s, 'q) server \<Rightarrow> bool \<times> ('s, 'q) server" where
  "poll_pump fops wr n update st =
     (let p = srv_pumps st ! n in
      if length (srv_pumps st) \<le> n then (True, st)
      else if \<not> pump_live st p then handle_drained fops wr p False (drop_pump n st)
      else
        (case update of
           None \<Rightarrow> handle_drained fops wr p True (drop_pump n st)
         | Some u \<Rightarrow>
             (case pump_update fops u (p, srv_funnel st) of
                (True, p', q) \<Rightarrow> (True, st\<lparr>srv_pumps := (srv_pumps st)[n := p'], srv_funnel := q\<rparr>)
              | (False, p', q) \<Rightarrow> handle_drained fops wr p' False (drop_pump n (st\<lparr>srv_funnel := q\<rparr>)))))"

definition session_step ::
  "session_config \<Rightarrow> 's dispatch \<Rightarrow> (sub_event, 'q) chan_ops \<Rightarrow> wire \<Rightarrow> 'q \<Rightarrow> server_step
     \<Rightarrow> ('s, 'q) server \<Rightarrow> bool \<times> ('s, 'q) server" where
  "session_step config disp fops wr funnel step st =
     (case step of
        ClosedStep \<Rightarrow> (False, st)
      | FrameStep msg \<Rightarrow> handle_inbound config disp wr funnel msg st
      | EventStep \<Rightarrow>
          (case ch_try_recv fops (srv_funnel st) of
             (None, q) \<Rightarrow> (True, st\<lparr>srv_funnel := q\<rparr>)
           | (Some ev, q) \<Rightarrow> send_event wr ev (st\<lparr>srv_funnel := q\<rparr>))
      | Pumped n u \<Rightarrow> poll_pump fops wr n (Some u) st
      | StreamEnded n \<Rightarrow> poll_pump fops wr n None st)"

definition session_start :: "'s dispatch \<Rightarrow> 's \<Rightarrow> 'q \<Rightarrow> ('s, 'q) server" where
  "session_start disp shared funnel =
     \<lparr>srv_session = sess_open disp shared, srv_pumps = [], srv_cancels = (\<lambda>_. None), srv_live = 0,
      srv_next_generation = 0, srv_greeted = False, srv_funnel = funnel, srv_sends = 0, srv_sent = []\<rparr>"

text \<open>
  \<open>run_session\<close>: reading the Hello where configured and authenticating come first (the answer is
  the parameter \<open>authentic\<close>); the loop ends at the first step that says so.
\<close>

fun session_loop ::
  "session_config \<Rightarrow> 's dispatch \<Rightarrow> (sub_event, 'q) chan_ops \<Rightarrow> wire \<Rightarrow> 'q \<Rightarrow> server_step list
     \<Rightarrow> ('s, 'q) server \<Rightarrow> bool \<times> ('s, 'q) server" where
  "session_loop config disp fops wr funnel [] st = (True, st)"
| "session_loop config disp fops wr funnel (step # steps) st =
     (case session_step config disp fops wr funnel step st of
        (False, st') \<Rightarrow> (False, st')
      | (True, st') \<Rightarrow> session_loop config disp fops wr funnel steps st')"

definition run_session ::
  "session_config \<Rightarrow> 's dispatch \<Rightarrow> 's \<Rightarrow> (sub_event, 'q) chan_ops \<Rightarrow> wire \<Rightarrow> 'q \<Rightarrow> bytes option
     \<Rightarrow> (bytes option \<Rightarrow> bool) \<Rightarrow> server_step list \<Rightarrow> ('s, 'q) server option" where
  "run_session config disp shared fops wr funnel hello authentic steps =
     (if reads_hello config \<and> hello = None then None
      else if \<not> authentic (if reads_hello config then hello else None) then None
      else Some (snd (session_loop config disp fops wr funnel steps (session_start disp shared funnel))))"

subsection \<open>What a dispatch keeps, the engine keeps\<close>

text \<open>
  The contract between the engine and the dispatch behind it: an invariant of the dispatch's state that
  each of its operations preserves.  The engine touches that state through these operations only.
\<close>

locale session_contract =
  fixes disp :: "'s dispatch" and keeps :: "'s \<Rightarrow> bool"
  assumes open_keeps: "keeps s \<Longrightarrow> keeps (sess_open disp s)"
    and call_keeps: "keeps s \<Longrightarrow> keeps (snd (sess_call disp m p s))"
    and subscribe_keeps: "keeps s \<Longrightarrow> keeps (snd (sess_subscribe disp topic s))"
    and snapshots_keeps: "keeps s \<Longrightarrow> keeps (snd (sess_snapshots disp topic s))"
    and write_keeps: "keeps s \<Longrightarrow> keeps (snd (sess_write disp topic p s))"
begin

lemma put_session [simp]: "put wr msg st = (r, st') \<Longrightarrow> srv_session st' = srv_session st"
  by (auto simp: put_def split: if_splits)

lemma snapshots_session [simp]:
  "send_snapshots wr sub burst i sq snaps st = (b, sq', st') \<Longrightarrow> srv_session st' = srv_session st"
proof (induction snaps arbitrary: i sq st)
  case (Cons x snaps)
  obtain topic data ts where x: "x = (topic, data, ts)" by (metis prod_cases3)
  obtain r st1 where p: "put wr (Snapshot sub (sq + 1) (i + 1 = burst) topic ts data) st = (r, st1)" by fastforce
  show ?case
    using Cons.prems Cons.IH [of "i + 1" "sq + 1" st1] put_session [OF p] x p
    by (cases r) (auto simp: Let_def)
qed simp

lemma reply_err_session [simp]: "srv_session (send_reply_err wr i e st) = srv_session st"
  by (cases "put wr (Reply i (Inl e)) st") (simp add: send_reply_err_def)

lemma start_pump_session [simp]: "srv_session (start_pump sub sq st) = srv_session st"
  by (simp add: start_pump_def cancels_insert_def Let_def)

lemma cancels_remove_session [simp]: "srv_session (cancels_remove sub st) = srv_session st"
  by (simp add: cancels_remove_def)

lemma handle_subscribe_keeps:
  assumes "keeps (srv_session st)"
  shows "keeps (srv_session (snd (handle_subscribe config disp wr i topic st)))"
proof -
  obtain res s where sub: "sess_subscribe disp topic (srv_session st) = (res, s)" by fastforce
  have s: "keeps s" using subscribe_keeps [OF assms, of topic] sub by simp
  let ?ack = "if acks_subscribe config then put wr (Subscribed (id_string i)) (st\<lparr>srv_session := s\<rparr>)
     else (Delivered, st\<lparr>srv_session := s\<rparr>)"
  obtain r st1 where ack: "?ack = (r, st1)" by fastforce
  obtain snaps s' where sn: "sess_snapshots disp topic (srv_session st1) = (snaps, s')" by fastforce
  obtain b sq st2 where send: "send_snapshots wr (id_string i) (length snaps) 0 0 snaps (st1\<lparr>srv_session := s'\<rparr>) = (b, sq, st2)"
    by (metis prod_cases3)
  have st1: "srv_session st1 = s"
    using ack put_session [of wr "Subscribed (id_string i)" "st\<lparr>srv_session := s\<rparr>" r st1] by (auto split: if_splits)
  moreover have sn': "sess_snapshots disp topic s = (snaps, s')" using sn st1 by simp
  moreover from sn' have "keeps s'" using snapshots_keeps [OF s, of topic] by simp
  moreover have "srv_session st2 = s'" using snapshots_session [OF send] by simp
  ultimately show ?thesis
    using assms s
    by (cases res; cases r; cases b) (simp_all add: handle_subscribe_def Let_def sub ack send del: send_snapshots.simps)
qed

lemma handle_request_keeps:
  assumes "keeps (srv_session st)"
  shows "keeps (srv_session (snd (handle_request disp wr funnel i m p st)))"
proof -
  let ?st1 = "if sess_starts disp m (srv_session st)
     then (if srv_greeted st then handshake_reset disp funnel st else st)\<lparr>srv_greeted := True\<rparr> else st"
  obtain result s where c: "sess_call disp m p (srv_session ?st1) = (result, s)" by fastforce
  obtain r st2 where p: "put wr (Reply i result) (?st1\<lparr>srv_session := s\<rparr>) = (r, st2)" by fastforce
  have "keeps (srv_session ?st1)" using assms open_keeps by (simp add: handshake_reset_def)
  from call_keeps [OF this, of m p] have "keeps s" by (simp only: c snd_conv)
  moreover have "srv_session st2 = s" using put_session [OF p] by simp
  ultimately show ?thesis unfolding handle_request_def Let_def c prod.case p by simp
qed

lemma handle_inbound_keeps:
  "keeps (srv_session st) \<Longrightarrow> keeps (srv_session (snd (handle_inbound config disp wr funnel msg st)))"
  using handle_subscribe_keeps handle_request_keeps write_keeps
  by (auto simp: handle_inbound_def split: sum.splits inbound.splits prod.splits)

lemma flush_session [simp]: "srv_session (snd (flush_funnel fops wr n st)) = srv_session st"
proof (induction n arbitrary: st)
  case (Suc n)
  obtain ev q where f: "ch_try_recv fops (srv_funnel st) = (ev, q)" by fastforce
  show ?case
  proof (cases ev)
    case (Some e)
    obtain b st' where s: "send_event wr e (st\<lparr>srv_funnel := q\<rparr>) = (b, st')" by fastforce
    then have "srv_session st' = srv_session st"
      using put_session [of wr "event_message e" "st\<lparr>srv_funnel := q\<rparr>"] by (auto simp: send_event_def split: prod.splits)
    then show ?thesis using Suc.IH [of st'] by (cases b) (simp_all add: f Some s)
  qed (simp add: f)
qed simp

lemma handle_drained_session [simp]: "srv_session (snd (handle_drained fops wr p exhausted st)) = srv_session st"
proof -
  let ?st1 = "cancels_remove (pump_sub p) st"
  obtain b st2 where f: "flush_funnel fops wr (ch_len fops (srv_funnel ?st1)) ?st1 = (b, st2)" by fastforce
  have "srv_session st2 = srv_session st" using flush_session [of fops wr _ ?st1] f by (metis cancels_remove_session snd_conv)
  then show ?thesis
    by (cases b) (auto simp: handle_drained_def Let_def f split: option.splits)
qed

lemma poll_pump_session [simp]: "srv_session (snd (poll_pump fops wr n u st)) = srv_session st"
  by (simp add: poll_pump_def Let_def drop_pump_def split: option.split prod.split bool.split)

lemma step_keeps:
  assumes "keeps (srv_session st)"
  shows "keeps (srv_session (snd (session_step config disp fops wr funnel step st)))"
proof (cases step)
  case (FrameStep msg)
  then show ?thesis using handle_inbound_keeps [OF assms] by (simp add: session_step_def)
next
  case EventStep
  obtain ev q where f: "ch_try_recv fops (srv_funnel st) = (ev, q)" by fastforce
  have "srv_session (snd (send_event wr e (st\<lparr>srv_funnel := q\<rparr>))) = srv_session st" for e
    using put_session [of wr "event_message e" "st\<lparr>srv_funnel := q\<rparr>"] by (auto simp: send_event_def split: prod.splits)
  then show ?thesis using assms EventStep f by (simp add: session_step_def split: option.split)
qed (use assms in \<open>simp_all add: session_step_def\<close>)

lemma loop_keeps:
  "keeps (srv_session st) \<Longrightarrow> keeps (srv_session (snd (session_loop config disp fops wr funnel steps st)))"
proof (induction steps arbitrary: st)
  case (Cons step steps)
  obtain b st' where s: "session_step config disp fops wr funnel step st = (b, st')" by fastforce
  have "keeps (srv_session st')" using step_keeps [OF Cons.prems, of config fops wr funnel step] s by simp
  then show ?case using Cons.IH [of st'] by (cases b) (simp_all add: s)
qed simp

lemma run_keeps:
  assumes "keeps shared" and "run_session config disp shared fops wr funnel hello authentic steps = Some st"
  shows "keeps (srv_session st)"
proof -
  have "keeps (srv_session (session_start disp shared funnel))" using open_keeps [OF assms(1)] by (simp add: session_start_def)
  from loop_keeps [OF this] show ?thesis using assms(2) by (auto simp: run_session_def split: if_splits)
qed

end

subsection \<open>The accept loop\<close>

datatype accept_event =
    AcceptFailed transport_error
  | AcceptStillFailing u64 transport_error
  | AcceptRecovered u64
  | ConnectionLimitReached nat
  | ListenerClosed nat

text \<open>\<open>is_power_of_ten\<close>; the loop divides by ten at least once a step.\<close>

function is_power_of_ten :: "nat \<Rightarrow> bool" where
  "is_power_of_ten n = (if 10 \<le> n \<and> n mod 10 = 0 then is_power_of_ten (n div 10) else n = 1)"
  by auto
termination by (relation "measure id") auto

declare is_power_of_ten.simps [simp del]

definition on_error :: "transport_error \<Rightarrow> u64 \<Rightarrow> accept_event option \<times> u64" where
  "on_error err consecutive =
     (let n = sat_add consecutive 1 in
      (if n = 1 then Some (AcceptFailed err)
       else if is_power_of_ten (unat n) then Some (AcceptStillFailing n err) else None, n))"

definition on_success :: "u64 \<Rightarrow> accept_event option \<times> u64" where
  "on_success consecutive = (if 0 < consecutive then Some (AcceptRecovered consecutive) else None, 0)"

datatype 'c serve_step = Accepted "transport_error + 'c" | ConnectionEnded nat

record 'c acceptor =
  acc_conns :: "'c list"
  acc_after_error :: bool
  acc_failures :: u64
  acc_closed :: bool
  acc_reports :: "accept_event list"

definition report :: "accept_event option \<Rightarrow> 'c acceptor \<Rightarrow> 'c acceptor" where
  "report ev st = st\<lparr>acc_reports := acc_reports st @ (case ev of None \<Rightarrow> [] | Some e \<Rightarrow> [e])\<rparr>"

text \<open>Whether \<open>serve\<close> goes on; once the listener closed only open connections are served.\<close>

definition serve_step :: "session_config \<Rightarrow> 'c serve_step \<Rightarrow> 'c acceptor \<Rightarrow> bool \<times> 'c acceptor" where
  "serve_step config step st =
     (case step of
        ConnectionEnded n \<Rightarrow>
          (let st' = st\<lparr>acc_conns := take n (acc_conns st) @ drop (Suc n) (acc_conns st)\<rparr>
           in (\<not> (acc_closed st' \<and> acc_conns st' = []), st'))
      | Accepted a \<Rightarrow>
          if acc_closed st then (acc_conns st \<noteq> [], st)
          else
            (case a of
               Inr conn \<Rightarrow>
                 (case on_success (acc_failures st) of
                    (ev, n) \<Rightarrow>
                      (let st1 = report ev (st\<lparr>acc_after_error := False, acc_failures := n\<rparr>) in
                       if max_connections (limits config) \<le> length (acc_conns st1)
                       then (True, report (Some (ConnectionLimitReached (max_connections (limits config)))) st1)
                       else (True, st1\<lparr>acc_conns := acc_conns st1 @ [conn]\<rparr>)))
             | Inl err \<Rightarrow>
                 if err = Closed
                 then (acc_conns st \<noteq> [],
                       report (Some (ListenerClosed (length (acc_conns st)))) (st\<lparr>acc_after_error := True, acc_closed := True\<rparr>))
                 else
                   (case on_error err (acc_failures st) of
                      (ev, n) \<Rightarrow> (True, report ev (st\<lparr>acc_after_error := True, acc_failures := n\<rparr>)))))"

subsection \<open>What sending leaves alone\<close>

definition only_sends :: "('s, 'q) server \<Rightarrow> ('s, 'q) server \<Rightarrow> bool" where
  "only_sends st st' \<longleftrightarrow> (\<exists>n ms. st' = st\<lparr>srv_sends := n, srv_sent := srv_sent st @ ms\<rparr>)"

lemma only_sends_refl [simp]: "only_sends st st"
  unfolding only_sends_def by (intro exI [of _ "srv_sends st"] exI [of _ "[]"]) simp

lemma only_sends_trans: "only_sends a b \<Longrightarrow> only_sends b c \<Longrightarrow> only_sends a c"
  unfolding only_sends_def by force

lemma put_only_sends: "put wr msg st = (r, st') \<Longrightarrow> only_sends st st'"
  by (auto simp: put_def only_sends_def split: if_splits intro!: exI [of _ "[]"])
    (metis append_Nil2 server.surjective server.update_convs(8,9))+

lemma send_event_only_sends: "send_event wr ev st = (b, st') \<Longrightarrow> only_sends st st'"
  by (auto simp: send_event_def split: prod.splits dest: put_only_sends)

lemma send_reply_err_only_sends: "only_sends st (send_reply_err wr i err st)"
  unfolding send_reply_err_def by (metis prod.collapse put_only_sends)

lemma send_snapshots_only_sends:
  "send_snapshots wr sub burst i seq snaps st = (b, seq', st') \<Longrightarrow> only_sends st st'"
proof (induction snaps arbitrary: i seq st)
  case (Cons x snaps)
  obtain topic data ts where x: "x = (topic, data, ts)" by (cases x)
  obtain r st1 where p: "put wr (Snapshot sub (seq + 1) (i + 1 = burst) topic ts data) st = (r, st1)" by fastforce
  show ?case using Cons p put_only_sends [OF p] x
    by (cases r) (auto simp: Let_def intro: only_sends_trans)
qed simp

lemma flush_only_sends:
  "flush_funnel fops wr n st = (b, st') \<Longrightarrow> only_sends (st\<lparr>srv_funnel := q\<rparr>) (st'\<lparr>srv_funnel := q\<rparr>)"
proof (induction n arbitrary: st)
  case (Suc n)
  obtain r q' where t: "ch_try_recv fops (srv_funnel st) = (r, q')" by fastforce
  show ?case
  proof (cases r)
    case None
    then show ?thesis using Suc.prems t by auto
  next
    case (Some ev)
    obtain c st1 where e: "send_event wr ev (st\<lparr>srv_funnel := q'\<rparr>) = (c, st1)" by fastforce
    then have "only_sends (st\<lparr>srv_funnel := q\<rparr>) (st1\<lparr>srv_funnel := q\<rparr>)"
      using send_event_only_sends [OF e] by (cases st) (fastforce simp: only_sends_def)
    then show ?thesis using Suc t Some e by (cases c) (auto intro: only_sends_trans)
  qed
qed simp

lemmas only_sends_intros = put_only_sends send_event_only_sends send_reply_err_only_sends
  send_snapshots_only_sends

subsection \<open>The table and the pumps agree\<close>

definition table_ok :: "nat \<Rightarrow> ('s, 'q) server \<Rightarrow> bool" where
  "table_ok cap st \<longleftrightarrow> finite (dom (srv_cancels st)) \<and> srv_live st = card (dom (srv_cancels st))
     \<and> srv_live st \<le> cap
     \<and> (\<forall>sub g. srv_cancels st sub = Some g \<longrightarrow>
          (\<exists>p \<in> set (srv_pumps st). pump_sub p = sub \<and> pump_generation p = g))
     \<and> distinct (map pump_generation (srv_pumps st))
     \<and> (\<forall>p \<in> set (srv_pumps st). pump_generation p < srv_next_generation st)"

lemma table_ok_cong:
  "srv_cancels st' = srv_cancels st \<Longrightarrow> srv_live st' = srv_live st \<Longrightarrow> srv_pumps st' = srv_pumps st \<Longrightarrow>
     srv_next_generation st' = srv_next_generation st \<Longrightarrow> table_ok cap st' \<longleftrightarrow> table_ok cap st"
  by (simp add: table_ok_def)

lemma table_ok_sends: "only_sends st st' \<Longrightarrow> table_ok cap st \<Longrightarrow> table_ok cap st'"
  by (auto simp: only_sends_def table_ok_def)

lemma table_ok_session [simp]: "table_ok cap (st\<lparr>srv_session := s\<rparr>) \<longleftrightarrow> table_ok cap st"
  by (simp add: table_ok_def)

lemma table_ok_funnel [simp]: "table_ok cap (st\<lparr>srv_funnel := q\<rparr>) \<longleftrightarrow> table_ok cap st"
  by (simp add: table_ok_def)

lemma table_ok_greeted [simp]: "table_ok cap (st\<lparr>srv_greeted := b\<rparr>) \<longleftrightarrow> table_ok cap st"
  by (simp add: table_ok_def)

lemma table_ok_remove: "table_ok cap st \<Longrightarrow> table_ok cap (cancels_remove sub st)"
  by (auto simp: table_ok_def cancels_remove_def dom_fun_upd card_Diff_singleton_if split: if_splits)

lemma table_ok_start:
  assumes "table_ok cap st" and "srv_cancels st sub = None" and "srv_live st < cap"
  shows "table_ok cap (start_pump sub seq st)"
proof -
  have "card (insert sub (dom (srv_cancels st))) = Suc (card (dom (srv_cancels st)))"
    using assms(1,2) by (intro card_insert_disjoint) (auto simp: table_ok_def)
  then show ?thesis
    using assms by (auto simp: table_ok_def start_pump_def cancels_insert_def Let_def less_SucI)
qed

lemma table_ok_reset: "table_ok cap (handshake_reset disp funnel st)"
  by (simp add: table_ok_def handshake_reset_def)

lemma handle_subscribe_ok:
  assumes "handle_subscribe config disp wr i topic st = (b, st')"
    and "table_ok (max_subs_per_connection (limits config)) st"
  shows "table_ok (max_subs_per_connection (limits config)) st'"
proof (cases "srv_cancels st (id_string i) \<noteq> None \<or> max_subs_per_connection (limits config) \<le> srv_live st")
  case True
  then show ?thesis using assms send_reply_err_only_sends [of st wr i Denied]
    by (auto simp: handle_subscribe_def Let_def split: if_splits intro: table_ok_sends)
next
  case False
  obtain r s where sub: "sess_subscribe disp topic (srv_session st) = (r, s)" by fastforce
  show ?thesis
  proof (cases r)
    case (Inl err)
    then show ?thesis using assms False sub send_reply_err_only_sends [of "st\<lparr>srv_session := s\<rparr>" wr i err]
      by (auto simp: handle_subscribe_def Let_def intro: table_ok_sends)
  next
    case (Inr u)
    let ?ack = "if acks_subscribe config then put wr (Subscribed (id_string i)) (st\<lparr>srv_session := s\<rparr>)
                  else (Delivered, st\<lparr>srv_session := s\<rparr>)"
    obtain a st1 where ack: "?ack = (a, st1)" by fastforce
    obtain snaps s' where snaps: "sess_snapshots disp topic (srv_session st1) = (snaps, s')" by fastforce
    obtain f seq st2 where send: "send_snapshots wr (id_string i) (length snaps) 0 0 snaps (st1\<lparr>srv_session := s'\<rparr>)
        = (f, seq, st2)" by (cases "send_snapshots wr (id_string i) (length snaps) 0 0 snaps (st1\<lparr>srv_session := s'\<rparr>)")
    have one: "only_sends (st\<lparr>srv_session := s\<rparr>) st1"
      using ack put_only_sends by (auto split: if_splits)
    have two: "only_sends (st1\<lparr>srv_session := s'\<rparr>) st2" by (rule send_snapshots_only_sends [OF send])
    have ok1: "table_ok (max_subs_per_connection (limits config)) st1"
      using table_ok_sends [OF one] assms(2) by simp
    then have ok2: "table_ok (max_subs_per_connection (limits config)) st2"
      using table_ok_sends [OF two] by simp
    have "srv_cancels st2 = srv_cancels st" "srv_live st2 = srv_live st"
      using one two by (auto simp: only_sends_def)
    then have "table_ok (max_subs_per_connection (limits config)) (start_pump (id_string i) seq st2)"
      using table_ok_start [OF ok2, of "id_string i" seq] False by simp
    then show ?thesis using assms(1) False sub Inr ack snaps send ok1 ok2
      by (auto simp: handle_subscribe_def Let_def split: put_result.splits bool.splits)
  qed
qed

lemma handle_inbound_ok:
  assumes "handle_inbound config disp wr funnel msg st = (b, st')"
    and "table_ok (max_subs_per_connection (limits config)) st"
  shows "table_ok (max_subs_per_connection (limits config)) st'"
  using assms
  by (auto simp: handle_inbound_def handle_request_def Let_def table_ok_reset
      split: sum.splits inbound.splits prod.splits if_splits
      dest!: put_only_sends intro: handle_subscribe_ok table_ok_remove table_ok_sends)

text \<open>Dropping a pump the table does not name keeps the agreement.\<close>

lemma table_ok_drop:
  assumes "table_ok cap st" and "n < length (srv_pumps st)" and "\<not> pump_live st (srv_pumps st ! n)"
  shows "table_ok cap (drop_pump n st)"
proof -
  let ?ps = "take n (srv_pumps st) @ drop (Suc n) (srv_pumps st)"
  have all: "srv_pumps st = take n (srv_pumps st) @ srv_pumps st ! n # drop (Suc n) (srv_pumps st)"
    by (rule id_take_nth_drop [OF assms(2)])
  have sub: "set (srv_pumps st) = insert (srv_pumps st ! n) (set ?ps)"
    by (subst all) simp
  have "distinct (map pump_generation (take n (srv_pumps st) @ srv_pumps st ! n # drop (Suc n) (srv_pumps st)))"
    using assms(1) by (simp add: table_ok_def flip: all)
  then have "distinct (map pump_generation ?ps)" by auto
  moreover have "\<exists>p \<in> set ?ps. pump_sub p = s \<and> pump_generation p = g" if e: "srv_cancels st s = Some g" for s g
    using assms(1,3) e sub unfolding table_ok_def pump_live_def by (metis insertE)
  ultimately show ?thesis using assms(1) sub by (simp add: table_ok_def drop_pump_def)
qed

lemma table_ok_drain:
  assumes "table_ok cap st" and "n < length (srv_pumps st)" and "pump_sub p = pump_sub (srv_pumps st ! n)"
    and "pump_generation p = pump_generation (srv_pumps st ! n)"
    and "handle_drained fops wr p exhausted (drop_pump n st) = (b, st')"
  shows "table_ok cap st'"
proof (cases "pump_live st (srv_pumps st ! n)")
  case False
  then have "st' = drop_pump n st"
    using assms(3-5) by (simp add: handle_drained_def pump_live_def drop_pump_def)
  then show ?thesis using table_ok_drop [OF assms(1,2) False] by simp
next
  case True
  let ?st1 = "cancels_remove (pump_sub p) (drop_pump n st)"
  have "\<not> pump_live (cancels_remove (pump_sub p) st) (srv_pumps st ! n)"
    using assms(3) by (simp add: pump_live_def cancels_remove_def)
  then have "table_ok cap (drop_pump n (cancels_remove (pump_sub p) st))"
    using table_ok_drop [of cap "cancels_remove (pump_sub p) st" n] table_ok_remove [OF assms(1)] assms(2)
    by (simp add: cancels_remove_def)
  then have ok1: "table_ok cap ?st1"
    by (rule table_ok_cong [THEN iffD2, rotated -1]) (simp_all add: cancels_remove_def drop_pump_def)
  obtain c st2 where fl: "flush_funnel fops wr (ch_len fops (srv_funnel ?st1)) ?st1 = (c, st2)" by fastforce
  have "table_ok cap (st2\<lparr>srv_funnel := srv_funnel st\<rparr>)"
    using table_ok_sends [OF flush_only_sends [OF fl]] ok1 by simp
  then have "table_ok cap st2" by simp
  then show ?thesis
    using assms(3-5) True fl ok1 table_ok_sends [OF send_reply_err_only_sends]
    by (auto simp: handle_drained_def pump_live_def drop_pump_def Let_def split: if_splits bool.splits option.splits)
qed

lemma poll_pump_ok:
  assumes "poll_pump fops wr n update st = (b, st')" and "table_ok cap st"
  shows "table_ok cap st'"
proof (cases "n < length (srv_pumps st)")
  case True
  let ?p = "srv_pumps st ! n"
  note ends = table_ok_drain [OF assms(2) True refl refl]
  show ?thesis
  proof (cases "pump_live st ?p")
    case live: True
    show ?thesis
    proof (cases update)
      case None
      then show ?thesis using assms(1) True live ends by (simp add: poll_pump_def)
    next
      case (Some u)
      obtain c p' q where pu: "pump_update fops u (?p, srv_funnel st) = (c, p', q)"
        by (cases "pump_update fops u (?p, srv_funnel st)")
      have same: "pump_sub p' = pump_sub ?p" "pump_generation p' = pump_generation ?p"
        using pu by (auto simp: pump_update_def split: prod.splits)
      show ?thesis
      proof (cases c)
        case going: True
        have st': "st' = st\<lparr>srv_pumps := (srv_pumps st)[n := p'], srv_funnel := q\<rparr>"
          using assms(1) True live Some pu going by (simp add: poll_pump_def)
        have gens: "map pump_generation ((srv_pumps st)[n := p']) = map pump_generation (srv_pumps st)"
          using same(2) by (metis map_update list_update_id nth_map True)
        have bound: "\<forall>x \<in> set (srv_pumps st). pump_generation x < srv_next_generation st"
          using assms(2) by (simp add: table_ok_def)
        have "set ((srv_pumps st)[n := p']) \<subseteq> insert p' (set (srv_pumps st))" by (rule set_update_subset_insert)
        then have less: "\<forall>x \<in> set ((srv_pumps st)[n := p']). pump_generation x < srv_next_generation st"
          using bound same(2) nth_mem [OF True] by auto
        have keep: "\<exists>r \<in> set ((srv_pumps st)[n := p']). pump_sub r = pump_sub x \<and> pump_generation r = pump_generation x"
          if x: "x \<in> set (srv_pumps st)" for x
        proof -
          obtain k where k: "k < length (srv_pumps st)" "srv_pumps st ! k = x" using x by (metis in_set_conv_nth)
          have "(srv_pumps st)[n := p'] ! k \<in> set ((srv_pumps st)[n := p'])" using k by (intro nth_mem) simp
          moreover have "pump_sub ((srv_pumps st)[n := p'] ! k) = pump_sub x
              \<and> pump_generation ((srv_pumps st)[n := p'] ! k) = pump_generation x"
            using k same by (cases "n = k") auto
          ultimately show ?thesis by blast
        qed
        have "\<exists>r \<in> set ((srv_pumps st)[n := p']). pump_sub r = sub \<and> pump_generation r = g"
          if e: "srv_cancels st sub = Some g" for sub g
          using assms(2) e keep unfolding table_ok_def by metis
        then show ?thesis using assms(2) less gens by (simp add: st' table_ok_def)
      next
        case False
        have "table_ok cap (st\<lparr>srv_funnel := q\<rparr>)" using assms(2) by simp
        then show ?thesis using assms(1) True live Some pu False same
            table_ok_drain [of cap "st\<lparr>srv_funnel := q\<rparr>" n p' fops wr False b st']
          by (simp add: poll_pump_def)
      qed
    qed
  next
    case False
    then show ?thesis using assms(1) True ends by (simp add: poll_pump_def)
  qed
qed (use assms in \<open>simp add: poll_pump_def\<close>)

lemma session_step_ok:
  assumes "session_step config disp fops wr funnel step st = (b, st')"
    and "table_ok (max_subs_per_connection (limits config)) st"
  shows "table_ok (max_subs_per_connection (limits config)) st'"
  using assms
  by (auto simp: session_step_def split: server_step.splits prod.splits option.splits
      intro: handle_inbound_ok poll_pump_ok dest!: send_event_only_sends elim: table_ok_sends)

lemma session_loop_ok:
  "session_loop config disp fops wr funnel steps st = (b, st') \<Longrightarrow>
     table_ok (max_subs_per_connection (limits config)) st \<Longrightarrow>
     table_ok (max_subs_per_connection (limits config)) st'"
proof (induction steps arbitrary: st)
  case (Cons step steps)
  obtain c st1 where "session_step config disp fops wr funnel step st = (c, st1)" by fastforce
  then show ?case using Cons session_step_ok by (cases c) fastforce+
qed simp

text \<open>
  C19. Through any sequence of frames, events and pump steps, with any dispatch, codec and link, the
  connection holds at most its configured number of subscriptions, and every entry of its cancel
  table belongs to a running pump of its own, told apart by its generation.
\<close>

theorem subscriptions_sound:
  "let st = snd (session_loop config disp fops wr funnel steps (session_start disp shared funnel)) in
     finite (dom (srv_cancels st))
     \<and> card (dom (srv_cancels st)) \<le> max_subs_per_connection (limits config)
     \<and> {(sub, g). srv_cancels st sub = Some g} \<subseteq> (\<lambda>p. (pump_sub p, pump_generation p)) ` set (srv_pumps st)
     \<and> distinct (map pump_generation (srv_pumps st))"
proof -
  obtain b st where st: "session_loop config disp fops wr funnel steps (session_start disp shared funnel) = (b, st)" by fastforce
  have "table_ok (max_subs_per_connection (limits config)) (session_start disp shared funnel)"
    by (simp add: table_ok_def session_start_def)
  then have "table_ok (max_subs_per_connection (limits config)) st" by (rule session_loop_ok [OF st])
  then show ?thesis unfolding st by (fastforce simp: table_ok_def Let_def)
qed

subsection \<open>The last word of a subscription\<close>

lemma parse_digits_append:
  "parse_digits a (xs @ ys) = (case parse_digits a xs of None \<Rightarrow> None | Some b \<Rightarrow> parse_digits b ys)"
  by (induction xs arbitrary: a) (auto split: option.splits)

lemma digit_value_digit: "d < 10 \<Longrightarrow> digit_value (digit d) = Some d"
proof -
  assume "d < 10"
  then have "d \<in> {0, 1, 2, 3, 4, 5, 6, 7, 8, 9}" by auto
  then show ?thesis by (auto simp: digit_value_def digit_def)
qed

lemma parse_decimal: "n < 2 ^ 64 \<Longrightarrow> parse_digits 0 (decimal n) = Some n"
proof (induction n rule: less_induct)
  case (less n)
  show ?case
  proof (cases "n < 10")
    case True
    then show ?thesis by (simp add: decimal.simps [of n] digit_value_digit)
  next
    case False
    then have "parse_digits 0 (decimal (n div 10)) = Some (n div 10)" using less by simp
    then show ?thesis using False less.prems
      by (simp add: decimal.simps [of n] parse_digits_append digit_value_digit)
  qed
qed

lemma hd_decimal: "\<exists>d < 10. hd (decimal n) = digit d"
proof (induction n rule: less_induct)
  case (less n)
  show ?case
  proof (cases "n < 10")
    case False
    then show ?thesis using less.IH [of "n div 10"] by (simp add: decimal.simps [of n])
  qed (auto simp: decimal.simps [of n])
qed

lemma parse_id_string: "parse_u64 (id_string i) = Some i"
proof -
  obtain d cs where d: "id_string i = digit d # cs" "d < 10"
    using hd_decimal [of "unat i"] by (cases "id_string i") (auto simp: id_string_def)
  have "digit d \<noteq> CHR ''+''" using digit_value_digit [OF d(2)] by (auto simp: digit_value_def Let_def split: if_splits)
  then have "parse_u64 (id_string i) = map_option of_nat (parse_digits 0 (id_string i))"
    using d(1) by (simp add: parse_u64_def)
  then show ?thesis using parse_decimal [of "unat i"] unat_bound [of i] by (simp add: id_string_def)
qed

locale event_funnel = bounded_channel fops items is_open
  for fops :: "(sub_event, 'q) chan_ops" and items and is_open
begin

lemma flush_all:
  "\<forall>k. link_up wr k \<Longrightarrow> length (items (srv_funnel st)) \<le> n \<Longrightarrow>
     \<exists>st'. flush_funnel fops wr n st = (True, st') \<and> items (srv_funnel st') = []
     \<and> srv_sent st' = srv_sent st @ filter (encodes wr) (map event_message (items (srv_funnel st)))
     \<and> srv_cancels st' = srv_cancels st"
proof (induction n arbitrary: st)
  case (Suc n)
  show ?case
  proof (cases "items (srv_funnel st)")
    case Nil
    then show ?thesis using try_recv_empty [OF Nil] by simp
  next
    case (Cons ev evs)
    then obtain q where q: "ch_try_recv fops (srv_funnel st) = (Some ev, q)" "items q = evs"
      using try_recv_item by blast
    obtain st1 where s1: "send_event wr ev (st\<lparr>srv_funnel := q\<rparr>) = (True, st1)" "srv_funnel st1 = q"
      "srv_sent st1 = srv_sent st @ filter (encodes wr) [event_message ev]" "srv_cancels st1 = srv_cancels st"
      using Suc.prems(1) by (cases "encodes wr (event_message ev)") (simp_all add: send_event_def put_def)
    then show ?thesis using Suc.IH [of st1] Suc.prems Cons q
      by (cases "encodes wr (event_message ev)") simp_all
  qed
qed simp

lemma drained:
  assumes "\<forall>k. link_up wr k" and "srv_cancels st (id_string i) = Some g"
    and "pump_sub p = id_string i" and "pump_generation p = g"
  shows "\<exists>st'. handle_drained fops wr p True st = (True, st') \<and> items (srv_funnel st') = []
     \<and> srv_cancels st' (id_string i) = None
     \<and> srv_sent st' = srv_sent st
         @ filter (encodes wr) (map event_message (items (srv_funnel st)) @ [Reply i (Inl Internal)])"
proof -
  let ?st1 = "cancels_remove (id_string i) st"
  have same: "srv_funnel ?st1 = srv_funnel st" "srv_sent ?st1 = srv_sent st" by (simp_all add: cancels_remove_def)
  obtain st2 where f: "flush_funnel fops wr (ch_len fops (srv_funnel ?st1)) ?st1 = (True, st2)"
    "items (srv_funnel st2) = []" "srv_cancels st2 = srv_cancels ?st1"
    "srv_sent st2 = srv_sent st @ filter (encodes wr) (map event_message (items (srv_funnel st)))"
    using flush_all [OF assms(1), of ?st1] same by (auto simp: len_items)
  moreover have "srv_cancels ?st1 (id_string i) = None" by (simp add: cancels_remove_def)
  ultimately show ?thesis using assms
    by (auto simp: handle_drained_def Let_def parse_id_string send_reply_err_def put_def)
qed

end

interpretation list_funnel: event_funnel "list_chan_ops :: (sub_event, sub_event list_chan) chan_ops" lc_items lc_open
  by (rule event_funnel.intro) (rule list_channel.bounded_channel_axioms)

text \<open>
  A subscription that ends on its own says so last: everything its connection still had queued
  is sent first, in order, then the error reply to its subscribe id; nothing stays queued behind
  it, and its entry is gone.
\<close>

theorem last_word:
  assumes "event_funnel fops items is_open" and "\<forall>k. link_up wr k"
    and "srv_cancels st (id_string i) = Some g" and "pump_sub p = id_string i" and "pump_generation p = g"
  shows "\<exists>st'. handle_drained fops wr p True st = (True, st') \<and> items (srv_funnel st') = []
     \<and> srv_cancels st' (id_string i) = None
     \<and> srv_sent st' = srv_sent st
         @ filter (encodes wr) (map event_message (items (srv_funnel st)) @ [Reply i (Inl Internal)])"
  by (rule event_funnel.drained [OF assms])

definition demo_server :: "(unit, sub_event list_chan) server" where
  "demo_server =
     \<lparr>srv_session = (), srv_pumps = [], srv_cancels = [''7'' \<mapsto> 0], srv_live = 1, srv_next_generation = 1,
      srv_greeted = False,
      srv_funnel = \<lparr>lc_items = [\<lparr>ev_sub = ''7'', ev_seq = 1, ev_topic = None, ev_ts = 0, ev_data = [1]\<rparr>],
                     lc_capacity = Some 2, lc_open = True\<rparr>,
      srv_sends = 0, srv_sent = []\<rparr>"

theorem last_word_witness:
  "\<exists>st'. handle_drained list_chan_ops \<lparr>encodes = \<lambda>_. True, link_up = \<lambda>_. True\<rparr>
        \<lparr>pump_sub = id_string 7, pump_generation = 0, pump_seq = 1\<rparr> True demo_server = (True, st')
     \<and> lc_items (srv_funnel st') = [] \<and> srv_cancels st' (id_string 7) = None
     \<and> srv_sent st' = srv_sent demo_server @ filter (encodes \<lparr>encodes = \<lambda>_. True, link_up = \<lambda>_. True\<rparr>)
         (map event_message (lc_items (srv_funnel demo_server)) @ [Reply 7 (Inl Internal)])"
  by (rule last_word [OF list_funnel.event_funnel_axioms])
    (simp_all add: demo_server_def id_string_def decimal.simps digit_def)

subsection \<open>A failing listener\<close>

lemma is_power_of_ten_iff: "is_power_of_ten n \<longleftrightarrow> (\<exists>e. n = 10 ^ e)"
proof (induction n rule: less_induct)
  case (less n)
  show ?case
  proof (cases "10 \<le> n \<and> n mod 10 = 0")
    case True
    then have "is_power_of_ten n \<longleftrightarrow> (\<exists>e. n div 10 = 10 ^ e)"
      using less.IH [of "n div 10"] by (simp add: is_power_of_ten.simps [of n])
    moreover have "n div 10 = 10 ^ e \<longleftrightarrow> n = 10 ^ Suc e" for e using True by auto
    moreover have "n \<noteq> 10 ^ 0" using True by auto
    ultimately show ?thesis by (metis not0_implies_Suc)
  next
    case False
    have "n = 1" if e: "n = 10 ^ e" for e
    proof (cases e)
      case (Suc k)
      then have "10 \<le> n" "n mod 10 = 0" using e by simp_all
      then show ?thesis using False by simp
    qed (use e in simp)
    then show ?thesis using False by (auto simp: is_power_of_ten.simps [of n] intro: exI [of _ 0])
  qed
qed

text \<open>
  A listener that keeps failing is reported at its first failure and then exactly when the count
  of the series is a power of ten; at the saturated count nothing is reported again.
\<close>

theorem failing_series:
  "fst (on_error err consecutive) =
     (let n = sat_add consecutive 1 in
      if \<exists>e. unat n = 10 ^ e then Some (if n = 1 then AcceptFailed err else AcceptStillFailing n err) else None)
   \<and> fst (on_error err (- 1)) = None"
proof -
  have "\<exists>e. unat (1 :: u64) = 10 ^ e" by (intro exI [of _ 0]) simp
  moreover have "\<not> is_power_of_ten (unat (- 1 :: u64))"
    by (simp add: unat_minus_one_word is_power_of_ten.simps)
  moreover have "sat_add (- 1) 1 = (- 1 :: u64)" by (simp add: word_unat_eq_iff unat_sat_add unat_minus_one_word)
  ultimately show ?thesis by (auto simp: on_error_def is_power_of_ten_iff Let_def)
qed

subsection \<open>The sequence numbers of a pump\<close>

text \<open>What a pump makes of its stream's updates, and a run of it beside the loop that takes events.\<close>

fun pump_events :: "pump \<Rightarrow> sub_update list \<Rightarrow> sub_event list" where
  "pump_events p [] = []"
| "pump_events p (u # us) =
     pump_event p u # pump_events (p\<lparr>pump_seq := pump_seq p + (su_skipped u + 1)\<rparr>) us"

fun pump_run ::
  "(sub_event, 'q) chan_ops \<Rightarrow> sub_update option list \<Rightarrow> pump \<times> 'q \<Rightarrow> sub_event list \<times> pump \<times> 'q" where
  "pump_run fops [] st = ([], st)"
| "pump_run fops (Some u # steps) st =
     (case pump_update fops u st of
        (True, st') \<Rightarrow> pump_run fops steps st'
      | (False, st') \<Rightarrow> ([], st'))"
| "pump_run fops (None # steps) (p, q) =
     (case ch_try_recv fops q of
        (None, q') \<Rightarrow> pump_run fops steps (p, q')
      | (Some ev, q') \<Rightarrow> (case pump_run fops steps (p, q') of (evs, st') \<Rightarrow> (ev # evs, st')))"

definition updates_of :: "sub_update option list \<Rightarrow> sub_update list" where
  "updates_of steps = concat (map (\<lambda>s. case s of Some u \<Rightarrow> [u] | None \<Rightarrow> []) steps)"

lemma updates_of_simps [simp]:
  "updates_of [] = []" "updates_of (Some u # steps) = u # updates_of steps" "updates_of (None # steps) = updates_of steps"
  by (simp_all add: updates_of_def)

text \<open>The values lost before and carried by an update, and the production up to each of them.\<close>

definition production :: "sub_update list \<Rightarrow> nat" where
  "production us = sum_list (map (\<lambda>u. Suc (unat (su_skipped u))) us)"

lemma production_simps [simp]:
  "production [] = 0" "production (u # us) = Suc (unat (su_skipped u)) + production us"
  by (simp_all add: production_def)

lemma unat_advance:
  assumes "unat (a :: u64) + Suc (unat b) < 2 ^ 64"
  shows "unat (a + (b + 1)) = unat a + Suc (unat b)"
proof -
  have "unat (b + 1) = Suc (unat b)" using assms by (simp add: unat_word_ariths)
  then show ?thesis using assms by (simp add: unat_word_ariths)
qed

lemma pump_events_seqs:
  "unat (pump_seq p) + production us < 2 ^ 64 \<Longrightarrow>
     map (unat \<circ> ev_seq) (pump_events p us)
       = map (\<lambda>k. unat (pump_seq p) + production (take (Suc k) us)) [0 ..< length us]"
proof (induction us arbitrary: p)
  case (Cons u us)
  let ?p = "p\<lparr>pump_seq := pump_seq p + (su_skipped u + 1)\<rparr>"
  have s: "unat (pump_seq ?p) = unat (pump_seq p) + Suc (unat (su_skipped u))"
    using unat_advance [of "pump_seq p" "su_skipped u"] Cons.prems by simp
  have "map (unat \<circ> ev_seq) (pump_events ?p us)
      = map (\<lambda>k. unat (pump_seq ?p) + production (take (Suc k) us)) [0 ..< length us]"
    by (rule Cons.IH) (use Cons.prems s in simp)
  moreover have "[0 ..< length (u # us)] = 0 # map Suc [0 ..< length us]"
    by (simp add: upt_conv_Cons map_Suc_upt del: upt_Suc)
  ultimately show ?case using s by (simp add: pump_event_def comp_def del: upt_Suc)
qed simp

lemma pump_events_sorted:
  assumes "unat (pump_seq p) + production us < 2 ^ 64"
  shows "sorted_wrt (<) (map ev_seq (pump_events p us)) \<and> (\<forall>ev \<in> set (pump_events p us). pump_seq p < ev_seq ev)"
  using assms
proof (induction us arbitrary: p)
  case (Cons u us)
  let ?p = "p\<lparr>pump_seq := pump_seq p + (su_skipped u + 1)\<rparr>"
  have s: "unat (pump_seq ?p) = unat (pump_seq p) + Suc (unat (su_skipped u))"
    using unat_advance [of "pump_seq p" "su_skipped u"] Cons.prems by simp
  then have lt: "pump_seq p < pump_seq ?p" by (simp add: word_less_nat_alt del: pump.simps)
  have "ev_seq (pump_event p u) = pump_seq ?p" by (simp add: pump_event_def)
  then show ?case using Cons.IH [of ?p] Cons.prems s lt by (auto intro: less_trans)
qed simp

context event_funnel
begin

lemma pump_run_subseq:
  "subseq (fst (pump_run fops steps (p, q))) (items q @ pump_events p (updates_of steps))"
proof (induction steps arbitrary: p q)
  case (Cons s steps)
  show ?case
  proof (cases s)
    case None
    show ?thesis
    proof (cases "items q")
      case Nil
      then show ?thesis using Cons.IH [of p q] None try_recv_empty by simp
    next
      case (Cons y ys)
      then obtain q' where "ch_try_recv fops q = (Some y, q')" "items q' = ys" using try_recv_item by blast
      then show ?thesis using Cons.IH [of p q'] None Cons by (auto split: prod.splits)
    qed
  next
    case (Some u)
    let ?p = "p\<lparr>pump_seq := pump_seq p + (su_skipped u + 1)\<rparr>"
    show ?thesis
    proof (cases rule: try_send_cases [of q "pump_event p u"])
      case closed
      then show ?thesis using Some by (simp add: pump_update_def)
    next
      case full
      have "subseq (items q @ pump_events ?p (updates_of steps)) (items q @ pump_event p u # pump_events ?p (updates_of steps))"
        by (intro list_emb_append_mono) auto
      then show ?thesis using full Some Cons.IH [of ?p q] by (auto simp: pump_update_def intro: subseq_order.trans)
    next
      case (sent c')
      then show ?thesis using Some Cons.IH [of ?p c'] by (simp add: pump_update_def)
    qed
  qed
qed simp

end

end
