(* ===== verification/Session_Accounting.thy ===== *)
theory Session_Accounting
  imports Session_Calls Session_Server
begin

text \<open>
  Server and client of the session layer together: the loss accounting of one subscription from
  the pump on the server to the sink of the subscriber.
\<close>

lemma subseq_set: "subseq xs ys \<Longrightarrow> set xs \<subseteq> set ys"
  by (induction rule: list_emb.induct) auto

lemma subseq_sorted: "subseq xs ys \<Longrightarrow> sorted_wrt P ys \<Longrightarrow> sorted_wrt P xs"
  by (induction rule: list_emb.induct) (use subseq_set in auto)

lemma seq_of_deliver: "seq_of (deliver ops sub seq update mode e) sub \<in> {0, seq_of e sub, seq}"
  by (auto simp: deliver_def seq_of_def Let_def max_def split: option.splits prod.splits send_result.splits)

lemma seq_of_run:
  "sink_run ops sub sops (e, taken) = (e', taken') \<Longrightarrow>
     seq_of e' sub \<in> insert 0 (insert (seq_of e sub) (set (frame_seqs sops)))"
proof (induction sops arbitrary: e taken)
  case (Cons sop sops)
  obtain e1 taken1 where s: "sink_step ops sub sop (e, taken) = (e1, taken1)" by fastforce
  have "seq_of e' sub \<in> insert 0 (insert (seq_of e1 sub) (set (frame_seqs sops)))"
    using Cons s by (simp add: sink_run_def)
  moreover have "seq_of e1 sub \<in> insert 0 (insert (seq_of e sub) (set (frame_seqs [sop])))"
  proof (cases sop)
    case (Frame seq update mode)
    then show ?thesis using s seq_of_deliver [of ops sub seq update mode e] by (auto simp: frame_seqs_def)
  next
    case Take
    then show ?thesis using s by (auto simp: seq_of_def split: option.splits prod.splits)
  qed
  ultimately show ?case by (auto simp: frame_seqs_def)
qed (simp add: sink_run_def)

text \<open>
  C3. End to end: a pump whose funnel drops what it must, a connection that forwards what it takes,
  and a subscriber whose sink drops what it must: what the subscriber took, holds and was told it
  lost is exactly what the server produced (values its buffer had skipped included) up to the last
  update delivered, counting from the burst's last number.
\<close>

theorem loss_accounted_end_to_end:
  assumes "event_funnel fops fitems fopen" and "fitems q = []"
    and "unat (pump_seq p) + production (updates_of steps) < 2 ^ 64"
    and "sink_channel ops items is_open" and "last_seq e sub = None" and "subs e sub = Some tx"
    and "items tx = []" and "is_open tx" and "ch_capacity ops tx = Some cap" and "1 \<le> cap"
    and "frame_seqs sops = map ev_seq (fst (pump_run fops steps (p, q)))"
  shows "\<exists>e' taken tx' k. sink_run ops sub sops (e, []) = (e', taken) \<and> subs e' sub = Some tx'
           \<and> k \<le> length (updates_of steps)
           \<and> accounted (taken @ items tx')
               = (if k = 0 then 0 else unat (pump_seq p) + production (take k (updates_of steps)))"
proof -
  let ?us = "updates_of steps" and ?seqs = "frame_seqs sops"
  have sub: "subseq ?seqs (map ev_seq (pump_events p ?us))"
    using event_funnel.pump_run_subseq [OF assms(1), of steps p q] assms(2,11) by (simp add: subseq_map)
  note sorted = pump_events_sorted [OF assms(3)]
  have sorted1: "sorted_wrt (<) ?seqs"
    using subseq_sorted [OF sub] sorted by blast
  have mem: "set ?seqs \<subseteq> set (map ev_seq (pump_events p ?us))" by (rule subseq_set [OF sub])
  then have pos: "\<forall>s \<in> set ?seqs. 0 < s" using sorted by (fastforce simp: word_gt_0 intro: gr_implies_not_zero)
  obtain e' taken tx' where run: "sink_run ops sub sops (e, []) = (e', taken)" "subs e' sub = Some tx'"
    "accounted (taken @ items tx') = unat (seq_of e' sub)"
    using sink_channel.accounts [OF assms(4) _ assms(10) sorted1 pos] sink_channel.fresh_sink_def [OF assms(4)] assms(5-9)
    by blast
  have "seq_of e' sub = 0 \<or> seq_of e' sub \<in> ev_seq ` set (pump_events p ?us)"
    using seq_of_run [OF run(1)] mem assms(5) by (auto simp: seq_of_def)
  moreover have "\<exists>k. k \<le> length ?us \<and> k \<noteq> 0 \<and> unat s = unat (pump_seq p) + production (take k ?us)"
    if "s \<in> ev_seq ` set (pump_events p ?us)" for s
  proof -
    have "unat s \<in> set (map (unat \<circ> ev_seq) (pump_events p ?us))" using that by auto
    then obtain k where "k < length ?us" "unat s = unat (pump_seq p) + production (take (Suc k) ?us)"
      unfolding pump_events_seqs [OF assms(3)] by auto
    then show ?thesis by (intro exI [of _ "Suc k"]) auto
  qed
  ultimately show ?thesis using run by (metis le0 unat_0)
qed

theorem loss_accounted_end_to_end_witness:
  "\<exists>e' taken tx' k. sink_run list_chan_ops ''7'' [Frame 1 demo_update LiveEvent, Take, Frame 3 demo_update LiveEvent]
       (demo_engine, []) = (e', taken) \<and> subs e' ''7'' = Some tx'
     \<and> k \<le> length (updates_of [Some demo_update, None, Some (demo_update\<lparr>su_skipped := 1\<rparr>), None])
     \<and> accounted (taken @ lc_items tx')
         = (if k = 0 then 0 else unat (pump_seq \<lparr>pump_sub = ''7'', pump_generation = 0, pump_seq = 0\<rparr>)
              + production (take k (updates_of [Some demo_update, None, Some (demo_update\<lparr>su_skipped := 1\<rparr>), None])))"
  by (rule loss_accounted_end_to_end [OF list_funnel.event_funnel_axioms _ _ list_sink.sink_channel_axioms, where cap = 2
        and q = "\<lparr>lc_items = [], lc_capacity = Some 2, lc_open = True\<rparr>"
        and tx = "\<lparr>lc_items = [], lc_capacity = Some 2, lc_open = True\<rparr>"])
    (simp_all add: demo_engine_def demo_update_def sub_update_new_def engine_new_def list_chan_ops_def frame_seqs_def
      pump_update_def pump_event_def chan_full_def)

end
