(* ===== verification/Cdr.thy ===== *)
theory Cdr
  imports Prelude
begin

text \<open>
  \<open>aimdb-cdr\<close>: the XCDR1 encoding of ROS messages (\<open>ser.rs\<close>, \<open>de.rs\<close>, \<open>lib.rs\<close>).  A value is
  what its \<open>Serialize\<close> impl presents to the serializer (the serde data model); a type is what a
  \<open>Deserialize\<close> impl asks for.  Numbers, floats included, are their bit patterns; \<open>usize\<close> has at
  least 32 bits.
\<close>

subsection \<open>Errors and results\<close>

datatype cdr_error =
    BufferTooSmall
  | UnexpectedEof
  | InvalidHeader u8 u8
  | InvalidBool u8
  | InvalidUtf8
  | MissingNul
  | LengthOverflow
  | UnknownLength
  | Unsupported string

definition res_bind :: "'e + 'a \<Rightarrow> ('a \<Rightarrow> 'e + 'b) \<Rightarrow> 'e + 'b" where
  "res_bind r f = (case r of Inl e \<Rightarrow> Inl e | Inr x \<Rightarrow> f x)"

lemma res_bind_simps [simp]: "res_bind (Inl e) f = Inl e" "res_bind (Inr x) f = f x"
  by (simp_all add: res_bind_def)

lemma res_bind_cong [fundef_cong]:
  "r = r' \<Longrightarrow> (\<And>x. r' = Inr x \<Longrightarrow> f x = g x) \<Longrightarrow> res_bind r f = res_bind r' g"
  by (cases r') simp_all

subsection \<open>Values and types\<close>

datatype num_kind = I8 | I16 | I32 | I64 | U8 | U16 | U32 | U64 | F32 | F64

fun num_size :: "num_kind \<Rightarrow> nat" where
  "num_size I8 = 1" | "num_size U8 = 1"
| "num_size I16 = 2" | "num_size U16 = 2"
| "num_size I32 = 4" | "num_size U32 = 4" | "num_size F32 = 4"
| "num_size I64 = 8" | "num_size U64 = 8" | "num_size F64 = 8"

datatype cdr_value =
    VBool bool
  | VNum num_kind nat
  | VStr bytes
  | VBytes bytes
  | VUnit
  | VSeq "cdr_value list"
  | VStream "cdr_value list"
  | VTuple "cdr_value list"
  | VNewtype cdr_value
  | VChar nat
  | VOption "cdr_value option"
  | VEnum string
  | VMap "cdr_value list"
  | VDisplay string

datatype cdr_type =
    TBool
  | TNum num_kind
  | TStr
  | TBytes
  | TUnit
  | TSeq cdr_type
  | TTuple "cdr_type list"
  | TNewtype cdr_type
  | TAny
  | TChar
  | TOption cdr_type
  | TMap
  | TEnum
  | TIdentifier
  | TIgnored

subsection \<open>The serializer\<close>

text \<open>A writer: what was written, the room of a \<open>SliceWriter\<close> (none for a \<open>Vec\<close>), the position.\<close>

record writer =
  w_out :: bytes
  w_room :: "nat option"
  w_pos :: nat

definition write_all :: "bytes \<Rightarrow> writer \<Rightarrow> cdr_error + writer" where
  "write_all bs w =
     (case w_room w of
        None \<Rightarrow> Inr (w\<lparr>w_out := w_out w @ bs\<rparr>)
      | Some room \<Rightarrow>
          if length (w_out w) + length bs \<le> room then Inr (w\<lparr>w_out := w_out w @ bs\<rparr>) else Inl BufferTooSmall)"

definition ser_write :: "bytes \<Rightarrow> writer \<Rightarrow> cdr_error + writer" where
  "ser_write bs w = res_bind (write_all bs w) (\<lambda>w'. Inr (w'\<lparr>w_pos := w_pos w' + length bs\<rparr>))"

definition padding :: "nat \<Rightarrow> nat \<Rightarrow> nat" where
  "padding alignment pos = (alignment - pos mod alignment) mod alignment"

definition ser_align :: "nat \<Rightarrow> writer \<Rightarrow> cdr_error + writer" where
  "ser_align alignment w = ser_write (replicate (padding alignment (w_pos w)) 0) w"

definition ser_primitive :: "bytes \<Rightarrow> writer \<Rightarrow> cdr_error + writer" where
  "ser_primitive bs w = res_bind (ser_align (length bs) w) (ser_write bs)"

definition ser_length :: "nat \<Rightarrow> writer \<Rightarrow> cdr_error + writer" where
  "ser_length len w = (if len < 2 ^ 32 then ser_primitive (le_bytes 4 len) w else Inl LengthOverflow)"

fun serialize :: "cdr_value \<Rightarrow> writer \<Rightarrow> cdr_error + writer"
and serialize_all :: "cdr_value list \<Rightarrow> writer \<Rightarrow> cdr_error + writer" where
  "serialize (VBool b) w = ser_write [if b then 1 else 0] w"
| "serialize (VNum kind k) w = ser_primitive (le_bytes (num_size kind) k) w"
| "serialize (VStr s) w =
     res_bind (ser_length (length s + 1) w) (\<lambda>w. res_bind (ser_write s w) (ser_write [0]))"
| "serialize (VBytes bs) w = res_bind (ser_length (length bs) w) (ser_write bs)"
| "serialize VUnit w = Inr w"
| "serialize (VSeq vs) w = res_bind (ser_length (length vs) w) (\<lambda>w. serialize_all vs w)"
| "serialize (VStream vs) w = Inl UnknownLength"
| "serialize (VTuple vs) w = serialize_all vs w"
| "serialize (VNewtype v) w = serialize v w"
| "serialize (VChar c) w = Inl (Unsupported ''char'')"
| "serialize (VOption v) w = Inl (Unsupported ''Option'')"
| "serialize (VEnum s) w = Inl (Unsupported ''enum'')"
| "serialize (VMap vs) w = Inl (Unsupported ''map'')"
| "serialize (VDisplay s) w = Inl (Unsupported ''Display value'')"
| "serialize_all [] w = Inr w"
| "serialize_all (v # vs) w = res_bind (serialize v w) (\<lambda>w. serialize_all vs w)"

definition header_le :: bytes where
  "header_le = [0, 1, 0, 0]"

definition to_vec :: "cdr_value \<Rightarrow> cdr_error + bytes" where
  "to_vec v =
     res_bind (serialize v \<lparr>w_out = header_le, w_room = None, w_pos = 0\<rparr>) (\<lambda>w. Inr (w_out w))"

text \<open>\<open>to_slice\<close> into \<open>room\<close> bytes: the bytes written, header included.\<close>

definition to_slice :: "cdr_value \<Rightarrow> nat \<Rightarrow> cdr_error + bytes" where
  "to_slice v room =
     (if room < length header_le then Inl BufferTooSmall
      else res_bind (serialize v \<lparr>w_out = [], w_room = Some (room - length header_le), w_pos = 0\<rparr>)
             (\<lambda>w. Inr (header_le @ w_out w)))"

subsection \<open>The deserializer\<close>

record reader =
  rd_input :: bytes
  rd_pos :: nat
  rd_big_endian :: bool

definition remaining :: "reader \<Rightarrow> nat" where
  "remaining r = length (rd_input r) - rd_pos r"

definition rd_take :: "nat \<Rightarrow> reader \<Rightarrow> cdr_error + (bytes \<times> reader)" where
  "rd_take len r =
     (if rd_pos r + len \<le> length (rd_input r)
      then Inr (take len (drop (rd_pos r) (rd_input r)), r\<lparr>rd_pos := rd_pos r + len\<rparr>)
      else Inl UnexpectedEof)"

definition rd_align :: "nat \<Rightarrow> reader \<Rightarrow> cdr_error + reader" where
  "rd_align alignment r = res_bind (rd_take (padding alignment (rd_pos r)) r) (\<lambda>(_, r'). Inr r')"

definition rd_primitive :: "nat \<Rightarrow> reader \<Rightarrow> cdr_error + (nat \<times> reader)" where
  "rd_primitive n r =
     res_bind (rd_align n r) (\<lambda>r.
       res_bind (rd_take n r) (\<lambda>(bs, r').
         Inr (of_le_bytes (if rd_big_endian r then rev bs else bs), r')))"

definition read_u8 :: "reader \<Rightarrow> cdr_error + (u8 \<times> reader)" where
  "read_u8 r = res_bind (rd_take 1 r) (\<lambda>(bs, r'). Inr (hd bs, r'))"

definition read_length :: "reader \<Rightarrow> cdr_error + (nat \<times> reader)" where
  "read_length r =
     res_bind (rd_primitive 4 r) (\<lambda>(len, r').
       if remaining r' < len then Inl UnexpectedEof else Inr (len, r'))"

text \<open>\<open>core::str::from_utf8\<close>: continuation bytes, and the ranges of the second byte.\<close>

definition continuation :: "u8 \<Rightarrow> bool" where
  "continuation b \<longleftrightarrow> 0x80 \<le> b \<and> b \<le> 0xBF"

fun utf8 :: "bytes \<Rightarrow> bool" where
  "utf8 [] \<longleftrightarrow> True"
| "utf8 (a # bs) \<longleftrightarrow>
     (if a < 0x80 then utf8 bs
      else
        (case bs of
           [] \<Rightarrow> False
         | b # cs \<Rightarrow>
             if 0xC2 \<le> a \<and> a \<le> 0xDF then continuation b \<and> utf8 cs
             else
               (case cs of
                  [] \<Rightarrow> False
                | c # ds \<Rightarrow>
                    if 0xE0 \<le> a \<and> a \<le> 0xEF
                    then (if a = 0xE0 then 0xA0 \<le> b \<and> b \<le> 0xBF
                          else if a = 0xED then 0x80 \<le> b \<and> b \<le> 0x9F else continuation b)
                         \<and> continuation c \<and> utf8 ds
                    else
                      (case ds of
                         [] \<Rightarrow> False
                       | d # es \<Rightarrow>
                           0xF0 \<le> a \<and> a \<le> 0xF4
                           \<and> (if a = 0xF0 then 0x90 \<le> b \<and> b \<le> 0xBF
                              else if a = 0xF4 then 0x80 \<le> b \<and> b \<le> 0x8F else continuation b)
                           \<and> continuation c \<and> continuation d \<and> utf8 es))))"

definition read_str :: "reader \<Rightarrow> cdr_error + (bytes \<times> reader)" where
  "read_str r =
     res_bind (read_length r) (\<lambda>(len, r).
       if len = 0 then Inr ([], r)
       else
         res_bind (rd_take len r) (\<lambda>(bs, r').
           if last bs \<noteq> 0 then Inl MissingNul
           else if utf8 (butlast bs) then Inr (butlast bs, r') else Inl InvalidUtf8))"

fun deserialize :: "cdr_type \<Rightarrow> reader \<Rightarrow> cdr_error + (cdr_value \<times> reader)"
and deserialize_seq :: "cdr_type \<Rightarrow> nat \<Rightarrow> reader \<Rightarrow> cdr_error + (cdr_value list \<times> reader)"
and deserialize_all :: "cdr_type list \<Rightarrow> reader \<Rightarrow> cdr_error + (cdr_value list \<times> reader)" where
  "deserialize TBool r =
     res_bind (read_u8 r) (\<lambda>(b, r').
       if b = 0 then Inr (VBool False, r') else if b = 1 then Inr (VBool True, r') else Inl (InvalidBool b))"
| "deserialize (TNum kind) r = res_bind (rd_primitive (num_size kind) r) (\<lambda>(k, r'). Inr (VNum kind k, r'))"
| "deserialize TStr r = res_bind (read_str r) (\<lambda>(s, r'). Inr (VStr s, r'))"
| "deserialize TBytes r =
     res_bind (read_length r) (\<lambda>(len, r). res_bind (rd_take len r) (\<lambda>(bs, r'). Inr (VBytes bs, r')))"
| "deserialize TUnit r = Inr (VUnit, r)"
| "deserialize (TSeq t) r =
     res_bind (read_length r) (\<lambda>(len, r). res_bind (deserialize_seq t len r) (\<lambda>(vs, r'). Inr (VSeq vs, r')))"
| "deserialize (TTuple ts) r = res_bind (deserialize_all ts r) (\<lambda>(vs, r'). Inr (VTuple vs, r'))"
| "deserialize (TNewtype t) r = res_bind (deserialize t r) (\<lambda>(v, r'). Inr (VNewtype v, r'))"
| "deserialize TAny r = Inl (Unsupported ''self-describing deserialize'')"
| "deserialize TChar r = Inl (Unsupported ''char'')"
| "deserialize (TOption t) r = Inl (Unsupported ''Option'')"
| "deserialize TMap r = Inl (Unsupported ''map'')"
| "deserialize TEnum r = Inl (Unsupported ''enum'')"
| "deserialize TIdentifier r = Inl (Unsupported ''identifier'')"
| "deserialize TIgnored r = Inl (Unsupported ''ignored field'')"
| "deserialize_seq t 0 r = Inr ([], r)"
| "deserialize_seq t (Suc n) r =
     res_bind (deserialize t r) (\<lambda>(v, r). res_bind (deserialize_seq t n r) (\<lambda>(vs, r'). Inr (v # vs, r')))"
| "deserialize_all [] r = Inr ([], r)"
| "deserialize_all (t # ts) r =
     res_bind (deserialize t r) (\<lambda>(v, r). res_bind (deserialize_all ts r) (\<lambda>(vs, r'). Inr (v # vs, r')))"

definition from_bytes :: "cdr_type \<Rightarrow> bytes \<Rightarrow> cdr_error + cdr_value" where
  "from_bytes t bs =
     (case bs of
        a # b # c # d # body \<Rightarrow>
          if a = 0 \<and> b = 1 \<or> a = 0 \<and> b = 0
          then res_bind (deserialize t \<lparr>rd_input = body, rd_pos = 0, rd_big_endian = (b = 0)\<rparr>) (\<lambda>(v, _). Inr v)
          else Inl (InvalidHeader a b)
      | _ \<Rightarrow> Inl UnexpectedEof)"

subsection \<open>The encoding as a function of the value and its offset\<close>

definition enc_primitive :: "bytes \<Rightarrow> nat \<Rightarrow> bytes" where
  "enc_primitive bs pos = replicate (padding (length bs) pos) 0 @ bs"

definition enc_length :: "nat \<Rightarrow> nat \<Rightarrow> bytes" where
  "enc_length len pos = enc_primitive (le_bytes 4 len) pos"

fun enc :: "cdr_value \<Rightarrow> nat \<Rightarrow> bytes"
and enc_all :: "cdr_value list \<Rightarrow> nat \<Rightarrow> bytes" where
  "enc (VBool b) pos = [if b then 1 else 0]"
| "enc (VNum kind k) pos = enc_primitive (le_bytes (num_size kind) k) pos"
| "enc (VStr s) pos = enc_length (length s + 1) pos @ s @ [0]"
| "enc (VBytes bs) pos = enc_length (length bs) pos @ bs"
| "enc (VSeq vs) pos = enc_length (length vs) pos @ enc_all vs (pos + length (enc_length (length vs) pos))"
| "enc (VTuple vs) pos = enc_all vs pos"
| "enc (VNewtype v) pos = enc v pos"
| "enc _ pos = []"
| "enc_all [] pos = []"
| "enc_all (v # vs) pos = enc v pos @ enc_all vs (pos + length (enc v pos))"

text \<open>The first construct of a value that has no encoding.\<close>

fun ser_error :: "cdr_value \<Rightarrow> cdr_error option"
and ser_errors :: "cdr_value list \<Rightarrow> cdr_error option" where
  "ser_error (VStr s) = (if length s + 1 < 2 ^ 32 then None else Some LengthOverflow)"
| "ser_error (VBytes bs) = (if length bs < 2 ^ 32 then None else Some LengthOverflow)"
| "ser_error (VSeq vs) = (if length vs < 2 ^ 32 then ser_errors vs else Some LengthOverflow)"
| "ser_error (VStream vs) = Some UnknownLength"
| "ser_error (VTuple vs) = ser_errors vs"
| "ser_error (VNewtype v) = ser_error v"
| "ser_error (VChar c) = Some (Unsupported ''char'')"
| "ser_error (VOption v) = Some (Unsupported ''Option'')"
| "ser_error (VEnum s) = Some (Unsupported ''enum'')"
| "ser_error (VMap vs) = Some (Unsupported ''map'')"
| "ser_error (VDisplay s) = Some (Unsupported ''Display value'')"
| "ser_error _ = None"
| "ser_errors [] = None"
| "ser_errors (v # vs) = (case ser_error v of Some e \<Rightarrow> Some e | None \<Rightarrow> ser_errors vs)"

text \<open>Writing bytes that fit or do not: writes compose.\<close>

definition advance :: "bytes \<Rightarrow> writer \<Rightarrow> writer" where
  "advance bs w = w\<lparr>w_out := w_out w @ bs, w_pos := w_pos w + length bs\<rparr>"

definition fits :: "writer \<Rightarrow> nat \<Rightarrow> bool" where
  "fits w n \<longleftrightarrow> (case w_room w of None \<Rightarrow> True | Some room \<Rightarrow> length (w_out w) + n \<le> room)"

lemma advance_simps [simp]:
  "w_pos (advance bs w) = w_pos w + length bs" "w_out (advance bs w) = w_out w @ bs"
  "w_room (advance bs w) = w_room w" "advance b (advance a w) = advance (a @ b) w" "advance [] w = w"
  "fits (advance a w) n \<longleftrightarrow> fits w (length a + n)"
  by (simp_all add: advance_def fits_def add.assoc split: option.splits)

lemma ser_write_eq: "ser_write bs w = (if fits w (length bs) then Inr (advance bs w) else Inl BufferTooSmall)"
  by (auto simp: ser_write_def write_all_def fits_def advance_def split: option.splits)

lemma fits_mono: "fits w (m + n) \<Longrightarrow> fits w m"
  by (auto simp: fits_def split: option.splits)

lemma write_write: "res_bind (ser_write a w) (ser_write b) = ser_write (a @ b) w"
  using fits_mono by (auto simp: ser_write_eq)

lemma write_then:
  assumes "\<And>w'. w_pos w' = w_pos w + length a \<Longrightarrow> w_room w' = w_room w \<Longrightarrow> f w' = ser_write b w'"
  shows "res_bind (ser_write a w) f = ser_write (a @ b) w"
  using assms [of "advance a w"] fits_mono [of w "length a" "length b"] by (auto simp: ser_write_eq)

lemma ser_primitive_eq: "ser_primitive bs w = ser_write (enc_primitive bs (w_pos w)) w"
  by (simp add: ser_primitive_def ser_align_def write_write enc_primitive_def)

lemma ser_length_eq:
  "ser_length len w = (if len < 2 ^ 32 then ser_write (enc_length len (w_pos w)) w else Inl LengthOverflow)"
  by (simp add: ser_length_def ser_primitive_eq enc_length_def)

lemma ser_write_Nil: "w_room w = None \<or> length (w_out w) \<le> the (w_room w) \<Longrightarrow> ser_write [] w = Inr w"
  by (auto simp: ser_write_eq fits_def split: option.splits)

text \<open>The serializer is this encoding, up to the first construct it refuses.\<close>

definition sane :: "writer \<Rightarrow> bool" where
  "sane w \<longleftrightarrow> fits w 0"

lemma write_sane: "ser_write a w = Inr w' \<Longrightarrow> sane w' \<and> w' = advance a w"
  by (auto simp: ser_write_eq sane_def split: if_splits)

lemma serialize_exact:
  "ser_error v = None \<Longrightarrow> sane w \<Longrightarrow> serialize v w = ser_write (enc v (w_pos w)) w"
  "ser_errors vs = None \<Longrightarrow> sane w \<Longrightarrow> serialize_all vs w = ser_write (enc_all vs (w_pos w)) w"
proof (induction v w and vs w rule: serialize_serialize_all.induct)
  case (3 s w)
  then show ?case by (auto simp: ser_length_eq write_write split: if_splits)
next
  case (4 bs w)
  then show ?case by (auto simp: ser_length_eq write_write split: if_splits)
next
  case (6 vs w)
  show ?case
  proof (cases "ser_write (enc_length (length vs) (w_pos w)) w")
    case (Inl e)
    then show ?thesis using 6 fits_mono by (auto simp: ser_length_eq ser_write_eq split: if_splits)
  next
    case (Inr w')
    then have "sane w'" "w' = advance (enc_length (length vs) (w_pos w)) w" using write_sane by blast+
    then show ?thesis using 6 Inr by (auto simp: ser_length_eq ser_write_eq split: if_splits)
  qed
next
  case (16 v vs w)
  have v: "serialize v w = ser_write (enc v (w_pos w)) w" "ser_errors vs = None"
    using 16 by (auto split: option.splits)
  show ?case
  proof (cases "ser_write (enc v (w_pos w)) w")
    case (Inl e)
    then show ?thesis using v fits_mono by (auto simp: ser_write_eq split: if_splits)
  next
    case (Inr w')
    then have "sane w'" "w' = advance (enc v (w_pos w)) w" using write_sane by blast+
    then show ?thesis using 16(2) [of w'] v Inr by (auto simp: ser_write_eq split: if_splits)
  qed
qed (auto simp: ser_primitive_eq ser_length_eq write_write ser_write_eq sane_def intro: write_then split: if_splits)

lemma unbounded_write: "w_room w = None \<Longrightarrow> ser_write bs w = Inr (advance bs w)"
  by (simp add: ser_write_eq fits_def)

lemma serialize_refuses:
  "ser_error v = Some e \<Longrightarrow> sane w \<Longrightarrow> \<exists>e'. serialize v w = Inl e' \<and> (w_room w = None \<longrightarrow> e' = e)"
  "ser_errors vs = Some e \<Longrightarrow> sane w \<Longrightarrow> \<exists>e'. serialize_all vs w = Inl e' \<and> (w_room w = None \<longrightarrow> e' = e)"
proof (induction v w and vs w rule: serialize_serialize_all.induct)
  case (6 vs w)
  show ?case
  proof (cases "ser_length (length vs) w")
    case (Inl e')
    then show ?thesis using 6(2) unbounded_write [of w] by (auto simp: ser_length_eq split: if_splits)
  next
    case (Inr w')
    then have "sane w'" "w' = advance (enc_length (length vs) (w_pos w)) w" "ser_errors vs = Some e"
      using 6(2) write_sane by (auto simp: ser_length_eq split: if_splits)
    then show ?thesis using 6(1) [OF Inr] Inr by simp
  qed
next
  case (16 v vs w)
  show ?case
  proof (cases "ser_error v")
    case (Some e1)
    then show ?thesis using 16(1) [of ] 16(3,4) by fastforce
  next
    case None
    then have v: "serialize v w = ser_write (enc v (w_pos w)) w" by (rule serialize_exact) (rule 16(4))
    show ?thesis
    proof (cases "serialize v w")
      case (Inl e')
      then show ?thesis using v unbounded_write [of w] by auto
    next
      case (Inr w')
      then have "sane w'" "w' = advance (enc v (w_pos w)) w" using v write_sane by auto
      then show ?thesis using 16(2) [OF Inr] 16(3) None Inr by simp
    qed
  qed
qed (auto simp: ser_length_eq split: if_splits)

text \<open>
  The serializer, exactly: \<open>to_vec\<close> yields the header and the aligned encoding of the value, or
  the error of the first construct without an encoding.
\<close>

theorem to_vec_exact:
  "to_vec v = (case ser_error v of Some e \<Rightarrow> Inl e | None \<Rightarrow> Inr (header_le @ enc v 0))"
proof -
  let ?w = "\<lparr>w_out = header_le, w_room = None, w_pos = 0\<rparr>"
  have "sane ?w" by (simp add: sane_def fits_def)
  then show ?thesis
    using serialize_exact(1) [of v ?w] serialize_refuses(1) [of v _ ?w] unbounded_write [of ?w]
    by (cases "ser_error v") (auto simp: to_vec_def)
qed

text \<open>
  Writing into a slice agrees with the allocating form: it yields the same bytes exactly when
  they fit, and fails otherwise.
\<close>

theorem to_slice_iff: "to_slice v room = Inr bs \<longleftrightarrow> to_vec v = Inr bs \<and> length bs \<le> room"
proof (cases "room < length header_le")
  case True
  then show ?thesis by (auto simp: to_slice_def to_vec_exact split: option.splits)
next
  case False
  let ?w = "\<lparr>w_out = [], w_room = Some (room - length header_le), w_pos = 0\<rparr>"
  have "sane ?w" by (simp add: sane_def fits_def)
  show ?thesis
  proof (cases "ser_error v")
    case None
    then have "serialize v ?w = ser_write (enc v 0) ?w" using serialize_exact(1) [OF None \<open>sane ?w\<close>] by simp
    then show ?thesis using None False by (auto simp: to_slice_def to_vec_exact ser_write_eq fits_def)
  next
    case (Some e)
    then show ?thesis using serialize_refuses(1) [OF Some \<open>sane ?w\<close>] False
      by (auto simp: to_slice_def to_vec_exact)
  qed
qed

subsection \<open>Reading back\<close>

text \<open>A value of a type; sequence elements that may take no byte at all are excluded.\<close>

fun wide :: "cdr_type \<Rightarrow> bool" where
  "wide (TTuple ts) \<longleftrightarrow> list_ex wide ts"
| "wide (TNewtype t) \<longleftrightarrow> wide t"
| "wide t \<longleftrightarrow> t \<noteq> TUnit"

fun typed :: "cdr_value \<Rightarrow> cdr_type \<Rightarrow> bool"
and typed_all :: "cdr_value list \<Rightarrow> cdr_type list \<Rightarrow> bool" where
  "typed (VBool b) t \<longleftrightarrow> t = TBool"
| "typed (VNum kind k) t \<longleftrightarrow> t = TNum kind \<and> k < 256 ^ num_size kind"
| "typed (VStr s) t \<longleftrightarrow> t = TStr \<and> utf8 s"
| "typed (VBytes bs) t \<longleftrightarrow> t = TBytes"
| "typed VUnit t \<longleftrightarrow> t = TUnit"
| "typed (VSeq vs) t \<longleftrightarrow>
     (case t of TSeq u \<Rightarrow> wide u \<and> typed_all vs (replicate (length vs) u) | _ \<Rightarrow> False)"
| "typed (VTuple vs) t \<longleftrightarrow> (case t of TTuple ts \<Rightarrow> typed_all vs ts | _ \<Rightarrow> False)"
| "typed (VNewtype v) t \<longleftrightarrow> (case t of TNewtype u \<Rightarrow> typed v u | _ \<Rightarrow> False)"
| "typed _ t \<longleftrightarrow> False"
| "typed_all [] ts \<longleftrightarrow> ts = []"
| "typed_all (v # vs) ts \<longleftrightarrow> (case ts of [] \<Rightarrow> False | t # ts' \<Rightarrow> typed v t \<and> typed_all vs ts')"

lemma le_bytes_Nil [simp]: "le_bytes n k = [] \<longleftrightarrow> n = 0"
  by (cases n) simp_all

lemma enc_length_not_Nil [simp]: "enc_length n pos \<noteq> []"
  by (simp add: enc_length_def enc_primitive_def)

lemma wide_enc:
  "typed v t \<Longrightarrow> wide t \<Longrightarrow> enc v pos \<noteq> []"
  "typed_all vs ts \<Longrightarrow> list_ex wide ts \<Longrightarrow> enc_all vs pos \<noteq> []"
proof (induction v t and vs ts arbitrary: pos and pos rule: typed_typed_all.induct)
  case (2 kind k t)
  then show ?case by (cases kind) (simp_all add: enc_primitive_def)
next
  case (7 vs t)
  then show ?case by (cases t) simp_all
next
  case (8 v t)
  then show ?case by (cases t) simp_all
next
  case (11 v vs ts)
  then show ?case by (cases ts) auto
qed simp_all

lemma wide_length:
  "typed_all vs (replicate (length vs) t) \<Longrightarrow> wide t \<Longrightarrow> length vs \<le> length (enc_all vs pos)"
proof (induction vs arbitrary: pos)
  case (Cons v vs)
  have "enc v pos \<noteq> []" using wide_enc(1) [of v t pos] Cons.prems by simp
  then have "1 \<le> length (enc v pos)" by (simp add: Suc_leI)
  then show ?case using Cons.IH [of "pos + length (enc v pos)"] Cons.prems by simp
qed simp

text \<open>A reader at the start of some bytes, in the little-endian order the crate writes.\<close>

definition at :: "bytes \<Rightarrow> bytes \<Rightarrow> reader" where
  "at pre rest = \<lparr>rd_input = pre @ rest, rd_pos = length pre, rd_big_endian = False\<rparr>"

lemma take_at: "rd_take (length bs) (at pre (bs @ rest)) = Inr (bs, at (pre @ bs) rest)"
  by (simp add: rd_take_def at_def)

lemma take_at': "length bs = n \<Longrightarrow> rd_take n (at pre (bs @ rest)) = Inr (bs, at (pre @ bs) rest)"
  using take_at by blast

lemma primitive_at:
  assumes "k < 256 ^ n"
  shows "rd_primitive n (at pre (enc_primitive (le_bytes n k) (length pre) @ rest))
      = Inr (k, at (pre @ enc_primitive (le_bytes n k) (length pre)) rest)"
proof -
  let ?pad = "replicate (padding n (length pre)) (0 :: u8)"
  have "rd_align n (at pre ((?pad @ le_bytes n k) @ rest)) = Inr (at (pre @ ?pad) (le_bytes n k @ rest))"
    using take_at' [of ?pad "padding n (length pre)" pre "le_bytes n k @ rest"]
    by (simp add: rd_align_def at_def)
  moreover have "rd_take n (at (pre @ ?pad) (le_bytes n k @ rest)) = Inr (le_bytes n k, at ((pre @ ?pad) @ le_bytes n k) rest)"
    by (rule take_at') simp
  ultimately show ?thesis using assms
    by (simp add: rd_primitive_def enc_primitive_def of_le_bytes_le_bytes) (simp add: at_def)
qed

lemma length_at:
  assumes "len < 2 ^ 32" and "len \<le> length rest"
  shows "read_length (at pre (enc_length len (length pre) @ rest)) = Inr (len, at (pre @ enc_length len (length pre)) rest)"
proof -
  have "len < 256 ^ 4" using assms(1) by simp
  then show ?thesis using primitive_at [of len 4 pre rest] assms(2)
    by (simp add: read_length_def enc_length_def remaining_def) (simp add: at_def)
qed

lemma str_at:
  assumes "length s + 1 < 2 ^ 32" and "utf8 s"
  shows "read_str (at pre ((enc_length (length s + 1) (length pre) @ s @ [0]) @ rest))
      = Inr (s, at (pre @ enc_length (length s + 1) (length pre) @ s @ [0]) rest)"
  using assms length_at [of "length s + 1" "(s @ [0]) @ rest" pre]
    take_at' [of "s @ [0]" "length s + 1" "pre @ enc_length (length s + 1) (length pre)" rest]
  by (simp add: read_str_def)

lemma seq_at:
  assumes "\<And>v pre rest. v \<in> set vs \<Longrightarrow> deserialize t (at pre (enc v (length pre) @ rest)) = Inr (v, at (pre @ enc v (length pre)) rest)"
  shows "deserialize_seq t (length vs) (at pre (enc_all vs (length pre) @ rest)) = Inr (vs, at (pre @ enc_all vs (length pre)) rest)"
  using assms
proof (induction vs arbitrary: pre)
  case (Cons v vs)
  show ?case using Cons.prems [of v pre] Cons.IH [of "pre @ enc v (length pre)"] Cons.prems by simp
qed simp

lemma deserialize_at:
  "typed v t \<Longrightarrow> ser_error v = None \<Longrightarrow>
     deserialize t (at pre (enc v (length pre) @ rest)) = Inr (v, at (pre @ enc v (length pre)) rest)"
  "typed_all vs ts \<Longrightarrow> ser_errors vs = None \<Longrightarrow>
     deserialize_all ts (at pre (enc_all vs (length pre) @ rest)) = Inr (vs, at (pre @ enc_all vs (length pre)) rest)
     \<and> (\<forall>t. ts = replicate (length vs) t \<longrightarrow>
          deserialize_seq t (length vs) (at pre (enc_all vs (length pre) @ rest)) = Inr (vs, at (pre @ enc_all vs (length pre)) rest))"
proof (induction v t and vs ts arbitrary: pre rest and pre rest rule: typed_typed_all.induct)
  case (1 b t)
  then show ?case using take_at' [of "[if b then 1 else 0]" 1 pre rest] by (simp add: read_u8_def)
next
  case (2 kind k t)
  then show ?case using primitive_at [of k "num_size kind" pre rest] by simp
next
  case (3 s t)
  then show ?case using str_at [of s pre rest] by (simp split: if_splits)
next
  case (4 bs t)
  then show ?case using length_at [of "length bs" "bs @ rest" pre] take_at [of bs "pre @ enc_length (length bs) (length pre)" rest]
    by (simp split: if_splits)
next
  case (6 vs t)
  then obtain u where u: "t = TSeq u" "wide u" "typed_all vs (replicate (length vs) u)" by (cases t) simp_all
  let ?pre = "pre @ enc_length (length vs) (length pre)"
  have len: "length vs < 2 ^ 32" "ser_errors vs = None" using 6 by (simp_all split: if_splits)
  have "deserialize_seq u (length vs) (at ?pre (enc_all vs (length ?pre) @ rest)) = Inr (vs, at (?pre @ enc_all vs (length ?pre)) rest)"
    using 6(1) [OF u(1), of ?pre rest] u(3) len(2) by blast
  then show ?case using length_at [of "length vs" "enc_all vs (length ?pre) @ rest" pre] len
      wide_length [OF u(3,2), of "length ?pre"] u(1)
    by (simp add: add.commute)
next
  case (7 vs t)
  then show ?case by (cases t) simp_all
next
  case (8 v t)
  then show ?case by (cases t) simp_all
next
  case (11 v vs ts)
  then obtain t ts' where ts: "ts = t # ts'" "typed v t" "typed_all vs ts'" by (cases ts) simp_all
  have ok: "ser_error v = None" "ser_errors vs = None" using 11(4) by (auto split: option.splits)
  note hd = 11(1) [OF ts(1,2) ok(1), of pre "enc_all vs (length pre + length (enc v (length pre))) @ rest"]
  note tl = 11(2) [OF ts(1,3) ok(2), of "pre @ enc v (length pre)" rest]
  show ?case using hd tl ts(1) by (auto simp: Cons_replicate_eq)
qed simp_all

text \<open>
  C24. Round trip: a value of a type without zero-size sequence elements, once encoded, decodes to
  itself, whatever bytes follow it.
\<close>

theorem cdr_roundtrip:
  assumes "typed v t" and "to_vec v = Inr bs"
  shows "from_bytes t (bs @ trailing) = Inr v"
proof -
  have ok: "ser_error v = None" "bs = header_le @ enc v 0"
    using assms(2) by (auto simp: to_vec_exact split: option.splits)
  then show ?thesis
    using deserialize_at(1) [OF assms(1) ok(1), of "[]" trailing] by (simp add: from_bytes_def header_le_def at_def)
qed

definition demo_value :: cdr_value where
  "demo_value = VTuple [VBool True, VNum I32 5, VStr [104, 105], VSeq [VNum F64 1, VNum F64 2]]"

definition demo_type :: cdr_type where
  "demo_type = TTuple [TBool, TNum I32, TStr, TSeq (TNum F64)]"

theorem cdr_roundtrip_witness:
  "from_bytes demo_type ((header_le @ enc demo_value 0) @ [1, 2, 3]) = Inr demo_value"
  by (rule cdr_roundtrip) (simp_all add: demo_value_def demo_type_def to_vec_exact)

subsection \<open>What decoding yields\<close>

text \<open>A value of a type, no string or sequence of it longer than \<open>n\<close>.\<close>

fun has_type :: "nat \<Rightarrow> cdr_value \<Rightarrow> cdr_type \<Rightarrow> bool"
and has_types :: "nat \<Rightarrow> cdr_value list \<Rightarrow> cdr_type list \<Rightarrow> bool" where
  "has_type n (VBool b) t \<longleftrightarrow> t = TBool"
| "has_type n (VNum kind k) t \<longleftrightarrow> t = TNum kind \<and> k < 256 ^ num_size kind"
| "has_type n (VStr s) t \<longleftrightarrow> t = TStr \<and> utf8 s \<and> length s \<le> n"
| "has_type n (VBytes bs) t \<longleftrightarrow> t = TBytes \<and> length bs \<le> n"
| "has_type n VUnit t \<longleftrightarrow> t = TUnit"
| "has_type n (VSeq vs) t \<longleftrightarrow>
     (case t of TSeq u \<Rightarrow> length vs \<le> n \<and> has_types n vs (replicate (length vs) u) | _ \<Rightarrow> False)"
| "has_type n (VTuple vs) t \<longleftrightarrow> (case t of TTuple ts \<Rightarrow> has_types n vs ts | _ \<Rightarrow> False)"
| "has_type n (VNewtype v) t \<longleftrightarrow> (case t of TNewtype u \<Rightarrow> has_type n v u | _ \<Rightarrow> False)"
| "has_type n _ t \<longleftrightarrow> False"
| "has_types n [] ts \<longleftrightarrow> ts = []"
| "has_types n (v # vs) ts \<longleftrightarrow> (case ts of [] \<Rightarrow> False | t # ts' \<Rightarrow> has_type n v t \<and> has_types n vs ts')"

lemma has_type_mono:
  "has_type m v t \<Longrightarrow> m \<le> n \<Longrightarrow> has_type n v t"
  "has_types m vs ts \<Longrightarrow> m \<le> n \<Longrightarrow> has_types n vs ts"
  by (induction m v t and m vs ts rule: has_type_has_types.induct) (auto split: cdr_type.splits list.splits)

lemma res_bind_Inr: "res_bind r f = Inr y \<longleftrightarrow> (\<exists>x. r = Inr x \<and> f x = Inr y)"
  by (cases r) simp_all

lemma rd_take_Inr:
  "rd_take n r = Inr (bs, r') \<Longrightarrow> length bs = n \<and> rd_input r' = rd_input r \<and> n \<le> length (rd_input r)"
  by (auto simp: rd_take_def split: if_splits)

lemma rd_primitive_Inr:
  assumes "rd_primitive n r = Inr (k, r')"
  shows "k < 256 ^ n" and "rd_input r' = rd_input r"
proof -
  obtain r1 bs where al: "rd_align n r = Inr r1" and tk: "rd_take n r1 = Inr (bs, r')"
    and k: "k = of_le_bytes (if rd_big_endian r1 then rev bs else bs)"
    using assms by (auto simp: rd_primitive_def res_bind_Inr)
  have "length (if rd_big_endian r1 then rev bs else bs) = n" using rd_take_Inr [OF tk] by simp
  then show "k < 256 ^ n" unfolding k using of_le_bytes_bound by metis
  show "rd_input r' = rd_input r"
    using al rd_take_Inr [OF tk] by (auto simp: rd_align_def res_bind_Inr dest: rd_take_Inr)
qed

lemma read_length_Inr:
  "read_length r = Inr (len, r') \<Longrightarrow> rd_input r' = rd_input r \<and> len \<le> length (rd_input r)"
  by (auto simp: read_length_def res_bind_Inr remaining_def not_less dest!: rd_primitive_Inr(2) split: if_splits)

lemma read_str_Inr:
  "read_str r = Inr (s, r') \<Longrightarrow> utf8 s \<and> length s \<le> length (rd_input r) \<and> rd_input r' = rd_input r"
  by (auto simp: read_str_def res_bind_Inr split: if_splits dest!: read_length_Inr rd_take_Inr)

lemma deserialize_typed:
  "deserialize t r = Inr (v, r') \<Longrightarrow> has_type (length (rd_input r)) v t \<and> rd_input r' = rd_input r"
  "deserialize_seq t n r = Inr (vs, r') \<Longrightarrow>
     length vs = n \<and> has_types (length (rd_input r)) vs (replicate n t) \<and> rd_input r' = rd_input r"
  "deserialize_all ts r = Inr (vs, r') \<Longrightarrow> has_types (length (rd_input r)) vs ts \<and> rd_input r' = rd_input r"
proof (induction t r and t n r and ts r arbitrary: v r' and vs r' and vs r'
    rule: deserialize_deserialize_seq_deserialize_all.induct)
  case (1 r)
  then show ?case
    by (auto simp: res_bind_Inr read_u8_def split: if_splits dest!: rd_take_Inr)
next
  case (2 kind r)
  then show ?case using rd_primitive_Inr by (auto simp: res_bind_Inr)
next
  case (3 r)
  then show ?case using read_str_Inr by (auto simp: res_bind_Inr)
next
  case (4 r)
  then show ?case by (auto simp: res_bind_Inr dest!: read_length_Inr rd_take_Inr)
next
  case (6 t r)
  then obtain len r1 vs where l: "read_length r = Inr (len, r1)"
    and s: "deserialize_seq t len r1 = Inr (vs, r')" and v: "v = VSeq vs"
    by (auto simp: res_bind_Inr)
  show ?case using 6(1) [OF l refl s] read_length_Inr [OF l] by (simp add: v)
next
  case (7 ts r)
  then obtain vs where s: "deserialize_all ts r = Inr (vs, r')" and v: "v = VTuple vs"
    by (auto simp: res_bind_Inr)
  show ?case using 7(1) [OF s] by (simp add: v)
next
  case (8 t r)
  then obtain u where s: "deserialize t r = Inr (u, r')" and v: "v = VNewtype u"
    by (auto simp: res_bind_Inr)
  show ?case using 8(1) [OF s] by (simp add: v)
next
  case (17 t n r)
  from 17(3) obtain u r1 us where a: "deserialize t r = Inr (u, r1)" and b: "deserialize_seq t n r1 = Inr (us, r')"
    and vs: "vs = u # us" by (auto simp: res_bind_Inr)
  show ?case using 17(1) [OF a] 17(2) [OF a refl b] by (simp add: vs)
next
  case (19 t ts r)
  from 19(3) obtain u r1 us where a: "deserialize t r = Inr (u, r1)" and b: "deserialize_all ts r1 = Inr (us, r')"
    and vs: "vs = u # us" by (auto simp: res_bind_Inr)
  show ?case using 19(1) [OF a] 19(2) [OF a refl b] by (simp add: vs)
qed simp_all

text \<open>
  C37. Decoding is type safe.  Whatever the bytes, a decoded value is one of the type asked for:
  numbers in their range, strings of valid UTF-8, tuples of the type's length; and no string or
  sequence in it is longer than the input, so a forged length allocates nothing beyond it.
\<close>

theorem from_bytes_typed:
  assumes "from_bytes t bs = Inr v"
  shows "has_type (length bs) v t"
proof -
  obtain a b c d body r' where bs: "bs = a # b # c # d # body"
    and v: "deserialize t \<lparr>rd_input = body, rd_pos = 0, rd_big_endian = (b = 0)\<rparr> = Inr (v, r')"
    using assms by (auto simp: from_bytes_def res_bind_Inr split: list.splits if_splits)
  have "has_type (length body) v t" using deserialize_typed(1) [OF v] by simp
  then show ?thesis by (rule has_type_mono(1)) (simp add: bs)
qed

theorem from_bytes_typed_witness:
  "has_type 13 (VTuple [VNum U16 5, VSeq [VBool True]]) (TTuple [TNum U16, TSeq TBool])"
proof -
  let ?bs = "[0, 1, 0, 0, 5, 0, 0, 0, 1, 0, 0, 0, 1] :: bytes"
  have "from_bytes (TTuple [TNum U16, TSeq TBool]) ?bs = Inr (VTuple [VNum U16 5, VSeq [VBool True]])"
    by code_simp
  from from_bytes_typed [OF this] show ?thesis by simp
qed

end
