(* ===== verification/Knx_Tunnel.thy ===== *)
theory Knx_Tunnel
  imports Prelude "HOL-Library.Multiset"
begin

text \<open>
  \<open>aimdb-knx-connector/src/tunnel.rs\<close>: the KNX/IP tunnelling engine, which owns no I/O and no clock.
  The wire format (\<open>knx_pico\<close>) is the parameter \<open>pico\<close>; the pending-acknowledgement table
  (\<open>heapless::FnvIndexMap\<close>) is its entries in iteration order, whose removal, which may reorder
  them, is the parameter \<open>rm\<close>.  Times are milliseconds in 64 bits.
\<close>

subsection \<open>Parameters\<close>

datatype service = ConnectResponseS | TunnellingAckS | TunnellingRequestS | ConnectionstateResponseS | OtherS

record ldata =
  ld_group_write :: bool
  ld_group :: "u16 option"
  ld_data :: bytes
  ld_six_bit :: u8

datatype hpai = Hpai u8 u8 u8 u8 u16

record pico =
  parse_frame :: "bytes \<Rightarrow> (service \<times> bytes) option"
  parse_connect :: "bytes \<Rightarrow> (u8 \<times> u8) option"
  parse_ack :: "bytes \<Rightarrow> u8 option"
  parse_request :: "bytes \<Rightarrow> (u8 \<times> bytes) option"
  parse_state :: "bytes \<Rightarrow> bool option"
  parse_ldata :: "bytes \<Rightarrow> ldata option"
  build_connect :: "hpai \<Rightarrow> bytes"
  build_ack :: "u8 \<Rightarrow> u8 \<Rightarrow> bytes"
  build_request :: "u8 \<Rightarrow> u8 \<Rightarrow> bytes \<Rightarrow> bytes"
  build_state :: "u8 \<Rightarrow> hpai \<Rightarrow> bytes"

type_synonym 'a seq_map = "(u8 \<times> 'a) list"

locale seq_table =
  fixes rm :: "u8 \<Rightarrow> 'a seq_map \<Rightarrow> 'a seq_map"
  assumes rm_mset: "distinct (map fst m) \<Longrightarrow> mset (rm k m) = mset (filter (\<lambda>(j, _). j \<noteq> k) m)"
begin

lemma rm_set: "distinct (map fst m) \<Longrightarrow> set (rm k m) = {(j, p). (j, p) \<in> set m \<and> j \<noteq> k}"
  using arg_cong [OF rm_mset [of m k], of set_mset] by auto

lemma rm_keys: "distinct (map fst m) \<Longrightarrow> fst ` set (rm k m) = fst ` set m - {k}"
  by (force simp: rm_set)

lemma rm_distinct:
  assumes "distinct (map fst m)"
  shows "distinct (map fst (rm k m))"
proof -
  have "mset (map fst (rm k m)) = mset (map fst (filter (\<lambda>(j, _). j \<noteq> k) m))"
    using arg_cong [OF rm_mset [OF assms, of k], of "image_mset fst"] by simp
  then have "distinct (map fst (rm k m)) \<longleftrightarrow> distinct (map fst (filter (\<lambda>(j, _). j \<noteq> k) m))"
    by (rule mset_eq_imp_distinct_iff)
  then show ?thesis using assms by (simp add: distinct_map_filter)
qed

lemma rm_length: "distinct (map fst m) \<Longrightarrow> length (rm k m) = length (filter (\<lambda>(j, _). j \<noteq> k) m)"
  by (metis rm_mset size_mset)

lemma rm_length_le: "distinct (map fst m) \<Longrightarrow> length (rm k m) \<le> length m"
  by (simp add: rm_length)

lemma rm_length_less: "distinct (map fst m) \<Longrightarrow> k \<in> fst ` set m \<Longrightarrow> length (rm k m) < length m"
  by (auto simp: rm_length intro!: length_filter_less)

end

text \<open>Removal as \<open>swap_remove\<close>: the last entry takes the place of the removed one.\<close>

definition swap_remove :: "u8 \<Rightarrow> 'a seq_map \<Rightarrow> 'a seq_map" where
  "swap_remove k m =
     (case position (\<lambda>e. fst e = k) m of
        None \<Rightarrow> m
      | Some i \<Rightarrow> if Suc i = length m then butlast m else (butlast m)[i := last m])"

subsection \<open>Configuration and state\<close>

definition max_apdu :: nat where "max_apdu = 254"
definition max_cemi :: nat where "max_cemi = 12 + max_apdu"
definition max_frame :: nat where "max_frame = 12 + max_cemi"
definition ack_capacity :: nat where "ack_capacity = 16"

datatype local_endpoint = Nat | Explicit u8 u8 u8 u8 u16

definition endpoint_hpai :: "local_endpoint \<Rightarrow> hpai" where
  "endpoint_hpai ep = (case ep of Nat \<Rightarrow> Hpai 0 0 0 0 0 | Explicit a b c d port \<Rightarrow> Hpai a b c d port)"

record tunnel_config =
  tc_endpoint :: local_endpoint
  tc_connect_timeout :: u64
  tc_ack_timeout :: u64
  tc_ack_sweep :: u64
  tc_retransmits :: u8
  tc_heartbeat :: u64
  tc_heartbeat_timeout :: u64
  tc_backoff :: u64

definition default_tunnel :: tunnel_config where
  "default_tunnel =
     \<lparr>tc_endpoint = Nat, tc_connect_timeout = 5000, tc_ack_timeout = 3000, tc_ack_sweep = 500,
      tc_retransmits = 1, tc_heartbeat = 55000, tc_heartbeat_timeout = 10000, tc_backoff = 5000\<rparr>"

record group_write =
  gw_addr :: u16
  gw_data :: bytes

datatype publish_error = InvalidDestination | MessageTooLarge

text \<open>\<open>GroupWrite::try_new\<close>; parsing a group address is \<open>knx_pico\<close>'s.\<close>

definition group_write_new ::
  "(string \<Rightarrow> u16 option) \<Rightarrow> string \<Rightarrow> bytes \<Rightarrow> publish_error + group_write" where
  "group_write_new parse_address destination payload =
     (case parse_address destination of
        None \<Rightarrow> Inl InvalidDestination
      | Some addr \<Rightarrow>
          if length payload \<le> max_apdu then Inr \<lparr>gw_addr = addr, gw_data = payload\<rparr> else Inl MessageTooLarge)"

datatype action = Send bytes "u8 option" | Telegram u16 bytes | ResetSocket | AckTimeout u8

text \<open>
  Two fields are not in the source: \<open>cs_sent\<close> counts the telegrams sent over the connection, without
  wrapping, and \<open>pa_number\<close> is the place of a telegram in that count.  No operation reads them but to
  number the next telegram.
\<close>

record pending_ack =
  pa_sent_at :: u64
  pa_retries :: u8
  pa_frame :: bytes
  pa_number :: nat

record channel_state =
  cs_channel :: u8
  cs_seq :: u8
  cs_pending :: "pending_ack seq_map"
  cs_next_heartbeat :: u64
  cs_heartbeat_since :: "u64 option"
  cs_next_sweep :: u64
  cs_sent :: nat

definition channel_new :: "u8 \<Rightarrow> u64 \<Rightarrow> tunnel_config \<Rightarrow> channel_state" where
  "channel_new channel now cfg =
     \<lparr>cs_channel = channel, cs_seq = 0, cs_pending = [], cs_next_heartbeat = now + tc_heartbeat cfg,
      cs_heartbeat_since = None, cs_next_sweep = now + tc_ack_sweep cfg, cs_sent = 0\<rparr>"

definition next_outbound_seq :: "channel_state \<Rightarrow> u8 \<times> channel_state" where
  "next_outbound_seq st = (cs_seq st, st\<lparr>cs_seq := cs_seq st + 1, cs_sent := cs_sent st + 1\<rparr>)"

datatype phase = Backoff u64 | Connecting u64 | Connected channel_state

record tunnel =
  tn_cfg :: tunnel_config
  tn_phase :: phase
  tn_actions :: "action list"

definition tunnel_new :: "tunnel_config \<Rightarrow> u64 \<Rightarrow> tunnel" where
  "tunnel_new cfg now = \<lparr>tn_cfg = cfg, tn_phase = Backoff now, tn_actions = []\<rparr>"

definition set_local_endpoint :: "local_endpoint \<Rightarrow> tunnel \<Rightarrow> tunnel" where
  "set_local_endpoint ep t = t\<lparr>tn_cfg := (tn_cfg t)\<lparr>tc_endpoint := ep\<rparr>\<rparr>"

definition is_connected :: "tunnel \<Rightarrow> bool" where
  "is_connected t = (case tn_phase t of Connected _ \<Rightarrow> True | _ \<Rightarrow> False)"

definition act :: "action \<Rightarrow> tunnel \<Rightarrow> tunnel" where
  "act a t = t\<lparr>tn_actions := tn_actions t @ [a]\<rparr>"

subsection \<open>Frames\<close>

definition parse_connect_response :: "pico \<Rightarrow> bytes \<Rightarrow> (u8 \<times> u8) option" where
  "parse_connect_response pc data =
     (case parse_frame pc data of
        Some (ConnectResponseS, body) \<Rightarrow> parse_connect pc body
      | _ \<Rightarrow> None)"

definition parse_telegram :: "pico \<Rightarrow> bytes \<Rightarrow> (u16 \<times> bytes) option" where
  "parse_telegram pc cemi =
     (case parse_ldata pc cemi of
        None \<Rightarrow> None
      | Some ld \<Rightarrow>
          if \<not> ld_group_write ld then None
          else
            (case ld_group ld of
               None \<Rightarrow> None
             | Some dest \<Rightarrow> Some (dest, if ld_data ld = [] then [ld_six_bit ld] else ld_data ld)))"

text \<open>A push into a \<open>heapless::Vec\<close> whose error is discarded: bytes that do not fit are dropped.\<close>

definition push_all :: "nat \<Rightarrow> bytes \<Rightarrow> bytes \<Rightarrow> bytes" where
  "push_all cap bs frame = (if length frame + length bs \<le> cap then frame @ bs else frame)"

definition build_group_write_cemi :: "u16 \<Rightarrow> bytes \<Rightarrow> bytes" where
  "build_group_write_cemi addr data =
     (let p = push_all max_cemi;
          header = p [ucast (drop_bit 8 addr), ucast addr] (p [0, 0] (p [0xE0] (p [0xBC] (p [0] (p [0x11] [])))))
      in if length data = 1 \<and> hd data < 64
         then p [or 0x80 (and (hd data) 0x3F)] (p [0] (p [1] header))
         else p data (p [0x80] (p [0] (p [of_nat (2 + length data - 1)] header))))"

subsection \<open>Events\<close>

definition handle_socket_error :: "u64 \<Rightarrow> tunnel \<Rightarrow> tunnel" where
  "handle_socket_error now t =
     (let t1 = act ResetSocket t in
      case tn_phase t1 of
        Backoff _ \<Rightarrow> t1
      | _ \<Rightarrow> t1\<lparr>tn_phase := Backoff (now + tc_backoff (tn_cfg t))\<rparr>)"

definition ack_seq :: "pico \<Rightarrow> bytes \<Rightarrow> u8 option" where
  "ack_seq pc body =
     (case parse_ack pc body of
        Some seq \<Rightarrow> Some seq
      | None \<Rightarrow> if 4 \<le> length body then Some (body ! 2) else None)"

definition handle_service ::
  "pico \<Rightarrow> (u8 \<Rightarrow> pending_ack seq_map \<Rightarrow> pending_ack seq_map) \<Rightarrow> service \<Rightarrow> bytes \<Rightarrow> u64 \<Rightarrow> channel_state
     \<Rightarrow> tunnel \<Rightarrow> tunnel" where
  "handle_service pc rm service body now st t =
     (case service of
        TunnellingAckS \<Rightarrow>
          (case ack_seq pc body of
             None \<Rightarrow> t
           | Some seq \<Rightarrow> t\<lparr>tn_phase := Connected (st\<lparr>cs_pending := rm seq (cs_pending st)\<rparr>)\<rparr>)
      | TunnellingRequestS \<Rightarrow>
          (case parse_request pc body of
             None \<Rightarrow> t
           | Some (seq, cemi) \<Rightarrow>
               (let t1 = act (Send (build_ack pc (cs_channel st) seq) None) t in
                case parse_telegram pc cemi of
                  None \<Rightarrow> t1
                | Some (addr, payload) \<Rightarrow> act (Telegram addr payload) t1))
      | ConnectionstateResponseS \<Rightarrow>
          (case parse_state pc body of
             None \<Rightarrow> t
           | Some True \<Rightarrow> t\<lparr>tn_phase := Connected (st\<lparr>cs_heartbeat_since := None\<rparr>)\<rparr>
           | Some False \<Rightarrow> handle_socket_error now t)
      | _ \<Rightarrow> t)"

definition handle_datagram ::
  "pico \<Rightarrow> (u8 \<Rightarrow> pending_ack seq_map \<Rightarrow> pending_ack seq_map) \<Rightarrow> bytes \<Rightarrow> u64 \<Rightarrow> tunnel \<Rightarrow> tunnel" where
  "handle_datagram pc rm data now t =
     (case tn_phase t of
        Backoff _ \<Rightarrow> t
      | Connecting _ \<Rightarrow>
          (case parse_connect_response pc data of
             None \<Rightarrow> t
           | Some (channel, status) \<Rightarrow>
               if status = 0 then t\<lparr>tn_phase := Connected (channel_new channel now (tn_cfg t))\<rparr>
               else (act ResetSocket t)\<lparr>tn_phase := Backoff (now + tc_backoff (tn_cfg t))\<rparr>)
      | Connected st \<Rightarrow>
          (case parse_frame pc data of
             None \<Rightarrow> t
           | Some (service, body) \<Rightarrow> handle_service pc rm service body now st t))"

text \<open>\<open>FnvIndexMap::insert\<close>: replaces in place, appends where there is room, else gives the value back.\<close>

definition table_insert :: "u8 \<Rightarrow> 'a \<Rightarrow> 'a seq_map \<Rightarrow> 'a seq_map option" where
  "table_insert k p m =
     (if k \<in> fst ` set m then Some (map (\<lambda>(j, q). (j, if j = k then p else q)) m)
      else if length m < ack_capacity then Some (m @ [(k, p)])
      else None)"

definition track ::
  "(u8 \<Rightarrow> 'a seq_map \<Rightarrow> 'a seq_map) \<Rightarrow> u8 \<Rightarrow> 'a \<Rightarrow> 'a seq_map \<Rightarrow> u8 option \<times> 'a seq_map" where
  "track rm seq p m =
     (case table_insert seq p m of
        Some m' \<Rightarrow> (None, m')
      | None \<Rightarrow>
          (case m of
             [] \<Rightarrow> (None, m)
           | (oldest, _) # _ \<Rightarrow>
               (Some oldest, case table_insert seq p (rm oldest m) of Some m' \<Rightarrow> m' | None \<Rightarrow> rm oldest m)))"

definition handle_command ::
  "pico \<Rightarrow> (u8 \<Rightarrow> pending_ack seq_map \<Rightarrow> pending_ack seq_map) \<Rightarrow> group_write \<Rightarrow> u64 \<Rightarrow> tunnel \<Rightarrow> bool \<times> tunnel" where
  "handle_command pc rm cmd now t =
     (case tn_phase t of
        Connected st \<Rightarrow>
          (let (seq, st1) = next_outbound_seq st;
               frame = build_request pc (cs_channel st) seq (build_group_write_cemi (gw_addr cmd) (gw_data cmd));
               p = \<lparr>pa_sent_at = now, pa_retries = tc_retransmits (tn_cfg t),
                    pa_frame = (if 0 < tc_retransmits (tn_cfg t) then frame else []), pa_number = cs_sent st\<rparr>;
               (evicted, m) = track rm seq p (cs_pending st1);
               t1 = t\<lparr>tn_phase := Connected (st1\<lparr>cs_pending := m\<rparr>)\<rparr>;
               t2 = (case evicted of None \<Rightarrow> t1 | Some oldest \<Rightarrow> act (AckTimeout oldest) t1)
           in (True, act (Send frame (Some seq)) t2))
      | _ \<Rightarrow> (False, t))"

definition send_failed :: "(u8 \<Rightarrow> pending_ack seq_map \<Rightarrow> pending_ack seq_map) \<Rightarrow> u8 \<Rightarrow> tunnel \<Rightarrow> tunnel" where
  "send_failed rm seq t =
     (case tn_phase t of
        Connected st \<Rightarrow> t\<lparr>tn_phase := Connected (st\<lparr>cs_pending := rm seq (cs_pending st)\<rparr>)\<rparr>
      | _ \<Rightarrow> t)"

subsection \<open>Deadlines\<close>

definition expired :: "tunnel_config \<Rightarrow> u64 \<Rightarrow> pending_ack seq_map \<Rightarrow> u8 list" where
  "expired cfg now m = map fst (filter (\<lambda>(_, p). tc_ack_timeout cfg < sat_sub now (pa_sent_at p)) m)"

definition renew :: "u64 \<Rightarrow> pending_ack \<Rightarrow> pending_ack" where
  "renew now p = p\<lparr>pa_retries := pa_retries p - 1, pa_sent_at := now\<rparr>"

definition renew_at :: "u64 \<Rightarrow> u8 \<Rightarrow> pending_ack seq_map \<Rightarrow> pending_ack seq_map" where
  "renew_at now seq m = map (\<lambda>(j, q). (j, if j = seq then renew now q else q)) m"

text \<open>The sweep over the expired numbers: the table, the actions, whether the connection is dropped.\<close>

fun sweep ::
  "(u8 \<Rightarrow> pending_ack seq_map \<Rightarrow> pending_ack seq_map) \<Rightarrow> tunnel_config \<Rightarrow> u64 \<Rightarrow> u8 list
     \<Rightarrow> pending_ack seq_map \<Rightarrow> pending_ack seq_map \<times> action list \<times> bool" where
  "sweep rm cfg now [] m = (m, [], False)"
| "sweep rm cfg now (seq # seqs) m =
     (case map_of m seq of
        None \<Rightarrow> sweep rm cfg now seqs m
      | Some p \<Rightarrow>
          if 0 < pa_retries p
          then
            (case sweep rm cfg now seqs (renew_at now seq m) of
               (m', acts, dropped) \<Rightarrow> (m', Send (pa_frame p) (Some seq) # acts, dropped))
          else
            (case sweep rm cfg now seqs (rm seq m) of
               (m', acts, dropped) \<Rightarrow> (m', AckTimeout seq # acts, dropped \<or> 0 < tc_retransmits cfg)))"

definition poll_heartbeat :: "pico \<Rightarrow> tunnel_config \<Rightarrow> u64 \<Rightarrow> channel_state \<Rightarrow> channel_state \<times> action list" where
  "poll_heartbeat pc cfg now st =
     (if cs_next_heartbeat st \<le> now
      then (st\<lparr>cs_heartbeat_since := (case cs_heartbeat_since st of None \<Rightarrow> Some now | Some s \<Rightarrow> Some s),
               cs_next_heartbeat := now + tc_heartbeat cfg\<rparr>,
            [Send (build_state pc (cs_channel st) (Hpai 0 0 0 0 0)) None])
      else (st, []))"

definition poll_sweep ::
  "(u8 \<Rightarrow> pending_ack seq_map \<Rightarrow> pending_ack seq_map) \<Rightarrow> tunnel_config \<Rightarrow> u64 \<Rightarrow> channel_state
     \<Rightarrow> channel_state \<times> action list \<times> bool" where
  "poll_sweep rm cfg now st =
     (if cs_next_sweep st \<le> now
      then
        (case sweep rm cfg now (expired cfg now (cs_pending st)) (cs_pending st) of
           (m, acts, dropped) \<Rightarrow> (st\<lparr>cs_pending := m, cs_next_sweep := now + tc_ack_sweep cfg\<rparr>, acts, dropped))
      else (st, [], False))"

definition heartbeat_dead :: "tunnel_config \<Rightarrow> u64 \<Rightarrow> channel_state \<Rightarrow> bool" where
  "heartbeat_dead cfg now st =
     (case cs_heartbeat_since st of None \<Rightarrow> False | Some s \<Rightarrow> sat_add s (tc_heartbeat_timeout cfg) \<le> now)"

definition tunnel_poll ::
  "pico \<Rightarrow> (u8 \<Rightarrow> pending_ack seq_map \<Rightarrow> pending_ack seq_map) \<Rightarrow> u64 \<Rightarrow> tunnel \<Rightarrow> tunnel" where
  "tunnel_poll pc rm now t =
     (case tn_phase t of
        Backoff until \<Rightarrow>
          if until \<le> now
          then (act (Send (build_connect pc (endpoint_hpai (tc_endpoint (tn_cfg t)))) None) t)\<lparr>tn_phase := Connecting now\<rparr>
          else t
      | Connecting sent_at \<Rightarrow>
          if sat_add sent_at (tc_connect_timeout (tn_cfg t)) \<le> now
          then (act ResetSocket t)\<lparr>tn_phase := Backoff (now + tc_backoff (tn_cfg t))\<rparr>
          else t
      | Connected st \<Rightarrow>
          if heartbeat_dead (tn_cfg t) now st then handle_socket_error now t
          else
            (let (st1, acts1) = poll_heartbeat pc (tn_cfg t) now st;
                 (st2, acts2, dropped) = poll_sweep rm (tn_cfg t) now st1;
                 t1 = t\<lparr>tn_phase := Connected st2, tn_actions := tn_actions t @ acts1 @ acts2\<rparr>
             in if dropped then handle_socket_error now t1 else t1))"

definition next_deadline :: "tunnel \<Rightarrow> u64" where
  "next_deadline t =
     (case tn_phase t of
        Backoff until \<Rightarrow> until
      | Connecting sent_at \<Rightarrow> sat_add sent_at (tc_connect_timeout (tn_cfg t))
      | Connected st \<Rightarrow>
          (let n = min (cs_next_heartbeat st) (cs_next_sweep st) in
           case cs_heartbeat_since st of
             None \<Rightarrow> n
           | Some s \<Rightarrow> min n (sat_add s (tc_heartbeat_timeout (tn_cfg t)))))"

text \<open>
  \<open>drain_actions\<close>: \<open>ok\<close> says whether the transport takes a datagram.  The result is whether the
  socket is to be reset, the telegrams forwarded and the numbers reported, in order.
\<close>

fun drain_actions ::
  "(u8 \<Rightarrow> pending_ack seq_map \<Rightarrow> pending_ack seq_map) \<Rightarrow> (bytes \<Rightarrow> bool) \<Rightarrow> action list \<Rightarrow> tunnel
     \<Rightarrow> bool \<times> (u16 \<times> bytes) list \<times> u8 list \<times> tunnel" where
  "drain_actions rm ok [] t = (False, [], [], t\<lparr>tn_actions := []\<rparr>)"
| "drain_actions rm ok (Send frame await # acts) t =
     drain_actions rm ok acts
       (case await of Some seq \<Rightarrow> if ok frame then t else send_failed rm seq t | None \<Rightarrow> t)"
| "drain_actions rm ok (Telegram addr payload # acts) t =
     (case drain_actions rm ok acts t of (r, ts, ws, t') \<Rightarrow> (r, (addr, payload) # ts, ws, t'))"
| "drain_actions rm ok (ResetSocket # acts) t =
     (case drain_actions rm ok acts t of (r, ts, ws, t') \<Rightarrow> (True, ts, ws, t'))"
| "drain_actions rm ok (AckTimeout seq # acts) t =
     (case drain_actions rm ok acts t of (r, ts, ws, t') \<Rightarrow> (r, ts, seq # ws, t'))"

subsection \<open>Driving the engine\<close>

text \<open>What a transport does to the engine, one call at a time.\<close>

datatype tunnel_event =
    EvDatagram bytes
  | EvCommand group_write
  | EvSocketError
  | EvPoll
  | EvDrain "bytes \<Rightarrow> bool"

definition tunnel_step ::
  "pico \<Rightarrow> (u8 \<Rightarrow> pending_ack seq_map \<Rightarrow> pending_ack seq_map) \<Rightarrow> tunnel_event \<times> u64 \<Rightarrow> tunnel \<Rightarrow> tunnel" where
  "tunnel_step pc rm e t =
     (case e of
        (EvDatagram data, now) \<Rightarrow> handle_datagram pc rm data now t
      | (EvCommand cmd, now) \<Rightarrow> snd (handle_command pc rm cmd now t)
      | (EvSocketError, now) \<Rightarrow> handle_socket_error now t
      | (EvPoll, now) \<Rightarrow> tunnel_poll pc rm now t
      | (EvDrain ok, _) \<Rightarrow> snd (snd (snd (drain_actions rm ok (tn_actions t) t))))"

definition tunnel_run ::
  "pico \<Rightarrow> (u8 \<Rightarrow> pending_ack seq_map \<Rightarrow> pending_ack seq_map) \<Rightarrow> (tunnel_event \<times> u64) list \<Rightarrow> tunnel \<Rightarrow> tunnel" where
  "tunnel_run pc rm evs t = fold (tunnel_step pc rm) evs t"

text \<open>The sequence numbers awaiting an acknowledgement, and what became of one in a step.\<close>

definition awaited_seqs :: "tunnel \<Rightarrow> u8 set" where
  "awaited_seqs t = (case tn_phase t of Connected st \<Rightarrow> fst ` set (cs_pending st) | _ \<Rightarrow> {})"

definition sent_seqs :: "tunnel_event \<Rightarrow> tunnel \<Rightarrow> u8 set" where
  "sent_seqs ev t =
     (case ev of
        EvCommand _ \<Rightarrow> (case tn_phase t of Connected st \<Rightarrow> {cs_seq st} | _ \<Rightarrow> {})
      | _ \<Rightarrow> {})"

definition answered_seqs :: "pico \<Rightarrow> tunnel_event \<Rightarrow> tunnel \<Rightarrow> u8 set" where
  "answered_seqs pc ev t =
     (case ev of
        EvDatagram data \<Rightarrow>
          (case parse_frame pc data of
             Some (TunnellingAckS, body) \<Rightarrow> set_option (ack_seq pc body)
           | _ \<Rightarrow> {})
      | EvDrain ok \<Rightarrow> {seq. \<exists>frame. Send frame (Some seq) \<in> set (tn_actions t) \<and> \<not> ok frame}
      | _ \<Rightarrow> {})"

definition reported_seqs :: "tunnel \<Rightarrow> tunnel \<Rightarrow> u8 set" where
  "reported_seqs t t' = {seq. AckTimeout seq \<in> set (drop (length (tn_actions t)) (tn_actions t'))}"

definition table_sound :: "tunnel \<Rightarrow> bool" where
  "table_sound t \<longleftrightarrow>
     (case tn_phase t of
        Connected st \<Rightarrow> distinct (map fst (cs_pending st)) \<and> length (cs_pending st) \<le> ack_capacity
      | _ \<Rightarrow> True)"

text \<open>
  The telegrams themselves, by their place among those sent over the connection: awaiting their
  acknowledgement, being sent, answered (acknowledged, or the datagram not sent), and reported as
  unacknowledged.  Sequence numbers wrap after 256, so the telegram 256 places before the one being sent has
  its number: it is outrun.
\<close>

definition awaited :: "tunnel \<Rightarrow> nat set" where
  "awaited t = (case tn_phase t of Connected st \<Rightarrow> (pa_number \<circ> snd) ` set (cs_pending st) | _ \<Rightarrow> {})"

definition sent_by :: "tunnel_event \<Rightarrow> tunnel \<Rightarrow> nat set" where
  "sent_by ev t =
     (case ev of
        EvCommand _ \<Rightarrow> (case tn_phase t of Connected st \<Rightarrow> {cs_sent st} | _ \<Rightarrow> {})
      | _ \<Rightarrow> {})"

definition outrun :: "tunnel_event \<Rightarrow> tunnel \<Rightarrow> nat set" where
  "outrun ev t = {n. n + 256 \<in> sent_by ev t}"

definition numbers_of :: "u8 set \<Rightarrow> tunnel \<Rightarrow> nat set" where
  "numbers_of seqs t =
     (case tn_phase t of Connected st \<Rightarrow> {pa_number p | k p. (k, p) \<in> set (cs_pending st) \<and> k \<in> seqs} | _ \<Rightarrow> {})"

definition answered :: "pico \<Rightarrow> tunnel_event \<Rightarrow> tunnel \<Rightarrow> nat set" where
  "answered pc ev t = numbers_of (answered_seqs pc ev t) t"

definition reported :: "tunnel \<Rightarrow> tunnel \<Rightarrow> nat set" where
  "reported t t' = numbers_of (reported_seqs t t') t"

definition numbered :: "channel_state \<Rightarrow> bool" where
  "numbered st \<longleftrightarrow> cs_seq st = of_nat (cs_sent st)
     \<and> (\<forall>(k, p) \<in> set (cs_pending st). k = of_nat (pa_number p) \<and> pa_number p < cs_sent st \<and> cs_sent st \<le> pa_number p + 256)"

definition tunnel_numbered :: "tunnel \<Rightarrow> bool" where
  "tunnel_numbered t \<longleftrightarrow> (case tn_phase t of Connected st \<Rightarrow> numbered st | _ \<Rightarrow> True)"

definition carries :: "pending_ack seq_map \<Rightarrow> pending_ack seq_map \<Rightarrow> bool" where
  "carries m m' \<longleftrightarrow> (\<forall>(k, p') \<in> set m'. \<exists>p. (k, p) \<in> set m \<and> pa_number p' = pa_number p)"

definition kept :: "tunnel \<Rightarrow> tunnel \<Rightarrow> bool" where
  "kept t t' \<longleftrightarrow>
     (case tn_phase t' of
        Connected st' \<Rightarrow>
          cs_pending st' = [] \<and> cs_seq st' = 0 \<and> cs_sent st' = 0
          \<or> (\<exists>st. tn_phase t = Connected st \<and> cs_seq st' = cs_seq st \<and> cs_sent st' = cs_sent st
               \<and> carries (cs_pending st) (cs_pending st'))
      | _ \<Rightarrow> True)"

lemma carries_refl [simp]: "carries m m"
  by (auto simp: carries_def)

lemma carries_trans: "carries m m' \<Longrightarrow> carries m' m'' \<Longrightarrow> carries m m''"
  by (fastforce simp: carries_def)

lemma carries_empty: "carries [] m \<longleftrightarrow> m = []"
  by (cases m) (auto simp: carries_def)

lemma kept_refl [simp]: "kept t t"
  by (simp add: kept_def split: phase.split)

lemma kept_trans: "kept t t' \<Longrightarrow> kept t' t'' \<Longrightarrow> kept t t''"
  by (auto simp: kept_def carries_empty split: phase.splits intro: carries_trans)

lemma kept_socket_error [simp]: "kept t (handle_socket_error now u)"
  by (auto simp: kept_def handle_socket_error_def act_def Let_def split: phase.splits)

lemma u8_wrap: "(of_nat (n + 256) :: u8) = of_nat n"
  by simp

subsection \<open>The table\<close>

lemma swap_remove_mset:
  assumes "distinct (map fst m)"
  shows "mset (swap_remove k m) = mset (filter (\<lambda>(j, _). j \<noteq> k) m)"
proof (cases "position (\<lambda>e. fst e = k) m")
  case None
  then have "filter (\<lambda>(j, _). j \<noteq> k) m = m" by (auto simp: position_None filter_id_conv)
  then show ?thesis using None by (simp add: swap_remove_def)
next
  case (Some i)
  define e where "e = m ! i"
  have i: "i < length m" "fst e = k" "m = take i m @ e # drop (Suc i) m"
    using Some id_take_nth_drop [of i m] by (simp_all add: position_Some e_def)
  define xs where "xs = take i m"
  define ys where "ys = drop (Suc i) m"
  have m: "m = xs @ e # ys" and len: "length xs = i" using i by (simp_all add: xs_def ys_def)
  have "\<forall>x \<in> set (xs @ ys). fst x \<noteq> k" using assms i(2) unfolding m by (auto simp: image_iff)
  then have "filter (\<lambda>(j, _). j \<noteq> k) m = xs @ ys"
    using i(2) unfolding m by (auto simp: filter_id_conv split_def)
  moreover have "mset (swap_remove k m) = mset (xs @ ys)"
  proof (cases ys rule: rev_cases)
    case Nil
    then show ?thesis using Some m len by (simp add: swap_remove_def butlast_append)
  next
    case (snoc zs z)
    then show ?thesis using Some m len
      by (simp add: swap_remove_def butlast_append list_update_append)
  qed
  ultimately show ?thesis by simp
qed

interpretation swap_table: seq_table swap_remove
  by unfold_locales (rule swap_remove_mset)

subsection \<open>A sweep, exactly\<close>

lemma map_of_iff: "distinct (map fst m) \<Longrightarrow> map_of m k = Some p \<longleftrightarrow> (k, p) \<in> set m"
  by (rule map_of_eq_Some_iff)

text \<open>What a sweep makes of the entry of an expired number, and the action it emits.\<close>

definition swept :: "u64 \<Rightarrow> pending_ack option \<Rightarrow> pending_ack option" where
  "swept now e = (case e of None \<Rightarrow> None | Some p \<Rightarrow> if 0 < pa_retries p then Some (renew now p) else None)"

definition sweep_action :: "u8 \<Rightarrow> pending_ack option \<Rightarrow> action list" where
  "sweep_action seq e =
     (case e of None \<Rightarrow> []
      | Some p \<Rightarrow> if 0 < pa_retries p then [Send (pa_frame p) (Some seq)] else [AckTimeout seq])"

lemma renew_at_fst [simp]: "map fst (renew_at now seq m) = map fst m" "length (renew_at now seq m) = length m"
  by (auto simp: renew_at_def)

lemma renew_at_map_of:
  "map_of (renew_at now seq m) k = (if k = seq then map_option (renew now) (map_of m k) else map_of m k)"
  by (induction m) (auto simp: renew_at_def)

locale ack_table = seq_table rm for rm :: "u8 \<Rightarrow> pending_ack seq_map \<Rightarrow> pending_ack seq_map"
begin

lemma rm_map_of:
  assumes "distinct (map fst m)"
  shows "map_of (rm k m) = (map_of m)(k := None)"
proof
  fix j
  have "map_of (rm k m) j = Some p \<longleftrightarrow> ((map_of m)(k := None)) j = Some p" for p
    using map_of_iff [OF assms] map_of_iff [OF rm_distinct [OF assms]] rm_set [OF assms] by auto
  then show "map_of (rm k m) j = ((map_of m)(k := None)) j" by (metis option.exhaust)
qed

lemma sweep_exact:
  assumes "distinct (map fst m)" and "distinct seqs" and "sweep rm cfg now seqs m = (m', acts, dropped)"
  shows "distinct (map fst m') \<and> length m' \<le> length m
     \<and> map_of m' = (\<lambda>k. if k \<in> set seqs then swept now (map_of m k) else map_of m k)
     \<and> acts = concat (map (\<lambda>k. sweep_action k (map_of m k)) seqs)
     \<and> (dropped \<longleftrightarrow> 0 < tc_retransmits cfg \<and> (\<exists>k. AckTimeout k \<in> set acts))"
  using assms
proof (induction seqs arbitrary: m m' acts dropped)
  case (Cons seq seqs)
  show ?case
  proof (cases "map_of m seq")
    case None
    then have "sweep rm cfg now seqs m = (m', acts, dropped)" using Cons.prems(3) by simp
    from Cons.IH [OF Cons.prems(1) _ this] show ?thesis using Cons.prems(2) None
      by (auto simp: fun_eq_iff swept_def sweep_action_def [of seq])
  next
    case (Some p)
    show ?thesis
    proof (cases "0 < pa_retries p")
      case True
      obtain acts' where s: "sweep rm cfg now seqs (renew_at now seq m) = (m', acts', dropped)"
        "acts = Send (pa_frame p) (Some seq) # acts'"
        using Cons.prems(3) Some True by (auto split: prod.splits)
      have eq: "map (\<lambda>k. sweep_action k (map_of (renew_at now seq m) k)) seqs = map (\<lambda>k. sweep_action k (map_of m k)) seqs"
        using Cons.prems(2) by (auto simp: renew_at_map_of)
      have hd: "sweep_action seq (Some p) = [Send (pa_frame p) (Some seq)]" "swept now (Some p) = Some (renew now p)"
        using True by (simp_all add: sweep_action_def swept_def)
      have ih: "distinct (map fst m')" "length m' \<le> length m"
        "map_of m' = (\<lambda>k. if k \<in> set seqs then swept now (map_of (renew_at now seq m) k) else map_of (renew_at now seq m) k)"
        "acts' = concat (map (\<lambda>k. sweep_action k (map_of (renew_at now seq m) k)) seqs)"
        "dropped \<longleftrightarrow> 0 < tc_retransmits cfg \<and> (\<exists>k. AckTimeout k \<in> set acts')"
        using Cons.IH [OF _ _ s(1)] Cons.prems(1,2) by simp_all
      have acts: "acts = concat (map (\<lambda>k. sweep_action k (map_of m k)) (seq # seqs))"
        using ih(4) unfolding eq by (simp add: s(2) Some hd)
      have "map_of m' = (\<lambda>k. if k \<in> set (seq # seqs) then swept now (map_of m k) else map_of m k)"
        using Cons.prems(2) ih(3) by (auto simp: fun_eq_iff renew_at_map_of Some hd)
      then show ?thesis using ih(1,2,5) s(2) acts by simp
    next
      case False
      obtain acts' d where s: "sweep rm cfg now seqs (rm seq m) = (m', acts', d)"
        "acts = AckTimeout seq # acts'" "dropped \<longleftrightarrow> d \<or> 0 < tc_retransmits cfg"
        using Cons.prems(3) Some False by (auto split: prod.splits)
      have eq: "map (\<lambda>k. sweep_action k (map_of (rm seq m) k)) seqs = map (\<lambda>k. sweep_action k (map_of m k)) seqs"
        using Cons.prems(1,2) by (auto simp: rm_map_of)
      have hd: "sweep_action seq (Some p) = [AckTimeout seq]" "swept now (Some p) = None"
        using False by (simp_all add: sweep_action_def swept_def)
      have ih: "distinct (map fst m')" "length m' \<le> length (rm seq m)"
        "map_of m' = (\<lambda>k. if k \<in> set seqs then swept now (map_of (rm seq m) k) else map_of (rm seq m) k)"
        "acts' = concat (map (\<lambda>k. sweep_action k (map_of (rm seq m) k)) seqs)"
        "d \<longleftrightarrow> 0 < tc_retransmits cfg \<and> (\<exists>k. AckTimeout k \<in> set acts')"
        using Cons.IH [OF rm_distinct [OF Cons.prems(1)] _ s(1)] Cons.prems(2) by simp_all
      have acts: "acts = concat (map (\<lambda>k. sweep_action k (map_of m k)) (seq # seqs))"
        using ih(4) unfolding eq by (simp add: s(2) Some hd)
      have "map_of m' = (\<lambda>k. if k \<in> set (seq # seqs) then swept now (map_of m k) else map_of m k)"
        using Cons.prems(1,2) ih(3) by (auto simp: fun_eq_iff rm_map_of Some hd)
      moreover have "length m' \<le> length m" using ih(2) rm_length_le [OF Cons.prems(1), of seq] by simp
      moreover have "dropped \<longleftrightarrow> 0 < tc_retransmits cfg \<and> (\<exists>k. AckTimeout k \<in> set acts)"
        using ih(5) s(2,3) by auto
      ultimately show ?thesis using ih(1) acts by simp
    qed
  qed
qed auto

lemma table_insert_spec:
  assumes "distinct (map fst m)" and "table_insert k p m = Some m'"
  shows "distinct (map fst m') \<and> fst ` set m' = insert k (fst ` set m) \<and> map_of m' k = Some p
    \<and> (length m \<le> ack_capacity \<longrightarrow> length m' \<le> ack_capacity)"
proof (cases "k \<in> fst ` set m")
  case True
  then have m': "m' = map (\<lambda>(j, q). (j, if j = k then p else q)) m" using assms(2) by (simp add: table_insert_def)
  have f: "map fst m' = map fst m" unfolding m' by auto
  have d: "distinct (map fst m')" using f assms(1) by simp
  have "(k, p) \<in> set m'" using True unfolding m' by force
  then have "map_of m' k = Some p" using d by simp
  moreover have "fst ` set m' = fst ` set m" using f by (metis list.set_map)
  moreover have "length m' = length m" by (simp add: m')
  ultimately show ?thesis using True d by (simp add: insert_absorb)
next
  case False
  then have m': "m' = m @ [(k, p)]" "length m < ack_capacity"
    using assms(2) by (auto simp: table_insert_def split: if_splits)
  have d: "distinct (map fst m')" using assms(1) False by (simp add: m')
  have "(k, p) \<in> set m'" by (simp add: m')
  then have "map_of m' k = Some p" by (rule map_of_eq_Some_iff [OF d, THEN iffD2])
  then show ?thesis using d m' by simp
qed

lemma track_spec:
  assumes "distinct (map fst m)" and "length m \<le> ack_capacity" and "track rm seq p m = (evicted, m')"
  shows "distinct (map fst m') \<and> length m' \<le> ack_capacity \<and> map_of m' seq = Some p
    \<and> insert seq (fst ` set m) = fst ` set m' \<union> set_option evicted"
proof (cases "table_insert seq p m")
  case (Some m1)
  then show ?thesis using table_insert_spec [OF assms(1) Some] assms(2,3) by (simp add: track_def)
next
  case None
  then have full: "seq \<notin> fst ` set m" "length m = ack_capacity"
    using assms(2) by (auto simp: table_insert_def split: if_splits)
  then obtain oldest q ms where m: "m = (oldest, q) # ms" by (cases m) (auto simp: ack_capacity_def)
  have k: "oldest \<in> fst ` set m" using m by simp
  have short: "length (rm oldest m) < ack_capacity" using rm_length_less [OF assms(1) k] full(2) by simp
  have "seq \<notin> fst ` set (rm oldest m)" using full(1) rm_keys [OF assms(1)] by simp
  then obtain m2 where m2: "table_insert seq p (rm oldest m) = Some m2"
    using short by (simp add: table_insert_def)
  have "m' = m2" "evicted = Some oldest" using assms(3) None m2 m by (simp_all add: track_def)
  then show ?thesis
    using table_insert_spec [OF rm_distinct [OF assms(1)] m2] short rm_keys [OF assms(1), of oldest] k by auto
qed

lemma expired_spec:
  assumes "distinct (map fst m)"
  shows "distinct (expired cfg now m) \<and> set (expired cfg now m) \<subseteq> fst ` set m"
  using assms by (auto simp: expired_def distinct_map_filter)

lemma socket_error_simps [simp]:
  "awaited_seqs (handle_socket_error now t) = {}" "table_sound (handle_socket_error now t)"
  "\<not> is_connected (handle_socket_error now t)"
  by (auto simp: handle_socket_error_def awaited_seqs_def table_sound_def is_connected_def act_def Let_def split: phase.splits)

lemma send_failed_spec:
  assumes "table_sound t"
  shows "table_sound (send_failed rm seq t) \<and> (is_connected (send_failed rm seq t) \<longleftrightarrow> is_connected t)
    \<and> awaited_seqs t \<subseteq> insert seq (awaited_seqs (send_failed rm seq t)) \<and> tn_cfg (send_failed rm seq t) = tn_cfg t"
proof (cases "tn_phase t")
  case (Connected st)
  then have "distinct (map fst (cs_pending st))" "length (cs_pending st) \<le> ack_capacity"
    using assms by (simp_all add: table_sound_def)
  then show ?thesis using Connected rm_distinct rm_keys [of "cs_pending st" seq] rm_length_le [of "cs_pending st" seq]
    by (auto simp: send_failed_def table_sound_def is_connected_def awaited_seqs_def)
qed (use assms in \<open>auto simp: send_failed_def\<close>)

lemma drain_spec:
  "table_sound t \<Longrightarrow> drain_actions rm ok acts t = (r, ts, ws, t') \<Longrightarrow>
     table_sound t' \<and> (is_connected t' \<longleftrightarrow> is_connected t)
     \<and> awaited_seqs t \<subseteq> awaited_seqs t' \<union> {seq. \<exists>frame. Send frame (Some seq) \<in> set acts \<and> \<not> ok frame}"
proof (induction acts arbitrary: t r ts ws)
  case Nil
  then show ?case by (auto simp: table_sound_def is_connected_def awaited_seqs_def)
next
  case (Cons a acts)
  show ?case
  proof (cases a)
    case (Send frame await)
    let ?t = "case await of Some seq \<Rightarrow> if ok frame then t else send_failed rm seq t | None \<Rightarrow> t"
    have s: "table_sound ?t" "is_connected ?t \<longleftrightarrow> is_connected t"
      "awaited_seqs t \<subseteq> awaited_seqs ?t \<union> {seq. await = Some seq \<and> \<not> ok frame}"
      using Cons.prems(1) send_failed_spec [OF Cons.prems(1)] by (auto split: option.splits)
    have "drain_actions rm ok acts ?t = (r, ts, ws, t')" using Cons.prems(2) Send by simp
    from Cons.IH [OF s(1) this] show ?thesis using s(2,3) Send by auto
  qed (use Cons in \<open>fastforce split: prod.splits\<close>)+
qed

lemma command_tracks:
  assumes "table_sound t" and "handle_command pc rm cmd now t = (b, t')"
  shows "table_sound t' \<and> awaited_seqs t \<union> sent_seqs (EvCommand cmd) t \<subseteq> awaited_seqs t' \<union> reported_seqs t t'"
proof (cases "tn_phase t")
  case (Connected st)
  let ?frame = "build_request pc (cs_channel st) (cs_seq st) (build_group_write_cemi (gw_addr cmd) (gw_data cmd))"
  let ?p = "\<lparr>pa_sent_at = now, pa_retries = tc_retransmits (tn_cfg t),
      pa_frame = (if 0 < tc_retransmits (tn_cfg t) then ?frame else []), pa_number = cs_sent st\<rparr>"
  obtain evicted m where t: "track rm (cs_seq st) ?p (cs_pending st) = (evicted, m)" by fastforce
  have sound: "distinct (map fst (cs_pending st))" "length (cs_pending st) \<le> ack_capacity"
    using assms(1) Connected by (simp_all add: table_sound_def)
  have t': "tn_phase t' = Connected (st\<lparr>cs_seq := cs_seq st + 1, cs_sent := cs_sent st + 1, cs_pending := m\<rparr>)"
    "tn_actions t' = tn_actions t @ (case evicted of None \<Rightarrow> [] | Some k \<Rightarrow> [AckTimeout k]) @ [Send ?frame (Some (cs_seq st))]"
    using assms(2) Connected t
    by (auto simp: handle_command_def next_outbound_seq_def act_def Let_def split: option.splits)
  have "set_option evicted \<subseteq> reported_seqs t t'"
    using t'(2) by (auto simp: reported_seqs_def)
  then show ?thesis using track_spec [OF sound t] Connected t'(1)
    by (auto simp: table_sound_def awaited_seqs_def sent_seqs_def)
qed (use assms in \<open>auto simp: handle_command_def sent_seqs_def\<close>)

lemma poll_tracks:
  assumes "table_sound t"
  shows "table_sound (tunnel_poll pc rm now t)
    \<and> (is_connected (tunnel_poll pc rm now t) \<longrightarrow> awaited_seqs t \<subseteq> awaited_seqs (tunnel_poll pc rm now t) \<union> reported_seqs t (tunnel_poll pc rm now t))"
proof (cases "tn_phase t")
  case (Connected st)
  have sound: "distinct (map fst (cs_pending st))" "length (cs_pending st) \<le> ack_capacity"
    using assms Connected by (simp_all add: table_sound_def)
  obtain st1 acts1 where hb: "poll_heartbeat pc (tn_cfg t) now st = (st1, acts1)" by fastforce
  then have st1: "cs_pending st1 = cs_pending st" by (auto simp: poll_heartbeat_def split: if_splits)
  obtain st2 acts2 dropped where sw: "poll_sweep rm (tn_cfg t) now st1 = (st2, acts2, dropped)"
    by (cases "poll_sweep rm (tn_cfg t) now st1")
  let ?t1 = "t\<lparr>tn_phase := Connected st2, tn_actions := tn_actions t @ acts1 @ acts2\<rparr>"
  have "distinct (map fst (cs_pending st2)) \<and> length (cs_pending st2) \<le> ack_capacity
      \<and> fst ` set (cs_pending st) \<subseteq> fst ` set (cs_pending st2) \<union> {k. AckTimeout k \<in> set acts2}"
  proof (cases "cs_next_sweep st1 \<le> now")
    case True
    obtain m where m: "sweep rm (tn_cfg t) now (expired (tn_cfg t) now (cs_pending st)) (cs_pending st) = (m, acts2, dropped)"
      "cs_pending st2 = m" using True sw st1 by (auto simp: poll_sweep_def split: prod.splits)
    have e: "distinct (expired (tn_cfg t) now (cs_pending st))" using expired_spec [OF sound(1)] by blast
    note sp = sweep_exact [OF sound(1) e m(1)]
    have "k \<in> fst ` set m \<or> AckTimeout k \<in> set acts2" if k: "k \<in> fst ` set (cs_pending st)" for k
    proof (cases "map_of m k")
      case None
      obtain p where p: "map_of (cs_pending st) k = Some p" using k by (cases "map_of (cs_pending st) k") (auto simp: map_of_eq_None_iff)
      have "swept now (Some p) = None \<and> k \<in> set (expired (tn_cfg t) now (cs_pending st))"
        using sp None p by (auto simp: fun_eq_iff split: if_splits)
      then have "AckTimeout k \<in> set (sweep_action k (map_of (cs_pending st) k))"
        "k \<in> set (expired (tn_cfg t) now (cs_pending st))"
        using p by (auto simp: swept_def sweep_action_def split: if_splits)
      then show ?thesis using sp by auto
    next
      case (Some p)
      then show ?thesis by (metis map_of_SomeD fst_conv imageI)
    qed
    then show ?thesis using sp sound(2) m(2) by auto
  qed (use sw st1 sound in \<open>auto simp: poll_sweep_def\<close>)
  then have "table_sound ?t1 \<and> awaited_seqs t \<subseteq> awaited_seqs ?t1 \<union> reported_seqs t ?t1"
    using Connected by (auto simp: table_sound_def awaited_seqs_def reported_seqs_def)
  then show ?thesis using Connected hb sw by (auto simp: tunnel_poll_def Let_def split: if_splits)
qed (auto simp: tunnel_poll_def table_sound_def awaited_seqs_def is_connected_def act_def)

lemma datagram_tracks:
  assumes "table_sound t"
  shows "table_sound (handle_datagram pc rm data now t)
    \<and> (is_connected (handle_datagram pc rm data now t) \<longrightarrow>
         awaited_seqs t \<subseteq> awaited_seqs (handle_datagram pc rm data now t) \<union> answered_seqs pc (EvDatagram data) t)"
proof (cases "tn_phase t")
  case (Connected st)
  have sound: "distinct (map fst (cs_pending st))" "length (cs_pending st) \<le> ack_capacity"
    using assms Connected by (simp_all add: table_sound_def)
  show ?thesis
  proof (cases "parse_frame pc data")
    case (Some sb)
    obtain service body where sb: "parse_frame pc data = Some (service, body)" using Some by (cases sb) auto
    show ?thesis
    proof (cases service)
      case TunnellingAckS
      then show ?thesis using Connected sb assms rm_distinct [OF sound(1)] rm_keys [OF sound(1)]
          le_trans [OF rm_length_le [OF sound(1)] sound(2)]
        by (auto simp: handle_datagram_def handle_service_def answered_seqs_def table_sound_def awaited_seqs_def split: option.splits)
    next
      case ConnectionstateResponseS
      show ?thesis
      proof (cases "parse_state pc body = Some False")
        case True
        then have "handle_datagram pc rm data now t = handle_socket_error now t"
          using Connected sb ConnectionstateResponseS by (simp add: handle_datagram_def handle_service_def)
        then show ?thesis by simp
      qed (use ConnectionstateResponseS Connected sb assms sound in
          \<open>auto simp: handle_datagram_def handle_service_def table_sound_def awaited_seqs_def split: option.splits bool.splits\<close>)
    qed (use Connected sb assms sound in
        \<open>auto simp: handle_datagram_def handle_service_def table_sound_def awaited_seqs_def act_def Let_def split: option.splits\<close>)
  qed (use Connected assms in \<open>auto simp: handle_datagram_def\<close>)
qed (use assms in \<open>auto simp: handle_datagram_def table_sound_def awaited_seqs_def channel_new_def act_def split: option.splits\<close>)

lemma step_tracks:
  assumes "table_sound t"
  shows "table_sound (tunnel_step pc rm (ev, now) t)
    \<and> (is_connected (tunnel_step pc rm (ev, now) t) \<longrightarrow>
         awaited_seqs t \<union> sent_seqs ev t
           \<subseteq> awaited_seqs (tunnel_step pc rm (ev, now) t) \<union> reported_seqs t (tunnel_step pc rm (ev, now) t) \<union> answered_seqs pc ev t)"
proof (cases ev)
  case (EvDatagram data)
  then show ?thesis using datagram_tracks [OF assms] by (auto simp: tunnel_step_def sent_seqs_def)
next
  case (EvCommand cmd)
  obtain b t' where c: "handle_command pc rm cmd now t = (b, t')" by fastforce
  show ?thesis using command_tracks [OF assms c] c EvCommand by (auto simp: tunnel_step_def)
next
  case EvSocketError
  then show ?thesis by (simp add: tunnel_step_def)
next
  case EvPoll
  then show ?thesis using poll_tracks [OF assms] by (auto simp: tunnel_step_def sent_seqs_def)
next
  case (EvDrain ok)
  obtain r ts ws t' where d: "drain_actions rm ok (tn_actions t) t = (r, ts, ws, t')"
    by (cases "drain_actions rm ok (tn_actions t) t")
  show ?thesis using drain_spec [OF assms d] d EvDrain by (auto simp: tunnel_step_def sent_seqs_def answered_seqs_def)
qed

lemma run_sound: "table_sound t \<Longrightarrow> table_sound (tunnel_run pc rm evs t)"
proof (induction evs arbitrary: t)
  case (Cons e evs)
  then show ?case using step_tracks [OF Cons.prems] by (cases e) (simp add: tunnel_run_def)
qed (simp add: tunnel_run_def)

lemma new_sound: "table_sound (tunnel_new cfg start)"
  by (simp add: table_sound_def tunnel_new_def)

subsection \<open>Telegrams and their numbers\<close>

text \<open>Every operation but a command only takes entries out of the table, or renews them.\<close>

lemma carries_rm: "distinct (map fst m) \<Longrightarrow> carries m (rm k m)"
  by (auto simp: carries_def rm_set)

lemma carries_sweep:
  assumes "distinct (map fst m)" and "distinct seqs" and "sweep rm cfg now seqs m = (m', acts, dropped)"
  shows "carries m m'"
proof -
  note sp = sweep_exact [OF assms]
  have "\<exists>p. (k, p) \<in> set m \<and> pa_number p' = pa_number p" if "(k, p') \<in> set m'" for k p'
  proof -
    have k: "map_of m' k = Some p'" using conjunct1 [OF sp] that by simp
    have "map_of m' k = (if k \<in> set seqs then swept now (map_of m k) else map_of m k)"
      using sp by (simp add: fun_eq_iff)
    then have "map_of m' k \<in> {None, map_of m k, swept now (map_of m k)}" by simp
    with k obtain p where "map_of m k = Some p" "pa_number p' = pa_number p"
      by (cases "map_of m k") (fastforce simp: swept_def renew_def split: if_splits)+
    then show ?thesis using map_of_SomeD by fast
  qed
  then show ?thesis by (auto simp: carries_def)
qed

lemma kept_send_failed: "table_sound t \<Longrightarrow> kept t (send_failed rm seq t)"
  by (auto simp: kept_def send_failed_def table_sound_def carries_rm split: phase.splits)

lemma kept_drain:
  assumes "table_sound t" and "drain_actions rm ok acts t = (r, ts, ws, t')"
  shows "kept t t'"
  using assms
proof (induction acts arbitrary: t r ts ws)
  case (Cons a acts)
  show ?case
  proof (cases a)
    case (Send frame await)
    let ?t = "case await of Some seq \<Rightarrow> if ok frame then t else send_failed rm seq t | None \<Rightarrow> t"
    have "table_sound ?t" "kept t ?t"
      using Cons.prems(1) send_failed_spec [OF Cons.prems(1)] kept_send_failed [OF Cons.prems(1)] by (auto split: option.splits)
    moreover have "drain_actions rm ok acts ?t = (r, ts, ws, t')" using Cons.prems(2) Send by simp
    ultimately show ?thesis using Cons.IH kept_trans by blast
  qed (use Cons in \<open>fastforce split: prod.splits\<close>)+
qed (auto simp: kept_def split: phase.split)

lemma kept_poll:
  assumes "table_sound t"
  shows "kept t (tunnel_poll pc rm now t)"
proof (cases "tn_phase t")
  case (Connected st)
  have sound: "distinct (map fst (cs_pending st))" using assms Connected by (simp add: table_sound_def)
  obtain st1 acts1 where hb: "poll_heartbeat pc (tn_cfg t) now st = (st1, acts1)" by fastforce
  then have st1: "cs_pending st1 = cs_pending st" "cs_seq st1 = cs_seq st" "cs_sent st1 = cs_sent st"
    by (auto simp: poll_heartbeat_def split: if_splits)
  obtain st2 acts2 dropped where sw: "poll_sweep rm (tn_cfg t) now st1 = (st2, acts2, dropped)"
    by (cases "poll_sweep rm (tn_cfg t) now st1")
  have "carries (cs_pending st) (cs_pending st2) \<and> cs_seq st2 = cs_seq st \<and> cs_sent st2 = cs_sent st"
    using sw st1 carries_sweep [OF sound conjunct1 [OF expired_spec [OF sound]]]
    by (auto simp: poll_sweep_def split: if_splits prod.splits)
  then have "kept t (t\<lparr>tn_phase := Connected st2, tn_actions := acts\<rparr>)" for acts
    using Connected by (simp add: kept_def)
  then show ?thesis using Connected hb sw by (auto simp: tunnel_poll_def Let_def)
qed (auto simp: kept_def tunnel_poll_def act_def)

lemma kept_datagram:
  assumes "table_sound t"
  shows "kept t (handle_datagram pc rm data now t)"
proof (cases "tn_phase t")
  case (Connected st)
  then have sound: "distinct (map fst (cs_pending st))" using assms by (simp add: table_sound_def)
  show ?thesis
  proof (cases "handle_datagram pc rm data now t = handle_socket_error now t")
    case False
    then show ?thesis using Connected carries_rm [OF sound]
      by (auto simp: handle_datagram_def handle_service_def kept_def act_def Let_def
          split: option.splits service.splits bool.splits)
  qed simp
qed (auto simp: kept_def handle_datagram_def channel_new_def act_def split: option.splits)

lemma kept_step:
  assumes "table_sound t" and "\<And>cmd. ev \<noteq> EvCommand cmd"
  shows "kept t (tunnel_step pc rm (ev, now) t)"
proof (cases ev)
  case (EvDrain ok)
  obtain r ts ws t' where "drain_actions rm ok (tn_actions t) t = (r, ts, ws, t')"
    by (cases "drain_actions rm ok (tn_actions t) t")
  then show ?thesis using kept_drain [OF assms(1)] EvDrain by (auto simp: tunnel_step_def)
qed (use assms kept_datagram kept_poll in \<open>auto simp: tunnel_step_def\<close>)

lemma track_entries:
  assumes "distinct (map fst m)" and "track rm seq p m = (evicted, m')" and "(k, q) \<in> set m'"
  shows "k = seq \<and> q = p \<or> k \<noteq> seq \<and> (k, q) \<in> set m"
proof -
  have ins: "k = seq \<and> q = p \<or> k \<noteq> seq \<and> (k, q) \<in> set m0"
    if "table_insert seq p m0 = Some m'" for m0
    using that assms(3) by (force simp: table_insert_def split: if_splits)
  show ?thesis
  proof (cases "table_insert seq p m")
    case (Some m1)
    then show ?thesis using ins [of m] assms(2) by (simp add: track_def)
  next
    case None
    then have "seq \<notin> fst ` set m" by (auto simp: table_insert_def split: if_splits)
    show ?thesis
    proof (cases "\<exists>oldest. table_insert seq p (rm oldest m) = Some m'")
      case True
      then obtain oldest where o: "table_insert seq p (rm oldest m) = Some m'" by blast
      show ?thesis using ins [OF o] rm_set [OF assms(1)] by auto
    next
      case False
      then have "m' = m \<or> (\<exists>oldest. m' = rm oldest m)"
        using None assms(2) by (auto simp: track_def split: list.splits option.splits)
      then have "(k, q) \<in> set m" using assms(3) rm_set [OF assms(1)] by auto
      then show ?thesis using \<open>seq \<notin> fst ` set m\<close> by force
    qed
  qed
qed

lemma track_evicts: "track rm seq p m = (Some k, m') \<Longrightarrow> seq \<notin> fst ` set m"
  by (auto simp: track_def table_insert_def split: if_splits)

lemma command_connected:
  assumes "tn_phase t = Connected st"
  obtains evicted m frame p where
    "tn_phase (tunnel_step pc rm (EvCommand cmd, now) t) = Connected (st\<lparr>cs_seq := cs_seq st + 1, cs_sent := cs_sent st + 1, cs_pending := m\<rparr>)"
    and "tn_actions (tunnel_step pc rm (EvCommand cmd, now) t)
      = tn_actions t @ (case evicted of None \<Rightarrow> [] | Some k \<Rightarrow> [AckTimeout k]) @ [Send frame (Some (cs_seq st))]"
    and "track rm (cs_seq st) p (cs_pending st) = (evicted, m)" and "pa_number p = cs_sent st"
proof -
  let ?frame = "build_request pc (cs_channel st) (cs_seq st) (build_group_write_cemi (gw_addr cmd) (gw_data cmd))"
  let ?p = "\<lparr>pa_sent_at = now, pa_retries = tc_retransmits (tn_cfg t),
      pa_frame = (if 0 < tc_retransmits (tn_cfg t) then ?frame else []), pa_number = cs_sent st\<rparr>"
  obtain evicted m where "track rm (cs_seq st) ?p (cs_pending st) = (evicted, m)" by fastforce
  then show thesis using assms
    by (intro that [of m evicted ?frame ?p])
      (auto simp: tunnel_step_def handle_command_def next_outbound_seq_def act_def Let_def split: option.splits)
qed

lemma step_numbered:
  assumes "table_sound t" and "tunnel_numbered t"
  shows "tunnel_numbered (tunnel_step pc rm (ev, now) t)"
proof (cases "\<exists>cmd st. ev = EvCommand cmd \<and> tn_phase t = Connected st")
  case True
  then obtain cmd st where ev: "ev = EvCommand cmd" and st: "tn_phase t = Connected st" by blast
  have sound: "distinct (map fst (cs_pending st))" and num: "numbered st"
    using assms st by (simp_all add: table_sound_def tunnel_numbered_def)
  obtain evicted m frame p where c: "tn_phase (tunnel_step pc rm (ev, now) t) = Connected (st\<lparr>cs_seq := cs_seq st + 1, cs_sent := cs_sent st + 1, cs_pending := m\<rparr>)"
    "track rm (cs_seq st) p (cs_pending st) = (evicted, m)" "pa_number p = cs_sent st"
    using command_connected [OF st, of pc cmd now] ev by metis
  have "k = of_nat (pa_number q) \<and> pa_number q < cs_sent st + 1 \<and> cs_sent st + 1 \<le> pa_number q + 256" if "(k, q) \<in> set m" for k q
    using track_entries [OF sound c(2) that]
  proof
    assume "k = cs_seq st \<and> q = p"
    then show ?thesis using num c(3) by (simp add: numbered_def)
  next
    assume kq: "k \<noteq> cs_seq st \<and> (k, q) \<in> set (cs_pending st)"
    then have q: "k = of_nat (pa_number q)" "pa_number q < cs_sent st" "cs_sent st \<le> pa_number q + 256" "cs_seq st = of_nat (cs_sent st)"
      using num by (auto simp: numbered_def)
    have "cs_sent st \<noteq> pa_number q + 256" using q(1,4) kq by (auto simp: u8_wrap)
    then show ?thesis using q by simp
  qed
  then show ?thesis using num c(1) by (auto simp: tunnel_numbered_def numbered_def)
next
  case False
  show ?thesis
  proof (cases "\<exists>cmd. ev = EvCommand cmd")
    case True
    then show ?thesis using False assms by (auto simp: tunnel_step_def handle_command_def tunnel_numbered_def split: phase.splits)
  next
    case no: False
    then have "kept t (tunnel_step pc rm (ev, now) t)" using kept_step [OF assms(1)] by blast
    then show ?thesis using assms(2)
      by (auto simp: kept_def tunnel_numbered_def numbered_def carries_def split: phase.splits) (fastforce+)?
  qed
qed

lemma run_numbered: "table_sound t \<Longrightarrow> tunnel_numbered t \<Longrightarrow> tunnel_numbered (tunnel_run pc rm evs t)"
proof (induction evs arbitrary: t)
  case (Cons e evs)
  then show ?case using step_tracks [OF Cons.prems(1)] step_numbered by (cases e) (simp add: tunnel_run_def)
qed (simp add: tunnel_run_def)

lemma u8_wraps_once:
  assumes "(of_nat a :: u8) = of_nat b" and "a < b" and "b \<le> a + 256"
  shows "b = a + 256"
proof -
  have "b mod 256 = a mod 256" using assms(1) by (simp add: word_of_nat_eq_iff take_bit_nat_def)
  then have "256 dvd b - a" using assms(2) by (simp add: mod_eq_dvd_iff_nat)
  then have "256 \<le> b - a" using assms(2) by (intro dvd_imp_le) simp_all
  then show ?thesis using assms(3) by simp
qed

lemma command_telegrams:
  assumes "table_sound t" and "tunnel_numbered t" and st: "tn_phase t = Connected st"
    and t': "t' = tunnel_step pc rm (EvCommand cmd, now) t"
  shows "awaited t \<union> {cs_sent st} \<subseteq> awaited t' \<union> reported t t' \<union> outrun (EvCommand cmd) t"
    and "awaited t \<inter> outrun (EvCommand cmd) t \<inter> (awaited t' \<union> reported t t') = {}"
proof -
  have sound: "distinct (map fst (cs_pending st))" "length (cs_pending st) \<le> ack_capacity" and num: "numbered st"
    using assms(1,2) st by (simp_all add: table_sound_def tunnel_numbered_def)
  obtain evicted m frame p where c: "tn_phase t' = Connected (st\<lparr>cs_seq := cs_seq st + 1, cs_sent := cs_sent st + 1, cs_pending := m\<rparr>)"
    "tn_actions t' = tn_actions t @ (case evicted of None \<Rightarrow> [] | Some k \<Rightarrow> [AckTimeout k]) @ [Send frame (Some (cs_seq st))]"
    "track rm (cs_seq st) p (cs_pending st) = (evicted, m)" "pa_number p = cs_sent st"
    using command_connected [OF st, of pc cmd now] unfolding t' by metis
  note tr = track_spec [OF sound c(3)]
  have out: "outrun (EvCommand cmd) t = {n. n + 256 = cs_sent st}"
    using st by (auto simp: outrun_def sent_by_def)
  have rep: "reported_seqs t t' = set_option evicted"
    using c(2) by (auto simp: reported_seqs_def split: option.splits)
  have aw: "awaited t = {pa_number q | k q. (k, q) \<in> set (cs_pending st)}"
    "awaited t' = {pa_number q | k q. (k, q) \<in> set m}"
    using st c(1) by (force simp: awaited_def)+
  have re: "reported t t' = {pa_number q | k q. (k, q) \<in> set (cs_pending st) \<and> evicted = Some k}"
    using st rep by (auto simp: reported_def numbers_of_def)
  have key: "k = of_nat (pa_number q)" "pa_number q < cs_sent st" "cs_sent st \<le> pa_number q + 256" if "(k, q) \<in> set (cs_pending st)" for k q
    using num that by (auto simp: numbered_def)
  have seq: "cs_seq st = of_nat (cs_sent st)" using num by (simp add: numbered_def)
  have same: "k = cs_seq st \<longleftrightarrow> pa_number q + 256 = cs_sent st" if "(k, q) \<in> set (cs_pending st)" for k q
    using key [OF that] seq u8_wrap [of "pa_number q"] u8_wraps_once [of "pa_number q" "cs_sent st"] by metis
  have fate: "pa_number q \<in> awaited t' \<union> reported t t' \<union> outrun (EvCommand cmd) t" if kq: "(k, q) \<in> set (cs_pending st)" for k q
  proof (cases "k = cs_seq st")
    case True
    then show ?thesis using same [OF kq] out by simp
  next
    case False
    show ?thesis
    proof (cases "evicted = Some k")
      case True
      then show ?thesis using kq re by blast
    next
      case no: False
      have "k \<in> fst ` set m" using tr no False kq by force
      then obtain q' where q': "(k, q') \<in> set m" by auto
      then have "(k, q') \<in> set (cs_pending st)" using track_entries [OF sound(1) c(3) q'] False by blast
      then have "q' = q" using kq sound(1) by (meson eq_key_imp_eq_value)
      then show ?thesis using q' aw(2) by blast
    qed
  qed
  have "(cs_seq st, p) \<in> set m" using tr map_of_SomeD by fast
  then show "awaited t \<union> {cs_sent st} \<subseteq> awaited t' \<union> reported t t' \<union> outrun (EvCommand cmd) t"
    using fate aw c(4) by auto
  have "n \<notin> awaited t' \<and> n \<notin> reported t t'" if n: "n + 256 = cs_sent st" for n
  proof
    show "n \<notin> awaited t'"
      using track_entries [OF sound(1) c(3)] same c(4) n unfolding aw(2) by force
    show "n \<notin> reported t t'"
      using track_evicts c(3) same n unfolding re by force
  qed
  then show "awaited t \<inter> outrun (EvCommand cmd) t \<inter> (awaited t' \<union> reported t t') = {}"
    unfolding out by blast
qed

lemma quiet_telegrams:
  assumes "table_sound t" and "t' = tunnel_step pc rm (ev, now) t" and "is_connected t'" and "\<And>cmd. ev \<noteq> EvCommand cmd"
  shows "awaited t \<subseteq> awaited t' \<union> reported t t' \<union> answered pc ev t"
proof (cases "tn_phase t")
  case (Connected st)
  obtain st' where st': "tn_phase t' = Connected st'" using assms(3) by (auto simp: is_connected_def split: phase.splits)
  have sound: "distinct (map fst (cs_pending st))" using assms(1) Connected by (simp add: table_sound_def)
  have "kept t t'" using kept_step [OF assms(1,4)] assms(2) by simp
  then have carry: "\<exists>q. (k, q) \<in> set (cs_pending st) \<and> pa_number q' = pa_number q" if "(k, q') \<in> set (cs_pending st')" for k q'
    using Connected st' that by (auto simp: kept_def carries_def)
  have seqs: "awaited_seqs t \<subseteq> awaited_seqs t' \<union> reported_seqs t t' \<union> answered_seqs pc ev t"
    using step_tracks [OF assms(1), of pc ev now] assms(2,3) by auto
  have "pa_number q \<in> awaited t' \<union> reported t t' \<union> answered pc ev t" if kq: "(k, q) \<in> set (cs_pending st)" for k q
  proof -
    have "k \<in> awaited_seqs t" using kq Connected by (force simp: awaited_seqs_def)
    with seqs consider "k \<in> awaited_seqs t'" | "k \<in> reported_seqs t t'" | "k \<in> answered_seqs pc ev t" by blast
    then show ?thesis
    proof cases
      case 1
      then obtain q' where q': "(k, q') \<in> set (cs_pending st')" using st' by (auto simp: awaited_seqs_def)
      then have "pa_number q' = pa_number q" using carry [OF q'] kq sound by (metis eq_key_imp_eq_value)
      then show ?thesis using q' st' by (force simp: awaited_def)
    qed (use kq Connected in \<open>auto simp: reported_def answered_def numbers_of_def\<close>)
  qed
  then show ?thesis using Connected unfolding awaited_def [of t] by fastforce
qed (simp_all add: awaited_def)

lemma step_telegrams:
  assumes "table_sound t" and "tunnel_numbered t" and "t' = tunnel_step pc rm (ev, now) t" and "is_connected t'"
  shows "awaited t \<union> sent_by ev t \<subseteq> awaited t' \<union> reported t t' \<union> answered pc ev t \<union> outrun ev t"
    and "awaited t \<inter> outrun ev t \<inter> (awaited t' \<union> reported t t') = {}"
proof -
  have "(awaited t \<union> sent_by ev t \<subseteq> awaited t' \<union> reported t t' \<union> answered pc ev t \<union> outrun ev t)
    \<and> awaited t \<inter> outrun ev t \<inter> (awaited t' \<union> reported t t') = {}"
  proof (cases ev)
    case (EvCommand cmd)
    then obtain st where st: "tn_phase t = Connected st"
      using assms(3,4) by (auto simp: tunnel_step_def handle_command_def is_connected_def split: phase.splits)
    then have "sent_by ev t = {cs_sent st}" using EvCommand by (simp add: sent_by_def)
    then show ?thesis using command_telegrams [OF assms(1,2) st] assms(3) EvCommand by blast
  qed (use quiet_telegrams [OF assms(1,3,4)] in \<open>auto simp: sent_by_def outrun_def\<close>)
  then show "awaited t \<union> sent_by ev t \<subseteq> awaited t' \<union> reported t t' \<union> answered pc ev t \<union> outrun ev t"
    and "awaited t \<inter> outrun ev t \<inter> (awaited t' \<union> reported t t') = {}" by blast+
qed

lemma run_telegrams:
  assumes "t = tunnel_run pc rm evs (tunnel_new cfg start)" and "t' = tunnel_step pc rm (ev, now) t" and "is_connected t'"
  shows "(awaited t \<union> sent_by ev t \<subseteq> awaited t' \<union> reported t t' \<union> answered pc ev t \<union> outrun ev t)
    \<and> awaited t \<inter> outrun ev t \<inter> (awaited t' \<union> reported t t') = {}"
proof -
  have "tunnel_numbered (tunnel_new cfg start)" by (simp add: tunnel_numbered_def tunnel_new_def)
  then have num: "tunnel_numbered t" unfolding assms(1) by (rule run_numbered [OF new_sound])
  have "table_sound t" unfolding assms(1) by (rule run_sound [OF new_sound])
  from step_telegrams [OF this num assms(2,3)] show ?thesis ..
qed

end

interpretation swap_acks: ack_table swap_remove
  by (rule ack_table.intro) (rule swap_table.seq_table_axioms)

subsection \<open>Telegrams\<close>

text \<open>
  C26. What becomes of every telegram: in every state the engine reaches, whatever the transport does next
  while the connection lasts, a telegram that awaits its acknowledgement or is being sent is afterwards still
  awaited, reported as unacknowledged, or was answered (acknowledged, or its datagram not sent), with one
  exception.  The telegram sent 256 places before the one being sent has the same sequence number, and the new
  one takes its entry: if it was still awaited it is awaited no more and not reported either, so it is lost
  without a word.  Telegrams are told apart by their place among those sent, not by that number.
\<close>

theorem telegrams_tracked:
  assumes "ack_table rm" and "t = tunnel_run pc rm evs (tunnel_new cfg start)"
    and "t' = tunnel_step pc rm (ev, now) t" and "is_connected t'"
  shows "(awaited t \<union> sent_by ev t \<subseteq> awaited t' \<union> reported t t' \<union> answered pc ev t \<union> outrun ev t)
    \<and> awaited t \<inter> outrun ev t \<inter> (awaited t' \<union> reported t t') = {}"
  by (rule ack_table.run_telegrams [OF assms])

text \<open>A small wire format for the witnesses: the first byte is the service, the rest the body.\<close>

definition demo_pico :: pico where
  "demo_pico =
     \<lparr>parse_frame = (\<lambda>bs. case bs of [] \<Rightarrow> None
        | b # body \<Rightarrow> Some (if b = 1 then ConnectResponseS else if b = 2 then TunnellingAckS else OtherS, body)),
      parse_connect = (\<lambda>bs. case bs of [c, s] \<Rightarrow> Some (c, s) | _ \<Rightarrow> None),
      parse_ack = (\<lambda>bs. case bs of [s] \<Rightarrow> Some s | _ \<Rightarrow> None),
      parse_request = (\<lambda>_. None), parse_state = (\<lambda>_. None), parse_ldata = (\<lambda>_. None),
      build_connect = (\<lambda>_. [0]), build_ack = (\<lambda>c s. [2, s]), build_request = (\<lambda>c s bs. c # s # bs),
      build_state = (\<lambda>c _. [c])\<rparr>"

abbreviation demo_events :: "(tunnel_event \<times> u64) list" where
  "demo_events \<equiv> [(EvPoll, 0), (EvDatagram [1, 7, 0], 1), (EvCommand \<lparr>gw_addr = 0, gw_data = [1]\<rparr>, 2)]"

abbreviation demo_tunnel :: tunnel where
  "demo_tunnel \<equiv> tunnel_run demo_pico swap_remove demo_events (tunnel_new default_tunnel 0)"

lemma demo_connected:
  "is_connected (tunnel_step demo_pico swap_remove (EvCommand \<lparr>gw_addr = 0, gw_data = [2]\<rparr>, 3) demo_tunnel)"
  by (simp add: tunnel_run_def tunnel_step_def tunnel_new_def tunnel_poll_def act_def handle_datagram_def demo_pico_def
      parse_connect_response_def channel_new_def handle_command_def next_outbound_seq_def track_def table_insert_def
      ack_capacity_def is_connected_def Let_def)

theorem telegrams_tracked_witness:
  "let ev = EvCommand \<lparr>gw_addr = 0, gw_data = [2]\<rparr>; t' = tunnel_step demo_pico swap_remove (ev, 3) demo_tunnel
   in (awaited demo_tunnel \<union> sent_by ev demo_tunnel
         \<subseteq> awaited t' \<union> reported demo_tunnel t' \<union> answered demo_pico ev demo_tunnel \<union> outrun ev demo_tunnel)
      \<and> awaited demo_tunnel \<inter> outrun ev demo_tunnel \<inter> (awaited t' \<union> reported demo_tunnel t') = {}"
  unfolding Let_def by (rule telegrams_tracked [OF swap_acks.ack_table_axioms refl refl demo_connected])

text \<open>
  The exception is reached: telegram 0 is never acknowledged, the 255 after it are, and the next command makes
  the engine forget telegram 0.
\<close>

abbreviation demo_write :: tunnel_event where
  "demo_write \<equiv> EvCommand \<lparr>gw_addr = 0, gw_data = [1]\<rparr>"

definition acked_writes :: "nat \<Rightarrow> (tunnel_event \<times> u64) list" where
  "acked_writes n = concat (map (\<lambda>i. [(demo_write, 2), (EvDatagram [2, of_nat (i + 1)], 2)]) [0..<n])"

definition only_first :: "nat \<Rightarrow> tunnel \<Rightarrow> bool" where
  "only_first n t \<longleftrightarrow> (\<exists>st p. tn_phase t = Connected st \<and> cs_pending st = [(0, p)] \<and> pa_number p = 0
     \<and> cs_seq st = of_nat n \<and> cs_sent st = n)"

lemma only_first_step:
  assumes "only_first n t" and "0 < n" and "n < 256"
  shows "only_first (n + 1) (tunnel_run demo_pico swap_remove [(demo_write, 2), (EvDatagram [2, of_nat n], 2)] t)"
proof -
  have "(of_nat n :: u8) \<noteq> 0" using assms(2,3) by (simp add: word_of_nat_eq_0_iff nat_dvd_not_less)
  then show ?thesis using assms(1)
    by (auto simp: only_first_def tunnel_run_def tunnel_step_def handle_command_def next_outbound_seq_def track_def
        table_insert_def ack_capacity_def act_def handle_datagram_def handle_service_def demo_pico_def ack_seq_def
        swap_remove_def Let_def)
qed

lemma only_first_run: "n < 256 \<Longrightarrow> only_first (n + 1) (tunnel_run demo_pico swap_remove (acked_writes n) demo_tunnel)"
proof (induction n)
  case 0
  show ?case
    by (simp add: acked_writes_def only_first_def tunnel_run_def tunnel_step_def tunnel_new_def tunnel_poll_def act_def
        handle_datagram_def demo_pico_def parse_connect_response_def channel_new_def handle_command_def
        next_outbound_seq_def track_def table_insert_def ack_capacity_def Let_def)
next
  case (Suc n)
  then show ?case using only_first_step [of "n + 1"] by (simp add: acked_writes_def tunnel_run_def)
qed

lemma telegram_outrun:
  "let t = tunnel_run demo_pico swap_remove (demo_events @ acked_writes 255) (tunnel_new default_tunnel 0);
       t' = tunnel_step demo_pico swap_remove (demo_write, 2) t
   in 0 \<in> awaited t \<and> is_connected t' \<and> awaited t' = {256} \<and> reported t t' = {}"
proof -
  let ?t = "tunnel_run demo_pico swap_remove (acked_writes 255) demo_tunnel"
  obtain st p where "tn_phase ?t = Connected st" "cs_pending st = [(0, p)]" "pa_number p = 0" "cs_seq st = 0" "cs_sent st = 256"
    using only_first_run [of 255] by (auto simp: only_first_def)
  moreover have "tunnel_run demo_pico swap_remove (demo_events @ acked_writes 255) (tunnel_new default_tunnel 0) = ?t"
    by (simp add: tunnel_run_def)
  ultimately show ?thesis
    by (simp add: Let_def awaited_def reported_def numbers_of_def reported_seqs_def is_connected_def tunnel_step_def
        handle_command_def next_outbound_seq_def track_def table_insert_def act_def)
qed

text \<open>
  With \<open>swap_remove\<close> the first entry is not the oldest once entries were removed: after two
  evictions from a full table the second number given up is 15, while 1 to 14 are older.
\<close>

lemma eviction_not_oldest:
  "let p = \<lparr>pa_sent_at = 0, pa_retries = 0, pa_frame = [], pa_number = 0\<rparr>;
       full = map (\<lambda>k. (k, p)) [0, 1, 2, 3, 4, 5, 6, 7, 8, 9, 10, 11, 12, 13, 14, 15];
       (first, m) = track swap_remove 16 p full
   in first = Some 0 \<and> fst (track swap_remove 17 p m) = Some 15"
  by (simp add: track_def table_insert_def ack_capacity_def swap_remove_def)

text \<open>
  The engine always asks to be woken later than now: after a poll its next deadline lies in the
  future, in every phase, so a transport that sleeps until it never spins.
\<close>

theorem deadline_advances:
  assumes "0 < tc_connect_timeout (tn_cfg t)" and "0 < tc_ack_sweep (tn_cfg t)" and "0 < tc_heartbeat (tn_cfg t)"
    and "0 < tc_heartbeat_timeout (tn_cfg t)" and "0 < tc_backoff (tn_cfg t)"
    and "\<forall>d \<in> {tc_connect_timeout (tn_cfg t), tc_ack_sweep (tn_cfg t), tc_heartbeat (tn_cfg t),
               tc_heartbeat_timeout (tn_cfg t), tc_backoff (tn_cfg t)}. unat now + unat d < 2 ^ 64"
  shows "now < next_deadline (tunnel_poll pc rm now t)"
proof -
  have add: "now < now + d \<and> now < sat_add now d" if d: "0 < d" "unat now + unat d < 2 ^ 64" for d
  proof -
    have "0 < unat d" using d(1) by (simp add: word_less_nat_alt)
    then show ?thesis using d(2) by (simp add: word_less_nat_alt unat_word_ariths unat_sat_add)
  qed
  have err: "now < next_deadline (handle_socket_error now u)"
    if u: "tn_cfg u = tn_cfg t" "is_connected u" for u
    using add [of "tc_backoff (tn_cfg t)"] assms u
    by (auto simp: handle_socket_error_def next_deadline_def is_connected_def act_def Let_def split: phase.splits)
  show ?thesis
  proof (cases "tn_phase t")
    case (Backoff until)
    then show ?thesis using add [of "tc_connect_timeout (tn_cfg t)"] assms
      by (auto simp: tunnel_poll_def next_deadline_def act_def)
  next
    case (Connecting sent_at)
    then show ?thesis using add [of "tc_backoff (tn_cfg t)"] assms
      by (auto simp: tunnel_poll_def next_deadline_def act_def)
  next
    case (Connected st)
    show ?thesis
    proof (cases "heartbeat_dead (tn_cfg t) now st")
      case True
      then show ?thesis using Connected err [of t] by (simp add: tunnel_poll_def is_connected_def)
    next
      case False
      obtain st1 acts1 where hb: "poll_heartbeat pc (tn_cfg t) now st = (st1, acts1)" by fastforce
      obtain st2 acts2 dropped where sw: "poll_sweep rm (tn_cfg t) now st1 = (st2, acts2, dropped)"
        by (cases "poll_sweep rm (tn_cfg t) now st1")
      have "now < cs_next_heartbeat st1"
        using hb add [of "tc_heartbeat (tn_cfg t)"] assms by (auto simp: poll_heartbeat_def split: if_splits)
      moreover have "\<not> heartbeat_dead (tn_cfg t) now st1"
        using hb False add [of "tc_heartbeat_timeout (tn_cfg t)"] assms
        by (auto simp: poll_heartbeat_def heartbeat_dead_def split: if_splits option.splits)
      moreover have "cs_next_heartbeat st2 = cs_next_heartbeat st1" "cs_heartbeat_since st2 = cs_heartbeat_since st1"
        using sw by (auto simp: poll_sweep_def split: if_splits prod.splits)
      moreover have "now < cs_next_sweep st2"
        using sw add [of "tc_ack_sweep (tn_cfg t)"] assms by (auto simp: poll_sweep_def split: if_splits prod.splits)
      ultimately have "now < next_deadline (t\<lparr>tn_phase := Connected st2, tn_actions := acts\<rparr>)" for acts
        by (auto simp: next_deadline_def heartbeat_dead_def Let_def split: option.splits)
      then show ?thesis using Connected False hb sw err by (auto simp: tunnel_poll_def Let_def is_connected_def)
    qed
  qed
qed

theorem deadline_advances_witness:
  "100 < next_deadline (tunnel_poll demo_pico swap_remove 100 (tunnel_new default_tunnel 0))"
  by (rule deadline_advances) (simp_all add: tunnel_new_def default_tunnel_def)

text \<open>
  The group-write frame is built whole, for every payload a command can hold: no byte of it is
  dropped, its length octet is the number of octets after the TPCI, and the datagram fits.
\<close>

theorem cemi_complete:
  assumes "length data \<le> max_apdu"
  shows "build_group_write_cemi addr data =
      [0x11, 0, 0xBC, 0xE0, 0, 0, ucast (drop_bit 8 addr), ucast addr] @
      (if length data = 1 \<and> hd data < 64 then [1, 0, or 0x80 (hd data)]
       else of_nat (1 + length data) # 0 # 0x80 # data)
    \<and> unat (of_nat (1 + length data) :: u8) = 1 + length data
    \<and> 10 + length (build_group_write_cemi addr data) \<le> max_frame"
proof -
  have "and (hd data) 0x3F = hd data" if "hd data < 64"
  proof -
    have "take_bit 6 (hd data) = hd data"
      using that by (simp add: word_unat_eq_iff take_bit_eq_mod word_less_nat_alt unat_mod_distrib)
    then show ?thesis by (simp add: take_bit_eq_mask mask_eq_exp_minus_1)
  qed
  moreover have "unat (of_nat (1 + length data) :: u8) = 1 + length data"
    using assms by (simp add: unat_of_nat unat_word_ariths max_apdu_def)
  ultimately show ?thesis using assms
    by (auto simp: build_group_write_cemi_def push_all_def max_cemi_def max_apdu_def max_frame_def Let_def)
qed

theorem cemi_complete_witness:
  "build_group_write_cemi 0x0801 [1, 2] = [0x11, 0, 0xBC, 0xE0, 0, 0, 8, 1, 3, 0, 0x80, 1, 2]"
  using cemi_complete [where data = "[1, 2]" and addr = "0x0801"] by (simp add: max_apdu_def drop_bit_eq_div)

lemma expired_map_of:
  assumes "distinct (map fst m)"
  shows "k \<in> set (expired cfg now m)
     \<longleftrightarrow> (\<exists>p. map_of m k = Some p \<and> tc_ack_timeout cfg < sat_sub now (pa_sent_at p))"
  using assms by (force simp: expired_def)

text \<open>
  Retransmission: a due sweep leaves the entries within their timeout alone, sends the others
  again, byte for byte, while they have attempts left, reports and forgets the rest, and drops the
  connection exactly when it reported one and retransmissions are enabled.
\<close>

theorem retransmission_exact:
  assumes "ack_table rm" and "distinct (map fst (cs_pending st))" and "cs_next_sweep st \<le> now"
    and "poll_sweep rm cfg now st = (st', acts, dropped)"
  shows "map_of (cs_pending st') =
       (\<lambda>k. case map_of (cs_pending st) k of
          None \<Rightarrow> None
        | Some p \<Rightarrow>
            if \<not> tc_ack_timeout cfg < sat_sub now (pa_sent_at p) then Some p
            else if 0 < pa_retries p then Some (p\<lparr>pa_retries := pa_retries p - 1, pa_sent_at := now\<rparr>)
            else None)
    \<and> set acts =
       {a. \<exists>k p. map_of (cs_pending st) k = Some p \<and> tc_ack_timeout cfg < sat_sub now (pa_sent_at p)
            \<and> a = (if 0 < pa_retries p then Send (pa_frame p) (Some k) else AckTimeout k)}
    \<and> (dropped \<longleftrightarrow> 0 < tc_retransmits cfg \<and> (\<exists>k. AckTimeout k \<in> set acts))"
proof -
  let ?m = "cs_pending st" and ?ex = "expired cfg now (cs_pending st)"
  obtain m where m: "sweep rm cfg now ?ex ?m = (m, acts, dropped)" "cs_pending st' = m"
    using assms(3,4) by (auto simp: poll_sweep_def split: prod.splits)
  have "distinct ?ex" using assms(2) by (simp add: expired_def distinct_map_filter)
  note sp = ack_table.sweep_exact [OF assms(1,2) this m(1)]
  note ex = expired_map_of [OF assms(2), of _ cfg now]
  have "map_of m k = (case map_of ?m k of
          None \<Rightarrow> None
        | Some p \<Rightarrow>
            if \<not> tc_ack_timeout cfg < sat_sub now (pa_sent_at p) then Some p
            else if 0 < pa_retries p then Some (p\<lparr>pa_retries := pa_retries p - 1, pa_sent_at := now\<rparr>)
            else None)" for k
    using sp ex [of k] by (cases "map_of ?m k") (simp_all add: swept_def renew_def)
  moreover have "a \<in> set acts \<longleftrightarrow> (\<exists>k p. map_of ?m k = Some p \<and> tc_ack_timeout cfg < sat_sub now (pa_sent_at p)
            \<and> a = (if 0 < pa_retries p then Send (pa_frame p) (Some k) else AckTimeout k))" for a
  proof -
    have sa: "set (sweep_action k (Some p)) = {if 0 < pa_retries p then Send (pa_frame p) (Some k) else AckTimeout k}"
      for k p by (simp add: sweep_action_def)
    have "a \<in> set acts \<longleftrightarrow> (\<exists>k \<in> set ?ex. a \<in> set (sweep_action k (map_of ?m k)))" using sp by simp
    also have "\<dots> \<longleftrightarrow> (\<exists>k p. map_of ?m k = Some p \<and> tc_ack_timeout cfg < sat_sub now (pa_sent_at p)
        \<and> a \<in> set (sweep_action k (Some p)))"
      unfolding Bex_def ex by (metis option.inject)
    finally show ?thesis unfolding sa by (simp only: singleton_iff)
  qed
  ultimately show ?thesis using sp m(2) by blast
qed

theorem retransmission_exact_witness:
  "map_of (cs_pending (fst (poll_sweep swap_remove default_tunnel 9000
       \<lparr>cs_channel = 7, cs_seq = 2, cs_pending = [(0, \<lparr>pa_sent_at = 5, pa_retries = 1, pa_frame = [9], pa_number = 0\<rparr>)],
        cs_next_heartbeat = 55000, cs_heartbeat_since = None, cs_next_sweep = 500, cs_sent = 2\<rparr>)))
     = [0 \<mapsto> \<lparr>pa_sent_at = 9000, pa_retries = 0, pa_frame = [9], pa_number = 0\<rparr>]"
proof -
  let ?st = "\<lparr>cs_channel = 7, cs_seq = 2, cs_pending = [(0, \<lparr>pa_sent_at = 5, pa_retries = 1, pa_frame = [9], pa_number = 0\<rparr>)],
        cs_next_heartbeat = 55000, cs_heartbeat_since = None, cs_next_sweep = 500, cs_sent = 2\<rparr>"
  obtain st' acts dropped where "poll_sweep swap_remove default_tunnel 9000 ?st = (st', acts, dropped)"
    by (cases "poll_sweep swap_remove default_tunnel 9000 ?st")
  from retransmission_exact [OF swap_acks.ack_table_axioms _ _ this] this show ?thesis
    by (simp add: fun_eq_iff default_tunnel_def sat_sub_def)
qed

end
