(* ===== verification/Ready_Routes.thy ===== *)
theory Ready_Routes
  imports Prelude
begin

text \<open>
  Which outbound routes woke since they were last polled
  (\<open>aimdb-core/src/outbound/ready.rs\<close>): one bit per route in 32-bit words, set by wakers that
  take no lock, and a round-robin pass over the routes whose bit is set.

  The reader of a route is a parameter: \<open>poll rid e\<close> gives the outcome of polling route
  \<open>rid\<close> in environment \<open>e\<close>, the routes whose wakers fired during the poll, and the new
  environment.  Producers run at any time: \<open>race e\<close> gives the wakers that fire at a point where
  the transport task can be preempted, which is before each scan and between finding a set bit
  and clearing it.  One scan of the words is one step.
\<close>

subsection \<open>Bits in words\<close>

definition route_bit :: "nat \<Rightarrow> u32" where
  "route_bit rid = push_bit (rid mod 32) 1"

definition or_bit :: "nat \<Rightarrow> u32 list \<Rightarrow> u32 list" where
  "or_bit rid ws = ws[rid div 32 := or (ws ! (rid div 32)) (route_bit rid)]"

definition and_not_bit :: "nat \<Rightarrow> u32 list \<Rightarrow> u32 list" where
  "and_not_bit rid ws = ws[rid div 32 := and (ws ! (rid div 32)) (not (route_bit rid))]"

text \<open>\<open>u32::trailing_zeros\<close>.\<close>

definition trailing_zeros :: "u32 \<Rightarrow> nat" where
  "trailing_zeros w = length (takeWhile (\<lambda>i. \<not> bit w i) [0..<32])"

definition div_ceil :: "nat \<Rightarrow> nat \<Rightarrow> nat" where
  "div_ceil n d = (n + d - 1) div d"

subsection \<open>State\<close>

definition skip_budget :: nat where
  "skip_budget = 32"

datatype polled = Pending | Staged | Skipped | Closed

text \<open>\<open>ReadyRoutes\<close> with the \<open>Shared\<close> part its wakers reach.  \<open>task_waker\<close> says that the
  \<open>AtomicWaker\<close> holds the task's waker; \<open>task_woken\<close> that the task was woken.\<close>

record ready_routes =
  ready :: "u32 list"
  task_waker :: bool
  task_woken :: bool
  wakers_len :: nat
  open_routes :: "u32 list"
  open_count :: nat
  cursor :: nat

record pass_state =
  pass_start :: nat
  pass_next :: nat

datatype poll_result = PollPending | PollReady "nat option"

definition ready_new :: "nat \<Rightarrow> ready_routes" where
  "ready_new len =
     (let opn = fold or_bit [0..<len] (replicate (div_ceil len 32) 0) in
      \<lparr>ready = opn, task_waker = False, task_woken = False, wakers_len = len,
       open_routes = opn, open_count = len, cursor = len - 1\<rparr>)"

subsection \<open>Wakers\<close>

definition ready_set :: "nat \<Rightarrow> ready_routes \<Rightarrow> ready_routes" where
  "ready_set rid r = r\<lparr>ready := or_bit rid (ready r)\<rparr>"

definition ready_clear :: "nat \<Rightarrow> ready_routes \<Rightarrow> ready_routes" where
  "ready_clear rid r = r\<lparr>ready := and_not_bit rid (ready r)\<rparr>"

text \<open>\<open>AtomicWaker\<close>: registering stores the waker, waking takes it out and wakes the task.\<close>

definition task_register :: "ready_routes \<Rightarrow> ready_routes" where
  "task_register r = r\<lparr>task_waker := True\<rparr>"

definition task_wake :: "ready_routes \<Rightarrow> ready_routes" where
  "task_wake r = (if task_waker r then r\<lparr>task_waker := False, task_woken := True\<rparr> else r)"

text \<open>\<open>RouteWake::wake_by_ref\<close>; there are wakers for the routes \<open>0..len\<close> only.\<close>

definition wake_route :: "nat \<Rightarrow> ready_routes \<Rightarrow> ready_routes" where
  "wake_route rid r = (if rid < wakers_len r then task_wake (ready_set rid r) else r)"

definition wake_all :: "nat list \<Rightarrow> ready_routes \<Rightarrow> ready_routes" where
  "wake_all rids r = fold wake_route rids r"

subsection \<open>Scanning\<close>

definition new_pass :: "ready_routes \<Rightarrow> pass_state" where
  "new_pass r =
     (let start = (if wakers_len r = 0 then 0 else (cursor r + 1) mod wakers_len r) in
      \<lparr>pass_start = start, pass_next = start\<rparr>)"

definition scan_word :: "ready_routes \<Rightarrow> nat \<Rightarrow> nat \<Rightarrow> nat \<Rightarrow> u32" where
  "scan_word r lo hi w =
     (let bits0 = and (ready r ! w) (open_routes r ! w);
          bits1 = (if w = lo div 32 then and bits0 (push_bit (lo mod 32) (- 1)) else bits0);
          tp = hi - w * 32
      in if w = (hi - 1) div 32 \<and> tp < 32 then and bits1 (push_bit tp 1 - 1) else bits1)"

fun scan_words :: "ready_routes \<Rightarrow> nat \<Rightarrow> nat \<Rightarrow> nat list \<Rightarrow> nat option" where
  "scan_words r lo hi [] = None"
| "scan_words r lo hi (w # ws) =
     (if scan_word r lo hi w \<noteq> 0 then Some (w * 32 + trailing_zeros (scan_word r lo hi w))
      else scan_words r lo hi ws)"

definition first_ready :: "ready_routes \<Rightarrow> nat \<Rightarrow> nat \<Rightarrow> nat option" where
  "first_ready r lo hi =
     (if hi \<le> lo then None else scan_words r lo hi [lo div 32..<Suc ((hi - 1) div 32)])"

text \<open>\<open>take_next\<close> up to the clearing of the bit, and whole.\<close>

definition find_next :: "pass_state \<Rightarrow> ready_routes \<Rightarrow> (nat \<times> pass_state) option" where
  "find_next p r =
     (let len = wakers_len r;
          found = (if pass_next p < len
                   then (case first_ready r (pass_next p) len of
                           Some rid \<Rightarrow> Some rid
                         | None \<Rightarrow> first_ready r 0 (pass_start p))
                   else first_ready r (pass_next p - len) (pass_start p))
      in case found of
           None \<Rightarrow> None
         | Some rid \<Rightarrow>
             Some (rid, p\<lparr>pass_next := (if pass_start p \<le> rid then rid else rid + len) + 1\<rparr>))"

definition take_next ::
  "('e \<Rightarrow> nat list \<times> 'e) \<Rightarrow> pass_state \<Rightarrow> ready_routes \<Rightarrow> 'e \<Rightarrow> (nat \<times> pass_state \<times> ready_routes \<times> 'e) option" where
  "take_next race p r e =
     (case find_next p r of
        None \<Rightarrow> None
      | Some (rid, p') \<Rightarrow>
          (case race e of (ws, e') \<Rightarrow> Some (rid, p', ready_clear rid (wake_all ws r), e')))"

definition served :: "nat \<Rightarrow> ready_routes \<Rightarrow> ready_routes" where
  "served rid r = (ready_set rid r)\<lparr>cursor := rid\<rparr>"

definition close_route :: "nat \<Rightarrow> ready_routes \<Rightarrow> ready_routes" where
  "close_route rid r =
     (if and (open_routes r ! (rid div 32)) (route_bit rid) \<noteq> 0
      then r\<lparr>open_routes := and_not_bit rid (open_routes r), open_count := open_count r - 1\<rparr>
      else r)"

subsection \<open>The loop\<close>

text \<open>Polling one route until it stops skipping; \<open>True\<close> when it staged a value.\<close>

function poll_loop ::
  "(nat \<Rightarrow> 'e \<Rightarrow> polled \<times> nat list \<times> 'e) \<Rightarrow> nat \<Rightarrow> nat \<Rightarrow> ready_routes \<Rightarrow> 'e \<Rightarrow> bool \<times> ready_routes \<times> 'e" where
  "poll_loop poll rid skips r e =
     (case poll rid e of (out, ws, e') \<Rightarrow>
        (case out of
           Pending \<Rightarrow> (False, wake_all ws r, e')
         | Staged \<Rightarrow> (True, served rid (wake_all ws r), e')
         | Skipped \<Rightarrow>
             (if skip_budget \<le> skips + 1 then (False, wake_route rid (wake_all ws r), e')
              else poll_loop poll rid (skips + 1) (wake_all ws r) e')
         | Closed \<Rightarrow> (False, close_route rid (wake_all ws r), e')))"
  by pat_completeness auto
termination by (relation "measure (\<lambda>(_, _, skips, _). skip_budget - skips)") auto

declare poll_loop.simps [simp del]

lemma wake_route_len [simp]: "wakers_len (wake_route rid r) = wakers_len r"
  by (simp add: wake_route_def task_wake_def ready_set_def)

lemma wake_all_len [simp]: "wakers_len (wake_all ws r) = wakers_len r"
  by (induction ws arbitrary: r) (simp_all add: wake_all_def)

lemma served_len [simp]: "wakers_len (served rid r) = wakers_len r"
  by (simp add: served_def ready_set_def)

lemma close_route_len [simp]: "wakers_len (close_route rid r) = wakers_len r"
  by (simp add: close_route_def)

lemma ready_clear_len [simp]: "wakers_len (ready_clear rid r) = wakers_len r"
  by (simp add: ready_clear_def)

lemma poll_loop_len: "wakers_len (fst (snd (poll_loop poll rid skips r e))) = wakers_len r"
proof (induction poll rid skips r e rule: poll_loop.induct)
  case (1 poll rid skips r e)
  then show ?case
    by (subst poll_loop.simps) (auto split: prod.split polled.split)
qed

text \<open>A scan finds a route of its range, so a pass moves forward.\<close>

lemma trailing_zeros_least:
  assumes "w \<noteq> 0"
  shows "trailing_zeros w < 32" and "bit w (trailing_zeros w)"
    and "j < trailing_zeros w \<Longrightarrow> \<not> bit w j"
proof -
  let ?P = "\<lambda>i. \<not> bit w i"
  obtain i where i: "bit w i"
    using assms by (metis bit_word_eqI bit_0_eq bot_apply bot_bool_def)
  have "i < 32" using bit_imp_le_length [OF i] by simp
  have le: "length (takeWhile ?P [0..<32]) \<le> length [0..<32::nat]" by (rule length_takeWhile_le)
  have ne: "length (takeWhile ?P [0..<32]) \<noteq> length [0..<32::nat]"
  proof
    assume "length (takeWhile ?P [0..<32]) = length [0..<32::nat]"
    then have "takeWhile ?P [0..<32] = [0..<32]"
      by (metis takeWhile_eq_take take_all le_refl)
    then have "\<forall>x \<in> set [0..<32]. ?P x" by (rule takeWhile_eq_all_conv [THEN iffD1])
    then show False using i \<open>i < 32\<close> by auto
  qed
  with le show lt: "trailing_zeros w < 32" by (simp add: trailing_zeros_def)
  have "\<not> ?P ([0..<32] ! trailing_zeros w)"
    using nth_length_takeWhile [of ?P "[0..<32]"] lt by (simp add: trailing_zeros_def)
  then show "bit w (trailing_zeros w)" using lt by simp
  show "j < trailing_zeros w \<Longrightarrow> \<not> bit w j"
  proof -
    assume j: "j < trailing_zeros w"
    then have "takeWhile ?P [0..<32] ! j = [0..<32] ! j"
      by (intro takeWhile_nth) (simp add: trailing_zeros_def)
    moreover have "takeWhile ?P [0..<32] ! j \<in> set (takeWhile ?P [0..<32])"
      using j by (intro nth_mem) (simp add: trailing_zeros_def)
    ultimately show ?thesis using j lt set_takeWhileD by fastforce
  qed
qed

lemma bit_push_ones: "bit (push_bit n (- 1 :: u32)) i \<longleftrightarrow> n \<le> i \<and> i < 32"
  by (auto simp: push_bit_minus_one_eq_not_mask bit_not_iff bit_mask_iff possible_bit_word)

lemma bit_low_mask: "n < 32 \<Longrightarrow> bit (push_bit n (1 :: u32) - 1) i \<longleftrightarrow> i < n"
  by (auto simp: push_bit_of_1 mask_eq_exp_minus_1 [symmetric] bit_mask_iff possible_bit_word)

lemma bit_masked:
  fixes x m1 m2 :: u32
  assumes "bit m1 i = L" and "B \<Longrightarrow> bit m2 i = H"
  shows "bit (let bits1 = (if A then and x m1 else x) in if B then and bits1 m2 else bits1) i
     \<longleftrightarrow> bit x i \<and> (A \<longrightarrow> L) \<and> (B \<longrightarrow> H)"
  using assms by (cases B; cases A) (simp_all add: Let_def bit_and_iff)

lemma bit_scan_word:
  assumes "lo < hi" and "lo div 32 \<le> w" and "w \<le> (hi - 1) div 32"
  shows "bit (scan_word r lo hi w) i \<longleftrightarrow>
    i < 32 \<and> lo \<le> w * 32 + i \<and> w * 32 + i < hi
    \<and> bit (ready r ! w) i \<and> bit (open_routes r ! w) i"
proof (cases "i < 32")
  case i: True
  have lo: "(w = lo div 32 \<longrightarrow> lo mod 32 \<le> i) \<longleftrightarrow> lo \<le> w * 32 + i"
  proof (cases "w = lo div 32")
    case True
    have "lo = w * 32 + lo mod 32" using True by simp
    then show ?thesis using True by (metis add_le_cancel_left)
  next
    case False
    then have "lo < w * 32" using assms(2) by (simp add: div_less_iff_less_mult flip: not_le)
    then show ?thesis using False by simp
  qed
  have hi: "(w = (hi - 1) div 32 \<and> hi - w * 32 < 32 \<longrightarrow> i < hi - w * 32) \<longleftrightarrow> w * 32 + i < hi"
  proof (cases "w = (hi - 1) div 32")
    case True
    define m where "m = (hi - 1) mod 32"
    have "hi - 1 = w * 32 + m" using True by (simp add: m_def)
    then have "hi = w * 32 + m + 1" using assms(1) by simp
    moreover have "m < 32" by (simp add: m_def)
    ultimately have "(hi - w * 32 < 32 \<longrightarrow> i < hi - w * 32) \<longleftrightarrow> w * 32 + i < hi"
      using i by auto
    then show ?thesis unfolding True [symmetric] by simp
  next
    case False
    then have "Suc w \<le> (hi - 1) div 32" using assms(3) by simp
    then have "Suc w * 32 \<le> hi - 1" by (simp add: less_eq_div_iff_mult_less_eq)
    then show ?thesis using False i by simp
  qed
  have "bit (scan_word r lo hi w) i \<longleftrightarrow>
      bit (and (ready r ! w) (open_routes r ! w)) i
      \<and> (w = lo div 32 \<longrightarrow> lo mod 32 \<le> i)
      \<and> (w = (hi - 1) div 32 \<and> hi - w * 32 < 32 \<longrightarrow> i < hi - w * 32)"
    unfolding scan_word_def Let_def [of "and (ready r ! w) (open_routes r ! w)"] Let_def [of "hi - w * 32"]
    by (rule bit_masked, simp only: bit_push_ones i simp_thms, rule bit_low_mask, blast)
  then show ?thesis using i unfolding lo hi bit_and_iff by blast
next
  case False
  then have "\<not> bit (scan_word r lo hi w) i" using bit_imp_le_length [of "scan_word r lo hi w" i] by auto
  then show ?thesis using False by simp
qed

text \<open>The routes a list of words stands for.\<close>

definition routes_in :: "u32 list \<Rightarrow> nat set" where
  "routes_in ws = {rid. rid div 32 < length ws \<and> bit (ws ! (rid div 32)) (rid mod 32)}"

definition can_take :: "ready_routes \<Rightarrow> nat \<Rightarrow> bool" where
  "can_take r rid \<longleftrightarrow>
     bit (ready r ! (rid div 32)) (rid mod 32) \<and> bit (open_routes r ! (rid div 32)) (rid mod 32)"

lemma find_append: "find P (xs @ ys) = (case find P xs of None \<Rightarrow> find P ys | Some x \<Rightarrow> Some x)"
  by (induction xs) auto

lemma find_cong_set: "(\<And>x. x \<in> set xs \<Longrightarrow> P x = Q x) \<Longrightarrow> find P xs = find Q xs"
  by (induction xs) auto

lemma find_map: "find P (map f xs) = map_option f (find (\<lambda>x. P (f x)) xs)"
  by (induction xs) auto

lemma trailing_zeros_find:
  "(if w \<noteq> 0 then Some (trailing_zeros w) else None) = find (bit w) [0..<32]"
proof (cases "w = 0")
  case True
  have "find (bit (0 :: u32)) [0..<32] = None" unfolding find_None_iff by simp
  then show ?thesis using True by simp
next
  case False
  note tz = trailing_zeros_least [OF this]
  have "find (bit w) [0..<32] = Some (trailing_zeros w)"
    unfolding find_Some_iff using tz
    by (intro exI [of _ "trailing_zeros w"]) (simp only: length_upt nth_upt diff_zero add_0, simp)
  then show ?thesis using False by simp
qed

text \<open>One word of the scan is a search of its 32 routes.\<close>

lemma scan_words_find:
  assumes "lo < hi" and "\<And>w. w \<in> set ws \<Longrightarrow> lo div 32 \<le> w \<and> w \<le> (hi - 1) div 32"
  shows "scan_words r lo hi ws =
    find (\<lambda>rid. lo \<le> rid \<and> rid < hi \<and> can_take r rid) (concat (map (\<lambda>w. [w * 32..<w * 32 + 32]) ws))"
  using assms(2)
proof (induction ws)
  case Nil
  then show ?case by simp
next
  case (Cons w ws)
  let ?P = "\<lambda>rid. lo \<le> rid \<and> rid < hi \<and> can_take r rid"
  have w: "lo div 32 \<le> w" "w \<le> (hi - 1) div 32" using Cons.prems [of w] by auto
  have "find ?P [w * 32..<w * 32 + 32] = map_option (\<lambda>i. w * 32 + i) (find (\<lambda>i. ?P (w * 32 + i)) [0..<32])"
    using find_map [of ?P "\<lambda>i. w * 32 + i" "[0..<32]"]
    by (simp only: map_add_upt [of "w * 32" 32, symmetric] add.commute)
  also have "find (\<lambda>i. ?P (w * 32 + i)) [0..<32] = find (bit (scan_word r lo hi w)) [0..<32]"
    by (rule find_cong_set) (simp only: bit_scan_word [OF assms(1) w] can_take_def, auto)
  finally have "find ?P [w * 32..<w * 32 + 32] =
      (if scan_word r lo hi w \<noteq> 0 then Some (w * 32 + trailing_zeros (scan_word r lo hi w)) else None)"
    unfolding trailing_zeros_find [symmetric] by simp
  then show ?case using Cons.IH Cons.prems by (simp add: find_append)
qed

lemma concat_words: "f \<le> l \<Longrightarrow> concat (map (\<lambda>w. [w * 32..<w * 32 + 32]) [f..<l]) = [f * 32..<l * 32]"
proof (induction l rule: dec_induct)
  case (step l)
  have "[f * 32..<l * 32] @ [l * 32..<l * 32 + 32] = [f * 32..<l * 32 + 32]"
    using step.hyps(1) upt_add_eq_append [of "f * 32" "l * 32" 32] by simp
  then show ?case using step by (simp add: add.commute)
qed simp

lemma find_range:
  assumes "a \<le> lo" and "lo \<le> hi" and "hi \<le> b"
  shows "find (\<lambda>x. lo \<le> x \<and> x < hi \<and> P x) [a..<b] = find P [lo..<hi]"
proof -
  let ?Q = "\<lambda>x. lo \<le> x \<and> x < hi \<and> P x"
  have "[a..<b] = [a..<lo] @ [lo..<hi] @ [hi..<b]"
    using assms upt_add_eq_append [of a lo "b - lo"] upt_add_eq_append [of lo hi "b - hi"] by simp
  moreover have "find ?Q [a..<lo] = None" by (auto simp: find_None_iff)
  moreover have "find ?Q [hi..<b] = None" by (auto simp: find_None_iff)
  moreover have "find ?Q [lo..<hi] = find P [lo..<hi]" by (rule find_cong_set) auto
  ultimately show ?thesis by (simp add: find_append split: option.split)
qed

text \<open>The word-level scan is the search route by route.\<close>

lemma first_ready_find: "first_ready r lo hi = find (can_take r) [lo..<hi]"
proof (cases "lo < hi")
  case True
  let ?ws = "[lo div 32..<Suc ((hi - 1) div 32)]"
  have le: "lo div 32 \<le> (hi - 1) div 32" using True by (intro div_le_mono) simp
  have "scan_words r lo hi ?ws
      = find (\<lambda>rid. lo \<le> rid \<and> rid < hi \<and> can_take r rid) [lo div 32 * 32..<Suc ((hi - 1) div 32) * 32]"
    using le by (subst scan_words_find [OF True]) (auto simp: concat_words simp del: upt_Suc mult_Suc)
  also have "\<dots> = find (can_take r) [lo..<hi]"
  proof (rule find_range)
    show "hi \<le> Suc ((hi - 1) div 32) * 32"
      using dividend_less_div_times [of 32 "hi - 1"] by simp
  qed (use True in simp_all)
  finally show ?thesis using True by (simp add: first_ready_def)
qed (simp add: first_ready_def)

text \<open>What is left of a pass, in the order it is scanned.\<close>

definition remaining :: "nat \<Rightarrow> pass_state \<Rightarrow> nat list" where
  "remaining len p =
     (if pass_next p < len then [pass_next p..<len] @ [0..<pass_start p]
      else [pass_next p - len..<pass_start p])"

lemma find_next_find:
  "find_next p r =
     map_option (\<lambda>rid. (rid, p\<lparr>pass_next := (if pass_start p \<le> rid then rid else rid + wakers_len r) + 1\<rparr>))
       (find (can_take r) (remaining (wakers_len r) p))"
  by (simp add: find_next_def first_ready_find remaining_def find_append Let_def split: option.split)

lemma find_next_forward:
  assumes "find_next p r = Some (rid, p')"
  shows "pass_start p' = pass_start p"
    and "pass_next p < pass_next p'" and "pass_next p' \<le> pass_start p + wakers_len r"
proof -
  from assms have rid: "rid \<in> set (remaining (wakers_len r) p)"
    and p': "p' = p\<lparr>pass_next := (if pass_start p \<le> rid then rid else rid + wakers_len r) + 1\<rparr>"
    by (auto simp: find_next_find find_Some_iff)
  show "pass_start p' = pass_start p" by (simp add: p')
  show "pass_next p < pass_next p'" "pass_next p' \<le> pass_start p + wakers_len r"
    using rid by (auto simp: p' remaining_def split: if_splits)
qed

lemma take_next_find:
  "take_next race p r e = Some (rid, p', r', e') \<Longrightarrow>
     find_next p r = Some (rid, p') \<and> wakers_len r' = wakers_len r"
  by (auto simp: take_next_def split: option.splits prod.splits)

lemma pass_decreases:
  assumes "take_next race p (wake_all ws r) e1 = Some (rid, p', r2, e2)"
    and "poll_loop poll rid 0 r2 e2 = (b, r3, e3)"
  shows "pass_start p' + wakers_len r3 - pass_next p' < pass_start p + wakers_len r - pass_next p"
proof -
  have "wakers_len r3 = wakers_len r"
    using poll_loop_len [of poll rid 0 r2 e2] take_next_find [OF assms(1)] by (simp add: assms(2))
  then show ?thesis
    using find_next_forward [of p "wake_all ws r" rid p'] take_next_find [OF assms(1)] by simp
qed

function poll_pass ::
  "(nat \<Rightarrow> 'e \<Rightarrow> polled \<times> nat list \<times> 'e) \<Rightarrow> ('e \<Rightarrow> nat list \<times> 'e) \<Rightarrow> pass_state \<Rightarrow> ready_routes \<Rightarrow> 'e
   \<Rightarrow> poll_result \<times> ready_routes \<times> 'e" where
  "poll_pass poll race p r e =
     (case race e of (ws, e1) \<Rightarrow>
        (case take_next race p (wake_all ws r) e1 of
           None \<Rightarrow>
             (if open_count (wake_all ws r) = 0 then PollReady None else PollPending, wake_all ws r, e1)
         | Some (rid, p', r2, e2) \<Rightarrow>
             (case poll_loop poll rid 0 r2 e2 of (staged, r3, e3) \<Rightarrow>
                if staged then (PollReady (Some rid), r3, e3) else poll_pass poll race p' r3 e3)))"
  by pat_completeness auto
termination
  by (relation "measure (\<lambda>(_, _, p, r, _). pass_start p + wakers_len r - pass_next p)")
    (auto intro: pass_decreases [OF _ sym])

declare poll_pass.simps [simp del]

definition poll_ready ::
  "(nat \<Rightarrow> 'e \<Rightarrow> polled \<times> nat list \<times> 'e) \<Rightarrow> ('e \<Rightarrow> nat list \<times> 'e) \<Rightarrow> ready_routes \<Rightarrow> 'e
   \<Rightarrow> poll_result \<times> ready_routes \<times> 'e" where
  "poll_ready poll race r e =
     (if open_count r = 0 then (PollReady None, r, e)
      else poll_pass poll race (new_pass (task_register r)) (task_register r) e)"

subsection \<open>The abstract scheduler\<close>

text \<open>
  What the words implement: two sets of routes, and one walk over the routes after the cursor, each
  at most once, that polls those that are ready when the walk reaches them.
\<close>

record sched =
  s_ready :: "nat set"
  s_open :: "nat set"
  s_waker :: bool
  s_woken :: bool
  s_len :: nat
  s_cursor :: nat

definition s_wake :: "nat \<Rightarrow> sched \<Rightarrow> sched" where
  "s_wake rid s =
     (if rid < s_len s
      then s\<lparr>s_ready := insert rid (s_ready s), s_woken := s_woken s \<or> s_waker s, s_waker := False\<rparr>
      else s)"

definition s_can_take :: "sched \<Rightarrow> nat \<Rightarrow> bool" where
  "s_can_take s rid \<longleftrightarrow> rid \<in> s_ready s \<and> rid \<in> s_open s"

definition s_wake_all :: "nat list \<Rightarrow> sched \<Rightarrow> sched" where
  "s_wake_all rids s = fold s_wake rids s"

function s_loop ::
  "(nat \<Rightarrow> 'e \<Rightarrow> polled \<times> nat list \<times> 'e) \<Rightarrow> nat \<Rightarrow> nat \<Rightarrow> sched \<Rightarrow> 'e \<Rightarrow> bool \<times> sched \<times> 'e" where
  "s_loop poll rid skips s e =
     (case poll rid e of (out, ws, e') \<Rightarrow>
        let s' = s_wake_all ws s in
        (case out of
           Pending \<Rightarrow> (False, s', e')
         | Staged \<Rightarrow> (True, s'\<lparr>s_ready := insert rid (s_ready s'), s_cursor := rid\<rparr>, e')
         | Skipped \<Rightarrow>
             (if skip_budget \<le> skips + 1 then (False, s_wake rid s', e')
              else s_loop poll rid (skips + 1) s' e')
         | Closed \<Rightarrow> (False, s'\<lparr>s_open := s_open s' - {rid}\<rparr>, e')))"
  by pat_completeness auto
termination by (relation "measure (\<lambda>(_, _, skips, _). skip_budget - skips)") auto

declare s_loop.simps [simp del]

lemma dropWhile_shorter: "dropWhile P xs = y # ys \<Longrightarrow> length ys < length xs"
  using length_dropWhile_le [of P xs] by simp

function s_walk ::
  "(nat \<Rightarrow> 'e \<Rightarrow> polled \<times> nat list \<times> 'e) \<Rightarrow> ('e \<Rightarrow> nat list \<times> 'e) \<Rightarrow> nat list \<Rightarrow> sched \<Rightarrow> 'e
   \<Rightarrow> poll_result \<times> sched \<times> 'e" where
  "s_walk poll race todo s e =
     (case race e of (ws, e1) \<Rightarrow>
        let s1 = s_wake_all ws s in
        (case dropWhile (\<lambda>rid. \<not> s_can_take s1 rid) todo of
           [] \<Rightarrow> (if s_open s1 = {} then PollReady None else PollPending, s1, e1)
         | rid # rest \<Rightarrow>
             (case race e1 of (ws2, e2) \<Rightarrow>
                let s2 = s_wake_all ws2 s1 in
                (case s_loop poll rid 0 (s2\<lparr>s_ready := s_ready s2 - {rid}\<rparr>) e2 of (staged, s3, e3) \<Rightarrow>
                   if staged then (PollReady (Some rid), s3, e3) else s_walk poll race rest s3 e3))))"
  by pat_completeness auto
termination
  by (relation "measure (\<lambda>(_, _, todo, _). length todo)")
    (auto dest!: dropWhile_shorter)

declare s_walk.simps [simp del]

lemma s_walk_end:
  assumes "race e = (ws, e1)" and "dropWhile (\<lambda>rid. \<not> s_can_take (s_wake_all ws s) rid) todo = []"
  shows "s_walk poll race todo s e =
    (if s_open (s_wake_all ws s) = {} then PollReady None else PollPending, s_wake_all ws s, e1)"
  by (subst s_walk.simps) (simp only: assms Let_def prod.case list.case)

lemma s_walk_step:
  assumes "race e = (ws, e1)" and "dropWhile (\<lambda>rid. \<not> s_can_take (s_wake_all ws s) rid) todo = rid # rest"
    and "race e1 = (ws2, e2)"
    and "s_loop poll rid 0 ((s_wake_all ws2 (s_wake_all ws s))
           \<lparr>s_ready := s_ready (s_wake_all ws2 (s_wake_all ws s)) - {rid}\<rparr>) e2 = (staged, s3, e3)"
  shows "s_walk poll race todo s e =
    (if staged then (PollReady (Some rid), s3, e3) else s_walk poll race rest s3 e3)"
  by (subst s_walk.simps) (simp only: assms Let_def prod.case list.case)

definition rotation :: "nat \<Rightarrow> nat \<Rightarrow> nat list" where
  "rotation len c = [c + 1..<len] @ [0..<min len (c + 1)]"

definition s_poll ::
  "(nat \<Rightarrow> 'e \<Rightarrow> polled \<times> nat list \<times> 'e) \<Rightarrow> ('e \<Rightarrow> nat list \<times> 'e) \<Rightarrow> sched \<Rightarrow> 'e
   \<Rightarrow> poll_result \<times> sched \<times> 'e" where
  "s_poll poll race s e =
     (if s_open s = {} then (PollReady None, s, e)
      else s_walk poll race (rotation (s_len s) (s_cursor s)) (s\<lparr>s_waker := True\<rparr>) e)"

subsection \<open>Refinement\<close>

definition abs_routes :: "ready_routes \<Rightarrow> sched" where
  "abs_routes r =
     \<lparr>s_ready = routes_in (ready r), s_open = routes_in (open_routes r), s_waker = task_waker r,
      s_woken = task_woken r, s_len = wakers_len r, s_cursor = cursor r\<rparr>"

definition ready_ok :: "ready_routes \<Rightarrow> bool" where
  "ready_ok r \<longleftrightarrow>
     length (ready r) = div_ceil (wakers_len r) 32 \<and> length (open_routes r) = div_ceil (wakers_len r) 32
     \<and> routes_in (ready r) \<subseteq> {..<wakers_len r} \<and> routes_in (open_routes r) \<subseteq> {..<wakers_len r}
     \<and> open_count r = card (routes_in (open_routes r)) \<and> (wakers_len r = 0 \<or> cursor r < wakers_len r)"

lemma route_word: "rid < len \<Longrightarrow> rid div 32 < div_ceil len 32"
  using div_le_mono [of "rid + 32" "len + 31" 32] by (simp add: div_ceil_def)

lemma bit_route_bit: "bit (route_bit rid) i \<longleftrightarrow> i = rid mod 32"
  by (auto simp: route_bit_def push_bit_of_1 bit_exp_iff possible_bit_word)

lemma same_route: "(x :: nat) div 32 = y div 32 \<Longrightarrow> x mod 32 = y mod 32 \<Longrightarrow> x = y"
  by (metis div_mult_mod_eq)

lemma nth_or_bit:
  "w < length ws \<Longrightarrow> bit (or_bit rid ws ! w) i \<longleftrightarrow> bit (ws ! w) i \<or> w = rid div 32 \<and> i = rid mod 32"
  by (cases "w = rid div 32") (simp_all add: or_bit_def bit_or_iff bit_route_bit)

lemma nth_and_not_bit:
  "w < length ws \<Longrightarrow> bit (and_not_bit rid ws ! w) i \<longleftrightarrow> bit (ws ! w) i \<and> \<not> (w = rid div 32 \<and> i = rid mod 32)"
  using bit_imp_possible_bit [of "ws ! w" i]
  by (cases "w = rid div 32") (auto simp: and_not_bit_def bit_and_iff bit_not_iff bit_route_bit)

lemma routes_in_or_bit:
  assumes "rid div 32 < length ws"
  shows "routes_in (or_bit rid ws) = insert rid (routes_in ws)"
proof (rule set_eqI)
  fix x
  have "length (or_bit rid ws) = length ws" by (simp add: or_bit_def)
  then show "x \<in> routes_in (or_bit rid ws) \<longleftrightarrow> x \<in> insert rid (routes_in ws)"
    using assms nth_or_bit [of "x div 32" ws rid "x mod 32"] same_route [of x rid]
    unfolding routes_in_def mem_Collect_eq insert_iff by metis
qed

lemma routes_in_and_not_bit: "routes_in (and_not_bit rid ws) = routes_in ws - {rid}"
proof (rule set_eqI)
  fix x
  have "length (and_not_bit rid ws) = length ws" by (simp add: and_not_bit_def)
  then show "x \<in> routes_in (and_not_bit rid ws) \<longleftrightarrow> x \<in> routes_in ws - {rid}"
    using nth_and_not_bit [of "x div 32" ws rid "x mod 32"] same_route [of x rid]
    unfolding routes_in_def mem_Collect_eq Diff_iff singleton_iff by metis
qed

lemma length_or_bit [simp]: "length (or_bit rid ws) = length ws"
  by (simp add: or_bit_def)

lemma length_and_not_bit [simp]: "length (and_not_bit rid ws) = length ws"
  by (simp add: and_not_bit_def)

lemma finite_routes_in [simp]: "finite (routes_in ws)"
proof (rule finite_subset)
  show "routes_in ws \<subseteq> {..<length ws * 32}"
    by (auto simp: routes_in_def div_less_iff_less_mult)
qed simp

lemma abs_wake: "ready_ok r \<Longrightarrow> abs_routes (wake_route rid r) = s_wake rid (abs_routes r) \<and> ready_ok (wake_route rid r)"
  using route_word [of rid "wakers_len r"]
  by (auto simp: wake_route_def task_wake_def ready_set_def s_wake_def abs_routes_def ready_ok_def
      routes_in_or_bit)

lemma abs_wake_all:
  "ready_ok r \<Longrightarrow> abs_routes (wake_all ws r) = s_wake_all ws (abs_routes r) \<and> ready_ok (wake_all ws r)"
proof (induction ws arbitrary: r)
  case (Cons w ws)
  then show ?case
    using abs_wake [of r w] by (simp add: wake_all_def s_wake_all_def)
qed (simp add: wake_all_def s_wake_all_def)

lemma abs_served:
  "ready_ok r \<Longrightarrow> rid < wakers_len r \<Longrightarrow>
     abs_routes (served rid r) = (abs_routes r)\<lparr>s_ready := insert rid (s_ready (abs_routes r)), s_cursor := rid\<rparr>
     \<and> ready_ok (served rid r)"
  using route_word [of rid "wakers_len r"]
  by (auto simp: served_def ready_set_def abs_routes_def ready_ok_def routes_in_or_bit)

lemma abs_clear:
  "ready_ok r \<Longrightarrow>
     abs_routes (ready_clear rid r) = (abs_routes r)\<lparr>s_ready := s_ready (abs_routes r) - {rid}\<rparr>
     \<and> ready_ok (ready_clear rid r)"
  by (auto simp: ready_clear_def abs_routes_def ready_ok_def routes_in_and_not_bit)

lemma is_open_bit:
  "rid div 32 < length ws \<Longrightarrow> and (ws ! (rid div 32)) (route_bit rid) \<noteq> 0 \<longleftrightarrow> rid \<in> routes_in ws"
proof -
  assume "rid div 32 < length ws"
  moreover have "and (ws ! (rid div 32)) (route_bit rid) \<noteq> 0 \<longleftrightarrow> bit (ws ! (rid div 32)) (rid mod 32)"
  proof -
    have "and (ws ! (rid div 32)) (route_bit rid) \<noteq> 0 \<longleftrightarrow> (\<exists>n. bit (and (ws ! (rid div 32)) (route_bit rid)) n)"
      by (metis bit_word_eqI bit_0_eq bot_apply bot_bool_def)
    then show ?thesis by (simp add: bit_and_iff bit_route_bit)
  qed
  ultimately show ?thesis by (simp add: routes_in_def)
qed

lemma abs_close:
  "ready_ok r \<Longrightarrow> rid < wakers_len r \<Longrightarrow>
     abs_routes (close_route rid r) = (abs_routes r)\<lparr>s_open := s_open (abs_routes r) - {rid}\<rparr>
     \<and> ready_ok (close_route rid r)"
  using route_word [of rid "wakers_len r"] is_open_bit [of rid "open_routes r"]
  by (auto simp: close_route_def abs_routes_def ready_ok_def routes_in_and_not_bit)

lemma can_take_abs:
  "ready_ok r \<Longrightarrow> rid < wakers_len r \<Longrightarrow>
     can_take r rid \<longleftrightarrow> s_can_take (abs_routes r) rid"
  using route_word [of rid "wakers_len r"]
  by (auto simp: s_can_take_def can_take_def abs_routes_def routes_in_def ready_ok_def)

lemma dropWhile_find_upt:
  "dropWhile (\<lambda>x. \<not> P x) [a..<b] = (case find P [a..<b] of None \<Rightarrow> [] | Some x \<Rightarrow> [x..<b])"
proof (induction "b - a" arbitrary: a)
  case (Suc n)
  then have "a < b" by simp
  then have "[a..<b] = a # [Suc a..<b]" by (simp add: upt_conv_Cons)
  then show ?case using Suc by simp
qed simp

lemma dropWhile_append_find:
  "dropWhile (\<lambda>x. \<not> P x) (xs @ ys) =
     (case find P xs of None \<Rightarrow> dropWhile (\<lambda>x. \<not> P x) ys | Some x \<Rightarrow> dropWhile (\<lambda>x. \<not> P x) xs @ ys)"
  by (induction xs) (auto split: option.splits)

lemma find_upt_range: "find P [a..<b] = Some x \<Longrightarrow> a \<le> x \<and> x < b"
  by (auto simp: find_Some_iff)

lemma remaining_step:
  assumes "pass_start p \<le> pass_next p" and "pass_start p \<le> wakers_len r"
  shows "dropWhile (\<lambda>rid. \<not> can_take r rid) (remaining (wakers_len r) p) =
    (case find_next p r of None \<Rightarrow> [] | Some (rid, p') \<Rightarrow> rid # remaining (wakers_len r) p')"
proof (cases "pass_next p < wakers_len r")
  case True
  note rem = find_next_find remaining_def find_append dropWhile_append_find dropWhile_find_upt True
  show ?thesis
  proof (cases "find (can_take r) [pass_next p..<wakers_len r]")
    case None
    show ?thesis
    proof (cases "find (can_take r) [0..<pass_start p]")
      case (Some rid)
      note in_range = find_upt_range [OF this]
      then have "[rid..<pass_start p] = rid # [Suc rid..<pass_start p]" by (simp add: upt_conv_Cons)
      then show ?thesis using None Some in_range by (simp add: rem)
    qed (use None in \<open>simp add: rem\<close>)
  next
    case (Some rid)
    note in_range = find_upt_range [OF this]
    then have "[rid..<wakers_len r] = rid # [Suc rid..<wakers_len r]" by (simp add: upt_conv_Cons)
    then show ?thesis using Some in_range assms
      by (cases "Suc rid < wakers_len r") (simp_all add: rem)
  qed
next
  case False
  note rem = find_next_find remaining_def dropWhile_find_upt False
  show ?thesis
  proof (cases "find (can_take r) [pass_next p - wakers_len r..<pass_start p]")
    case (Some rid)
    note in_range = find_upt_range [OF this]
    then have "[rid..<pass_start p] = rid # [Suc rid..<pass_start p]" by (simp add: upt_conv_Cons)
    then show ?thesis using Some in_range by (simp add: rem)
  qed (simp add: rem)
qed

lemma remaining_bound: "pass_start p \<le> n \<Longrightarrow> set (remaining n p) \<subseteq> {..<n}"
  by (auto simp: remaining_def)

lemma find_next_range:
  assumes "find_next p r = Some (rid, p')" and "pass_start p \<le> wakers_len r"
  shows "rid < wakers_len r"
proof -
  have "rid \<in> set (remaining (wakers_len r) p)"
    using assms(1) by (auto simp: find_next_find find_Some_iff)
  then show ?thesis using remaining_bound [OF assms(2)] by auto
qed

lemma dropWhile_cong_set: "(\<And>x. x \<in> set xs \<Longrightarrow> P x = Q x) \<Longrightarrow> dropWhile P xs = dropWhile Q xs"
  by (rule dropWhile_cong) auto

lemma abs_find_next:
  assumes "ready_ok r" and "pass_start p \<le> pass_next p" and "pass_start p \<le> wakers_len r"
  shows "dropWhile (\<lambda>rid. \<not> s_can_take (abs_routes r) rid) (remaining (wakers_len r) p) =
    (case find_next p r of None \<Rightarrow> [] | Some (rid, p') \<Rightarrow> rid # remaining (wakers_len r) p')"
proof -
  have "dropWhile (\<lambda>rid. \<not> s_can_take (abs_routes r) rid) (remaining (wakers_len r) p)
      = dropWhile (\<lambda>rid. \<not> can_take r rid) (remaining (wakers_len r) p)"
    using remaining_bound [OF assms(3)] can_take_abs [OF assms(1)]
    by (intro dropWhile_cong_set) auto
  then show ?thesis using remaining_step [OF assms(2, 3)] by simp
qed

text \<open>The loop over one route, then the pass.\<close>

definition abs_result :: "'b \<times> ready_routes \<times> 'e \<Rightarrow> 'b \<times> sched \<times> 'e" where
  "abs_result out = (case out of (b, r, e) \<Rightarrow> (b, abs_routes r, e))"

lemma abs_loop:
  "ready_ok r \<Longrightarrow> rid < wakers_len r \<Longrightarrow>
     abs_result (poll_loop poll rid skips r e) = s_loop poll rid skips (abs_routes r) e
     \<and> ready_ok (fst (snd (poll_loop poll rid skips r e)))"
proof (induction poll rid skips r e rule: poll_loop.induct)
  case (1 poll rid skips r e)
  obtain out ws e' where out: "poll rid e = (out, ws, e')" by (metis prod_cases3)
  note w = abs_wake_all [OF 1(2), of ws]
  show ?case
  proof (cases out)
    case Skipped
    have "poll_loop poll rid skips r e =
        (if skip_budget \<le> skips + 1 then (False, wake_route rid (wake_all ws r), e')
         else poll_loop poll rid (skips + 1) (wake_all ws r) e')"
      by (subst poll_loop.simps) (simp add: out Skipped)
    moreover have "s_loop poll rid skips (abs_routes r) e =
        (if skip_budget \<le> skips + 1 then (False, s_wake rid (s_wake_all ws (abs_routes r)), e')
         else s_loop poll rid (skips + 1) (s_wake_all ws (abs_routes r)) e')"
      by (subst s_loop.simps) (simp add: out Skipped Let_def)
    ultimately show ?thesis
      using w abs_wake [of "wake_all ws r" rid] 1(1) [OF out [symmetric] refl Skipped] 1(3)
      by (simp add: abs_result_def)
  qed (use w abs_served [of "wake_all ws r" rid] abs_close [of "wake_all ws r" rid] 1(3) in
      \<open>simp add: poll_loop.simps s_loop.simps out abs_result_def Let_def\<close>)+
qed

lemma abs_open_count: "ready_ok r \<Longrightarrow> open_count r = 0 \<longleftrightarrow> s_open (abs_routes r) = {}"
  by (simp add: ready_ok_def abs_routes_def)

lemma s_wake_all_len [simp]: "s_len (s_wake_all ws s) = s_len s"
  by (induction ws arbitrary: s) (simp_all add: s_wake_all_def s_wake_def)

lemma abs_pass:
  "ready_ok r \<Longrightarrow> pass_start p \<le> pass_next p \<Longrightarrow> pass_start p \<le> wakers_len r \<Longrightarrow>
     abs_result (poll_pass poll race p r e) = s_walk poll race (remaining (wakers_len r) p) (abs_routes r) e
     \<and> ready_ok (fst (snd (poll_pass poll race p r e)))"
proof (induction poll race p r e rule: poll_pass.induct)
  case (1 poll race p r e)
  obtain ws e1 where race: "race e = (ws, e1)" by fastforce
  let ?r1 = "wake_all ws r"
  have r1: "abs_routes ?r1 = s_wake_all ws (abs_routes r)" "ready_ok ?r1"
    using abs_wake_all [OF 1(2)] by auto
  note dw = abs_find_next [OF r1(2) 1(3), unfolded wake_all_len, OF 1(4), unfolded r1(1)]
  show ?case
  proof (cases "find_next p ?r1")
    case None
    then have "poll_pass poll race p r e =
        (if open_count ?r1 = 0 then PollReady None else PollPending, ?r1, e1)"
      by (subst poll_pass.simps) (simp add: race take_next_def)
    moreover have "s_walk poll race (remaining (wakers_len r) p) (abs_routes r) e =
        (if s_open (abs_routes ?r1) = {} then PollReady None else PollPending, abs_routes ?r1, e1)"
      using s_walk_end [where race = race, OF race] dw None unfolding r1(1) by simp
    ultimately show ?thesis using abs_open_count [OF r1(2)] r1 by (simp add: abs_result_def)
  next
    case (Some rp)
    obtain rid p' where rp: "rp = (rid, p')" by fastforce
    note found = Some [unfolded rp]
    obtain ws2 e2 where race2: "race e1 = (ws2, e2)" by fastforce
    let ?r2 = "ready_clear rid (wake_all ws2 ?r1)"
    have take: "take_next race p ?r1 e1 = Some (rid, p', ?r2, e2)"
      by (simp add: take_next_def found race2)
    have w2: "abs_routes (wake_all ws2 ?r1) = s_wake_all ws2 (s_wake_all ws (abs_routes r))"
      "ready_ok (wake_all ws2 ?r1)"
      using abs_wake_all [OF r1(2), of ws2] r1(1) by simp_all
    note r2 = abs_clear [OF w2(2), of rid, unfolded w2(1)]
    have rid: "rid < wakers_len r" using find_next_range [OF found] 1(4) by simp
    obtain staged r3 e3 where loop: "poll_loop poll rid 0 ?r2 e2 = (staged, r3, e3)"
      by (metis prod_cases3)
    have loop': "s_loop poll rid 0 (abs_routes ?r2) e2 = (staged, abs_routes r3, e3)" "ready_ok r3"
      using abs_loop [of ?r2 rid poll 0 e2] r2 rid by (simp_all add: loop abs_result_def)
    have len: "wakers_len r3 = wakers_len r" using poll_loop_len [of poll rid 0 ?r2 e2] by (simp add: loop)
    have "poll_pass poll race p r e =
        (if staged then (PollReady (Some rid), r3, e3) else poll_pass poll race p' r3 e3)"
      by (subst poll_pass.simps) (simp add: race take loop)
    moreover have "s_walk poll race (remaining (wakers_len r) p) (abs_routes r) e =
        (if staged then (PollReady (Some rid), abs_routes r3, e3)
         else s_walk poll race (remaining (wakers_len r) p') (abs_routes r3) e3)"
      using dw found loop'(1) r2 by (intro s_walk_step [where race = race, OF race _ race2]) (simp_all add: w2)
    moreover have "pass_start p' \<le> pass_next p'" "pass_start p' \<le> wakers_len r"
      using find_next_forward [OF found] 1(3,4) by simp_all
    ultimately show ?thesis
      using 1(1) [OF race [symmetric] take _ _ _ loop [symmetric] refl] loop'(2) len
      by (simp add: abs_result_def)
  qed
qed

lemma new_pass_rotation:
  assumes "cursor r < wakers_len r"
  shows "remaining (wakers_len r) (new_pass r) = rotation (wakers_len r) (cursor r)"
    and "pass_start (new_pass r) \<le> wakers_len r" and "pass_start (new_pass r) \<le> pass_next (new_pass r)"
proof -
  have start: "pass_start (new_pass r) = (cursor r + 1) mod wakers_len r"
    "pass_next (new_pass r) = (cursor r + 1) mod wakers_len r"
    using assms by (simp_all add: new_pass_def Let_def)
  show "pass_start (new_pass r) \<le> wakers_len r" "pass_start (new_pass r) \<le> pass_next (new_pass r)"
    using assms by (auto simp: start intro: less_imp_le mod_less_divisor)
  show "remaining (wakers_len r) (new_pass r) = rotation (wakers_len r) (cursor r)"
    using assms by (cases "cursor r + 1 = wakers_len r") (simp_all add: remaining_def start rotation_def)
qed

lemma abs_poll:
  assumes "ready_ok r"
  shows "abs_result (poll_ready poll race r e) = s_poll poll race (abs_routes r) e"
    and "ready_ok (fst (snd (poll_ready poll race r e)))"
proof -
  let ?r = "task_register r"
  have ok: "ready_ok ?r" using assms by (simp add: task_register_def ready_ok_def)
  have abs: "abs_routes ?r = (abs_routes r)\<lparr>s_waker := True\<rparr>" by (simp add: task_register_def abs_routes_def)
  have "abs_result (poll_ready poll race r e) = s_poll poll race (abs_routes r) e
      \<and> ready_ok (fst (snd (poll_ready poll race r e)))"
  proof (cases "open_count r = 0")
    case True
    then show ?thesis using assms abs_open_count [OF assms]
      by (simp add: poll_ready_def s_poll_def abs_result_def)
  next
    case False
    then have opn: "s_open (abs_routes r) \<noteq> {}" using abs_open_count [OF assms] by simp
    then have "cursor r < wakers_len r" using assms by (auto simp: ready_ok_def abs_routes_def)
    then have cur: "cursor ?r < wakers_len ?r" by (simp add: task_register_def)
    have eq: "wakers_len ?r = s_len (abs_routes r)" "cursor ?r = s_cursor (abs_routes r)"
      by (simp_all add: task_register_def abs_routes_def)
    have rot: "remaining (wakers_len ?r) (new_pass ?r) = rotation (s_len (abs_routes r)) (s_cursor (abs_routes r))"
      using new_pass_rotation(1) [OF cur] unfolding eq .
    show ?thesis
      using abs_pass [OF ok new_pass_rotation(3, 2) [OF cur], of poll race e, unfolded rot abs] False opn
      by (simp add: poll_ready_def s_poll_def)
  qed
  then show "abs_result (poll_ready poll race r e) = s_poll poll race (abs_routes r) e"
    and "ready_ok (fst (snd (poll_ready poll race r e)))" by simp_all
qed

lemma fold_or_bit:
  "len \<le> length ws * 32 \<Longrightarrow> routes_in (fold or_bit [0..<len] ws) = {..<len} \<union> routes_in ws
     \<and> length (fold or_bit [0..<len] ws) = length ws"
proof (induction len)
  case (Suc n)
  let ?ws = "fold or_bit [0..<n] ws"
  have ih: "routes_in ?ws = {..<n} \<union> routes_in ws" "length ?ws = length ws" using Suc by auto
  have "n div 32 < length ws" using Suc.prems by (simp add: div_less_iff_less_mult)
  then have "routes_in (or_bit n ?ws) = insert n (routes_in ?ws)" by (simp add: ih routes_in_or_bit)
  moreover have "fold or_bit [0..<Suc n] ws = or_bit n ?ws" by simp
  ultimately show ?case by (simp only: ih length_or_bit lessThan_Suc Un_insert_left simp_thms)
qed simp

lemma ready_new_ok:
  "ready_ok (ready_new len) \<and> abs_routes (ready_new len) =
     \<lparr>s_ready = {..<len}, s_open = {..<len}, s_waker = False, s_woken = False, s_len = len, s_cursor = len - 1\<rparr>"
proof -
  have "len \<le> div_ceil len 32 * 32" unfolding div_ceil_def
    using dividend_less_div_times [of 32 "len + 31"] by simp
  moreover have "routes_in (replicate (div_ceil len 32) 0) = {}" by (auto simp: routes_in_def)
  ultimately show ?thesis
    using fold_or_bit [of len "replicate (div_ceil len 32) 0"]
    by (auto simp: ready_new_def ready_ok_def abs_routes_def Let_def)
qed

subsection \<open>No lost wake-up\<close>

text \<open>
  What the scheduler needs of the readers: a reader that has nothing keeps the route's waker
  (\<open>armed\<close>) or fires it, and an armed waker stays until it fires.
\<close>

locale route_readers =
  fixes poll :: "nat \<Rightarrow> 'e \<Rightarrow> polled \<times> nat list \<times> 'e"
    and race :: "'e \<Rightarrow> nat list \<times> 'e"
    and armed :: "nat \<Rightarrow> 'e \<Rightarrow> bool"
    and good :: "nat \<Rightarrow> 'e \<Rightarrow> bool"
  assumes poll_good: "good n e \<Longrightarrow> rid < n \<Longrightarrow> poll rid e = (out, ws, e') \<Longrightarrow> good n e'"
    and race_good: "good n e \<Longrightarrow> race e = (ws, e') \<Longrightarrow> good n e'"
    and poll_pending: "good n e \<Longrightarrow> rid < n \<Longrightarrow> poll rid e = (Pending, ws, e') \<Longrightarrow> rid \<in> set ws \<or> armed rid e'"
    and poll_keeps: "good n e \<Longrightarrow> rid < n \<Longrightarrow> poll rid e = (out, ws, e') \<Longrightarrow> armed j e \<Longrightarrow> j \<noteq> rid
      \<Longrightarrow> j \<in> set ws \<or> armed j e'"
    and race_keeps: "good n e \<Longrightarrow> race e = (ws, e') \<Longrightarrow> armed j e \<Longrightarrow> j \<in> set ws \<or> armed j e'"

lemma rotation_set: "set (rotation len c) = {..<len}"
  by (auto simp: rotation_def)

lemma s_wake_all_ready: "s_ready (s_wake_all ws s) = s_ready s \<union> {j \<in> set ws. j < s_len s}"
  by (induction ws arbitrary: s) (auto simp: s_wake_all_def s_wake_def)

lemma s_wake_all_open [simp]: "s_open (s_wake_all ws s) = s_open s"
  by (induction ws arbitrary: s) (auto simp: s_wake_all_def s_wake_def)

lemma s_wake_simps [simp]:
  "s_len (s_wake w s) = s_len s" "s_open (s_wake w s) = s_open s" "s_cursor (s_wake w s) = s_cursor s"
  by (simp_all add: s_wake_def)

lemma s_wake_all_Cons: "s_wake_all (w # ws) s = s_wake_all ws (s_wake w s)"
  by (simp add: s_wake_all_def)

text \<open>As long as the waker is stored, nothing was woken.\<close>

lemma s_wake_all_waker: "s_waker (s_wake_all ws s) \<Longrightarrow> s_waker s \<and> s_ready (s_wake_all ws s) = s_ready s"
proof (induction ws arbitrary: s)
  case (Cons w ws)
  have "s_waker (s_wake w s) \<and> s_ready (s_wake_all (w # ws) s) = s_ready (s_wake w s)"
    using Cons.prems unfolding s_wake_all_Cons by (rule Cons.IH)
  then show ?case by (auto simp: s_wake_def split: if_splits)
qed (simp add: s_wake_all_def)

lemma s_wake_all_woken: "s_waker s \<or> s_woken s \<Longrightarrow> s_waker (s_wake_all ws s) \<or> s_woken (s_wake_all ws s)"
proof (induction ws arbitrary: s)
  case (Cons w ws)
  have "s_waker (s_wake w s) \<or> s_woken (s_wake w s)"
    using Cons.prems by (auto simp: s_wake_def)
  then show ?case unfolding s_wake_all_Cons by (rule Cons.IH)
qed (simp add: s_wake_all_def)

lemma s_wake_all_cursor [simp]: "s_cursor (s_wake_all ws s) = s_cursor s"
  by (induction ws arbitrary: s) (simp_all add: s_wake_all_def)

lemma dropWhile_parts:
  assumes "dropWhile P xs = y # ys" and "x \<in> set xs" and "\<not> P x" and "x \<noteq> y"
  shows "x \<in> set ys"
proof -
  have "x \<in> set (takeWhile P xs) \<union> set (y # ys)"
    using assms(2) unfolding assms(1) [symmetric] set_append [symmetric] takeWhile_dropWhile_id .
  then show ?thesis using assms(3, 4) set_takeWhileD [of x P xs] by auto
qed

context route_readers
begin

text \<open>Every open route but those of \<open>X\<close> is marked, or its reader will mark it.\<close>

definition covered :: "nat set \<Rightarrow> sched \<Rightarrow> 'e \<Rightarrow> bool" where
  "covered X s e \<longleftrightarrow> good (s_len s) e \<and> s_open s \<subseteq> {..<s_len s} \<and> (s_waker s \<or> s_woken s)
     \<and> (\<forall>j \<in> s_open s - X. j \<in> s_ready s \<or> armed j e)"

lemma covered_race:
  assumes "race e = (ws, e')" and "covered {} s e"
  shows "covered {} (s_wake_all ws s) e'"
proof -
  have good: "good (s_len s) e" using assms(2) by (simp add: covered_def)
  show ?thesis
    using assms race_keeps [OF good assms(1)] race_good [OF good assms(1)] s_wake_all_woken [of s ws]
    by (auto simp: covered_def s_wake_all_ready)
qed

lemma covered_poll:
  assumes "poll rid e = (out, ws, e')" and "covered {rid} s e" and "rid < s_len s"
  shows "covered {rid} (s_wake_all ws s) e'" and "out = Pending \<Longrightarrow> covered {} (s_wake_all ws s) e'"
proof -
  have good: "good (s_len s) e" using assms(2) by (simp add: covered_def)
  note keep = poll_keeps [OF good assms(3, 1)] and good' = poll_good [OF good assms(3, 1)]
  show c: "covered {rid} (s_wake_all ws s) e'"
    using assms(2) keep good' s_wake_all_woken [of s ws] by (auto simp: covered_def s_wake_all_ready)
  assume "out = Pending"
  then have "rid \<in> set ws \<or> armed rid e'" using poll_pending [OF good assms(3)] assms(1) by simp
  then show "covered {} (s_wake_all ws s) e'"
    using c assms(3) by (auto simp: covered_def s_wake_all_ready)
qed

text \<open>One route, until it stops skipping.\<close>

lemma covered_loop:
  "covered {rid} s e \<Longrightarrow> rid < s_len s \<Longrightarrow> s_loop poll rid skips s e = (staged, s', e') \<Longrightarrow>
     covered {} s' e' \<and> s_len s' = s_len s \<and> (\<not> staged \<longrightarrow> s_cursor s' = s_cursor s)
     \<and> (\<not> staged \<and> s_waker s' \<longrightarrow> s_waker s \<and> s_ready s' = s_ready s) \<and> s_open s' \<subseteq> s_open s"
proof (induction "skip_budget - skips" arbitrary: skips s e rule: less_induct)
  case less
  obtain out ws e1 where out: "poll rid e = (out, ws, e1)" by (metis prod_cases3)
  let ?s1 = "s_wake_all ws s"
  note c1 = covered_poll [OF out less.prems(1, 2)]
  show ?case
  proof (cases out)
    case Pending
    then show ?thesis
      using less.prems(3) c1(2) s_wake_all_waker [of ws s] by (subst (asm) s_loop.simps) (auto simp: out)
  next
    case Staged
    then show ?thesis
      using less.prems(3) c1(1) by (subst (asm) s_loop.simps) (auto simp: out Let_def covered_def)
  next
    case Closed
    then show ?thesis
      using less.prems(3) c1(1) s_wake_all_waker [of ws s]
      by (subst (asm) s_loop.simps) (auto simp: out Let_def covered_def)
  next
    case Skipped
    show ?thesis
    proof (cases "skip_budget \<le> skips + 1")
      case True
      then have "staged = False" "s' = s_wake rid ?s1" "e' = e1"
        using less.prems(3) Skipped by (simp_all add: s_loop.simps [of poll rid skips s e] out)
      then show ?thesis using c1(1) less.prems(2) by (auto simp: covered_def s_wake_def)
    next
      case False
      then have "s_loop poll rid (skips + 1) ?s1 e1 = (staged, s', e')"
        using less.prems(3) Skipped by (simp add: s_loop.simps [of poll rid skips s e] out Let_def)
      from less.hyps [OF _ c1(1) _ this] show ?thesis
        using False less.prems(2) s_wake_all_waker [of ws s] by auto
    qed
  qed
qed

text \<open>\<open>quiet todo s\<close>: while the task's waker is stored, only routes of \<open>todo\<close> wait to be taken.\<close>

definition quiet :: "nat list \<Rightarrow> sched \<Rightarrow> bool" where
  "quiet todo s \<longleftrightarrow> (s_waker s \<longrightarrow> (\<forall>j. s_can_take s j \<longrightarrow> j \<in> set todo))"

lemma covered_walk:
  "covered {} s e \<Longrightarrow> quiet todo s \<Longrightarrow> set todo \<subseteq> {..<s_len s} \<Longrightarrow>
     s_walk poll race todo s e = (res, s', e') \<Longrightarrow>
     covered {} s' e' \<and> s_len s' = s_len s \<and> (res = PollPending \<longrightarrow> quiet [] s')"
proof (induction "length todo" arbitrary: todo s e rule: less_induct)
  case less
  obtain ws e1 where race: "race e = (ws, e1)" by fastforce
  let ?s1 = "s_wake_all ws s"
  have c1: "covered {} ?s1 e1" by (rule covered_race [OF race less.prems(1)])
  have q1: "quiet todo ?s1"
    using less.prems(2) s_wake_all_waker [of ws s] by (auto simp: quiet_def s_can_take_def)
  show ?case
  proof (cases "dropWhile (\<lambda>rid. \<not> s_can_take ?s1 rid) todo")
    case Nil
    have "s' = ?s1" "e' = e1"
      using less.prems(4) s_walk_end [where race = race and poll = poll, OF race Nil] by simp_all
    moreover have "quiet [] ?s1" using q1 Nil by (auto simp: quiet_def)
    ultimately show ?thesis using c1 by simp
  next
    case (Cons rid rest)
    obtain ws2 e2 where race2: "race e1 = (ws2, e2)" by fastforce
    let ?s2 = "s_wake_all ws2 ?s1" let ?c = "?s2\<lparr>s_ready := s_ready ?s2 - {rid}\<rparr>"
    obtain staged s3 e3 where loop: "s_loop poll rid 0 ?c e2 = (staged, s3, e3)" by (metis prod_cases3)
    note walk = s_walk_step [where race = race and poll = poll, OF race Cons race2 loop]
    have "rid \<in> set (dropWhile (\<lambda>rid. \<not> s_can_take ?s1 rid) todo)" by (simp add: Cons)
    then have rid: "rid < s_len ?c" using less.prems(3) set_dropWhileD by fastforce
    have "covered {} ?s2 e2" by (rule covered_race [OF race2 c1])
    then have "covered {rid} ?c e2" by (auto simp: covered_def)
    note c3 = covered_loop [OF this rid loop]
    show ?thesis
    proof (cases staged)
      case True
      then show ?thesis using walk less.prems(4) c3 by simp
    next
      case False
      have "quiet rest s3"
        unfolding quiet_def
      proof (intro impI allI)
        fix j
        assume w: "s_waker s3" and j: "s_can_take s3 j"
        have "s_waker ?s2" and r3: "s_ready s3 = s_ready ?s2 - {rid}" using c3 False w by simp_all
        with s_wake_all_waker [of ws2 ?s1] have w1: "s_waker ?s1" "s_ready ?s2 = s_ready ?s1" by auto
        have "s_can_take ?s1 j" and "j \<noteq> rid" using j c3 by (auto simp: s_can_take_def r3 w1(2))
        moreover have "j \<in> set todo" using q1 w1(1) calculation(1) by (simp add: quiet_def)
        ultimately show "j \<in> set rest" by (intro dropWhile_parts [OF Cons]) simp_all
      qed
      moreover have "set rest \<subseteq> {..<s_len s3}"
        using less.prems(3) c3 set_dropWhileD [of _ "\<lambda>rid. \<not> s_can_take ?s1 rid" todo] unfolding Cons
        by fastforce
      moreover have "s_walk poll race rest s3 e3 = (res, s', e')" using walk less.prems(4) False by simp
      ultimately show ?thesis
        using less.hyps [of rest s3 e3] dropWhile_shorter [OF Cons] c3 by simp
    qed
  qed
qed

text \<open>At rest, the task has been woken or every open route will wake it.\<close>

definition at_rest :: "sched \<Rightarrow> 'e \<Rightarrow> bool" where
  "at_rest s e \<longleftrightarrow> (s_waker s \<longrightarrow> (\<forall>j \<in> s_open s. armed j e))"

definition marked :: "sched \<Rightarrow> 'e \<Rightarrow> bool" where
  "marked s e \<longleftrightarrow> good (s_len s) e \<and> s_open s \<subseteq> {..<s_len s} \<and> (\<forall>j \<in> s_open s. j \<in> s_ready s \<or> armed j e)"

lemma poll_marks:
  assumes "marked s e" and "s_poll poll race s e = (res, s', e')"
  shows "marked s' e'" and "res = PollPending \<Longrightarrow> at_rest s' e' \<and> (s_waker s' \<or> s_woken s')"
proof -
  have "marked s' e' \<and> (res = PollPending \<longrightarrow> at_rest s' e' \<and> (s_waker s' \<or> s_woken s'))"
  proof (cases "s_open s = {}")
    case True
    then show ?thesis using assms by (auto simp: s_poll_def)
  next
    case False
    let ?s = "s\<lparr>s_waker := True\<rparr>"
    have "covered {} ?s e" using assms(1) by (simp add: covered_def marked_def)
    moreover have "quiet (rotation (s_len s) (s_cursor s)) ?s"
      using assms(1) by (auto simp: quiet_def rotation_set marked_def s_can_take_def)
    moreover have "s_walk poll race (rotation (s_len s) (s_cursor s)) ?s e = (res, s', e')"
      using assms(2) False by (simp add: s_poll_def)
    ultimately have "covered {} s' e' \<and> (res = PollPending \<longrightarrow> quiet [] s')"
      using covered_walk [of ?s e "rotation (s_len s) (s_cursor s)" res s' e'] by (simp add: rotation_set)
    then show ?thesis by (auto simp: covered_def marked_def at_rest_def quiet_def s_can_take_def)
  qed
  then show "marked s' e'" and "res = PollPending \<Longrightarrow> at_rest s' e' \<and> (s_waker s' \<or> s_woken s')" by simp_all
qed

lemma wake_takes_waker: "j \<in> set ws \<Longrightarrow> j < s_len s \<Longrightarrow> \<not> s_waker (s_wake_all ws s)"
proof (induction ws arbitrary: s)
  case (Cons w ws)
  show ?case
  proof
    assume a: "s_waker (s_wake_all (w # ws) s)"
    then have "s_waker (s_wake w s)" unfolding s_wake_all_Cons using s_wake_all_waker by blast
    then have "w \<noteq> j" using Cons.prems(2) by (auto simp: s_wake_def)
    then show False using a Cons.prems Cons.IH [of "s_wake w s"] by (simp add: s_wake_all_Cons)
  qed
qed simp

lemma race_rests:
  assumes "race e = (ws, e')" and "marked s e"
  shows "marked (s_wake_all ws s) e'" and "at_rest s e \<Longrightarrow> at_rest (s_wake_all ws s) e'"
proof -
  have good: "good (s_len s) e" using assms(2) by (simp add: marked_def)
  note keep = race_keeps [OF good assms(1)]
  have len: "j < s_len s" if "j \<in> s_open s" for j using that assms(2) by (auto simp: marked_def)
  have "j \<in> s_ready (s_wake_all ws s) \<or> armed j e'" if "j \<in> s_open s" for j
    using assms(2) keep [of j] len [OF that] that by (auto simp: marked_def s_wake_all_ready)
  then show "marked (s_wake_all ws s) e'"
    using len race_good [OF good assms(1)] by (auto simp: marked_def)
  show "at_rest (s_wake_all ws s) e'" if "at_rest s e"
    unfolding at_rest_def
  proof (intro impI ballI)
    fix j
    assume w: "s_waker (s_wake_all ws s)" and "j \<in> s_open (s_wake_all ws s)"
    then have j: "j \<in> s_open s" by simp
    then have "armed j e" using that s_wake_all_waker [OF w] by (simp add: at_rest_def)
    moreover have "j \<notin> set ws" using w wake_takes_waker len [OF j] by blast
    ultimately show "armed j e'" using keep by blast
  qed
qed

end

subsection \<open>Invariants of the environment\<close>

text \<open>What every poll and every race keeps, a call keeps; and a call that serves a route ends with the
  poll that staged its value.\<close>

lemma s_loop_cases:
  assumes "poll rid e = (out, ws, e1)"
  shows "s_loop poll rid skips s e =
    (case out of
       Pending \<Rightarrow> (False, s_wake_all ws s, e1)
     | Staged \<Rightarrow> (True, (s_wake_all ws s)\<lparr>s_ready := insert rid (s_ready (s_wake_all ws s)), s_cursor := rid\<rparr>, e1)
     | Skipped \<Rightarrow>
         (if skip_budget \<le> skips + 1 then (False, s_wake rid (s_wake_all ws s), e1)
          else s_loop poll rid (skips + 1) (s_wake_all ws s) e1)
     | Closed \<Rightarrow> (False, (s_wake_all ws s)\<lparr>s_open := s_open (s_wake_all ws s) - {rid}\<rparr>, e1))"
  by (subst s_loop.simps) (simp only: assms Let_def prod.case)

lemma s_loop_inv:
  assumes "\<And>e out ws e'. poll rid e = (out, ws, e') \<Longrightarrow> P e \<Longrightarrow> P e'"
  shows "P e \<Longrightarrow> s_loop poll rid skips s e = (staged, s', e') \<Longrightarrow>
    P e' \<and> s_len s' = s_len s \<and> (staged \<longrightarrow> (\<exists>e0 ws. P e0 \<and> poll rid e0 = (Staged, ws, e')))"
proof (induction "skip_budget - skips" arbitrary: skips s e rule: less_induct)
  case less
  obtain out ws e1 where out: "poll rid e = (out, ws, e1)" by (metis prod_cases3)
  note eq = less.prems(2) [unfolded s_loop_cases [where poll = poll, OF out]]
  have e1: "P e1" by (rule assms [OF out less.prems(1)])
  show ?case
  proof (cases "out = Skipped \<and> skips + 1 < skip_budget")
    case True
    then have "s_loop poll rid (skips + 1) (s_wake_all ws s) e1 = (staged, s', e')" using eq by simp
    moreover have "skip_budget - (skips + 1) < skip_budget - skips" using True by linarith
    ultimately show ?thesis using less.hyps [of "skips + 1" e1 "s_wake_all ws s"] e1 by simp
  next
    case False
    then show ?thesis using eq e1 out less.prems(1)
      by (cases out) (auto split: if_splits)
  qed
qed

lemma s_walk_inv:
  assumes poll: "\<And>rid e out ws e'. rid < n \<Longrightarrow> poll rid e = (out, ws, e') \<Longrightarrow> P e \<Longrightarrow> P e'"
    and race: "\<And>e ws e'. race e = (ws, e') \<Longrightarrow> P e \<Longrightarrow> P e'"
  shows "P e \<Longrightarrow> set todo \<subseteq> {..<n} \<Longrightarrow> s_walk poll race todo s e = (res, s', e') \<Longrightarrow>
    P e' \<and> (\<forall>rid. res = PollReady (Some rid) \<longrightarrow> rid < n \<and> (\<exists>e0 ws. P e0 \<and> poll rid e0 = (Staged, ws, e')))"
proof (induction "length todo" arbitrary: todo s e rule: less_induct)
  case less
  obtain ws e1 where r1: "race e = (ws, e1)" by fastforce
  let ?s1 = "s_wake_all ws s"
  show ?case
  proof (cases "dropWhile (\<lambda>rid. \<not> s_can_take ?s1 rid) todo")
    case Nil
    then show ?thesis
      using less.prems race [OF r1] s_walk_end [where race = race and poll = poll, OF r1 Nil] by (auto split: if_splits)
  next
    case (Cons rid rest)
    obtain ws2 e2 where r2: "race e1 = (ws2, e2)" by fastforce
    let ?s2 = "s_wake_all ws2 ?s1" let ?c = "?s2\<lparr>s_ready := s_ready ?s2 - {rid}\<rparr>"
    obtain staged s3 e3 where loop: "s_loop poll rid 0 ?c e2 = (staged, s3, e3)" by (metis prod_cases3)
    note walk = s_walk_step [where race = race and poll = poll, OF r1 Cons r2 loop]
    have sub: "set (rid # rest) \<subseteq> {..<n}" unfolding Cons [symmetric]
      using less.prems(2) set_dropWhileD by fastforce
    have "P e1" by (rule race [OF r1 less.prems(1)])
    then have "P e2" by (rule race [OF r2])
    have rid: "rid < n" using sub by simp
    have e3: "P e3 \<and> s_len s3 = s_len ?c \<and> (staged \<longrightarrow> (\<exists>e0 ws. P e0 \<and> poll rid e0 = (Staged, ws, e3)))"
      by (rule s_loop_inv [where P = P and poll = poll, OF _ \<open>P e2\<close> loop]) (rule poll [OF rid])
    show ?thesis
    proof (cases staged)
      case True
      then show ?thesis using walk less.prems(3) e3 sub by auto
    next
      case False
      then show ?thesis
        using walk less.prems(3) e3 sub less.hyps [OF dropWhile_shorter [OF Cons], of e3 s3] by simp
    qed
  qed
qed

lemma poll_ready_inv:
  assumes poll: "\<And>rid e out ws e'. rid < wakers_len r \<Longrightarrow> poll rid e = (out, ws, e') \<Longrightarrow> P e \<Longrightarrow> P e'"
    and race: "\<And>e ws e'. race e = (ws, e') \<Longrightarrow> P e \<Longrightarrow> P e'"
    and "ready_ok r" and "P e" and call: "poll_ready poll race r e = (res, r', e')"
  shows "P e'" and "res = PollReady (Some rid) \<Longrightarrow>
    rid < wakers_len r \<and> (\<exists>e0 ws. P e0 \<and> poll rid e0 = (Staged, ws, e'))"
proof -
  have abs: "s_poll poll race (abs_routes r) e = (res, abs_routes r', e')"
    using abs_poll(1) [OF assms(3), of poll race e] by (simp add: call abs_result_def)
  have "P e' \<and> (\<forall>rid. res = PollReady (Some rid) \<longrightarrow>
      rid < wakers_len r \<and> (\<exists>e0 ws. P e0 \<and> poll rid e0 = (Staged, ws, e')))"
  proof (cases "s_open (abs_routes r) = {}")
    case True
    then show ?thesis using abs assms(4) by (auto simp: s_poll_def)
  next
    case False
    then have walk: "s_walk poll race (rotation (wakers_len r) (cursor r)) ((abs_routes r)\<lparr>s_waker := True\<rparr>) e
        = (res, abs_routes r', e')"
      using abs by (simp add: s_poll_def abs_routes_def)
    have sub: "set (rotation (wakers_len r) (cursor r)) \<subseteq> {..<wakers_len r}" by (simp add: rotation_set)
    show ?thesis by (rule s_walk_inv [where P = P and poll = poll and race = race, OF _ _ assms(4) sub walk]) (fact poll, fact race)
  qed
  then show "P e'" and "res = PollReady (Some rid) \<Longrightarrow>
    rid < wakers_len r \<and> (\<exists>e0 ws. P e0 \<and> poll rid e0 = (Staged, ws, e'))" by blast+
qed

subsection \<open>Turns\<close>

text \<open>\<open>logged\<close> records the routes polled; the scheduler does not see the log.\<close>

definition logged :: "(nat \<Rightarrow> 'e \<Rightarrow> polled \<times> nat list \<times> 'e) \<Rightarrow> nat \<Rightarrow> 'e \<times> nat list \<Rightarrow> polled \<times> nat list \<times> 'e \<times> nat list" where
  "logged poll rid el =
     (case poll rid (fst el) of (out, ws, e') \<Rightarrow> (out, ws, e', snd el @ [rid]))"

definition logged_race :: "('e \<Rightarrow> nat list \<times> 'e) \<Rightarrow> 'e \<times> nat list \<Rightarrow> nat list \<times> 'e \<times> nat list" where
  "logged_race race el = (case race (fst el) of (ws, e') \<Rightarrow> (ws, e', snd el))"

lemma logged_loop:
  "s_loop (logged poll) rid skips s (e, l) = (staged, s', e', l') \<Longrightarrow>
     rid \<in> set l' \<and> set l \<subseteq> set l' \<and> s_ready s \<subseteq> s_ready s' \<and> s_open s - {rid} \<subseteq> s_open s'
     \<and> s_len s' = s_len s \<and> s_cursor s' = (if staged then rid else s_cursor s)"
proof (induction "skip_budget - skips" arbitrary: skips s e l rule: less_induct)
  case less
  obtain out ws e1 where "poll rid e = (out, ws, e1)" by (metis prod_cases3)
  then have out: "logged poll rid (e, l) = (out, ws, e1, l @ [rid])" by (simp add: logged_def)
  note eq = less.prems [unfolded s_loop_cases [where poll = "logged poll", OF out]]
  show ?case
  proof (cases "out = Skipped \<and> skips + 1 < skip_budget")
    case True
    then have "s_loop (logged poll) rid (skips + 1) (s_wake_all ws s) (e1, l @ [rid]) = (staged, s', e', l')"
      using eq by simp
    moreover have "skip_budget - (skips + 1) < skip_budget - skips" using True by linarith
    ultimately show ?thesis
      using less.hyps [of "skips + 1" "s_wake_all ws s" e1 "l @ [rid]"] by (auto simp: s_wake_all_ready)
  next
    case False
    then show ?thesis using eq
      by (cases out) (auto simp: s_wake_all_ready s_wake_def split: if_splits)
  qed
qed

lemma logged_walk_grows:
  "s_walk (logged poll) (logged_race race) todo s (e, l) = (res, s', e', l') \<Longrightarrow> set l \<subseteq> set l'"
proof (induction "length todo" arbitrary: todo s e l rule: less_induct)
  case less
  obtain ws e1 where "race e = (ws, e1)" by fastforce
  then have race: "logged_race race (e, l) = (ws, e1, l)" by (simp add: logged_race_def)
  let ?s1 = "s_wake_all ws s"
  show ?case
  proof (cases "dropWhile (\<lambda>rid. \<not> s_can_take ?s1 rid) todo")
    case Nil
    then show ?thesis
      using less.prems s_walk_end [where race = "logged_race race" and poll = "logged poll", OF race Nil] by simp
  next
    case (Cons r rest)
    obtain ws2 e2 where "race e1 = (ws2, e2)" by fastforce
    then have race2: "logged_race race (e1, l) = (ws2, e2, l)" by (simp add: logged_race_def)
    let ?s2 = "s_wake_all ws2 ?s1" let ?c = "?s2\<lparr>s_ready := s_ready ?s2 - {r}\<rparr>"
    obtain staged s3 e3 l3 where loop: "s_loop (logged poll) r 0 ?c (e2, l) = (staged, s3, e3, l3)"
      by (metis prod_cases4)
    note walk = s_walk_step [where race = "logged_race race" and poll = "logged poll", OF race Cons race2 loop]
    then show ?thesis
      using less.prems less.hyps [of rest s3 e3 l3] dropWhile_shorter [OF Cons] logged_loop [OF loop]
      by (cases staged) auto
  qed
qed

lemma logged_walk:
  "s_walk (logged poll) (logged_race race) todo s (e, l) = (PollReady (Some rid), s', e', l') \<Longrightarrow>
     j \<in> set todo \<Longrightarrow> s_can_take s j \<Longrightarrow> j \<notin> set l' \<Longrightarrow>
     s_can_take s' j \<and> s_cursor s' = rid \<and> s_len s' = s_len s
     \<and> (\<exists>pre rest. todo = pre @ rid # rest \<and> j \<in> set rest)"
proof (induction "length todo" arbitrary: todo s e l rule: less_induct)
  case less
  obtain ws e1 where "race e = (ws, e1)" by fastforce
  then have race: "logged_race race (e, l) = (ws, e1, l)" by (simp add: logged_race_def)
  let ?s1 = "s_wake_all ws s"
  have j1: "s_can_take ?s1 j" using less.prems(3) by (auto simp: s_can_take_def s_wake_all_ready)
  then have "dropWhile (\<lambda>rid. \<not> s_can_take ?s1 rid) todo \<noteq> []" using less.prems(2) by auto
  then obtain r rest where dw: "dropWhile (\<lambda>rid. \<not> s_can_take ?s1 rid) todo = r # rest"
    by (cases "dropWhile (\<lambda>rid. \<not> s_can_take ?s1 rid) todo") auto
  obtain ws2 e2 where "race e1 = (ws2, e2)" by fastforce
  then have race2: "logged_race race (e1, l) = (ws2, e2, l)" by (simp add: logged_race_def)
  let ?s2 = "s_wake_all ws2 ?s1" let ?c = "?s2\<lparr>s_ready := s_ready ?s2 - {r}\<rparr>"
  obtain staged s3 e3 l3 where loop: "s_loop (logged poll) r 0 ?c (e2, l) = (staged, s3, e3, l3)"
    by (metis prod_cases4)
  note walk = s_walk_step [where race = "logged_race race" and poll = "logged poll", OF race dw race2 loop]
  note l3 = logged_loop [OF loop]
  have todo: "todo = takeWhile (\<lambda>rid. \<not> s_can_take ?s1 rid) todo @ r # rest"
    unfolding dw [symmetric] by simp
  show ?case
  proof (cases staged)
    case True
    then have res: "rid = r" "s' = s3" "l' = l3" using walk less.prems(1) by simp_all
    then have "j \<noteq> r" using less.prems(4) l3 by auto
    moreover have "j \<in> set rest" by (rule dropWhile_parts [OF dw less.prems(2)]) (use j1 calculation in simp_all)
    moreover have "s_can_take s3 j" using j1 l3 calculation(1) by (auto simp: s_can_take_def s_wake_all_ready)
    ultimately show ?thesis using res l3 True todo by auto
  next
    case False
    then have rec: "s_walk (logged poll) (logged_race race) rest s3 (e3, l3) = (PollReady (Some rid), s', e', l')"
      using walk less.prems(1) by simp
    have "set l3 \<subseteq> set l'" using logged_walk_grows [OF rec] .
    then have "j \<noteq> r" using less.prems(4) l3 by auto
    moreover have "j \<in> set rest" by (rule dropWhile_parts [OF dw less.prems(2)]) (use j1 calculation in simp_all)
    moreover have "s_can_take s3 j" using j1 l3 calculation(1) by (auto simp: s_can_take_def s_wake_all_ready)
    ultimately have ih: "s_can_take s' j \<and> s_cursor s' = rid \<and> s_len s' = s_len s3
        \<and> (\<exists>pre rest'. rest = pre @ rid # rest' \<and> j \<in> set rest')"
      using less.hyps [OF dropWhile_shorter [OF dw] rec] less.prems(4) by blast
    from ih obtain pre rest' where rest: "rest = pre @ rid # rest'" "j \<in> set rest'" by blast
    then have "todo = (takeWhile (\<lambda>rid. \<not> s_can_take ?s1 rid) todo @ r # pre) @ rid # rest'"
      using todo by simp
    then have "\<exists>pre rest. todo = pre @ rid # rest \<and> j \<in> set rest" using rest(2) by blast
    then show ?thesis using ih l3 by simp
  qed
qed

text \<open>How many routes a pass after \<open>c\<close> scans before it reaches \<open>j\<close>.\<close>

definition gap :: "nat \<Rightarrow> nat \<Rightarrow> nat \<Rightarrow> nat" where
  "gap len c j = (if c < j then j - c - 1 else len - c - 1 + j)"

lemma nth_rotation:
  "c < len \<Longrightarrow> i < len \<Longrightarrow> rotation len c ! i = (if i < len - c - 1 then c + 1 + i else i - (len - c - 1))"
  by (auto simp: rotation_def nth_append min_def not_less)

lemma length_rotation: "c < len \<Longrightarrow> length (rotation len c) = len"
  by (simp add: rotation_def)

lemma gap_decreases:
  assumes "rotation len c = pre @ a # rest" and "j \<in> set rest" and "c < len"
  shows "gap len a j < gap len c j"
proof -
  obtain m where m: "m < length rest" "rest ! m = j" using assms(2) by (auto simp: in_set_conv_nth)
  define i k where "i = length pre" and "k = length pre + 1 + m"
  have len: "length (pre @ a # rest) = len" using length_rotation [OF assms(3)] assms(1) by simp
  then have ik: "i < k" "k < len" "i < len" using m by (auto simp: i_def k_def)
  have "rotation len c ! i = a" "rotation len c ! k = j"
    using m by (simp_all add: assms(1) i_def k_def nth_append)
  then have "a = (if i < len - c - 1 then c + 1 + i else i - (len - c - 1))"
    and "j = (if k < len - c - 1 then c + 1 + k else k - (len - c - 1))"
    using nth_rotation [OF assms(3)] ik by auto
  then show ?thesis using ik assms(3) by (auto simp: gap_def split: if_splits)
qed

text \<open>\<open>n\<close> calls in a row, each of which stages a value: the routes served.\<close>

fun serve_calls ::
  "(nat \<Rightarrow> 'e \<Rightarrow> polled \<times> nat list \<times> 'e) \<Rightarrow> ('e \<Rightarrow> nat list \<times> 'e) \<Rightarrow> nat \<Rightarrow> ready_routes \<Rightarrow> 'e
   \<Rightarrow> (nat list \<times> ready_routes \<times> 'e) option" where
  "serve_calls poll race 0 r e = Some ([], r, e)"
| "serve_calls poll race (Suc n) r e =
     (case poll_ready poll race r e of
        (PollReady (Some rid), r', e') \<Rightarrow> map_option (\<lambda>(ids, out). (rid # ids, out)) (serve_calls poll race n r' e')
      | _ \<Rightarrow> None)"

lemma serve_calls_Suc:
  assumes "serve_calls poll race (Suc n) r e = Some (ids, r2, e2)"
  obtains rid ids' r1 e1 where "poll_ready poll race r e = (PollReady (Some rid), r1, e1)"
    and "serve_calls poll race n r1 e1 = Some (ids', r2, e2)" and "ids = rid # ids'"
  using assms by (auto split: prod.splits poll_result.splits option.splits)

lemma serve_calls_grow:
  "ready_ok r \<Longrightarrow> serve_calls (logged poll) (logged_race race) n r (e, l) = Some (ids, r', e', l') \<Longrightarrow> set l \<subseteq> set l'"
proof (induction n arbitrary: r e l ids)
  case (Suc n)
  from Suc.prems(2) obtain rid ids' r1 e1 l1 where
    call: "poll_ready (logged poll) (logged_race race) r (e, l) = (PollReady (Some rid), r1, e1, l1)"
    and rest: "serve_calls (logged poll) (logged_race race) n r1 (e1, l1) = Some (ids', r', e', l')"
    by (elim serve_calls_Suc) force
  have "s_poll (logged poll) (logged_race race) (abs_routes r) (e, l) = (PollReady (Some rid), abs_routes r1, e1, l1)"
    and "ready_ok r1"
    using abs_poll [OF Suc.prems(1), of "logged poll" "logged_race race" "(e, l)"]
    by (simp_all add: call abs_result_def)
  from this(1) have "s_walk (logged poll) (logged_race race) (rotation (wakers_len r) (cursor r))
      ((abs_routes r)\<lparr>s_waker := True\<rparr>) (e, l) = (PollReady (Some rid), abs_routes r1, e1, l1)"
    by (simp add: s_poll_def abs_routes_def split: if_splits)
  then have "set l \<subseteq> set l1" by (rule logged_walk_grows)
  then show ?case using Suc.IH [OF \<open>ready_ok r1\<close> rest] by blast
qed simp

lemma turns:
  "ready_ok r \<Longrightarrow> serve_calls (logged poll) (logged_race race) n r (e, l) = Some (ids, r', e', l') \<Longrightarrow>
     s_can_take (abs_routes r) j \<Longrightarrow> j \<notin> set l' \<Longrightarrow>
     distinct ids \<and> (\<forall>rid \<in> set ids. gap (wakers_len r) rid j < gap (wakers_len r) (cursor r) j)
     \<and> n \<le> gap (wakers_len r) (cursor r) j"
proof (induction n arbitrary: r e l ids)
  case (Suc n)
  from Suc.prems(2) obtain rid ids' r1 e1 l1 where
    call: "poll_ready (logged poll) (logged_race race) r (e, l) = (PollReady (Some rid), r1, e1, l1)"
    and rest: "serve_calls (logged poll) (logged_race race) n r1 (e1, l1) = Some (ids', r', e', l')"
    and ids: "ids = rid # ids'"
    by (elim serve_calls_Suc) force
  have abs: "s_poll (logged poll) (logged_race race) (abs_routes r) (e, l) = (PollReady (Some rid), abs_routes r1, e1, l1)"
    and ok1: "ready_ok r1"
    using abs_poll [OF Suc.prems(1), of "logged poll" "logged_race race" "(e, l)"]
    by (simp_all add: call abs_result_def)
  let ?s = "(abs_routes r)\<lparr>s_waker := True\<rparr>" let ?todo = "rotation (wakers_len r) (cursor r)"
  have walk: "s_walk (logged poll) (logged_race race) ?todo ?s (e, l) = (PollReady (Some rid), abs_routes r1, e1, l1)"
    using abs by (simp add: s_poll_def abs_routes_def split: if_splits)
  have j: "j < wakers_len r" "s_can_take ?s j"
    using Suc.prems(1, 3) by (auto simp: s_can_take_def abs_routes_def ready_ok_def)
  then have c: "cursor r < wakers_len r" using Suc.prems(1) by (auto simp: ready_ok_def)
  have "j \<notin> set l1" using serve_calls_grow [OF ok1 rest] Suc.prems(4) by blast
  from logged_walk [OF walk _ j(2) this] obtain pre post where
    can: "s_can_take (abs_routes r1) j" and cur: "cursor r1 = rid" and len: "wakers_len r1 = wakers_len r"
    and todo: "?todo = pre @ rid # post" "j \<in> set post"
    using j(1) by (auto simp: rotation_set abs_routes_def)
  have "gap (wakers_len r) rid j < gap (wakers_len r) (cursor r) j" by (rule gap_decreases [OF todo c])
  then show ?case using Suc.IH [OF ok1 rest can Suc.prems(4)] by (auto simp: ids cur len)
qed simp

subsection \<open>Properties\<close>

text \<open>
  C7. The words implement the abstract scheduler: in every well-formed state a call of
  \<open>poll_ready\<close>, with its scans of masked words, polls the same routes in the same order and ends
  in the same sets as one walk over the routes after the cursor, whatever the readers report and
  whichever wakers fire meanwhile; and a new scheduler has every route open and ready.
\<close>

theorem scheduler_refines:
  assumes "ready_ok r"
  shows "abs_result (poll_ready poll race r e) = s_poll poll race (abs_routes r) e
    \<and> ready_ok (fst (snd (poll_ready poll race r e)))
    \<and> ready_ok (ready_new len) \<and> s_ready (abs_routes (ready_new len)) = {..<len}
    \<and> s_open (abs_routes (ready_new len)) = {..<len}"
  using abs_poll [OF assms, of poll race e] ready_new_ok [of len] by simp

text \<open>
  C33. Turns are fair: while a route that was ready is not polled, the calls that serve others
  serve no route twice, and there are fewer of them than routes.
\<close>

theorem served_in_turn:
  assumes "ready_ok r" and "can_take r j" and "j < wakers_len r"
    and "serve_calls (logged poll) (logged_race race) n r (e, []) = Some (ids, r', e', polled_ids)"
    and "j \<notin> set polled_ids"
  shows "distinct ids \<and> n < wakers_len r"
proof -
  have "s_can_take (abs_routes r) j" using can_take_abs [OF assms(1, 3)] assms(2) by simp
  from turns [OF assms(1, 4) this assms(5)]
  have "distinct ids" and "n \<le> gap (wakers_len r) (cursor r) j" by auto
  moreover have "gap (wakers_len r) (cursor r) j < wakers_len r"
    using assms(1, 3) by (auto simp: gap_def ready_ok_def)
  ultimately show ?thesis by simp
qed

theorem scheduler_refines_witness:
  "abs_result (poll_ready (\<lambda>rid e. (if rid = 1 then Staged else Pending, [], e)) (\<lambda>e. ([], e)) (ready_new 40) ())
     = s_poll (\<lambda>rid e. (if rid = 1 then Staged else Pending, [], e)) (\<lambda>e. ([], e)) (abs_routes (ready_new 40)) ()
   \<and> s_open (abs_routes (ready_new 40)) = {..<40}"
  using scheduler_refines [of "ready_new 40" "\<lambda>rid e. (if rid = 1 then Staged else Pending, [], e)"
      "\<lambda>e. ([], e)" "()" 40] ready_new_ok [of 40] by blast

theorem served_in_turn_witness: "distinct [0 :: nat, 1] \<and> 2 < wakers_len (ready_new 3)"
proof (rule served_in_turn)
  show "ready_ok (ready_new 3)" using ready_new_ok by blast
  show "can_take (ready_new 3) 2" by code_simp
  show "2 < wakers_len (ready_new 3)" by code_simp
  show "serve_calls (logged (\<lambda>rid e. (Staged, [], e))) (logged_race (\<lambda>e. ([], e))) 2 (ready_new 3) ((), [])
      = Some ([0, 1], (ready_new 3)\<lparr>task_waker := True, cursor := 1\<rparr>, (), [0, 1])"
    by code_simp
  show "2 \<notin> set [0 :: nat, 1]" by simp
qed

end
