(* ===== verification/Outbound_Routes.thy ===== *)
theory Outbound_Routes
  imports Ready_Routes Wasm_Buffer
begin

text \<open>
  Outbound publishing (\<open>aimdb-core/src/outbound/routes.rs\<close>, with \<open>TopicBuf\<close> of
  \<open>connector.rs\<close> and the typed routes of \<open>typed_api.rs\<close>): each link reads its record's buffer,
  writes a topic and serializes the value, and the transport task pulls one staged message at a
  time.  The buffers are those of \<open>aimdb-wasm-adapter\<close>; a route's waker is its number.

  Topic writers and serializers are the user's functions; the runtime context they may read is
  fixed.  A topic is the list of its UTF-8 bytes: a writer pushes whole strings, so reading the
  bytes back as a string cannot fail.  A route keeps of its configuration what publishing uses.
\<close>

subsection \<open>Topics in bounded storage\<close>

record topic_buf =
  tb_buf :: bytes
  tb_len :: nat
  tb_overflowed :: bool

definition topic_buf_new :: "bytes \<Rightarrow> topic_buf" where
  "topic_buf_new buf = \<lparr>tb_buf = buf, tb_len = 0, tb_overflowed = False\<rparr>"

definition write_at :: "nat \<Rightarrow> 'a list \<Rightarrow> 'a list \<Rightarrow> 'a list" where
  "write_at i ys xs = take i xs @ ys @ drop (i + length ys) xs"

text \<open>\<open>push_str\<close>: whether it was \<open>Ok\<close>, and the buffer.\<close>

definition push_str :: "bytes \<Rightarrow> topic_buf \<Rightarrow> bool \<times> topic_buf" where
  "push_str s b =
     (if tb_len b + length s \<le> length (tb_buf b) \<and> \<not> tb_overflowed b
      then (True, b\<lparr>tb_buf := write_at (tb_len b) s (tb_buf b), tb_len := tb_len b + length s\<rparr>)
      else (False, b\<lparr>tb_overflowed := True\<rparr>))"

definition topic_str :: "topic_buf \<Rightarrow> bytes" where
  "topic_str b = take (tb_len b) (tb_buf b)"

text \<open>A topic writer: \<open>None\<close> is \<open>Err(TopicOverflow)\<close>.\<close>

type_synonym 'v topic_writer = "'v \<Rightarrow> topic_buf \<Rightarrow> bool option \<times> topic_buf"

definition write_topic :: "'v topic_writer \<Rightarrow> 'v \<Rightarrow> topic_buf \<Rightarrow> bool option \<times> topic_buf" where
  "write_topic writer v b =
     (case writer v b of
        (Some written, b') \<Rightarrow> (if \<not> tb_overflowed b' then Some written else None, b')
      | (None, b') \<Rightarrow> (None, b'))"

subsection \<open>Serializing\<close>

datatype serialize_error = BufferTooSmall | InvalidData

datatype serialize_failure =
    FailOwned serialize_error
  | FailInto serialize_error
  | FailFallback serialize_error
  | InvalidLength nat nat

datatype staged_payload = Scratch nat | OwnedPayload bytes

type_synonym 'v serializer = "'v \<Rightarrow> serialize_error + bytes"
type_synonym 'v serializer_into = "'v \<Rightarrow> bytes \<Rightarrow> (serialize_error + nat) \<times> bytes"

definition map_sum_owned ::
  "(serialize_error \<Rightarrow> serialize_failure) \<Rightarrow> serialize_error + bytes \<Rightarrow> serialize_failure + staged_payload" where
  "map_sum_owned f r = (case r of Inl e \<Rightarrow> Inl (f e) | Inr bs \<Rightarrow> Inr (OwnedPayload bs))"

definition serialize_outbound ::
  "'v serializer \<Rightarrow> 'v serializer_into option \<Rightarrow> 'v \<Rightarrow> bytes \<Rightarrow> (serialize_failure + staged_payload) \<times> bytes" where
  "serialize_outbound serialize serialize_into v scratch =
     (case serialize_into of
        None \<Rightarrow> (map_sum_owned FailOwned (serialize v), scratch)
      | Some into \<Rightarrow>
          (case into v scratch of
             (Inr len, scratch') \<Rightarrow>
               (if len \<le> length scratch' then Inr (Scratch len) else Inl (InvalidLength len (length scratch')), scratch')
           | (Inl BufferTooSmall, scratch') \<Rightarrow> (map_sum_owned FailFallback (serialize v), scratch')
           | (Inl InvalidData, scratch') \<Rightarrow> (Inl (FailInto InvalidData), scratch')))"

subsection \<open>Routes\<close>

record ('v, 'm) stamped =
  st_value :: 'v
  st_metadata :: 'm

record 'v typed_route =
  rt_record :: nat
  rt_reader :: reader_state
  rt_writer :: "'v topic_writer option"
  rt_serialize :: "'v serializer"
  rt_serialize_into :: "'v serializer_into option"

datatype 'm route_outcome =
    OutStaged "nat option" staged_payload 'm
  | OutLagged u64
  | OutTopicOverflow
  | OutSerializeFailed serialize_failure
  | OutClosed

type_synonym ('v, 'm) buffers = "('v, 'm) stamped wasm_inner list"

text \<open>
  \<open>TypedRoute::poll_route\<close>, called with waker \<open>w\<close>: the outcome (\<open>None\<close> is \<open>Pending\<close>), the buffers,
  the route, and the topic and payload slices it wrote.
\<close>

definition poll_route ::
  "nat \<Rightarrow> ('v, 'm) buffers \<Rightarrow> 'v typed_route \<Rightarrow> bytes \<Rightarrow> bytes
   \<Rightarrow> 'm route_outcome option \<times> ('v, 'm) buffers \<times> 'v typed_route \<times> bytes \<times> bytes" where
  "poll_route w bufs rt topic payload =
     (case wasm_poll_recv w (bufs ! rt_record rt) (rt_reader rt) of (r, buf, rd) \<Rightarrow>
        let bufs' = bufs[rt_record rt := buf]; rt' = rt\<lparr>rt_reader := rd\<rparr> in
        (case r of
           None \<Rightarrow> (None, bufs', rt', topic, payload)
         | Some (BufferLagged n) \<Rightarrow> (Some (OutLagged n), bufs', rt', topic, payload)
         | Some (Got sample) \<Rightarrow>
             (case (case rt_writer rt of
                      None \<Rightarrow> (Some None, topic)
                    | Some writer \<Rightarrow>
                        (case write_topic writer (st_value sample) (topic_buf_new topic) of
                           (Some written, b) \<Rightarrow> (Some (if written then Some (tb_len b) else None), tb_buf b)
                         | (None, b) \<Rightarrow> (None, tb_buf b))) of
                (None, topic') \<Rightarrow> (Some OutTopicOverflow, bufs', rt', topic', payload)
              | (Some topic_len, topic') \<Rightarrow>
                  (case serialize_outbound (rt_serialize rt) (rt_serialize_into rt) (st_value sample) payload of
                     (Inr p, payload') \<Rightarrow>
                       (Some (OutStaged topic_len p (st_metadata sample)), bufs', rt', topic', payload')
                   | (Inl failure, payload') \<Rightarrow> (Some (OutSerializeFailed failure), bufs', rt', topic', payload')))
         | Some _ \<Rightarrow> (Some OutClosed, bufs', rt', topic, payload)))"

record route_info =
  ri_id :: nat
  ri_default_topic :: bytes
  ri_record_index :: nat
  ri_topic_capacity :: nat
  ri_payload_capacity :: nat

record route_stats =
  rs_sent :: u64
  rs_rejected :: u64
  rs_lagged :: u64
  rs_topic_overflow :: u64
  rs_serialize_failed :: u64

definition stats_default :: route_stats where
  "stats_default = \<lparr>rs_sent = 0, rs_rejected = 0, rs_lagged = 0, rs_topic_overflow = 0, rs_serialize_failed = 0\<rparr>"

record 'm staged_msg =
  sg_id :: nat
  sg_topic_len :: "nat option"
  sg_payload :: staged_payload
  sg_metadata :: 'm

record ('v, 'm) outbound_routes =
  ob_routes :: "route_info list"
  ob_states :: "'v typed_route list"
  ob_stats :: "route_stats list"
  ob_ready :: ready_routes
  ob_scratch :: bytes
  ob_topic_region :: nat
  ob_staged :: "'m staged_msg option"

subsection \<open>Building\<close>

record 'v outbound_link =
  ol_scheme :: bytes
  ol_resource :: bytes
  ol_topic_writer :: "(nat \<times> 'v topic_writer) option"
  ol_serialize :: "'v serializer"
  ol_serialize_into :: "(nat \<times> 'v serializer_into) option"

text \<open>A record of the database: its outbound links; its buffer is the one of the same index.\<close>

type_synonym 'v record_links = "'v outbound_link list"

definition outbound_links :: "'v record_links list \<Rightarrow> bytes \<Rightarrow> (nat \<times> 'v outbound_link) list" where
  "outbound_links storages scheme =
     concat (map (\<lambda>(i, links). map (Pair i) (filter (\<lambda>l. ol_scheme l = scheme) links))
       (enumerate 0 storages))"

text \<open>The route factory a link registers: it subscribes to the link's record.\<close>

definition route_factory :: "('v, 'm) buffers \<Rightarrow> nat \<Rightarrow> 'v outbound_link \<Rightarrow> 'v typed_route \<times> nat \<times> nat" where
  "route_factory bufs i link =
     (let (topic_capacity, writer) =
        (case ol_topic_writer link of Some (capacity, writer) \<Rightarrow> (capacity, Some writer) | None \<Rightarrow> (0, None))
      in (\<lparr>rt_record = i, rt_reader = wasm_subscribe (bufs ! i), rt_writer = writer,
           rt_serialize = ol_serialize link, rt_serialize_into = map_option snd (ol_serialize_into link)\<rparr>,
          topic_capacity, case ol_serialize_into link of None \<Rightarrow> 0 | Some (capacity, _) \<Rightarrow> capacity))"

definition route_of :: "('v, 'm) buffers \<Rightarrow> nat \<Rightarrow> nat \<times> 'v outbound_link \<Rightarrow> route_info \<times> 'v typed_route" where
  "route_of bufs rid il =
     (case route_factory bufs (fst il) (snd il) of (rt, tc, pc) \<Rightarrow>
        (\<lparr>ri_id = rid, ri_default_topic = ol_resource (snd il), ri_record_index = fst il,
          ri_topic_capacity = tc, ri_payload_capacity = pc\<rparr>, rt))"

definition outbound_new :: "('v, 'm) buffers \<Rightarrow> 'v record_links list \<Rightarrow> bytes \<Rightarrow> ('v, 'm) outbound_routes" where
  "outbound_new bufs storages scheme =
     (let built = map (\<lambda>(rid, il). route_of bufs rid il) (enumerate 0 (outbound_links storages scheme));
          routes = map fst built;
          topic_region = fold max (map ri_topic_capacity routes) 0;
          payload_region = fold max (map ri_payload_capacity routes) 0
      in \<lparr>ob_routes = routes, ob_states = map snd built, ob_stats = replicate (length routes) stats_default,
          ob_ready = ready_new (length routes), ob_scratch = replicate (topic_region + payload_region) 0,
          ob_topic_region = topic_region, ob_staged = None\<rparr>)"

subsection \<open>Polling\<close>

text \<open>The records' buffers, and what producers write while the transport task can be preempted.\<close>

record ('v, 'm) world =
  wd_bufs :: "('v, 'm) buffers"
  wd_racing :: "(nat \<times> ('v, 'm) stamped) list list"

type_synonym ('v, 'm) env = "('v, 'm) outbound_routes \<times> ('v, 'm) world"

text \<open>A write to a record: the wakers it fires and the buffers.\<close>

definition produce :: "nat \<times> ('v, 'm) stamped \<Rightarrow> nat list \<times> ('v, 'm) buffers \<Rightarrow> nat list \<times> ('v, 'm) buffers" where
  "produce iv out =
     (case (iv, out) of ((i, v), (ws, bufs)) \<Rightarrow>
        if i < length bufs
        then (ws @ snd (wasm_push v (bufs ! i)), bufs[i := fst (wasm_push v (bufs ! i))])
        else (ws, bufs))"

definition producers :: "('v, 'm) env \<Rightarrow> nat list \<times> ('v, 'm) env" where
  "producers ow =
     (case ow of (ob, w) \<Rightarrow>
        (case wd_racing w of
           [] \<Rightarrow> ([], ob, w)
         | ps # rest \<Rightarrow>
             (case fold produce ps ([], wd_bufs w) of (ws, bufs) \<Rightarrow>
                (ws, ob, w\<lparr>wd_bufs := bufs, wd_racing := rest\<rparr>))))"

definition count_stats :: "nat \<Rightarrow> (route_stats \<Rightarrow> route_stats) \<Rightarrow> ('v, 'm) outbound_routes \<Rightarrow> ('v, 'm) outbound_routes" where
  "count_stats rid f ob = ob\<lparr>ob_stats := (ob_stats ob)[rid := f (ob_stats ob ! rid)]\<rparr>"

definition topic_slice :: "('v, 'm) outbound_routes \<Rightarrow> nat \<Rightarrow> bytes" where
  "topic_slice ob rid = take (ri_topic_capacity (ob_routes ob ! rid)) (take (ob_topic_region ob) (ob_scratch ob))"

definition payload_slice :: "('v, 'm) outbound_routes \<Rightarrow> nat \<Rightarrow> bytes" where
  "payload_slice ob rid = take (ri_payload_capacity (ob_routes ob ! rid)) (drop (ob_topic_region ob) (ob_scratch ob))"

text \<open>The closure \<open>poll_stage\<close> hands to \<open>poll_ready\<close>.\<close>

definition poll_one :: "nat \<Rightarrow> ('v, 'm) env \<Rightarrow> polled \<times> nat list \<times> ('v, 'm) env" where
  "poll_one rid ow =
     (case ow of (ob, w) \<Rightarrow>
        (case poll_route rid (wd_bufs w) (ob_states ob ! rid) (topic_slice ob rid) (payload_slice ob rid) of
           (out, bufs, rt, topic, payload) \<Rightarrow>
             let ob' = ob\<lparr>ob_states := (ob_states ob)[rid := rt],
                           ob_scratch := write_at (ob_topic_region ob) payload (write_at 0 topic (ob_scratch ob))\<rparr>;
                 w' = w\<lparr>wd_bufs := bufs\<rparr>
             in (case out of
                   None \<Rightarrow> (Pending, [], ob', w')
                 | Some (OutStaged topic_len p m) \<Rightarrow>
                     (Staged, [],
                      (count_stats rid (\<lambda>st. st\<lparr>rs_sent := rs_sent st + 1\<rparr>) ob')
                        \<lparr>ob_staged := Some \<lparr>sg_id = rid, sg_topic_len = topic_len, sg_payload = p, sg_metadata = m\<rparr>\<rparr>, w')
                 | Some (OutLagged n) \<Rightarrow>
                     (Skipped, [], count_stats rid (\<lambda>st. st\<lparr>rs_lagged := rs_lagged st + n\<rparr>) ob', w')
                 | Some OutTopicOverflow \<Rightarrow>
                     (Skipped, [], count_stats rid (\<lambda>st. st\<lparr>rs_topic_overflow := rs_topic_overflow st + 1\<rparr>) ob', w')
                 | Some (OutSerializeFailed _) \<Rightarrow>
                     (Skipped, [], count_stats rid (\<lambda>st. st\<lparr>rs_serialize_failed := rs_serialize_failed st + 1\<rparr>) ob', w')
                 | Some OutClosed \<Rightarrow> (Closed, [], ob', w'))))"

definition poll_stage :: "('v, 'm) env \<Rightarrow> poll_result \<times> ('v, 'm) env" where
  "poll_stage ow =
     (case ow of (ob, w) \<Rightarrow>
        (case ob_staged ob of
           Some staged \<Rightarrow> (PollReady (Some (sg_id staged)), ob, w)
         | None \<Rightarrow>
             (case poll_ready poll_one producers (ob_ready ob) (ob, w) of
                (res, rd, ob', w') \<Rightarrow> (res, ob'\<lparr>ob_ready := rd\<rparr>, w'))))"

subsection \<open>Taking the staged message\<close>

datatype outbound_payload = Borrowed bytes | Owned bytes

fun as_slice :: "outbound_payload \<Rightarrow> bytes" where
  "as_slice (Borrowed bs) = bs"
| "as_slice (Owned bs) = bs"

fun into_vec :: "outbound_payload \<Rightarrow> bytes" where
  "into_vec (Borrowed bs) = bs"
| "into_vec (Owned bs) = bs"

record 'm outbound_message =
  om_route :: route_info
  om_topic :: bytes
  om_payload :: outbound_payload
  om_metadata :: 'm

definition take_staged :: "('v, 'm) outbound_routes \<Rightarrow> 'm outbound_message option \<times> ('v, 'm) outbound_routes" where
  "take_staged ob =
     (case ob_staged ob of
        None \<Rightarrow> (None, ob)
      | Some staged \<Rightarrow>
          let route = ob_routes ob ! sg_id staged
          in (Some \<lparr>om_route = route,
                om_topic = (case sg_topic_len staged of
                    Some len \<Rightarrow> take len (take (ob_topic_region ob) (ob_scratch ob))
                  | None \<Rightarrow> ri_default_topic route),
                om_payload = (case sg_payload staged of
                    Scratch len \<Rightarrow> Borrowed (take len (drop (ob_topic_region ob) (ob_scratch ob)))
                  | OwnedPayload bs \<Rightarrow> Owned bs),
                om_metadata = sg_metadata staged\<rparr>, ob\<lparr>ob_staged := None\<rparr>))"

definition reject :: "nat \<Rightarrow> ('v, 'm) outbound_routes \<Rightarrow> ('v, 'm) outbound_routes" where
  "reject rid ob =
     (if rid < length (ob_stats ob) then count_stats rid (\<lambda>st. st\<lparr>rs_rejected := rs_rejected st + 1\<rparr>) ob else ob)"

definition stats :: "nat \<Rightarrow> ('v, 'm) outbound_routes \<Rightarrow> route_stats option" where
  "stats rid ob = (if rid < length (ob_stats ob) then Some (ob_stats ob ! rid) else None)"

text \<open>\<open>poll_next\<close>: \<open>None\<close> is \<open>Pending\<close>.\<close>

definition poll_next :: "('v, 'm) env \<Rightarrow> 'm outbound_message option option \<times> ('v, 'm) env" where
  "poll_next ow =
     (case poll_stage ow of
        (PollReady (Some _), ob, w) \<Rightarrow> (case take_staged ob of (msg, ob') \<Rightarrow> (Some msg, ob', w))
      | (PollReady None, ow') \<Rightarrow> (Some None, ow')
      | (PollPending, ow') \<Rightarrow> (None, ow'))"

subsection \<open>The connector and its producers\<close>

text \<open>
  Any interleaving of writes to records with the transport task's calls.  \<open>os_asleep\<close> records that
  the last poll returned \<open>Pending\<close>: the task then runs again only when it is woken.
\<close>

datatype ('v, 'm) out_op =
    Write nat "('v, 'm) stamped"
  | Poll_Stage "(nat \<times> ('v, 'm) stamped) list list"
  | Take_Staged
  | Reject nat

record ('v, 'm) out_sys =
  os_routes :: "('v, 'm) outbound_routes"
  os_bufs :: "('v, 'm) buffers"
  os_asleep :: bool

fun out_step :: "('v, 'm) out_op \<Rightarrow> ('v, 'm) out_sys \<Rightarrow> ('v, 'm) out_sys" where
  "out_step (Write i v) s =
     (case produce (i, v) ([], os_bufs s) of (ws, bufs) \<Rightarrow>
        s\<lparr>os_bufs := bufs, os_routes := (os_routes s)\<lparr>ob_ready := wake_all ws (ob_ready (os_routes s))\<rparr>\<rparr>)"
| "out_step (Poll_Stage racing) s =
     (case poll_stage (os_routes s, \<lparr>wd_bufs = os_bufs s, wd_racing = racing\<rparr>) of
        (res, ob, w) \<Rightarrow> \<lparr>os_routes = ob, os_bufs = wd_bufs w, os_asleep = (res = PollPending)\<rparr>)"
| "out_step Take_Staged s = s\<lparr>os_routes := snd (take_staged (os_routes s))\<rparr>"
| "out_step (Reject rid) s = s\<lparr>os_routes := reject rid (os_routes s)\<rparr>"

definition out_run :: "('v, 'm) out_op list \<Rightarrow> ('v, 'm) out_sys \<Rightarrow> ('v, 'm) out_sys" where
  "out_run ops s = fold out_step ops s"

definition out_init :: "buffer_cfg list \<Rightarrow> 'v record_links list \<Rightarrow> bytes \<Rightarrow> ('v, 'm) out_sys" where
  "out_init cfgs storages scheme =
     \<lparr>os_routes = outbound_new (map wasm_new cfgs) storages scheme, os_bufs = map wasm_new cfgs, os_asleep = False\<rparr>"

subsection \<open>Buffers and wakers\<close>

definition nothing_left :: "'a wasm_inner \<Rightarrow> reader_state \<Rightarrow> bool" where
  "nothing_left buf rd \<longleftrightarrow> fst (wasm_try_recv buf rd) = BufferEmpty"

lemma try_recv_empty:
  "wasm_try_recv buf rd = (BufferEmpty, buf', rd') \<Longrightarrow> nothing_left buf' rd' \<and> rd' = rd"
  by (cases buf; cases rd) (auto simp: nothing_left_def Let_def split: if_splits option.splits)

lemma try_recv_others:
  "wasm_try_recv buf rd = (r, buf', rd') \<Longrightarrow> nothing_left buf rd2 \<Longrightarrow> nothing_left buf' rd2"
  by (cases buf; cases rd; cases rd2) (auto simp: nothing_left_def Let_def split: if_splits option.splits)

lemma register_nothing_left [simp]: "nothing_left (register_waker w buf) rd = nothing_left buf rd"
  by (cases buf; cases rd) (auto simp: nothing_left_def Let_def split: option.split)

lemma poll_recv_step:
  assumes "wasm_poll_recv w buf rd = (r, buf', rd')"
  shows "set (wakers_of buf') = set (wakers_of buf) \<union> (if r = None then {w} else {})"
    and "r = None \<Longrightarrow> nothing_left buf' rd'"
    and "nothing_left buf rd2 \<Longrightarrow> nothing_left buf' rd2"
    and "nothing_left buf rd \<Longrightarrow> r = None"
proof -
  obtain r0 b0 rd0 where t: "wasm_try_recv buf rd = (r0, b0, rd0)" by (metis prod_cases3)
  have wk: "wakers_of b0 = wakers_of buf" using try_recv_wakers [of buf rd] by (simp add: t)
  note eq = assms [unfolded wasm_poll_recv_def t prod.case]
  show "set (wakers_of buf') = set (wakers_of buf) \<union> (if r = None then {w} else {})"
    using eq wk by (cases r0) (auto simp: register_wakers)
  show "r = None \<Longrightarrow> nothing_left buf' rd'"
    using eq try_recv_empty [of buf rd b0 rd0] t by (cases r0) auto
  show "nothing_left buf rd2 \<Longrightarrow> nothing_left buf' rd2"
    using eq try_recv_others [OF t] by (cases r0) auto
  show "nothing_left buf rd \<Longrightarrow> r = None"
    using eq t by (auto simp: nothing_left_def)
qed

text \<open>A write fires every waker of its record and leaves none; other records are untouched.\<close>

lemma push_no_wakers: "wakers_of (fst (wasm_push v buf)) = []"
  by (cases buf) auto

lemma produce_step:
  assumes "produce (i, v) (ws, bufs) = (ws', bufs')"
  shows "length bufs' = length bufs" and "set ws \<subseteq> set ws'"
    and "k < length bufs \<Longrightarrow> bufs' ! k = bufs ! k \<or> wakers_of (bufs' ! k) = [] \<and> set (wakers_of (bufs ! k)) \<subseteq> set ws'"
  using assms push_wakes [of v "bufs ! i"]
  by (auto simp: produce_def push_no_wakers nth_list_update split: if_splits)

lemma produce_all:
  "fold produce ps (ws, bufs) = (ws', bufs') \<Longrightarrow>
     length bufs' = length bufs \<and> set ws \<subseteq> set ws'
     \<and> (k < length bufs \<longrightarrow> bufs' ! k = bufs ! k
          \<or> wakers_of (bufs' ! k) = [] \<and> set (wakers_of (bufs ! k)) \<subseteq> set ws')"
proof (induction ps arbitrary: ws bufs)
  case (Cons p ps)
  obtain i v where p: "p = (i, v)" by fastforce
  obtain ws1 bufs1 where one: "produce (i, v) (ws, bufs) = (ws1, bufs1)" by fastforce
  have "fold produce ps (ws1, bufs1) = (ws', bufs')" using Cons.prems by (simp add: p one)
  from Cons.IH [OF this] show ?case
    using produce_step(1, 2) [OF one] produce_step(3) [OF one, of k] by auto blast+
qed simp

subsection \<open>The routes as readers\<close>

definition route_buf :: "('v, 'm) env \<Rightarrow> nat \<Rightarrow> ('v, 'm) stamped wasm_inner" where
  "route_buf ow j = wd_bufs (snd ow) ! rt_record (ob_states (fst ow) ! j)"

definition route_armed :: "nat \<Rightarrow> ('v, 'm) env \<Rightarrow> bool" where
  "route_armed j ow \<longleftrightarrow> j < length (ob_states (fst ow)) \<and> j \<in> set (wakers_of (route_buf ow j))"

text \<open>Every route reads a record of the database, and one whose waker is kept has read everything.\<close>

definition routes_good :: "nat \<Rightarrow> ('v, 'm) env \<Rightarrow> bool" where
  "routes_good n ow \<longleftrightarrow> length (ob_states (fst ow)) = n
     \<and> (\<forall>j < n. rt_record (ob_states (fst ow) ! j) < length (wd_bufs (snd ow)))
     \<and> (\<forall>j < n. j \<in> set (wakers_of (route_buf ow j)) \<longrightarrow> nothing_left (route_buf ow j) (rt_reader (ob_states (fst ow) ! j)))"

lemma poll_route_step:
  assumes "poll_route w bufs rt topic payload = (out, bufs', rt', topic', payload')"
  obtains r buf rd where "wasm_poll_recv w (bufs ! rt_record rt) (rt_reader rt) = (r, buf, rd)"
    and "bufs' = bufs[rt_record rt := buf]" and "rt' = rt\<lparr>rt_reader := rd\<rparr>" and "out = None \<longleftrightarrow> r = None"
proof -
  obtain r buf rd where p: "wasm_poll_recv w (bufs ! rt_record rt) (rt_reader rt) = (r, buf, rd)"
    by (metis prod_cases3)
  have "bufs' = bufs[rt_record rt := buf] \<and> rt' = rt\<lparr>rt_reader := rd\<rparr> \<and> (out = None \<longleftrightarrow> r = None)"
    using assms unfolding poll_route_def p prod.case Let_def
    by (auto split: option.splits received.splits prod.splits sum.splits)
  then show thesis using that [OF p] by blast
qed

lemma poll_one_step:
  assumes "poll_one rid (ob, w) = (out, ws, ob', w')"
  obtains r buf rd where
    "wasm_poll_recv rid (wd_bufs w ! rt_record (ob_states ob ! rid)) (rt_reader (ob_states ob ! rid)) = (r, buf, rd)"
    and "wd_bufs w' = (wd_bufs w)[rt_record (ob_states ob ! rid) := buf]"
    and "ob_states ob' = (ob_states ob)[rid := (ob_states ob ! rid)\<lparr>rt_reader := rd\<rparr>]"
    and "out = Pending \<longleftrightarrow> r = None" and "ws = []"
proof -
  obtain o1 bufs' rt topic payload where p: "poll_route rid (wd_bufs w) (ob_states ob ! rid) (topic_slice ob rid)
      (payload_slice ob rid) = (o1, bufs', rt, topic, payload)" by (metis prod_cases5)
  obtain r buf rd where q: "wasm_poll_recv rid (wd_bufs w ! rt_record (ob_states ob ! rid)) (rt_reader (ob_states ob ! rid)) = (r, buf, rd)"
    "bufs' = (wd_bufs w)[rt_record (ob_states ob ! rid) := buf]"
    "rt = (ob_states ob ! rid)\<lparr>rt_reader := rd\<rparr>" "o1 = None \<longleftrightarrow> r = None"
    by (rule poll_route_step [OF p])
  have "wd_bufs w' = bufs' \<and> ob_states ob' = (ob_states ob)[rid := rt] \<and> (out = Pending \<longleftrightarrow> o1 = None) \<and> ws = []"
    using assms unfolding poll_one_def prod.case p Let_def
    by (auto simp: count_stats_def split: option.splits route_outcome.splits)
  then show thesis using that [OF q(1)] q(2, 3, 4) by simp
qed

lemma poll_one_keeps:
  assumes "poll_one rid (ob, w) = (out, ws, ob', w')" and "routes_good n (ob, w)" and "rid < n"
  shows "routes_good n (ob', w')"
    and "out = Pending \<Longrightarrow> route_armed rid (ob', w')"
    and "route_armed j (ob, w) \<Longrightarrow> route_armed j (ob', w')"
proof -
  obtain r buf rd where q:
    "wasm_poll_recv rid (wd_bufs w ! rt_record (ob_states ob ! rid)) (rt_reader (ob_states ob ! rid)) = (r, buf, rd)"
    "wd_bufs w' = (wd_bufs w)[rt_record (ob_states ob ! rid) := buf]"
    "ob_states ob' = (ob_states ob)[rid := (ob_states ob ! rid)\<lparr>rt_reader := rd\<rparr>]"
    "out = Pending \<longleftrightarrow> r = None"
    by (rule poll_one_step [OF assms(1)])
  note step = poll_recv_step [OF q(1)]
  have len: "length (ob_states ob) = n" and rec: "\<And>j. j < n \<Longrightarrow> rt_record (ob_states ob ! j) < length (wd_bufs w)"
    and read: "\<And>j. j < n \<Longrightarrow> j \<in> set (wakers_of (route_buf (ob, w) j)) \<Longrightarrow>
        nothing_left (route_buf (ob, w) j) (rt_reader (ob_states ob ! j))"
    using assms(2) by (auto simp: routes_good_def)
  have st: "rt_record (ob_states ob' ! j) = rt_record (ob_states ob ! j)"
    "rt_reader (ob_states ob' ! j) = (if j = rid then rd else rt_reader (ob_states ob ! j))" if "j < n" for j
    using that len by (cases "j = rid"; simp add: q(3))+
  have buf: "route_buf (ob', w') j = (if rt_record (ob_states ob ! j) = rt_record (ob_states ob ! rid)
      then buf else route_buf (ob, w) j)" if "j < n" for j
    using st(1) [OF that] rec [OF assms(3)] by (simp add: route_buf_def q(2) nth_list_update)
  have old: "route_buf (ob, w) j = wd_bufs w ! rt_record (ob_states ob ! rid)"
    if "rt_record (ob_states ob ! j) = rt_record (ob_states ob ! rid)" for j
    using that by (simp add: route_buf_def)
  have len': "length (ob_states ob') = n" by (simp add: q(3) len)
  have "nothing_left (route_buf (ob', w') j) (rt_reader (ob_states ob' ! j))"
    if "j < n" and "j \<in> set (wakers_of (route_buf (ob', w') j))" for j
  proof (cases "rt_record (ob_states ob ! j) = rt_record (ob_states ob ! rid)")
    case True
    note b = buf [OF that(1), unfolded if_P [OF True]]
    show ?thesis
    proof (cases "r = None \<and> j = rid")
      case True
      then show ?thesis using step(2) st(2) [OF that(1)] unfolding b by simp
    next
      case False
      then have "j \<in> set (wakers_of (route_buf (ob, w) j))"
        using that(2) step(1) old [OF True] by (auto simp: b split: if_splits)
      then have left: "nothing_left (route_buf (ob, w) j) (rt_reader (ob_states ob ! j))" by (rule read [OF that(1)])
      then show ?thesis using step(3, 4) False st(2) [OF that(1)] old [OF True] by (auto simp: b)
    qed
  next
    case False
    then show ?thesis using that buf [OF that(1)] st(2) [OF that(1)] read [OF that(1)] by auto
  qed
  then show "routes_good n (ob', w')" using len' rec st(1) by (auto simp: routes_good_def q(2))
  show "route_armed rid (ob', w')" if "out = Pending"
    using that q(4) step(1) buf [OF assms(3)] assms(3) len' by (simp add: route_armed_def)
  show "route_armed j (ob', w')" if "route_armed j (ob, w)"
    using that step(1) buf [of j] old [of j] len len' by (auto simp: route_armed_def)
qed

lemma producers_keep:
  assumes "producers (ob, w) = (ws, ob', w')"
  shows "ob' = ob" and "routes_good n (ob, w) \<Longrightarrow> routes_good n (ob', w')"
    and "routes_good n (ob, w) \<Longrightarrow> route_armed j (ob, w) \<Longrightarrow> j \<in> set ws \<or> route_armed j (ob', w')"
proof -
  obtain ps where f: "fold produce ps ([], wd_bufs w) = (ws, wd_bufs w')" and ob: "ob' = ob"
    using assms by (auto simp: producers_def split: list.splits prod.splits intro: that [of "[]"])
  show "ob' = ob" by (rule ob)
  have len: "length (wd_bufs w') = length (wd_bufs w)" using produce_all [OF f, of 0] by simp
  have buf: "route_buf (ob', w') j = route_buf (ob, w) j \<or>
      wakers_of (route_buf (ob', w') j) = [] \<and> set (wakers_of (route_buf (ob, w) j)) \<subseteq> set ws"
    if "routes_good n (ob, w)" and "j < n" for j
    using produce_all [OF f, of "rt_record (ob_states ob ! j)"] that
    by (auto simp: route_buf_def ob routes_good_def)
  show "routes_good n (ob', w')" if "routes_good n (ob, w)"
    using that buf [OF that] unfolding routes_good_def len ob fst_conv snd_conv by force
  show "j \<in> set ws \<or> route_armed j (ob', w')" if "routes_good n (ob, w)" and "route_armed j (ob, w)"
    using that(2) buf [OF that(1), of j] that(1) by (auto simp: route_armed_def routes_good_def ob)
qed

interpretation routes: route_readers poll_one producers route_armed routes_good
proof
  fix n rid out ws and e e' :: "('a, 'b) env"
  assume "routes_good n e" and "rid < n" and "poll_one rid e = (out, ws, e')"
  then show "routes_good n e'" by (cases e; cases e') (auto intro: poll_one_keeps(1))
next
  fix n ws and e e' :: "('a, 'b) env"
  assume "routes_good n e" and "producers e = (ws, e')"
  then show "routes_good n e'" by (cases e; cases e') (auto dest: producers_keep(2))
next
  fix n rid ws and e e' :: "('a, 'b) env"
  assume "routes_good n e" and "rid < n" and "poll_one rid e = (Pending, ws, e')"
  then show "rid \<in> set ws \<or> route_armed rid e'" by (cases e; cases e') (auto dest: poll_one_keeps(2))
next
  fix n rid out ws j and e e' :: "('a, 'b) env"
  assume "routes_good n e" and "rid < n" and "poll_one rid e = (out, ws, e')" and "route_armed j e"
  then show "j \<in> set ws \<or> route_armed j e'" by (cases e; cases e') (auto dest: poll_one_keeps(3))
next
  fix n ws j and e e' :: "('a, 'b) env"
  assume "routes_good n e" and "producers e = (ws, e')" and "route_armed j e"
  then show "j \<in> set ws \<or> route_armed j e'" by (cases e; cases e') (auto dest: producers_keep(3))
qed

subsection \<open>Accounting\<close>

definition route_total :: "route_stats \<Rightarrow> u64" where
  "route_total st = rs_sent st + rs_lagged st + rs_topic_overflow st + rs_serialize_failed st"

fun advance :: "'a received option \<Rightarrow> u64" where
  "advance (Some (Got _)) = 1"
| "advance (Some (BufferLagged n)) = n"
| "advance _ = 0"

fun outcome_total :: "'m route_outcome option \<Rightarrow> u64" where
  "outcome_total None = 0"
| "outcome_total (Some (OutLagged n)) = n"
| "outcome_total (Some OutClosed) = 0"
| "outcome_total (Some _) = 1"

lemma ring_advance:
  "wasm_poll_recv w buf (RingReader q) = (r, buf', rd') \<Longrightarrow> rd' = RingReader (q + advance r)"
  by (cases buf) (auto simp: wasm_poll_recv_def Let_def split: if_splits)

lemma other_readers:
  "wasm_poll_recv w buf rd = (r, buf', RingReader q) \<Longrightarrow> \<exists>q0. rd = RingReader q0"
  by (cases buf; cases rd) (auto simp: wasm_poll_recv_def Let_def split: if_splits option.splits)

lemma poll_route_total:
  assumes "poll_route w bufs rt topic payload = (out, bufs', rt', topic', payload')"
    and "wasm_poll_recv w (bufs ! rt_record rt) (rt_reader rt) = (r, buf, rd)"
  shows "outcome_total out = advance r"
  using assms(1) unfolding poll_route_def assms(2) prod.case Let_def
  by (auto split: option.splits received.splits prod.splits sum.splits)

lemma poll_one_total:
  assumes "poll_one rid (ob, w) = (out, ws, ob', w')"
    and "poll_route rid (wd_bufs w) (ob_states ob ! rid) (topic_slice ob rid) (payload_slice ob rid) = (o1, rest)"
    and "rid < length (ob_stats ob)"
  shows "length (ob_stats ob') = length (ob_stats ob)"
    and "route_total (ob_stats ob' ! rid) = route_total (ob_stats ob ! rid) + outcome_total o1"
    and "j \<noteq> rid \<Longrightarrow> ob_stats ob' ! j = ob_stats ob ! j"
proof -
  obtain bufs rt topic payload where rest: "rest = (bufs, rt, topic, payload)" by (metis prod_cases4)
  have "length (ob_stats ob') = length (ob_stats ob)
      \<and> route_total (ob_stats ob' ! rid) = route_total (ob_stats ob ! rid) + outcome_total o1
      \<and> (j \<noteq> rid \<longrightarrow> ob_stats ob' ! j = ob_stats ob ! j)"
    using assms(1, 3) unfolding poll_one_def prod.case assms(2) rest Let_def
    by (auto simp: count_stats_def route_total_def split: option.splits route_outcome.splits)
  then show "length (ob_stats ob') = length (ob_stats ob)"
    and "route_total (ob_stats ob' ! rid) = route_total (ob_stats ob ! rid) + outcome_total o1"
    and "j \<noteq> rid \<Longrightarrow> ob_stats ob' ! j = ob_stats ob ! j" by simp_all
qed

text \<open>A ring reader stands where the outcomes counted so far have brought it.\<close>

definition counted :: "nat \<Rightarrow> ('v, 'm) env \<Rightarrow> bool" where
  "counted n ow \<longleftrightarrow> length (ob_states (fst ow)) = n \<and> length (ob_stats (fst ow)) = n
     \<and> (\<forall>j < n. \<forall>q. rt_reader (ob_states (fst ow) ! j) = RingReader q \<longrightarrow> q = route_total (ob_stats (fst ow) ! j))"

lemma poll_one_counted:
  assumes "poll_one rid ow = (out, ws, ow')" and "counted n ow" and "rid < n"
  shows "counted n ow'"
proof -
  obtain ob w ob' w' where ow: "ow = (ob, w)" "ow' = (ob', w')" by (cases ow; cases ow') auto
  note poll = assms(1) [unfolded ow]
  obtain o1 rest where p: "poll_route rid (wd_bufs w) (ob_states ob ! rid) (topic_slice ob rid) (payload_slice ob rid) = (o1, rest)"
    by (metis surj_pair)
  obtain bufs rt topic payload where rest: "rest = (bufs, rt, topic, payload)" by (metis prod_cases4)
  have c: "length (ob_states ob) = n" "length (ob_stats ob) = n"
    "\<And>j q. j < n \<Longrightarrow> rt_reader (ob_states ob ! j) = RingReader q \<Longrightarrow> q = route_total (ob_stats ob ! j)"
    using assms(2) by (auto simp: counted_def ow)
  have stats: "length (ob_stats ob') = n" "route_total (ob_stats ob' ! rid) = route_total (ob_stats ob ! rid) + outcome_total o1"
    "\<And>j. j \<noteq> rid \<Longrightarrow> ob_stats ob' ! j = ob_stats ob ! j"
    using poll_one_total [OF poll p] assms(3) c(2) by simp_all
  obtain r buf rd where q:
    "wasm_poll_recv rid (wd_bufs w ! rt_record (ob_states ob ! rid)) (rt_reader (ob_states ob ! rid)) = (r, buf, rd)"
    "ob_states ob' = (ob_states ob)[rid := (ob_states ob ! rid)\<lparr>rt_reader := rd\<rparr>]"
    by (rule poll_one_step [OF poll])
  have total: "outcome_total o1 = advance r" by (rule poll_route_total [OF p [unfolded rest] q(1)])
  have "q' = route_total (ob_stats ob' ! j)" if "j < n" and "rt_reader (ob_states ob' ! j) = RingReader q'" for j q'
  proof (cases "j = rid")
    case True
    then have rd: "rd = RingReader q'" using that c(1) by (simp add: q(2))
    obtain q0 where q0: "rt_reader (ob_states ob ! rid) = RingReader q0" using other_readers q(1) rd by blast
    then have "q' = q0 + advance r" using ring_advance q(1) rd by force
    then show ?thesis using stats(2) total True c(3) [OF assms(3) q0] by simp
  next
    case False
    then show ?thesis using that c stats(3) by (simp add: q(2))
  qed
  then show ?thesis using stats(1) c(1) by (auto simp: counted_def ow q(2))
qed

lemma producers_counted: "producers ow = (ws, ow') \<Longrightarrow> counted n ow \<Longrightarrow> counted n ow'"
  by (cases ow; cases ow') (auto dest: producers_keep(1) simp: counted_def)

subsection \<open>Every reachable state\<close>

definition out_inv :: "('v, 'm) out_sys \<Rightarrow> bool" where
  "out_inv s \<longleftrightarrow>
     (let ow = (os_routes s, \<lparr>wd_bufs = os_bufs s, wd_racing = []\<rparr>); rd = ob_ready (os_routes s) in
      ready_ok rd \<and> routes.marked (abs_routes rd) ow \<and> counted (wakers_len rd) ow
      \<and> (os_asleep s \<longrightarrow> routes.at_rest (abs_routes rd) ow))"

text \<open>Only the routes' states and the buffers matter to the readers.\<close>

lemma env_cong:
  assumes "ob_states ob = ob_states ob2" and "wd_bufs w = wd_bufs w2"
  shows "routes.marked sc (ob, w) = routes.marked sc (ob2, w2)" and "routes.at_rest sc (ob, w) = routes.at_rest sc (ob2, w2)"
    and "ob_stats ob = ob_stats ob2 \<Longrightarrow> counted n (ob, w) = counted n (ob2, w2)"
  using assms
  by (simp_all add: routes.marked_def routes.at_rest_def routes_good_def route_armed_def route_buf_def counted_def)

lemma out_inv_write:
  assumes "out_inv s"
  shows "out_inv (out_step (Write i v) s)"
proof -
  let ?ob = "os_routes s" let ?rd = "ob_ready ?ob"
  let ?w = "\<lparr>wd_bufs = os_bufs s, wd_racing = [[(i, v)]]\<rparr>"
  obtain ws bufs where pr: "produce (i, v) ([], os_bufs s) = (ws, bufs)" by fastforce
  let ?w' = "\<lparr>wd_bufs = bufs, wd_racing = []\<rparr>"
  have race: "producers (?ob, ?w) = (ws, ?ob, ?w')" by (simp add: producers_def pr)
  have inv: "ready_ok ?rd" "routes.marked (abs_routes ?rd) (?ob, ?w)" "counted (wakers_len ?rd) (?ob, ?w)"
    "os_asleep s \<Longrightarrow> routes.at_rest (abs_routes ?rd) (?ob, ?w)"
    using assms env_cong [of ?ob ?ob ?w "\<lparr>wd_bufs = os_bufs s, wd_racing = []\<rparr>"]
    by (simp_all add: out_inv_def Let_def)
  let ?ob' = "?ob\<lparr>ob_ready := wake_all ws ?rd\<rparr>"
  have step: "out_step (Write i v) s = s\<lparr>os_bufs := bufs, os_routes := ?ob'\<rparr>" by (simp add: pr)
  have "routes.marked (s_wake_all ws (abs_routes ?rd)) (?ob', ?w')"
    and "os_asleep s \<Longrightarrow> routes.at_rest (s_wake_all ws (abs_routes ?rd)) (?ob', ?w')"
    using routes.race_rests [OF race inv(2)] inv(4) env_cong [of ?ob ?ob' ?w' ?w'] by simp_all
  moreover have "counted (wakers_len ?rd) (?ob', ?w')"
    using producers_counted [OF race inv(3)] env_cong(3) [of ?ob ?ob' ?w' ?w'] by simp
  ultimately show ?thesis
    unfolding step using abs_wake_all [OF inv(1), of ws] by (simp add: out_inv_def Let_def)
qed

lemma poll_stage_inv:
  assumes "out_inv s" and "poll_stage (os_routes s, \<lparr>wd_bufs = os_bufs s, wd_racing = racing\<rparr>) = (res, ob, w)"
  shows "out_inv \<lparr>os_routes = ob, os_bufs = wd_bufs w, os_asleep = (res = PollPending)\<rparr>"
proof -
  let ?ob = "os_routes s" let ?rd = "ob_ready ?ob"
  let ?w = "\<lparr>wd_bufs = os_bufs s, wd_racing = racing\<rparr>"
  have inv: "ready_ok ?rd" "routes.marked (abs_routes ?rd) (?ob, ?w)" "counted (wakers_len ?rd) (?ob, ?w)"
    using assms(1) env_cong [of ?ob ?ob ?w "\<lparr>wd_bufs = os_bufs s, wd_racing = []\<rparr>"]
    by (simp_all add: out_inv_def Let_def)
  show ?thesis
  proof (cases "ob_staged ?ob")
    case (Some staged)
    then have "ob = ?ob" "w = ?w" "res \<noteq> PollPending" using assms(2) by (auto simp: poll_stage_def)
    then show ?thesis using assms(1) by (simp add: out_inv_def Let_def)
  next
    case None
    obtain res1 rd ob' w' where call: "poll_ready poll_one producers ?rd (?ob, ?w) = (res1, rd, ob', w')"
      by (metis prod_cases4)
    have out: "res = res1" "ob = ob'\<lparr>ob_ready := rd\<rparr>" "w = w'"
      using assms(2) None by (simp_all add: poll_stage_def call)
    have abs: "s_poll poll_one producers (abs_routes ?rd) (?ob, ?w) = (res, abs_routes rd, ob', w')"
      and ok: "ready_ok rd"
      using abs_poll [OF inv(1), of poll_one producers "(?ob, ?w)"] by (simp_all add: call abs_result_def out)
    note marks = routes.poll_marks [OF inv(2) abs]
    have c: "counted (wakers_len ?rd) (ob', w')"
      by (rule poll_ready_inv(1) [where P = "counted (wakers_len ?rd)", OF _ _ inv(1) inv(3) call])
        (auto intro: poll_one_counted producers_counted)
    have "length (ob_states ob') = s_len (abs_routes rd)"
      using marks(1) by (simp add: routes.marked_def routes_good_def)
    then have len: "wakers_len rd = wakers_len ?rd" using c by (simp add: counted_def abs_routes_def)
    have "routes.marked (abs_routes rd) (ob, \<lparr>wd_bufs = wd_bufs w, wd_racing = []\<rparr>)"
      and "counted (wakers_len rd) (ob, \<lparr>wd_bufs = wd_bufs w, wd_racing = []\<rparr>)"
      and "res = PollPending \<Longrightarrow> routes.at_rest (abs_routes rd) (ob, \<lparr>wd_bufs = wd_bufs w, wd_racing = []\<rparr>)"
      using marks c env_cong [of ob' ob w' "\<lparr>wd_bufs = wd_bufs w, wd_racing = []\<rparr>"]
      by (simp_all add: out len)
    then show ?thesis using ok by (simp add: out_inv_def Let_def out)
  qed
qed

lemma out_inv_same:
  assumes "out_inv s" and "ob_ready ob = ob_ready (os_routes s)" and "ob_states ob = ob_states (os_routes s)"
    and "\<And>n. counted n (os_routes s, \<lparr>wd_bufs = os_bufs s, wd_racing = []\<rparr>) \<Longrightarrow>
      counted n (ob, \<lparr>wd_bufs = os_bufs s, wd_racing = []\<rparr>)"
  shows "out_inv (s\<lparr>os_routes := ob\<rparr>)"
  using assms env_cong [of ob "os_routes s" "\<lparr>wd_bufs = os_bufs s, wd_racing = []\<rparr>" "\<lparr>wd_bufs = os_bufs s, wd_racing = []\<rparr>"]
  by (simp add: out_inv_def Let_def)

lemma reject_counted: "counted n (ob, w) \<Longrightarrow> counted n (reject rid ob, w)"
  by (auto simp: counted_def reject_def count_stats_def nth_list_update route_total_def)

lemma reject_same: "ob_ready (reject rid ob) = ob_ready ob" "ob_states (reject rid ob) = ob_states ob"
  by (simp_all add: reject_def count_stats_def)

lemma take_staged_same: "snd (take_staged ob) = ob\<lparr>ob_staged := None\<rparr>"
  by (cases ob) (auto simp: take_staged_def Let_def split: option.split)

lemma out_inv_step: "out_inv s \<Longrightarrow> out_inv (out_step oper s)"
proof (cases oper)
  case (Write i v)
  then show "out_inv s \<Longrightarrow> ?thesis" using out_inv_write by simp
next
  case (Poll_Stage racing)
  obtain res ob w where "poll_stage (os_routes s, \<lparr>wd_bufs = os_bufs s, wd_racing = racing\<rparr>) = (res, ob, w)"
    by (metis prod_cases3)
  then show "out_inv s \<Longrightarrow> ?thesis" using poll_stage_inv Poll_Stage by simp
next
  case Take_Staged
  then show "out_inv s \<Longrightarrow> ?thesis"
    using out_inv_same [of s "snd (take_staged (os_routes s))"] by (simp add: take_staged_same counted_def)
next
  case (Reject rid)
  then show "out_inv s \<Longrightarrow> ?thesis"
    by (auto intro!: out_inv_same reject_counted simp: reject_same)
qed

lemma out_inv_run: "out_inv s \<Longrightarrow> out_inv (out_run ops s)"
  unfolding out_run_def by (induction ops arbitrary: s) (auto intro: out_inv_step)

text \<open>The routes a connector builds: they subscribe to records of the database, at the start.\<close>

lemma outbound_links_bound: "(i, l) \<in> set (outbound_links storages scheme) \<Longrightarrow> i < length storages"
  by (auto simp: outbound_links_def in_set_enumerate_eq)

lemma route_of_simps:
  "rt_record (snd (route_of bufs rid il)) = fst il"
  "rt_reader (snd (route_of bufs rid il)) = wasm_subscribe (bufs ! fst il)"
  by (auto simp: route_of_def route_factory_def Let_def split: prod.split option.split)

lemma outbound_new_states:
  "ob_states (outbound_new bufs storages scheme)
     = map (\<lambda>(rid, il). snd (route_of bufs rid il)) (enumerate 0 (outbound_links storages scheme))"
  by (auto simp: outbound_new_def Let_def)

lemma new_buffer:
  "wakers_of (wasm_new cfg) = []" "wasm_subscribe (wasm_new cfg) = RingReader q \<Longrightarrow> q = 0"
  by (cases cfg; simp add: wasm_new_def)+

lemma out_inv_init:
  assumes "length storages = length cfgs"
  shows "out_inv (out_init cfgs storages scheme)"
proof -
  let ?bufs = "map wasm_new cfgs :: ('a, 'b) buffers"
  let ?ob = "outbound_new ?bufs storages scheme" let ?links = "outbound_links storages scheme"
  let ?n = "length ?links" let ?ow = "(?ob, \<lparr>wd_bufs = ?bufs, wd_racing = []\<rparr>)"
  have st: "ob_states ?ob ! j = snd (route_of ?bufs j (?links ! j))" if "j < ?n" for j
    using that by (simp add: outbound_new_states nth_enumerate_eq)
  have len: "length (ob_states ?ob) = ?n" "length (ob_stats ?ob) = ?n" "ob_ready ?ob = ready_new ?n"
    by (simp_all add: outbound_new_def Let_def)
  have rec: "rt_record (ob_states ?ob ! j) < length ?bufs" if "j < ?n" for j
  proof -
    have "(fst (?links ! j), snd (?links ! j)) \<in> set ?links" using that by simp
    then show ?thesis using outbound_links_bound assms by (fastforce simp: st [OF that] route_of_simps)
  qed
  have "routes_good ?n ?ow"
    using rec len by (auto simp: routes_good_def route_buf_def new_buffer)
  moreover have "counted ?n ?ow"
  proof -
    have "q = 0" if "j < ?n" and "rt_reader (ob_states ?ob ! j) = RingReader q" for j q
    proof (rule new_buffer(2))
      have "fst (?links ! j) < length cfgs" using rec [OF that(1)] by (simp add: st [OF that(1)] route_of_simps)
      then show "wasm_subscribe (wasm_new (cfgs ! fst (?links ! j)) :: ('a, 'b) stamped wasm_inner) = RingReader q"
        using that(2) by (simp add: st [OF that(1)] route_of_simps)
    qed
    moreover have "ob_stats ?ob = replicate ?n stats_default" by (simp add: outbound_new_def Let_def)
    ultimately show ?thesis using len by (simp add: counted_def stats_default_def route_total_def)
  qed
  moreover have "ready_ok (ready_new ?n)" "s_open (abs_routes (ready_new ?n)) = {..<?n}"
    "s_ready (abs_routes (ready_new ?n)) = {..<?n}" "s_len (abs_routes (ready_new ?n)) = ?n"
    using ready_new_ok [of ?n] by auto
  ultimately show ?thesis
    by (simp add: out_inv_def out_init_def Let_def len routes.marked_def)
      (simp add: abs_routes_def)
qed

subsection \<open>Staged messages\<close>

definition pushes_to :: "bytes list \<Rightarrow> topic_buf \<Rightarrow> topic_buf" where
  "pushes_to ss b = fold (\<lambda>s b. snd (push_str s b)) ss b"

text \<open>What the types of the code promise: a writer changes a topic only by pushing strings, and no
  serializer changes the length of its slice.\<close>

definition writer_ok :: "'v topic_writer \<Rightarrow> bool" where
  "writer_ok wr \<longleftrightarrow> (\<forall>v b. \<exists>ss. snd (wr v b) = pushes_to ss b)"

definition into_ok :: "'v serializer_into \<Rightarrow> bool" where
  "into_ok into \<longleftrightarrow> (\<forall>v p. length (snd (into v p)) = length p)"

definition scratch_fits :: "('v, 'm) outbound_routes \<Rightarrow> nat \<Rightarrow> bool" where
  "scratch_fits ob rid \<longleftrightarrow> ri_topic_capacity (ob_routes ob ! rid) \<le> ob_topic_region ob
     \<and> ob_topic_region ob + ri_payload_capacity (ob_routes ob ! rid) \<le> length (ob_scratch ob)"

lemma length_write_at: "i + length ys \<le> length xs \<Longrightarrow> length (write_at i ys xs) = length xs"
  by (simp add: write_at_def)

lemma drop_write_at: "i + length ys \<le> length xs \<Longrightarrow> drop i (write_at i ys xs) = ys @ drop (i + length ys) xs"
  by (simp add: write_at_def)

lemma take_write_at: "n \<le> i \<Longrightarrow> i \<le> length xs \<Longrightarrow> take n (write_at i ys xs) = take n xs"
  by (simp add: write_at_def)

lemma push_str_step:
  assumes "tb_len b \<le> length (tb_buf b)"
  shows "length (tb_buf (snd (push_str s b))) = length (tb_buf b)"
    and "tb_len (snd (push_str s b)) \<le> length (tb_buf b)"
    and "\<not> tb_overflowed (snd (push_str s b)) \<Longrightarrow> \<not> tb_overflowed b \<and> topic_str (snd (push_str s b)) = topic_str b @ s"
  using assms by (auto simp: push_str_def write_at_def topic_str_def split: if_splits)

text \<open>A topic that did not overflow is what was pushed, whole.\<close>

lemma pushes_step:
  "tb_len b \<le> length (tb_buf b) \<Longrightarrow>
     length (tb_buf (pushes_to ss b)) = length (tb_buf b) \<and> tb_len (pushes_to ss b) \<le> length (tb_buf b)
     \<and> (\<not> tb_overflowed (pushes_to ss b) \<longrightarrow> \<not> tb_overflowed b \<and> topic_str (pushes_to ss b) = topic_str b @ concat ss)"
proof (induction ss arbitrary: b)
  case (Cons s ss)
  note one = push_str_step [OF Cons.prems, of s]
  have "tb_len (snd (push_str s b)) \<le> length (tb_buf (snd (push_str s b)))" using one by simp
  from Cons.IH [OF this] show ?case using one by (auto simp: pushes_to_def)
qed (simp add: pushes_to_def)

lemma write_topic_step:
  assumes "writer_ok wr" and "write_topic wr v (topic_buf_new buf) = (res, b)"
  shows "length (tb_buf b) = length buf" and "tb_len b \<le> length buf"
    and "res = Some written \<Longrightarrow> \<exists>ss. wr v (topic_buf_new buf) = (Some written, pushes_to ss (topic_buf_new buf))
      \<and> topic_str b = concat ss"
proof -
  obtain r b0 where w: "wr v (topic_buf_new buf) = (r, b0)" by fastforce
  obtain ss where ss: "b0 = pushes_to ss (topic_buf_new buf)"
    using assms(1) w unfolding writer_ok_def by (metis snd_conv)
  have b: "b = b0" and r: "res = Some written \<Longrightarrow> r = Some written \<and> \<not> tb_overflowed b0" for written
    using assms(2) w by (auto simp: write_topic_def split: option.splits if_splits)
  note p = pushes_step [of "topic_buf_new buf" ss]
  show "length (tb_buf b) = length buf" "tb_len b \<le> length buf"
    using p by (simp_all add: b ss topic_buf_new_def)
  assume "res = Some written"
  from r [OF this] show "\<exists>ss. wr v (topic_buf_new buf) = (Some written, pushes_to ss (topic_buf_new buf))
      \<and> topic_str b = concat ss"
    using p w by (auto simp: b ss topic_buf_new_def topic_str_def)
qed

lemma serialize_outbound_step:
  assumes "\<And>into. so = Some into \<Longrightarrow> into_ok into" and "serialize_outbound ser so v p = (Inr sp, p')"
  shows "length p' = length p"
    and "(\<exists>bs. sp = OwnedPayload bs \<and> ser v = Inr bs)
      \<or> (\<exists>into len. so = Some into \<and> into v p = (Inr len, p') \<and> len \<le> length p' \<and> sp = Scratch len)"
proof -
  have "length p' = length p \<and> ((\<exists>bs. sp = OwnedPayload bs \<and> ser v = Inr bs)
      \<or> (\<exists>into len. so = Some into \<and> into v p = (Inr len, p') \<and> len \<le> length p' \<and> sp = Scratch len))"
  proof (cases so)
    case None
    then show ?thesis using assms(2) by (auto simp: serialize_outbound_def map_sum_owned_def split: sum.splits)
  next
    case (Some into)
    obtain r q where i: "into v p = (r, q)" by fastforce
    have "length q = length p" using assms(1) [OF Some] i unfolding into_ok_def by (metis snd_conv)
    then show ?thesis using assms(2) Some i
      by (auto simp: serialize_outbound_def map_sum_owned_def split: sum.splits serialize_error.splits if_splits)
  qed
  then show "length p' = length p"
    and "(\<exists>bs. sp = OwnedPayload bs \<and> ser v = Inr bs)
      \<or> (\<exists>into len. so = Some into \<and> into v p = (Inr len, p') \<and> len \<le> length p' \<and> sp = Scratch len)" by blast+
qed

text \<open>The scratch a connector allocates fits every route.\<close>

lemma fold_max: "x \<in> set xs \<Longrightarrow> x \<le> fold max xs m" for x m :: nat
proof -
  have grow: "m \<le> fold max xs m" for xs and m :: nat
  proof (induction xs arbitrary: m)
    case (Cons y ys)
    have "m \<le> max y m" by simp
    also have "\<dots> \<le> fold max ys (max y m)" by (rule Cons.IH)
    finally show ?case by simp
  qed simp
  show "x \<in> set xs \<Longrightarrow> x \<le> fold max xs m"
  proof (induction xs arbitrary: m)
    case (Cons y ys)
    then show ?case using grow [of "max y m" ys] by auto
  qed simp
qed

lemma new_scratch_fits:
  "rid < length (ob_routes (outbound_new bufs storages scheme)) \<Longrightarrow> scratch_fits (outbound_new bufs storages scheme) rid"
  by (auto simp: scratch_fits_def outbound_new_def Let_def intro!: fold_max)

text \<open>The topic and payload a route must publish for a value.\<close>

definition topic_right :: "'v typed_route \<Rightarrow> 'v \<Rightarrow> bytes \<Rightarrow> bytes \<Rightarrow> bytes \<Rightarrow> bool" where
  "topic_right rt v buf dflt topic =
     (case rt_writer rt of
        None \<Rightarrow> topic = dflt
      | Some wr \<Rightarrow> (\<exists>ss written. wr v (topic_buf_new buf) = (Some written, pushes_to ss (topic_buf_new buf))
                    \<and> topic = (if written then concat ss else dflt)))"

definition payload_right :: "'v typed_route \<Rightarrow> 'v \<Rightarrow> bytes \<Rightarrow> bytes \<Rightarrow> bool" where
  "payload_right rt v scratch payload \<longleftrightarrow> rt_serialize rt v = Inr payload
     \<or> (\<exists>into len out. rt_serialize_into rt = Some into \<and> into v scratch = (Inr len, out)
          \<and> len \<le> length out \<and> payload = take len out)"

text \<open>A staged outcome of \<open>poll_route\<close>: the value read, its topic and its payload.\<close>

lemma poll_route_staged:
  assumes "poll_route w bufs rt topic payload = (Some (OutStaged tlen p m), bufs', rt', topic', payload')"
    and wr: "\<And>wr. rt_writer rt = Some wr \<Longrightarrow> writer_ok wr" and into: "\<And>i. rt_serialize_into rt = Some i \<Longrightarrow> into_ok i"
  shows "\<exists>sample. fst (wasm_try_recv (bufs ! rt_record rt) (rt_reader rt)) = Got sample \<and> m = st_metadata sample
      \<and> topic_right rt (st_value sample) topic dflt (case tlen of Some len \<Rightarrow> take len topic' | None \<Rightarrow> dflt)
      \<and> payload_right rt (st_value sample) payload (case p of Scratch len \<Rightarrow> take len payload' | OwnedPayload bs \<Rightarrow> bs)"
    and "length topic' = length topic" and "length payload' = length payload"
    and "tlen = Some len \<Longrightarrow> len \<le> length topic" and "p = Scratch len \<Longrightarrow> len \<le> length payload"
proof -
  obtain r buf rd where q: "wasm_poll_recv w (bufs ! rt_record rt) (rt_reader rt) = (r, buf, rd)" by (metis prod_cases3)
  note eq = assms(1) [unfolded poll_route_def q prod.case Let_def]
  from eq obtain sample where r: "r = Some (Got sample)" by (cases r) (auto split: received.splits)
  then have got: "fst (wasm_try_recv (bufs ! rt_record rt) (rt_reader rt)) = Got sample"
    using q by (auto simp: wasm_poll_recv_def split: prod.splits received.splits)
  let ?v = "st_value sample"
  obtain res b where t: "(case rt_writer rt of None \<Rightarrow> (Some None, topic)
      | Some writer \<Rightarrow> (case write_topic writer ?v (topic_buf_new topic) of
            (Some written, b) \<Rightarrow> (Some (if written then Some (tb_len b) else None), tb_buf b)
          | (None, b) \<Rightarrow> (None, tb_buf b))) = (res, b)" by (rule prod.exhaust)
  obtain sr p0 where sr: "serialize_outbound (rt_serialize rt) (rt_serialize_into rt) ?v payload = (sr, p0)"
    by fastforce
  note eq2 = eq [unfolded r option.case received.case t prod.case sr]
  have both: "res = Some tlen \<and> topic' = b \<and> sr = Inr p \<and> p0 = payload' \<and> m = st_metadata sample"
    using eq2 by (cases res; cases sr) simp_all
  then have res: "res = Some tlen" "topic' = b" and m: "m = st_metadata sample"
    and ser: "serialize_outbound (rt_serialize rt) (rt_serialize_into rt) ?v payload = (Inr p, payload')"
    using sr by simp_all
  note s = serialize_outbound_step [OF into ser]
  have topic: "topic_right rt ?v topic dflt (case tlen of Some len \<Rightarrow> take len topic' | None \<Rightarrow> dflt)
      \<and> length topic' = length topic \<and> (\<forall>len. tlen = Some len \<longrightarrow> len \<le> length topic)"
  proof (cases "rt_writer rt")
    case None
    then show ?thesis using t res by (auto simp: topic_right_def)
  next
    case (Some writer)
    obtain wres wb where w: "write_topic writer ?v (topic_buf_new topic) = (wres, wb)" by fastforce
    obtain written where wres: "wres = Some written" and tlen: "tlen = (if written then Some (tb_len wb) else None)"
      and b: "b = tb_buf wb"
      using t res by (auto simp: Some w split: option.splits)
    note ws = write_topic_step [OF wr [OF Some] w]
    from ws(3) [OF wres] obtain ss where
      ss: "writer ?v (topic_buf_new topic) = (Some written, pushes_to ss (topic_buf_new topic))"
      and str: "topic_str wb = concat ss" by blast
    have "(case tlen of Some len \<Rightarrow> take len topic' | None \<Rightarrow> dflt) = (if written then concat ss else dflt)"
      using str by (simp add: tlen res(2) b topic_str_def)
    then have "topic_right rt ?v topic dflt (case tlen of Some len \<Rightarrow> take len topic' | None \<Rightarrow> dflt)"
      unfolding topic_right_def Some option.case using ss by blast
    then show ?thesis using ws(1, 2) by (auto simp: tlen res(2) b)
  qed
  have payload: "payload_right rt ?v payload (case p of Scratch len \<Rightarrow> take len payload' | OwnedPayload bs \<Rightarrow> bs)"
    using s(2) by (auto simp: payload_right_def)
  show "\<exists>sample. fst (wasm_try_recv (bufs ! rt_record rt) (rt_reader rt)) = Got sample \<and> m = st_metadata sample
      \<and> topic_right rt (st_value sample) topic dflt (case tlen of Some len \<Rightarrow> take len topic' | None \<Rightarrow> dflt)
      \<and> payload_right rt (st_value sample) payload (case p of Scratch len \<Rightarrow> take len payload' | OwnedPayload bs \<Rightarrow> bs)"
    using got m topic payload by blast
  show "length topic' = length topic" "length payload' = length payload" using topic s(1) by simp_all
  show "tlen = Some len \<Longrightarrow> len \<le> length topic" using topic by blast
  show "p = Scratch len \<Longrightarrow> len \<le> length payload" using s by auto
qed

subsection \<open>Properties\<close>

definition route_open :: "('v, 'm) out_sys \<Rightarrow> nat \<Rightarrow> bool" where
  "route_open s j \<longleftrightarrow> j \<in> routes_in (open_routes (ob_ready (os_routes s)))"

text \<open>What the reader of route \<open>j\<close> would get now.\<close>

definition route_next :: "('v, 'm) out_sys \<Rightarrow> nat \<Rightarrow> ('v, 'm) stamped received" where
  "route_next s j =
     fst (wasm_try_recv (os_bufs s ! rt_record (ob_states (os_routes s) ! j)) (rt_reader (ob_states (os_routes s) ! j)))"

text \<open>
  C4. No route is stalled.  However writes and calls interleave, writes racing the scan included:
  when the transport task sleeps after \<open>Pending\<close> and nothing has woken it, no open route has
  anything left to read.
\<close>

theorem no_stalled_route:
  assumes "length storages = length cfgs"
    and "os_asleep (out_run ops (out_init cfgs storages scheme))"
    and "task_waker (ob_ready (os_routes (out_run ops (out_init cfgs storages scheme))))"
    and "route_open (out_run ops (out_init cfgs storages scheme)) j"
  shows "route_next (out_run ops (out_init cfgs storages scheme)) j = BufferEmpty"
proof -
  let ?s = "out_run ops (out_init cfgs storages scheme)"
  let ?ow = "(os_routes ?s, \<lparr>wd_bufs = os_bufs ?s, wd_racing = []\<rparr>)"
  have "out_inv ?s" by (rule out_inv_run [OF out_inv_init [OF assms(1)]])
  then have m: "routes.marked (abs_routes (ob_ready (os_routes ?s))) ?ow"
    and r: "routes.at_rest (abs_routes (ob_ready (os_routes ?s))) ?ow"
    using assms(2) by (simp_all add: out_inv_def Let_def)
  have "route_armed j ?ow" using r assms(3, 4) by (simp add: routes.at_rest_def abs_routes_def route_open_def)
  then show ?thesis
    using m by (auto simp: routes.marked_def routes_good_def route_armed_def route_buf_def nothing_left_def route_next_def)
qed

text \<open>
  C20. Every value is accounted for.  In every reachable state the position of a ring reader is the
  number of values sent, missed by lag, skipped for their topic and skipped for their serializer:
  each value that left the ring is in exactly one of the four counts.
\<close>

theorem outbound_accounted:
  assumes "length storages = length cfgs" and "s = out_run ops (out_init cfgs storages scheme)"
    and "j < length (ob_states (os_routes s))" and "rt_reader (ob_states (os_routes s) ! j) = RingReader q"
  shows "\<exists>st. stats j (os_routes s) = Some st
    \<and> q = rs_sent st + rs_lagged st + rs_topic_overflow st + rs_serialize_failed st"
proof -
  have "out_inv s" unfolding assms(2) by (rule out_inv_run [OF out_inv_init [OF assms(1)]])
  then have "counted (wakers_len (ob_ready (os_routes s))) (os_routes s, \<lparr>wd_bufs = os_bufs s, wd_racing = []\<rparr>)"
    by (simp add: out_inv_def Let_def)
  then show ?thesis using assms(3, 4) by (auto simp: counted_def stats_def route_total_def)
qed

text \<open>
  A staged message is the value.  When polling a route stages a message, taking it gives the
  value its reader got: the payload is the value's serialization, in the scratch or owned, the topic
  is everything its writer pushed, never cut, or the link's default, and both slices of the scratch
  are the route's own.
\<close>

theorem staged_message_right:
  assumes "poll_one rid (ob, w) = (Staged, ws, ob', w')" and "scratch_fits ob rid"
    and "\<And>wr. rt_writer (ob_states ob ! rid) = Some wr \<Longrightarrow> writer_ok wr"
    and "\<And>i. rt_serialize_into (ob_states ob ! rid) = Some i \<Longrightarrow> into_ok i"
  shows "\<exists>sample msg. fst (wasm_try_recv (wd_bufs w ! rt_record (ob_states ob ! rid)) (rt_reader (ob_states ob ! rid))) = Got sample
    \<and> fst (take_staged ob') = Some msg \<and> om_route msg = ob_routes ob ! rid \<and> om_metadata msg = st_metadata sample
    \<and> topic_right (ob_states ob ! rid) (st_value sample) (topic_slice ob rid)
        (ri_default_topic (ob_routes ob ! rid)) (om_topic msg)
    \<and> payload_right (ob_states ob ! rid) (st_value sample) (payload_slice ob rid) (as_slice (om_payload msg))"
proof -
  obtain o1 bufs rt topic payload where p: "poll_route rid (wd_bufs w) (ob_states ob ! rid) (topic_slice ob rid)
      (payload_slice ob rid) = (o1, bufs, rt, topic, payload)" by (metis prod_cases5)
  let ?sc = "write_at (ob_topic_region ob) payload (write_at 0 topic (ob_scratch ob))"
  obtain tlen sp m where o1: "o1 = Some (OutStaged tlen sp m)"
    and ob': "ob_staged ob' = Some \<lparr>sg_id = rid, sg_topic_len = tlen, sg_payload = sp, sg_metadata = m\<rparr>"
      "ob_scratch ob' = ?sc" "ob_routes ob' = ob_routes ob" "ob_topic_region ob' = ob_topic_region ob"
    using assms(1) unfolding poll_one_def prod.case p Let_def
    by (auto simp: count_stats_def split: option.splits route_outcome.splits)
  note st = poll_route_staged [OF p [unfolded o1] assms(3, 4)]
  note st1 = poll_route_staged(1) [OF p [unfolded o1] assms(3, 4), where dflt = "ri_default_topic (ob_routes ob ! rid)"]
  let ?tr = "ob_topic_region ob"
  have fits: "ri_topic_capacity (ob_routes ob ! rid) \<le> ?tr"
    "?tr + ri_payload_capacity (ob_routes ob ! rid) \<le> length (ob_scratch ob)"
    using assms(2) by (simp_all add: scratch_fits_def)
  have lt: "length topic = ri_topic_capacity (ob_routes ob ! rid)"
    and lp: "length payload = ri_payload_capacity (ob_routes ob ! rid)"
    using st(2, 3) fits by (simp_all add: topic_slice_def payload_slice_def)
  have l0: "length (write_at 0 topic (ob_scratch ob)) = length (ob_scratch ob)"
    using fits lt by (intro length_write_at) simp
  have topic_back: "take len (take ?tr ?sc) = take len topic" if "len \<le> length topic" for len
  proof -
    have "take len (take ?tr ?sc) = take len ?sc" using that fits lt by (simp add: min_def)
    also have "\<dots> = take len (write_at 0 topic (ob_scratch ob))"
      using that fits lt l0 by (intro take_write_at) simp_all
    also have "\<dots> = take len topic" using that by (simp add: write_at_def)
    finally show ?thesis .
  qed
  have payload_back: "take len (drop ?tr ?sc) = take len payload" if "len \<le> length payload" for len
    using that fits lp l0 by (simp add: drop_write_at)
  obtain sample where got: "fst (wasm_try_recv (wd_bufs w ! rt_record (ob_states ob ! rid)) (rt_reader (ob_states ob ! rid))) = Got sample"
    and m: "m = st_metadata sample"
    and t: "topic_right (ob_states ob ! rid) (st_value sample) (topic_slice ob rid) (ri_default_topic (ob_routes ob ! rid))
        (case tlen of Some len \<Rightarrow> take len topic | None \<Rightarrow> ri_default_topic (ob_routes ob ! rid))"
    and pl: "payload_right (ob_states ob ! rid) (st_value sample) (payload_slice ob rid)
        (case sp of Scratch len \<Rightarrow> take len payload | OwnedPayload bs \<Rightarrow> bs)"
    using st1 by blast
  let ?msg = "\<lparr>om_route = ob_routes ob ! rid,
      om_topic = (case tlen of Some len \<Rightarrow> take len (take ?tr ?sc) | None \<Rightarrow> ri_default_topic (ob_routes ob ! rid)),
      om_payload = (case sp of Scratch len \<Rightarrow> Borrowed (take len (drop ?tr ?sc)) | OwnedPayload bs \<Rightarrow> Owned bs),
      om_metadata = m\<rparr>"
  have msg: "fst (take_staged ob') = Some ?msg" 
    by (simp only: take_staged_def ob' option.case Let_def staged_msg.select_convs fst_conv)
  have "om_topic ?msg = (case tlen of Some len \<Rightarrow> take len topic | None \<Rightarrow> ri_default_topic (ob_routes ob ! rid))"
    using topic_back st(2, 4) by (cases tlen) simp_all
  moreover have "as_slice (om_payload ?msg) = (case sp of Scratch len \<Rightarrow> take len payload | OwnedPayload bs \<Rightarrow> bs)"
    using payload_back st(3, 5) by (cases sp) simp_all
  ultimately show ?thesis using got m t pl msg
    by (intro exI [of _ sample] exI [of _ ?msg]) (simp only: outbound_message.select_convs simp_thms)
qed

subsection \<open>Witnesses\<close>

definition demo_link :: "u8 outbound_link" where
  "demo_link = \<lparr>ol_scheme = [1], ol_resource = [9],
     ol_topic_writer = Some (4, \<lambda>v b. (Some True, snd (push_str [7, v] b))),
     ol_serialize = (\<lambda>v. Inr [v]), ol_serialize_into = None\<rparr>"

definition demo_init :: "(u8, nat) out_sys" where
  "demo_init = out_init [CfgSpmcRing 4] [[demo_link]] [1]"

definition demo_write :: "(u8, nat) out_op" where
  "demo_write = Write 0 \<lparr>st_value = 5, st_metadata = 1\<rparr>"

theorem no_stalled_route_witness:
  "route_next (out_run [demo_write, Poll_Stage [], Take_Staged, Poll_Stage []] demo_init) 0 = BufferEmpty"
  unfolding demo_init_def
proof (rule no_stalled_route)
  let ?s = "out_run [demo_write, Poll_Stage [], Take_Staged, Poll_Stage []] (out_init [CfgSpmcRing 4] [[demo_link]] [1])"
  show "length [[demo_link]] = length [CfgSpmcRing 4]" by simp
  show "os_asleep ?s" by code_simp
  show "task_waker (ob_ready (os_routes ?s))" by code_simp
  have "open_routes (ob_ready (os_routes ?s)) = [1]" by code_simp
  then show "route_open ?s 0" by (simp add: route_open_def routes_in_def)
qed

theorem outbound_accounted_witness:
  "\<exists>st. stats 0 (os_routes (out_run [demo_write, Poll_Stage []] demo_init)) = Some st
     \<and> 1 = rs_sent st + rs_lagged st + rs_topic_overflow st + rs_serialize_failed st"
  unfolding demo_init_def
proof (rule outbound_accounted [OF _ refl])
  let ?s = "out_run [demo_write, Poll_Stage []] (out_init [CfgSpmcRing 4] [[demo_link]] [1])"
  show "length [[demo_link]] = length [CfgSpmcRing 4]" by simp
  show "0 < length (ob_states (os_routes ?s))" by code_simp
  show "rt_reader (ob_states (os_routes ?s) ! 0) = RingReader 1" by code_simp
qed

definition demo_env :: "(u8, nat) env" where
  "demo_env = (let s = out_run [demo_write] demo_init in (os_routes s, \<lparr>wd_bufs = os_bufs s, wd_racing = []\<rparr>))"

theorem staged_message_right_witness:
  "\<exists>msg. fst (take_staged (fst (snd (snd (poll_one 0 demo_env))))) = Some msg
     \<and> om_topic msg = [7, 5] \<and> as_slice (om_payload msg) = [5]"
proof -
  let ?rt = "ob_states (fst demo_env) ! 0"
  have env: "poll_one 0 (fst demo_env, snd demo_env) = (Staged, fst (snd (poll_one 0 demo_env)),
      fst (snd (snd (poll_one 0 demo_env))), snd (snd (snd (poll_one 0 demo_env))))"
  proof -
    have "fst (poll_one 0 demo_env) = Staged" by code_simp
    then show ?thesis by (metis prod.collapse)
  qed
  have rt: "rt_writer ?rt = Some (\<lambda>v b. (Some True, snd (push_str [7, v] b)))" "rt_serialize_into ?rt = None"
    "rt_serialize ?rt = (\<lambda>v. Inr [v])"
    by (simp_all add: demo_env_def demo_write_def demo_init_def out_run_def out_init_def produce_def outbound_new_def
        outbound_links_def demo_link_def route_of_def route_factory_def Let_def split: prod.split)
  have fits: "scratch_fits (fst demo_env) 0" by code_simp
  have ok: "writer_ok (\<lambda>v b. (Some True, snd (push_str [7, v] b)))"
    unfolding writer_ok_def
  proof (intro allI)
    fix v :: u8 and b
    show "\<exists>ss. snd (Some True, snd (push_str [7, v] b)) = pushes_to ss b"
      by (intro exI [of _ "[[7, v]]"]) (simp add: pushes_to_def)
  qed
  from staged_message_right [OF env fits] rt ok obtain sample msg where
    got: "fst (wasm_try_recv (wd_bufs (snd demo_env) ! rt_record ?rt) (rt_reader ?rt)) = Got sample"
    and msg: "fst (take_staged (fst (snd (snd (poll_one 0 demo_env))))) = Some msg"
    and topic: "topic_right ?rt (st_value sample) (topic_slice (fst demo_env) 0)
        (ri_default_topic (ob_routes (fst demo_env) ! 0)) (om_topic msg)"
    and payload: "payload_right ?rt (st_value sample) (payload_slice (fst demo_env) 0) (as_slice (om_payload msg))"
    by (auto simp del: take_staged_def)
  have "fst (wasm_try_recv (wd_bufs (snd demo_env) ! rt_record ?rt) (rt_reader ?rt)) = Got \<lparr>st_value = 5, st_metadata = 1\<rparr>"
    by code_simp
  then have v: "st_value sample = 5" using got by simp
  have pay: "as_slice (om_payload msg) = [5]" using payload by (simp add: payload_right_def rt v)
  have cap: "topic_slice (fst demo_env) 0 = [0, 0, 0, 0]" by code_simp
  from topic obtain ss where
    ss: "snd (push_str [7, 5] (topic_buf_new [0, 0, 0, 0])) = pushes_to ss (topic_buf_new [0, 0, 0, 0])"
    and t: "om_topic msg = concat ss"
    by (auto simp: topic_right_def rt v cap)
  have "topic_str (snd (push_str [7, 5] (topic_buf_new [0, 0, 0, 0]))) = [7, 5]"
    and "\<not> tb_overflowed (snd (push_str [7, 5] (topic_buf_new [0, 0, 0, 0])))" by code_simp+
  then have "concat ss = [7, 5]"
    using pushes_step [of "topic_buf_new [0, 0, 0, 0]" ss] unfolding ss
    by (simp add: topic_buf_new_def topic_str_def)
  then show ?thesis using msg t pay by simp
qed

end
