(* ===== verification/Record_Core.thy ===== *)
theory Record_Core
  imports Dependency_Graph Outbound_Routes Router
begin

text \<open>
  \<open>aimdb-core/src/typed_record.rs\<close>: one record, what the configuration registered on it, and the
  reads and writes of remote access, with the write handle of \<open>buffer/writer.rs\<close>.

  A Rust type is a number (\<open>TypeId\<close>), and the values of all types share the type variable
  \<open>'v\<close>.  A service (a boxed closure that returns a future) is an opaque value of type \<open>'f\<close>; calling
  it gives the future tagged with the record whose handle it received.  The clock of an instance
  is a number, and \<open>now\<close> reads it.  The buffers are those of the WASM adapter.  Error messages are
  constructors that keep what the message names.  Configuration happens before the record is shared
  and every later operation holds one lock, so operations are functions of the record.
\<close>

subsection \<open>Links\<close>

record link_address =
  la_scheme :: string
  la_resource :: string

text \<open>\<open>Display\<close> of a link address.\<close>

definition url_text :: "link_address \<Rightarrow> string" where
  "url_text a = la_scheme a @ ''://'' @ la_resource a"

text \<open>A \<open>ConnectorLink\<close>, with what its route factory captures in place of the factory.\<close>

record 'v connector_link =
  cl_url :: link_address
  cl_config :: "(string \<times> string) list"
  cl_topic_writer :: "(nat \<times> 'v topic_writer) option"
  cl_serialize :: "'v serializer"
  cl_serialize_into :: "(nat \<times> 'v serializer_into) option"

type_synonym 'v deserializer = "topic_match \<Rightarrow> bytes \<Rightarrow> string + 'v"

text \<open>
  An \<open>InboundConnectorLink\<close>, with the record key and the deserializer its ingest factory
  captures, and the answer of its topic resolver, which is called once.
\<close>

record 'v inbound_link =
  il_url :: link_address
  il_config :: "(string \<times> string) list"
  il_record :: string
  il_deser :: "'v deserializer"
  il_key :: "(string \<times> u16) option"
  il_resolver :: "string option option"

definition resolve_topic :: "'v inbound_link \<Rightarrow> string" where
  "resolve_topic l = (case Option.bind (il_resolver l) id of Some t \<Rightarrow> t | None \<Rightarrow> la_resource (il_url l))"

subsection \<open>Errors\<close>

text \<open>The message of a \<open>ConfigError\<close>, one constructor per text.\<close>

datatype mistake =
    SchemaConflict string u32 schema_info
  | DuplicateProducer
  | DuplicateTransform
  | RemoteWithoutBuffer
  | KeyTypeConflict
  | ConflictingWriters "string list"
  | LinkedWithoutBuffer
  | RuntimeNotSet
  | DuplicateRecordKey
  | InputTypeMismatch string nat nat
  | GraphRejected graph_error
  | IdentityRejected string
  | ForeignHandle
  | SchemeMismatch string string
  | InvalidUrl
  | BracesInTopic
  | NoSerializer
  | NoConnector string
  | BothDeserializers
  | NoDeserializer
  | BadPattern pattern_error
  | ZeroKeyCapacity string
  | KeyNotCapture string string
  | KeyCapacityConflict string u16 u16
  | GrammarRejected string
  | SchemeOwnedTwice string

record config_error =
  ce_record_key :: string
  ce_url :: "string option"
  ce_mistake :: mistake

definition config_error :: "string \<Rightarrow> string option \<Rightarrow> mistake \<Rightarrow> config_error" where
  "config_error key url what = \<lparr>ce_record_key = key, ce_url = url, ce_mistake = what\<rparr>"

datatype db_error =
    InvalidConfiguration "config_error list"
  | RecordNotFound nat
  | RecordKeyNotFound string
  | InvalidRecordId u32
  | TypeMismatch u32 nat
  | MissingConfiguration string
  | WriteWithoutClock
  | ActiveWriter nat
  | NotRemote nat
  | NoBuffer nat
  | DecodeFailed nat
  | EncodeFailed
  | DbBufferEmpty
  | DbBufferLagged u64
  | DbBufferClosed
  | ConnectorFailed string

subsection \<open>The record\<close>

text \<open>
  A \<open>TransformDescriptor\<close>, with what its \<open>build_fn\<close> returns: the task, and the forwarders of a join,
  each named by its input's index and key.
\<close>

record 'f transform_descriptor =
  td_input_keys :: "string list"
  td_input_types :: "nat list"
  td_task :: 'f
  td_fanin :: "(nat \<times> string) list"

record ('v, 'j) json_codec =
  jc_encode :: "'v \<Rightarrow> 'j option"
  jc_decode :: "'j \<Rightarrow> 'v option"
  jc_encode_to_vec :: "'v \<Rightarrow> bytes option"
  jc_decode_slice :: "bytes \<Rightarrow> 'v option"

record ('v, 'j, 'f) typed_record =
  tr_type :: nat
  tr_producer :: "'f option"
  tr_consumers :: "'f list"
  tr_transform :: "'f transform_descriptor option"
  tr_buffer :: "('v, u64) stamped wasm_inner option"
  tr_clock :: "nat option"
  tr_buffer_cfg :: "buffer_cfg option"
  tr_outbound :: "'v connector_link list"
  tr_inbound :: "'v inbound_link list"
  tr_schema :: "schema_info option"
  tr_writable :: bool
  tr_codec :: "('v, 'j) json_codec option"
  tr_errors :: "config_error list"

text \<open>A future handed to the runner: its role, the record it works for, and the service.\<close>

datatype 'f future =
    SourceTask string 'f
  | TransformTask string 'f
  | FaninTask string nat string
  | TapTask string 'f
  | ConnectorTask 'f
  | StartTask 'f

definition record_new :: "nat \<Rightarrow> ('v, 'j, 'f) typed_record" where
  "record_new ty =
     \<lparr>tr_type = ty, tr_producer = None, tr_consumers = [], tr_transform = None, tr_buffer = None,
      tr_clock = None, tr_buffer_cfg = None, tr_outbound = [], tr_inbound = [], tr_schema = None,
      tr_writable = False, tr_codec = None, tr_errors = []\<rparr>"

subsection \<open>Registration\<close>

definition push_config_error :: "config_error \<Rightarrow> ('v, 'j, 'f) typed_record \<Rightarrow> ('v, 'j, 'f) typed_record" where
  "push_config_error e r = r\<lparr>tr_errors := tr_errors r @ [e]\<rparr>"

definition set_schema :: "string \<Rightarrow> u32 \<Rightarrow> ('v, 'j, 'f) typed_record \<Rightarrow> ('v, 'j, 'f) typed_record" where
  "set_schema name version r =
     (case tr_schema r of
        None \<Rightarrow> r\<lparr>tr_schema := Some \<lparr>schema_name = name, schema_version = version\<rparr>\<rparr>
      | Some s \<Rightarrow>
          if schema_name s = name \<and> schema_version s = version then r
          else push_config_error (config_error '''' None (SchemaConflict name version s)) r)"

definition set_producer :: "'f \<Rightarrow> ('v, 'j, 'f) typed_record \<Rightarrow> ('v, 'j, 'f) typed_record" where
  "set_producer f r =
     (if tr_producer r \<noteq> None then push_config_error (config_error '''' None DuplicateProducer) r
      else r\<lparr>tr_producer := Some f\<rparr>)"

definition add_consumer :: "'f \<Rightarrow> ('v, 'j, 'f) typed_record \<Rightarrow> ('v, 'j, 'f) typed_record" where
  "add_consumer f r = r\<lparr>tr_consumers := tr_consumers r @ [f]\<rparr>"

definition set_transform ::
  "'f transform_descriptor \<Rightarrow> ('v, 'j, 'f) typed_record \<Rightarrow> ('v, 'j, 'f) typed_record" where
  "set_transform d r =
     (if tr_transform r \<noteq> None then push_config_error (config_error '''' None DuplicateTransform) r
      else r\<lparr>tr_transform := Some d\<rparr>)"

definition set_buffer ::
  "('v, u64) stamped wasm_inner \<Rightarrow> ('v, 'j, 'f) typed_record \<Rightarrow> ('v, 'j, 'f) typed_record" where
  "set_buffer b r = r\<lparr>tr_buffer_cfg := None, tr_buffer := Some b\<rparr>"

definition set_buffer_cfg :: "buffer_cfg \<Rightarrow> ('v, 'j, 'f) typed_record \<Rightarrow> ('v, 'j, 'f) typed_record" where
  "set_buffer_cfg cfg r = r\<lparr>tr_buffer_cfg := Some cfg\<rparr>"

definition with_remote_access ::
  "('v, 'j) json_codec \<Rightarrow> ('v, 'j, 'f) typed_record \<Rightarrow> ('v, 'j, 'f) typed_record" where
  "with_remote_access codec r = r\<lparr>tr_codec := Some codec\<rparr>"

definition add_outbound_connector ::
  "'v connector_link \<Rightarrow> ('v, 'j, 'f) typed_record \<Rightarrow> ('v, 'j, 'f) typed_record" where
  "add_outbound_connector l r = r\<lparr>tr_outbound := tr_outbound r @ [l]\<rparr>"

definition add_inbound_connector ::
  "'v inbound_link \<Rightarrow> ('v, 'j, 'f) typed_record \<Rightarrow> ('v, 'j, 'f) typed_record" where
  "add_inbound_connector l r = r\<lparr>tr_inbound := tr_inbound r @ [l]\<rparr>"

definition set_writable :: "bool \<Rightarrow> ('v, 'j, 'f) typed_record \<Rightarrow> ('v, 'j, 'f) typed_record" where
  "set_writable w r = r\<lparr>tr_writable := w\<rparr>"

definition bind_clock :: "nat \<Rightarrow> ('v, 'j, 'f) typed_record \<Rightarrow> ('v, 'j, 'f) typed_record" where
  "bind_clock c r = r\<lparr>tr_clock := Some c\<rparr>"

text \<open>\<open>drain_config_errors\<close>: the mistakes, and the record without them.\<close>

definition drain_config_errors ::
  "('v, 'j, 'f) typed_record \<Rightarrow> config_error list \<times> ('v, 'j, 'f) typed_record" where
  "drain_config_errors r =
     (tr_errors r
        @ (if tr_codec r \<noteq> None \<and> tr_buffer r = None then [config_error '''' None RemoteWithoutBuffer] else []),
      r\<lparr>tr_errors := []\<rparr>)"

subsection \<open>Introspection\<close>

definition has_producer :: "('v, 'j, 'f) typed_record \<Rightarrow> bool" where
  "has_producer r \<longleftrightarrow> tr_producer r \<noteq> None"

definition has_transform :: "('v, 'j, 'f) typed_record \<Rightarrow> bool" where
  "has_transform r \<longleftrightarrow> tr_transform r \<noteq> None"

definition has_buffer :: "('v, 'j, 'f) typed_record \<Rightarrow> bool" where
  "has_buffer r \<longleftrightarrow> tr_buffer r \<noteq> None"

definition consumer_count :: "('v, 'j, 'f) typed_record \<Rightarrow> nat" where
  "consumer_count r = length (tr_consumers r)"

definition record_origin_of :: "('v, 'j, 'f) typed_record \<Rightarrow> record_origin" where
  "record_origin_of r =
     (case tr_transform r of
        Some d \<Rightarrow> (case td_input_keys d of [input] \<Rightarrow> Transform input | inputs \<Rightarrow> TransformJoin inputs)
      | None \<Rightarrow>
          (case tr_inbound r of
             l # _ \<Rightarrow> Link (la_scheme (il_url l)) (url_text (il_url l))
           | [] \<Rightarrow> if has_producer r then Source else Passive))"

definition transform_input_keys :: "('v, 'j, 'f) typed_record \<Rightarrow> string list option" where
  "transform_input_keys r = map_option td_input_keys (tr_transform r)"

definition transform_input_types :: "('v, 'j, 'f) typed_record \<Rightarrow> (string \<times> nat) list" where
  "transform_input_types r =
     (case tr_transform r of None \<Rightarrow> [] | Some d \<Rightarrow> zip (td_input_keys d) (td_input_types d))"

definition cfg_name :: "buffer_cfg \<Rightarrow> string" where
  "cfg_name cfg =
     (case cfg of CfgSpmcRing _ \<Rightarrow> ''spmc_ring'' | CfgSingleLatest \<Rightarrow> ''single_latest'' | CfgMailbox \<Rightarrow> ''mailbox'')"

definition cfg_capacity :: "buffer_cfg \<Rightarrow> nat option" where
  "cfg_capacity cfg = (case cfg of CfgSpmcRing capacity \<Rightarrow> Some capacity | _ \<Rightarrow> None)"

definition buffer_info :: "('v, 'j, 'f) typed_record \<Rightarrow> string \<times> nat option" where
  "buffer_info r =
     (case tr_buffer_cfg r of
        Some cfg \<Rightarrow> (cfg_name cfg, cfg_capacity cfg)
      | None \<Rightarrow> if tr_buffer r \<noteq> None then (''unknown'', None) else (''none'', None))"

record inbound_keys_info =
  ik_captures :: "string list"
  ik_capacity :: u16
  ik_assigned :: nat
  ik_dropped :: u32

record record_metadata =
  rm_record_id :: u32
  rm_record_key :: string
  rm_type :: nat
  rm_origin :: record_origin
  rm_buffer_type :: string
  rm_buffer_capacity :: "nat option"
  rm_producer_count :: nat
  rm_consumer_count :: nat
  rm_writable :: bool
  rm_outbound_count :: nat
  rm_schema :: "(string \<times> u32) option"
  rm_entity :: "string option"
  rm_inbound_keys :: "inbound_keys_info option"

text \<open>\<open>topic_leaf\<close>: what follows the last \<open>.\<close> or \<open>/\<close>.\<close>

definition topic_leaf :: "string \<Rightarrow> string" where
  "topic_leaf key = rev (takeWhile (\<lambda>c. c \<noteq> CHR ''.'' \<and> c \<noteq> CHR ''/'') (rev key))"

definition collect_metadata :: "nat \<Rightarrow> string \<Rightarrow> u32 \<Rightarrow> ('v, 'j, 'f) typed_record \<Rightarrow> record_metadata" where
  "collect_metadata ty key rid r =
     (let (btype, bcap) =
        (case tr_buffer_cfg r of Some cfg \<Rightarrow> (cfg_name cfg, cfg_capacity cfg) | None \<Rightarrow> (''none'', None))
      in \<lparr>rm_record_id = rid, rm_record_key = key, rm_type = ty, rm_origin = record_origin_of r,
          rm_buffer_type = btype, rm_buffer_capacity = bcap,
          rm_producer_count = (if has_producer r then 1 else 0), rm_consumer_count = consumer_count r,
          rm_writable = tr_writable r, rm_outbound_count = length (tr_outbound r),
          rm_schema = map_option (\<lambda>s. (schema_name s, schema_version s)) (tr_schema r),
          rm_entity = Some (topic_leaf key), rm_inbound_keys = None\<rparr>)"

subsection \<open>Writing\<close>

text \<open>The handle a producer holds: the record's buffer and the clock it stamps from.\<close>

definition writer_handle :: "('v, 'j, 'f) typed_record \<Rightarrow> db_error + nat" where
  "writer_handle r = (case tr_clock r of None \<Rightarrow> Inl WriteWithoutClock | Some c \<Rightarrow> Inr c)"

text \<open>\<open>RecordWriter::push\<close> through a handle with clock \<open>c\<close>: without a buffer the value is dropped.\<close>

definition writer_push ::
  "(nat \<Rightarrow> u64) \<Rightarrow> nat \<Rightarrow> 'v \<Rightarrow> ('v, 'j, 'f) typed_record \<Rightarrow> ('v, 'j, 'f) typed_record" where
  "writer_push now c v r =
     (case tr_buffer r of
        None \<Rightarrow> r
      | Some buf \<Rightarrow> r\<lparr>tr_buffer := Some (fst (wasm_push \<lparr>st_value = v, st_metadata = now c\<rparr> buf))\<rparr>)"

definition commit_remote_write ::
  "(nat \<Rightarrow> u64) \<Rightarrow> 'v \<Rightarrow> ('v, 'j, 'f) typed_record \<Rightarrow> db_error + ('v, 'j, 'f) typed_record" where
  "commit_remote_write now v r =
     (case writer_handle r of Inl e \<Rightarrow> Inl e | Inr c \<Rightarrow> Inr (writer_push now c v r))"

definition remote_write_codec :: "('v, 'j, 'f) typed_record \<Rightarrow> db_error + ('v, 'j) json_codec" where
  "remote_write_codec r =
     (if has_producer r \<or> has_transform r then Inl (ActiveWriter (tr_type r))
      else
        (case tr_codec r of
           None \<Rightarrow> Inl (NotRemote (tr_type r))
         | Some codec \<Rightarrow> if tr_buffer r = None then Inl (NoBuffer (tr_type r)) else Inr codec))"

definition set_from_json ::
  "(nat \<Rightarrow> u64) \<Rightarrow> 'j \<Rightarrow> ('v, 'j, 'f) typed_record \<Rightarrow> db_error + ('v, 'j, 'f) typed_record" where
  "set_from_json now json r =
     (case remote_write_codec r of
        Inl e \<Rightarrow> Inl e
      | Inr codec \<Rightarrow>
          (case jc_decode codec json of
             None \<Rightarrow> Inl (DecodeFailed (tr_type r))
           | Some v \<Rightarrow> commit_remote_write now v r))"

definition set_from_json_bytes ::
  "(nat \<Rightarrow> u64) \<Rightarrow> bytes \<Rightarrow> ('v, 'j, 'f) typed_record \<Rightarrow> db_error + ('v, 'j, 'f) typed_record" where
  "set_from_json_bytes now bs r =
     (case remote_write_codec r of
        Inl e \<Rightarrow> Inl e
      | Inr codec \<Rightarrow>
          (case jc_decode_slice codec bs of
             None \<Rightarrow> Inl (DecodeFailed (tr_type r))
           | Some v \<Rightarrow> commit_remote_write now v r))"

subsection \<open>Reading\<close>

text \<open>\<open>Stamped::try_map\<close> with the write metadata kept.\<close>

definition map_sample :: "('a \<Rightarrow> 'b option) \<Rightarrow> ('a, 'm) stamped \<Rightarrow> ('b, 'm) stamped option" where
  "map_sample f s = map_option (\<lambda>v. \<lparr>st_value = v, st_metadata = st_metadata s\<rparr>) (f (st_value s))"

text \<open>\<open>latest\<close>: the stored sample, with the codec \<open>as_json\<close> uses.\<close>

definition record_latest ::
  "('v, 'j, 'f) typed_record \<Rightarrow> (('v, u64) stamped \<times> ('v, 'j) json_codec option) option" where
  "record_latest r = map_option (\<lambda>s. (s, tr_codec r)) (Option.bind (tr_buffer r) wasm_peek)"

definition as_json :: "('v, u64) stamped \<times> ('v, 'j) json_codec option \<Rightarrow> 'j option" where
  "as_json rv = Option.bind (snd rv) (\<lambda>codec. jc_encode codec (st_value (fst rv)))"

definition latest_json :: "('v, 'j, 'f) typed_record \<Rightarrow> ('j, u64) stamped option" where
  "latest_json r =
     Option.bind (tr_codec r) (\<lambda>codec.
       Option.bind (Option.bind (tr_buffer r) wasm_peek) (map_sample (jc_encode codec)))"

definition latest_json_bytes :: "('v, 'j, 'f) typed_record \<Rightarrow> (bytes, u64) stamped option" where
  "latest_json_bytes r =
     Option.bind (tr_codec r) (\<lambda>codec.
       Option.bind (Option.bind (tr_buffer r) wasm_peek) (map_sample (jc_encode_to_vec codec)))"

definition record_subscribe :: "('v, 'j, 'f) typed_record \<Rightarrow> db_error + reader_state" where
  "record_subscribe r =
     (case tr_buffer r of
        None \<Rightarrow> Inl (MissingConfiguration ''buffer'')
      | Some buf \<Rightarrow> Inr (wasm_subscribe buf))"

text \<open>A \<open>JsonReaderAdapter\<close>: the reader and the codec.\<close>

type_synonym ('v, 'j) json_reader = "reader_state \<times> ('v, 'j) json_codec"

definition subscribe_json :: "('v, 'j, 'f) typed_record \<Rightarrow> db_error + ('v, 'j) json_reader" where
  "subscribe_json r =
     (case tr_codec r of
        None \<Rightarrow> Inl (NotRemote (tr_type r))
      | Some codec \<Rightarrow>
          (case tr_buffer r of
             None \<Rightarrow> Inl (MissingConfiguration ''buffer'')
           | Some buf \<Rightarrow> Inr (wasm_subscribe buf, codec)))"

definition received_result :: "'a received \<Rightarrow> db_error + 'a" where
  "received_result x =
     (case x of
        Got v \<Rightarrow> Inr v
      | BufferEmpty \<Rightarrow> Inl DbBufferEmpty
      | BufferLagged n \<Rightarrow> Inl (DbBufferLagged n)
      | Mismatch \<Rightarrow> Inl DbBufferClosed)"

definition encode_sample :: "('v \<Rightarrow> 'b option) \<Rightarrow> db_error + ('v, u64) stamped \<Rightarrow> db_error + ('b, u64) stamped" where
  "encode_sample f x =
     (case x of
        Inl e \<Rightarrow> Inl e
      | Inr s \<Rightarrow> (case map_sample f s of None \<Rightarrow> Inl EncodeFailed | Some s' \<Rightarrow> Inr s'))"

text \<open>A receive on a record with a buffer: the outcome, the record and the reader.\<close>

definition try_recv_with ::
  "('v \<Rightarrow> 'b option) \<Rightarrow> ('v, 'j, 'f) typed_record \<Rightarrow> ('v, 'j) json_reader
   \<Rightarrow> (db_error + ('b, u64) stamped) \<times> ('v, 'j, 'f) typed_record \<times> ('v, 'j) json_reader" where
  "try_recv_with f r jr =
     (case tr_buffer r of
        None \<Rightarrow> (Inl DbBufferClosed, r, jr)
      | Some buf \<Rightarrow>
          (case wasm_try_recv buf (fst jr) of
             (out, buf', rd) \<Rightarrow>
               (encode_sample f (received_result out), r\<lparr>tr_buffer := Some buf'\<rparr>, (rd, snd jr))))"

definition try_recv_json ::
  "('v, 'j, 'f) typed_record \<Rightarrow> ('v, 'j) json_reader
   \<Rightarrow> (db_error + ('j, u64) stamped) \<times> ('v, 'j, 'f) typed_record \<times> ('v, 'j) json_reader" where
  "try_recv_json r jr = try_recv_with (jc_encode (snd jr)) r jr"

definition try_recv_json_bytes ::
  "('v, 'j, 'f) typed_record \<Rightarrow> ('v, 'j) json_reader
   \<Rightarrow> (db_error + (bytes, u64) stamped) \<times> ('v, 'j, 'f) typed_record \<times> ('v, 'j) json_reader" where
  "try_recv_json_bytes r jr = try_recv_with (jc_encode_to_vec (snd jr)) r jr"

text \<open>\<open>poll_recv_json_bytes\<close> called with waker \<open>w\<close>; \<open>None\<close> is \<open>Pending\<close>.\<close>

definition poll_recv_with ::
  "('v \<Rightarrow> 'b option) \<Rightarrow> nat \<Rightarrow> ('v, 'j, 'f) typed_record \<Rightarrow> ('v, 'j) json_reader
   \<Rightarrow> (db_error + ('b, u64) stamped) option \<times> ('v, 'j, 'f) typed_record \<times> ('v, 'j) json_reader" where
  "poll_recv_with f w r jr =
     (case tr_buffer r of
        None \<Rightarrow> (Some (Inl DbBufferClosed), r, jr)
      | Some buf \<Rightarrow>
          (case wasm_poll_recv w buf (fst jr) of
             (out, buf', rd) \<Rightarrow>
               (map_option (\<lambda>x. encode_sample f (received_result x)) out,
                r\<lparr>tr_buffer := Some buf'\<rparr>, (rd, snd jr))))"

definition poll_recv_json ::
  "nat \<Rightarrow> ('v, 'j, 'f) typed_record \<Rightarrow> ('v, 'j) json_reader
   \<Rightarrow> (db_error + ('j, u64) stamped) option \<times> ('v, 'j, 'f) typed_record \<times> ('v, 'j) json_reader" where
  "poll_recv_json w r jr = poll_recv_with (jc_encode (snd jr)) w r jr"

definition poll_recv_json_bytes ::
  "nat \<Rightarrow> ('v, 'j, 'f) typed_record \<Rightarrow> ('v, 'j) json_reader
   \<Rightarrow> (db_error + (bytes, u64) stamped) option \<times> ('v, 'j, 'f) typed_record \<times> ('v, 'j) json_reader" where
  "poll_recv_json_bytes w r jr = poll_recv_with (jc_encode_to_vec (snd jr)) w r jr"

subsection \<open>Collecting futures\<close>

text \<open>Each collector takes the services out of the record: a \<open>FnOnce\<close> runs once.\<close>

definition collect_producer_future ::
  "string \<Rightarrow> ('v, 'j, 'f) typed_record \<Rightarrow> (db_error + 'f future option) \<times> ('v, 'j, 'f) typed_record" where
  "collect_producer_future key r =
     (let r' = r\<lparr>tr_producer := None\<rparr> in
      case tr_producer r of
        None \<Rightarrow> (Inr None, r')
      | Some service \<Rightarrow>
          (case writer_handle r' of
             Inl e \<Rightarrow> (Inl e, r')
           | Inr _ \<Rightarrow> (Inr (Some (SourceTask key service)), r')))"

definition collect_transform_futures ::
  "string \<Rightarrow> ('v, 'j, 'f) typed_record \<Rightarrow> (db_error + 'f future list) \<times> ('v, 'j, 'f) typed_record" where
  "collect_transform_futures key r =
     (let r' = r\<lparr>tr_transform := None\<rparr> in
      case tr_transform r of
        None \<Rightarrow> (Inr [], r')
      | Some d \<Rightarrow>
          (case writer_handle r' of
             Inl e \<Rightarrow> (Inl e, r')
           | Inr _ \<Rightarrow> (Inr (TransformTask key (td_task d) # map (\<lambda>(i, input). FaninTask key i input) (td_fanin d)), r')))"

definition collect_consumer_futures ::
  "string \<Rightarrow> ('v, 'j, 'f) typed_record \<Rightarrow> (db_error + 'f future list) \<times> ('v, 'j, 'f) typed_record" where
  "collect_consumer_futures key r =
     (let r' = r\<lparr>tr_consumers := []\<rparr> in
      case tr_buffer r' of
        None \<Rightarrow> (Inl (MissingConfiguration key), r')
      | Some _ \<Rightarrow> (Inr (map (TapTask key) (tr_consumers r)), r'))"

text \<open>\<open>collect_all_futures\<close> for type \<open>ty\<close>; each \<open>?\<close> is a branch.\<close>

definition collect_all_futures ::
  "nat \<Rightarrow> string \<Rightarrow> ('v, 'j, 'f) typed_record \<Rightarrow> (db_error + 'f future list) \<times> ('v, 'j, 'f) typed_record" where
  "collect_all_futures ty key r =
     (if tr_type r \<noteq> ty then (Inl (RecordNotFound ty), r)
      else
        (case (if has_producer r then collect_producer_future key r else (Inr None, r)) of
           (Inl e, r1) \<Rightarrow> (Inl e, r1)
         | (Inr source, r1) \<Rightarrow>
             (case (if has_transform r1 then collect_transform_futures key r1 else (Inr [], r1)) of
                (Inl e, r2) \<Rightarrow> (Inl e, r2)
              | (Inr transforms, r2) \<Rightarrow>
                  (case (if 0 < consumer_count r2 then collect_consumer_futures key r2 else (Inr [], r2)) of
                     (Inl e, r3) \<Rightarrow> (Inl e, r3)
                   | (Inr taps, r3) \<Rightarrow>
                       (Inr ((case source of None \<Rightarrow> [] | Some f \<Rightarrow> [f]) @ transforms @ taps), r3)))))"

end
