(* ===== verification/Record_Registrar.thy ===== *)
theory Record_Registrar
  imports Record_Core
begin

text \<open>
  How a record is configured: \<open>RecordRegistrar\<close> and the link builders of
  \<open>aimdb-core/src/typed_api.rs\<close>, link addresses and connector handles (\<open>connector.rs\<close>), the
  transform descriptors (\<open>transform/single.rs\<close>, \<open>transform/join.rs\<close>).

  The closure a user passes to \<open>configure\<close> can only call the registrar, so it is the list of its
  calls.  Every mistake is recorded in the record instead of raised.
\<close>

subsection \<open>Link addresses\<close>

definition link_address_parse :: "string \<Rightarrow> link_address option" where
  "link_address_parse s =
     (case split_once ''://'' s of
        None \<Rightarrow> None
      | Some (scheme, rest) \<Rightarrow>
          (let r = (case split_once ''?'' rest of Some (r, _) \<Rightarrow> r | None \<Rightarrow> rest);
               resource = dropWhile (\<lambda>c. c = CHR ''/'') r
           in if scheme = [] \<or> resource = [] then None
              else Some \<lparr>la_scheme = scheme, la_resource = resource\<rparr>))"

text \<open>A registered \<open>ConnectorBuilder\<close>: its scheme, whether it owns it, and which one it is.\<close>

record connector =
  cn_scheme :: string
  cn_owns :: bool
  cn_id :: nat

record connector_handle =
  hd_builder :: u32
  hd_index :: u16

definition resolve_link_url ::
  "u32 \<Rightarrow> connector list \<Rightarrow> connector_handle \<Rightarrow> string \<Rightarrow> mistake + string" where
  "resolve_link_url builder connectors handle address =
     (if unat (hd_index handle) < length connectors \<and> hd_builder handle = builder
      then
        (let scheme = cn_scheme (connectors ! unat (hd_index handle)) in
         case split_once ''://'' address of
           None \<Rightarrow> Inr (scheme @ ''://'' @ address)
         | Some (given, _) \<Rightarrow> if given = scheme then Inr address else Inl (SchemeMismatch given scheme))
      else Inl ForeignHandle)"

subsection \<open>Link builders\<close>

record 'v out_draft =
  od_url :: string
  od_connector :: "connector_handle option"
  od_schema :: "(string \<times> u32) option"
  od_config :: "(string \<times> string) list"
  od_serializer :: "'v serializer option"
  od_serializer_into :: "(nat \<times> 'v serializer_into) option"
  od_topic_writer :: "(nat \<times> 'v topic_writer) option"

definition outbound_link_new :: "string \<Rightarrow> 'v out_draft" where
  "outbound_link_new url =
     \<lparr>od_url = url, od_connector = None, od_schema = None, od_config = [], od_serializer = None,
      od_serializer_into = None, od_topic_writer = None\<rparr>"

definition outbound_link_on :: "connector_handle \<Rightarrow> string \<Rightarrow> 'v out_draft" where
  "outbound_link_on h address = (outbound_link_new address)\<lparr>od_connector := Some h\<rparr>"

definition wire_format_key :: string where "wire_format_key = ''aimdb.wire_format''"

definition retain_other_config :: "(string \<times> string) list \<Rightarrow> (string \<times> string) list" where
  "retain_other_config cfg = filter (\<lambda>(k, _). k \<noteq> wire_format_key) cfg"

definition out_clear_wire_format :: "'v out_draft \<Rightarrow> 'v out_draft" where
  "out_clear_wire_format d = d\<lparr>od_config := retain_other_config (od_config d)\<rparr>"

definition out_with_schema :: "string \<Rightarrow> u32 \<Rightarrow> 'v out_draft \<Rightarrow> 'v out_draft" where
  "out_with_schema name version d = d\<lparr>od_schema := Some (name, version)\<rparr>"

definition out_with_config :: "string \<Rightarrow> string \<Rightarrow> 'v out_draft \<Rightarrow> 'v out_draft" where
  "out_with_config key v d = d\<lparr>od_config := od_config d @ [(key, v)]\<rparr>"

definition with_serializer :: "'v serializer \<Rightarrow> 'v out_draft \<Rightarrow> 'v out_draft" where
  "with_serializer f d = out_clear_wire_format (d\<lparr>od_serializer := Some f\<rparr>)"

definition with_serializer_into :: "nat \<Rightarrow> 'v serializer_into \<Rightarrow> 'v out_draft \<Rightarrow> 'v out_draft" where
  "with_serializer_into capacity f d = out_clear_wire_format (d\<lparr>od_serializer_into := Some (capacity, f)\<rparr>)"

definition clear_serializer_into :: "'v out_draft \<Rightarrow> 'v out_draft" where
  "clear_serializer_into d = d\<lparr>od_serializer_into := None\<rparr>"

definition with_topic_writer :: "nat \<Rightarrow> 'v topic_writer \<Rightarrow> 'v out_draft \<Rightarrow> 'v out_draft" where
  "with_topic_writer capacity w d = d\<lparr>od_topic_writer := Some (capacity, w)\<rparr>"

record 'v in_draft =
  nd_url :: string
  nd_connector :: "connector_handle option"
  nd_schema :: "(string \<times> u32) option"
  nd_config :: "(string \<times> string) list"
  nd_deserializer :: "(bytes \<Rightarrow> string + 'v) option"
  nd_match_deserializer :: "'v deserializer option"
  nd_key :: "(string \<times> u16) option"
  nd_resolver :: "string option option"

definition inbound_link_new :: "string \<Rightarrow> 'v in_draft" where
  "inbound_link_new url =
     \<lparr>nd_url = url, nd_connector = None, nd_schema = None, nd_config = [], nd_deserializer = None,
      nd_match_deserializer = None, nd_key = None, nd_resolver = None\<rparr>"

definition inbound_link_on :: "connector_handle \<Rightarrow> string \<Rightarrow> 'v in_draft" where
  "inbound_link_on h address = (inbound_link_new address)\<lparr>nd_connector := Some h\<rparr>"

definition in_clear_wire_format :: "'v in_draft \<Rightarrow> 'v in_draft" where
  "in_clear_wire_format d = d\<lparr>nd_config := retain_other_config (nd_config d)\<rparr>"

definition in_with_schema :: "string \<Rightarrow> u32 \<Rightarrow> 'v in_draft \<Rightarrow> 'v in_draft" where
  "in_with_schema name version d = d\<lparr>nd_schema := Some (name, version)\<rparr>"

definition in_with_config :: "string \<Rightarrow> string \<Rightarrow> 'v in_draft \<Rightarrow> 'v in_draft" where
  "in_with_config key v d = d\<lparr>nd_config := nd_config d @ [(key, v)]\<rparr>"

definition with_deserializer :: "(bytes \<Rightarrow> string + 'v) \<Rightarrow> 'v in_draft \<Rightarrow> 'v in_draft" where
  "with_deserializer f d = in_clear_wire_format (d\<lparr>nd_deserializer := Some f\<rparr>)"

definition with_match_deserializer :: "'v deserializer \<Rightarrow> 'v in_draft \<Rightarrow> 'v in_draft" where
  "with_match_deserializer f d = in_clear_wire_format (d\<lparr>nd_match_deserializer := Some f\<rparr>)"

definition with_key :: "string \<Rightarrow> u16 \<Rightarrow> 'v in_draft \<Rightarrow> 'v in_draft" where
  "with_key name capacity d = d\<lparr>nd_key := Some (name, capacity)\<rparr>"

definition with_topic_resolver :: "string option \<Rightarrow> 'v in_draft \<Rightarrow> 'v in_draft" where
  "with_topic_resolver answer d = d\<lparr>nd_resolver := Some answer\<rparr>"

subsection \<open>Transform descriptors\<close>

text \<open>\<open>transform\<close> of input \<open>key\<close> read as \<open>ty\<close>; \<open>transform_join\<close> of several inputs.\<close>

definition single_descriptor :: "string \<Rightarrow> nat \<Rightarrow> 'f \<Rightarrow> 'f transform_descriptor" where
  "single_descriptor key ty task =
     \<lparr>td_input_keys = [key], td_input_types = [ty], td_task = task, td_fanin = []\<rparr>"

definition join_descriptor :: "(string \<times> nat) list \<Rightarrow> 'f \<Rightarrow> 'f transform_descriptor" where
  "join_descriptor inputs handler =
     \<lparr>td_input_keys = map fst inputs, td_input_types = map snd inputs, td_task = handler,
      td_fanin = enumerate 0 (map fst inputs)\<rparr>"

subsection \<open>The registrar\<close>

text \<open>What a registrar knows besides its record.\<close>

record registrar =
  rg_connectors :: "connector list"
  rg_builder :: u32
  rg_key :: string

text \<open>The link, or the URL and text of the mistake.\<close>

definition outbound_link_of :: "registrar \<Rightarrow> 'v out_draft \<Rightarrow> (string \<times> mistake) + 'v connector_link" where
  "outbound_link_of g d =
     (case (case od_connector d of
              None \<Rightarrow> Inr (od_url d)
            | Some h \<Rightarrow> resolve_link_url (rg_builder g) (rg_connectors g) h (od_url d)) of
        Inl what \<Rightarrow> Inl (od_url d, what)
      | Inr raw \<Rightarrow>
          (case link_address_parse raw of
             None \<Rightarrow> Inl (raw, InvalidUrl)
           | Some url \<Rightarrow>
               if list_ex (\<lambda>c. c = CHR 0x7B \<or> c = CHR 0x7D) (la_resource url) then Inl (raw, BracesInTopic)
               else
                 (case od_serializer d of
                    None \<Rightarrow> Inl (raw, NoSerializer)
                  | Some serialize \<Rightarrow>
                      if \<not> list_ex (\<lambda>c. cn_scheme c = la_scheme url) (rg_connectors g)
                      then Inl (url_text url, NoConnector (la_scheme url))
                      else Inr \<lparr>cl_url = url, cl_config = od_config d, cl_topic_writer = od_topic_writer d,
                                cl_serialize = serialize, cl_serialize_into = od_serializer_into d\<rparr>)))"

definition push_outbound ::
  "registrar \<Rightarrow> 'v out_draft \<Rightarrow> ('v, 'j, 'f) typed_record \<Rightarrow> ('v, 'j, 'f) typed_record" where
  "push_outbound g d r =
     (let r1 = (case od_schema d of None \<Rightarrow> r | Some (name, version) \<Rightarrow> set_schema name version r) in
      case outbound_link_of g d of
        Inl (url, what) \<Rightarrow> push_config_error (config_error (rg_key g) (Some url) what) r1
      | Inr l \<Rightarrow> add_outbound_connector l r1)"

text \<open>\<open>inbound_link\<close>, given the record's links so far: the URL as \<open>push_inbound\<close> will report it, and
  the link or the mistake.\<close>

definition choose_deserializer :: "'v in_draft \<Rightarrow> mistake + 'v deserializer" where
  "choose_deserializer d =
     (case (nd_deserializer d, nd_match_deserializer d) of
        (Some f, None) \<Rightarrow> Inr (\<lambda>_. f)
      | (None, Some f) \<Rightarrow> Inr f
      | (Some _, Some _) \<Rightarrow> Inl BothDeserializers
      | (None, None) \<Rightarrow> Inl NoDeserializer)"

definition check_key ::
  "part list \<Rightarrow> string \<Rightarrow> 'v inbound_link list \<Rightarrow> (string \<times> u16) option \<Rightarrow> mistake + (string \<times> u16) option" where
  "check_key pattern resource links key =
     (case key of
        None \<Rightarrow> Inr None
      | Some (capture, capacity) \<Rightarrow>
          if capacity = 0 then Inl (ZeroKeyCapacity capture)
          else if capture \<notin> set (capture_parts pattern) then Inl (KeyNotCapture capture resource)
          else
            (case List.map_filter il_key links of
               (_, other) # _ \<Rightarrow>
                 if other \<noteq> capacity then Inl (KeyCapacityConflict capture capacity other)
                 else Inr (Some (capture, capacity))
             | [] \<Rightarrow> Inr (Some (capture, capacity))))"

definition inbound_link_of ::
  "registrar \<Rightarrow> 'v inbound_link list \<Rightarrow> 'v in_draft \<Rightarrow> string \<times> (mistake + 'v inbound_link)" where
  "inbound_link_of g links d =
     (case (case nd_connector d of
              None \<Rightarrow> Inr (nd_url d)
            | Some h \<Rightarrow> resolve_link_url (rg_builder g) (rg_connectors g) h (nd_url d)) of
        Inl what \<Rightarrow> (nd_url d, Inl what)
      | Inr raw \<Rightarrow>
          (raw,
           case link_address_parse raw of
             None \<Rightarrow> Inl InvalidUrl
           | Some url \<Rightarrow>
               (case choose_deserializer d of
                  Inl what \<Rightarrow> Inl what
                | Inr deser \<Rightarrow>
                    (case parse_pattern (la_resource url) of
                       Inl e \<Rightarrow> Inl (BadPattern e)
                     | Inr pattern \<Rightarrow>
                         (case check_key pattern (la_resource url) links (nd_key d) of
                            Inl what \<Rightarrow> Inl what
                          | Inr key \<Rightarrow>
                              if \<not> list_ex (\<lambda>c. cn_scheme c = la_scheme url) (rg_connectors g)
                              then Inl (NoConnector (la_scheme url))
                              else Inr \<lparr>il_url = url, il_config = nd_config d, il_record = rg_key g,
                                        il_deser = deser, il_key = key, il_resolver = nd_resolver d\<rparr>)))))"

definition push_inbound ::
  "registrar \<Rightarrow> 'v in_draft \<Rightarrow> ('v, 'j, 'f) typed_record \<Rightarrow> ('v, 'j, 'f) typed_record" where
  "push_inbound g d r =
     (let r1 = (case nd_schema d of None \<Rightarrow> r | Some (name, version) \<Rightarrow> set_schema name version r) in
      case inbound_link_of g (tr_inbound r1) d of
        (_, Inr l) \<Rightarrow> add_inbound_connector l r1
      | (url, Inl what) \<Rightarrow> push_config_error (config_error (rg_key g) (Some url) what) r1)"

datatype ('v, 'j, 'f) reg_call =
    CallSchema string u32
  | CallSource 'f
  | CallTap 'f
  | CallBufferRaw "('v, u64) stamped wasm_inner"
  | CallBufferWithCfg "('v, u64) stamped wasm_inner" buffer_cfg
  | CallBufferCfg buffer_cfg
  | CallRemote "('v, 'j) json_codec"
  | CallTransform string nat 'f
  | CallTransformJoin "(string \<times> nat) list" 'f
  | CallInput "'v in_draft"
  | CallOutput "'v out_draft"

fun registrar_call ::
  "registrar \<Rightarrow> ('v, 'j, 'f) reg_call \<Rightarrow> ('v, 'j, 'f) typed_record \<Rightarrow> ('v, 'j, 'f) typed_record" where
  "registrar_call g (CallSchema name version) r = set_schema name version r"
| "registrar_call g (CallSource f) r = set_producer f r"
| "registrar_call g (CallTap f) r = add_consumer f r"
| "registrar_call g (CallBufferRaw b) r = set_buffer b r"
| "registrar_call g (CallBufferWithCfg b cfg) r = set_buffer_cfg cfg (set_buffer b r)"
| "registrar_call g (CallBufferCfg cfg) r = set_buffer_cfg cfg r"
| "registrar_call g (CallRemote codec) r = with_remote_access codec r"
| "registrar_call g (CallTransform key ty f) r = set_transform (single_descriptor key ty f) r"
| "registrar_call g (CallTransformJoin inputs f) r = set_transform (join_descriptor inputs f) r"
| "registrar_call g (CallInput d) r = push_inbound g d r"
| "registrar_call g (CallOutput d) r = push_outbound g d r"

definition registrar_calls ::
  "registrar \<Rightarrow> ('v, 'j, 'f) reg_call list \<Rightarrow> ('v, 'j, 'f) typed_record \<Rightarrow> ('v, 'j, 'f) typed_record" where
  "registrar_calls g calls r = fold (registrar_call g) calls r"

subsection \<open>What configuring keeps\<close>

lemmas record_op_defs =
  push_config_error_def set_schema_def set_producer_def add_consumer_def set_transform_def set_buffer_def
  set_buffer_cfg_def with_remote_access_def add_outbound_connector_def add_inbound_connector_def

lemma set_schema_keeps [simp]:
  "tr_type (set_schema name version r) = tr_type r" "tr_clock (set_schema name version r) = tr_clock r"
  "tr_inbound (set_schema name version r) = tr_inbound r"
  by (simp_all add: record_op_defs split: option.splits)

lemma push_inbound_cases:
  obtains (added) l r1 where "push_inbound g d r = add_inbound_connector l r1" and "il_record l = rg_key g"
      and "tr_type r1 = tr_type r" "tr_clock r1 = tr_clock r" "tr_inbound r1 = tr_inbound r"
  | (refused) e r1 where "push_inbound g d r = push_config_error e r1"
      and "tr_type r1 = tr_type r" "tr_clock r1 = tr_clock r" "tr_inbound r1 = tr_inbound r"
proof -
  let ?r1 = "case nd_schema d of None \<Rightarrow> r | Some (name, version) \<Rightarrow> set_schema name version r"
  have keeps: "tr_type ?r1 = tr_type r" "tr_clock ?r1 = tr_clock r" "tr_inbound ?r1 = tr_inbound r"
    by (auto split: option.splits prod.splits)
  obtain url out where out: "inbound_link_of g (tr_inbound ?r1) d = (url, out)" by fastforce
  show thesis
  proof (cases out)
    case (Inl what)
    then have "push_inbound g d r = push_config_error (config_error (rg_key g) (Some url) what) ?r1"
      using out by (simp add: push_inbound_def Let_def)
    then show thesis using refused keeps by blast
  next
    case (Inr l)
    then have "push_inbound g d r = add_inbound_connector l ?r1"
      using out by (simp add: push_inbound_def Let_def)
    moreover have "il_record l = rg_key g"
      using out Inr by (auto simp: inbound_link_of_def split: option.splits sum.splits if_splits)
    ultimately show thesis using added keeps by blast
  qed
qed

lemma push_outbound_keeps [simp]:
  "tr_type (push_outbound g d r) = tr_type r" "tr_clock (push_outbound g d r) = tr_clock r"
  "tr_inbound (push_outbound g d r) = tr_inbound r"
  by (simp_all add: push_outbound_def Let_def push_config_error_def add_outbound_connector_def
      split: sum.splits option.splits prod.splits)

text \<open>A record keeps its type and stays unbound; its inbound links produce into it.\<close>

definition record_config_inv :: "string \<Rightarrow> nat \<Rightarrow> ('v, 'j, 'f) typed_record \<Rightarrow> bool" where
  "record_config_inv key ty r \<longleftrightarrow> tr_type r = ty \<and> tr_clock r = None \<and> (\<forall>l \<in> set (tr_inbound r). il_record l = key)"

lemma record_config_inv_new: "record_config_inv key ty (record_new ty)"
  by (simp add: record_config_inv_def record_new_def)

lemma registrar_call_inv:
  assumes "record_config_inv key ty r" and "rg_key g = key"
  shows "record_config_inv key ty (registrar_call g c r)"
proof (cases c)
  case (CallInput d)
  show ?thesis
  proof (cases rule: push_inbound_cases [of g d r])
    case (added l r1)
    then show ?thesis using assms CallInput by (auto simp: record_config_inv_def add_inbound_connector_def)
  next
    case (refused e r1)
    then show ?thesis using assms CallInput by (auto simp: record_config_inv_def push_config_error_def)
  qed
qed (use assms in \<open>auto simp: record_config_inv_def record_op_defs split: option.splits\<close>)

lemma registrar_calls_inv:
  "record_config_inv key ty r \<Longrightarrow> rg_key g = key \<Longrightarrow> record_config_inv key ty (registrar_calls g calls r)"
  unfolding registrar_calls_def by (induction calls arbitrary: r) (simp_all add: registrar_call_inv)

end
