(* ===== verification/Db_Core.thy ===== *)
theory Db_Core
  imports Record_Registrar
begin

text \<open>
  The running database (\<open>AimDbInner\<close> and \<open>AimDb\<close> of \<open>aimdb-core/src/builder.rs\<close>): lookups by key and
  id, typed access, and the type-erased JSON access of remote peers.  The registry is immutable; what
  changes is inside the records (their buffers, the writable flag) and the key tables.
\<close>

text \<open>Build info, name and unique ID; the configuration has the same fields unchecked.\<close>

record identity_config =
  ic_name :: "string option"
  ic_uid :: "bytes option"
  ic_build_info :: "bytes option"

subsection \<open>The database\<close>

record ('v, 'j, 'f) record_entry =
  en_key :: string
  en_type :: nat
  en_record :: "('v, 'j, 'f) typed_record"
  en_key_table :: "key_table option"

record ('v, 'j, 'f) aimdb =
  db_storages :: "('v, 'j, 'f) record_entry list"
  db_by_key :: "string \<rightharpoonup> u32"
  db_graph :: dependency_graph
  db_identity :: identity_config
  db_clock :: nat

definition resolve_str :: "('v, 'j, 'f) aimdb \<Rightarrow> string \<Rightarrow> u32 option" where
  "resolve_str db name = db_by_key db name"

definition entry_of :: "('v, 'j, 'f) aimdb \<Rightarrow> u32 \<Rightarrow> ('v, 'j, 'f) record_entry option" where
  "entry_of db rid =
     (if unat rid < length (db_storages db) then Some (db_storages db ! unat rid) else None)"

definition storage :: "('v, 'j, 'f) aimdb \<Rightarrow> u32 \<Rightarrow> ('v, 'j, 'f) typed_record option" where
  "storage db rid = map_option en_record (entry_of db rid)"

definition key_for :: "('v, 'j, 'f) aimdb \<Rightarrow> u32 \<Rightarrow> string option" where
  "key_for db rid = map_option en_key (entry_of db rid)"

definition as_typed :: "nat \<Rightarrow> ('v, 'j, 'f) typed_record \<Rightarrow> ('v, 'j, 'f) typed_record option" where
  "as_typed ty r = (if tr_type r = ty then Some r else None)"

definition get_typed_record_by_id ::
  "nat \<Rightarrow> ('v, 'j, 'f) aimdb \<Rightarrow> u32 \<Rightarrow> db_error + ('v, 'j, 'f) typed_record" where
  "get_typed_record_by_id ty db rid =
     (case entry_of db rid of
        None \<Rightarrow> Inl (InvalidRecordId rid)
      | Some e \<Rightarrow> (case as_typed ty (en_record e) of None \<Rightarrow> Inl (TypeMismatch rid ty) | Some r \<Rightarrow> Inr r))"

definition get_typed_record_by_key ::
  "nat \<Rightarrow> ('v, 'j, 'f) aimdb \<Rightarrow> string \<Rightarrow> db_error + ('v, 'j, 'f) typed_record" where
  "get_typed_record_by_key ty db key =
     (case resolve_str db key of
        None \<Rightarrow> Inl (RecordKeyNotFound key)
      | Some rid \<Rightarrow> get_typed_record_by_id ty db rid)"

text \<open>A record changed in place, behind its locks.\<close>

definition set_record :: "nat \<Rightarrow> ('v, 'j, 'f) typed_record \<Rightarrow> ('v, 'j, 'f) aimdb \<Rightarrow> ('v, 'j, 'f) aimdb" where
  "set_record i r db = db\<lparr>db_storages := (db_storages db)[i := (db_storages db ! i)\<lparr>en_record := r\<rparr>]\<rparr>"

definition records_of_type :: "nat \<Rightarrow> ('v, 'j, 'f) aimdb \<Rightarrow> u32 list" where
  "records_of_type ty db =
     map (\<lambda>(i, e). of_nat i) (filter (\<lambda>(i, e). en_type e = ty) (enumerate 0 (db_storages db)))"

definition record_count :: "('v, 'j, 'f) aimdb \<Rightarrow> nat" where
  "record_count db = length (db_storages db)"

subsection \<open>Typed access\<close>

text \<open>\<open>produce\<close> resolves the record and pushes through its write handle.\<close>

definition db_produce ::
  "(nat \<Rightarrow> u64) \<Rightarrow> nat \<Rightarrow> string \<Rightarrow> 'v \<Rightarrow> ('v, 'j, 'f) aimdb \<Rightarrow> db_error + ('v, 'j, 'f) aimdb" where
  "db_produce now ty key v db =
     (case resolve_str db key of
        None \<Rightarrow> Inl (RecordKeyNotFound key)
      | Some rid \<Rightarrow>
          (case get_typed_record_by_id ty db rid of
             Inl e \<Rightarrow> Inl e
           | Inr r \<Rightarrow>
               (case writer_handle r of
                  Inl e \<Rightarrow> Inl e
                | Inr c \<Rightarrow> Inr (set_record (unat rid) (writer_push now c v r) db))))"

definition db_latest :: "nat \<Rightarrow> string \<Rightarrow> ('v, 'j, 'f) aimdb \<Rightarrow> db_error + ('v, u64) stamped option" where
  "db_latest ty key db =
     (case get_typed_record_by_key ty db key of Inl e \<Rightarrow> Inl e | Inr r \<Rightarrow> Inr (map_option fst (record_latest r)))"

definition db_subscribe :: "nat \<Rightarrow> string \<Rightarrow> ('v, 'j, 'f) aimdb \<Rightarrow> db_error + reader_state" where
  "db_subscribe ty key db =
     (case get_typed_record_by_key ty db key of Inl e \<Rightarrow> Inl e | Inr r \<Rightarrow> record_subscribe r)"

text \<open>\<open>producer\<close>: a handle is the record it writes and the clock.\<close>

definition db_producer :: "nat \<Rightarrow> string \<Rightarrow> ('v, 'j, 'f) aimdb \<Rightarrow> db_error + (u32 \<times> nat)" where
  "db_producer ty key db =
     (case resolve_str db key of
        None \<Rightarrow> Inl (RecordKeyNotFound key)
      | Some rid \<Rightarrow>
          (case get_typed_record_by_id ty db rid of
             Inl e \<Rightarrow> Inl e
           | Inr r \<Rightarrow> (case writer_handle r of Inl e \<Rightarrow> Inl e | Inr c \<Rightarrow> Inr (rid, c))))"

text \<open>\<open>consumer\<close>: the record whose buffer the handle subscribes to.\<close>

definition db_consumer :: "nat \<Rightarrow> string \<Rightarrow> ('v, 'j, 'f) aimdb \<Rightarrow> db_error + u32" where
  "db_consumer ty key db =
     (case resolve_str db key of
        None \<Rightarrow> Inl (RecordKeyNotFound key)
      | Some rid \<Rightarrow>
          (case get_typed_record_by_id ty db rid of
             Inl e \<Rightarrow> Inl e
           | Inr r \<Rightarrow> if tr_buffer r = None then Inl (MissingConfiguration key) else Inr rid))"

subsection \<open>Remote access\<close>

definition list_records :: "('v, 'j, 'f) aimdb \<Rightarrow> record_metadata list" where
  "list_records db =
     map (\<lambda>(i, e). (collect_metadata (en_type e) (en_key e) (of_nat i) (en_record e))
       \<lparr>rm_inbound_keys := map_option (\<lambda>t.
          \<lparr>ik_captures = map fst (List.map_filter il_key (tr_inbound (en_record e))), ik_capacity = kt_capacity t,
           ik_assigned = length (key_names t), ik_dropped = kt_dropped t\<rparr>) (en_key_table e)\<rparr>)
       (enumerate 0 (db_storages db))"

definition try_latest_as_json :: "string \<Rightarrow> ('v, 'j, 'f) aimdb \<Rightarrow> ('j, u64) stamped option" where
  "try_latest_as_json key db =
     Option.bind (resolve_str db key) (\<lambda>rid. Option.bind (storage db rid) latest_json)"

definition try_latest_as_json_bytes :: "string \<Rightarrow> ('v, 'j, 'f) aimdb \<Rightarrow> (bytes, u64) stamped option" where
  "try_latest_as_json_bytes key db =
     Option.bind (resolve_str db key) (\<lambda>rid. Option.bind (storage db rid) latest_json_bytes)"

text \<open>\<open>storages[id.index()]\<close> would panic on an id out of range; \<open>None\<close> is that panic.\<close>

definition set_record_from_json ::
  "(nat \<Rightarrow> u64) \<Rightarrow> string \<Rightarrow> 'j \<Rightarrow> ('v, 'j, 'f) aimdb \<Rightarrow> (db_error + ('v, 'j, 'f) aimdb) option" where
  "set_record_from_json now key json db =
     (case resolve_str db key of
        None \<Rightarrow> Some (Inl (RecordKeyNotFound key))
      | Some rid \<Rightarrow>
          (case storage db rid of
             None \<Rightarrow> None
           | Some r \<Rightarrow>
               (case set_from_json now json r of
                  Inl e \<Rightarrow> Some (Inl e)
                | Inr r' \<Rightarrow> Some (Inr (set_record (unat rid) r' db)))))"

definition set_writable_erased :: "u32 \<Rightarrow> bool \<Rightarrow> ('v, 'j, 'f) aimdb \<Rightarrow> ('v, 'j, 'f) aimdb" where
  "set_writable_erased rid w db =
     (case storage db rid of None \<Rightarrow> db | Some r \<Rightarrow> set_record (unat rid) (set_writable w r) db)"

definition inbound_key_name :: "string \<Rightarrow> u16 \<Rightarrow> ('v, 'j, 'f) aimdb \<Rightarrow> string option" where
  "inbound_key_name key kid db =
     Option.bind (resolve_str db key) (\<lambda>rid. Option.bind (entry_of db rid) (\<lambda>e.
       Option.bind (en_key_table e) (kt_name kid)))"

subsection \<open>What can happen to a running database\<close>

text \<open>
  Everything that changes a running database: the writes of the API, pushes through a handle,
  receives on a record's buffer, the writable flag, and the assignment of a key.
\<close>

datatype ('v, 'j) db_call =
    DbProduce nat string 'v
  | DbSetJson string 'j
  | DbPush u32 nat 'v
  | DbTryRecv u32 reader_state
  | DbPollRecv u32 nat reader_state
  | DbSetWritable u32 bool
  | DbAssignKey u32 string

definition on_buffer ::
  "u32 \<Rightarrow> (('v, u64) stamped wasm_inner \<Rightarrow> ('v, u64) stamped wasm_inner) \<Rightarrow> ('v, 'j, 'f) aimdb \<Rightarrow> ('v, 'j, 'f) aimdb" where
  "on_buffer rid f db =
     (case storage db rid of
        None \<Rightarrow> db
      | Some r \<Rightarrow> set_record (unat rid) (r\<lparr>tr_buffer := map_option f (tr_buffer r)\<rparr>) db)"

definition assign_key :: "u32 \<Rightarrow> string \<Rightarrow> ('v, 'j, 'f) aimdb \<Rightarrow> ('v, 'j, 'f) aimdb" where
  "assign_key rid name db =
     (case entry_of db rid of
        None \<Rightarrow> db
      | Some e \<Rightarrow>
          db\<lparr>db_storages := (db_storages db)[unat rid :=
               e\<lparr>en_key_table := map_option (\<lambda>t. snd (kt_key name t)) (en_key_table e)\<rparr>]\<rparr>)"

fun db_step :: "(nat \<Rightarrow> u64) \<Rightarrow> ('v, 'j) db_call \<Rightarrow> ('v, 'j, 'f) aimdb \<Rightarrow> ('v, 'j, 'f) aimdb" where
  "db_step now (DbProduce ty key v) db = (case db_produce now ty key v db of Inl _ \<Rightarrow> db | Inr db' \<Rightarrow> db')"
| "db_step now (DbSetJson key json) db =
     (case set_record_from_json now key json db of Some (Inr db') \<Rightarrow> db' | _ \<Rightarrow> db)"
| "db_step now (DbPush rid c v) db =
     on_buffer rid (\<lambda>b. fst (wasm_push \<lparr>st_value = v, st_metadata = now c\<rparr> b)) db"
| "db_step now (DbTryRecv rid rd) db = on_buffer rid (\<lambda>b. fst (snd (wasm_try_recv b rd))) db"
| "db_step now (DbPollRecv rid w rd) db = on_buffer rid (\<lambda>b. fst (snd (wasm_poll_recv w b rd))) db"
| "db_step now (DbSetWritable rid w) db = set_writable_erased rid w db"
| "db_step now (DbAssignKey rid name) db = assign_key rid name db"

definition db_run :: "(nat \<Rightarrow> u64) \<Rightarrow> ('v, 'j) db_call list \<Rightarrow> ('v, 'j, 'f) aimdb \<Rightarrow> ('v, 'j, 'f) aimdb" where
  "db_run now calls db = fold (db_step now) calls db"

subsection \<open>What a running database keeps\<close>

text \<open>The configuration a buffer was created with stays visible in it.\<close>

fun buffer_kind :: "'a wasm_inner \<Rightarrow> buffer_cfg" where
  "buffer_kind (SpmcRing ring capacity write_seq wakers) = CfgSpmcRing capacity"
| "buffer_kind (SingleLatest slot version wakers) = CfgSingleLatest"
| "buffer_kind (Mailbox slot wakers) = CfgMailbox"

lemma kind_push [simp]: "buffer_kind (fst (wasm_push v b)) = buffer_kind b"
  by (cases b) simp_all

lemma kind_recv [simp]: "buffer_kind (fst (snd (wasm_try_recv b rd))) = buffer_kind b"
  by (cases "(b, rd)" rule: wasm_try_recv.cases) (auto simp: Let_def split: option.splits)

lemma kind_waker [simp]: "buffer_kind (register_waker w b) = buffer_kind b"
  by (cases b) simp_all

lemma kind_poll [simp]: "buffer_kind (fst (snd (wasm_poll_recv w b rd))) = buffer_kind b"
proof -
  obtain res b' rd' where t: "wasm_try_recv b rd = (res, b', rd')" by (metis prod_cases3)
  then have "buffer_kind b' = buffer_kind b" using kind_recv [of b rd] by simp
  then show ?thesis using t by (cases res) (simp_all add: wasm_poll_recv_def)
qed

text \<open>Only the contents of a buffer and the writable flag of a record change, and key tables.\<close>

definition same_record :: "('v, 'j, 'f) typed_record \<Rightarrow> ('v, 'j, 'f) typed_record \<Rightarrow> bool" where
  "same_record r r' \<longleftrightarrow> r' = r\<lparr>tr_buffer := tr_buffer r', tr_writable := tr_writable r'\<rparr>
     \<and> map_option buffer_kind (tr_buffer r') = map_option buffer_kind (tr_buffer r)"

definition same_entry :: "('v, 'j, 'f) record_entry \<Rightarrow> ('v, 'j, 'f) record_entry \<Rightarrow> bool" where
  "same_entry e e' \<longleftrightarrow> en_key e' = en_key e \<and> en_type e' = en_type e \<and> same_record (en_record e) (en_record e')"

definition same_shape :: "('v, 'j, 'f) aimdb \<Rightarrow> ('v, 'j, 'f) aimdb \<Rightarrow> bool" where
  "same_shape db db' \<longleftrightarrow> db' = db\<lparr>db_storages := db_storages db'\<rparr>
     \<and> list_all2 same_entry (db_storages db) (db_storages db')"

lemma same_record_refl [simp]: "same_record r r"
  by (simp add: same_record_def)

lemma same_entry_refl [simp]: "same_entry e e"
  by (simp add: same_entry_def)

lemma same_shape_refl [simp]: "same_shape db db"
  by (simp add: same_shape_def list_all2_refl)

lemma same_record_keeps:
  assumes "same_record r r'"
  shows "tr_type r' = tr_type r" "tr_producer r' = tr_producer r" "tr_consumers r' = tr_consumers r"
    "tr_transform r' = tr_transform r" "tr_clock r' = tr_clock r" "tr_outbound r' = tr_outbound r"
    "tr_inbound r' = tr_inbound r" "tr_codec r' = tr_codec r" "tr_buffer r' = None \<longleftrightarrow> tr_buffer r = None"
    "map_option buffer_kind (tr_buffer r') = map_option buffer_kind (tr_buffer r)"
proof -
  obtain b w where "r' = r\<lparr>tr_buffer := b, tr_writable := w\<rparr>"
    and kind: "map_option buffer_kind (tr_buffer r') = map_option buffer_kind (tr_buffer r)"
    using assms by (auto simp: same_record_def)
  moreover from kind have "tr_buffer r' = None \<longleftrightarrow> tr_buffer r = None" by (metis option.map_disc_iff)
  ultimately show "tr_type r' = tr_type r" "tr_producer r' = tr_producer r" "tr_consumers r' = tr_consumers r"
    "tr_transform r' = tr_transform r" "tr_clock r' = tr_clock r" "tr_outbound r' = tr_outbound r"
    "tr_inbound r' = tr_inbound r" "tr_codec r' = tr_codec r" "tr_buffer r' = None \<longleftrightarrow> tr_buffer r = None"
    "map_option buffer_kind (tr_buffer r') = map_option buffer_kind (tr_buffer r)"
    by simp_all
qed

lemma same_record_trans: "same_record r s \<Longrightarrow> same_record s t \<Longrightarrow> same_record r t"
  by (cases r; cases s; cases t) (simp add: same_record_def)

lemma same_shape_trans:
  assumes "same_shape a b" and "same_shape b c"
  shows "same_shape a c"
proof -
  have "same_entry x z" if "same_entry x y" "same_entry y z" for x y z :: "('a, 'b, 'c) record_entry"
    using that by (auto simp: same_entry_def intro: same_record_trans)
  then have "list_all2 same_entry (db_storages a) (db_storages c)"
    by (rule list_all2_trans) (use assms in \<open>auto simp: same_shape_def\<close>)
  moreover have "c = a\<lparr>db_storages := db_storages c\<rparr>"
    using assms by (cases a; cases b; cases c) (auto simp: same_shape_def)
  ultimately show ?thesis by (simp add: same_shape_def)
qed

lemma same_record_buffer [simp]:
  "(\<And>b. buffer_kind (f b) = buffer_kind b) \<Longrightarrow> same_record r (r\<lparr>tr_buffer := map_option f (tr_buffer r)\<rparr>)"
  by (cases "tr_buffer r") (simp_all add: same_record_def)

lemma same_record_push [simp]: "same_record r (writer_push now c v r)"
  by (auto simp: same_record_def writer_push_def split: option.splits)

lemma same_record_json: "set_from_json now json r = Inr r' \<Longrightarrow> same_record r r'"
  by (auto simp: set_from_json_def commit_remote_write_def split: sum.splits option.splits)

lemma entry_of_Some: "entry_of db rid = Some e \<longleftrightarrow> unat rid < length (db_storages db) \<and> e = db_storages db ! unat rid"
  by (auto simp: entry_of_def)

lemma storage_Some:
  "storage db rid = Some r \<longleftrightarrow> unat rid < length (db_storages db) \<and> r = en_record (db_storages db ! unat rid)"
  by (auto simp: storage_def entry_of_Some)

lemma get_typed_Inr:
  "get_typed_record_by_id ty db rid = Inr r \<longleftrightarrow> storage db rid = Some r \<and> tr_type r = ty"
  by (auto simp: get_typed_record_by_id_def storage_def as_typed_def split: option.splits if_splits)

lemma same_shape_update:
  assumes "i < length (db_storages db)" and "same_entry (db_storages db ! i) e"
  shows "same_shape db (db\<lparr>db_storages := (db_storages db)[i := e]\<rparr>)"
  using assms by (auto simp: same_shape_def list_all2_conv_all_nth nth_list_update)

lemma same_shape_set_record:
  "storage db rid = Some r \<Longrightarrow> same_record r r' \<Longrightarrow> same_shape db (set_record (unat rid) r' db)"
  unfolding set_record_def by (rule same_shape_update) (auto simp: storage_Some same_entry_def)

lemma same_shape_step: "same_shape db (db_step now c db)"
proof (cases c)
  case (DbProduce ty key v)
  then show ?thesis
    by (auto simp: db_produce_def get_typed_Inr intro: same_shape_set_record split: sum.splits option.splits)
next
  case (DbSetJson key json)
  then show ?thesis
    by (auto simp: set_record_from_json_def intro: same_shape_set_record dest!: same_record_json
        split: sum.splits option.splits)
next
  case (DbAssignKey rid name)
  then show ?thesis
    by (auto simp: assign_key_def entry_of_Some same_entry_def intro!: same_shape_update split: option.splits)
next
  case (DbSetWritable rid w)
  then show ?thesis
    by (auto simp: set_writable_erased_def set_writable_def same_record_def
        intro!: same_shape_set_record split: option.splits)
qed (auto simp: on_buffer_def intro!: same_shape_set_record split: option.splits)

lemma same_shape_run: "same_shape db (db_run now calls db)"
proof -
  have "same_shape db (fold (db_step now) calls db)" for db :: "('a, 'b, 'c) aimdb"
    by (induction calls arbitrary: db) (auto intro: same_shape_trans same_shape_step)
  then show ?thesis by (simp add: db_run_def)
qed

subsection \<open>The invariant\<close>

text \<open>The index is exact; every record has its declared type and the instance's clock; what links or
  remote access rely on has a buffer; inbound links produce into their own record.\<close>

definition entry_ok :: "nat \<Rightarrow> ('v, 'j, 'f) record_entry \<Rightarrow> bool" where
  "entry_ok c e \<longleftrightarrow>
     (case en_record e of r \<Rightarrow>
        tr_type r = en_type e \<and> tr_clock r = Some c
        \<and> (tr_codec r \<noteq> None \<or> tr_outbound r \<noteq> [] \<or> tr_inbound r \<noteq> [] \<longrightarrow> tr_buffer r \<noteq> None)
        \<and> (\<forall>l \<in> set (tr_inbound r). il_record l = en_key e))"

definition db_ok :: "('v, 'j, 'f) aimdb \<Rightarrow> bool" where
  "db_ok db \<longleftrightarrow> length (db_storages db) < 2 ^ 32
     \<and> (\<forall>k rid. db_by_key db k = Some rid \<longleftrightarrow>
          unat rid < length (db_storages db) \<and> en_key (db_storages db ! unat rid) = k)
     \<and> list_all (entry_ok (db_clock db)) (db_storages db)"

lemma entry_ok_same: "entry_ok c e \<Longrightarrow> same_entry e e' \<Longrightarrow> entry_ok c e'"
  using same_record_keeps [of "en_record e" "en_record e'"] by (simp add: entry_ok_def same_entry_def)

lemma same_shape_nth:
  assumes "same_shape db db'"
  shows "length (db_storages db') = length (db_storages db)"
    and "i < length (db_storages db) \<Longrightarrow> same_entry (db_storages db ! i) (db_storages db' ! i)"
    and "db_by_key db' = db_by_key db" and "db_clock db' = db_clock db" and "db_graph db' = db_graph db"
proof -
  have eq: "db' = db\<lparr>db_storages := db_storages db'\<rparr>" using assms by (simp add: same_shape_def)
  show "db_by_key db' = db_by_key db" "db_clock db' = db_clock db" "db_graph db' = db_graph db"
    by (subst eq, simp)+
  show "length (db_storages db') = length (db_storages db)"
    and "i < length (db_storages db) \<Longrightarrow> same_entry (db_storages db ! i) (db_storages db' ! i)"
    using assms by (auto simp: same_shape_def list_all2_conv_all_nth)
qed

lemma db_ok_same:
  assumes "db_ok db" and "same_shape db db'"
  shows "db_ok db'"
proof -
  note keeps = same_shape_nth [OF assms(2)]
  have "en_key (db_storages db' ! i) = en_key (db_storages db ! i)" if "i < length (db_storages db)" for i
    using keeps(2) [OF that] by (simp add: same_entry_def)
  moreover have "entry_ok (db_clock db) (db_storages db' ! i)" if "i < length (db_storages db)" for i
    by (rule entry_ok_same [OF _ keeps(2) [OF that]]) (use assms(1) that in \<open>auto simp: db_ok_def list_all_length\<close>)
  ultimately show ?thesis using assms(1) by (auto simp: db_ok_def keeps list_all_length)
qed

lemma db_ok_lookup:
  assumes "db_ok db" and "i < length (db_storages db)"
  shows "db_by_key db (en_key (db_storages db ! i)) = Some (of_nat i)"
    and "unat (of_nat i :: u32) = i"
proof -
  show "unat (of_nat i :: u32) = i" using assms by (simp add: db_ok_def unat_of_nat)
  then show "db_by_key db (en_key (db_storages db ! i)) = Some (of_nat i)" using assms by (simp add: db_ok_def)
qed

end
