(* ===== verification/Db_Builder.thy ===== *)
theory Db_Builder
  imports Db_Core
begin

text \<open>
  \<open>AimDbBuilder\<close> of \<open>aimdb-core/src/builder.rs\<close>: registration, the validation pass, the registry,
  and the futures \<open>build\<close> collects for the runner; the identity check of \<open>identity.rs\<close>.

  A connector's \<open>build\<close> and the parser of build-info sections are code of other crates and
  parameters.  \<open>HashMap\<close>s are maps: the code iterates over none of them.  \<open>None\<close> is the panic of the
  dependency graph, which cannot happen (\<open>Dependency_Graph\<close>).
\<close>

subsection \<open>Identity\<close>

definition name_max :: nat where "name_max = 128"
definition uid_max :: nat where "uid_max = 32"

text \<open>\<open>freeze\<close>: the identity and its mistakes; \<open>check\<close> is \<open>check_build_info\<close>.\<close>

definition identity_freeze ::
  "(bytes \<Rightarrow> string + bytes) \<Rightarrow> identity_config \<Rightarrow> identity_config \<times> string list" where
  "identity_freeze check c =
     (let es = (case ic_name c of Some n \<Rightarrow> if name_max < length n then [''name''] else [] | None \<Rightarrow> [])
             @ (case ic_uid c of Some u \<Rightarrow> if uid_max < length u then [''uid''] else [] | None \<Rightarrow> [])
      in case ic_build_info c of
           None \<Rightarrow> (c, es)
         | Some bs \<Rightarrow>
             (case check bs of
                Inl e \<Rightarrow> (c\<lparr>ic_build_info := None\<rparr>, es @ [e])
              | Inr section \<Rightarrow> (c\<lparr>ic_build_info := Some section\<rparr>, es)))"

subsection \<open>The builder\<close>

record ('v, 'j, 'f) builder =
  bd_records :: "(string \<times> nat \<times> ('v, 'j, 'f) typed_record) list"
  bd_index :: "string \<rightharpoonup> nat"
  bd_runtime :: "nat option"
  bd_connectors :: "connector list"
  bd_id :: u32
  bd_spawn_fns :: "(string \<times> nat) list"
  bd_start_fns :: "'f list"
  bd_errors :: "config_error list"
  bd_identity :: identity_config
  bd_seed :: "u64 option"

text \<open>\<open>new\<close>, with the id the global counter gave; a runtime is the clock it will create.\<close>

definition builder_new :: "u32 \<Rightarrow> ('v, 'j, 'f) builder" where
  "builder_new bid =
     \<lparr>bd_records = [], bd_index = (\<lambda>_. None), bd_runtime = None, bd_connectors = [], bd_id = bid,
      bd_spawn_fns = [], bd_start_fns = [], bd_errors = [],
      bd_identity = \<lparr>ic_name = None, ic_uid = None, ic_build_info = None\<rparr>, bd_seed = None\<rparr>"

definition registrar_for :: "string \<Rightarrow> ('v, 'j, 'f) builder \<Rightarrow> registrar" where
  "registrar_for key b = \<lparr>rg_connectors = bd_connectors b, rg_builder = bd_id b, rg_key = key\<rparr>"

text \<open>\<open>configure\<close>: a record keeps the type it was created with, so the downcasts cannot fail.\<close>

definition configure ::
  "nat \<Rightarrow> string \<Rightarrow> ('v, 'j, 'f) reg_call list \<Rightarrow> ('v, 'j, 'f) builder \<Rightarrow> ('v, 'j, 'f) builder" where
  "configure ty key calls b =
     (case bd_index b key of
        Some i \<Rightarrow>
          (case bd_records b ! i of (k, existing, r) \<Rightarrow>
             if existing \<noteq> ty
             then b\<lparr>bd_errors := bd_errors b @ [config_error key None KeyTypeConflict]\<rparr>
             else b\<lparr>bd_records :=
                     (bd_records b)[i := (k, existing, registrar_calls (registrar_for key b) calls r)]\<rparr>)
      | None \<Rightarrow>
          b\<lparr>bd_index := (bd_index b)(key \<mapsto> length (bd_records b)),
            bd_records := bd_records b
              @ [(key, ty, registrar_calls (registrar_for key b) calls (record_new ty))],
            bd_spawn_fns := bd_spawn_fns b @ [(key, ty)]\<rparr>)"

definition connect_handle :: "connector \<Rightarrow> ('v, 'j, 'f) builder \<Rightarrow> connector_handle \<times> ('v, 'j, 'f) builder" where
  "connect_handle c b =
     (\<lparr>hd_builder = bd_id b,
       hd_index = (if length (bd_connectors b) < 2 ^ 16 then of_nat (length (bd_connectors b)) else - 1)\<rparr>,
      b\<lparr>bd_connectors := bd_connectors b @ [c]\<rparr>)"

text \<open>For evaluation, the bound as a binary number.\<close>

lemma connect_handle_code [code]:
  "connect_handle c b =
     (\<lparr>hd_builder = bd_id b,
       hd_index = (if int (length (bd_connectors b)) < 65536 then of_nat (length (bd_connectors b)) else - 1)\<rparr>,
      b\<lparr>bd_connectors := bd_connectors b @ [c]\<rparr>)"
  by (simp add: connect_handle_def)

datatype ('v, 'j, 'f) builder_call =
    Configure nat string "('v, 'j, 'f) reg_call list"
  | WithConnector connector
  | OnStart 'f
  | WithRuntime nat
  | BuildInfo bytes
  | InstanceName string
  | InstanceUid bytes
  | StartOrderSeed u64

fun builder_step :: "('v, 'j, 'f) builder_call \<Rightarrow> ('v, 'j, 'f) builder \<Rightarrow> ('v, 'j, 'f) builder" where
  "builder_step (Configure ty key calls) b = configure ty key calls b"
| "builder_step (WithConnector c) b = snd (connect_handle c b)"
| "builder_step (OnStart f) b = b\<lparr>bd_start_fns := bd_start_fns b @ [f]\<rparr>"
| "builder_step (WithRuntime c) b = b\<lparr>bd_runtime := Some c\<rparr>"
| "builder_step (BuildInfo bs) b = b\<lparr>bd_identity := (bd_identity b)\<lparr>ic_build_info := Some bs\<rparr>\<rparr>"
| "builder_step (InstanceName n) b = b\<lparr>bd_identity := (bd_identity b)\<lparr>ic_name := Some n\<rparr>\<rparr>"
| "builder_step (InstanceUid u) b = b\<lparr>bd_identity := (bd_identity b)\<lparr>ic_uid := Some u\<rparr>\<rparr>"
| "builder_step (StartOrderSeed s) b = b\<lparr>bd_seed := Some s\<rparr>"

definition builder_run :: "u32 \<Rightarrow> ('v, 'j, 'f) builder_call list \<Rightarrow> ('v, 'j, 'f) builder" where
  "builder_run bid calls = fold builder_step calls (builder_new bid)"

subsection \<open>The validation pass\<close>

definition fill_key :: "string \<Rightarrow> config_error \<Rightarrow> config_error" where
  "fill_key key e = (if ce_record_key e = '''' then e\<lparr>ce_record_key := key\<rparr> else e)"

definition writer_kinds :: "('v, 'j, 'f) typed_record \<Rightarrow> string list" where
  "writer_kinds r =
     (if has_producer r then [''source''] else []) @ (if has_transform r then [''transform''] else [])
     @ (if tr_inbound r \<noteq> [] then [''inbound link''] else [])"

definition first_inbound_url :: "('v, 'j, 'f) typed_record \<Rightarrow> string option" where
  "first_inbound_url r = (case tr_inbound r of [] \<Rightarrow> None | l # _ \<Rightarrow> Some (url_text (il_url l)))"

definition first_link_url :: "('v, 'j, 'f) typed_record \<Rightarrow> string option" where
  "first_link_url r = (case tr_outbound r of l # _ \<Rightarrow> Some (url_text (cl_url l)) | [] \<Rightarrow> first_inbound_url r)"

definition has_links :: "('v, 'j, 'f) typed_record \<Rightarrow> bool" where
  "has_links r \<longleftrightarrow> tr_outbound r \<noteq> [] \<or> tr_inbound r \<noteq> []"

text \<open>One record: its findings, and the record with its mistakes drained.\<close>

definition check_record ::
  "string \<Rightarrow> ('v, 'j, 'f) typed_record \<Rightarrow> config_error list \<times> ('v, 'j, 'f) typed_record" where
  "check_record key r =
     (case drain_config_errors r of (es, r') \<Rightarrow>
        (map (fill_key key) es
           @ (if 1 < length (writer_kinds r')
              then [config_error key (first_inbound_url r') (ConflictingWriters (writer_kinds r'))] else [])
           @ (if has_links r' \<and> \<not> has_buffer r'
              then [config_error key (first_link_url r') LinkedWithoutBuffer] else []),
         r'))"

text \<open>The registry: entries in registration order, a repeated key reported and skipped.\<close>

type_synonym ('v, 'j, 'f) registry =
  "('v, 'j, 'f) record_entry list \<times> (string \<rightharpoonup> u32) \<times> config_error list"

definition key_capacity :: "('v, 'j, 'f) typed_record \<Rightarrow> u16 option" where
  "key_capacity r = (case List.map_filter il_key (tr_inbound r) of [] \<Rightarrow> None | (_, capacity) # _ \<Rightarrow> Some capacity)"

fun register_records ::
  "(string \<times> nat \<times> ('v, 'j, 'f) typed_record) list \<Rightarrow> ('v, 'j, 'f) registry \<Rightarrow> ('v, 'j, 'f) registry" where
  "register_records [] reg = reg"
| "register_records ((key, ty, r) # rest) (storages, index, errors) =
     (if index key \<noteq> None
      then register_records rest (storages, index, errors @ [config_error key None DuplicateRecordKey])
      else register_records rest
        (storages @ [\<lparr>en_key = key, en_type = ty, en_record = r, en_key_table = map_option kt_new (key_capacity r)\<rparr>],
         index(key \<mapsto> of_nat (length storages)), errors))"

definition input_error ::
  "('v, 'j, 'f) record_entry list \<Rightarrow> (string \<rightharpoonup> u32) \<Rightarrow> string \<Rightarrow> string \<times> nat \<Rightarrow> config_error list" where
  "input_error storages index key input =
     (case index (fst input) of
        None \<Rightarrow> []
      | Some rid \<Rightarrow>
          if unat rid < length storages \<and> en_type (storages ! unat rid) \<noteq> snd input
          then [config_error key None
                 (InputTypeMismatch (fst input) (snd input) (tr_type (en_record (storages ! unat rid))))]
          else [])"

definition input_errors ::
  "('v, 'j, 'f) record_entry list \<Rightarrow> (string \<rightharpoonup> u32) \<Rightarrow> config_error list" where
  "input_errors storages index =
     concat (map (\<lambda>e. concat (map (input_error storages index (en_key e))
                       (transform_input_types (en_record e)))) storages)"

definition graph_node_for :: "('v, 'j, 'f) record_entry \<Rightarrow> graph_node" where
  "graph_node_for e =
     (let r = en_record e; links = map (url_text \<circ> cl_url) (tr_outbound r) in
      \<lparr>node_key = en_key e, node_origin = record_origin_of r, buffer_type = fst (buffer_info r),
       buffer_capacity = snd (buffer_info r), tap_count = consumer_count r,
       has_outbound_link = (links \<noteq> []), outbound_links = links, node_schema = tr_schema r\<rparr>)"

definition bind_clocks :: "nat \<Rightarrow> ('v, 'j, 'f) record_entry list \<Rightarrow> ('v, 'j, 'f) record_entry list" where
  "bind_clocks c es = map (\<lambda>e. e\<lparr>en_record := bind_clock c (en_record e)\<rparr>) es"

text \<open>Everything before the first effect: all mistakes, or the database.\<close>

definition build_registry ::
  "(bytes \<Rightarrow> string + bytes) \<Rightarrow> ('v, 'j, 'f) builder \<Rightarrow> (db_error + ('v, 'j, 'f) aimdb) option" where
  "build_registry check b =
     (let (identity, identity_errors) = identity_freeze check (bd_identity b);
          checked = map (\<lambda>(key, ty, r). (key, ty, check_record key r)) (bd_records b);
          errors1 = bd_errors b @ map (\<lambda>m. config_error '''' None (IdentityRejected m)) identity_errors
            @ concat (map (\<lambda>(key, ty, es, r). es) checked)
            @ (if bd_runtime b = None then [config_error '''' None RuntimeNotSet] else []);
          (storages, index, errors2) =
            register_records (map (\<lambda>(key, ty, es, r). (key, ty, r)) checked) ([], \<lambda>_. None, errors1);
          errors = errors2 @ input_errors storages index
      in case build_and_validate_seeded (map graph_node_for storages) (bd_seed b) of
           None \<Rightarrow> None
         | Some (Inl e) \<Rightarrow>
             Some (Inl (InvalidConfiguration (errors @ [config_error '''' None (GraphRejected e)])))
         | Some (Inr graph) \<Rightarrow>
             (case (bd_runtime b, errors) of
                (Some c, []) \<Rightarrow>
                  Some (Inr \<lparr>db_storages = bind_clocks c storages, db_by_key = index, db_graph = graph,
                             db_identity = identity, db_clock = c\<rparr>)
              | _ \<Rightarrow> Some (Inl (InvalidConfiguration errors))))"

subsection \<open>Collecting the futures\<close>

definition spawn_fn ::
  "nat \<Rightarrow> u32 \<Rightarrow> ('v, 'j, 'f) aimdb \<Rightarrow> (db_error + 'f future list) \<times> ('v, 'j, 'f) aimdb" where
  "spawn_fn ty rid db =
     (case get_typed_record_by_id ty db rid of
        Inl e \<Rightarrow> (Inl e, db)
      | Inr r \<Rightarrow>
          (case collect_all_futures ty (case key_for db rid of Some k \<Rightarrow> k | None \<Rightarrow> ''__record_'') r of
             (res, r') \<Rightarrow> (res, set_record (unat rid) r' db)))"

fun collect_in_order ::
  "string list \<Rightarrow> (string \<rightharpoonup> nat) \<Rightarrow> ('v, 'j, 'f) aimdb
   \<Rightarrow> (db_error + 'f future list) \<times> ('v, 'j, 'f) aimdb" where
  "collect_in_order [] spawns db = (Inr [], db)"
| "collect_in_order (key # keys) spawns db =
     (case db_by_key db key of
        None \<Rightarrow> collect_in_order keys spawns db
      | Some rid \<Rightarrow>
          (case spawns key of
             None \<Rightarrow> collect_in_order keys spawns db
           | Some ty \<Rightarrow>
               (case spawn_fn ty rid db of
                  (Inl e, db') \<Rightarrow> (Inl e, db')
                | (Inr fs, db') \<Rightarrow>
                    (case collect_in_order keys (spawns(key := None)) db' of
                       (Inl e, db'') \<Rightarrow> (Inl e, db'')
                     | (Inr gs, db'') \<Rightarrow> (Inr (fs @ gs), db'')))))"

definition duplicate_scheme :: "connector list \<Rightarrow> nat \<Rightarrow> config_error list \<Rightarrow> config_error list" where
  "duplicate_scheme cs i found =
     (let c = cs ! i in
      if \<not> cn_owns c then found
      else if position (\<lambda>e. cn_scheme e = cn_scheme c) (take i cs) \<noteq> None
              \<and> \<not> list_ex (\<lambda>e. ce_url e = Some (cn_scheme c)) found
      then found @ [config_error '''' (Some (cn_scheme c)) (SchemeOwnedTwice (cn_scheme c))]
      else found)"

definition duplicate_schemes :: "connector list \<Rightarrow> config_error list" where
  "duplicate_schemes cs = fold (duplicate_scheme cs) [0..<length cs] []"

text \<open>
  \<open>connect c db\<close> is a connector's \<open>build\<close>: an error or its futures, and the calls it made on the
  database meanwhile (a session server marks records writable), each with the clock as it read then.
\<close>

type_synonym ('v, 'j, 'f) connect =
  "connector \<Rightarrow> ('v, 'j, 'f) aimdb \<Rightarrow> (db_error + 'f list) \<times> ((nat \<Rightarrow> u64) \<times> ('v, 'j) db_call) list"

definition connector_effects ::
  "((nat \<Rightarrow> u64) \<times> ('v, 'j) db_call) list \<Rightarrow> ('v, 'j, 'f) aimdb \<Rightarrow> ('v, 'j, 'f) aimdb" where
  "connector_effects calls db = fold (\<lambda>(now, c). db_step now c) calls db"

fun build_connectors ::
  "('v, 'j, 'f) connect \<Rightarrow> connector list \<Rightarrow> ('v, 'j, 'f) aimdb
   \<Rightarrow> (db_error + 'f future list) \<times> ('v, 'j, 'f) aimdb" where
  "build_connectors connect [] db = (Inr [], db)"
| "build_connectors connect (c # cs) db =
     (case connect c db of
        (Inl e, calls) \<Rightarrow> (Inl e, connector_effects calls db)
      | (Inr fs, calls) \<Rightarrow>
          (case build_connectors connect cs (connector_effects calls db) of
             (Inl e, db') \<Rightarrow> (Inl e, db')
           | (Inr gs, db') \<Rightarrow> (Inr (map ConnectorTask fs @ gs), db')))"

definition build_db ::
  "(bytes \<Rightarrow> string + bytes) \<Rightarrow> ('v, 'j, 'f) connect \<Rightarrow> ('v, 'j, 'f) builder
   \<Rightarrow> (db_error + ('v, 'j, 'f) aimdb \<times> 'f future list) option" where
  "build_db check connect b =
     (case build_registry check b of
        None \<Rightarrow> None
      | Some (Inl e) \<Rightarrow> Some (Inl e)
      | Some (Inr db) \<Rightarrow>
          (case collect_in_order (topo_order (db_graph db)) (map_of (rev (bd_spawn_fns b))) db of
             (Inl e, _) \<Rightarrow> Some (Inl e)
           | (Inr fs, db1) \<Rightarrow>
               if duplicate_schemes (bd_connectors b) \<noteq> []
               then Some (Inl (InvalidConfiguration (duplicate_schemes (bd_connectors b))))
               else
                 (case build_connectors connect (bd_connectors b) db1 of
                    (Inl e, _) \<Rightarrow> Some (Inl e)
                  | (Inr gs, db2) \<Rightarrow> Some (Inr (db2, fs @ gs @ map StartTask (bd_start_fns b))))))"

subsection \<open>What configuring keeps\<close>

lemma map_update_same: "i < length xs \<Longrightarrow> g y = g (xs ! i) \<Longrightarrow> map g (xs[i := y]) = map g xs"
  by (metis list_update_id map_update)

definition builder_inv :: "('v, 'j, 'f) builder \<Rightarrow> bool" where
  "builder_inv b \<longleftrightarrow> distinct (map fst (bd_records b))
     \<and> (\<forall>k i. bd_index b k = Some i \<longleftrightarrow> i < length (bd_records b) \<and> fst (bd_records b ! i) = k)
     \<and> (\<forall>(k, ty, r) \<in> set (bd_records b). record_config_inv k ty r)
     \<and> bd_spawn_fns b = map (\<lambda>(k, ty, r). (k, ty)) (bd_records b)"

lemma builder_inv_new: "builder_inv (builder_new bid)"
  by (simp add: builder_inv_def builder_new_def)

lemma configure_known:
  assumes "builder_inv b" and "bd_index b key = Some i"
  shows "builder_inv (configure ty key calls b)"
proof -
  obtain ty' r where i: "i < length (bd_records b)" "bd_records b ! i = (key, ty', r)"
    using assms by (cases "bd_records b ! i") (auto simp: builder_inv_def)
  let ?r' = "registrar_calls (registrar_for key b) calls r"
  have "record_config_inv key ty' r" using assms i nth_mem [OF i(1)] by (fastforce simp: builder_inv_def)
  then have r': "record_config_inv key ty' ?r'"
    by (rule registrar_calls_inv) (simp add: registrar_for_def)
  have fst_same: "fst ((bd_records b)[i := (key, ty', ?r')] ! j) = fst (bd_records b ! j)" if "j < length (bd_records b)" for j
    using i that by (cases "j = i") auto
  show ?thesis
  proof (cases "ty' = ty")
    case True
    then have c: "configure ty key calls b = b\<lparr>bd_records := (bd_records b)[i := (key, ty', ?r')]\<rparr>"
      using assms(2) i by (simp add: configure_def)
    have "\<forall>x \<in> set ((bd_records b)[i := (key, ty', ?r')]). case x of (k, t, r) \<Rightarrow> record_config_inv k t r"
      using assms(1) r' set_update_subset_insert [of "bd_records b" i "(key, ty', ?r')"]
      by (auto simp: builder_inv_def)
    then show ?thesis
      using assms(1) i fst_same unfolding builder_inv_def c
      by (simp add: map_update_same cong: conj_cong)
  next
    case False
    then have "configure ty key calls b = b\<lparr>bd_errors := bd_errors b @ [config_error key None KeyTypeConflict]\<rparr>"
      using assms(2) i by (simp add: configure_def)
    then show ?thesis using assms(1) by (simp add: builder_inv_def)
  qed
qed

lemma configure_fresh:
  assumes "builder_inv b" and "bd_index b key = None"
  shows "builder_inv (configure ty key calls b)"
proof -
  have fresh: "key \<notin> set (map fst (bd_records b))"
  proof
    assume "key \<in> set (map fst (bd_records b))"
    then obtain i where "i < length (bd_records b)" "fst (bd_records b ! i) = key"
      by (auto simp: in_set_conv_nth)
    then have "bd_index b key = Some i" using assms(1) by (simp add: builder_inv_def)
    then show False using assms(2) by simp
  qed
  have "record_config_inv key ty (registrar_calls (registrar_for key b) calls (record_new ty))"
    by (rule registrar_calls_inv [OF record_config_inv_new]) (simp add: registrar_for_def)
  moreover have "configure ty key calls b = b\<lparr>bd_index := (bd_index b)(key \<mapsto> length (bd_records b)),
            bd_records := bd_records b
              @ [(key, ty, registrar_calls (registrar_for key b) calls (record_new ty))],
            bd_spawn_fns := bd_spawn_fns b @ [(key, ty)]\<rparr>"
    using assms(2) by (simp add: configure_def)
  ultimately show ?thesis
    using assms(1) fresh by (auto simp: builder_inv_def nth_append less_Suc_eq)
qed

lemma builder_inv_step: "builder_inv b \<Longrightarrow> builder_inv (builder_step c b)"
proof (cases c)
  case (Configure ty key calls)
  assume "builder_inv b"
  then show ?thesis using configure_known configure_fresh Configure
    by (cases "bd_index b key") auto
qed (simp_all add: builder_inv_def connect_handle_def)

lemma builder_inv_run: "builder_inv (builder_run bid calls)"
proof -
  have "builder_inv b \<Longrightarrow> builder_inv (fold builder_step calls b)" for b :: "('a, 'b, 'c) builder"
    by (induction calls arbitrary: b) (simp_all add: builder_inv_step)
  then show ?thesis by (simp add: builder_run_def builder_inv_new)
qed

end
