(* ===== verification/Db_Validation.thy ===== *)
theory Db_Validation
  imports Db_Builder
begin

text \<open>
  What \<open>build\<close> accepts and reports, for a builder reached by any sequence of calls: the registry is
  exact, every mistake is reported in one pass, and nothing else is refused.
\<close>

subsection \<open>The registry\<close>

definition entry_for :: "string \<times> nat \<times> ('v, 'j, 'f) typed_record \<Rightarrow> ('v, 'j, 'f) record_entry" where
  "entry_for x = (case x of (key, ty, r) \<Rightarrow>
     \<lparr>en_key = key, en_type = ty, en_record = r, en_key_table = map_option kt_new (key_capacity r)\<rparr>)"

lemma entry_for_simps [simp]:
  "en_key (entry_for x) = fst x" "en_type (entry_for x) = fst (snd x)" "en_record (entry_for x) = snd (snd x)"
  by (simp_all add: entry_for_def split: prod.splits)

lemma register_records_distinct:
  assumes "distinct (map fst xs)" and "\<forall>k \<in> fst ` set xs. index k = None"
  shows "register_records xs (storages, index, errors) =
     (storages @ map entry_for xs,
      \<lambda>k. (case position (\<lambda>x. fst x = k) xs of
             None \<Rightarrow> index k | Some i \<Rightarrow> Some (of_nat (length storages + i))),
      errors)"
  using assms
proof (induction xs arbitrary: storages index)
  case Nil
  then show ?case by simp
next
  case (Cons x xs)
  obtain key ty r where x: "x = (key, ty, r)" by (cases x)
  let ?index = "index(key \<mapsto> of_nat (length storages))"
  have fresh: "\<forall>k \<in> fst ` set xs. ?index k = None" using Cons.prems x by auto
  have gone: "position (\<lambda>y. fst y = key) xs = None" using Cons.prems x by (auto simp: position_None)
  have step: "register_records (x # xs) (storages, index, errors)
      = register_records xs (storages @ [entry_for x], ?index, errors)"
    using Cons.prems x by (simp add: entry_for_def)
  have lookup: "(case position (\<lambda>y. fst y = k) xs of
            None \<Rightarrow> ?index k | Some i \<Rightarrow> Some (of_nat (length (storages @ [entry_for x]) + i)))
      = (case position (\<lambda>y. fst y = k) (x # xs) of
            None \<Rightarrow> index k | Some i \<Rightarrow> Some (of_nat (length storages + i)))" for k
    using gone x by (cases "k = key") (auto split: option.splits)
  have "distinct (map fst xs)" using Cons.prems by simp
  from Cons.IH [OF this fresh, of "storages @ [entry_for x]"] show ?case
    by (simp only: step lookup append_assoc append_Cons append_Nil list.map)
qed

definition clean :: "('v, 'j, 'f) typed_record \<Rightarrow> ('v, 'j, 'f) typed_record" where
  "clean r = r\<lparr>tr_errors := []\<rparr>"

lemma clean_simps [simp]:
  "tr_type (clean r) = tr_type r" "tr_producer (clean r) = tr_producer r" "tr_consumers (clean r) = tr_consumers r"
  "tr_transform (clean r) = tr_transform r" "tr_buffer (clean r) = tr_buffer r" "tr_clock (clean r) = tr_clock r"
  "tr_outbound (clean r) = tr_outbound r" "tr_inbound (clean r) = tr_inbound r" "tr_codec (clean r) = tr_codec r"
  "tr_schema (clean r) = tr_schema r" "tr_writable (clean r) = tr_writable r"
  "transform_input_types (clean r) = transform_input_types r" "record_origin_of (clean r) = record_origin_of r"
  by (simp_all add: clean_def transform_input_types_def record_origin_of_def has_producer_def split: option.split list.split)

lemma clean_findings [simp]:
  "writer_kinds (clean r) = writer_kinds r" "has_links (clean r) = has_links r" "has_buffer (clean r) = has_buffer r"
  "first_inbound_url (clean r) = first_inbound_url r" "first_link_url (clean r) = first_link_url r"
  by (simp_all add: writer_kinds_def has_producer_def has_transform_def has_links_def has_buffer_def
      first_inbound_url_def first_link_url_def split: list.split)

lemma drain_clean:
  "drain_config_errors r =
     (tr_errors r @ (if tr_codec r \<noteq> None \<and> tr_buffer r = None then [config_error '''' None RemoteWithoutBuffer] else []),
      clean r)"
  by (simp add: drain_config_errors_def clean_def)

lemma check_record_eq:
  "check_record key r =
     (map (fill_key key) (tr_errors r)
        @ (if tr_codec r \<noteq> None \<and> tr_buffer r = None then [config_error key None RemoteWithoutBuffer] else [])
        @ (if 1 < length (writer_kinds r)
           then [config_error key (first_inbound_url r) (ConflictingWriters (writer_kinds r))] else [])
        @ (if has_links r \<and> \<not> has_buffer r then [config_error key (first_link_url r) LinkedWithoutBuffer] else []),
      clean r)"
  by (simp add: check_record_def drain_clean config_error_def fill_key_def)

text \<open>The records of a builder as the registry sees them.\<close>

definition registered :: "('v, 'j, 'f) builder \<Rightarrow> (string \<times> nat \<times> ('v, 'j, 'f) typed_record) list" where
  "registered b = map (\<lambda>(key, ty, r). (key, ty, clean r)) (bd_records b)"

definition index_of :: "('v, 'j, 'f) builder \<Rightarrow> string \<rightharpoonup> u32" where
  "index_of b k = map_option of_nat (position (\<lambda>x. fst x = k) (bd_records b))"

lemma registered_fst [simp]: "map fst (registered b) = map fst (bd_records b)"
  by (simp add: registered_def case_prod_beta)

lemma length_registered [simp]: "length (registered b) = length (bd_records b)"
  by (simp add: registered_def)

lemma position_map: "position P (map f xs) = position (P \<circ> f) xs"
  by (induction xs) auto

lemma registered_position: "position (\<lambda>x. fst x = k) (registered b) = position (\<lambda>x. fst x = k) (bd_records b)"
  by (simp add: registered_def position_map comp_def case_prod_beta)

definition registry_mistakes :: "(bytes \<Rightarrow> string + bytes) \<Rightarrow> ('v, 'j, 'f) builder \<Rightarrow> config_error list" where
  "registry_mistakes check b =
     bd_errors b
     @ map (\<lambda>m. config_error '''' None (IdentityRejected m)) (snd (identity_freeze check (bd_identity b)))
     @ concat (map (\<lambda>(key, ty, r). fst (check_record key r)) (bd_records b))
     @ (if bd_runtime b = None then [config_error '''' None RuntimeNotSet] else [])
     @ input_errors (map entry_for (registered b)) (index_of b)"

lemma build_registry_eq:
  assumes "builder_inv b"
  shows "build_registry check b =
     (let errors = registry_mistakes check b; storages = map entry_for (registered b) in
      case build_and_validate_seeded (map graph_node_for storages) (bd_seed b) of
        None \<Rightarrow> None
      | Some (Inl e) \<Rightarrow> Some (Inl (InvalidConfiguration (errors @ [config_error '''' None (GraphRejected e)])))
      | Some (Inr graph) \<Rightarrow>
          (case (bd_runtime b, errors) of
             (Some c, []) \<Rightarrow>
               Some (Inr \<lparr>db_storages = bind_clocks c storages, db_by_key = index_of b, db_graph = graph,
                          db_identity = fst (identity_freeze check (bd_identity b)), db_clock = c\<rparr>)
           | _ \<Rightarrow> Some (Inl (InvalidConfiguration errors))))"
proof -
  have reg: "register_records (registered b) ([], \<lambda>_. None, es) = (map entry_for (registered b), index_of b, es)" for es
    using assms
    by (subst register_records_distinct)
      (auto simp: builder_inv_def registered_position index_of_def fun_eq_iff split: option.splits)
  have recs: "map (\<lambda>(key, ty, es, r). (key, ty, r)) (map (\<lambda>(key, ty, r). (key, ty, check_record key r)) (bd_records b))
      = registered b"
    by (simp add: registered_def check_record_eq case_prod_beta)
  have errs: "map (\<lambda>(key, ty, es, r). es) (map (\<lambda>(key, ty, r). (key, ty, check_record key r)) (bd_records b))
      = map (\<lambda>(key, ty, r). fst (check_record key r)) (bd_records b)"
    by (simp add: case_prod_beta)
  show ?thesis
    unfolding build_registry_def Let_def recs errs reg registry_mistakes_def
    by (simp only: case_prod_beta reg fst_conv snd_conv append_assoc)
qed

subsection \<open>The dependencies of the records\<close>

text \<open>A record and an input of its transform.\<close>

definition inputs_of :: "('v, 'j, 'f) builder \<Rightarrow> (string \<times> string) set" where
  "inputs_of b = {(k, i). \<exists>ty r d. (k, ty, r) \<in> set (bd_records b) \<and> tr_transform r = Some d \<and> i \<in> set (td_input_keys d)}"

text \<open>Every input is a record and no record depends on itself.\<close>

definition well_wired :: "('v, 'j, 'f) builder \<Rightarrow> bool" where
  "well_wired b \<longleftrightarrow> snd ` inputs_of b \<subseteq> fst ` set (bd_records b) \<and> acyclic {(i, k). (k, i) \<in> inputs_of b}"

definition nodes_of :: "('v, 'j, 'f) builder \<Rightarrow> graph_node list" where
  "nodes_of b = map graph_node_for (map entry_for (registered b))"

lemma node_keys_of: "node_keys (nodes_of b) = map fst (bd_records b)"
  by (simp add: node_keys_def nodes_of_def graph_node_for_def Let_def comp_def flip: registered_fst)

lemma transform_input_for:
  "transform_input (graph_node_for (entry_for (k, ty, r))) = map_option (\<lambda>d. (k, td_input_keys d)) (tr_transform r)"
  by (auto simp: graph_node_for_def transform_input_def record_origin_of_def Let_def split: option.split list.split)

lemma input_pairs_of: "set (input_pairs (nodes_of b)) = inputs_of b"
proof -
  have "(k, i) \<in> set (input_pairs (nodes_of b)) \<longleftrightarrow> (k, i) \<in> inputs_of b" for k i
    unfolding input_pairs_iff nodes_of_def registered_def inputs_of_def
    by (force simp: transform_input_for)
  then show ?thesis by auto
qed

lemma index_lookup:
  assumes "builder_inv b" and "length (bd_records b) < 2 ^ 32"
  shows "index_of b k = Some rid \<longleftrightarrow> unat rid < length (bd_records b) \<and> fst (bd_records b ! unat rid) = k"
proof
  assume "index_of b k = Some rid"
  then obtain i where i: "position (\<lambda>x. fst x = k) (bd_records b) = Some i" "rid = of_nat i"
    by (auto simp: index_of_def)
  then have "i < length (bd_records b)" by (simp add: position_length)
  moreover from this have "unat rid = i" using assms(2) i(2) by (simp add: unat_of_nat)
  ultimately show "unat rid < length (bd_records b) \<and> fst (bd_records b ! unat rid) = k"
    using i by (simp add: position_Some)
next
  assume a: "unat rid < length (bd_records b) \<and> fst (bd_records b ! unat rid) = k"
  have "fst (bd_records b ! j) \<noteq> k" if "j < unat rid" for j
    using that a assms(1) by (auto simp: builder_inv_def distinct_conv_nth)
  then have "position (\<lambda>x. fst x = k) (bd_records b) = Some (unat rid)"
    using a by (simp add: position_Some)
  then show "index_of b k = Some rid" by (simp add: index_of_def)
qed

lemma input_errors_iff:
  assumes "builder_inv b" and "length (bd_records b) < 2 ^ 32"
  shows "e \<in> set (input_errors (map entry_for (registered b)) (index_of b)) \<longleftrightarrow>
     (\<exists>k ty r i ity ity' r'. (k, ty, r) \<in> set (bd_records b) \<and> (i, ity) \<in> set (transform_input_types r)
        \<and> (i, ity', r') \<in> set (bd_records b) \<and> ity' \<noteq> ity
        \<and> e = config_error k None (InputTypeMismatch i ity ity'))" (is "_ \<longleftrightarrow> ?spec")
proof -
  have one: "e \<in> set (input_error (map entry_for (registered b)) (index_of b) k (i, ity)) \<longleftrightarrow>
      (\<exists>ity' r'. (i, ity', r') \<in> set (bd_records b) \<and> ity' \<noteq> ity
        \<and> e = config_error k None (InputTypeMismatch i ity ity'))" for k i ity
  proof (cases "index_of b i")
    case None
    then have "i \<notin> fst ` set (bd_records b)" by (auto simp: index_of_def position_None)
    then show ?thesis using None by (force simp: input_error_def)
  next
    case (Some rid)
    then have rid: "unat rid < length (bd_records b)" "fst (bd_records b ! unat rid) = i"
      using index_lookup [OF assms] by auto
    obtain ity0 r0 where at: "bd_records b ! unat rid = (i, ity0, r0)"
      using rid(2) by (cases "bd_records b ! unat rid") auto
    then have mem: "(i, ity0, r0) \<in> set (bd_records b)" using rid(1) by (metis nth_mem)
    then have "tr_type r0 = ity0" using assms(1) by (auto simp: builder_inv_def record_config_inv_def)
    moreover have "(i, ity', r') \<in> set (bd_records b) \<longleftrightarrow> ity' = ity0 \<and> r' = r0" for ity' r'
      using mem assms(1) by (auto simp: builder_inv_def dest: eq_key_imp_eq_value)
    ultimately show ?thesis using Some rid at by (auto simp: input_error_def registered_def)
  qed
  have unfolded: "e \<in> set (input_errors st index) \<longleftrightarrow>
      (\<exists>x \<in> set st. \<exists>p \<in> set (transform_input_types (en_record x)). e \<in> set (input_error st index (en_key x) p))"
    for st :: "('a, 'b, 'c) record_entry list" and index
    by (simp add: input_errors_def)
  have members: "set (map entry_for (registered b)) = (\<lambda>(k, ty, r). entry_for (k, ty, clean r)) ` set (bd_records b)"
    by (force simp: registered_def)
  have "e \<in> set (input_errors (map entry_for (registered b)) (index_of b)) \<longleftrightarrow>
      (\<exists>(k, ty, r) \<in> set (bd_records b). \<exists>(i, ity) \<in> set (transform_input_types r).
         e \<in> set (input_error (map entry_for (registered b)) (index_of b) k (i, ity)))"
    unfolding unfolded members by (simp add: case_prod_beta)
  then show ?thesis unfolding one by fast
qed

subsection \<open>What is a mistake\<close>

text \<open>The mistakes of a configuration as a set: the record a finding names and what is wrong.\<close>

definition record_mistakes :: "string \<Rightarrow> ('v, 'j, 'f) typed_record \<Rightarrow> (string \<times> mistake) set" where
  "record_mistakes k r =
     {(ce_record_key (fill_key k e), ce_mistake e) | e. e \<in> set (tr_errors r)}
     \<union> (if tr_codec r \<noteq> None \<and> tr_buffer r = None then {(k, RemoteWithoutBuffer)} else {})
     \<union> (if 1 < length (writer_kinds r) then {(k, ConflictingWriters (writer_kinds r))} else {})
     \<union> (if (tr_outbound r \<noteq> [] \<or> tr_inbound r \<noteq> []) \<and> tr_buffer r = None then {(k, LinkedWithoutBuffer)} else {})"

definition mistakes :: "(bytes \<Rightarrow> string + bytes) \<Rightarrow> ('v, 'j, 'f) builder \<Rightarrow> (string \<times> mistake) set" where
  "mistakes check b =
     {(ce_record_key e, ce_mistake e) | e. e \<in> set (bd_errors b)}
     \<union> {('''', IdentityRejected m) | m. m \<in> set (snd (identity_freeze check (bd_identity b)))}
     \<union> (\<Union>(k, ty, r) \<in> set (bd_records b). record_mistakes k r)
     \<union> (if bd_runtime b = None then {('''', RuntimeNotSet)} else {})
     \<union> {(k, InputTypeMismatch i ity ity') | k ty r i ity ity' r'.
          (k, ty, r) \<in> set (bd_records b) \<and> (i, ity) \<in> set (transform_input_types r)
          \<and> (i, ity', r') \<in> set (bd_records b) \<and> ity' \<noteq> ity}"

definition reported :: "config_error list \<Rightarrow> (string \<times> mistake) set" where
  "reported es = (\<lambda>e. (ce_record_key e, ce_mistake e)) ` set es"

lemma config_error_simps [simp]:
  "ce_record_key (config_error k url m) = k" "ce_mistake (config_error k url m) = m"
  "ce_mistake (fill_key k e) = ce_mistake e"
  by (simp_all add: config_error_def fill_key_def)

lemma reported_append [simp]: "reported (xs @ ys) = reported xs \<union> reported ys"
  by (auto simp: reported_def)

lemma reported_if [simp]:
  "reported (if c then [config_error k url m] else []) = (if c then {(k, m)} else {})"
  by (simp add: reported_def config_error_def)

lemma reported_concat: "reported (concat (map f xs)) = (\<Union>x \<in> set xs. reported (f x))"
  by (auto simp: reported_def)

lemma reported_record: "reported (fst (check_record k r)) = record_mistakes k r"
proof -
  have drained: "reported (map (fill_key k) es) = {(ce_record_key (fill_key k e), ce_mistake e) | e. e \<in> set es}" for es
    by (simp add: reported_def image_image Setcompr_eq_image)
  show ?thesis
    unfolding check_record_eq fst_conv reported_append drained record_mistakes_def
    by (simp add: has_links_def has_buffer_def Un_assoc)
qed

lemma reported_registry:
  assumes "builder_inv b" and "length (bd_records b) < 2 ^ 32"
  shows "reported (registry_mistakes check b) = mistakes check b"
proof -
  have inputs: "reported (input_errors (map entry_for (registered b)) (index_of b))
      = {(k, InputTypeMismatch i ity ity') | k ty r i ity ity' r'.
          (k, ty, r) \<in> set (bd_records b) \<and> (i, ity) \<in> set (transform_input_types r)
          \<and> (i, ity', r') \<in> set (bd_records b) \<and> ity' \<noteq> ity}"
    (is "_ = {(k, InputTypeMismatch i ity ity') | k ty r i ity ity' r'. ?spec k ty r i ity ity' r'}")
  proof -
    have lhs: "(k, m) \<in> reported (input_errors (map entry_for (registered b)) (index_of b)) \<longleftrightarrow>
        (\<exists>ty r i ity ity' r'. ?spec k ty r i ity ity' r' \<and> m = InputTypeMismatch i ity ity')" for k m
    proof -
      have "(k, m) \<in> reported (input_errors (map entry_for (registered b)) (index_of b)) \<longleftrightarrow>
          (\<exists>e. e \<in> set (input_errors (map entry_for (registered b)) (index_of b))
             \<and> ce_record_key e = k \<and> ce_mistake e = m)"
        unfolding reported_def by blast
      also have "\<dots> \<longleftrightarrow> (\<exists>ty r i ity ity' r'. ?spec k ty r i ity ity' r' \<and> m = InputTypeMismatch i ity ity')"
        (is "?l \<longleftrightarrow> ?r")
      proof
        assume ?l
        then obtain e where e: "e \<in> set (input_errors (map entry_for (registered b)) (index_of b))"
          "ce_record_key e = k" "ce_mistake e = m" by blast
        from e(1) [unfolded input_errors_iff [OF assms]] obtain k0 ty r i ity ity' r'
          where spec: "?spec k0 ty r i ity ity' r'" and e': "e = config_error k0 None (InputTypeMismatch i ity ity')"
          by (elim exE conjE) simp
        have k0: "k0 = k" "m = InputTypeMismatch i ity ity'" using e(2,3) e' by simp_all
        show ?r using spec k0
          by (intro exI [of _ ty] exI [of _ r] exI [of _ i] exI [of _ ity] exI [of _ ity'] exI [of _ r']) simp
      next
        assume ?r
        then obtain ty r i ity ity' r' where r: "?spec k ty r i ity ity' r'" "m = InputTypeMismatch i ity ity'" by blast
        then have "config_error k None m \<in> set (input_errors (map entry_for (registered b)) (index_of b))"
          unfolding input_errors_iff [OF assms] by blast
        then show ?l by (intro exI [of _ "config_error k None m"]) simp
      qed
      finally show ?thesis .
    qed
    have rhs: "(k, m) \<in> {(k, InputTypeMismatch i ity ity') | k ty r i ity ity' r'. ?spec k ty r i ity ity' r'} \<longleftrightarrow>
        (\<exists>ty r i ity ity' r'. ?spec k ty r i ity ity' r' \<and> m = InputTypeMismatch i ity ity')" for k m
      by (simp only: mem_Collect_eq prod.inject) metis
    show ?thesis
    proof (rule set_eqI)
      fix x :: "string \<times> mistake"
      obtain k m where "x = (k, m)" by (rule prod.exhaust)
      then show "x \<in> reported (input_errors (map entry_for (registered b)) (index_of b)) \<longleftrightarrow>
          x \<in> {(k, InputTypeMismatch i ity ity') | k ty r i ity ity' r'. ?spec k ty r i ity ity' r'}"
        by (simp only: lhs rhs)
    qed
  qed
  have records: "reported (concat (map (\<lambda>(key, ty, r). fst (check_record key r)) (bd_records b)))
      = (\<Union>(k, ty, r) \<in> set (bd_records b). record_mistakes k r)"
    by (simp add: reported_concat case_prod_beta reported_record)
  have identity: "reported (map (\<lambda>m. config_error '''' None (IdentityRejected m)) ms) = {('''', IdentityRejected m) | m. m \<in> set ms}" for ms
    by (simp add: reported_def image_image Setcompr_eq_image)
  have recorded: "reported es = {(ce_record_key e, ce_mistake e) | e. e \<in> set es}" for es
    by (simp add: reported_def Setcompr_eq_image)
  show ?thesis
    unfolding registry_mistakes_def reported_append inputs records identity mistakes_def Un_assoc reported_if
      recorded [of "bd_errors b"] ..
qed

subsection \<open>Properties\<close>

text \<open>
  C9. \<open>build\<close> never panics in its validation pass, accepts exactly the configurations without a
  mistake whose transform inputs are registered and acyclic, and otherwise reports every mistake
  at once (and the graph's verdict, when the graph is at fault).
\<close>

theorem build_verdict:
  fixes calls :: "('v, 'j, 'f) builder_call list"
  assumes "length (bd_records (builder_run bid calls)) < 2 ^ 32"
  shows "case build_registry check (builder_run bid calls) of
      None \<Rightarrow> False
    | Some (Inr db) \<Rightarrow> mistakes check (builder_run bid calls) = {} \<and> well_wired (builder_run bid calls)
    | Some (Inl e) \<Rightarrow> \<exists>es. e = InvalidConfiguration es
        \<and> (if well_wired (builder_run bid calls)
           then mistakes check (builder_run bid calls) \<noteq> {} \<and> reported es = mistakes check (builder_run bid calls)
           else \<exists>g. reported es = insert ('''', GraphRejected g) (mistakes check (builder_run bid calls)))"
proof -
  define b where "b = builder_run bid calls"
  have inv: "builder_inv b" by (simp add: b_def builder_inv_run)
  note rep = reported_registry [OF inv assms [folded b_def], of check]
  have d: "distinct (node_keys (nodes_of b))" using inv by (simp add: node_keys_of builder_inv_def)
  note graph = build_accepts_iff [OF d, of "bd_seed b"]
  have wired: "(\<exists>g. build_and_validate_seeded (nodes_of b) (bd_seed b) = Some (Inr g)) \<longleftrightarrow> well_wired b"
    using graph by (simp add: well_wired_def input_pairs_of node_keys_of depends_def)
  have empty: "mistakes check b = {} \<longleftrightarrow> registry_mistakes check b = []"
    unfolding rep [symmetric] by (simp add: reported_def)
  have runtime: "bd_runtime b = None \<Longrightarrow> registry_mistakes check b \<noteq> []"
    by (simp add: registry_mistakes_def)
  note eq = build_registry_eq [OF inv, of check, unfolded Let_def, folded nodes_of_def]
  show ?thesis unfolding b_def [symmetric]
  proof (cases "build_and_validate_seeded (nodes_of b) (bd_seed b)")
    case None
    then show "case build_registry check b of None \<Rightarrow> False
      | Some (Inr db) \<Rightarrow> mistakes check b = {} \<and> well_wired b
      | Some (Inl e) \<Rightarrow> \<exists>es. e = InvalidConfiguration es
          \<and> (if well_wired b then mistakes check b \<noteq> {} \<and> reported es = mistakes check b
             else \<exists>g. reported es = insert ('''', GraphRejected g) (mistakes check b))"
      using graph by simp
  next
    case (Some out)
    show "case build_registry check b of None \<Rightarrow> False
      | Some (Inr db) \<Rightarrow> mistakes check b = {} \<and> well_wired b
      | Some (Inl e) \<Rightarrow> \<exists>es. e = InvalidConfiguration es
          \<and> (if well_wired b then mistakes check b \<noteq> {} \<and> reported es = mistakes check b
             else \<exists>g. reported es = insert ('''', GraphRejected g) (mistakes check b))"
    proof (cases out)
      case (Inl e)
      then have "\<not> well_wired b" using wired Some by simp
      then show ?thesis using eq Some Inl rep by (auto simp: reported_def config_error_def)
    next
      case (Inr g)
      then have "well_wired b" using wired Some by blast
      then show ?thesis using eq Some Inr rep empty runtime
        by (cases "bd_runtime b"; cases "registry_mistakes check b") auto
    qed
  qed
qed

definition sample_calls :: "(nat, nat, nat) builder_call list" where
  "sample_calls = [WithRuntime 0, Configure 1 ''a'' [CallBufferRaw (Mailbox None []), CallSource 7]]"

theorem build_verdict_witness:
  "mistakes (\<lambda>_. Inl '''') (builder_run 0 sample_calls) = {} \<and> well_wired (builder_run 0 sample_calls)"
proof -
  have len: "length (bd_records (builder_run 0 sample_calls)) < 2 ^ 32"
  proof -
    have "length (bd_records (builder_run 0 sample_calls)) = 1" by code_simp
    then show ?thesis by simp
  qed
  have "case build_registry (\<lambda>_. Inl '''') (builder_run 0 sample_calls) of Some (Inr db) \<Rightarrow> True | _ \<Rightarrow> False"
    by code_simp
  then show ?thesis using build_verdict [OF len, of "\<lambda>_. Inl ''''"] by (auto split: option.splits sum.splits)
qed

end
