(* ===== verification/Db_Startup.thy ===== *)
theory Db_Startup
  imports Db_Validation
begin

text \<open>
  What \<open>build\<close> starts and what it leaves behind: the services of every record run exactly once, each
  record after its inputs, and the built database satisfies the invariant of \<open>Db_Core\<close>.  Collecting a
  service takes it out of its record, which the remote-write check no longer sees.
\<close>

subsection \<open>One record\<close>

text \<open>The futures a record contributes: its source, its transform with the forwarders, its taps.\<close>

definition record_futures :: "string \<Rightarrow> ('v, 'j, 'f) typed_record \<Rightarrow> 'f future list" where
  "record_futures key r =
     (case tr_producer r of None \<Rightarrow> [] | Some f \<Rightarrow> [SourceTask key f])
     @ (case tr_transform r of
          None \<Rightarrow> []
        | Some d \<Rightarrow> TransformTask key (td_task d) # map (\<lambda>(i, input). FaninTask key i input) (td_fanin d))
     @ map (TapTask key) (tr_consumers r)"

definition taken :: "('v, 'j, 'f) typed_record \<Rightarrow> ('v, 'j, 'f) typed_record" where
  "taken r = r\<lparr>tr_producer := None, tr_transform := None, tr_consumers := []\<rparr>"

definition taps_ok :: "('v, 'j, 'f) typed_record \<Rightarrow> bool" where
  "taps_ok r \<longleftrightarrow> tr_consumers r = [] \<or> tr_buffer r \<noteq> None"

lemma taken_taken [simp]: "taken (taken r) = taken r"
  by (simp add: taken_def)

lemma collect_all_futures_eq:
  assumes "tr_type r = ty" and "tr_clock r = Some c"
  shows "collect_all_futures ty key r =
     (if taps_ok r then Inr (record_futures key r) else Inl (MissingConfiguration key), taken r)"
  using assms
  by (cases r)
    (auto simp: collect_all_futures_def collect_producer_future_def collect_transform_futures_def
      collect_consumer_futures_def writer_handle_def has_producer_def has_transform_def consumer_count_def
      record_futures_def taken_def taps_ok_def split: option.splits)

subsection \<open>All records\<close>

definition take_keys :: "string set \<Rightarrow> ('v, 'j, 'f) aimdb \<Rightarrow> ('v, 'j, 'f) aimdb" where
  "take_keys ks db =
     db\<lparr>db_storages := map (\<lambda>e. if en_key e \<in> ks then e\<lparr>en_record := taken (en_record e)\<rparr> else e) (db_storages db)\<rparr>"

definition record_at :: "('v, 'j, 'f) aimdb \<Rightarrow> string \<Rightarrow> ('v, 'j, 'f) record_entry" where
  "record_at db k = db_storages db ! unat (the (db_by_key db k))"

lemma take_keys_simps [simp]:
  "db_by_key (take_keys ks db) = db_by_key db" "db_clock (take_keys ks db) = db_clock db"
  "db_graph (take_keys ks db) = db_graph db" "length (db_storages (take_keys ks db)) = length (db_storages db)"
  by (simp_all add: take_keys_def)

lemma take_keys_empty [simp]: "take_keys {} db = db"
  by (simp add: take_keys_def)

lemma take_keys_take_keys: "take_keys ls (take_keys ks db) = take_keys (ks \<union> ls) db"
  by (auto simp: take_keys_def)

lemma take_keys_keys [simp]: "en_key ` set (db_storages (take_keys ks db)) = en_key ` set (db_storages db)"
proof -
  have "en_key (if en_key e \<in> ks then e\<lparr>en_record := taken (en_record e)\<rparr> else e) = en_key e"
    for e :: "('a, 'b, 'c) record_entry"
    by simp
  then show ?thesis by (simp add: take_keys_def image_image del: if_image_distrib)
qed

lemma entry_ok_taken: "entry_ok c e \<Longrightarrow> entry_ok c (e\<lparr>en_record := taken (en_record e)\<rparr>)"
  by (simp add: entry_ok_def taken_def)

lemma db_ok_take_keys: "db_ok db \<Longrightarrow> db_ok (take_keys ks db)"
  by (auto simp: db_ok_def take_keys_def list_all_iff entry_ok_taken)

lemma record_at_take_keys:
  assumes "db_ok db" and "k \<in> en_key ` set (db_storages db)" and "k \<notin> ks"
  shows "record_at (take_keys ks db) k = record_at db k"
proof -
  obtain i where i: "i < length (db_storages db)" "en_key (db_storages db ! i) = k"
    using assms(2) by (auto simp: in_set_conv_nth)
  then show ?thesis
    using db_ok_lookup [OF assms(1) i(1)] assms(3) by (simp add: record_at_def take_keys_def)
qed

lemma spawn_fn_eq:
  assumes "db_ok db" and "db_by_key db k = Some rid" and "en_type (record_at db k) = ty"
  shows "spawn_fn ty rid db =
     (if taps_ok (en_record (record_at db k)) then Inr (record_futures k (en_record (record_at db k)))
      else Inl (MissingConfiguration k), take_keys {k} db)"
proof -
  have rid: "unat rid < length (db_storages db)" "en_key (db_storages db ! unat rid) = k"
    and idx: "\<And>k' rid'. db_by_key db k' = Some rid' \<longleftrightarrow>
        unat rid' < length (db_storages db) \<and> en_key (db_storages db ! unat rid') = k'"
    using assms(1,2) by (auto simp: db_ok_def)
  have at: "record_at db k = db_storages db ! unat rid" using assms(2) by (simp add: record_at_def)
  have "entry_ok (db_clock db) (db_storages db ! unat rid)"
    using assms(1) rid(1) by (auto simp: db_ok_def list_all_length)
  then have r: "tr_type (en_record (record_at db k)) = ty" "tr_clock (en_record (record_at db k)) = Some (db_clock db)"
    using assms(3) by (simp_all add: entry_ok_def at)
  have other: "en_key (db_storages db ! j) \<noteq> k" if "j < length (db_storages db)" "j \<noteq> unat rid" for j
    using that db_ok_lookup [OF assms(1) that(1)] assms(2) by auto
  have taken: "set_record (unat rid) (taken (en_record (record_at db k))) db = take_keys {k} db"
  proof -
    have "(db_storages db)[unat rid := (db_storages db ! unat rid)\<lparr>en_record := taken (en_record (record_at db k))\<rparr>]
        = map (\<lambda>e. if en_key e \<in> {k} then e\<lparr>en_record := taken (en_record e)\<rparr> else e) (db_storages db)"
      by (rule nth_equalityI) (use rid other in \<open>auto simp: nth_list_update at\<close>)
    then show ?thesis by (simp add: set_record_def take_keys_def)
  qed
  show ?thesis
    using collect_all_futures_eq [OF r, of k] rid r taken
    by (simp add: spawn_fn_def get_typed_record_by_id_def entry_of_def as_typed_def key_for_def at)
qed

lemma collect_in_order_eq:
  assumes "db_ok db" and "distinct keys" and "set keys \<subseteq> en_key ` set (db_storages db)"
    and "\<forall>k \<in> set keys. spawns k = Some (en_type (record_at db k))"
  shows "if \<forall>k \<in> set keys. taps_ok (en_record (record_at db k))
     then collect_in_order keys spawns db =
       (Inr (concat (map (\<lambda>k. record_futures k (en_record (record_at db k))) keys)), take_keys (set keys) db)
     else \<exists>k \<in> set keys. \<not> taps_ok (en_record (record_at db k))
       \<and> fst (collect_in_order keys spawns db) = Inl (MissingConfiguration k)"
  using assms
proof (induction keys arbitrary: spawns db)
  case Nil
  then show ?case by simp
next
  case (Cons k keys)
  obtain i where i: "i < length (db_storages db)" "en_key (db_storages db ! i) = k"
    using Cons.prems(3) by (auto simp: in_set_conv_nth)
  then have rid: "db_by_key db k = Some (of_nat i)" using db_ok_lookup [OF Cons.prems(1)] by auto
  note spawn = spawn_fn_eq [OF Cons.prems(1) rid refl]
  show ?case
  proof (cases "taps_ok (en_record (record_at db k))")
    case False
    then show ?thesis using spawn rid Cons.prems(4) by auto
  next
    case True
    let ?db = "take_keys {k} db"
    have keep: "record_at ?db k' = record_at db k'" if "k' \<in> set keys" for k'
      using that Cons.prems by (intro record_at_take_keys) auto
    have "set keys \<subseteq> en_key ` set (db_storages ?db)"
      using Cons.prems(3) by simp
    then have IH: "if \<forall>k' \<in> set keys. taps_ok (en_record (record_at ?db k'))
       then collect_in_order keys (spawns(k := None)) ?db =
         (Inr (concat (map (\<lambda>k. record_futures k (en_record (record_at ?db k))) keys)), take_keys (set keys) ?db)
       else \<exists>k' \<in> set keys. \<not> taps_ok (en_record (record_at ?db k'))
         \<and> fst (collect_in_order keys (spawns(k := None)) ?db) = Inl (MissingConfiguration k')"
      using Cons.prems keep by (intro Cons.IH db_ok_take_keys) auto
    have step: "collect_in_order (k # keys) spawns db =
        (case collect_in_order keys (spawns(k := None)) ?db of
           (Inl e, db'') \<Rightarrow> (Inl e, db'')
         | (Inr gs, db'') \<Rightarrow> (Inr (record_futures k (en_record (record_at db k)) @ gs), db''))"
      using spawn rid Cons.prems(4) True by simp
    show ?thesis
    proof (cases "\<forall>k' \<in> set keys. taps_ok (en_record (record_at db k'))")
      case all: True
      have "map (\<lambda>k. record_futures k (en_record (record_at ?db k))) keys
          = map (\<lambda>k. record_futures k (en_record (record_at db k))) keys"
        using keep by simp
      then show ?thesis using IH step True all keep by (simp add: take_keys_take_keys cong: map_cong)
    next
      case some: False
      then obtain k' where "k' \<in> set keys" "\<not> taps_ok (en_record (record_at db k'))"
        "fst (collect_in_order keys (spawns(k := None)) ?db) = Inl (MissingConfiguration k')"
        using IH keep by (auto split: if_splits)
      then show ?thesis using some unfolding step
        by (cases "collect_in_order keys (spawns(k := None)) ?db") auto
    qed
  qed
qed

subsection \<open>The database the validation pass accepts\<close>

definition builder_record :: "('v, 'j, 'f) builder \<Rightarrow> string \<Rightarrow> ('v, 'j, 'f) typed_record" where
  "builder_record b k = snd (snd (bd_records b ! the (bd_index b k)))"

lemma builder_record_eq:
  assumes "builder_inv b" and "(k, ty, r) \<in> set (bd_records b)"
  obtains i where "i < length (bd_records b)" and "bd_records b ! i = (k, ty, r)" and "bd_index b k = Some i"
    and "builder_record b k = r"
proof -
  obtain i where i: "i < length (bd_records b)" "bd_records b ! i = (k, ty, r)"
    using assms(2) by (auto simp: in_set_conv_nth)
  then have "bd_index b k = Some i" using assms(1) by (auto simp: builder_inv_def)
  then show thesis using i that by (simp add: builder_record_def)
qed

lemma built_registry:
  assumes inv: "builder_inv b" and len: "length (bd_records b) < 2 ^ 32"
    and built: "build_registry check b = Some (Inr db)"
  shows "bd_runtime b = Some (db_clock db)"
    and "db_storages db = bind_clocks (db_clock db) (map entry_for (registered b))"
    and "db_by_key db = index_of b"
    and "mistakes check b = {}"
    and "distinct (topo_order (db_graph db)) \<and> set (topo_order (db_graph db)) = fst ` set (bd_records b)
       \<and> (\<forall>xs k ys. topo_order (db_graph db) = xs @ k # ys \<longrightarrow> (\<forall>i. (k, i) \<in> inputs_of b \<longrightarrow> i \<in> set xs))"
proof -
  have d: "distinct (node_keys (nodes_of b))" using inv by (simp add: node_keys_of builder_inv_def)
  from built [unfolded build_registry_eq [OF inv] Let_def, folded nodes_of_def] obtain g c where
    g: "build_and_validate_seeded (nodes_of b) (bd_seed b) = Some (Inr g)" and c: "bd_runtime b = Some c"
    and none: "registry_mistakes check b = []"
    and db: "db = \<lparr>db_storages = bind_clocks c (map entry_for (registered b)), db_by_key = index_of b, db_graph = g,
                    db_identity = fst (identity_freeze check (bd_identity b)), db_clock = c\<rparr>"
    by (auto split: option.splits sum.splits list.splits)
  show "bd_runtime b = Some (db_clock db)" "db_by_key db = index_of b"
    "db_storages db = bind_clocks (db_clock db) (map entry_for (registered b))"
    using c db by simp_all
  show "mistakes check b = {}" using reported_registry [OF inv len, of check] none by (simp add: reported_def)
  show "distinct (topo_order (db_graph db)) \<and> set (topo_order (db_graph db)) = fst ` set (bd_records b)
       \<and> (\<forall>xs k ys. topo_order (db_graph db) = xs @ k # ys \<longrightarrow> (\<forall>i. (k, i) \<in> inputs_of b \<longrightarrow> i \<in> set xs))"
    using build_topo_order [OF d g] db by (simp add: node_keys_of inputs_before_def input_pairs_of)
qed

lemma no_record_mistakes:
  assumes "mistakes check b = {}" and "(k, ty, r) \<in> set (bd_records b)"
  shows "tr_errors r = []" and "tr_codec r \<noteq> None \<longrightarrow> tr_buffer r \<noteq> None" and "length (writer_kinds r) \<le> 1"
    and "tr_outbound r \<noteq> [] \<or> tr_inbound r \<noteq> [] \<longrightarrow> tr_buffer r \<noteq> None"
proof -
  have "record_mistakes k r = {}" using assms unfolding mistakes_def by blast
  then show "tr_errors r = []" and "tr_codec r \<noteq> None \<longrightarrow> tr_buffer r \<noteq> None" and "length (writer_kinds r) \<le> 1"
    and "tr_outbound r \<noteq> [] \<or> tr_inbound r \<noteq> [] \<longrightarrow> tr_buffer r \<noteq> None"
    unfolding record_mistakes_def by (auto split: if_splits)
qed

text \<open>The entry of a configured record in the accepted database.\<close>

definition fresh_entry :: "nat \<Rightarrow> string \<times> nat \<times> ('v, 'j, 'f) typed_record \<Rightarrow> ('v, 'j, 'f) record_entry" where
  "fresh_entry c x = (entry_for (fst x, fst (snd x), clean (snd (snd x))))
     \<lparr>en_record := bind_clock c (clean (snd (snd x)))\<rparr>"

lemma fresh_entry_simps [simp]:
  "en_key (fresh_entry c (k, ty, r)) = k" "en_type (fresh_entry c (k, ty, r)) = ty"
  "en_record (fresh_entry c (k, ty, r)) = bind_clock c (clean r)"
  by (simp_all add: fresh_entry_def entry_for_def)

lemma bind_clocks_registered: "bind_clocks c (map entry_for (registered b)) = map (fresh_entry c) (bd_records b)"
  by (simp add: bind_clocks_def registered_def fresh_entry_def comp_def case_prod_beta)

lemma built_ok:
  assumes inv: "builder_inv b" and len: "length (bd_records b) < 2 ^ 32"
    and built: "build_registry check b = Some (Inr db)"
  shows "db_ok db"
proof -
  note facts = built_registry [OF inv len built]
  have st: "db_storages db = map (fresh_entry (db_clock db)) (bd_records b)"
    by (simp only: facts(2) bind_clocks_registered)
  have "entry_ok (db_clock db) (fresh_entry (db_clock db) x)" if "x \<in> set (bd_records b)" for x
  proof -
    obtain k ty r where x: "x = (k, ty, r)" by (cases x)
    then have "record_config_inv k ty r" using inv that by (auto simp: builder_inv_def)
    then show ?thesis
      using no_record_mistakes [OF facts(4)] that unfolding x
      by (auto simp: entry_ok_def record_config_inv_def bind_clock_def)
  qed
  then have "list_all (entry_ok (db_clock db)) (db_storages db)" by (simp add: st list_all_iff)
  moreover have "index_of b k = Some rid \<longleftrightarrow>
      unat rid < length (db_storages db) \<and> en_key (db_storages db ! unat rid) = k" for k rid
    using index_lookup [OF inv len, of k rid]
    by (cases "bd_records b ! unat rid") (auto simp: st)
  ultimately show ?thesis using len by (simp add: db_ok_def facts(3) st)
qed

lemma built_record_at:
  assumes inv: "builder_inv b" and len: "length (bd_records b) < 2 ^ 32"
    and built: "build_registry check b = Some (Inr db)" and mem: "(k, ty, r) \<in> set (bd_records b)"
  shows "record_at db k = fresh_entry (db_clock db) (k, ty, r)"
proof -
  note facts = built_registry [OF inv len built]
  obtain i where i: "i < length (bd_records b)" "bd_records b ! i = (k, ty, r)"
    using builder_record_eq [OF inv mem] by metis
  have st: "db_storages db = map (fresh_entry (db_clock db)) (bd_records b)"
    by (simp only: facts(2) bind_clocks_registered)
  have "db_by_key db k = Some (of_nat i)" "unat (of_nat i :: u32) = i"
    using db_ok_lookup [OF built_ok [OF inv len built], of i] i by (simp_all add: st)
  then show ?thesis using i by (simp add: record_at_def st)
qed

subsection \<open>The whole build\<close>

lemma connector_effects_shape: "same_shape db (connector_effects calls db)"
proof -
  have "same_shape db (fold (\<lambda>(now, c). db_step now c) calls db)" for db :: "('a, 'b, 'c) aimdb"
    by (induction calls arbitrary: db) (auto intro: same_shape_trans same_shape_step)
  then show ?thesis by (simp add: connector_effects_def)
qed

lemma build_connectors_shape:
  "build_connectors connect cs db = (Inr fs, db') \<Longrightarrow> same_shape db db' \<and> (\<exists>gs. fs = map ConnectorTask gs)"
proof (induction cs arbitrary: fs db)
  case (Cons c cs)
  then obtain hs calls gs where
    c: "connect c db = (Inr hs, calls)"
    and cs: "build_connectors connect cs (connector_effects calls db) = (Inr gs, db')"
    and fs: "fs = map ConnectorTask hs @ gs"
    by (auto split: prod.splits sum.splits)
  from Cons.IH [OF cs] obtain js where "same_shape (connector_effects calls db) db'" "gs = map ConnectorTask js"
    by blast
  then show ?case
    using fs same_shape_trans [OF connector_effects_shape]
    by (auto intro: exI [of _ "hs @ js"])
qed simp

lemma key_record: "k \<in> fst ` set (bd_records b) \<Longrightarrow> \<exists>ty r. (k, ty, r) \<in> set (bd_records b)"
  by force

text \<open>What a successful build went through.\<close>

lemma built_db:
  assumes inv: "builder_inv b" and len: "length (bd_records b) < 2 ^ 32"
    and built: "build_db check connect b = Some (Inr (db, futures))"
  obtains db0 gs where "build_registry check b = Some (Inr db0)"
    and "same_shape (take_keys (fst ` set (bd_records b)) db0) db"
    and "\<forall>(k, ty, r) \<in> set (bd_records b). taps_ok r"
    and "futures = concat (map (\<lambda>k. record_futures k (builder_record b k)) (topo_order (db_graph db0)))
           @ map ConnectorTask gs @ map StartTask (bd_start_fns b)"
proof -
  obtain db0 where reg: "build_registry check b = Some (Inr db0)"
    using built by (auto simp: build_db_def split: option.splits sum.splits)
  note facts = built_registry [OF inv len reg] and ok = built_ok [OF inv len reg]
  let ?order = "topo_order (db_graph db0)"
  have at: "record_at db0 k = fresh_entry (db_clock db0) (k, ty, r)" if "(k, ty, r) \<in> set (bd_records b)" for k ty r
    by (rule built_record_at [OF inv len reg that])
  have keys: "en_key ` set (db_storages db0) = fst ` set (bd_records b)"
    unfolding facts(2) bind_clocks_registered by (force simp: fresh_entry_def)
  have "map_of (rev (bd_spawn_fns b)) k = Some (en_type (record_at db0 k))" if member: "k \<in> set ?order" for k
  proof -
    obtain ty r where mem: "(k, ty, r) \<in> set (bd_records b)" using key_record [of k b] member facts(5) by auto
    then have "(k, ty) \<in> set (rev (bd_spawn_fns b))" using inv by (force simp: builder_inv_def)
    moreover have "distinct (map fst (rev (bd_spawn_fns b)))"
      using inv by (simp add: builder_inv_def rev_map [symmetric] case_prod_beta comp_def)
    ultimately show ?thesis using at [OF mem] by simp
  qed
  then have collect: "if \<forall>k \<in> set ?order. taps_ok (en_record (record_at db0 k))
     then collect_in_order ?order (map_of (rev (bd_spawn_fns b))) db0 =
       (Inr (concat (map (\<lambda>k. record_futures k (en_record (record_at db0 k))) ?order)), take_keys (set ?order) db0)
     else \<exists>k \<in> set ?order. \<not> taps_ok (en_record (record_at db0 k))
       \<and> fst (collect_in_order ?order (map_of (rev (bd_spawn_fns b))) db0) = Inl (MissingConfiguration k)"
    using facts(5) keys by (intro collect_in_order_eq ok) auto
  have taps: "\<forall>k \<in> set ?order. taps_ok (en_record (record_at db0 k))"
  proof (rule ccontr)
    assume "\<not> ?thesis"
    then obtain e where "fst (collect_in_order ?order (map_of (rev (bd_spawn_fns b))) db0) = Inl e"
      using collect by (auto split: if_splits)
    then show False using built reg
      by (cases "collect_in_order ?order (map_of (rev (bd_spawn_fns b))) db0") (auto simp: build_db_def)
  qed
  then have fs: "collect_in_order ?order (map_of (rev (bd_spawn_fns b))) db0 =
       (Inr (concat (map (\<lambda>k. record_futures k (en_record (record_at db0 k))) ?order)), take_keys (set ?order) db0)"
    using collect by (simp only: if_True)
  have rf: "record_futures k (en_record (record_at db0 k)) = record_futures k (builder_record b k)"
    if member: "k \<in> set ?order" for k
  proof -
    obtain ty r where mem: "(k, ty, r) \<in> set (bd_records b)" using key_record [of k b] member facts(5) by auto
    then have "builder_record b k = r" using builder_record_eq [OF inv] by metis
    then show ?thesis using at [OF mem] by (simp add: record_futures_def bind_clock_def)
  qed
  from built reg fs obtain hs where
    con: "build_connectors connect (bd_connectors b) (take_keys (set ?order) db0) = (Inr hs, db)"
    and futures: "futures = concat (map (\<lambda>k. record_futures k (en_record (record_at db0 k))) ?order) @ hs
        @ map StartTask (bd_start_fns b)"
    by (auto simp: build_db_def split: if_splits prod.splits sum.splits)
  from build_connectors_shape [OF con] obtain gs where gs: "hs = map ConnectorTask gs"
    and shape: "same_shape (take_keys (set ?order) db0) db" by blast
  have "taps_ok r" if mem: "(k, ty, r) \<in> set (bd_records b)" for k ty r
  proof -
    have "k \<in> set ?order" using imageI [OF mem, of fst] facts(5) by simp
    then show ?thesis using taps at [OF mem] by (auto simp: taps_ok_def bind_clock_def)
  qed
  moreover have "futures = concat (map (\<lambda>k. record_futures k (builder_record b k)) ?order)
           @ map ConnectorTask gs @ map StartTask (bd_start_fns b)"
    using futures gs rf by (simp cong: map_cong)
  ultimately show thesis using shape facts(5) by (intro that [OF reg, of gs]) auto
qed

lemma collected_services:
  fixes calls :: "('v, 'j, 'f) builder_call list"
  assumes "length (bd_records (builder_run bid calls)) < 2 ^ 32"
    and "build_db check connect (builder_run bid calls) = Some (Inr (db, futures))"
  shows "\<exists>order gs. distinct order \<and> set order = fst ` set (bd_records (builder_run bid calls))
     \<and> (\<forall>xs k ys i. order = xs @ k # ys \<longrightarrow> (k, i) \<in> inputs_of (builder_run bid calls) \<longrightarrow> i \<in> set xs)
     \<and> futures = concat (map (\<lambda>k. record_futures k (builder_record (builder_run bid calls) k)) order)
         @ map ConnectorTask gs @ map StartTask (bd_start_fns (builder_run bid calls))"
proof -
  from built_db [OF builder_inv_run assms] obtain db0 gs where
    reg: "build_registry check (builder_run bid calls) = Some (Inr db0)"
    and futures: "futures = concat (map (\<lambda>k. record_futures k (builder_record (builder_run bid calls) k)) (topo_order (db_graph db0)))
           @ map ConnectorTask gs @ map StartTask (bd_start_fns (builder_run bid calls))"
    by blast
  from built_registry(5) [OF builder_inv_run assms(1) reg] futures show ?thesis
    by (intro exI [of _ "topo_order (db_graph db0)"] exI [of _ gs]) blast
qed

lemma running_ok:
  fixes calls :: "('v, 'j, 'f) builder_call list"
  assumes "length (bd_records (builder_run bid calls)) < 2 ^ 32"
    and "build_db check connect (builder_run bid calls) = Some (Inr (db, futures))"
  shows "db_ok (db_run now ops db)"
proof -
  from built_db [OF builder_inv_run assms] obtain db0 where
    reg: "build_registry check (builder_run bid calls) = Some (Inr db0)"
    and shape: "same_shape (take_keys (fst ` set (bd_records (builder_run bid calls))) db0) db"
    by blast
  have "db_ok (take_keys (fst ` set (bd_records (builder_run bid calls))) db0)"
    by (rule db_ok_take_keys [OF built_ok [OF builder_inv_run assms(1) reg]])
  then have "db_ok db" by (rule db_ok_same [OF _ shape])
  then show ?thesis by (rule db_ok_same [OF _ same_shape_run])
qed

text \<open>A configured record in the running database: its id, and the record up to what changes.\<close>

lemma running_record:
  assumes len: "length (bd_records (builder_run bid calls)) < 2 ^ 32"
    and built: "build_db check connect (builder_run bid calls) = Some (Inr (db, futures))"
    and mem: "(k, ty, r) \<in> set (bd_records (builder_run bid calls))"
  obtains rid r' where "resolve_str (db_run now ops db) k = Some rid" and "storage (db_run now ops db) rid = Some r'"
    and "same_record (taken (bind_clock (db_clock (db_run now ops db)) (clean r))) r'"
proof -
  let ?b = "builder_run bid calls"
  from built_db [OF builder_inv_run len built] obtain db0 where
    reg: "build_registry check ?b = Some (Inr db0)" and shape: "same_shape (take_keys (fst ` set (bd_records ?b)) db0) db"
    by blast
  let ?db1 = "take_keys (fst ` set (bd_records ?b)) db0"
  note shape2 = same_shape_trans [OF shape same_shape_run [of db now ops]]
  note ok = built_ok [OF builder_inv_run len reg] and facts = built_registry [OF builder_inv_run len reg]
  obtain i where i: "i < length (bd_records ?b)" "bd_records ?b ! i = (k, ty, r)"
    using builder_record_eq [OF builder_inv_run mem] by metis
  have st: "db_storages db0 ! i = fresh_entry (db_clock db0) (k, ty, r)" "i < length (db_storages db0)"
    using i unfolding facts(2) bind_clocks_registered by simp_all
  have rid: "db_by_key db0 k = Some (of_nat i)" "unat (of_nat i :: u32) = i"
    using db_ok_lookup [OF ok st(2)] st(1) by simp_all
  have "k \<in> fst ` set (bd_records ?b)" using imageI [OF mem, of fst] by simp
  then have at: "db_storages ?db1 ! i = (fresh_entry (db_clock db0) (k, ty, r))
      \<lparr>en_record := taken (bind_clock (db_clock db0) (clean r))\<rparr>"
    using st by (simp add: take_keys_def)
  have "same_entry (db_storages ?db1 ! i) (db_storages (db_run now ops db) ! i)"
    by (rule same_shape_nth(2) [OF shape2]) (simp add: st)
  then have same: "same_record (taken (bind_clock (db_clock db0) (clean r))) (en_record (db_storages (db_run now ops db) ! i))"
    by (simp add: same_entry_def at)
  have "db_clock (db_run now ops db) = db_clock db0" "db_by_key (db_run now ops db) = db_by_key db0"
    "length (db_storages (db_run now ops db)) = length (db_storages db0)"
    using same_shape_nth(1,3,4) [OF shape2] by simp_all
  then show thesis
    using that [of "of_nat i" "en_record (db_storages (db_run now ops db) ! i)"] same rid st(2)
    by (simp add: resolve_str_def storage_Some)
qed

lemma services_gone:
  assumes len: "length (bd_records (builder_run bid calls)) < 2 ^ 32"
    and built: "build_db check connect (builder_run bid calls) = Some (Inr (db, futures))"
    and e: "e \<in> set (db_storages (db_run now ops db))"
  shows "tr_producer (en_record e) = None \<and> tr_transform (en_record e) = None \<and> tr_consumers (en_record e) = []"
proof -
  let ?b = "builder_run bid calls"
  from built_db [OF builder_inv_run len built] obtain db0 where
    reg: "build_registry check ?b = Some (Inr db0)" and shape: "same_shape (take_keys (fst ` set (bd_records ?b)) db0) db"
    by blast
  let ?db1 = "take_keys (fst ` set (bd_records ?b)) db0"
  note shape2 = same_shape_trans [OF shape same_shape_run [of db now ops]]
  obtain i where i: "i < length (db_storages (db_run now ops db))" "e = db_storages (db_run now ops db) ! i"
    using e by (auto simp: in_set_conv_nth)
  then have i0: "i < length (db_storages db0)" using same_shape_nth(1) [OF shape2] by simp
  have "en_key (db_storages db0 ! i) \<in> fst ` set (bd_records ?b)"
    using i0 unfolding built_registry(2) [OF builder_inv_run len reg] bind_clocks_registered
    by (simp add: fresh_entry_def)
  then have "db_storages ?db1 ! i = (db_storages db0 ! i)\<lparr>en_record := taken (en_record (db_storages db0 ! i))\<rparr>"
    using i0 by (simp add: take_keys_def)
  moreover have "same_entry (db_storages ?db1 ! i) e"
    using same_shape_nth(2) [OF shape2, of i] i i0 by simp
  ultimately have "same_record (taken (en_record (db_storages db0 ! i))) (en_record e)"
    by (simp add: same_entry_def)
  from same_record_keeps(2,3,4) [OF this] show ?thesis by (simp add: taken_def)
qed

lemma remote_write_outcome:
  fixes calls :: "('v, 'j, 'f) builder_call list"
  assumes len: "length (bd_records (builder_run bid calls)) < 2 ^ 32"
    and built: "build_db check connect (builder_run bid calls) = Some (Inr (db, futures))"
    and mem: "(k, ty, r) \<in> set (bd_records (builder_run bid calls))"
  shows "\<exists>rid r'. resolve_str (db_run now ops db) k = Some rid \<and> storage (db_run now ops db) rid = Some r'
     \<and> set_record_from_json now' k json (db_run now ops db) = Some
         (case tr_codec r of
            None \<Rightarrow> Inl (NotRemote ty)
          | Some codec \<Rightarrow>
              (case jc_decode codec json of
                 None \<Rightarrow> Inl (DecodeFailed ty)
               | Some v \<Rightarrow> Inr (set_record (unat rid)
                   (writer_push now' (db_clock (db_run now ops db)) v r') (db_run now ops db))))"
proof -
  let ?db = "db_run now ops db"
  obtain rid r' where rid: "resolve_str ?db k = Some rid" and r': "storage ?db rid = Some r'"
    and same: "same_record (taken (bind_clock (db_clock ?db) (clean r))) r'"
    by (rule running_record [OF len built mem, of now ops])
  note keeps = same_record_keeps [OF same]
  have "record_config_inv k ty r" using builder_inv_run [of bid calls] mem by (auto simp: builder_inv_def)
  then have shape: "tr_type r' = ty" "tr_producer r' = None" "tr_transform r' = None" "tr_codec r' = tr_codec r"
    "tr_clock r' = Some (db_clock ?db)" "tr_buffer r' = None \<longleftrightarrow> tr_buffer r = None"
    using keeps by (simp_all add: taken_def bind_clock_def record_config_inv_def)
  from built_db [OF builder_inv_run len built] obtain db0 where
    reg: "build_registry check (builder_run bid calls) = Some (Inr db0)" by blast
  have "tr_codec r \<noteq> None \<longrightarrow> tr_buffer r \<noteq> None"
    by (rule no_record_mistakes(2) [OF built_registry(4) [OF builder_inv_run len reg] mem])
  then have "set_from_json now' json r' =
      (case tr_codec r of
         None \<Rightarrow> Inl (NotRemote ty)
       | Some codec \<Rightarrow>
           (case jc_decode codec json of
              None \<Rightarrow> Inl (DecodeFailed ty)
            | Some v \<Rightarrow> Inr (writer_push now' (db_clock ?db) v r')))"
    using shape
    by (auto simp: set_from_json_def remote_write_codec_def has_producer_def has_transform_def
        commit_remote_write_def writer_handle_def split: option.splits)
  then show ?thesis
    using rid r'
    by (intro exI [of _ rid] exI [of _ r'])
      (auto simp: set_record_from_json_def split: option.splits)
qed

subsection \<open>Properties\<close>

text \<open>A configuration with a source, a tap, remote access, transforms (one of a record without a
  buffer), an inbound link and a start task.\<close>

definition demo_calls :: "(nat, nat, nat) builder_call list" where
  "demo_calls =
    [WithConnector \<lparr>cn_scheme = ''mqtt'', cn_owns = False, cn_id = 0\<rparr>, WithRuntime 0,
     Configure 1 ''a'' [CallBufferRaw (Mailbox None []), CallSource 7, CallTap 8,
       CallRemote \<lparr>jc_encode = Some, jc_decode = Some, jc_encode_to_vec = (\<lambda>_. Some []), jc_decode_slice = (\<lambda>_. Some 0)\<rparr>],
     Configure 1 ''b'' [CallTransform ''a'' 1 9],
     Configure 1 ''c'' [CallBufferRaw (Mailbox None []),
       CallInput (with_deserializer (\<lambda>_. Inr 3) (inbound_link_new ''mqtt://t''))],
     Configure 1 ''d'' [CallTransform ''b'' 1 6], OnStart 5]"

definition demo_builder :: "(nat, nat, nat) builder" where
  "demo_builder = builder_run 0 demo_calls"

definition demo_build :: "(nat, nat, nat) aimdb \<times> nat future list" where
  "demo_build =
    (case build_db (\<lambda>_. Inl '''') (\<lambda>_ _. (Inr [], [])) demo_builder of
       Some (Inr x) \<Rightarrow> x
     | _ \<Rightarrow> (\<lparr>db_storages = [], db_by_key = (\<lambda>_. None), db_graph = \<lparr>graph_nodes = [], graph_edges = [], topo_order = []\<rparr>,
             db_identity = \<lparr>ic_name = None, ic_uid = None, ic_build_info = None\<rparr>, db_clock = 0\<rparr>, []))"

definition demo_db :: "(nat, nat, nat) aimdb" where
  "demo_db = fst demo_build"

lemma demo_len: "length (bd_records (builder_run 0 demo_calls)) < 2 ^ 32"
proof -
  have "length (bd_records (builder_run 0 demo_calls)) = 4" by code_simp
  then show ?thesis by simp
qed

lemma demo_built:
  "build_db (\<lambda>_. Inl '''') (\<lambda>_ _. (Inr [], [])) (builder_run 0 demo_calls) = Some (Inr (demo_db, snd demo_build))"
proof -
  have "case build_db (\<lambda>_. Inl '''') (\<lambda>_ _. (Inr [], [])) demo_builder of Some (Inr x) \<Rightarrow> True | _ \<Rightarrow> False"
    by code_simp
  then show ?thesis
    by (cases "build_db (\<lambda>_. Inl '''') (\<lambda>_ _. (Inr [], [])) demo_builder")
      (auto simp: demo_db_def demo_build_def demo_builder_def split: sum.splits)
qed

lemma demo_keys: "map (\<lambda>(k, ty, r). (k, ty)) (bd_records (builder_run 0 demo_calls)) = [(''a'', 1), (''b'', 1), (''c'', 1), (''d'', 1)]"
  by code_simp

lemma member_keys:
  assumes "map (\<lambda>(k, ty, r). (k, ty)) xs = ks" and "i < length ks" and "ks ! i = (k, ty)"
  shows "(k, ty, snd (snd (xs ! i))) \<in> set xs"
proof -
  have i: "i < length xs" using assms(1,2) by auto
  then have "(\<lambda>(k, ty, r). (k, ty)) (xs ! i) = (k, ty)" using assms(1,3) by auto
  then have "(k, ty, snd (snd (xs ! i))) = xs ! i" by (cases "xs ! i") simp
  then show ?thesis using nth_mem [OF i] by metis
qed

lemmas demo_member = member_keys [OF demo_keys]

text \<open>
  C10. Every service registered on a record runs exactly once and nothing else does, besides what
  connectors and \<open>on_start\<close> add: the records come in one order that holds each once, after every
  input of its transform, whatever the seed and the connectors.
\<close>

theorem services_started:
  fixes calls :: "('v, 'j, 'f) builder_call list"
  assumes "length (bd_records (builder_run bid calls)) < 2 ^ 32"
    and "build_db check connect (builder_run bid calls) = Some (Inr (db, futures))"
  shows "\<exists>order gs. distinct order \<and> set order = fst ` set (bd_records (builder_run bid calls))
     \<and> (\<forall>xs k ys i. order = xs @ k # ys \<longrightarrow> (k, i) \<in> inputs_of (builder_run bid calls) \<longrightarrow> i \<in> set xs)
     \<and> futures = concat (map (\<lambda>k. record_futures k (builder_record (builder_run bid calls) k)) order)
         @ map ConnectorTask gs @ map StartTask (bd_start_fns (builder_run bid calls))"
  by (rule collected_services [OF assms])

text \<open>
  C25. A built database is well formed and stays so under every sequence of writes, reads, remote
  writes and key assignments: the index is exact, every record keeps its type and the instance's
  clock, and whatever a link or remote access relies on has a buffer.
\<close>

theorem database_well_formed:
  fixes calls :: "('v, 'j, 'f) builder_call list"
  assumes "length (bd_records (builder_run bid calls)) < 2 ^ 32"
    and "build_db check connect (builder_run bid calls) = Some (Inr (db, futures))"
  shows "db_ok (db_run now ops db)"
  by (rule running_ok [OF assms])

text \<open>
  The outcome of every remote write on a running database, by the record's configuration: a
  record without remote access refuses, JSON of another shape refuses, and anything else is stored,
  stamped with the instance's clock; the registered services of the record play no part.
\<close>

theorem remote_write_exact:
  fixes calls :: "('v, 'j, 'f) builder_call list"
  assumes len: "length (bd_records (builder_run bid calls)) < 2 ^ 32"
    and built: "build_db check connect (builder_run bid calls) = Some (Inr (db, futures))"
    and mem: "(k, ty, r) \<in> set (bd_records (builder_run bid calls))"
  shows "\<exists>rid r'. resolve_str (db_run now ops db) k = Some rid \<and> storage (db_run now ops db) rid = Some r'
     \<and> set_record_from_json now' k json (db_run now ops db) = Some
         (case tr_codec r of
            None \<Rightarrow> Inl (NotRemote ty)
          | Some codec \<Rightarrow>
              (case jc_decode codec json of
                 None \<Rightarrow> Inl (DecodeFailed ty)
               | Some v \<Rightarrow> Inr (set_record (unat rid)
                   (writer_push now' (db_clock (db_run now ops db)) v r') (db_run now ops db))))"
  by (rule remote_write_outcome [OF assms])

text \<open>
  C30. A running source does not protect its record: although its service was started, a remote write
  that decodes is stored, and the listing of the records shows no producer and no consumer anywhere.
\<close>

theorem source_overridden:
  fixes calls :: "('v, 'j, 'f) builder_call list"
  assumes len: "length (bd_records (builder_run bid calls)) < 2 ^ 32"
    and built: "build_db check connect (builder_run bid calls) = Some (Inr (db, futures))"
    and mem: "(k, ty, r) \<in> set (bd_records (builder_run bid calls))"
    and source: "tr_producer r = Some f" and codec: "tr_codec r = Some codec" and json: "jc_decode codec json = Some v"
  shows "SourceTask k f \<in> set futures
     \<and> (\<exists>db'. set_record_from_json now' k json (db_run now ops db) = Some (Inr db'))
     \<and> (\<forall>m \<in> set (list_records (db_run now ops db)). rm_producer_count m = 0 \<and> rm_consumer_count m = 0)"
proof (intro conjI ballI)
  let ?b = "builder_run bid calls"
  from collected_services [OF len built] obtain order gs where
    order: "set order = fst ` set (bd_records ?b)"
    and futures: "futures = concat (map (\<lambda>k. record_futures k (builder_record ?b k)) order)
        @ map ConnectorTask gs @ map StartTask (bd_start_fns ?b)"
    by blast
  have "builder_record ?b k = r" using builder_record_eq [OF builder_inv_run mem] by metis
  then have "SourceTask k f \<in> set (record_futures k (builder_record ?b k))"
    using source by (simp add: record_futures_def)
  moreover have "k \<in> set order" using imageI [OF mem, of fst] order by simp
  ultimately show "SourceTask k f \<in> set futures" unfolding futures by auto
  from remote_write_outcome [OF len built mem, of now ops now' json] codec json
  show "\<exists>db'. set_record_from_json now' k json (db_run now ops db) = Some (Inr db')" by auto
next
  fix m assume "m \<in> set (list_records (db_run now ops db))"
  then obtain i e where e: "(i, e) \<in> set (enumerate 0 (db_storages (db_run now ops db)))"
    and m: "rm_producer_count m = rm_producer_count (collect_metadata (en_type e) (en_key e) (of_nat i) (en_record e))"
      "rm_consumer_count m = rm_consumer_count (collect_metadata (en_type e) (en_key e) (of_nat i) (en_record e))"
    by (auto simp: list_records_def)
  have "e \<in> set (db_storages (db_run now ops db))" using e by (auto simp: in_set_enumerate_eq)
  from services_gone [OF len built this] show "rm_producer_count m = 0" "rm_consumer_count m = 0"
    using m by (simp_all add: collect_metadata_def has_producer_def consumer_count_def split: prod.splits)
qed

text \<open>
  C35. Every input of a transform resolves to the record it was checked against with the type it is
  read as; what can still fail when the transform starts is a record without a buffer, which \<open>build\<close>
  does not report: the transform then ends at once.
\<close>

theorem transform_inputs_resolve:
  fixes calls :: "('v, 'j, 'f) builder_call list"
  assumes len: "length (bd_records (builder_run bid calls)) < 2 ^ 32"
    and built: "build_db check connect (builder_run bid calls) = Some (Inr (db, futures))"
    and mem: "(k, ty, r) \<in> set (bd_records (builder_run bid calls))"
    and input: "(i, ity) \<in> set (transform_input_types r)"
  shows "\<exists>r'. (i, ity, r') \<in> set (bd_records (builder_run bid calls))
     \<and> (if tr_buffer r' = None then db_consumer ity i (db_run now ops db) = Inl (MissingConfiguration i)
        else \<exists>rid. db_consumer ity i (db_run now ops db) = Inr rid \<and> resolve_str (db_run now ops db) i = Some rid)"
proof -
  let ?b = "builder_run bid calls" and ?db = "db_run now ops db"
  from built_db [OF builder_inv_run len built] obtain db0 where reg: "build_registry check ?b = Some (Inr db0)" by blast
  obtain d where d: "tr_transform r = Some d" "i \<in> set (td_input_keys d)"
    using input by (cases "tr_transform r") (auto simp: transform_input_types_def dest: set_zip_leftD)
  then have ki: "(k, i) \<in> inputs_of ?b" using mem by (auto simp: inputs_of_def)
  have k: "k \<in> set (topo_order (db_graph db0))" and "set (topo_order (db_graph db0)) = fst ` set (bd_records ?b)"
    using built_registry(5) [OF builder_inv_run len reg] imageI [OF mem, of fst] by simp_all
  from split_list [OF k] obtain xs ys where split: "topo_order (db_graph db0) = xs @ k # ys" by blast
  then have "i \<in> set xs" using built_registry(5) [OF builder_inv_run len reg] ki by blast
  then have "i \<in> fst ` set (bd_records ?b)"
    using split \<open>set (topo_order (db_graph db0)) = fst ` set (bd_records ?b)\<close> by (metis Un_iff set_append)
  from key_record [OF this] obtain ity' r' where mem': "(i, ity', r') \<in> set (bd_records ?b)" by blast
  have "ity' = ity"
  proof (rule ccontr)
    assume "ity' \<noteq> ity"
    then have "(k, InputTypeMismatch i ity ity') \<in> mistakes check ?b"
      using mem input mem' unfolding mistakes_def by blast
    then show False using built_registry(4) [OF builder_inv_run len reg] by simp
  qed
  obtain rid s where rid: "resolve_str ?db i = Some rid" and s: "storage ?db rid = Some s"
    and same: "same_record (taken (bind_clock (db_clock ?db) (clean r'))) s"
    by (rule running_record [OF len built mem', of now ops])
  note keeps = same_record_keeps(1,9) [OF same]
  have "record_config_inv i ity' r'" using builder_inv_run [of bid calls] mem' by (auto simp: builder_inv_def)
  then have "tr_type s = ity" "tr_buffer s = None \<longleftrightarrow> tr_buffer r' = None"
    using keeps \<open>ity' = ity\<close> by (simp_all add: taken_def bind_clock_def record_config_inv_def)
  then have "db_consumer ity i ?db = (if tr_buffer r' = None then Inl (MissingConfiguration i) else Inr rid)"
    using rid s get_typed_Inr [of ity ?db rid s] by (simp add: db_consumer_def)
  then show ?thesis using mem' rid \<open>ity' = ity\<close> by (intro exI [of _ r']) simp
qed

subsection \<open>Witnesses\<close>

lemma record_at_member: "(k, ty, r) \<in> set (bd_records (builder_run bid calls)) \<Longrightarrow> builder_record (builder_run bid calls) k = r"
  by (rule builder_record_eq [OF builder_inv_run])

theorem services_started_witness:
  "\<exists>order gs. distinct order \<and> set order = fst ` set (bd_records (builder_run 0 demo_calls))
     \<and> snd demo_build = concat (map (\<lambda>k. record_futures k (builder_record (builder_run 0 demo_calls) k)) order)
         @ map ConnectorTask gs @ map StartTask (bd_start_fns (builder_run 0 demo_calls))"
  using services_started [OF demo_len demo_built] by blast

theorem database_well_formed_witness: "db_ok (db_run (\<lambda>_. 7) [DbSetWritable 0 True] demo_db)"
  by (rule database_well_formed [OF demo_len demo_built])

theorem remote_write_exact_witness:
  "\<exists>rid r'. resolve_str (db_run (\<lambda>_. 7) [] demo_db) ''a'' = Some rid
     \<and> set_record_from_json (\<lambda>_. 9) ''a'' 4 (db_run (\<lambda>_. 7) [] demo_db)
       = Some (Inr (set_record (unat rid) (writer_push (\<lambda>_. 9) (db_clock (db_run (\<lambda>_. 7) [] demo_db)) 4 r')
           (db_run (\<lambda>_. 7) [] demo_db)))"
proof -
  let ?r = "snd (snd (bd_records (builder_run 0 demo_calls) ! 0))"
  have mem: "(''a'', 1, ?r) \<in> set (bd_records (builder_run 0 demo_calls))" by (rule demo_member) simp_all
  have "case tr_codec ?r of None \<Rightarrow> False | Some c \<Rightarrow> jc_decode c 4 = Some 4" by code_simp
  then obtain c where c: "tr_codec ?r = Some c" "jc_decode c 4 = Some 4" by (auto split: option.splits)
  show ?thesis
    using remote_write_exact [OF demo_len demo_built mem, of "\<lambda>_. 7" "[]" "\<lambda>_. 9" 4] unfolding c(1) by (auto simp: c(2))
qed

theorem source_overridden_witness:
  "SourceTask ''a'' 7 \<in> set (snd demo_build)
     \<and> (\<exists>db'. set_record_from_json (\<lambda>_. 9) ''a'' 4 (db_run (\<lambda>_. 7) [] demo_db) = Some (Inr db'))"
proof -
  let ?r = "snd (snd (bd_records (builder_run 0 demo_calls) ! 0))"
  have mem: "(''a'', 1, ?r) \<in> set (bd_records (builder_run 0 demo_calls))" by (rule demo_member) simp_all
  have "case tr_codec ?r of None \<Rightarrow> False | Some c \<Rightarrow> jc_decode c 4 = Some 4" by code_simp
  then obtain c where c: "tr_codec ?r = Some c" "jc_decode c 4 = Some 4" by (auto split: option.splits)
  have "tr_producer ?r = Some 7" by code_simp
  from source_overridden [OF demo_len demo_built mem this c, of "\<lambda>_. 9" "\<lambda>_. 7" "[]"] show ?thesis by blast
qed

theorem transform_inputs_resolve_witness:
  "db_consumer 1 ''b'' (db_run (\<lambda>_. 7) [] demo_db) = Inl (MissingConfiguration ''b'')"
proof -
  let ?r = "snd (snd (bd_records (builder_run 0 demo_calls) ! 3))" and ?r' = "snd (snd (bd_records (builder_run 0 demo_calls) ! 1))"
  have mem: "(''d'', 1, ?r) \<in> set (bd_records (builder_run 0 demo_calls))"
    and mem': "(''b'', 1, ?r') \<in> set (bd_records (builder_run 0 demo_calls))"
    by (rule demo_member; simp)+
  have input: "(''b'', 1) \<in> set (transform_input_types ?r)" by code_simp
  have none: "tr_buffer ?r' = None" by code_simp
  from transform_inputs_resolve [OF demo_len demo_built mem input, of "\<lambda>_. 7" "[]"] obtain s where
    s: "(''b'', 1, s) \<in> set (bd_records (builder_run 0 demo_calls))"
    and out: "if tr_buffer s = None then db_consumer 1 ''b'' (db_run (\<lambda>_. 7) [] demo_db) = Inl (MissingConfiguration ''b'')
      else \<exists>rid. db_consumer 1 ''b'' (db_run (\<lambda>_. 7) [] demo_db) = Inr rid
         \<and> resolve_str (db_run (\<lambda>_. 7) [] demo_db) ''b'' = Some rid" by blast
  have "s = ?r'" using record_at_member [OF s] record_at_member [OF mem'] by simp
  then show ?thesis using out none by simp
qed

end
