(* ===== verification/Db_Links.thy ===== *)
theory Db_Links
  imports Db_Startup
begin

text \<open>
  How the links of a running database are compiled and used: the inbound router of a scheme
  (\<open>inbound_router\<close>, \<open>inbound_route\<close> of \<open>aimdb-core/src/builder.rs\<close>, the fused ingest closures of
  \<open>typed_api.rs\<close>), a message from the transport into the records (\<open>inbound_dispatch.rs\<close>), and the
  outbound links of a scheme handed to \<open>Outbound_Routes\<close>.  The grammar is a parameter.
\<close>

subsection \<open>Inbound\<close>

record inbound_route_info =
  ir_topic :: string
  ir_type :: nat
  ir_record_index :: nat
  ir_config :: "(string \<times> string) list"

text \<open>What an ingest closure captured: the write handle and the deserializer.\<close>

record 'v ingest =
  in_record :: u32
  in_clock :: nat
  in_deser :: "'v deserializer"

type_synonym 'v inbound_router = "(compiled_route \<times> 'v ingest \<times> inbound_route_info) list"

text \<open>\<open>create_ingest\<close>; \<open>None\<close> is the panic of \<open>inbound_producer\<close>.\<close>

definition create_ingest :: "nat \<Rightarrow> 'v inbound_link \<Rightarrow> ('v, 'j, 'f) aimdb \<Rightarrow> 'v ingest option" where
  "create_ingest ty l db =
     (case db_producer ty (il_record l) db of
        Inl _ \<Rightarrow> None
      | Inr (rid, c) \<Rightarrow> Some \<lparr>in_record = rid, in_clock = c, in_deser = il_deser l\<rparr>)"

definition route_key_of ::
  "nat \<Rightarrow> ('v, 'j, 'f) record_entry \<Rightarrow> 'v inbound_link \<Rightarrow> string \<Rightarrow> string list \<Rightarrow> mistake + (nat \<times> nat) option" where
  "route_key_of i e l topic names =
     (case (il_key l, en_key_table e) of
        (Some (capture, _), Some _) \<Rightarrow>
          (case position (\<lambda>n. n = capture) names of
             None \<Rightarrow> Inl (KeyNotCapture capture topic)
           | Some n \<Rightarrow> Inr (Some (i, n)))
      | _ \<Rightarrow> Inr None)"

definition inbound_route ::
  "(string \<Rightarrow> part list \<Rightarrow> topic_filter option) \<Rightarrow> ('v, 'j, 'f) aimdb \<Rightarrow> nat \<Rightarrow> ('v, 'j, 'f) record_entry
   \<Rightarrow> 'v inbound_link \<Rightarrow> (mistake + compiled_route \<times> 'v ingest) option" where
  "inbound_route compile db i e l =
     (let topic = resolve_topic l in
      case parse_pattern topic of
        Inl err \<Rightarrow> Some (Inl (BadPattern err))
      | Inr pattern \<Rightarrow>
          (case compile topic pattern of
             None \<Rightarrow> Some (Inl (GrammarRejected topic))
           | Some f \<Rightarrow>
               (let names = capture_parts pattern in
                case route_key_of i e l topic names of
                  Inl m \<Rightarrow> Some (Inl m)
                | Inr key \<Rightarrow>
                    (case create_ingest (en_type e) l db of
                       None \<Rightarrow> None
                     | Some g \<Rightarrow>
                         Some (Inr (route_pattern f names key (\<lambda>m p. \<not> isl (in_deser g m p)), g))))))"

definition scheme_links ::
  "string \<Rightarrow> ('v, 'j, 'f) aimdb \<Rightarrow> (nat \<times> ('v, 'j, 'f) record_entry \<times> 'v inbound_link) list" where
  "scheme_links scheme db =
     concat (map (\<lambda>(i, e). map (\<lambda>l. (i, e, l))
         (filter (\<lambda>l. la_scheme (il_url l) = scheme) (tr_inbound (en_record e))))
       (enumerate 0 (db_storages db)))"

fun collect_routes ::
  "(string \<Rightarrow> part list \<Rightarrow> topic_filter option) \<Rightarrow> ('v, 'j, 'f) aimdb
   \<Rightarrow> (nat \<times> ('v, 'j, 'f) record_entry \<times> 'v inbound_link) list \<Rightarrow> ('v inbound_router \<times> config_error list) option" where
  "collect_routes compile db [] = Some ([], [])"
| "collect_routes compile db ((i, e, l) # rest) =
     (case inbound_route compile db i e l of
        None \<Rightarrow> None
      | Some res \<Rightarrow>
          (case collect_routes compile db rest of
             None \<Rightarrow> None
           | Some (routes, errors) \<Rightarrow>
               (case res of
                  Inl m \<Rightarrow> Some (routes, config_error (en_key e) (Some (url_text (il_url l))) m # errors)
                | Inr (r, g) \<Rightarrow>
                    Some ((r, g, \<lparr>ir_topic = resolve_topic l, ir_type = en_type e, ir_record_index = i,
                                  ir_config = il_config l\<rparr>) # routes, errors))))"

definition inbound_router ::
  "(string \<Rightarrow> part list \<Rightarrow> topic_filter option) \<Rightarrow> string \<Rightarrow> ('v, 'j, 'f) aimdb
   \<Rightarrow> (db_error + 'v inbound_router) option" where
  "inbound_router compile scheme db =
     (case collect_routes compile db (scheme_links scheme db) of
        None \<Rightarrow> None
      | Some (routes, errors) \<Rightarrow>
          Some (if errors \<noteq> [] then Inl (InvalidConfiguration errors) else Inr routes))"

text \<open>The key tables of the records, shared by their routes: table \<open>i\<close> is record \<open>i\<close>'s.\<close>

definition key_store :: "('v, 'j, 'f) aimdb \<Rightarrow> key_store" where
  "key_store db = map (\<lambda>e. case en_key_table e of Some t \<Rightarrow> t | None \<Rightarrow> kt_new 0) (db_storages db)"

definition put_store :: "key_store \<Rightarrow> ('v, 'j, 'f) aimdb \<Rightarrow> ('v, 'j, 'f) aimdb" where
  "put_store store db =
     db\<lparr>db_storages := map (\<lambda>(i, e). e\<lparr>en_key_table := map_option (\<lambda>_. store ! i) (en_key_table e)\<rparr>)
       (enumerate 0 (db_storages db))\<rparr>"

text \<open>An ingest call: deserialize and produce through the captured handle, or drop the message.\<close>

definition apply_ingest ::
  "(nat \<Rightarrow> u64) \<Rightarrow> 'v inbound_router \<Rightarrow> bytes \<Rightarrow> ingest_call \<Rightarrow> ('v, 'j, 'f) aimdb \<Rightarrow> ('v, 'j, 'f) aimdb" where
  "apply_ingest now routes payload c db =
     (case routes ! ic_route c of (_, g, _) \<Rightarrow>
        (case in_deser g (ic_match c) payload of
           Inl _ \<Rightarrow> db
         | Inr v \<Rightarrow> db_step now (DbPush (in_record g) (in_clock g) v) db))"

definition inbound_dispatch ::
  "(nat \<Rightarrow> u64) \<Rightarrow> 'v inbound_router \<Rightarrow> string \<Rightarrow> bytes \<Rightarrow> ('v, 'j, 'f) aimdb \<Rightarrow> ('v, 'j, 'f) aimdb" where
  "inbound_dispatch now routes topic payload db =
     (case dispatch (map fst routes) topic payload (key_store db) of
        (calls, store) \<Rightarrow> fold (apply_ingest now routes payload) calls (put_store store db))"

subsection \<open>Outbound\<close>

definition str_bytes :: "string \<Rightarrow> bytes" where
  "str_bytes s = map of_char s"

definition outbound_of :: "'v connector_link \<Rightarrow> 'v outbound_link" where
  "outbound_of l =
     \<lparr>ol_scheme = str_bytes (la_scheme (cl_url l)), ol_resource = str_bytes (la_resource (cl_url l)),
      ol_topic_writer = cl_topic_writer l, ol_serialize = cl_serialize l, ol_serialize_into = cl_serialize_into l\<rparr>"

text \<open>The records' buffers; one without a buffer has no link, so its place is never read.\<close>

definition db_buffers :: "('v, 'j, 'f) aimdb \<Rightarrow> ('v, u64) buffers" where
  "db_buffers db =
     map (\<lambda>e. case tr_buffer (en_record e) of Some b \<Rightarrow> b | None \<Rightarrow> Mailbox None []) (db_storages db)"

definition db_links :: "('v, 'j, 'f) aimdb \<Rightarrow> 'v record_links list" where
  "db_links db = map (\<lambda>e. map outbound_of (tr_outbound (en_record e))) (db_storages db)"

text \<open>The outbound links of a scheme in route order, and the options of a link a connector sees:
  \<open>ConnectorConfig::from_query\<close> keeps all but the timeout.\<close>

definition scheme_out_links :: "string \<Rightarrow> ('v, 'j, 'f) aimdb \<Rightarrow> (('v, 'j, 'f) record_entry \<times> 'v connector_link) list" where
  "scheme_out_links scheme db =
     concat (map (\<lambda>e. map (Pair e) (filter (\<lambda>l. la_scheme (cl_url l) = scheme) (tr_outbound (en_record e)))) (db_storages db))"

definition protocol_options :: "(string \<times> string) list \<Rightarrow> (string \<times> string) list" where
  "protocol_options config = filter (\<lambda>(k, _). k \<noteq> ''timeout_ms'') config"

definition outbound_for :: "string \<Rightarrow> ('v, 'j, 'f) aimdb \<Rightarrow> ('v, u64) outbound_routes" where
  "outbound_for scheme db = outbound_new (db_buffers db) (db_links db) (str_bytes scheme)"

text \<open>Topics of outbound routes are bytes, link resources are text.\<close>

definition bytes_str :: "bytes \<Rightarrow> string" where
  "bytes_str bs = map (\<lambda>b. char_of (unat b)) bs"

lemma bytes_str_str_bytes: "bytes_str (str_bytes s) = s"
proof -
  have "char_of (unat (of_char c :: u8)) = c" for c
  proof -
    have "(of_char c :: u8) = word_of_nat (of_char c)" by (simp add: of_nat_of_char)
    then have "unat (of_char c :: u8) = of_char c" by (simp add: unat_of_nat of_char_mod_256)
    then show ?thesis by simp
  qed
  then show ?thesis by (induction s) (simp_all add: bytes_str_def str_bytes_def)
qed

lemma str_bytes_inject: "str_bytes s = str_bytes t \<longleftrightarrow> s = t"
  using bytes_str_str_bytes by metis

text \<open>The routes are the links of the scheme, in the same order.\<close>

lemma outbound_for_routes:
  "map (\<lambda>r. (ri_default_topic r, ri_topic_capacity r, ri_payload_capacity r)) (ob_routes (outbound_for scheme db))
     = map (\<lambda>(e, l). (str_bytes (la_resource (cl_url l)),
         (case cl_topic_writer l of Some (capacity, _) \<Rightarrow> capacity | None \<Rightarrow> 0),
         (case cl_serialize_into l of Some (capacity, _) \<Rightarrow> capacity | None \<Rightarrow> 0))) (scheme_out_links scheme db)"
proof -
  let ?links = "outbound_links (db_links db) (str_bytes scheme)"
  let ?info = "\<lambda>l. (ol_resource l, (case ol_topic_writer l of Some (capacity, _) \<Rightarrow> capacity | None \<Rightarrow> 0),
    (case ol_serialize_into l of Some (capacity, _) \<Rightarrow> capacity | None \<Rightarrow> 0))"
  have "map (\<lambda>r. (ri_default_topic r, ri_topic_capacity r, ri_payload_capacity r)) (ob_routes (outbound_for scheme db))
      = map (\<lambda>x. ?info (snd (snd x))) (enumerate 0 ?links)"
    by (simp add: outbound_for_def outbound_new_def Let_def route_of_def route_factory_def case_prod_beta o_def
        split: option.split cong: map_cong)
  also have "\<dots> = map ?info (map snd ?links)" by (rule nth_equalityI) (simp_all add: nth_enumerate_eq)
  also have "map snd ?links = map (outbound_of \<circ> snd) (scheme_out_links scheme db)"
  proof -
    have "map snd (concat (map (\<lambda>(i, links). map (Pair i) (filter P links)) (enumerate n (map f es))))
        = concat (map (\<lambda>e. filter P (f e)) es)" for P n and f :: "('a, 'b, 'c) record_entry \<Rightarrow> 'a outbound_link list" and es
      by (induction es arbitrary: n) (simp_all add: o_def)
    moreover have "ol_scheme (outbound_of l) = str_bytes scheme \<longleftrightarrow> la_scheme (cl_url l) = scheme" for l :: "'a connector_link"
      by (simp add: outbound_of_def str_bytes_inject)
    ultimately show ?thesis
      by (simp add: outbound_links_def db_links_def scheme_out_links_def filter_map o_def map_concat)
  qed
  finally show ?thesis by (simp add: o_def outbound_of_def case_prod_beta)
qed

subsection \<open>Compiling never panics\<close>

lemma db_producer_own:
  assumes "db_ok db" and "i < length (db_storages db)" and "l \<in> set (tr_inbound (en_record (db_storages db ! i)))"
  shows "db_producer (en_type (db_storages db ! i)) (il_record l) db = Inr (of_nat i, db_clock db)"
proof -
  have ok: "entry_ok (db_clock db) (db_storages db ! i)"
    using assms(1,2) by (auto simp: db_ok_def list_all_length)
  then have "il_record l = en_key (db_storages db ! i)" using assms(3) by (simp add: entry_ok_def)
  then show ?thesis
    using db_ok_lookup [OF assms(1,2)] ok assms(2)
    by (simp add: db_producer_def resolve_str_def get_typed_record_by_id_def entry_of_def as_typed_def
        entry_ok_def writer_handle_def)
qed

lemma scheme_links_member:
  "(i, e, l) \<in> set (scheme_links scheme db) \<Longrightarrow>
     i < length (db_storages db) \<and> e = db_storages db ! i \<and> l \<in> set (tr_inbound (en_record e))
     \<and> la_scheme (il_url l) = scheme"
  by (auto simp: scheme_links_def in_set_enumerate_eq)

text \<open>The route a link compiles to.\<close>

definition route_from_link ::
  "(string \<Rightarrow> part list \<Rightarrow> topic_filter option) \<Rightarrow> ('v, 'j, 'f) aimdb \<Rightarrow> nat \<times> ('v, 'j, 'f) record_entry \<times> 'v inbound_link
   \<Rightarrow> compiled_route \<times> 'v ingest \<times> inbound_route_info \<Rightarrow> bool" where
  "route_from_link compile db x y =
     (case (x, y) of ((i, e, l), (r, g, info)) \<Rightarrow>
        (\<exists>pattern f key. parse_pattern (resolve_topic l) = Inr pattern \<and> compile (resolve_topic l) pattern = Some f
           \<and> route_key_of i e l (resolve_topic l) (capture_parts pattern) = Inr key
           \<and> r = route_pattern f (capture_parts pattern) key (\<lambda>m p. \<not> isl (in_deser g m p)))
        \<and> g = \<lparr>in_record = of_nat i, in_clock = db_clock db, in_deser = il_deser l\<rparr>
        \<and> ir_record_index info = i \<and> ir_topic info = resolve_topic l)"

lemma inbound_route_own:
  assumes "db_ok db" and "(i, e, l) \<in> set (scheme_links scheme db)"
  shows "\<exists>out. inbound_route compile db i e l = Some out
     \<and> (\<forall>r g. out = Inr (r, g) \<longrightarrow> route_from_link compile db (i, e, l)
          (r, g, \<lparr>ir_topic = resolve_topic l, ir_type = en_type e, ir_record_index = i, ir_config = il_config l\<rparr>))"
proof -
  have m: "i < length (db_storages db)" "e = db_storages db ! i" "l \<in> set (tr_inbound (en_record (db_storages db ! i)))"
    using scheme_links_member [OF assms(2)] by auto
  have "create_ingest (en_type e) l db = Some \<lparr>in_record = of_nat i, in_clock = db_clock db, in_deser = il_deser l\<rparr>"
    using db_producer_own [OF assms(1) m(1) m(3)] m(2) by (simp add: create_ingest_def)
  then show ?thesis
    by (auto simp: inbound_route_def Let_def route_from_link_def split: sum.split option.split)
qed

lemma collect_routes_own:
  assumes "db_ok db" and "set links \<subseteq> set (scheme_links scheme db)"
  shows "\<exists>routes errors. collect_routes compile db links = Some (routes, errors)
     \<and> (errors = [] \<longrightarrow> list_all2 (route_from_link compile db) links routes)"
  using assms(2)
proof (induction links)
  case Nil
  then show ?case by simp
next
  case (Cons x links)
  obtain i e l where x: "x = (i, e, l)" by (cases x)
  obtain out where out: "inbound_route compile db i e l = Some out"
    and own: "\<And>r g. out = Inr (r, g) \<Longrightarrow> route_from_link compile db (i, e, l)
          (r, g, \<lparr>ir_topic = resolve_topic l, ir_type = en_type e, ir_record_index = i, ir_config = il_config l\<rparr>)"
    using inbound_route_own [OF assms(1), of i e l scheme compile] Cons.prems x by auto
  obtain routes errors where rest: "collect_routes compile db links = Some (routes, errors)"
    and all: "errors = [] \<longrightarrow> list_all2 (route_from_link compile db) links routes"
    using Cons by auto
  show ?case
  proof (cases out)
    case (Inr rg)
    then show ?thesis using out own rest all x by (cases rg) auto
  qed (use out rest x in auto)
qed

subsection \<open>A message into the records\<close>

text \<open>What an unkeyed link makes of a message: the value it produces, if any.\<close>

definition link_values ::
  "(string \<Rightarrow> part list \<Rightarrow> topic_filter option) \<Rightarrow> string \<Rightarrow> bytes \<Rightarrow> 'v inbound_link \<Rightarrow> 'v list" where
  "link_values compile topic payload l =
     (case parse_pattern (resolve_topic l) of
        Inl _ \<Rightarrow> []
      | Inr pattern \<Rightarrow>
          (case compile (resolve_topic l) pattern of
             None \<Rightarrow> []
           | Some f \<Rightarrow>
               (let r = route_pattern f (capture_parts pattern) None (\<lambda>_ _. True) in
                if \<not> hits r topic then []
                else case il_deser l (match_of r topic None) payload of Inl _ \<Rightarrow> [] | Inr v \<Rightarrow> [v])))"

definition push_values :: "(nat \<Rightarrow> u64) \<Rightarrow> nat \<Rightarrow> nat \<Rightarrow> 'v list \<Rightarrow> ('v, 'j, 'f) aimdb \<Rightarrow> ('v, 'j, 'f) aimdb" where
  "push_values now c i vs db = fold (\<lambda>v. db_step now (DbPush (of_nat i) c v)) vs db"

definition buffer_at :: "nat \<Rightarrow> ('v, 'j, 'f) aimdb \<Rightarrow> ('v, u64) stamped wasm_inner option" where
  "buffer_at i db = tr_buffer (en_record (db_storages db ! i))"

definition stored_values ::
  "(nat \<Rightarrow> u64) \<Rightarrow> nat \<Rightarrow> 'v list \<Rightarrow> ('v, u64) stamped wasm_inner \<Rightarrow> ('v, u64) stamped wasm_inner" where
  "stored_values now c vs b = fold (\<lambda>v b. fst (wasm_push \<lparr>st_value = v, st_metadata = now c\<rparr> b)) vs b"

lemma stored_values_Nil [simp]: "map_option (stored_values now c []) b = b"
  by (cases b) (simp_all add: stored_values_def)

lemma stored_values_append:
  "map_option (stored_values now c (vs @ ws)) b
     = map_option (stored_values now c ws) (map_option (stored_values now c vs) b)"
  by (cases b) (simp_all add: stored_values_def)

lemma put_key_store [simp]: "put_store (key_store db) db = db"
proof -
  have "map (\<lambda>(i, e). e\<lparr>en_key_table := map_option (\<lambda>_. key_store db ! i) (en_key_table e)\<rparr>)
      (enumerate 0 (db_storages db)) = db_storages db"
    by (rule nth_equalityI) (auto simp: nth_enumerate_eq key_store_def split: option.split)
  then show ?thesis by (simp add: put_store_def)
qed

lemma push_length [simp]: "length (db_storages (push_values now c i vs db)) = length (db_storages db)"
proof -
  have "length (db_storages (db_step now (DbPush rid c v) db)) = length (db_storages db)" for rid v and db :: "('a, 'b, 'c) aimdb"
    using same_shape_nth(1) [OF same_shape_step] .
  then show ?thesis unfolding push_values_def by (induction vs arbitrary: db) (simp_all del: db_step.simps)
qed

lemma push_buffer:
  assumes "i < length (db_storages db)" and "j < length (db_storages db)" and "length (db_storages db) < 2 ^ 32"
  shows "buffer_at j (db_step now (DbPush (of_nat i) c v) db) =
    (if j = i then map_option (\<lambda>b. fst (wasm_push \<lparr>st_value = v, st_metadata = now c\<rparr> b)) (buffer_at j db) else buffer_at j db)"
proof -
  have i: "unat (of_nat i :: u32) = i" using assms by (simp add: unat_of_nat)
  then show ?thesis
    using assms(1,2) by (simp add: on_buffer_def storage_def entry_of_def buffer_at_def set_record_def)
qed

lemma push_values_buffer:
  assumes "i < length (db_storages db)" and "j < length (db_storages db)" and "length (db_storages db) < 2 ^ 32"
  shows "buffer_at j (push_values now c i vs db) =
    (if j = i then map_option (stored_values now c vs) (buffer_at j db) else buffer_at j db)"
  using assms
proof (induction vs arbitrary: db)
  case (Cons v vs)
  have len: "length (db_storages (db_step now (DbPush (of_nat i) c v) db)) = length (db_storages db)"
    using same_shape_nth(1) [OF same_shape_step] .
  have "push_values now c i (v # vs) db = push_values now c i vs (db_step now (DbPush (of_nat i) c v) db)"
    by (simp add: push_values_def)
  moreover have "stored_values now c (v # vs) = stored_values now c vs \<circ> (\<lambda>b. fst (wasm_push \<lparr>st_value = v, st_metadata = now c\<rparr> b))"
    by (rule ext) (simp add: stored_values_def)
  ultimately show ?case
    using Cons.IH [of "db_step now (DbPush (of_nat i) c v) db"] Cons.prems len push_buffer [OF Cons.prems, of now c v]
    by (cases "j = i") (simp_all add: option.map_comp [symmetric] del: db_step.simps)
next
  case Nil
  show ?case by (simp add: push_values_def)
qed

text \<open>The ingest calls of a message, one link after the other.\<close>

definition deliver_route ::
  "(nat \<Rightarrow> u64) \<Rightarrow> string \<Rightarrow> bytes \<Rightarrow> compiled_route \<times> 'v ingest \<times> inbound_route_info
   \<Rightarrow> ('v, 'j, 'f) aimdb \<Rightarrow> ('v, 'j, 'f) aimdb" where
  "deliver_route now topic payload x db =
     (case x of (r, g, _) \<Rightarrow>
        if \<not> hits r topic then db
        else (case in_deser g (match_of r topic None) payload of
                Inl _ \<Rightarrow> db
              | Inr v \<Rightarrow> db_step now (DbPush (in_record g) (in_clock g) v) db))"

lemma deliver_route_eq:
  "deliver_route now topic payload (r, g, info) db =
     (if \<not> hits r topic then db
      else (case in_deser g (match_of r topic None) payload of
              Inl _ \<Rightarrow> db
            | Inr v \<Rightarrow> db_step now (DbPush (in_record g) (in_clock g) v) db))"
  by (simp add: deliver_route_def del: db_step.simps)

lemma apply_ingest_eq:
  "apply_ingest now routes payload \<lparr>ic_route = i, ic_match = m, ic_ok = ok\<rparr> db =
     (case routes ! i of (_, g, _) \<Rightarrow>
        (case in_deser g m payload of
           Inl _ \<Rightarrow> db
         | Inr v \<Rightarrow> db_step now (DbPush (in_record g) (in_clock g) v) db))"
  by (simp add: apply_ingest_def del: db_step.simps)

lemma dispatch_folds:
  fixes db :: "('v, 'j, 'f) aimdb"
  assumes "\<forall>x \<in> set rs. cr_key (fst x) = None" and "routes = pre @ rs" and "length pre = i"
  shows "fold (apply_ingest now routes payload) (fst (route_from i (map fst rs) topic payload store)) db
      = fold (deliver_route now topic payload) rs db"
    and "snd (route_from i (map fst rs) topic payload store) = store"
proof -
  show "snd (route_from i (map fst rs) topic payload store) = store"
    using route_from_unkeyed [of "map fst rs" i topic payload store] assms(1) by simp
  show "fold (apply_ingest now routes payload) (fst (route_from i (map fst rs) topic payload store)) db
      = fold (deliver_route now topic payload) rs db"
    using assms
  proof (induction rs arbitrary: i pre db)
    case (Cons x rs)
    obtain r g info where x: "x = (r, g, info)" by (cases x)
    have key: "route_key r topic sp store = (Some None, store)" for sp
      using Cons.prems(1) x by (simp add: route_key_def)
    have at: "routes ! i = x" using Cons.prems by (simp add: nth_append)
    have IH: "fold (apply_ingest now routes payload) (fst (route_from (Suc i) (map fst rs) topic payload store)) db
        = fold (deliver_route now topic payload) rs db" for db :: "('v, 'j, 'f) aimdb"
      by (rule Cons.IH [of "pre @ [x]"]) (use Cons.prems in auto)
    show ?case
    proof (cases "hits r topic")
      case False
      then show ?thesis
        using IH route_from_miss [of r topic i "map fst rs" payload store] x
        by (simp add: deliver_route_eq del: route_from.simps)
    next
      case True
      then show ?thesis
        using IH route_from_call [OF True key, of i "map fst rs" payload] x at
        by (simp add: deliver_route_eq apply_ingest_eq del: route_from.simps db_step.simps)
    qed
  qed simp
qed

lemma list_all2_fold:
  "list_all2 P xs ys \<Longrightarrow> (\<And>x y s. P x y \<Longrightarrow> f x s = g y s) \<Longrightarrow> fold f xs s = fold g ys s"
  by (induction arbitrary: s rule: list_all2_induct) simp_all

text \<open>Only an unkeyed link is matched without its record's table.\<close>

lemma deliver_route_link:
  assumes "route_from_link compile db (i, e, l) y" and "il_key l = None"
  shows "deliver_route now topic payload y db' = push_values now (db_clock db) i (link_values compile topic payload l) db'"
    and "cr_key (fst y) = None"
proof -
  obtain r g info where y: "y = (r, g, info)" by (cases y)
  obtain pattern f key where f: "parse_pattern (resolve_topic l) = Inr pattern" "compile (resolve_topic l) pattern = Some f"
    and key: "route_key_of i e l (resolve_topic l) (capture_parts pattern) = Inr key"
    and r: "r = route_pattern f (capture_parts pattern) key (\<lambda>m p. \<not> isl (in_deser g m p))"
    and g: "g = \<lparr>in_record = of_nat i, in_clock = db_clock db, in_deser = il_deser l\<rparr>"
    using assms(1) y unfolding route_from_link_def by auto
  have none: "key = None" using key assms(2) by (simp add: route_key_of_def)
  then show "cr_key (fst y) = None" using y r by (simp add: route_pattern_def)
  have same: "hits (route_pattern f ns k ing) topic = hits (route_pattern f ns k' ing') topic"
    "match_of (route_pattern f ns k ing) topic None = match_of (route_pattern f ns k' ing') topic None" for ns k k' ing ing'
    by (simp_all add: hits_def match_of_def route_matches_def route_pattern_def)
  have h: "hits r topic = hits (route_pattern f (capture_parts pattern) None (\<lambda>_ _. True)) topic"
    and m: "match_of r topic None = match_of (route_pattern f (capture_parts pattern) None (\<lambda>_ _. True)) topic None"
    unfolding r by (rule same)+
  show "deliver_route now topic payload y db' = push_values now (db_clock db) i (link_values compile topic payload l) db'"
    unfolding y deliver_route_eq link_values_def f h m Let_def g
    by (simp add: f push_values_def split: sum.split del: db_step.simps)
qed

definition link_pushes ::
  "(nat \<Rightarrow> u64) \<Rightarrow> nat \<Rightarrow> (string \<Rightarrow> part list \<Rightarrow> topic_filter option) \<Rightarrow> string \<Rightarrow> bytes
   \<Rightarrow> (nat \<times> ('v, 'j, 'f) record_entry \<times> 'v inbound_link) list \<Rightarrow> ('v, 'j, 'f) aimdb \<Rightarrow> ('v, 'j, 'f) aimdb" where
  "link_pushes now c compile topic payload links db =
     fold (\<lambda>(i, e, l). push_values now c i (link_values compile topic payload l)) links db"

lemma link_pushes_buffer:
  assumes "\<forall>x \<in> set links. fst x < length (db_storages db)" and "j < length (db_storages db)"
    and "length (db_storages db) < 2 ^ 32"
  shows "buffer_at j (link_pushes now c compile topic payload links db)
    = map_option (stored_values now c
        (concat (map (\<lambda>(i, e, l). link_values compile topic payload l) (filter (\<lambda>x. fst x = j) links)))) (buffer_at j db)"
  using assms
proof (induction links arbitrary: db)
  case Nil
  show ?case by (simp add: link_pushes_def)
next
  case (Cons x links)
  obtain i e l where x: "x = (i, e, l)" by (cases x)
  let ?vs = "link_values compile topic payload l"
  have first: "link_pushes now c compile topic payload (x # links) db
      = link_pushes now c compile topic payload links (push_values now c i ?vs db)"
    by (simp add: link_pushes_def x)
  show ?case
    using Cons.IH [of "push_values now c i ?vs db"] Cons.prems x push_values_buffer [of i db j now c ?vs]
    unfolding first by (cases "i = j") (simp_all add: stored_values_append)
qed

lemma scheme_links_at:
  assumes "j < length (db_storages db)"
  shows "map (\<lambda>x. snd (snd x)) (filter (\<lambda>x. fst x = j) (scheme_links scheme db))
       = filter (\<lambda>l. la_scheme (il_url l) = scheme) (tr_inbound (en_record (db_storages db ! j)))"
proof -
  let ?links = "\<lambda>e. filter (\<lambda>l. la_scheme (il_url l) = scheme) (tr_inbound (en_record e))"
  have "map (\<lambda>x. snd (snd x)) (filter (\<lambda>x. fst x = j)
        (concat (map (\<lambda>(i, e). map (\<lambda>l. (i, e, l)) (?links e)) (enumerate n es))))
      = (if n \<le> j \<and> j < n + length es then ?links (es ! (j - n)) else [])" for n es
  proof (induction es arbitrary: n)
    case (Cons e es)
    have "filter (\<lambda>x. fst x = j) (map (\<lambda>l. (n, e, l)) (?links e)) = (if n = j then map (\<lambda>l. (n, e, l)) (?links e) else [])"
      by (simp add: filter_map comp_def)
    then show ?case using Cons.IH [of "Suc n"] by (auto simp: nth_Cons' comp_def)
  qed auto
  from this [of 0 "db_storages db"] assms show ?thesis by (simp add: scheme_links_def)
qed

text \<open>
  C27. A message reaches the records exactly through their links: the router of a scheme is
  compiled without a panic on a well-formed database, and once it is, a message with unkeyed links
  leaves in the buffer of every record, however the database ran since, the values its own links of
  that scheme make of it (each link matched on its topic and deserialized, once, in the order
  of the links), stamped with the instance's clock; no other record changes.
\<close>

theorem inbound_delivered:
  fixes db :: "('v, 'j, 'f) aimdb"
  assumes "db_ok db" and "inbound_router compile scheme db = Some (Inr routes)"
    and "\<forall>e \<in> set (db_storages db). \<forall>l \<in> set (tr_inbound (en_record e)). la_scheme (il_url l) = scheme \<longrightarrow> il_key l = None"
    and "i < record_count db"
  shows "buffer_at i (inbound_dispatch now routes topic payload (db_run now' ops db))
    = map_option (stored_values now (db_clock db)
        (concat (map (link_values compile topic payload)
          (filter (\<lambda>l. la_scheme (il_url l) = scheme) (tr_inbound (en_record (db_storages db ! i)))))))
      (buffer_at i (db_run now' ops db))"
proof -
  let ?links = "scheme_links scheme db" and ?db = "db_run now' ops db"
  have "list_all2 (route_from_link compile db) ?links routes"
    using collect_routes_own [OF assms(1) subset_refl, of compile scheme] assms(2)
    by (auto simp: inbound_router_def split: if_splits)
  then have "list_all2 (\<lambda>x y. route_from_link compile db x y \<and> x \<in> set ?links) ?links routes"
    by (simp add: list_all2_conv_all_nth)
  moreover have "il_key l = None" if "(i, e, l) \<in> set ?links" for i e l
    using scheme_links_member [OF that] assms(3) by (metis nth_mem)
  ultimately have all: "list_all2 (\<lambda>x y. route_from_link compile db x y \<and> il_key (snd (snd x)) = None) ?links routes"
    by (elim list_all2_mono) auto
  from all have "\<forall>y \<in> set routes. cr_key (fst y) = None"
  proof (induction rule: list_all2_induct)
    case (Cons x xs y ys)
    obtain i e l where x: "x = (i, e, l)" by (cases x)
    then show ?case using Cons deliver_route_link(2) [of compile db i e l y] by simp
  qed simp
  from dispatch_folds(1) [OF this, of routes "[]" 0 now payload topic "key_store ?db" ?db]
    dispatch_folds(2) [OF this, of routes "[]" 0 topic payload "key_store ?db"]
  have "inbound_dispatch now routes topic payload ?db = fold (deliver_route now topic payload) routes ?db"
    by (cases "dispatch (map fst routes) topic payload (key_store ?db)")
      (simp add: inbound_dispatch_def dispatch_def route_def)
  also have "\<dots> = link_pushes now (db_clock db) compile topic payload ?links ?db"
    unfolding link_pushes_def
  proof (rule list_all2_fold [OF all, symmetric])
    fix x :: "nat \<times> ('v, 'j, 'f) record_entry \<times> 'v inbound_link" and y and d :: "('v, 'j, 'f) aimdb"
    obtain i e l where x: "x = (i, e, l)" by (cases x)
    assume "route_from_link compile db x y \<and> il_key (snd (snd x)) = None"
    then show "(case x of (i, e, l) \<Rightarrow> push_values now (db_clock db) i (link_values compile topic payload l)) d
        = deliver_route now topic payload y d"
      using deliver_route_link(1) [of compile db i e l y now topic payload d] x by simp
  qed
  finally have eq: "inbound_dispatch now routes topic payload ?db
      = link_pushes now (db_clock db) compile topic payload ?links ?db" .
  have len: "length (db_storages ?db) = length (db_storages db)"
    by (rule same_shape_nth(1) [OF same_shape_run])
  have "map (\<lambda>(i, e, l). link_values compile topic payload l) (filter (\<lambda>x. fst x = i) ?links)
      = map (link_values compile topic payload) (map (\<lambda>x. snd (snd x)) (filter (\<lambda>x. fst x = i) ?links))"
    by (simp add: case_prod_beta comp_def)
  also have "\<dots> = map (link_values compile topic payload)
      (filter (\<lambda>l. la_scheme (il_url l) = scheme) (tr_inbound (en_record (db_storages db ! i))))"
    using scheme_links_at [of i db scheme] assms(4) by (simp add: record_count_def)
  finally show ?thesis
    unfolding eq using assms(1,4) len
    by (subst link_pushes_buffer) (auto dest: scheme_links_member simp: record_count_def db_ok_def)
qed

definition demo_routes :: "nat inbound_router" where
  "demo_routes = (case inbound_router mqtt_compile_opt ''mqtt'' demo_db of Some (Inr rs) \<Rightarrow> rs | _ \<Rightarrow> [])"

theorem inbound_delivered_witness:
  "buffer_at 2 (inbound_dispatch (\<lambda>_. 7) demo_routes ''t'' [1] (db_run (\<lambda>_. 0) [] demo_db))
     = Some (Mailbox (Some \<lparr>st_value = 3, st_metadata = 7\<rparr>) [])"
proof -
  have "db_ok demo_db" using running_ok [OF demo_len demo_built, of undefined "[]"] by (simp add: db_run_def)
  moreover have "case inbound_router mqtt_compile_opt ''mqtt'' demo_db of Some (Inr rs) \<Rightarrow> True | _ \<Rightarrow> False"
    by code_simp
  then have "inbound_router mqtt_compile_opt ''mqtt'' demo_db = Some (Inr demo_routes)"
    by (auto simp: demo_routes_def split: option.splits sum.splits)
  moreover have "list_all (\<lambda>e. list_all (\<lambda>l. la_scheme (il_url l) = ''mqtt'' \<longrightarrow> il_key l = None) (tr_inbound (en_record e)))
      (db_storages demo_db)" by code_simp
  then have "\<forall>e \<in> set (db_storages demo_db). \<forall>l \<in> set (tr_inbound (en_record e)). la_scheme (il_url l) = ''mqtt'' \<longrightarrow> il_key l = None"
    by (simp add: list_all_iff)
  moreover have "2 < record_count demo_db" by code_simp
  ultimately have "buffer_at 2 (inbound_dispatch (\<lambda>_. 7) demo_routes ''t'' [1] (db_run (\<lambda>_. 0) [] demo_db))
    = map_option (stored_values (\<lambda>_. 7) (db_clock demo_db)
        (concat (map (link_values mqtt_compile_opt ''t'' [1])
          (filter (\<lambda>l. la_scheme (il_url l) = ''mqtt'') (tr_inbound (en_record (db_storages demo_db ! 2)))))))
      (buffer_at 2 (db_run (\<lambda>_. 0) [] demo_db))"
    by (rule inbound_delivered)
  also have "\<dots> = Some (Mailbox (Some \<lparr>st_value = 3, st_metadata = 7\<rparr>) [])" by code_simp
  finally show ?thesis .
qed

end
