(* ===== verification/Record_Stream.thy ===== *)
theory Record_Stream
  imports Db_Core Session_Messages
begin

text \<open>
  Reading a record from outside: \<open>record_updates\<close> of \<open>aimdb-core/src/remote/stream.rs\<close>, the stream behind
  a subscription, and the drain loop of \<open>session/aimx/dispatch.rs\<close>.  Both loop over a reader until it has
  nothing more to give; they end because every value and every lag moves the reader forward.
\<close>

subsection \<open>Progress\<close>

text \<open>How often a reader can still be served without a write.\<close>

fun reads_left :: "'a wasm_inner \<Rightarrow> reader_state \<Rightarrow> nat" where
  "reads_left (SpmcRing ring capacity write_seq wakers) (RingReader read_seq) = unat write_seq - unat read_seq"
| "reads_left (SingleLatest slot version wakers) (LatestReader last_seen) =
     (if slot = None \<or> version = last_seen then 0 else 1)"
| "reads_left (Mailbox slot wakers) MailboxReader = (if slot = None then 0 else 1)"
| "reads_left inner rd = 0"

lemma ring_progress:
  assumes "wasm_try_recv (SpmcRing ring capacity W wk) (RingReader p) = (out, buf', rd')"
    and "out = Got v \<or> out = BufferLagged n"
  shows "reads_left buf' rd' < unat W - unat p"
proof -
  let ?oldest = "sat_sub W (of_nat (length ring))"
  have lt: "unat p < unat W" using assms by (auto simp: Let_def word_le_nat_alt not_le split: if_splits)
  have oldest: "unat ?oldest \<le> unat W" by (simp add: unat_sat_sub)
  show ?thesis
  proof (cases "p < ?oldest")
    case True
    then show ?thesis
      using assms lt oldest by (auto simp: Let_def word_le_nat_alt word_less_nat_alt)
  next
    case False
    have "unat (p + 1) = Suc (unat p)"
      using lt unat_bound [of W] by (simp add: unat_word_ariths)
    then show ?thesis using assms False lt by (auto simp: Let_def word_le_nat_alt)
  qed
qed

lemma reads_left_less:
  assumes "wasm_try_recv buf rd = (out, buf', rd')" and "out = Got v \<or> out = BufferLagged n"
  shows "reads_left buf' rd' < reads_left buf rd"
proof (cases buf)
  case (SpmcRing ring capacity W wk)
  then show ?thesis
  proof (cases rd)
    case (RingReader p)
    then show ?thesis using ring_progress [of ring capacity W wk p out buf' rd' v n] assms SpmcRing by simp
  qed (use assms SpmcRing in auto)
next
  case (SingleLatest slot version wk)
  then show ?thesis using assms by (cases rd) (auto split: if_splits option.splits)
next
  case (Mailbox slot wk)
  then show ?thesis using assms by (cases rd) (auto split: option.splits)
qed

definition reader_left :: "('v, 'j, 'f) typed_record \<Rightarrow> ('v, 'j) json_reader \<Rightarrow> nat" where
  "reader_left r jr = (case tr_buffer r of None \<Rightarrow> 0 | Some buf \<Rightarrow> reads_left buf (fst jr))"

lemma try_recv_progress:
  assumes "try_recv_with f r jr = (out, r', jr')" and "out = Inr s \<or> out = Inl (DbBufferLagged n)"
  shows "reader_left r' jr' < reader_left r jr"
proof -
  obtain buf where buf: "tr_buffer r = Some buf" using assms by (cases "tr_buffer r") (auto simp: try_recv_with_def)
  obtain res buf' rd where t: "wasm_try_recv buf (fst jr) = (res, buf', rd)" by (metis prod_cases3)
  have eq: "out = encode_sample f (received_result res)" "r' = r\<lparr>tr_buffer := Some buf'\<rparr>" "jr' = (rd, snd jr)"
    using assms(1) buf t by (simp_all add: try_recv_with_def)
  have "(\<exists>v. res = Got v) \<or> (\<exists>n. res = BufferLagged n)"
    using assms(2) eq(1) by (auto simp: encode_sample_def received_result_def split: received.splits option.splits)
  then have "reads_left buf' rd < reads_left buf (fst jr)" using reads_left_less [OF t] by blast
  then show ?thesis using buf eq by (simp add: reader_left_def)
qed

lemma poll_recv_progress:
  assumes "poll_recv_with f w r jr = (Some out, r', jr')" and "out = Inr s \<or> out = Inl (DbBufferLagged n)"
  shows "reader_left r' jr' < reader_left r jr"
proof -
  obtain buf where buf: "tr_buffer r = Some buf" using assms by (cases "tr_buffer r") (auto simp: poll_recv_with_def)
  obtain res buf' rd where t: "wasm_try_recv buf (fst jr) = (res, buf', rd)" by (metis prod_cases3)
  have "res \<noteq> BufferEmpty" using assms(1) buf t by (auto simp: poll_recv_with_def wasm_poll_recv_def)
  then have "try_recv_with f r jr = (out, r', jr')"
    using assms(1) buf t by (auto simp: poll_recv_with_def try_recv_with_def wasm_poll_recv_def split: received.splits)
  then show ?thesis using try_recv_progress assms(2) by blast
qed

lemma stream_progress:
  "(Some (Inl (DbBufferLagged n)), y) = poll_recv_json_bytes w r jr \<Longrightarrow> (r', jr') = y \<Longrightarrow>
     reader_left r' jr' < reader_left r jr"
  using poll_recv_progress [of "jc_encode_to_vec (snd jr)" w r jr "Inl (DbBufferLagged n)" r' jr']
  by (auto simp: poll_recv_json_bytes_def)

lemma drain_progress:
  "(Inl (DbBufferLagged n), y) = try_recv_json r jr \<Longrightarrow> (r', jr') = y \<Longrightarrow> reader_left r' jr' < reader_left r jr"
  "(Inr s, y) = try_recv_json r jr \<Longrightarrow> (r', jr') = y \<Longrightarrow> reader_left r' jr' < reader_left r jr"
  using try_recv_progress [of "jc_encode (snd jr)" r jr _ r' jr'] by (metis try_recv_json_def)+

subsection \<open>The code: the stream of a subscription\<close>

datatype stream_out = StreamPending | StreamItem bytes stamp u64 | StreamEnd

text \<open>One poll of the stream with waker \<open>w\<close>: lag is added up and rides the next value.\<close>

function stream_recv ::
  "nat \<Rightarrow> ('v, 'j, 'f) typed_record \<Rightarrow> ('v, 'j) json_reader \<Rightarrow> u64
   \<Rightarrow> stream_out \<times> ('v, 'j, 'f) typed_record \<times> ('v, 'j) json_reader \<times> u64" where
  "stream_recv w r jr skipped =
     (case poll_recv_json_bytes w r jr of
        (None, r', jr') \<Rightarrow> (StreamPending, r', jr', skipped)
      | (Some (Inr s), r', jr') \<Rightarrow> (StreamItem (st_value s) (st_metadata s) skipped, r', jr', 0)
      | (Some (Inl e), r', jr') \<Rightarrow>
          (case e of
             DbBufferLagged n \<Rightarrow> stream_recv w r' jr' (sat_add skipped n)
           | _ \<Rightarrow> (StreamEnd, r', jr', skipped)))"
  by pat_completeness auto
termination
  by (relation "measure (\<lambda>(w, r, jr, skipped). reader_left r jr)") (simp_all, erule (1) stream_progress)

declare stream_recv.simps [simp del]

record ('v, 'j) record_stream =
  st_record :: u32
  st_reader :: "('v, 'j) json_reader"
  st_skipped :: u64
  st_ended :: bool

definition stream_record_updates :: "string \<Rightarrow> ('v, 'j, 'f) aimdb \<Rightarrow> db_error + ('v, 'j) record_stream" where
  "stream_record_updates key db =
     (case resolve_str db key of
        None \<Rightarrow> Inl (RecordKeyNotFound key)
      | Some rid \<Rightarrow>
          (case storage db rid of
             None \<Rightarrow> Inl (InvalidRecordId rid)
           | Some r \<Rightarrow>
               (case subscribe_json r of
                  Inl e \<Rightarrow> Inl e
                | Inr jr \<Rightarrow> Inr \<lparr>st_record = rid, st_reader = jr, st_skipped = 0, st_ended = False\<rparr>)))"

definition stream_poll ::
  "nat \<Rightarrow> ('v, 'j) record_stream \<Rightarrow> ('v, 'j, 'f) aimdb
   \<Rightarrow> stream_out \<times> ('v, 'j) record_stream \<times> ('v, 'j, 'f) aimdb" where
  "stream_poll w st db =
     (if st_ended st then (StreamEnd, st, db)
      else
        (case storage db (st_record st) of
           None \<Rightarrow> (StreamEnd, st\<lparr>st_ended := True\<rparr>, db)
         | Some r \<Rightarrow>
             (case stream_recv w r (st_reader st) (st_skipped st) of
                (out, r', jr', skipped) \<Rightarrow>
                  (out, st\<lparr>st_reader := jr', st_skipped := skipped, st_ended := (out = StreamEnd)\<rparr>,
                   set_record (unat (st_record st)) r' db))))"

subsection \<open>The code: draining\<close>

text \<open>\<open>limit = None\<close> is \<open>usize::MAX\<close>, which no vector reaches.\<close>

function drain_loop ::
  "nat option \<Rightarrow> ('v, 'j, 'f) typed_record \<Rightarrow> ('v, 'j) json_reader \<Rightarrow> nat
   \<Rightarrow> ('j, u64) stamped list \<times> ('v, 'j, 'f) typed_record \<times> ('v, 'j) json_reader" where
  "drain_loop limit r jr n =
     (if (case limit of None \<Rightarrow> False | Some m \<Rightarrow> m \<le> n) then ([], r, jr)
      else
        (case try_recv_json r jr of
           (Inr s, r', jr') \<Rightarrow>
             (case drain_loop limit r' jr' (Suc n) of (ss, r'', jr'') \<Rightarrow> (s # ss, r'', jr''))
         | (Inl e, r', jr') \<Rightarrow>
             (case e of
                DbBufferLagged k \<Rightarrow> drain_loop limit r' jr' n
              | _ \<Rightarrow> ([], r', jr'))))"
  by pat_completeness auto
termination
  by (relation "measure (\<lambda>(limit, r, jr, n). reader_left r jr)") (simp_all, (erule (1) drain_progress)+)

declare drain_loop.simps [simp del]

subsection \<open>A ring and its log\<close>

text \<open>A record whose ring holds the last \<open>m\<close> values of a log.\<close>

definition ring_record :: "nat \<Rightarrow> ('v, u64) stamped list \<Rightarrow> ('v, 'j, 'f) typed_record \<Rightarrow> bool" where
  "ring_record m log r \<longleftrightarrow> 0 < m \<and> length log < 2 ^ 64
     \<and> (\<exists>cap W wk. tr_buffer r = Some (SpmcRing (retained m log) cap W wk) \<and> m = max 1 cap \<and> unat W = length log)"

lemma record_same_buffer: "tr_buffer r = Some b \<Longrightarrow> r\<lparr>tr_buffer := Some b\<rparr> = r"
  by (cases r) simp

text \<open>One read from a ring: nothing, a lag to the oldest value kept, or the next value.\<close>

lemma ring_record_read:
  fixes f :: "'v \<Rightarrow> 'b option"
  assumes "ring_record m log r" and "unat p \<le> length log"
  obtains (empty) "unat p = length log" "try_recv_with f r (RingReader p, codec) = (Inl DbBufferEmpty, r, (RingReader p, codec))"
  | (lagged) q k where "unat p + unat k = unat q" "unat q + m = length log" "0 < unat k"
      "try_recv_with f r (RingReader p, codec) = (Inl (DbBufferLagged k), r, (RingReader q, codec))"
  | (got) q where "unat p < length log" "length log \<le> unat p + m" "unat q = Suc (unat p)"
      "try_recv_with f r (RingReader p, codec) = (encode_sample f (Inr (log ! unat p)), r, (RingReader q, codec))"
proof -
  obtain cap W wk where buf: "tr_buffer r = Some (SpmcRing (retained m log) cap W wk)" "unat W = length log"
    and m: "0 < m" "length log < 2 ^ 64"
    using assms(1) by (auto simp: ring_record_def)
  obtain res buf' rd where t: "wasm_try_recv (SpmcRing (retained m log) cap W wk) (RingReader p) = (res, buf', rd)"
    by (metis prod_cases3)
  from ring_try_recv [OF t buf(2) m(2) assms(2) m(1)] obtain q where
    same: "buf' = SpmcRing (retained m log) cap W wk" "rd = RingReader q" "unat q \<le> length log"
    and ok: "ring_ok m log (unat p) [(length log, res)] = Some (unat q)" by blast
  have read: "try_recv_with f r (RingReader p, codec) = (encode_sample f (received_result res), r, (RingReader q, codec))"
    using buf t same record_same_buffer [OF buf(1)] by (simp add: try_recv_with_def del: wasm_try_recv.simps)
  show thesis
  proof (cases res)
    case BufferEmpty
    then have "unat p = length log" "q = p" using ok by (auto simp: word_unat_eq_iff split: if_splits)
    then show thesis using read BufferEmpty by (intro empty) (auto simp: received_result_def encode_sample_def)
  next
    case (BufferLagged k)
    then have "unat p + unat k = unat q" "unat q + m = length log" "unat p + m < length log"
      using ok by (auto split: if_splits)
    then show thesis using read BufferLagged
      by (intro lagged [of k q]) (auto simp: received_result_def encode_sample_def)
  next
    case (Got v)
    then have "unat p < length log" "length log \<le> unat p + m" "v = log ! unat p" "unat q = Suc (unat p)"
      using ok by (auto split: if_splits)
    then show thesis using read Got by (intro got) (auto simp: received_result_def)
  next
    case Mismatch
    then show thesis using ok by simp
  qed
qed

lemma ring_record_push:
  assumes "ring_record m log r" and "Suc (length log) < 2 ^ 64"
  shows "ring_record m (log @ [\<lparr>st_value = v, st_metadata = now c\<rparr>]) (writer_push now c v r)"
proof -
  obtain cap W wk where buf: "tr_buffer r = Some (SpmcRing (retained m log) cap W wk)" "unat W = length log" "m = max 1 cap"
    using assms(1) by (auto simp: ring_record_def)
  let ?s = "\<lparr>st_value = v, st_metadata = now c\<rparr>"
  have "(if cap \<le> length (retained m log) then tl (retained m log) else retained m log) @ [?s] = retained m (log @ [?s])"
  proof (cases cap)
    case 0
    then show ?thesis using push_retained [of m log ?s] buf(3)
      by (cases "log = []") (simp_all add: retained_def Suc_le_eq)
  next
    case (Suc c)
    then show ?thesis using push_retained [of m log ?s] buf(3) by simp
  qed
  then have "tr_buffer (writer_push now c v r) = Some (SpmcRing (retained m (log @ [?s])) cap (W + 1) [])"
    using buf(1,2) by (simp add: writer_push_def)
  then show ?thesis
    using unat_incr [OF buf(2) assms(2)] assms buf(3) unfolding ring_record_def by auto
qed

subsection \<open>What a drain returns\<close>

definition encoded :: "('v \<Rightarrow> 'b option) \<Rightarrow> ('v, 'm) stamped \<Rightarrow> ('b, 'm) stamped" where
  "encoded f s = \<lparr>st_value = the (f (st_value s)), st_metadata = st_metadata s\<rparr>"

definition encodes_all :: "('v \<Rightarrow> 'b option) \<Rightarrow> ('v, 'm) stamped list \<Rightarrow> bool" where
  "encodes_all f log \<longleftrightarrow> (\<forall>s \<in> set log. f (st_value s) \<noteq> None)"

definition up_to :: "nat option \<Rightarrow> nat \<Rightarrow> 'a list \<Rightarrow> 'a list" where
  "up_to limit n xs = (case limit of None \<Rightarrow> xs | Some k \<Rightarrow> take (k - n) xs)"

text \<open>What a reader at position \<open>p\<close> can still get.\<close>

definition unread :: "nat \<Rightarrow> 'a list \<Rightarrow> nat \<Rightarrow> 'a list" where
  "unread m log p = drop (max p (length log - m)) log"

lemma encode_sample_encoded:
  "f (st_value s) \<noteq> None \<Longrightarrow> encode_sample f (Inr s) = Inr (encoded f s)"
  by (auto simp: encode_sample_def map_sample_def encoded_def)

lemma up_to_Cons:
  "\<not> (case limit of None \<Rightarrow> False | Some m \<Rightarrow> m \<le> n) \<Longrightarrow> up_to limit n (x # xs) = x # up_to limit (Suc n) xs"
  by (cases limit) (auto simp: up_to_def Suc_diff_le take_Cons' not_le)

lemma up_to_none: "case limit of None \<Rightarrow> False | Some m \<Rightarrow> m \<le> n \<Longrightarrow> up_to limit n xs = []"
  by (cases limit) (auto simp: up_to_def)

lemma up_to_Nil [simp]: "up_to limit n [] = []"
  by (cases limit) (simp_all add: up_to_def)

lemma drain_ring:
  assumes "ring_record m log r" and "unat p \<le> length log" and "encodes_all (jc_encode codec) log"
  shows "\<exists>q. drain_loop limit r (RingReader p, codec) n
        = (map (encoded (jc_encode codec)) (up_to limit n (unread m log (unat p))), r, (RingReader q, codec))
     \<and> unat p \<le> unat q \<and> unat q \<le> length log
     \<and> unread m log (unat p) = up_to limit n (unread m log (unat p)) @ unread m log (unat q)"
  using assms(2)
proof (induction "length log - unat p" arbitrary: p n rule: less_induct)
  case less
  show ?case
  proof (cases "case limit of None \<Rightarrow> False | Some m \<Rightarrow> m \<le> n")
    case True
    then show ?thesis using less.prems by (subst drain_loop.simps) (auto simp: up_to_none)
  next
    case False
    show ?thesis
    proof (cases rule: ring_record_read [OF assms(1) less.prems, of "jc_encode codec" codec])
      case 1
      then show ?thesis using False
        by (subst drain_loop.simps) (auto simp: try_recv_json_def unread_def intro!: exI [of _ p])
    next
      case (2 q k)
      then have same: "unread m log (unat p) = unread m log (unat q)" by (simp add: unread_def max_def)
      have skip: "drain_loop limit r (RingReader p, codec) n = drain_loop limit r (RingReader q, codec) n"
        using False 2 by (subst drain_loop.simps) (simp add: try_recv_json_def)
      have "length log - unat q < length log - unat p" "unat q \<le> length log" using 2 by simp_all
      from less.hyps [OF this] obtain q' where
        "drain_loop limit r (RingReader q, codec) n
           = (map (encoded (jc_encode codec)) (up_to limit n (unread m log (unat q))), r, (RingReader q', codec))"
        "unat q \<le> unat q'" "unat q' \<le> length log"
        "unread m log (unat q) = up_to limit n (unread m log (unat q)) @ unread m log (unat q')" by blast
      then show ?thesis using 2(1) unfolding same skip by (intro exI [of _ q']) simp
    next
      case (3 q)
      have "max (unat p) (length log - m) = unat p" "max (unat q) (length log - m) = Suc (unat p)" using 3 by auto
      then have head: "unread m log (unat p) = log ! unat p # unread m log (unat q)"
        using 3(1) by (simp add: unread_def Cons_nth_drop_Suc)
      have "length log - unat q < length log - unat p" "unat q \<le> length log" using 3 by simp_all
      from less.hyps [OF this, of "Suc n"] obtain q' where IH: "drain_loop limit r (RingReader q, codec) (Suc n)
          = (map (encoded (jc_encode codec)) (up_to limit (Suc n) (unread m log (unat q))), r, (RingReader q', codec))"
        "unat q \<le> unat q'" "unat q' \<le> length log"
        "unread m log (unat q) = up_to limit (Suc n) (unread m log (unat q)) @ unread m log (unat q')"
        by blast
      have "encode_sample (jc_encode codec) (Inr (log ! unat p)) = Inr (encoded (jc_encode codec) (log ! unat p))"
        by (rule encode_sample_encoded) (use assms(3) 3 in \<open>simp add: encodes_all_def\<close>)
      then have "drain_loop limit r (RingReader p, codec) n
          = (map (encoded (jc_encode codec)) (up_to limit n (unread m log (unat p))), r, (RingReader q', codec))"
        using False 3 IH(1) head by (subst drain_loop.simps) (simp add: try_recv_json_def up_to_Cons)
      then show ?thesis using IH head False 3(3) by (intro exI [of _ q']) (simp add: up_to_Cons)
    qed
  qed
qed

subsection \<open>What a stream yields\<close>

lemma poll_as_try:
  assumes "try_recv_with f r jr = (out, r', jr')" and "out \<noteq> Inl DbBufferEmpty"
  shows "poll_recv_with f w r jr = (Some out, r', jr')"
proof (cases "tr_buffer r")
  case None
  then show ?thesis using assms by (simp add: poll_recv_with_def try_recv_with_def)
next
  case (Some buf)
  obtain res buf' rd where t: "wasm_try_recv buf (fst jr) = (res, buf', rd)" by (metis prod_cases3)
  have "res \<noteq> BufferEmpty" using assms Some t by (auto simp: try_recv_with_def encode_sample_def received_result_def)
  then show ?thesis
    using assms Some t by (cases res) (auto simp: poll_recv_with_def try_recv_with_def wasm_poll_recv_def)
qed

lemma poll_empty:
  assumes "ring_record m log r" and "try_recv_with f r (RingReader p, codec) = (Inl DbBufferEmpty, r, (RingReader p, codec))"
  shows "\<exists>r'. poll_recv_with f w r (RingReader p, codec) = (None, r', (RingReader p, codec))
     \<and> ring_record m log r' \<and> tr_codec r' = tr_codec r"
proof -
  obtain cap W wk where buf: "tr_buffer r = Some (SpmcRing (retained m log) cap W wk)" "m = max 1 cap" "unat W = length log"
    and m: "0 < m" "length log < 2 ^ 64"
    using assms(1) by (auto simp: ring_record_def)
  let ?b = "SpmcRing (retained m log) cap W wk" and ?b' = "SpmcRing (retained m log) cap W (add_waker w wk)"
  obtain res buf' rd where t: "wasm_try_recv ?b (RingReader p) = (res, buf', rd)" by (metis prod_cases3)
  have "encode_sample f (received_result res) = Inl DbBufferEmpty" "rd = RingReader p"
    using assms(2) buf t by (simp_all add: try_recv_with_def del: wasm_try_recv.simps)
  then have out: "res = BufferEmpty" "buf' = ?b" "rd = RingReader p"
    using t by (auto simp: encode_sample_def received_result_def Let_def split: received.splits option.splits if_splits)
  have "poll_recv_with f w r (RingReader p, codec) = (None, r\<lparr>tr_buffer := Some ?b'\<rparr>, (RingReader p, codec))"
    using buf t out by (simp add: poll_recv_with_def wasm_poll_recv_def del: wasm_try_recv.simps)
  moreover have "ring_record m log (r\<lparr>tr_buffer := Some ?b'\<rparr>)" using buf m unfolding ring_record_def by auto
  ultimately show ?thesis by auto
qed

lemma stream_ring:
  assumes "ring_record m log r" and "unat p \<le> length log" and "encodes_all (jc_encode_to_vec codec) log"
    and "unat skipped + (length log - unat p) < 2 ^ 64"
  shows "if unat p = length log
     then \<exists>r'. stream_recv w r (RingReader p, codec) skipped = (StreamPending, r', (RingReader p, codec), skipped)
        \<and> ring_record m log r' \<and> tr_codec r' = tr_codec r
     else \<exists>q k. stream_recv w r (RingReader p, codec) skipped
          = (StreamItem (the (jc_encode_to_vec codec (st_value (log ! max (unat p) (length log - m)))))
               (st_metadata (log ! max (unat p) (length log - m))) k, r, (RingReader q, codec), 0)
        \<and> unat q = Suc (max (unat p) (length log - m)) \<and> unat q \<le> length log
        \<and> unat k = unat skipped + (max (unat p) (length log - m) - unat p)"
  using assms(2,4)
proof (induction "length log - unat p" arbitrary: p skipped rule: less_induct)
  case less
  show ?case
  proof (cases rule: ring_record_read [OF assms(1) less.prems(1), of "jc_encode_to_vec codec" codec])
    case 1
    then show ?thesis
      using poll_empty [OF assms(1) 1(2), of w]
      by (subst stream_recv.simps) (auto simp: poll_recv_json_bytes_def)
  next
    case (2 q k)
    let ?sk = "sat_add skipped k"
    have sk: "unat ?sk = unat skipped + unat k" using less.prems 2 by (simp add: unat_sat_add)
    have skip: "stream_recv w r (RingReader p, codec) skipped = stream_recv w r (RingReader q, codec) ?sk"
      using poll_as_try [OF 2(4), of w] by (subst stream_recv.simps) (simp add: poll_recv_json_bytes_def)
    have "0 < m" using assms(1) by (simp add: ring_record_def)
    then have pos: "max (unat p) (length log - m) = unat q" "max (unat q) (length log - m) = unat q" "unat q \<noteq> length log"
      "unat p \<noteq> length log" using 2 by auto
    have step: "length log - unat q < length log - unat p" "unat q \<le> length log"
      "unat ?sk + (length log - unat q) < 2 ^ 64" using 2 less.prems sk by simp_all
    have "unat k = unat q - unat p" "unat p \<le> unat q" using 2(1) by simp_all
    then show ?thesis using less.hyps [OF step] pos unfolding skip by (simp add: sk)
  next
    case (3 q)
    have pos: "max (unat p) (length log - m) = unat p" "unat p \<noteq> length log" using 3 by auto
    have "encode_sample (jc_encode_to_vec codec) (Inr (log ! unat p)) = Inr (encoded (jc_encode_to_vec codec) (log ! unat p))"
      by (rule encode_sample_encoded) (use assms(3) 3 in \<open>simp add: encodes_all_def\<close>)
    then have "stream_recv w r (RingReader p, codec) skipped
        = (StreamItem (the (jc_encode_to_vec codec (st_value (log ! unat p)))) (st_metadata (log ! unat p)) skipped,
           r, (RingReader q, codec), 0)"
      using poll_as_try [OF 3(4), of w] by (subst stream_recv.simps) (simp add: poll_recv_json_bytes_def encoded_def)
    then show ?thesis using pos 3 by simp
  qed
qed

subsection \<open>A subscription on a running database\<close>

text \<open>Writes to the record by whoever holds a handle, and polls of the stream; the items it yielded.\<close>

datatype 'v stream_op = SWrite "nat \<Rightarrow> u64" nat 'v | SPoll nat

record ('v, 'j, 'f) stream_sys =
  ss_stream :: "('v, 'j) record_stream"
  ss_db :: "('v, 'j, 'f) aimdb"
  ss_items :: "(bytes \<times> stamp \<times> u64) list"

fun stream_step :: "'v stream_op \<Rightarrow> ('v, 'j, 'f) stream_sys \<Rightarrow> ('v, 'j, 'f) stream_sys" where
  "stream_step (SWrite now c v) s =
     s\<lparr>ss_db := db_step now (DbPush (st_record (ss_stream s)) c v) (ss_db s)\<rparr>"
| "stream_step (SPoll w) s =
     (case stream_poll w (ss_stream s) (ss_db s) of
        (out, st, db) \<Rightarrow>
          s\<lparr>ss_stream := st, ss_db := db,
            ss_items := ss_items s @ (case out of StreamItem d t k \<Rightarrow> [(d, t, k)] | _ \<Rightarrow> [])\<rparr>)"

definition stream_writes :: "'v stream_op list \<Rightarrow> ('v, u64) stamped list" where
  "stream_writes ops = concat (map (\<lambda>oper. case oper of
       SWrite now c v \<Rightarrow> [\<lparr>st_value = v, st_metadata = now c\<rparr>] | SPoll _ \<Rightarrow> []) ops)"

text \<open>
  The items account for the log from position \<open>p\<close>: each says how many values were lost before it, and
  is the value after those, with its stamp.
\<close>

fun items_account ::
  "('v \<Rightarrow> bytes option) \<Rightarrow> ('v, u64) stamped list \<Rightarrow> nat \<Rightarrow> (bytes \<times> stamp \<times> u64) list \<Rightarrow> nat option" where
  "items_account enc log p [] = Some p"
| "items_account enc log p ((d, t, k) # items) =
     (if p + unat k < length log \<and> enc (st_value (log ! (p + unat k))) = Some d \<and> st_metadata (log ! (p + unat k)) = t
      then items_account enc log (Suc (p + unat k)) items else None)"

lemma items_account_append:
  "items_account enc log p (xs @ ys) = Option.bind (items_account enc log p xs) (\<lambda>q. items_account enc log q ys)"
  by (induction enc log p xs rule: items_account.induct) auto

lemma items_account_log: "items_account enc log p items = Some q \<Longrightarrow> items_account enc (log @ rest) p items = Some q"
  by (induction enc log p items rule: items_account.induct) (auto simp: nth_append split: if_splits)

lemma push_storage:
  "storage db rid = Some r \<Longrightarrow> storage (db_step now (DbPush rid c v) db) rid = Some (writer_push now c v r)"
  by (auto simp: on_buffer_def storage_def entry_of_def set_record_def writer_push_def split: option.splits if_splits)

lemma storage_set_record:
  "storage db rid = Some r \<Longrightarrow> storage (set_record (unat rid) r' db) rid = Some r'"
  by (auto simp: storage_def entry_of_def set_record_def split: if_splits)

definition stream_ok ::
  "nat \<Rightarrow> nat \<Rightarrow> ('v, 'j) json_codec \<Rightarrow> ('v, u64) stamped list \<Rightarrow> ('v, 'j, 'f) stream_sys \<Rightarrow> bool" where
  "stream_ok m start codec log s \<longleftrightarrow>
     (\<exists>r p q. storage (ss_db s) (st_record (ss_stream s)) = Some r \<and> ring_record m log r
        \<and> st_reader (ss_stream s) = (RingReader p, codec) \<and> \<not> st_ended (ss_stream s)
        \<and> items_account (jc_encode_to_vec codec) log start (ss_items s) = Some q
        \<and> q + unat (st_skipped (ss_stream s)) = unat p \<and> unat p \<le> length log)"

lemma stream_ok_write:
  assumes "stream_ok m start codec log s" and "Suc (length log) < 2 ^ 64"
  shows "stream_ok m start codec (log @ [\<lparr>st_value = v, st_metadata = now c\<rparr>]) (stream_step (SWrite now c v) s)"
proof -
  obtain r p q where r: "storage (ss_db s) (st_record (ss_stream s)) = Some r" "ring_record m log r"
    and p: "st_reader (ss_stream s) = (RingReader p, codec)" "\<not> st_ended (ss_stream s)"
      "q + unat (st_skipped (ss_stream s)) = unat p" "unat p \<le> length log"
    and q: "items_account (jc_encode_to_vec codec) log start (ss_items s) = Some q"
    using assms(1) by (auto simp: stream_ok_def)
  have "storage (ss_db (stream_step (SWrite now c v) s)) (st_record (ss_stream s)) = Some (writer_push now c v r)"
    using push_storage [OF r(1)] by (simp del: db_step.simps)
  moreover have "ring_record m (log @ [\<lparr>st_value = v, st_metadata = now c\<rparr>]) (writer_push now c v r)"
    by (rule ring_record_push [OF r(2) assms(2)])
  ultimately show ?thesis using p items_account_log [OF q] unfolding stream_ok_def by auto
qed

lemma stream_ok_poll:
  assumes "stream_ok m start codec log s" and "encodes_all (jc_encode_to_vec codec) log"
  shows "stream_ok m start codec log (stream_step (SPoll w) s)"
proof -
  obtain r p q where r: "storage (ss_db s) (st_record (ss_stream s)) = Some r" "ring_record m log r"
    and p: "st_reader (ss_stream s) = (RingReader p, codec)" "\<not> st_ended (ss_stream s)"
      "q + unat (st_skipped (ss_stream s)) = unat p" "unat p \<le> length log"
    and q: "items_account (jc_encode_to_vec codec) log start (ss_items s) = Some q"
    using assms(1) by (auto simp: stream_ok_def)
  let ?k = "st_skipped (ss_stream s)" and ?pos = "max (unat p) (length log - m)"
  have "length log < 2 ^ 64" "0 < m" using r(2) by (simp_all add: ring_record_def)
  then have "unat ?k + (length log - unat p) < 2 ^ 64" using p by linarith
  note out = stream_ring [OF r(2) p(4) assms(2) this, of w]
  show ?thesis
  proof (cases "unat p = length log")
    case True
    then obtain r' where "stream_recv w r (RingReader p, codec) ?k = (StreamPending, r', (RingReader p, codec), ?k)"
      "ring_record m log r'"
      using out by auto
    then show ?thesis
      using r p q storage_set_record [OF r(1)] unfolding stream_ok_def by (auto simp: stream_poll_def)
  next
    case False
    then obtain p' k where recv: "stream_recv w r (RingReader p, codec) ?k
        = (StreamItem (the (jc_encode_to_vec codec (st_value (log ! ?pos)))) (st_metadata (log ! ?pos)) k, r,
           (RingReader p', codec), 0)"
      and p': "unat p' = Suc ?pos" "unat p' \<le> length log" and k: "unat k = unat ?k + (?pos - unat p)"
      using out by auto
    have "unat p \<le> ?pos" by simp
    then have "q + unat k = ?pos" "?pos < length log" using p(3) k p' by linarith+
    moreover from this(2) have "log ! ?pos \<in> set log" by (rule nth_mem)
    then have "jc_encode_to_vec codec (st_value (log ! ?pos)) \<noteq> None" using assms(2) unfolding encodes_all_def by blast
    ultimately have "items_account (jc_encode_to_vec codec) log start
        (ss_items s @ [(the (jc_encode_to_vec codec (st_value (log ! ?pos))), st_metadata (log ! ?pos), k)]) = Some (unat p')"
      using q p'(1) by (auto simp: items_account_append)
    then show ?thesis
      using r p p' recv storage_set_record [OF r(1)] unfolding stream_ok_def by (auto simp: stream_poll_def)
  qed
qed

lemma stream_ok_run:
  assumes "stream_ok m start codec log s" and "length log + length (stream_writes ops) < 2 ^ 64"
    and "\<forall>v. jc_encode_to_vec codec v \<noteq> None"
  shows "stream_ok m start codec (log @ stream_writes ops) (fold stream_step ops s)"
  using assms(1,2)
proof (induction ops arbitrary: log s)
  case (Cons oper ops)
  show ?case
  proof (cases oper)
    case (SWrite now c v)
    let ?s = "\<lparr>st_value = v, st_metadata = now c\<rparr>"
    have w: "stream_writes (oper # ops) = ?s # stream_writes ops" by (simp add: stream_writes_def SWrite)
    have "stream_ok m start codec (log @ [?s]) (stream_step oper s)"
      unfolding SWrite by (rule stream_ok_write [OF Cons.prems(1)]) (use Cons.prems(2) w in simp)
    from Cons.IH [OF this] show ?thesis using Cons.prems(2) w by simp
  next
    case (SPoll w)
    have e: "stream_writes (oper # ops) = stream_writes ops" by (simp add: stream_writes_def SPoll)
    have "encodes_all (jc_encode_to_vec codec) log" using assms(3) by (simp add: encodes_all_def)
    from stream_ok_poll [OF Cons.prems(1) this, of w] have "stream_ok m start codec log (stream_step oper s)"
      by (simp add: SPoll del: stream_step.simps)
    from Cons.IH [OF this] show ?thesis using Cons.prems(2) e by simp
  qed
qed (simp add: stream_writes_def)

subsection \<open>Properties\<close>


definition ring_demo_codec :: "(nat, nat) json_codec" where
  "ring_demo_codec = \<lparr>jc_encode = Some, jc_decode = Some, jc_encode_to_vec = (\<lambda>n. Some [of_nat n]), jc_decode_slice = (\<lambda>_. None)\<rparr>"

definition ring_demo_record :: "(nat, nat, nat) typed_record" where
  "ring_demo_record = (record_new 1)\<lparr>tr_buffer := Some (SpmcRing [] 2 0 []), tr_clock := Some 0, tr_codec := Some ring_demo_codec\<rparr>"

definition ring_demo_db :: "(nat, nat, nat) aimdb" where
  "ring_demo_db =
     \<lparr>db_storages = [\<lparr>en_key = ''a'', en_type = 1, en_record = ring_demo_record, en_key_table = None\<rparr>],
      db_by_key = [''a'' \<mapsto> 0], db_graph = \<lparr>graph_nodes = [], graph_edges = [], topo_order = []\<rparr>,
      db_identity = \<lparr>ic_name = None, ic_uid = None, ic_build_info = None\<rparr>, db_clock = 0\<rparr>"


end
