(* ===== verification/Build_Info.thy ===== *)
theory Build_Info
  imports Prelude
begin

text \<open>
  The build-info section of \<open>aimdb-build-info\<close>: \<open>parse\<close> and \<open>post_link\<close> of \<open>lib.rs\<close>, \<open>encode\<close>
  and \<open>is_config_hash\<close> of \<open>build.rs\<close>, and \<open>check_build_info\<close> of \<open>aimdb-core/src/identity.rs\<close>.
  Header fields are widened to \<open>nat\<close>, as the parser widens them to \<open>u64\<close>: no sum of 32-bit fields
  overflows there.
\<close>

subsection \<open>The section\<close>

definition magic :: bytes where
  "magic = [0x41, 0x49, 0x4D, 0x44, 0x42, 0x2D, 0x42, 0x49]"

definition format_version :: nat where "format_version = 1"
definition header_min :: nat where "header_min = 32"
definition section_max :: nat where "section_max = 64 * 1024"
definition payload_max :: nat where "payload_max = 4 * 1024"
definition erased :: u8 where "erased = 0xFF"

datatype parse_error = NoMagic | UnknownFormat nat | Truncated | Inconsistent

record bi_section =
  bi_format :: nat
  bi_payload :: bytes
  bi_region :: bytes

definition field_at :: "bytes \<Rightarrow> nat \<Rightarrow> nat \<Rightarrow> nat" where
  "field_at header at n = of_le_bytes (take n (drop at header))"

text \<open>\<open>bytes.get(from..to)\<close>.\<close>

definition slice :: "nat \<Rightarrow> nat \<Rightarrow> 'a list \<Rightarrow> 'a list option" where
  "slice from to xs = (if from \<le> to \<and> to \<le> length xs then Some (take (to - from) (drop from xs)) else None)"

definition bi_parse :: "bytes \<Rightarrow> parse_error + bi_section" where
  "bi_parse bs =
     (if slice 0 (length magic) bs \<noteq> Some magic then Inl NoMagic
      else if length bs < header_min then Inl Truncated
      else
        (let format = field_at bs 8 2; header_len = field_at bs 10 2; payload_len = field_at bs 12 4;
             region_off = field_at bs 16 4; region_len = field_at bs 20 4; total_len = field_at bs 24 4
         in if format \<noteq> format_version then Inl (UnknownFormat format)
            else if header_len < header_min \<or> region_off < header_len + payload_len \<or> region_off mod 8 \<noteq> 0
                 \<or> region_off + region_len \<noteq> total_len \<or> section_max < total_len
            then Inl Inconsistent
            else if length bs < total_len then Inl Truncated
            else
              (case (slice header_len (header_len + payload_len) bs, slice region_off total_len bs) of
                 (Some payload, Some region) \<Rightarrow>
                   Inr \<lparr>bi_format = format, bi_payload = payload, bi_region = region\<rparr>
               | _ \<Rightarrow> Inl Truncated)))"

datatype post_link = NoRegion | Erased | Written bytes | MalformedRegion

definition post_link :: "bi_section \<Rightarrow> post_link" where
  "post_link s =
     (let region = bi_region s in
      if region = [] then NoRegion
      else if length region < 4 then MalformedRegion
      else if take 4 region = replicate 4 erased then Erased
      else
        (case slice 0 (of_le_bytes (take 4 region)) (drop 4 region) of
           Some data \<Rightarrow> Written data
         | None \<Rightarrow> MalformedRegion))"

definition payload_is_single_line :: "bytes \<Rightarrow> bool" where
  "payload_is_single_line payload \<longleftrightarrow> \<not> list_ex (\<lambda>b. b = 0x0D \<or> b = 0x0A) payload"

text \<open>
  What AimDB accepts at startup; \<open>object\<close> is whether \<open>serde_json\<close> reads the payload as one object.
\<close>

definition check_build_info :: "(bytes \<Rightarrow> bool) \<Rightarrow> bytes \<Rightarrow> string + bytes" where
  "check_build_info object bs =
     (case bi_parse bs of
        Inl e \<Rightarrow> Inl ''build info: not a section''
      | Inr s \<Rightarrow>
          if payload_max < length (bi_payload s) then Inl ''build info: the payload is too long''
          else if \<not> payload_is_single_line (bi_payload s) then Inl ''build info: the payload contains a line break''
          else if \<not> object (bi_payload s) then Inl ''build info: not a JSON object''
          else Inr bs)"

subsection \<open>Writing a section\<close>

datatype encode_error = PayloadTooLong nat | SectionTooLarge nat

definition region_offset :: "nat \<Rightarrow> nat" where
  "region_offset payload_len = (header_min + payload_len + 7) div 8 * 8"

text \<open>The zeroed buffer with the fields copied in; \<open>usize\<close> is at least 32 bits.\<close>

definition put_at :: "nat \<Rightarrow> bytes \<Rightarrow> bytes \<Rightarrow> bytes" where
  "put_at at bs out = take at out @ bs @ drop (at + length bs) out"

definition bi_encode :: "bytes \<Rightarrow> nat \<Rightarrow> encode_error + bytes" where
  "bi_encode payload post_link_len =
     (if payload_max < length payload then Inl (PayloadTooLong (length payload))
      else
        (let region_off = region_offset (length payload); total_len = region_off + post_link_len in
         if section_max < total_len then Inl (SectionTooLarge post_link_len)
         else
           (let out = replicate total_len 0;
                out = put_at 0 magic out;
                out = put_at 8 (le_bytes 2 format_version) out;
                out = put_at 10 (le_bytes 2 header_min) out;
                out = put_at 12 (le_bytes 4 (length payload)) out;
                out = put_at 16 (le_bytes 4 region_off) out;
                out = put_at 20 (le_bytes 4 post_link_len) out;
                out = put_at 24 (le_bytes 4 total_len) out;
                out = put_at header_min payload out;
                out = put_at region_off (replicate post_link_len erased) out
            in Inr out)))"

text \<open>\<open><alg>:<hex>\<close>.\<close>

definition is_lower :: "char \<Rightarrow> bool" where
  "is_lower c \<longleftrightarrow> (let n = (of_char c :: nat) in 97 \<le> n \<and> n \<le> 122)"

definition is_digit :: "char \<Rightarrow> bool" where
  "is_digit c \<longleftrightarrow> (let n = (of_char c :: nat) in 48 \<le> n \<and> n \<le> 57)"

definition is_lower_hex :: "char \<Rightarrow> bool" where
  "is_lower_hex c \<longleftrightarrow> is_digit c \<or> (let n = (of_char c :: nat) in 97 \<le> n \<and> n \<le> 102)"

definition is_config_hash :: "string \<Rightarrow> bool" where
  "is_config_hash h =
     (case split_once '':'' h of
        None \<Rightarrow> False
      | Some (alg, hex) \<Rightarrow>
          alg \<noteq> [] \<and> list_all (\<lambda>c. is_lower c \<or> is_digit c \<or> c = CHR ''-'') alg
          \<and> hex \<noteq> [] \<and> list_all is_lower_hex hex)"

subsection \<open>Writing and reading agree\<close>

lemma put_at_zeros:
  "length pre = at \<Longrightarrow> length bs \<le> k \<Longrightarrow>
     put_at at bs (pre @ replicate k 0) = (pre @ bs) @ replicate (k - length bs) 0"
  by (simp add: put_at_def)

lemma put_at_end: "length pre = at \<Longrightarrow> length bs = length old \<Longrightarrow> put_at at bs (pre @ old) = pre @ bs"
  by (simp add: put_at_def)

text \<open>The header of a section, and what follows it.\<close>

definition header_image :: "nat \<Rightarrow> nat \<Rightarrow> bytes" where
  "header_image payload_len region_len =
     magic @ le_bytes 2 format_version @ le_bytes 2 header_min @ le_bytes 4 payload_len
     @ le_bytes 4 (region_offset payload_len) @ le_bytes 4 region_len
     @ le_bytes 4 (region_offset payload_len + region_len) @ replicate 4 0"

definition padded :: "bytes \<Rightarrow> bytes" where
  "padded payload = payload @ replicate (region_offset (length payload) - (header_min + length payload)) 0"

definition image :: "bytes \<Rightarrow> bytes \<Rightarrow> bytes" where
  "image payload region = header_image (length payload) (length region) @ padded payload @ region"

lemma region_offset_ge: "header_min + n \<le> region_offset n"
  unfolding region_offset_def by linarith

lemma length_magic [simp]: "length magic = 8"
  by (simp add: magic_def)

lemma length_header_image [simp]: "length (header_image p r) = header_min"
  by (simp add: header_image_def header_min_def)

lemma length_padded [simp]: "length (padded payload) = region_offset (length payload) - header_min"
  using region_offset_ge [of "length payload"] by (simp add: padded_def)

lemma length_image [simp]: "length (image payload region) = region_offset (length payload) + length region"
  using region_offset_ge [of "length payload"] by (simp add: image_def)

lemma bi_encode_image:
  assumes "bi_encode payload n = Inr out"
  shows "out = image payload (replicate n erased)" and "length payload \<le> payload_max"
    and "region_offset (length payload) + n \<le> section_max"
proof -
  let ?off = "region_offset (length payload)"
  let ?tot = "?off + n"
  show len: "length payload \<le> payload_max" and tot: "?tot \<le> section_max"
    using assms by (auto simp: bi_encode_def Let_def split: if_splits)
  have ge: "32 + length payload \<le> ?off" using region_offset_ge [of "length payload"] by (simp add: header_min_def)
  let ?h = "magic @ le_bytes 2 format_version @ le_bytes 2 header_min @ le_bytes 4 (length payload)
     @ le_bytes 4 ?off @ le_bytes 4 n @ le_bytes 4 ?tot"
  let ?head = "put_at 24 (le_bytes 4 ?tot) (put_at 20 (le_bytes 4 n) (put_at 16 (le_bytes 4 ?off)
     (put_at 12 (le_bytes 4 (length payload)) (put_at 10 (le_bytes 2 header_min) (put_at 8 (le_bytes 2 format_version)
     (put_at 0 magic (replicate ?tot 0)))))))"
  have "put_at 0 magic (replicate ?tot 0) = ([] @ magic) @ replicate (?tot - 8) 0"
    using ge put_at_zeros [of "[]" 0 magic ?tot] by simp
  then have "?head = (((((((([] @ magic) @ le_bytes 2 format_version) @ le_bytes 2 header_min) @ le_bytes 4 (length payload))
     @ le_bytes 4 ?off) @ le_bytes 4 n) @ le_bytes 4 ?tot) @ replicate (?tot - 28) 0)"
    using ge by (simp add: put_at_zeros del: append_assoc append_Nil)
  also have "\<dots> = ?h @ replicate (?tot - 28) 0" by simp
  also have "\<dots> = header_image (length payload) n @ replicate (?tot - 32) 0"
    using ge by (simp add: header_image_def replicate_add [symmetric])
  finally have "put_at header_min payload ?head = (header_image (length payload) n @ payload) @ replicate (?tot - 32 - length payload) 0"
    using ge by (simp add: put_at_zeros header_min_def del: append_assoc)
  also have "\<dots> = (header_image (length payload) n @ padded payload) @ replicate n 0"
    using ge by (simp add: padded_def header_min_def replicate_add [symmetric])
  finally have "put_at ?off (replicate n erased) (put_at header_min payload ?head)
      = (header_image (length payload) n @ padded payload) @ replicate n erased"
    using ge by (simp add: put_at_end header_min_def del: append_assoc)
  then show "out = image payload (replicate n erased)"
    using assms len tot by (simp add: bi_encode_def Let_def image_def)
qed

lemma bi_parse_image:
  assumes "length payload \<le> payload_max" and "region_offset (length payload) + length region \<le> section_max"
  shows "bi_parse (image payload region @ rest)
     = Inr \<lparr>bi_format = format_version, bi_payload = payload, bi_region = region\<rparr>"
proof -
  let ?off = "region_offset (length payload)" and ?bs = "image payload region @ rest"
  have ge: "header_min + length payload \<le> ?off" by (rule region_offset_ge)
  have small: "length payload < 256 ^ 4" "?off < 256 ^ 4" "length region < 256 ^ 4" "?off + length region < 256 ^ 4"
    using assms by (simp_all add: payload_max_def section_max_def)
  have fields: "field_at ?bs 8 2 = format_version" "field_at ?bs 10 2 = header_min" "field_at ?bs 12 4 = length payload"
    "field_at ?bs 16 4 = ?off" "field_at ?bs 20 4 = length region" "field_at ?bs 24 4 = ?off + length region"
    using small
    by (simp_all add: field_at_def image_def header_image_def of_le_bytes_le_bytes format_version_def header_min_def)
  have m: "slice 0 8 ?bs = Some magic" by (simp add: slice_def image_def header_image_def)
  have "?off mod 8 = 0" by (simp add: region_offset_def)
  moreover have "slice header_min (header_min + length payload) ?bs = Some payload"
    using ge by (simp add: slice_def image_def padded_def)
  moreover have "slice ?off (?off + length region) ?bs = Some region"
    using ge by (simp add: slice_def image_def)
  ultimately show ?thesis
    using ge fields m assms(2) by (simp add: bi_parse_def Let_def)
qed

subsection \<open>What a parsed section guarantees\<close>

lemma slice_Some: "slice from to xs = Some ys \<Longrightarrow> length ys = to - from \<and> set ys \<subseteq> set xs"
  by (auto simp: slice_def split: if_splits dest: in_set_takeD in_set_dropD)

lemma bi_parse_bounds:
  assumes "bi_parse bs = Inr s"
  shows "length (bi_payload s) + length (bi_region s) \<le> section_max"
proof -
  let ?off = "field_at bs 16 4" and ?hl = "field_at bs 10 2" and ?pl = "field_at bs 12 4"
    and ?rl = "field_at bs 20 4" and ?tl = "field_at bs 24 4"
  have "slice ?hl (?hl + ?pl) bs = Some (bi_payload s)" "slice ?off ?tl bs = Some (bi_region s)"
    "?hl + ?pl \<le> ?off" "?off + ?rl = ?tl" "?tl \<le> section_max"
    using assms by (auto simp: bi_parse_def Let_def split: if_splits option.splits)
  moreover from this(1,2) have "length (bi_payload s) = ?pl" "length (bi_region s) = ?tl - ?off"
    using slice_Some by fastforce+
  ultimately show ?thesis by linarith
qed

lemma post_link_written:
  assumes "post_link s = Written data"
  shows "length data + 4 \<le> length (bi_region s)"
proof -
  have "slice 0 (of_le_bytes (take 4 (bi_region s))) (drop 4 (bi_region s)) = Some data" "4 \<le> length (bi_region s)"
    using assms by (auto simp: post_link_def Let_def split: if_splits option.splits)
  then show ?thesis by (auto simp: slice_def split: if_splits)
qed

lemma post_link_region:
  assumes "length data + 4 \<le> length region" and "length data < 2 ^ 32 - 1"
    and "take (length data + 4) region = le_bytes 4 (length data) @ data"
  shows "post_link \<lparr>bi_format = f, bi_payload = p, bi_region = region\<rparr> = Written data"
proof -
  have parts: "take 4 region = le_bytes 4 (length data)" "take (length data) (drop 4 region) = data"
    using arg_cong [OF assms(3), of "take 4"] arg_cong [OF assms(3), of "drop 4"] assms(1)
    by (simp_all add: min_def drop_take)
  have len: "of_le_bytes (le_bytes 4 (length data)) = length data"
    using assms(2) by (intro of_le_bytes_le_bytes) simp
  have "replicate 4 erased = [erased, erased, erased, erased]" by (simp add: numeral_eq_Suc)
  then have "of_le_bytes (replicate 4 erased) = 2 ^ 32 - 1" by (simp add: erased_def)
  then have "le_bytes 4 (length data) \<noteq> replicate 4 erased" using len assms(2) by auto
  then show ?thesis
    using assms(1) parts len by (auto simp: post_link_def Let_def slice_def)
qed

subsection \<open>Properties\<close>

text \<open>
  C34. What the build script writes, the reader reads: for every payload and region that fit, and
  whatever follows the section in the dump, the payload comes back, the region is erased, and AimDB accepts a
  one-line object; and once a tool has written its data into the region, that data comes back instead.
\<close>

theorem build_info_roundtrip:
  assumes "bi_encode payload n = Inr out" and "payload_is_single_line payload" and "object payload"
    and "length data + 4 \<le> n"
  shows "bi_parse (out @ dump) = Inr \<lparr>bi_format = 1, bi_payload = payload, bi_region = replicate n 0xFF\<rparr>
     \<and> post_link \<lparr>bi_format = 1, bi_payload = payload, bi_region = replicate n 0xFF\<rparr> = Erased
     \<and> check_build_info object out = Inr out
     \<and> (case bi_parse (put_at (length out - n) (le_bytes 4 (length data) @ data) out @ dump) of
          Inr s \<Rightarrow> bi_payload s = payload \<and> post_link s = Written data | Inl _ \<Rightarrow> False)"
proof -
  note out = bi_encode_image [OF assms(1)]
  let ?w = "le_bytes 4 (length data) @ data"
  let ?region = "?w @ replicate (n - (length data + 4)) erased"
  have read: "bi_parse (out @ dump') = Inr \<lparr>bi_format = 1, bi_payload = payload, bi_region = replicate n 0xFF\<rparr>" for dump'
    using bi_parse_image [OF out(2), of "replicate n erased" dump'] out by (simp add: format_version_def erased_def)
  have "post_link \<lparr>bi_format = 1, bi_payload = payload, bi_region = replicate n 0xFF\<rparr> = Erased"
    using assms(4) by (auto simp: post_link_def Let_def erased_def min_def)
  moreover have "check_build_info object out = Inr out"
    using read [of "[]"] assms(2,3) out(2) by (simp add: check_build_info_def)
  moreover have "put_at (length out - n) ?w out = image payload ?region"
  proof -
    have "out = (header_image (length payload) n @ padded payload) @ replicate n erased" using out(1) by (simp add: image_def)
    moreover have "length (header_image (length payload) n @ padded payload) = length out - n"
      using out(1) region_offset_ge [of "length payload"] by simp
    ultimately show ?thesis
      using assms(4) unfolding image_def put_at_def by (simp add: add.commute)
  qed
  then have "bi_parse (put_at (length out - n) ?w out @ dump) = Inr \<lparr>bi_format = 1, bi_payload = payload, bi_region = ?region\<rparr>"
    using bi_parse_image [OF out(2), of ?region dump] out(3) assms(4) by (simp add: format_version_def)
  moreover have "post_link \<lparr>bi_format = 1, bi_payload = payload, bi_region = ?region\<rparr> = Written data"
    by (rule post_link_region) (use assms(4) out(3) in \<open>auto simp: section_max_def\<close>)
  ultimately show ?thesis using read by simp
qed

theorem build_info_roundtrip_witness:
  "bi_encode [0x7B, 0x7D] 16 \<noteq> Inl (PayloadTooLong 2)
   \<and> (case bi_encode [0x7B, 0x7D] 16 of Inl _ \<Rightarrow> False | Inr out \<Rightarrow>
        check_build_info (\<lambda>p. p = [0x7B, 0x7D]) out = Inr out)"
proof -
  obtain out where out: "bi_encode [0x7B, 0x7D] 16 = Inr out"
    by (simp add: bi_encode_def Let_def payload_max_def section_max_def region_offset_def header_min_def)
  have "payload_is_single_line [0x7B, 0x7D]" by (simp add: payload_is_single_line_def)
  then have "check_build_info (\<lambda>p. p = [0x7B, 0x7D]) out = Inr out"
    using build_info_roundtrip [OF out, of "\<lambda>p. p = [0x7B, 0x7D]" "[1, 2, 3]" "[]"] by simp
  then show ?thesis using out by simp
qed

end
