(* ===== verification/Json_Value.thy ===== *)
theory Json_Value
  imports Session_Messages
begin

text \<open>
  JSON trees as the remote dispatch builds and takes them apart (\<open>serde_json::Value\<close> and the accessors the
  code calls on it), and the byte assembly of a reply (\<open>value_reply\<close>, \<open>decimal\<close> of
  \<open>aimdb-core/src/session/aimx/codec.rs\<close>).  Reading and printing JSON text is \<open>serde_json\<close>'s and a parameter.
\<close>

subsection \<open>Trees\<close>

text \<open>A number is an unsigned or a negative 64-bit integer, or the bits of a float.\<close>

datatype json_number = PosInt u64 | NegInt u64 | FloatBits u64

datatype json =
    JNull
  | JBool bool
  | JNumber json_number
  | JString string
  | JArray "json list"
  | JObject "(string \<times> json) list"

definition json_get :: "string \<Rightarrow> json \<Rightarrow> json option" where
  "json_get k v = (case v of JObject kvs \<Rightarrow> map_of kvs k | _ \<Rightarrow> None)"

definition json_as_str :: "json \<Rightarrow> string option" where
  "json_as_str v = (case v of JString s \<Rightarrow> Some s | _ \<Rightarrow> None)"

definition json_as_u64 :: "json \<Rightarrow> u64 option" where
  "json_as_u64 v = (case v of JNumber (PosInt n) \<Rightarrow> Some n | _ \<Rightarrow> None)"

definition str_field :: "json \<Rightarrow> string \<Rightarrow> string option" where
  "str_field v key = Option.bind (json_get key v) json_as_str"

text \<open>\<open>serde_json::from_slice\<close> and \<open>to_vec\<close>.\<close>

record json_text =
  jt_parse :: "bytes \<Rightarrow> json option"
  jt_print :: "json \<Rightarrow> bytes option"

definition parse_or_null :: "json_text \<Rightarrow> bytes \<Rightarrow> json" where
  "parse_or_null jt bs = (case jt_parse jt bs of Some v \<Rightarrow> v | None \<Rightarrow> JNull)"

definition to_payload :: "json_text \<Rightarrow> json \<Rightarrow> bytes" where
  "to_payload jt v = (case jt_print jt v of Some bs \<Rightarrow> bs | None \<Rightarrow> [])"

subsection \<open>A reply assembled from bytes\<close>

text \<open>
  The digits of \<open>n\<close>, written backwards into the end of a buffer of \<open>room\<close> bytes; \<open>None\<close> is the underflow of
  the write position.
\<close>

fun decimal_digits :: "nat \<Rightarrow> u64 \<Rightarrow> bytes \<Rightarrow> bytes option" where
  "decimal_digits 0 n acc = None"
| "decimal_digits (Suc room) n acc =
     (let acc' = (0x30 + ucast (n mod 10)) # acc in
      if n div 10 = 0 then Some acc' else decimal_digits room (n div 10) acc')"

definition stamp_digits :: "u64 \<Rightarrow> bytes option" where
  "stamp_digits n = decimal_digits 20 n []"

definition ascii :: "string \<Rightarrow> bytes" where
  "ascii s = map of_char s"

definition value_reply :: "bytes \<Rightarrow> stamp \<Rightarrow> bytes option" where
  "value_reply v ts =
     map_option (\<lambda>digits. ascii ''{\"value\":'' @ v @ ascii '',\"ts\":'' @ digits @ ascii ''}'') (stamp_digits ts)"

text \<open>The number a run of digits stands for.\<close>

definition digits_value :: "bytes \<Rightarrow> nat" where
  "digits_value ds = foldl (\<lambda>n d. n * 10 + (unat d - 0x30)) 0 ds"

lemma digits_value_foldl:
  "foldl (\<lambda>n d. n * 10 + (unat d - 0x30)) a ds = a * 10 ^ length ds + digits_value ds" for ds :: bytes
proof (induction ds arbitrary: a)
  case (Cons d ds)
  show ?case
    unfolding digits_value_def foldl_Cons length_Cons Cons.IH [of "a * 10 + (unat d - 0x30)"]
      Cons.IH [of "0 * 10 + (unat d - 0x30)"]
    by (simp add: digits_value_def algebra_simps)
qed (simp add: digits_value_def)

lemma digits_value_Cons: "digits_value (d # ds) = (unat d - 0x30) * 10 ^ length ds + digits_value ds"
  using digits_value_foldl [of "unat d - 0x30" ds] by (simp add: digits_value_def)

lemma digit_byte: "unat (0x30 + ucast (n mod 10) :: u8) = 0x30 + unat n mod 10" for n :: u64
proof -
  have m: "unat (n mod 10) = unat n mod 10" by (simp add: unat_mod)
  have "unat (ucast (n mod 10) :: u8) = unat n mod 10"
    using m by (simp add: unsigned_ucast_eq take_bit_nat_eq_self_iff less_trans [of _ 10 256])
  moreover have "unat n mod 10 < 10" by simp
  ultimately show ?thesis by (simp add: unat_word_ariths)
qed

lemma decimal_digits_exact:
  assumes "unat n < 10 ^ Suc room"
  shows "\<exists>ds. decimal_digits (Suc room) n acc = Some (ds @ acc) \<and> ds \<noteq> [] \<and> length ds \<le> Suc room
     \<and> digits_value ds = unat n \<and> (\<forall>d \<in> set ds. 0x30 \<le> d \<and> d \<le> 0x39)"
  using assms
proof (induction room arbitrary: n acc)
  case 0
  then have small: "n div 10 = 0" "unat n mod 10 = unat n"
    by (simp_all add: word_unat_eq_iff unat_div)
  then show ?case
    using digit_byte [of n]
    by (auto simp: Let_def digits_value_def word_le_nat_alt intro!: exI [of _ "[0x30 + ucast (n mod 10)]"])
next
  case (Suc room)
  let ?d = "0x30 + ucast (n mod 10) :: u8"
  have d: "unat ?d - 0x30 = unat n mod 10" "0x30 \<le> ?d" "?d \<le> 0x39"
    using digit_byte [of n] by (simp_all add: word_le_nat_alt)
  show ?case
  proof (cases "n div 10 = 0")
    case True
    then have "unat n mod 10 = unat n" by (simp add: word_unat_eq_iff unat_div)
    then show ?thesis
      using True d by (auto simp: Let_def digits_value_def intro!: exI [of _ "[?d]"])
  next
    case False
    have "unat (n div 10) < 10 ^ Suc room" using Suc.prems by (simp add: unat_div)
    from Suc.IH [OF this, of "?d # acc"] obtain ds where
      ds: "decimal_digits (Suc room) (n div 10) (?d # acc) = Some (ds @ ?d # acc)" "ds \<noteq> []" "length ds \<le> Suc room"
        "digits_value ds = unat (n div 10)" "\<forall>d \<in> set ds. 0x30 \<le> d \<and> d \<le> 0x39" by blast
    have "digits_value (ds @ [?d]) = digits_value ds * 10 + (unat ?d - 0x30)"
      by (simp add: digits_value_def)
    then have "digits_value (ds @ [?d]) = unat n" using ds(4) d(1) by (simp add: unat_div)
    then show ?thesis
      using False ds d by (intro exI [of _ "ds @ [?d]"]) (simp add: Let_def del: decimal_digits.simps(2), simp)
  qed
qed

text \<open>
  The stamp of every reply fits its 20-byte buffer, whatever the value: the reply is always
  assembled, from digits that stand for exactly the stamp.
\<close>

theorem stamp_digits_exact:
  "\<exists>ds. value_reply v ts = Some (ascii ''{\"value\":'' @ v @ ascii '',\"ts\":'' @ ds @ ascii ''}'')
     \<and> digits_value ds = unat ts \<and> ds \<noteq> [] \<and> length ds \<le> 20 \<and> list_all (\<lambda>d. 0x30 \<le> d \<and> d \<le> 0x39) ds"
proof -
  have "unat ts < 10 ^ Suc 19" using unat_bound [of ts] by simp
  from decimal_digits_exact [OF this, of "[]"] obtain ds where
    "decimal_digits (Suc 19) ts [] = Some ds" "ds \<noteq> []" "length ds \<le> Suc 19" "digits_value ds = unat ts"
    "\<forall>d \<in> set ds. 0x30 \<le> d \<and> d \<le> 0x39" by auto
  then show ?thesis by (auto simp: value_reply_def stamp_digits_def list_all_iff numeral_eq_Suc)
qed

end
