(* ===== verification/Post_Link.thy ===== *)
theory Post_Link
  imports Build_Info Json_Value Db_Core
begin

text \<open>
  Reading the post-link bytes of an instance over AimX: the server's chunk replies
  (\<open>aimdb-core/src/remote/instance.rs\<close>) and the client's download (\<open>post_link\<close>, \<open>check_chunk\<close> and
  \<open>decode_hex\<close> of \<open>aimdb-client/src/engine.rs\<close>).  Replies travel as JSON trees here; their text is
  \<open>serde_json\<close>'s on both sides.
\<close>

subsection \<open>The server\<close>

definition post_link_chunk_max :: u32 where "post_link_chunk_max = 1024"

datatype post_link_error = NotWritten | InvalidParams

definition json_as_u32 :: "json \<Rightarrow> u32 option" where
  "json_as_u32 v = (case json_as_u64 v of Some n \<Rightarrow> if unat n < 2 ^ 32 then Some (ucast n) else None | None \<Rightarrow> None)"

definition param_u32 :: "json \<Rightarrow> string \<Rightarrow> post_link_error + u32 option" where
  "param_u32 params' key =
     (case json_get key params' of
        None \<Rightarrow> Inr None
      | Some v \<Rightarrow> (case json_as_u32 v of None \<Rightarrow> Inl InvalidParams | Some n \<Rightarrow> Inr (Some n)))"

definition post_link_params :: "json \<Rightarrow> post_link_error + (u32 \<times> u32 option)" where
  "post_link_params params' =
     (case params' of
        JNull \<Rightarrow> Inr (0, None)
      | JObject kvs \<Rightarrow>
          (case param_u32 params' ''offset'' of
             Inl e \<Rightarrow> Inl e
           | Inr offset \<Rightarrow>
               (case param_u32 params' ''len'' of
                  Inl e \<Rightarrow> Inl e
                | Inr len \<Rightarrow> Inr (case offset of None \<Rightarrow> 0 | Some n \<Rightarrow> n, len)))
      | _ \<Rightarrow> Inl InvalidParams)"

definition hex_digit :: "u8 \<Rightarrow> char" where
  "hex_digit n = ''0123456789abcdef'' ! unat n"

definition hex :: "bytes \<Rightarrow> string" where
  "hex bs = concat (map (\<lambda>b. [hex_digit (drop_bit 4 b), hex_digit (and b 0x0F)]) bs)"

record post_link_chunk =
  pc_offset :: u32
  pc_total :: u32
  pc_data :: string

text \<open>The frozen identity's section: \<open>build\<close> parsed it once.\<close>

definition identity_section :: "identity_config \<Rightarrow> bi_section option" where
  "identity_section c =
     Option.bind (ic_build_info c) (\<lambda>bs. case bi_parse bs of Inr s \<Rightarrow> Some s | Inl _ \<Rightarrow> None)"

definition post_link_chunk_reply :: "identity_config \<Rightarrow> json \<Rightarrow> post_link_error + post_link_chunk" where
  "post_link_chunk_reply c params' =
     (case post_link_params params' of
        Inl e \<Rightarrow> Inl e
      | Inr (offset, len) \<Rightarrow>
          (case map_option post_link (identity_section c) of
             Some (Written data) \<Rightarrow>
               (let len = min (case len of None \<Rightarrow> post_link_chunk_max | Some n \<Rightarrow> n) post_link_chunk_max;
                    start = min (unat offset) (length data);
                    stop = min (start + unat len) (length data)
                in Inr \<lparr>pc_offset = offset, pc_total = of_nat (length data),
                        pc_data = hex (take (stop - start) (drop start data))\<rparr>)
           | _ \<Rightarrow> Inl NotWritten))"

definition map_post_link_err :: "post_link_error \<Rightarrow> rpc_error" where
  "map_post_link_err e = (case e of NotWritten \<Rightarrow> NotFound | InvalidParams \<Rightarrow> Internal)"

definition chunk_json :: "post_link_chunk \<Rightarrow> json" where
  "chunk_json c = JObject
     [(''offset'', JNumber (PosInt (ucast (pc_offset c)))), (''total'', JNumber (PosInt (ucast (pc_total c)))),
      (''data'', JString (pc_data c))]"

definition serve_post_link :: "identity_config \<Rightarrow> json \<Rightarrow> rpc_error + json" where
  "serve_post_link c params' =
     (case post_link_chunk_reply c params' of
        Inl e \<Rightarrow> Inl (map_post_link_err e)
      | Inr chunk \<Rightarrow> Inr (chunk_json chunk))"

subsection \<open>The client\<close>

datatype chunk_error =
    TotalTooLarge
  | TotalChanged
  | WrongOffset
  | TooManyDigits
  | OddLength
  | NotHex
  | OffsetPastTotal
  | PastTotal
  | EmptyBeforeEnd

text \<open>An array of the three fields decodes as well.\<close>

definition chunk_of_fields :: "json \<Rightarrow> json \<Rightarrow> json \<Rightarrow> post_link_chunk option" where
  "chunk_of_fields x y z =
     (case (json_as_u32 x, json_as_u32 y, json_as_str z) of
        (Some offset, Some whole, Some data) \<Rightarrow> Some \<lparr>pc_offset = offset, pc_total = whole, pc_data = data\<rparr>
      | _ \<Rightarrow> None)"

definition chunk_of_json :: "json \<Rightarrow> post_link_chunk option" where
  "chunk_of_json v =
     (case v of
        JArray [x, y, z] \<Rightarrow> chunk_of_fields x y z
      | JObject kvs \<Rightarrow>
          (case (json_get ''offset'' v, json_get ''total'' v, json_get ''data'' v) of
             (Some x, Some y, Some z) \<Rightarrow> chunk_of_fields x y z
           | _ \<Rightarrow> None)
      | _ \<Rightarrow> None)"

definition nibble :: "char \<Rightarrow> u8 option" where
  "nibble ch =
     (let c = (of_char ch :: u8) in
      if 0x30 \<le> c \<and> c \<le> 0x39 then Some (c - 0x30)
      else if 0x61 \<le> c \<and> c \<le> 0x66 then Some (c - 0x61 + 10)
      else if 0x41 \<le> c \<and> c \<le> 0x46 then Some (c - 0x41 + 10)
      else None)"

text \<open>The pairs of \<open>as_chunks\<close>; \<open>None\<close> is the odd rest.\<close>

fun pairs :: "'a list \<Rightarrow> ('a \<times> 'a) list option" where
  "pairs [] = Some []"
| "pairs [x] = None"
| "pairs (x # y # xs) = map_option ((#) (x, y)) (pairs xs)"

fun pair_bytes :: "(char \<times> char) list \<Rightarrow> bytes option" where
  "pair_bytes [] = Some []"
| "pair_bytes ((hi, lo) # ps) =
     (case (nibble hi, nibble lo) of
        (Some h, Some l) \<Rightarrow> map_option ((#) (or (push_bit 4 h) l)) (pair_bytes ps)
      | _ \<Rightarrow> None)"

definition decode_hex :: "string \<Rightarrow> chunk_error + bytes" where
  "decode_hex s =
     (case pairs s of
        None \<Rightarrow> Inl OddLength
      | Some ps \<Rightarrow> (case pair_bytes ps of None \<Rightarrow> Inl NotHex | Some bs \<Rightarrow> Inr bs))"

text \<open>\<open>OffsetPastTotal\<close> is the underflow of \<open>total - offset\<close>, which a download cannot reach.\<close>

definition check_chunk :: "post_link_chunk \<Rightarrow> nat \<Rightarrow> u32 \<Rightarrow> chunk_error + bytes" where
  "check_chunk chunk offset whole =
     (if section_max \<le> unat whole then Inl TotalTooLarge
      else if pc_total chunk \<noteq> whole then Inl TotalChanged
      else if unat (pc_offset chunk) \<noteq> offset then Inl WrongOffset
      else if 2 * unat post_link_chunk_max < length (pc_data chunk) then Inl TooManyDigits
      else
        (case decode_hex (pc_data chunk) of
           Inl e \<Rightarrow> Inl e
         | Inr bs \<Rightarrow>
             if unat whole < offset then Inl OffsetPastTotal
             else if unat whole - offset < length bs then Inl PastTotal
             else if bs = [] \<and> 0 < unat whole - offset then Inl EmptyBeforeEnd
             else Inr bs))"

datatype download_error = Rpc rpc_error | Undecodable | BadChunk chunk_error

definition chunk_params :: "nat \<Rightarrow> json" where
  "chunk_params offset = JObject
     [(''offset'', JNumber (PosInt (of_nat offset))), (''len'', JNumber (PosInt (ucast post_link_chunk_max)))]"

lemma check_chunk_Inr:
  "check_chunk chunk offset whole = Inr bs \<longleftrightarrow>
     unat whole < section_max \<and> pc_total chunk = whole \<and> unat (pc_offset chunk) = offset
     \<and> length (pc_data chunk) \<le> 2 * unat post_link_chunk_max \<and> decode_hex (pc_data chunk) = Inr bs
     \<and> offset + length bs \<le> unat whole \<and> (bs = [] \<longrightarrow> offset = unat whole)"
  by (auto simp: check_chunk_def split: sum.splits)

text \<open>
  \<open>ask n p\<close> is the peer's reply to the \<open>n\<close>th call, with params \<open>p\<close>.  The download so far, the total
  the first chunk gave, and the number of calls made.
\<close>

function post_link_loop ::
  "(nat \<Rightarrow> json \<Rightarrow> rpc_error + json) \<Rightarrow> nat \<Rightarrow> bytes \<Rightarrow> u32 option \<Rightarrow> download_error + bytes option" where
  "post_link_loop ask n data first =
     (case ask n (chunk_params (length data)) of
        Inl NotFound \<Rightarrow> Inr None
      | Inl e \<Rightarrow> Inl (Rpc e)
      | Inr reply \<Rightarrow>
          (case chunk_of_json reply of
             None \<Rightarrow> Inl Undecodable
           | Some chunk \<Rightarrow>
               (let whole = (case first of None \<Rightarrow> pc_total chunk | Some t \<Rightarrow> t) in
                (case check_chunk chunk (length data) whole of
                   Inl e \<Rightarrow> Inl (BadChunk e)
                 | Inr bs \<Rightarrow>
                     if length (data @ bs) = unat whole then Inr (Some (data @ bs))
                     else post_link_loop ask (Suc n) (data @ bs) (Some whole)))))"
  by pat_completeness auto
termination
proof (relation "measure (\<lambda>(ask, n, data, first). section_max - length data)")
  fix ask n data first reply chunk whole bs
  assume w: "whole = (case first of None \<Rightarrow> pc_total chunk | Some t \<Rightarrow> t)"
    and c: "check_chunk chunk (length data) whole = Inr bs" and more: "length (data @ bs) \<noteq> unat whole"
  have "bs \<noteq> []" "length data + length bs \<le> unat whole" "unat whole < section_max"
    using c more by (auto simp: check_chunk_Inr)
  then have "section_max - length (data @ bs) < section_max - length data"
    by (cases bs) auto
  then show "((ask, Suc n, data @ bs, Some whole), ask, n, data, first) \<in> measure (\<lambda>(ask, n, data, first). section_max - length data)"
    by simp
qed simp

declare post_link_loop.simps [simp del]

lemma post_link_step:
  assumes "ask n (chunk_params (length data)) = Inr reply" and "chunk_of_json reply = Some chunk"
    and "whole = (case first of None \<Rightarrow> pc_total chunk | Some t \<Rightarrow> t)" and "check_chunk chunk (length data) whole = Inr bs"
  shows "post_link_loop ask n data first =
     (if length (data @ bs) = unat whole then Inr (Some (data @ bs))
      else post_link_loop ask (Suc n) (data @ bs) (Some whole))"
  using assms by (subst post_link_loop.simps) (simp add: Let_def)

definition client_post_link :: "(nat \<Rightarrow> json \<Rightarrow> rpc_error + json) \<Rightarrow> download_error + bytes option" where
  "client_post_link ask = post_link_loop ask 0 [] None"

subsection \<open>Hex\<close>

lemma nibble_hex_digit:
  assumes "unat n < 16"
  shows "nibble (hex_digit n) = Some n"
proof -
  have "\<forall>k \<in> set [0..<16]. nibble (hex_digit (of_nat k)) = Some (of_nat k)"
    by code_simp
  then have "nibble (hex_digit (of_nat (unat n))) = Some (of_nat (unat n))"
    using assms by (metis atLeastLessThan_iff le0 set_upt)
  then show ?thesis by simp
qed

lemma low_nibble: "and b 0x0F = take_bit 4 b" for b :: u8
proof -
  have "(0x0F :: u8) = mask 4" by (simp add: mask_eq_exp_minus_1)
  then show ?thesis by (simp add: take_bit_eq_mask)
qed

lemma nibbles_join: "or (push_bit 4 (drop_bit 4 b)) (and b 0x0F) = b" for b :: u8
  unfolding low_nibble
  by (rule bit_word_eqI) (auto simp: bit_or_iff bit_push_bit_iff bit_drop_bit_eq bit_take_bit_iff)

lemma nibble_bounds: "unat (drop_bit 4 b) < 16" "unat (and b 0x0F) < 16" for b :: u8
proof -
  have "unat (drop_bit 4 b) = unat b div 16" by (simp add: drop_bit_eq_div unat_div)
  then show "unat (drop_bit 4 b) < 16" using unat_bound [of b] by (simp del: drop_bit_eq_div)
  show "unat (and b 0x0F) < 16" unfolding low_nibble unsigned_take_bit_eq take_bit_nat_def by simp
qed

lemma hex_Cons: "hex (b # bs) = hex_digit (drop_bit 4 b) # hex_digit (and b 0x0F) # hex bs"
  by (simp add: hex_def)

lemma length_hex [simp]: "length (hex bs) = 2 * length bs"
  by (induction bs) (simp_all add: hex_Cons, simp add: hex_def)

lemma decode_hex_hex [simp]: "decode_hex (hex bs) = Inr bs"
proof -
  have "\<exists>ps. pairs (hex bs) = Some ps \<and> pair_bytes ps = Some bs"
  proof (induction bs)
    case (Cons b bs)
    then obtain ps where "pairs (hex bs) = Some ps" "pair_bytes ps = Some bs" by blast
    then show ?case
      by (simp add: hex_Cons nibble_hex_digit nibble_bounds nibbles_join del: of_char_eq_iff)
  qed (simp add: hex_def)
  then show ?thesis by (auto simp: decode_hex_def)
qed

subsection \<open>A download from the server\<close>

lemma widened: "unat (ucast w :: u64) = unat w" for w :: u32
proof -
  have "unat w < 2 ^ 64" using unat_bound [of w] by simp
  then show ?thesis by (simp add: unsigned_ucast_eq take_bit_nat_eq_self)
qed

lemma narrowed: "unat n < 2 ^ 32 \<Longrightarrow> unat (ucast n :: u32) = unat n" for n :: u64
  by (simp add: unsigned_ucast_eq take_bit_nat_eq_self)

lemma json_as_u32_widened [simp]: "json_as_u32 (JNumber (PosInt (ucast w))) = Some w"
proof -
  have less: "unat (ucast w :: u64) < 2 ^ 32" using unat_bound [of w] by (simp only: widened) simp
  have "unat (ucast (ucast w :: u64) :: u32) = unat w" using narrowed [OF less] by (simp only: widened)
  then have "(ucast (ucast w :: u64) :: u32) = w" by (simp only: word_unat_eq_iff)
  then show ?thesis using less by (simp only: json_as_u32_def json_as_u64_def json.case json_number.case option.case if_True)
qed

lemma chunk_of_json_chunk [simp]: "chunk_of_json (chunk_json c) = Some c"
  by (simp add: chunk_of_json_def chunk_json_def json_get_def chunk_of_fields_def json_as_str_def)

lemma json_as_u32_nat:
  assumes "n < 2 ^ 32"
  shows "json_as_u32 (JNumber (PosInt (of_nat n))) = Some (of_nat n)"
proof -
  have u: "unat (of_nat n :: u64) = n" "unat (of_nat n :: u32) = n"
    using assms by (simp_all add: unat_of_nat take_bit_nat_eq_self)
  then have "unat (ucast (of_nat n :: u64) :: u32) = unat (of_nat n :: u32)" using narrowed [of "of_nat n"] assms by simp
  then have "(ucast (of_nat n :: u64) :: u32) = of_nat n" by (simp only: word_unat_eq_iff)
  then show ?thesis
    using u assms by (simp only: json_as_u32_def json_as_u64_def json.case json_number.case option.case if_True)
qed

lemma params_of_chunk:
  "offset < 2 ^ 32 \<Longrightarrow> post_link_params (chunk_params offset) = Inr (of_nat offset, Some post_link_chunk_max)"
  by (simp add: post_link_params_def chunk_params_def param_u32_def json_get_def json_as_u32_nat)

lemma serve_chunk:
  assumes "map_option post_link (identity_section c) = Some (Written data)" and "offset \<le> length data"
    and "length data < section_max"
  shows "serve_post_link c (chunk_params offset) = Inr (chunk_json
     \<lparr>pc_offset = of_nat offset, pc_total = of_nat (length data), pc_data = hex (take 1024 (drop offset data))\<rparr>)"
proof -
  have small: "offset < 2 ^ 32" "unat (of_nat offset :: u32) = offset"
    using assms by (simp_all add: section_max_def unat_of_nat take_bit_nat_eq_self)
  have "take (min (offset + 1024) (length data) - offset) (drop offset data) = take 1024 (drop offset data)"
    using assms(2) by (auto simp: min_def)
  moreover obtain sec where "identity_section c = Some sec" "post_link sec = Written data" using assms(1) by auto
  ultimately show ?thesis
    using assms(2) small
    by (simp add: serve_post_link_def post_link_chunk_reply_def params_of_chunk post_link_chunk_max_def Let_def min_absorb1)
qed

lemma written_small:
  assumes "map_option post_link (identity_section c) = Some (Written data)"
  shows "length data < section_max"
proof -
  obtain s where s: "identity_section c = Some s" "post_link s = Written data" using assms by auto
  then obtain bs where "(case bi_parse bs of Inr s \<Rightarrow> Some s | Inl _ \<Rightarrow> None) = Some s"
    by (auto simp: identity_section_def bind_eq_Some_conv)
  then have bs: "bi_parse bs = Inr s" by (cases "bi_parse bs") auto
  have "length data + 4 \<le> length (bi_region s)" by (rule post_link_written [OF s(2)])
  then show ?thesis using bi_parse_bounds [OF bs] by linarith
qed

lemma download_from:
  assumes "map_option post_link (identity_section c) = Some (Written data)"
    and "offset \<le> length data" and "offset = length data \<longrightarrow> data = []"
    and "first = None \<or> first = Some (of_nat (length data))"
  shows "post_link_loop (\<lambda>_. serve_post_link c) n (take offset data) first = Inr (Some data)"
  using assms(2-)
proof (induction "length data - offset" arbitrary: offset n first rule: less_induct)
  case less
  note small = written_small [OF assms(1)]
  let ?bs = "take 1024 (drop offset data)" and ?t = "of_nat (length data) :: u32"
  let ?chunk = "\<lparr>pc_offset = of_nat offset, pc_total = ?t, pc_data = hex ?bs\<rparr>"
  have t: "unat ?t = length data" "unat (of_nat offset :: u32) = offset"
    using small less.prems(1) by (simp_all add: section_max_def unat_of_nat take_bit_nat_eq_self)
  have len: "length (take offset data) = offset" using less.prems(1) by simp
  have "check_chunk ?chunk offset ?t = Inr ?bs"
    using small less.prems t by (auto simp: check_chunk_Inr post_link_chunk_max_def)
  moreover have "?t = (case first of None \<Rightarrow> pc_total ?chunk | Some t \<Rightarrow> t)" using less.prems(3) by auto
  moreover have "take offset data @ ?bs = take (offset + length ?bs) data"
    by (cases "length data - offset \<le> 1024") (simp_all add: take_add)
  ultimately have loop: "post_link_loop (\<lambda>_. serve_post_link c) n (take offset data) first =
      (if length (take (offset + length ?bs) data) = length data then Inr (Some (take (offset + length ?bs) data))
       else post_link_loop (\<lambda>_. serve_post_link c) (Suc n) (take (offset + length ?bs) data) (Some ?t))"
    using post_link_step [of "\<lambda>_. serve_post_link c" n "take offset data" "chunk_json ?chunk" ?chunk ?t first ?bs]
      serve_chunk [OF assms(1) less.prems(1) small] t
    unfolding len by (simp only: chunk_of_json_chunk refl True_implies_equals)
  show ?case
  proof (cases "length (take (offset + length ?bs) data) = length data")
    case True
    then show ?thesis using loop by simp
  next
    case False
    then have "offset + length ?bs < length data" "0 < length ?bs" by auto
    then show ?thesis
      using loop False less.hyps [of "offset + length ?bs" "Some ?t" "Suc n"] by simp
  qed
qed

subsection \<open>What any peer can make of a download\<close>

text \<open>\<open>ds\<close> are the decoded chunks of the replies from call \<open>n\<close> on, each as asked for.\<close>

fun honest_run :: "(nat \<Rightarrow> json \<Rightarrow> rpc_error + json) \<Rightarrow> nat \<Rightarrow> nat \<Rightarrow> u32 \<Rightarrow> bytes list \<Rightarrow> bool" where
  "honest_run ask n at whole [] \<longleftrightarrow> True"
| "honest_run ask n at whole (d # ds) \<longleftrightarrow>
     (case ask n (chunk_params at) of
        Inl _ \<Rightarrow> False
      | Inr reply \<Rightarrow>
          (case chunk_of_json reply of
             None \<Rightarrow> False
           | Some chunk \<Rightarrow> unat (pc_offset chunk) = at \<and> pc_total chunk = whole \<and> decode_hex (pc_data chunk) = Inr d
               \<and> length d \<le> 1024))
     \<and> honest_run ask (Suc n) (at + length d) whole ds"

lemma pairs_length: "pairs s = Some ps \<Longrightarrow> length s = 2 * length ps"
  by (induction s arbitrary: ps rule: pairs.induct) auto

lemma pair_bytes_length: "pair_bytes ps = Some bs \<Longrightarrow> length bs = length ps"
  by (induction ps arbitrary: bs rule: pair_bytes.induct) (auto split: option.splits)

lemma decode_hex_length: "decode_hex s = Inr bs \<Longrightarrow> length s = 2 * length bs"
  by (auto simp: decode_hex_def pairs_length pair_bytes_length split: option.splits)

lemma download_sound:
  assumes "post_link_loop ask n data first = Inr (Some d)"
  shows "\<exists>whole ds. d = data @ concat ds \<and> unat whole = length d \<and> length d < section_max
     \<and> (\<forall>t. first = Some t \<longrightarrow> whole = t) \<and> honest_run ask n (length data) whole ds
     \<and> (length ds \<le> 1 \<or> (\<forall>x \<in> set ds. x \<noteq> []))"
  using assms
proof (induction ask n data first rule: post_link_loop.induct)
  case (1 ask n data first)
  obtain reply chunk bs where c: "ask n (chunk_params (length data)) = Inr reply" "chunk_of_json reply = Some chunk"
      "check_chunk chunk (length data) (case first of None \<Rightarrow> pc_total chunk | Some t \<Rightarrow> t) = Inr bs"
    using "1.prems"
    by (subst (asm) post_link_loop.simps) (auto simp: Let_def split: sum.splits rpc_error.splits option.splits)
  let ?t = "case first of None \<Rightarrow> pc_total chunk | Some t \<Rightarrow> t"
  have eq: "(if length (data @ bs) = unat ?t then Inr (Some (data @ bs))
       else post_link_loop ask (Suc n) (data @ bs) (Some ?t)) = Inr (Some d)"
    using "1.prems" post_link_step [of ask n data reply chunk ?t first bs, OF c(1,2) refl c(3)] by simp
  have ok: "unat ?t < section_max" "pc_total chunk = ?t" "unat (pc_offset chunk) = length data"
    "decode_hex (pc_data chunk) = Inr bs" "length (pc_data chunk) \<le> 2048" "bs = [] \<longrightarrow> length data = unat ?t"
    using c(3) by (auto simp: check_chunk_Inr post_link_chunk_max_def)
  then have here: "honest_run ask n (length data) ?t (bs # ds)
      \<longleftrightarrow> honest_run ask (Suc n) (length data + length bs) ?t ds" for ds
    using c decode_hex_length [OF ok(4)] by simp
  show ?case
  proof (cases "length (data @ bs) = unat ?t")
    case True
    then show ?thesis
      using eq ok here [of "[]"] by (intro exI [of _ ?t] exI [of _ "[bs]"]) auto
  next
    case False
    then have "post_link_loop ask (Suc n) (data @ bs) (Some ?t) = Inr (Some d)" using eq by simp
    from "1.IH" [OF c(1,2) refl c(3) False this] obtain whole ds where
      "d = (data @ bs) @ concat ds" "unat whole = length d" "length d < section_max" "whole = ?t"
      "honest_run ask (Suc n) (length (data @ bs)) whole ds" "length ds \<le> 1 \<or> (\<forall>x \<in> set ds. x \<noteq> [])" by auto
    moreover from this(1,2) have "concat ds \<noteq> []" using False \<open>whole = ?t\<close> by auto
    then have "\<forall>x \<in> set ds. x \<noteq> []" if "length ds \<le> 1" using that by (cases ds) auto
    moreover have "bs \<noteq> []" using False ok by auto
    ultimately show ?thesis
      using ok here [of ds] by (intro exI [of _ ?t] exI [of _ "bs # ds"]) auto
  qed
qed

subsection \<open>Properties\<close>

text \<open>
  C28. Client and server agree: the download returns exactly the data written into the section's
  post-link region, in one piece, and nothing when there is no section or its region is not
  written.
\<close>

theorem post_link_downloaded:
  "client_post_link (\<lambda>_. serve_post_link c) = Inr
     (case map_option post_link (identity_section c) of Some (Written data) \<Rightarrow> Some data | _ \<Rightarrow> None)"
proof (cases "\<exists>data. map_option post_link (identity_section c) = Some (Written data)")
  case True
  then obtain data where data: "map_option post_link (identity_section c) = Some (Written data)" by blast
  from download_from [OF data, of 0 None 0] show ?thesis unfolding client_post_link_def data by simp
next
  case False
  then have "serve_post_link c (chunk_params 0) = Inl NotFound"
    using params_of_chunk [of 0]
    by (auto simp: serve_post_link_def post_link_chunk_reply_def map_post_link_err_def split: option.splits post_link.splits)
  then show ?thesis
    using False unfolding client_post_link_def
    by (subst post_link_loop.simps) (auto split: option.splits post_link.splits)
qed

lemma concat_at_least: "\<forall>x \<in> set ds. x \<noteq> [] \<Longrightarrow> length ds \<le> length (concat ds)"
proof (induction ds)
  case (Cons d ds)
  then have "1 \<le> length d" "length ds \<le> length (concat ds)" by (auto simp: Suc_le_eq)
  then show ?case unfolding concat.simps length_append length_Cons by linarith
qed simp

text \<open>
  Whatever the peer answers, and even if it answers each call differently, a download that
  returns data is neither truncated nor padded: it is the concatenation of chunks that each started where
  the last ended and announced the length of the whole, below 64 KiB and after at most one call per byte.
\<close>

theorem post_link_unforged:
  "case client_post_link ask of
     Inr (Some d) \<Rightarrow>
       \<exists>ds. d = concat ds \<and> length d < 64 * 1024 \<and> honest_run ask 0 0 (of_nat (length d)) ds
         \<and> length ds \<le> max 1 (length d)
   | _ \<Rightarrow> True"
proof (cases "\<exists>d. client_post_link ask = Inr (Some d)")
  case True
  then obtain d where d: "client_post_link ask = Inr (Some d)" by blast
  then obtain whole ds where run: "d = concat ds" "unat whole = length d" "length d < section_max"
      "honest_run ask 0 0 whole ds" "length ds \<le> 1 \<or> (\<forall>x \<in> set ds. x \<noteq> [])"
    using download_sound [of ask 0 "[]" None d] by (auto simp: client_post_link_def)
  have "whole = of_nat (length d)" unfolding run(2) [symmetric] by simp
  moreover have "length ds \<le> max 1 (length d)" using run(1,5) concat_at_least by fastforce
  ultimately show ?thesis using run by (auto simp: d section_max_def)
next
  case False
  then show ?thesis by (auto split: sum.split option.split)
qed

end
