(* ===== verification/Aimx_Dispatch.thy ===== *)
theory Aimx_Dispatch
  imports Record_Stream Post_Link Topic_Match Session_Server
begin

text \<open>
  The AimX dispatch (\<open>aimdb-core/src/session/aimx/dispatch.rs\<close>): what a remote peer can ask of a running
  database, with the configuration and the security policy (\<open>remote/config.rs\<close>), the version gate
  (\<open>remote/protocol.rs\<close>), the query parameters (\<open>remote/query.rs\<close>) and \<open>apply_writable\<close>
  (\<open>aimdb-uds-connector/src/lib.rs\<close>).  It is a dispatch of the session engine (\<open>Session_Server\<close>).

  JSON text, the derived serialisation of the listing and the graph, the \<open>instance.info\<close> reply and the query
  handler of the persistence crate are parameters (\<open>aimx_env\<close>).  The \<open>observability\<close> resets are not
  modelled.  \<open>usize\<close> is 64 bits wide.
\<close>

subsection \<open>The version gate\<close>

definition protocol_version :: string where "protocol_version = ''4.0''"

definition protocol_major :: "string \<Rightarrow> string option" where
  "protocol_major version =
     (case split_on CHR ''.'' version of major # _ \<Rightarrow> if major \<noteq> [] then Some major else None | [] \<Rightarrow> None)"

definition version_compatible :: "string \<Rightarrow> bool" where
  "version_compatible theirs =
     (case (protocol_major theirs, protocol_major protocol_version) of
        (Some t, Some o') \<Rightarrow> t = o'
      | _ \<Rightarrow> False)"

subsection \<open>Configuration\<close>

text \<open>The writable set is listed in the order its iteration takes.\<close>

datatype security_policy = ReadOnly | ReadWrite "string list"

record aimx_config =
  ac_socket_path :: string
  ac_policy :: security_policy
  ac_max_connections :: nat
  ac_max_subs :: nat
  ac_auth_token :: "string option"
  ac_socket_permissions :: "u32 option"

definition uds_default :: aimx_config where
  "uds_default =
     \<lparr>ac_socket_path = ''/tmp/aimdb.sock'', ac_policy = ReadOnly, ac_max_connections = 16, ac_max_subs = 32,
      ac_auth_token = None, ac_socket_permissions = Some 0x180\<rparr>"

definition policy_read_only :: security_policy where "policy_read_only = ReadOnly"
definition policy_read_write :: security_policy where "policy_read_write = ReadWrite []"

text \<open>\<open>None\<close> is the panic on a read-only policy.\<close>

definition with_writable_key :: "string \<Rightarrow> security_policy \<Rightarrow> security_policy option" where
  "with_writable_key key p =
     (case p of ReadWrite ws \<Rightarrow> Some (ReadWrite (List.insert key ws)) | ReadOnly \<Rightarrow> None)"

definition is_writable_key :: "string \<Rightarrow> security_policy \<Rightarrow> bool" where
  "is_writable_key key p = (case p of ReadOnly \<Rightarrow> False | ReadWrite ws \<Rightarrow> key \<in> set ws)"

definition writable_records :: "security_policy \<Rightarrow> string list" where
  "writable_records p = (case p of ReadOnly \<Rightarrow> [] | ReadWrite ws \<Rightarrow> ws)"

text \<open>Marking the records of the policy, so that the listing shows them writable.\<close>

definition mark_writable :: "string \<Rightarrow> ('v, 'j, 'f) aimdb \<Rightarrow> ('v, 'j, 'f) aimdb" where
  "mark_writable key db =
     (case resolve_str db key of
        None \<Rightarrow> db
      | Some rid \<Rightarrow> (case storage db rid of None \<Rightarrow> db | Some _ \<Rightarrow> set_writable_erased rid True db))"

definition apply_writable :: "aimx_config \<Rightarrow> ('v, 'j, 'f) aimdb \<Rightarrow> ('v, 'j, 'f) aimdb" where
  "apply_writable cfg db = fold mark_writable (writable_records (ac_policy cfg)) db"

subsection \<open>Queries of stored history\<close>

record query_params =
  qp_name :: string
  qp_limit :: nat
  qp_start :: "u64 option"
  qp_end :: "u64 option"

record query_record =
  qr_topic :: string
  qr_payload :: json
  qr_ts :: u64

definition query_params_of :: "json \<Rightarrow> query_params" where
  "query_params_of v =
     \<lparr>qp_name = (case str_field v ''name'' of Some s \<Rightarrow> s | None \<Rightarrow> ''#''),
      qp_limit = (case Option.bind (json_get ''limit'' v) json_as_u64 of Some n \<Rightarrow> unat n | None \<Rightarrow> 1),
      qp_start = Option.bind (json_get ''start'' v) json_as_u64,
      qp_end = Option.bind (json_get ''end'' v) json_as_u64\<rparr>"

definition query_record_json :: "query_record \<Rightarrow> json" where
  "query_record_json r = JObject
     [(''topic'', JString (qr_topic r)), (''payload'', qr_payload r), (''ts'', JNumber (PosInt (qr_ts r)))]"

subsection \<open>A session\<close>

record aimx_env =
  ae_text :: json_text
  ae_now :: "nat \<Rightarrow> u64"
  ae_listing :: "record_metadata list \<Rightarrow> json"
  ae_nodes :: "graph_node list \<Rightarrow> json"
  ae_edges :: "graph_edge list \<Rightarrow> json"
  ae_info :: "identity_config \<Rightarrow> bytes"
  ae_query :: "(query_params \<Rightarrow> string + query_record list) option"

text \<open>The database and the connection's drain readers, each with the record it reads.\<close>

record ('v, 'f) aimx_state =
  as_db :: "('v, json, 'f) aimdb"
  as_readers :: "string \<rightharpoonup> u32 \<times> ('v, json) json_reader"

definition aimx_open :: "('v, 'f) aimx_state \<Rightarrow> ('v, 'f) aimx_state" where
  "aimx_open st = st\<lparr>as_readers := \<lambda>_. None\<rparr>"

definition map_db_err :: "db_error \<Rightarrow> rpc_error" where
  "map_db_err e = (case e of RecordKeyNotFound _ \<Rightarrow> NotFound | InvalidRecordId _ \<Rightarrow> NotFound | _ \<Rightarrow> Internal)"

definition ensure_writable :: "aimx_config \<Rightarrow> string \<Rightarrow> rpc_error option" where
  "ensure_writable cfg name =
     (case ac_policy cfg of ReadWrite ws \<Rightarrow> if name \<in> set ws then None else Some Denied | ReadOnly \<Rightarrow> Some Denied)"

definition stamped_value_json :: "(json, u64) stamped \<Rightarrow> json" where
  "stamped_value_json s = JObject [(''value'', st_value s), (''ts'', JNumber (PosInt (st_metadata s)))]"

subsection \<open>Reading\<close>

definition open_reader :: "string \<Rightarrow> ('v, json, 'f) aimdb \<Rightarrow> rpc_error + (u32 \<times> ('v, json) json_reader)" where
  "open_reader name db =
     (case resolve_str db name of
        None \<Rightarrow> Inl NotFound
      | Some rid \<Rightarrow>
          (case storage db rid of
             None \<Rightarrow> Inl NotFound
           | Some r \<Rightarrow>
               (case subscribe_json r of Inl e \<Rightarrow> Inl (map_db_err e) | Inr jr \<Rightarrow> Inr (rid, jr))))"

definition drain_values ::
  "string \<Rightarrow> nat option \<Rightarrow> ('v, 'f) aimx_state \<Rightarrow> (rpc_error + (json, u64) stamped list) \<times> ('v, 'f) aimx_state" where
  "drain_values name limit st =
     (case (case as_readers st name of Some x \<Rightarrow> Inr x | None \<Rightarrow> open_reader name (as_db st)) of
        Inl e \<Rightarrow> (Inl e, st)
      | Inr (rid, jr) \<Rightarrow>
          (case storage (as_db st) rid of
             None \<Rightarrow> (Inr [], st)
           | Some r \<Rightarrow>
               (case drain_loop limit r jr 0 of
                  (values, r', jr') \<Rightarrow>
                    (Inr values, st\<lparr>as_db := set_record (unat rid) r' (as_db st),
                       as_readers := (as_readers st)(name \<mapsto> (rid, jr'))\<rparr>))))"

text \<open>Where a stamp did not fit its buffer \<open>value_reply\<close> would panic; it always fits (\<open>Json_Value\<close>).\<close>

definition record_get ::
  "aimx_env \<Rightarrow> string \<Rightarrow> ('v, 'f) aimx_state \<Rightarrow> (rpc_error + bytes) \<times> ('v, 'f) aimx_state" where
  "record_get env name st =
     (case try_latest_as_json_bytes name (as_db st) of
        Some s \<Rightarrow>
          (case value_reply (st_value s) (st_metadata s) of
             Some reply \<Rightarrow> (Inr reply, st)
           | None \<Rightarrow> (Inl Internal, st))
      | None \<Rightarrow>
          (case drain_values name None st of
             (Inl e, st') \<Rightarrow> (Inl e, st')
           | (Inr values, st') \<Rightarrow>
               (if values = [] then (Inl NotFound, st')
                else (Inr (to_payload (ae_text env) (stamped_value_json (last values))), st'))))"

definition record_drain ::
  "json \<Rightarrow> ('v, 'f) aimx_state \<Rightarrow> (rpc_error + json) \<times> ('v, 'f) aimx_state" where
  "record_drain params' st =
     (case str_field params' ''name'' of
        None \<Rightarrow> (Inl Internal, st)
      | Some name \<Rightarrow>
          (case drain_values name (map_option unat (Option.bind (json_get ''limit'' params') json_as_u64)) st of
             (Inl e, st') \<Rightarrow> (Inl e, st')
           | (Inr values, st') \<Rightarrow>
               (Inr (JObject
                  [(''record_name'', JString name), (''values'', JArray (map stamped_value_json values)),
                   (''count'', JNumber (PosInt (of_nat (length values))))]), st')))"

definition record_query :: "aimx_env \<Rightarrow> json \<Rightarrow> rpc_error + json" where
  "record_query env params' =
     (case ae_query env of
        None \<Rightarrow> Inl NotFound
      | Some handler \<Rightarrow>
          (case handler (query_params_of params') of
             Inl _ \<Rightarrow> Inl Internal
           | Inr records \<Rightarrow> Inr (JObject [(''records'', JArray (map query_record_json records))])))"

subsection \<open>Writing\<close>

text \<open>An id without a record is a panic of \<open>set_record_from_json\<close>; a well-formed database has none.\<close>

definition set_json ::
  "aimx_env \<Rightarrow> string \<Rightarrow> json \<Rightarrow> ('v, 'f) aimx_state \<Rightarrow> (rpc_error + unit) \<times> ('v, 'f) aimx_state" where
  "set_json env name value st =
     (case set_record_from_json (ae_now env) name value (as_db st) of
        None \<Rightarrow> (Inl Internal, st)
      | Some (Inl e) \<Rightarrow> (Inl (map_db_err e), st)
      | Some (Inr db) \<Rightarrow> (Inr (), st\<lparr>as_db := db\<rparr>))"

definition record_set ::
  "aimx_config \<Rightarrow> aimx_env \<Rightarrow> json \<Rightarrow> ('v, 'f) aimx_state \<Rightarrow> (rpc_error + json) \<times> ('v, 'f) aimx_state" where
  "record_set cfg env params' st =
     (case str_field params' ''name'' of
        None \<Rightarrow> (Inl Internal, st)
      | Some name \<Rightarrow>
          (case json_get ''value'' params' of
             None \<Rightarrow> (Inl Internal, st)
           | Some value \<Rightarrow>
               (case ensure_writable cfg name of
                  Some e \<Rightarrow> (Inl e, st)
                | None \<Rightarrow>
                    (case set_json env name value st of
                       (Inl e, st') \<Rightarrow> (Inl e, st')
                     | (Inr _, st') \<Rightarrow>
                         (Inr (case try_latest_as_json name (as_db st') of
                            Some s \<Rightarrow> JObject [(''status'', JString ''success''),
                               (''ts'', JNumber (PosInt (st_metadata s))), (''value'', st_value s)]
                          | None \<Rightarrow> JObject [(''status'', JString ''success'')]), st')))))"

definition aimx_write ::
  "aimx_config \<Rightarrow> aimx_env \<Rightarrow> string \<Rightarrow> bytes \<Rightarrow> ('v, 'f) aimx_state \<Rightarrow> (rpc_error + unit) \<times> ('v, 'f) aimx_state" where
  "aimx_write cfg env topic payload st =
     (case ensure_writable cfg topic of
        Some e \<Rightarrow> (Inl e, st)
      | None \<Rightarrow>
          (let v = parse_or_null (ae_text env) payload in
           set_json env topic (case json_get ''value'' v of Some w \<Rightarrow> w | None \<Rightarrow> v) st))"

subsection \<open>The handshake\<close>

definition welcome_message :: "aimx_config \<Rightarrow> ('v, json, 'f) aimdb \<Rightarrow> json" where
  "welcome_message cfg db =
     (case (case ac_policy cfg of
              ReadOnly \<Rightarrow> ([''read''], [])
            | ReadWrite ws \<Rightarrow>
                ([''read'', ''write''], filter (\<lambda>k. k \<in> rm_record_key ` set (list_records db)) ws)) of
        (permissions, writable) \<Rightarrow> JObject
          ([(''version'', JString protocol_version), (''server'', JString ''aimdb''),
            (''permissions'', JArray (map JString permissions)),
            (''writable_records'', JArray (map JString writable)),
            (''max_subscriptions'', JNumber (PosInt (of_nat (ac_max_subs cfg)))),
            (''authenticated'', JBool False)]
           @ (case ic_name (db_identity db) of Some n \<Rightarrow> [(''instance_name'', JString n)] | None \<Rightarrow> [])))"

definition hello :: "aimx_config \<Rightarrow> json \<Rightarrow> ('v, json, 'f) aimdb \<Rightarrow> rpc_error + json" where
  "hello cfg params' db =
     (if version_compatible (case str_field params' ''version'' of Some v \<Rightarrow> v | None \<Rightarrow> [])
      then Inr (welcome_message cfg db) else Inl VersionMismatch)"

subsection \<open>Requests\<close>

definition json_reply ::
  "aimx_env \<Rightarrow> (rpc_error + json) \<times> ('v, 'f) aimx_state \<Rightarrow> (rpc_error + bytes) \<times> ('v, 'f) aimx_state" where
  "json_reply env r = (map_sum (\<lambda>e. e) (to_payload (ae_text env)) (fst r), snd r)"

definition dispatch_call ::
  "aimx_config \<Rightarrow> aimx_env \<Rightarrow> string \<Rightarrow> json \<Rightarrow> ('v, 'f) aimx_state
   \<Rightarrow> (rpc_error + bytes) \<times> ('v, 'f) aimx_state" where
  "dispatch_call cfg env method' params' st =
     (if method' = ''record.get'' then
        (case str_field params' ''name'' of None \<Rightarrow> (Inl NotFound, st) | Some name \<Rightarrow> record_get env name st)
      else if method' = ''instance.info'' then (Inr (ae_info env (db_identity (as_db st))), st)
      else if method' = ''instance.post_link'' then
        json_reply env (serve_post_link (db_identity (as_db st)) params', st)
      else json_reply env
        (if method' = ''hello'' then (hello cfg params' (as_db st), st)
         else if method' = ''record.list'' then (Inr (ae_listing env (list_records (as_db st))), st)
         else if method' = ''record.set'' then record_set cfg env params' st
         else if method' = ''record.drain'' then record_drain params' st
         else if method' = ''record.query'' then (record_query env params', st)
         else if method' = ''graph.nodes'' then (Inr (ae_nodes env (graph_nodes (db_graph (as_db st)))), st)
         else if method' = ''graph.edges'' then (Inr (ae_edges env (graph_edges (db_graph (as_db st)))), st)
         else if method' = ''graph.topo_order''
         then (Inr (JArray (map JString (topo_order (db_graph (as_db st))))), st)
         else (Inl NotFound, st)))"

definition aimx_call ::
  "aimx_config \<Rightarrow> aimx_env \<Rightarrow> string \<Rightarrow> bytes \<Rightarrow> ('v, 'f) aimx_state
   \<Rightarrow> (rpc_error + bytes) \<times> ('v, 'f) aimx_state" where
  "aimx_call cfg env method' payload st = dispatch_call cfg env method' (parse_or_null (ae_text env) payload) st"

subsection \<open>Subscriptions\<close>

definition matched_keys :: "string \<Rightarrow> ('v, 'j, 'f) aimdb \<Rightarrow> string list" where
  "matched_keys pat db = filter (topic_matches pat) (map rm_record_key (list_records db))"

text \<open>One stream, or the streams of every matched record that can stream, each with its tag.\<close>

datatype 'v aimx_stream = ExactStream "('v, json) record_stream" | TaggedStreams "(string \<times> ('v, json) record_stream) list"

definition subscribe_wildcard :: "string \<Rightarrow> ('v, json, 'f) aimdb \<Rightarrow> 'v aimx_stream" where
  "subscribe_wildcard pat db = TaggedStreams
     (List.map_filter (\<lambda>key. case stream_record_updates key db of Inr s \<Rightarrow> Some (key, s) | Inl _ \<Rightarrow> None)
        (matched_keys pat db))"

definition aimx_subscribe :: "string \<Rightarrow> ('v, json, 'f) aimdb \<Rightarrow> rpc_error + 'v aimx_stream" where
  "aimx_subscribe topic db =
     (if is_wildcard topic then Inr (subscribe_wildcard topic db)
      else (case stream_record_updates topic db of Inl e \<Rightarrow> Inl (map_db_err e) | Inr s \<Rightarrow> Inr (ExactStream s)))"

text \<open>
  Polling the stream a subscription got: of merged streams, the one \<open>select_all\<close> looks at.  \<open>None\<close> is a
  poll that gives nothing; an ended stream of a merged subscription leaves the merge.
\<close>

definition aimx_poll ::
  "nat \<Rightarrow> nat \<Rightarrow> 'v aimx_stream \<Rightarrow> ('v, json, 'f) aimdb
   \<Rightarrow> sub_update option \<times> 'v aimx_stream \<times> ('v, json, 'f) aimdb" where
  "aimx_poll w n strm db =
     (case strm of
        ExactStream s \<Rightarrow>
          (case stream_poll w s db of
             (out, s', db') \<Rightarrow>
               (case out of StreamItem d t k \<Rightarrow> Some ((sub_update_new d t)\<lparr>su_skipped := k\<rparr>) | _ \<Rightarrow> None,
                ExactStream s', db'))
      | TaggedStreams ss \<Rightarrow>
          if length ss \<le> n then (None, strm, db)
          else
            (case ss ! n of
               (key, s) \<Rightarrow>
                 (case stream_poll w s db of
                    (StreamItem d t k, s', db') \<Rightarrow>
                      (Some ((sub_update_tagged key d t)\<lparr>su_skipped := k\<rparr>), TaggedStreams (ss[n := (key, s')]), db')
                  | (StreamPending, s', db') \<Rightarrow> (None, TaggedStreams (ss[n := (key, s')]), db')
                  | (StreamEnd, s', db') \<Rightarrow> (None, TaggedStreams (take n ss @ drop (Suc n) ss), db'))))"

definition aimx_snapshots ::
  "aimx_env \<Rightarrow> string \<Rightarrow> ('v, json, 'f) aimdb \<Rightarrow> (string \<times> bytes \<times> stamp) list" where
  "aimx_snapshots env topic db =
     (if \<not> is_wildcard topic then []
      else List.map_filter (\<lambda>key.
        map_option (\<lambda>s. (key, to_payload (ae_text env) (st_value s), st_metadata s)) (try_latest_as_json key db))
        (matched_keys topic db))"

subsection \<open>The dispatch behind the engine\<close>

definition aimx_dispatch :: "aimx_config \<Rightarrow> aimx_env \<Rightarrow> ('v, 'f) aimx_state dispatch" where
  "aimx_dispatch cfg env =
     \<lparr>sess_open = aimx_open,
      sess_starts = (\<lambda>method' _. method' = ''hello''),
      sess_call = aimx_call cfg env,
      sess_subscribe = (\<lambda>topic st. (map_sum (\<lambda>e. e) (\<lambda>_. ()) (aimx_subscribe topic (as_db st)), st)),
      sess_snapshots = (\<lambda>topic st. (aimx_snapshots env topic (as_db st), st)),
      sess_write = aimx_write cfg env\<rparr>"

text \<open>Every peer is accepted, whatever it sends.\<close>

definition aimx_authenticate :: "bytes option \<Rightarrow> bool" where
  "aimx_authenticate first = True"

end
