(* ===== verification/Aimx_Access.thy ===== *)
theory Aimx_Access
  imports Aimx_Dispatch
begin

text \<open>
  What a remote peer can do to a database: nothing but read the records outside the writable set.
  The dispatch keeps the confinement, and the engine with it (\<open>session_contract\<close>).
\<close>

subsection \<open>Being read\<close>

text \<open>A read leaves a record alone, or takes the value of its mailbox.\<close>

definition read_record :: "('v, 'j, 'f) typed_record \<Rightarrow> ('v, 'j, 'f) typed_record \<Rightarrow> bool" where
  "read_record r r' \<longleftrightarrow> r' = r
     \<or> (\<exists>v w. tr_buffer r = Some (Mailbox (Some v) w) \<and> r' = r\<lparr>tr_buffer := Some (Mailbox None w)\<rparr>)"

definition read_entry :: "('v, 'j, 'f) record_entry \<Rightarrow> ('v, 'j, 'f) record_entry \<Rightarrow> bool" where
  "read_entry e e' \<longleftrightarrow> (\<exists>r'. read_record (en_record e) r' \<and> e' = e\<lparr>en_record := r'\<rparr>)"

lemma read_record_refl [simp]: "read_record r r"
  by (simp add: read_record_def)

lemma read_record_trans: "read_record r s \<Longrightarrow> read_record s t \<Longrightarrow> read_record r t"
  by (auto simp: read_record_def)

lemma read_entry_refl [simp]: "read_entry e e"
  by (auto simp: read_entry_def intro: exI [of _ "en_record e"])

lemma read_entry_set: "read_entry e0 e \<Longrightarrow> read_record (en_record e) r \<Longrightarrow> read_entry e0 (e\<lparr>en_record := r\<rparr>)"
  using read_record_trans by (fastforce simp: read_entry_def)

lemma read_record_same: "read_record r r' \<Longrightarrow> same_record r r'"
  by (auto simp: read_record_def same_record_def)

lemma wasm_recv_read:
  assumes "wasm_try_recv b rd = (out, b', rd')"
  shows "b' = b \<or> (\<exists>v w. b = Mailbox (Some v) w \<and> b' = Mailbox None w)"
proof (cases "(b, rd)" rule: wasm_try_recv.cases)
  case (3 slot wakers)
  then show ?thesis using assms by (cases slot) auto
qed (use assms in \<open>auto simp: Let_def split: if_splits option.splits\<close>)

lemma try_recv_read:
  assumes "try_recv_with f r jr = (out, r', jr')"
  shows "read_record r r'"
proof (cases "tr_buffer r")
  case None
  then show ?thesis using assms by (simp add: try_recv_with_def)
next
  case (Some b)
  obtain res b' rd where t: "wasm_try_recv b (fst jr) = (res, b', rd)" by (metis prod_cases3)
  have r': "r' = r\<lparr>tr_buffer := Some b'\<rparr>" using assms Some t by (simp add: try_recv_with_def)
  from wasm_recv_read [OF t] show ?thesis
    using r' Some record_same_buffer [OF Some] by (auto simp: read_record_def)
qed

lemma drain_read: "drain_loop limit r jr n = (ss, r', jr') \<Longrightarrow> read_record r r'"
proof (induction limit r jr n arbitrary: ss r' jr' rule: drain_loop.induct)
  case (1 limit r jr n)
  show ?case
  proof (cases "case limit of None \<Rightarrow> False | Some m \<Rightarrow> m \<le> n")
    case True
    then show ?thesis using "1.prems" by (subst (asm) drain_loop.simps) simp
  next
    case False
    obtain out s js where t: "try_recv_json r jr = (out, s, js)" by (metis prod_cases3)
    have rs: "read_record r s" using try_recv_read t by (simp add: try_recv_json_def)
    show ?thesis
    proof (cases out)
      case (Inr v)
      obtain ss' r'' jr'' where d: "drain_loop limit s js (Suc n) = (ss', r'', jr'')" by (metis prod_cases3)
      have "r' = r''" using "1.prems" False t Inr d by (subst (asm) drain_loop.simps) simp
      moreover have "read_record s r''" using "1.IH"(2) [OF False t [symmetric] Inr refl d] by simp
      ultimately show ?thesis using read_record_trans rs by blast
    next
      case (Inl e)
      show ?thesis
      proof (cases "\<exists>k. e = DbBufferLagged k")
        case True
        then obtain k where k: "e = DbBufferLagged k" by blast
        then have d: "drain_loop limit s js n = (ss, r', jr')"
          using "1.prems" False t Inl by (subst (asm) drain_loop.simps) simp
        have "read_record s r'" using "1.IH"(1) [OF False t [symmetric] Inl refl k d] by simp
        then show ?thesis using read_record_trans rs by blast
      next
        case no: False
        then have "r' = s"
          using "1.prems" False t Inl by (subst (asm) drain_loop.simps) (auto split: db_error.splits)
        then show ?thesis using rs by simp
      qed
    qed
  qed
qed

subsection \<open>Confinement\<close>

definition confined :: "string set \<Rightarrow> ('v, 'j, 'f) aimdb \<Rightarrow> ('v, 'j, 'f) aimdb \<Rightarrow> bool" where
  "confined ws db0 db \<longleftrightarrow> same_shape db0 db
     \<and> (\<forall>i < length (db_storages db0). en_key (db_storages db0 ! i) \<notin> ws
          \<longrightarrow> read_entry (db_storages db0 ! i) (db_storages db ! i))"

lemma confined_refl [simp]: "confined ws db db"
  by (simp add: confined_def)

lemma confined_set:
  assumes "confined ws db0 db" and "storage db rid = Some r" and "same_record r r'"
    and "read_record r r' \<or> en_key (db_storages db0 ! unat rid) \<in> ws"
  shows "confined ws db0 (set_record (unat rid) r' db)"
proof -
  note same = same_shape_nth [of db0 db]
  have shape: "same_shape db0 db" using assms(1) by (simp add: confined_def)
  have rid: "unat rid < length (db_storages db)" "r = en_record (db_storages db ! unat rid)"
    using assms(2) by (auto simp: storage_Some)
  have "same_shape db0 (set_record (unat rid) r' db)"
    by (rule same_shape_trans [OF shape same_shape_set_record]) (use assms(2,3) rid in auto)
  moreover have "read_entry (db_storages db0 ! i) (db_storages (set_record (unat rid) r' db) ! i)"
    if "i < length (db_storages db0)" "en_key (db_storages db0 ! i) \<notin> ws" for i
  proof -
    have "read_entry (db_storages db0 ! i) (db_storages db ! i)" using assms(1) that by (simp add: confined_def)
    then show ?thesis
      using that rid assms(4) same(1) [OF shape] read_entry_set
      by (cases "i = unat rid") (auto simp: set_record_def)
  qed
  ultimately show ?thesis by (simp add: confined_def)
qed

definition aimx_confined :: "aimx_config \<Rightarrow> ('v, json, 'f) aimdb \<Rightarrow> ('v, 'f) aimx_state \<Rightarrow> bool" where
  "aimx_confined cfg db0 st \<longleftrightarrow> db_ok db0 \<and> confined (set (writable_records (ac_policy cfg))) db0 (as_db st)"

lemma confined_set_json:
  assumes "aimx_confined cfg db0 st" and "ensure_writable cfg name = None"
  shows "aimx_confined cfg db0 (snd (set_json env name value st))"
proof (cases "set_record_from_json (ae_now env) name value (as_db st)")
  case (Some res)
  show ?thesis
  proof (cases res)
    case (Inr db)
    obtain rid r r' where w: "resolve_str (as_db st) name = Some rid" "storage (as_db st) rid = Some r"
        "set_from_json (ae_now env) value r = Inr r'" "db = set_record (unat rid) r' (as_db st)"
      using Some Inr by (auto simp: set_record_from_json_def split: option.splits sum.splits)
    have c: "db_ok db0" "confined (set (writable_records (ac_policy cfg))) db0 (as_db st)"
      using assms(1) by (simp_all add: aimx_confined_def)
    then have "db_by_key db0 name = Some rid"
      using w(1) same_shape_nth(3) [of db0 "as_db st"] by (simp add: resolve_str_def confined_def)
    then have "en_key (db_storages db0 ! unat rid) = name" using c(1) by (simp add: db_ok_def)
    moreover have "name \<in> set (writable_records (ac_policy cfg))"
      using assms(2) by (auto simp: ensure_writable_def writable_records_def split: security_policy.splits if_splits)
    ultimately have "confined (set (writable_records (ac_policy cfg))) db0 db"
      using confined_set [OF c(2) w(2) same_record_json [OF w(3)]] w(4) by simp
    then show ?thesis using Some Inr c(1) by (simp add: set_json_def aimx_confined_def)
  qed (use Some assms in \<open>simp add: set_json_def\<close>)
qed (use assms in \<open>simp add: set_json_def\<close>)

lemma confined_drain:
  assumes "aimx_confined cfg db0 st"
  shows "aimx_confined cfg db0 (snd (drain_values name limit st))"
proof (cases "case as_readers st name of Some x \<Rightarrow> Inr x | None \<Rightarrow> open_reader name (as_db st)")
  case (Inr x)
  obtain rid jr where x: "x = (rid, jr)" by (cases x)
  show ?thesis
  proof (cases "storage (as_db st) rid")
    case (Some r)
    obtain ss r' jr' where d: "drain_loop limit r jr 0 = (ss, r', jr')" by (metis prod_cases3)
    have "read_record r r'" by (rule drain_read [OF d])
    then have "confined (set (writable_records (ac_policy cfg))) db0 (set_record (unat rid) r' (as_db st))"
      using confined_set [OF _ Some read_record_same] assms by (auto simp: aimx_confined_def)
    then show ?thesis using assms Inr x Some d by (simp add: drain_values_def aimx_confined_def)
  qed (use assms Inr x in \<open>simp add: drain_values_def\<close>)
qed (use assms in \<open>simp add: drain_values_def\<close>)

lemma confined_get: "aimx_confined cfg db0 st \<Longrightarrow> aimx_confined cfg db0 (snd (record_get env name st))"
  using confined_drain [of cfg db0 st name None]
  by (auto simp: record_get_def split: option.splits prod.splits sum.splits)

lemma confined_record_drain: "aimx_confined cfg db0 st \<Longrightarrow> aimx_confined cfg db0 (snd (record_drain p st))"
  using confined_drain [of cfg db0 st]
  by (auto simp: record_drain_def split: option.splits prod.splits sum.splits) (metis snd_conv)+

lemma confined_record_set:
  assumes "aimx_confined cfg db0 st"
  shows "aimx_confined cfg db0 (snd (record_set cfg env q st))"
proof (cases "str_field q ''name''")
  case (Some name)
  show ?thesis
  proof (cases "json_get ''value'' q")
    case v: (Some x)
    obtain res st' where s: "set_json env name x st = (res, st')" by fastforce
    show ?thesis
    proof (cases "ensure_writable cfg name")
      case None
      from confined_set_json [OF assms None, of env x] have "aimx_confined cfg db0 st'" by (simp add: s)
      then show ?thesis using Some v None s by (cases res) (simp_all add: record_set_def)
    qed (use assms Some v in \<open>simp add: record_set_def\<close>)
  qed (use assms Some in \<open>simp add: record_set_def\<close>)
qed (use assms in \<open>simp add: record_set_def\<close>)

lemma confined_write: "aimx_confined cfg db0 st \<Longrightarrow> aimx_confined cfg db0 (snd (aimx_write cfg env topic p st))"
  using confined_set_json [of cfg db0 st topic env] by (simp add: aimx_write_def Let_def split: option.split)

lemma confined_call:
  assumes "aimx_confined cfg db0 st"
  shows "aimx_confined cfg db0 (snd (aimx_call cfg env m p st))"
  using assms confined_get [OF assms] confined_record_drain [OF assms] confined_record_set [OF assms]
  by (simp add: aimx_call_def dispatch_call_def json_reply_def split: option.split)

text \<open>The confinement is a contract of the dispatch with the engine.\<close>

interpretation aimx: session_contract "aimx_dispatch cfg env" "aimx_confined cfg db0"
  for cfg :: aimx_config and env :: aimx_env and db0 :: "('v, json, 'f) aimdb"
proof unfold_locales
  fix st :: "('v, 'f) aimx_state" and m topic :: string and p :: bytes
  assume st: "aimx_confined cfg db0 st"
  show "aimx_confined cfg db0 (sess_open (aimx_dispatch cfg env) st)"
    using st by (simp add: aimx_dispatch_def aimx_open_def aimx_confined_def)
  show "aimx_confined cfg db0 (snd (sess_call (aimx_dispatch cfg env) m p st))"
    using confined_call [OF st] by (simp add: aimx_dispatch_def)
  show "aimx_confined cfg db0 (snd (sess_subscribe (aimx_dispatch cfg env) topic st))"
    and "aimx_confined cfg db0 (snd (sess_snapshots (aimx_dispatch cfg env) topic st))"
    using st by (simp_all add: aimx_dispatch_def)
  show "aimx_confined cfg db0 (snd (sess_write (aimx_dispatch cfg env) topic p st))"
    using confined_write [OF st] by (simp add: aimx_dispatch_def)
qed

subsection \<open>The handshake and the listing\<close>

lemma split_on_hd: "split_on c xs = ys # yss \<Longrightarrow> xs = ys \<or> (\<exists>r. xs = ys @ c # r)"
  using split_on_prefix_iff [of c xs ys] split_on_no_sep [of ys c xs]
  by (simp add: split_on_free)

lemma version_compatible_iff: "version_compatible v \<longleftrightarrow> v = ''4'' \<or> starts_with ''4.'' v"
proof -
  have ours: "protocol_major protocol_version = Some ''4''"
    by (simp add: protocol_major_def protocol_version_def)
  obtain ys yss where s: "split_on CHR ''.'' v = ys # yss" by (cases "split_on CHR ''.'' v") auto
  have "version_compatible v \<longleftrightarrow> ys = ''4''"
    unfolding version_compatible_def ours by (auto simp: protocol_major_def s)
  also have "\<dots> \<longleftrightarrow> v = ''4'' \<or> starts_with ''4.'' v"
  proof
    assume "ys = ''4''"
    then show "v = ''4'' \<or> starts_with ''4.'' v" using split_on_hd [OF s] by (auto simp: starts_with_iff)
  next
    assume "v = ''4'' \<or> starts_with ''4.'' v"
    then show "ys = ''4''" using s by (auto simp: starts_with_iff)
  qed
  finally show ?thesis .
qed

lemma listed_keys: "map rm_record_key (list_records db) = map en_key (db_storages db)"
  by (rule nth_equalityI) (simp_all add: list_records_def collect_metadata_def Let_def nth_enumerate_eq split: prod.split)

lemma key_listed: "db_ok db \<Longrightarrow> k \<in> en_key ` set (db_storages db) \<longleftrightarrow> resolve_str db k \<noteq> None"
proof -
  assume ok: "db_ok db"
  show ?thesis
  proof
    assume "k \<in> en_key ` set (db_storages db)"
    then obtain i where "i < length (db_storages db)" "en_key (db_storages db ! i) = k" by (auto simp: in_set_conv_nth)
    then show "resolve_str db k \<noteq> None" using db_ok_lookup(1) [OF ok] by (auto simp: resolve_str_def)
  next
    assume "resolve_str db k \<noteq> None"
    then obtain rid where "db_by_key db k = Some rid" by (auto simp: resolve_str_def)
    then have "unat rid < length (db_storages db) \<and> en_key (db_storages db ! unat rid) = k" using ok by (simp add: db_ok_def)
    then show "k \<in> en_key ` set (db_storages db)" using nth_mem by (metis image_eqI)
  qed
qed

lemma mark_writable_eq:
  "mark_writable k db = (case resolve_str db k of None \<Rightarrow> db | Some rid \<Rightarrow> set_writable_erased rid True db)"
  by (simp add: mark_writable_def set_writable_erased_def split: option.split)

lemma set_writable_shape: "same_shape db (set_writable_erased rid w db)"
  using same_shape_step [of db "\<lambda>_. 0" "DbSetWritable rid w"] by simp

lemma mark_writable_shape: "same_shape db (mark_writable k db)"
  by (simp add: mark_writable_eq set_writable_shape split: option.split)

lemma mark_writable_flag:
  assumes "db_ok db" and "i < length (db_storages db)"
  shows "tr_writable (en_record (db_storages (mark_writable k db) ! i))
     \<longleftrightarrow> tr_writable (en_record (db_storages db ! i)) \<or> k = en_key (db_storages db ! i)"
proof (cases "resolve_str db k")
  case None
  then have "k \<noteq> en_key (db_storages db ! i)" using db_ok_lookup(1) [OF assms] by (auto simp: resolve_str_def)
  then show ?thesis using None by (simp add: mark_writable_eq)
next
  case (Some rid)
  then have rid: "unat rid < length (db_storages db)" "en_key (db_storages db ! unat rid) = k"
    using assms(1) by (simp_all add: db_ok_def resolve_str_def)
  have "k = en_key (db_storages db ! i) \<longleftrightarrow> i = unat rid"
    using db_ok_lookup [OF assms] Some rid by (auto simp: resolve_str_def)
  then show ?thesis
    using Some rid assms(2)
    by (auto simp: mark_writable_eq set_writable_erased_def storage_def entry_of_def set_record_def set_writable_def nth_list_update)
qed

lemma apply_writable_flags:
  assumes "db_ok db"
  shows "same_shape db (fold mark_writable ws db)
     \<and> (\<forall>i < length (db_storages db). tr_writable (en_record (db_storages (fold mark_writable ws db) ! i))
          \<longleftrightarrow> tr_writable (en_record (db_storages db ! i)) \<or> en_key (db_storages db ! i) \<in> set ws)"
  using assms
proof (induction ws arbitrary: db)
  case (Cons w ws)
  note shape = mark_writable_shape [of db w]
  have keys: "en_key (db_storages (mark_writable w db) ! i) = en_key (db_storages db ! i)" if "i < length (db_storages db)" for i
    using same_shape_nth(2) [OF shape that] by (simp add: same_entry_def)
  from Cons.IH [OF db_ok_same [OF Cons.prems shape]] show ?case
    using same_shape_trans [OF shape] mark_writable_flag [OF Cons.prems] same_shape_nth(1) [OF shape] keys by auto
qed simp

lemma listed_flags:
  "map rm_writable (list_records db) = map (\<lambda>e. tr_writable (en_record e)) (db_storages db)"
  by (rule nth_equalityI) (simp_all add: list_records_def collect_metadata_def Let_def nth_enumerate_eq split: prod.split)

subsection \<open>Properties\<close>

text \<open>
  C5. A peer changes nothing outside the policy.  Whatever frames a connection sends, in whatever
  order, a record whose key is not writable is at the end what it was at the start, except that a mailbox
  may have been read empty.
\<close>

theorem peer_confined:
  assumes "run_session config (aimx_dispatch cfg env) shared fops wr funnel first aimx_authenticate steps = Some st"
    and "db_ok (as_db shared)" and "i < length (db_storages (as_db shared))"
    and "en_key (db_storages (as_db shared) ! i) \<notin> set (writable_records (ac_policy cfg))"
  shows "(let e = db_storages (as_db shared) ! i; e' = db_storages (as_db (srv_session st)) ! i in
     e' = e \<or> (\<exists>v w. tr_buffer (en_record e) = Some (Mailbox (Some v) w)
                \<and> e' = e\<lparr>en_record := (en_record e)\<lparr>tr_buffer := Some (Mailbox None w)\<rparr>\<rparr>))"
proof -
  have "aimx_confined cfg (as_db shared) shared" using assms(2) by (simp add: aimx_confined_def)
  from aimx.run_keeps [OF this assms(1)] have "read_entry (db_storages (as_db shared) ! i) (db_storages (as_db (srv_session st)) ! i)"
    using assms(3,4) by (simp add: aimx_confined_def confined_def)
  then show ?thesis by (auto simp: read_entry_def read_record_def Let_def)
qed

text \<open>
  The handshake accepts exactly the clients of protocol major 4, and what the welcome advertises as
  writable are exactly the existing records the server lets a peer write.
\<close>

theorem handshake_exact:
  assumes "db_ok db"
  shows "case hello cfg params' db of
     Inl e \<Rightarrow> e = VersionMismatch
       \<and> \<not> (\<exists>v. str_field params' ''version'' = Some v \<and> (v = ''4'' \<or> starts_with ''4.'' v))
   | Inr w \<Rightarrow> (\<exists>v. str_field params' ''version'' = Some v \<and> (v = ''4'' \<or> starts_with ''4.'' v))
       \<and> (\<exists>ws. json_get ''writable_records'' w = Some (JArray (map JString ws))
            \<and> set ws = {k. resolve_str db k \<noteq> None \<and> ensure_writable cfg k = None})"
proof -
  have "rm_record_key ` set (list_records db) = en_key ` set (db_storages db)"
    using arg_cong [OF listed_keys, of set db] by simp
  then have "k \<in> rm_record_key ` set (list_records db) \<longleftrightarrow> resolve_str db k \<noteq> None" for k
    using key_listed [OF assms] by simp
  then have "\<exists>ws. json_get ''writable_records'' (welcome_message cfg db) = Some (JArray (map JString ws))
        \<and> set ws = {k. resolve_str db k \<noteq> None \<and> ensure_writable cfg k = None}"
    by (cases "ac_policy cfg") (auto simp: welcome_message_def json_get_def ensure_writable_def)
  moreover have "\<not> starts_with ''4.'' []" by (simp add: starts_with_def)
  ultimately show ?thesis by (simp add: hello_def version_compatible_iff split: option.split)
qed

text \<open>
  Once the connector has marked the policy's records, the listing a peer sees shows as writable
  exactly the records a peer may write, and those marked before.
\<close>

theorem listing_agrees:
  assumes "db_ok db"
  shows "map (\<lambda>m. (rm_record_key m, rm_writable m)) (list_records (apply_writable cfg db))
     = map (\<lambda>m. (rm_record_key m, rm_writable m \<or> ensure_writable cfg (rm_record_key m) = None)) (list_records db)"
    (is "map ?f ?new = map ?g ?old")
proof (rule nth_equalityI)
  note flags = apply_writable_flags [OF assms, of "writable_records (ac_policy cfg)", folded apply_writable_def]
  have len: "length ?new = length ?old"
    using same_shape_nth(1) [OF conjunct1 [OF flags]] by (simp add: list_records_def)
  then show "length (map ?f ?new) = length (map ?g ?old)" by simp
  fix i assume "i < length (map ?f ?new)"
  then have i: "i < length (db_storages db)" "i < length ?new" "i < length ?old" using len by (simp_all add: list_records_def)
  have "map rm_record_key ?new ! i = map en_key (db_storages (apply_writable cfg db)) ! i"
    "map rm_record_key ?old ! i = map en_key (db_storages db) ! i" by (simp_all only: listed_keys)
  then have keys: "rm_record_key (?new ! i) = en_key (db_storages db ! i)" "rm_record_key (?old ! i) = en_key (db_storages db ! i)"
    using i same_shape_nth(1) [OF conjunct1 [OF flags]] same_shape_nth(2) [OF conjunct1 [OF flags] i(1)]
    by (simp_all add: same_entry_def)
  have "map rm_writable ?new ! i = map (\<lambda>e. tr_writable (en_record e)) (db_storages (apply_writable cfg db)) ! i"
    "map rm_writable ?old ! i = map (\<lambda>e. tr_writable (en_record e)) (db_storages db) ! i" by (simp_all only: listed_flags)
  then have marks: "rm_writable (?new ! i) = tr_writable (en_record (db_storages (apply_writable cfg db) ! i))"
    "rm_writable (?old ! i) = tr_writable (en_record (db_storages db ! i))"
    using i same_shape_nth(1) [OF conjunct1 [OF flags]] by simp_all
  have "ensure_writable cfg k = None \<longleftrightarrow> k \<in> set (writable_records (ac_policy cfg))" for k
    by (simp add: ensure_writable_def writable_records_def split: security_policy.split)
  then show "map ?f ?new ! i = map ?g ?old ! i" using i keys marks flags by simp
qed

subsection \<open>A small instance\<close>

definition nat_codec :: "(nat, json) json_codec" where
  "nat_codec =
     \<lparr>jc_encode = (\<lambda>n. Some (JNumber (PosInt (of_nat n)))), jc_decode = (\<lambda>v. map_option unat (json_as_u64 v)),
      jc_encode_to_vec = (\<lambda>n. Some [of_nat n]), jc_decode_slice = (\<lambda>bs. case bs of [b] \<Rightarrow> Some (unat b) | _ \<Rightarrow> None)\<rparr>"

definition small_record :: "(nat, json, nat) typed_record" where
  "small_record = (record_new 1)\<lparr>tr_buffer := Some (SingleLatest None 0 []), tr_clock := Some 0, tr_codec := Some nat_codec\<rparr>"

definition small_db :: "(nat, json, nat) aimdb" where
  "small_db =
     \<lparr>db_storages = [\<lparr>en_key = ''a'', en_type = 1, en_record = small_record, en_key_table = None\<rparr>,
        \<lparr>en_key = ''b'', en_type = 1, en_record = small_record, en_key_table = None\<rparr>],
      db_by_key = [''a'' \<mapsto> 0, ''b'' \<mapsto> 1], db_graph = \<lparr>graph_nodes = [], graph_edges = [], topo_order = []\<rparr>,
      db_identity = \<lparr>ic_name = None, ic_uid = None, ic_build_info = None\<rparr>, db_clock = 0\<rparr>"

definition small_env :: aimx_env where
  "small_env =
     \<lparr>ae_text = \<lparr>jt_parse = (\<lambda>bs. if bs = [] then None else Some (JObject
          [(''name'', JString ''b''), (''value'', JNumber (PosInt 5))])), jt_print = (\<lambda>_. Some [])\<rparr>,
      ae_now = (\<lambda>_. 7), ae_listing = (\<lambda>_. JNull), ae_nodes = (\<lambda>_. JNull), ae_edges = (\<lambda>_. JNull),
      ae_info = (\<lambda>_. []), ae_query = None\<rparr>"

definition small_config :: aimx_config where
  "small_config = uds_default\<lparr>ac_policy := ReadWrite [''b'', ''ghost'']\<rparr>"

lemma small_db_ok: "db_ok small_db"
proof -
  have "unat rid = 0 \<longleftrightarrow> rid = 0" "unat rid = Suc 0 \<longleftrightarrow> rid = 1" for rid :: u32
    by (simp_all add: word_unat_eq_iff)
  then show ?thesis
  by (auto simp: db_ok_def small_db_def small_record_def record_new_def entry_ok_def word_less_nat_alt
      less_Suc_eq nth_Cons split: nat.splits if_splits)
qed

theorem peer_confined_witness:
  "\<exists>st. run_session \<lparr>limits = default_limits, reads_hello = False, acks_subscribe = False\<rparr>
       (aimx_dispatch small_config small_env) \<lparr>as_db = small_db, as_readers = \<lambda>_. None\<rparr> list_chan_ops
       \<lparr>encodes = \<lambda>_. True, link_up = \<lambda>_. True\<rparr> \<lparr>lc_items = [], lc_capacity = Some 4, lc_open = True\<rparr> None aimx_authenticate
       [FrameStep (Inr (Write ''a'' [1])), FrameStep (Inr (Request 7 ''record.set'' [1]))] = Some st
     \<and> db_storages (as_db (srv_session st)) ! 0 = db_storages small_db ! 0"
proof -
  let ?run = "run_session \<lparr>limits = default_limits, reads_hello = False, acks_subscribe = False\<rparr>
       (aimx_dispatch small_config small_env) \<lparr>as_db = small_db, as_readers = \<lambda>_. None\<rparr> list_chan_ops
       \<lparr>encodes = \<lambda>_. True, link_up = \<lambda>_. True\<rparr> \<lparr>lc_items = [], lc_capacity = Some 4, lc_open = True\<rparr> None aimx_authenticate
       [FrameStep (Inr (Write ''a'' [1])), FrameStep (Inr (Request 7 ''record.set'' [1]))]"
  obtain st where st: "?run = Some st" by (simp add: run_session_def aimx_authenticate_def)
  have "en_key (db_storages small_db ! 0) \<notin> set (writable_records (ac_policy small_config))"
    "0 < length (db_storages small_db)"
    by (simp_all add: small_db_def small_config_def writable_records_def)
  then have "let e = db_storages small_db ! 0; e' = db_storages (as_db (srv_session st)) ! 0 in
     e' = e \<or> (\<exists>v w. tr_buffer (en_record e) = Some (Mailbox (Some v) w)
                \<and> e' = e\<lparr>en_record := (en_record e)\<lparr>tr_buffer := Some (Mailbox None w)\<rparr>\<rparr>)"
    using peer_confined [OF st, of 0] small_db_ok by simp
  moreover have "tr_buffer (en_record (db_storages small_db ! 0)) = Some (SingleLatest None 0 [])"
    by (simp add: small_db_def small_record_def)
  ultimately have "db_storages (as_db (srv_session st)) ! 0 = db_storages small_db ! 0" by (simp add: Let_def)
  then show ?thesis using st by blast
qed

theorem handshake_exact_witness:
  "case hello small_config (JObject [(''version'', JString ''4.1'')]) small_db of
     Inl _ \<Rightarrow> False | Inr w \<Rightarrow> \<exists>ws. json_get ''writable_records'' w = Some (JArray (map JString ws)) \<and> set ws = {''b''}"
proof -
  have k: "{k. resolve_str small_db k \<noteq> None \<and> ensure_writable small_config k = None} = {''b''}"
    by (auto simp: resolve_str_def small_db_def ensure_writable_def small_config_def split: if_splits)
  have v: "str_field (JObject [(''version'', JString ''4.1'')]) ''version'' = Some ''4.1''" "starts_with ''4.'' ''4.1''"
    by (simp_all add: str_field_def json_get_def json_as_str_def starts_with_def)
  show ?thesis
    using handshake_exact [OF small_db_ok, where cfg = small_config and params' = "JObject [(''version'', JString ''4.1'')]"]
    unfolding k v(1) by (auto simp: v(2) split: sum.splits)
qed

theorem listing_agrees_witness:
  "map (\<lambda>m. (rm_record_key m, rm_writable m)) (list_records (apply_writable small_config small_db))
     = [(''a'', False), (''b'', True)]"
proof -
  have "map (\<lambda>m. (rm_record_key m, rm_writable m)) (list_records small_db) = [(''a'', False), (''b'', False)]"
    by (simp add: list_records_def small_db_def collect_metadata_def small_record_def record_new_def Let_def numeral_2_eq_2 split: prod.split)
  then have "map (\<lambda>(k, w). (k, w \<or> ensure_writable small_config k = None))
      (map (\<lambda>m. (rm_record_key m, rm_writable m)) (list_records small_db)) = [(''a'', False), (''b'', True)]"
    by (simp add: ensure_writable_def small_config_def)
  then show ?thesis
    unfolding listing_agrees [OF small_db_ok, of small_config] by (simp add: comp_def)
qed

end
