(* ===== verification/Aimx_Records.thy ===== *)
theory Aimx_Records
  imports Aimx_Access Db_Startup
begin

text \<open>
  What \<open>record.set\<close> and \<open>record.drain\<close> of the AimX dispatch do to a record of a database that
  the builder built: the outcome of a write and its echo, and which values successive drains return.
\<close>

subsection \<open>Writing and the echo\<close>

definition is_ring :: "('v, 'j, 'f) typed_record \<Rightarrow> bool" where
  "is_ring r \<longleftrightarrow> (case tr_buffer r of Some (SpmcRing _ _ _ _) \<Rightarrow> True | _ \<Rightarrow> False)"

lemma is_ring_iff: "is_ring r \<longleftrightarrow> (\<exists>cap. map_option buffer_kind (tr_buffer r) = Some (CfgSpmcRing cap))"
proof (cases "tr_buffer r")
  case (Some b)
  then show ?thesis by (cases b) (simp_all add: is_ring_def)
qed (simp add: is_ring_def)

lemma storage_set_record_same:
  "storage db rid = Some r \<Longrightarrow> storage (set_record (unat rid) r' db) rid = Some r'"
  by (rule storage_set_record)

lemma resolve_set_record [simp]: "resolve_str (set_record i r db) k = resolve_str db k"
  by (simp add: resolve_str_def set_record_def)

text \<open>The latest value right after a push: the value pushed, unless the buffer is a ring.\<close>

lemma latest_after_push:
  assumes "tr_codec r = Some codec" and "tr_buffer r \<noteq> None"
  shows "latest_json (writer_push now c v r) =
     (if is_ring r then None
      else map_option (\<lambda>j. \<lparr>st_value = j, st_metadata = now c\<rparr>) (jc_encode codec v))"
proof -
  obtain b where "tr_buffer r = Some b" using assms(2) by blast
  then show ?thesis
    using assms(1) by (cases b) (simp_all add: latest_json_def writer_push_def is_ring_def map_sample_def)
qed

lemma latest_as_json_push:
  assumes "resolve_str db k = Some rid" and "storage db rid = Some r"
  shows "try_latest_as_json k (set_record (unat rid) r' db) = latest_json r'"
  using assms storage_set_record_same [OF assms(2)] by (simp add: try_latest_as_json_def)

subsection \<open>Draining a ring\<close>

text \<open>Writes of the application and drains of one connection; the values the drains returned.\<close>

datatype 'v drain_op = DrainWrite "nat \<Rightarrow> u64" nat 'v | Drain "nat option"

fun drain_step ::
  "string \<Rightarrow> u32 \<Rightarrow> 'v drain_op \<Rightarrow> ('v, 'f) aimx_state \<times> (json, u64) stamped list
   \<Rightarrow> ('v, 'f) aimx_state \<times> (json, u64) stamped list" where
  "drain_step name rid (DrainWrite now c v) (st, got) = (st\<lparr>as_db := db_step now (DbPush rid c v) (as_db st)\<rparr>, got)"
| "drain_step name rid (Drain limit) (st, got) =
     (case drain_values name limit st of
        (Inl e, st') \<Rightarrow> (st', got)
      | (Inr values, st') \<Rightarrow> (st', got @ values))"

definition drain_writes :: "'v drain_op list \<Rightarrow> ('v, u64) stamped list" where
  "drain_writes ops = concat (map (\<lambda>oper. case oper of
       DrainWrite now c v \<Rightarrow> [\<lparr>st_value = v, st_metadata = now c\<rparr>] | Drain _ \<Rightarrow> []) ops)"

text \<open>
  \<open>ps\<close> are positions in the log, in order: what was returned is what they hold, and every position from
  \<open>start\<close> up to \<open>p\<close> is among them or had been overwritten by \<open>m\<close> later writes.
\<close>

definition accounts ::
  "nat \<Rightarrow> nat \<Rightarrow> ('v, json) json_codec \<Rightarrow> ('v, u64) stamped list \<Rightarrow> nat \<Rightarrow> (json, u64) stamped list \<Rightarrow> bool" where
  "accounts m start codec log p got \<longleftrightarrow>
     (\<exists>ps. got = map (\<lambda>i. encoded (jc_encode codec) (log ! i)) ps \<and> sorted_wrt (<) ps
        \<and> set ps \<subseteq> {start..<p} \<and> (\<forall>i \<in> {start..<p}. i \<in> set ps \<or> i + m < length log))"

definition drain_ok ::
  "string \<Rightarrow> u32 \<Rightarrow> nat \<Rightarrow> nat \<Rightarrow> ('v, json) json_codec \<Rightarrow> ('v, u64) stamped list
   \<Rightarrow> ('v, 'f) aimx_state \<times> (json, u64) stamped list \<Rightarrow> bool" where
  "drain_ok name rid m start codec log s \<longleftrightarrow>
     (\<exists>r p. storage (as_db (fst s)) rid = Some r \<and> ring_record m log r
        \<and> as_readers (fst s) name = Some (rid, (RingReader p, codec))
        \<and> start \<le> unat p \<and> unat p \<le> length log \<and> accounts m start codec log (unat p) (snd s))"

lemma accounts_log:
  assumes "accounts m start codec log p got" and "p \<le> length log"
  shows "accounts m start codec (log @ more') p got"
proof -
  obtain ps where ps: "got = map (\<lambda>i. encoded (jc_encode codec) (log ! i)) ps" "sorted_wrt (<) ps"
      "set ps \<subseteq> {start..<p}" "\<forall>i \<in> {start..<p}. i \<in> set ps \<or> i + m < length log"
    using assms(1) by (auto simp: accounts_def)
  have "(log @ more') ! i = log ! i" if "i \<in> set ps" for i
    using ps(3) that assms(2) by (auto simp: nth_append)
  then have "got = map (\<lambda>i. encoded (jc_encode codec) ((log @ more') ! i)) ps" using ps(1) by simp
  moreover have "\<forall>i \<in> {start..<p}. i \<in> set ps \<or> i + m < length (log @ more')" using ps(4) by fastforce
  ultimately show ?thesis using ps(2,3) unfolding accounts_def by blast
qed

lemma accounts_more:
  assumes "accounts m start codec log p got" and "start \<le> p" and "p \<le> a" and "a \<le> q" and "q \<le> length log"
    and "\<forall>i \<in> {p..<a}. i + m < length log"
  shows "accounts m start codec log q (got @ map (encoded (jc_encode codec)) (take (q - a) (drop a log)))"
proof -
  obtain ps where ps: "got = map (\<lambda>i. encoded (jc_encode codec) (log ! i)) ps" "sorted_wrt (<) ps"
      "set ps \<subseteq> {start..<p}" "\<forall>i \<in> {start..<p}. i \<in> set ps \<or> i + m < length log"
    using assms(1) by (auto simp: accounts_def)
  have "take (q - a) (drop a log) = map ((!) log) [a..<q]"
    by (rule nth_equalityI) (use assms in simp_all)
  then have "got @ map (encoded (jc_encode codec)) (take (q - a) (drop a log))
      = map (\<lambda>i. encoded (jc_encode codec) (log ! i)) (ps @ [a..<q])" using ps(1) by simp
  moreover have "sorted_wrt (<) (ps @ [a..<q])" using ps(2,3) assms(3) by (auto simp: sorted_wrt_append)
  moreover have "set (ps @ [a..<q]) \<subseteq> {start..<q}" using ps(3) assms by auto
  moreover have "\<forall>i \<in> {start..<q}. i \<in> set (ps @ [a..<q]) \<or> i + m < length log"
    using ps(4) assms(6) by (auto simp: not_less) (metis atLeastLessThan_iff not_le)
  ultimately show ?thesis unfolding accounts_def by blast
qed

lemma accounts_skip:
  assumes "accounts m start codec log p got" and "p \<le> q" and "\<forall>i \<in> {p..<q}. i + m < length log"
  shows "accounts m start codec log q got"
proof -
  obtain ps where ps: "got = map (\<lambda>i. encoded (jc_encode codec) (log ! i)) ps" "sorted_wrt (<) ps"
      "set ps \<subseteq> {start..<p}" "\<forall>i \<in> {start..<p}. i \<in> set ps \<or> i + m < length log"
    using assms(1) by (auto simp: accounts_def)
  have "\<forall>i \<in> {start..<q}. i \<in> set ps \<or> i + m < length log"
  proof
    fix i assume "i \<in> {start..<q}"
    then show "i \<in> set ps \<or> i + m < length log" using ps(4) assms(3) by (cases "i < p") auto
  qed
  moreover have "set ps \<subseteq> {start..<q}" using ps(3) assms(2) by fastforce
  ultimately show ?thesis using ps(1,2) unfolding accounts_def by blast
qed

lemma unread_taken:
  assumes "unread m log p = xs @ unread m log q" and "p \<le> q" and "q \<le> length log"
  shows "\<exists>k. xs = take k (unread m log p) \<and> max q (length log - m) = max p (length log - m) + k"
proof (intro exI conjI)
  show "xs = take (length xs) (unread m log p)" using assms(1) by simp
  have "length log - max p (length log - m) = length xs + (length log - max q (length log - m))"
    using arg_cong [OF assms(1), of length] by (simp add: unread_def)
  then show "max q (length log - m) = max p (length log - m) + length xs" using assms(2,3) by linarith
qed

lemma drain_ok_drain:
  assumes ok: "drain_ok name rid m start codec log (st, got)" and all: "\<forall>v. jc_encode codec v \<noteq> None"
  shows "drain_ok name rid m start codec log (drain_step name rid (Drain limit) (st, got))"
proof -
  obtain r p where r: "storage (as_db st) rid = Some r" "ring_record m log r"
    and rd: "as_readers st name = Some (rid, (RingReader p, codec))"
    and p: "start \<le> unat p" "unat p \<le> length log" and acc: "accounts m start codec log (unat p) got"
    using ok by (auto simp: drain_ok_def)
  have "encodes_all (jc_encode codec) log" using all by (simp add: encodes_all_def)
  from drain_ring [OF r(2) p(2) this, of limit 0] obtain q where
    d: "drain_loop limit r (RingReader p, codec) 0
        = (map (encoded (jc_encode codec)) (up_to limit 0 (unread m log (unat p))), r, (RingReader q, codec))"
    and q: "unat p \<le> unat q" "unat q \<le> length log"
    and un: "unread m log (unat p) = up_to limit 0 (unread m log (unat p)) @ unread m log (unat q)" by blast
  let ?xs = "up_to limit 0 (unread m log (unat p))" and ?a = "max (unat p) (length log - m)"
  obtain k where k: "?xs = take k (unread m log (unat p))" "max (unat q) (length log - m) = ?a + k"
    using unread_taken [OF un q] by blast
  have gone: "\<forall>i \<in> {unat p..<?a}. i + m < length log" by auto
  have "0 < m" using r(2) by (simp add: ring_record_def)
  have acc': "accounts m start codec log (unat q) (got @ map (encoded (jc_encode codec)) ?xs)"
  proof (cases "k = 0")
    case True
    then have "\<forall>i \<in> {unat p..<unat q}. i + m < length log" using k(2) by auto
    from accounts_skip [OF acc q(1) this] show ?thesis using True k(1) by simp
  next
    case False
    then have "unat q = ?a + k" using k(2) by linarith
    moreover have "?xs = take k (drop ?a log)" using k(1) by (simp add: unread_def)
    ultimately show ?thesis using accounts_more [OF acc p(1) _ _ q(2) gone] by simp
  qed
  have "set_record (unat rid) r (as_db st) = as_db st"
    using r(1) by (auto simp: set_record_def storage_Some)
  then have "drain_step name rid (Drain limit) (st, got)
      = (st\<lparr>as_readers := (as_readers st)(name \<mapsto> (rid, (RingReader q, codec)))\<rparr>, got @ map (encoded (jc_encode codec)) ?xs)"
    by (simp add: drain_values_def rd r(1) d)
  then show ?thesis using r p(1) q acc' unfolding drain_ok_def by auto
qed

lemma drain_ok_write:
  assumes ok: "drain_ok name rid m start codec log (st, got)" and len: "Suc (length log) < 2 ^ 64"
  shows "drain_ok name rid m start codec (log @ [\<lparr>st_value = v, st_metadata = now c\<rparr>])
     (drain_step name rid (DrainWrite now c v) (st, got))"
proof -
  obtain r p where r: "storage (as_db st) rid = Some r" "ring_record m log r"
    and rd: "as_readers st name = Some (rid, (RingReader p, codec))"
    and p: "start \<le> unat p" "unat p \<le> length log" and acc: "accounts m start codec log (unat p) got"
    using ok by (auto simp: drain_ok_def)
  from push_storage [OF r(1), of now c v] ring_record_push [OF r(2) len, of v now c]
    accounts_log [OF acc p(2), of "[\<lparr>st_value = v, st_metadata = now c\<rparr>]"]
  show ?thesis using rd p unfolding drain_ok_def by (auto simp del: db_step.simps)
qed

lemma drain_ok_run:
  assumes "drain_ok name rid m start codec log s" and "\<forall>v. jc_encode codec v \<noteq> None"
    and "length log + length (drain_writes ops) < 2 ^ 64"
  shows "drain_ok name rid m start codec (log @ drain_writes ops) (fold (drain_step name rid) ops s)"
  using assms(1,3)
proof (induction ops arbitrary: log s)
  case (Cons oper ops)
  obtain st got where s: "s = (st, got)" by fastforce
  show ?case
  proof (cases oper)
    case (DrainWrite now c v)
    let ?w = "\<lparr>st_value = v, st_metadata = now c\<rparr>"
    have w: "drain_writes (oper # ops) = ?w # drain_writes ops" by (simp add: drain_writes_def DrainWrite)
    have "drain_ok name rid m start codec (log @ [?w]) (drain_step name rid oper s)"
      unfolding DrainWrite s by (rule drain_ok_write) (use Cons.prems s w in auto)
    from Cons.IH [OF this] show ?thesis using Cons.prems(2) w by simp
  next
    case (Drain limit)
    have e: "drain_writes (oper # ops) = drain_writes ops" by (simp add: drain_writes_def Drain)
    have "drain_ok name rid m start codec log (drain_step name rid oper s)"
      unfolding Drain s by (rule drain_ok_drain [OF _ assms(2)]) (use Cons.prems s in auto)
    from Cons.IH [OF this] show ?thesis using Cons.prems(2) e by simp
  qed
qed (simp add: drain_writes_def)

text \<open>The first drain opens the cursor at the end of the log.\<close>

lemma drain_ok_open:
  assumes "as_readers st name = None" and "resolve_str (as_db st) name = Some rid"
    and "storage (as_db st) rid = Some r" and "ring_record m log r" and "tr_codec r = Some codec"
    and "\<forall>v. jc_encode codec v \<noteq> None"
  shows "drain_ok name rid m (length log) codec log (drain_step name rid (Drain limit) (st, []))"
proof -
  obtain cap W wk where buf: "tr_buffer r = Some (SpmcRing (retained m log) cap W wk)" "unat W = length log"
    using assms(4) by (auto simp: ring_record_def)
  have open': "open_reader name (as_db st) = Inr (rid, (RingReader W, codec))"
    using assms(2,3,5) buf by (simp add: open_reader_def subscribe_json_def)
  let ?st = "st\<lparr>as_readers := (as_readers st)(name \<mapsto> (rid, (RingReader W, codec)))\<rparr>"
  have "drain_ok name rid m (length log) codec log (?st, [])"
    using assms(3,4) buf unfolding drain_ok_def accounts_def by auto
  note opened = drain_ok_drain [OF this assms(6), of limit]
  obtain vs r' jr' where "drain_loop limit r (RingReader W, codec) 0 = (vs, r', jr')" by (metis prod_cases3)
  then have "drain_values name limit ?st = drain_values name limit st"
    using assms(1,3) open' by (simp add: drain_values_def)
  then show ?thesis using opened by simp
qed

subsection \<open>Properties\<close>


text \<open>
  The outcome of every \<open>record.set\<close> on a database the builder built, in whatever state: denied
  unless the policy allows the key; an error where the record has no remote access or its codec refuses the
  value; otherwise success, with the value written as the echo and the instance's clock as its stamp, but for a ring.
\<close>

theorem remote_set_exact:
  fixes calls :: "('v, json, 'f) builder_call list"
  assumes "length (bd_records (builder_run bid calls)) < 2 ^ 32"
    and "build_db check connect (builder_run bid calls) = Some (Inr (db, futures))"
    and "(k, ty, r) \<in> set (bd_records (builder_run bid calls))"
    and "as_db st = db_run now ops db"
    and "str_field params' ''name'' = Some k" and "json_get ''value'' params' = Some val"
  shows "fst (record_set cfg env params' st) =
     (if k \<notin> set (writable_records (ac_policy cfg)) then Inl Denied
      else case tr_codec r of
        None \<Rightarrow> Inl Internal
      | Some codec \<Rightarrow>
          (case jc_decode codec val of
             None \<Rightarrow> Inl Internal
           | Some v \<Rightarrow> Inr (JObject ((''status'', JString ''success'')
               # (if is_ring r then []
                  else case jc_encode codec v of
                    None \<Rightarrow> []
                  | Some back \<Rightarrow> [(''ts'', JNumber (PosInt (ae_now env (db_clock (as_db st))))), (''value'', back)])))))"
proof (cases "k \<in> set (writable_records (ac_policy cfg))")
  case False
  then have "ensure_writable cfg k = Some Denied"
    by (auto simp: ensure_writable_def writable_records_def split: security_policy.splits)
  then show ?thesis using assms(5,6) False by (simp add: record_set_def)
next
  case True
  then have ok: "ensure_writable cfg k = None"
    by (auto simp: ensure_writable_def writable_records_def split: security_policy.splits)
  obtain rid r' where r': "resolve_str (as_db st) k = Some rid" "storage (as_db st) rid = Some r'"
    and set: "set_record_from_json (ae_now env) k val (as_db st) = Some
         (case tr_codec r of
            None \<Rightarrow> Inl (NotRemote ty)
          | Some codec \<Rightarrow>
              (case jc_decode codec val of
                 None \<Rightarrow> Inl (DecodeFailed ty)
               | Some v \<Rightarrow> Inr (set_record (unat rid) (writer_push (ae_now env) (db_clock (as_db st)) v r') (as_db st))))"
    using remote_write_outcome [OF assms(1-3), of now ops "ae_now env" val] unfolding assms(4) by blast
  obtain rid2 r2 where r2: "resolve_str (as_db st) k = Some rid2" "storage (as_db st) rid2 = Some r2"
    and same: "same_record (taken (bind_clock (db_clock (as_db st)) (clean r))) r2"
    using running_record [OF assms(1-3), of now ops] unfolding assms(4) by blast
  have "r2 = r'" using r' r2 by simp
  note keeps = same_record_keeps(8-10) [OF same [unfolded this]]
  have kind: "is_ring r' = is_ring r" and codec: "tr_codec r' = tr_codec r"
    and buffer: "tr_buffer r' = None \<longleftrightarrow> tr_buffer r = None"
    using keeps by (simp_all add: is_ring_iff taken_def bind_clock_def)
  have built: "tr_codec r \<noteq> None \<Longrightarrow> tr_buffer r \<noteq> None"
  proof -
    assume c: "tr_codec r \<noteq> None"
    from built_db [OF builder_inv_run assms(1,2)] obtain db0 where
      reg: "build_registry check (builder_run bid calls) = Some (Inr db0)" by blast
    show "tr_buffer r \<noteq> None"
      using no_record_mistakes(2) [OF built_registry(4) [OF builder_inv_run assms(1) reg] assms(3)] c by blast
  qed
  show ?thesis
  proof (cases "tr_codec r")
    case None
    then show ?thesis using True ok set assms(5,6) by (simp add: record_set_def set_json_def map_db_err_def)
  next
    case (Some codec)
    show ?thesis
    proof (cases "jc_decode codec val")
      case None
      then show ?thesis using Some True ok set assms(5,6) by (simp add: record_set_def set_json_def map_db_err_def)
    next
      case v: (Some v)
      have "try_latest_as_json k (set_record (unat rid) (writer_push (ae_now env) (db_clock (as_db st)) v r') (as_db st))
          = (if is_ring r then None
             else map_option (\<lambda>j. \<lparr>st_value = j, st_metadata = ae_now env (db_clock (as_db st))\<rparr>) (jc_encode codec v))"
        using latest_as_json_push [OF r'] latest_after_push [of r' codec] kind codec Some buffer built by simp
      then show ?thesis
        using Some v True ok set assms(5,6) by (simp add: record_set_def set_json_def split: option.split)
    qed
  qed
qed

subsection \<open>The properties at concrete inputs\<close>

definition ring_db :: "(nat, json, nat) aimdb" where
  "ring_db = small_db\<lparr>db_storages := [\<lparr>en_key = ''a'', en_type = 1,
     en_record = small_record\<lparr>tr_buffer := Some (SpmcRing [] 2 0 [])\<rparr>, en_key_table = None\<rparr>]\<rparr>"


definition remote_calls :: "(nat, json, nat) builder_call list" where
  "remote_calls = [WithRuntime 0, Configure 1 ''b'' [CallBufferRaw (SingleLatest None 0 []), CallRemote nat_codec]]"

definition remote_db :: "(nat, json, nat) aimdb" where
  "remote_db =
    (case build_db (\<lambda>_. Inl '''') (\<lambda>_ _. (Inr [], [])) (builder_run 0 remote_calls) of
       Some (Inr (db, _)) \<Rightarrow> db | _ \<Rightarrow> small_db)"

theorem remote_set_exact_witness:
  "fst (record_set small_config small_env (JObject [(''name'', JString ''b''), (''value'', JNumber (PosInt 5))])
      \<lparr>as_db = db_run (\<lambda>_. 3) [] remote_db, as_readers = \<lambda>_. None\<rparr>)
    = Inr (JObject [(''status'', JString ''success''), (''ts'', JNumber (PosInt 7)), (''value'', JNumber (PosInt 5))])"
proof -
  let ?recs = "bd_records (builder_run 0 remote_calls)" and ?v = "JNumber (PosInt 5)"
  have keys: "map (\<lambda>(k, ty, r). (k, ty)) ?recs = [(''b'', 1)]" by code_simp
  let ?r = "snd (snd (?recs ! 0))"
  have mem: "(''b'', 1, ?r) \<in> set ?recs" by (rule member_keys [OF keys]) simp_all
  have len: "length ?recs < 2 ^ 32" using arg_cong [OF keys, of length] by simp
  have "case build_db (\<lambda>_. Inl '''') (\<lambda>_ _. (Inr [], [])) (builder_run 0 remote_calls) of Some (Inr _) \<Rightarrow> True | _ \<Rightarrow> False"
    by code_simp
  then obtain fs where built: "build_db (\<lambda>_. Inl '''') (\<lambda>_ _. (Inr [], [])) (builder_run 0 remote_calls) = Some (Inr (remote_db, fs))"
    by (auto simp: remote_db_def split: option.splits sum.splits)
  have "case tr_codec ?r of None \<Rightarrow> False
      | Some c \<Rightarrow> jc_decode c ?v = Some 5 \<and> jc_encode c 5 = Some ?v" by code_simp
  then obtain c where c: "tr_codec ?r = Some c" "jc_decode c ?v = Some 5" "jc_encode c 5 = Some ?v"
    by (auto split: option.splits)
  have ring: "\<not> is_ring ?r" by code_simp
  have writable: "''b'' \<in> set (writable_records (ac_policy small_config))" by (simp add: small_config_def writable_records_def)
  show ?thesis
    using remote_set_exact [OF len built mem, of "\<lparr>as_db = db_run (\<lambda>_. 3) [] remote_db, as_readers = \<lambda>_. None\<rparr>" "\<lambda>_. 3" "[]"
        "JObject [(''name'', JString ''b''), (''value'', ?v)]" ?v small_config small_env]
    unfolding c(1) by (simp add: c(2,3) ring writable str_field_def json_get_def json_as_str_def small_env_def)
qed

end
