(* ===== verification/Zenoh_Grammar.thy ===== *)
theory Zenoh_Grammar
  imports Router
begin

text \<open>
  \<open>aimdb-zenoh-connector/src/grammar.rs\<close>: Zenoh key expressions.  A pattern compiles to chunks the
  router matches with and to the canonical expression subscribed; \<open>covers\<close> decides inclusion of
  expressions.  The loop that cuts a pattern into raw chunks is the one of the MQTT grammar
  (\<open>raw_levels\<close>); its error is \<open>WholeChunk\<close> here.
\<close>

subsection \<open>Chunks\<close>

datatype chunk =
    ChLiteral string
  | ChSingle "nat option"
  | ChMulti "nat option"
  | ChGlob "string list"

datatype classify_error = EmptyChunk | ReservedChar | VerbatimWildcard | LoneDollar | LoneStar

datatype zenoh_error = WholeChunk | BadChunk classify_error

abbreviation star_char :: char where "star_char \<equiv> CHR ''*''"
abbreviation dollar_char :: char where "dollar_char \<equiv> CHR ''$''"

definition verbatim :: "string \<Rightarrow> bool" where
  "verbatim t \<longleftrightarrow> starts_with ''@'' t"

text \<open>\<open>text.split("$*")\<close>.\<close>

function split_glob :: "string \<Rightarrow> string list" where
  "split_glob [] = [[]]"
| "split_glob (c # cs) =
     (if c = dollar_char \<and> starts_with [star_char] cs then [] # split_glob (tl cs)
      else (case split_glob cs of [] \<Rightarrow> [[c]] | p # ps \<Rightarrow> (c # p) # ps))"
  by pat_completeness auto
termination by (relation "measure length") auto

text \<open>The empty pieces between two \<open>$*\<close> are dropped, the first and the last piece stay.\<close>

definition retain_pieces :: "string list \<Rightarrow> string list" where
  "retain_pieces ps =
     map snd (filter (\<lambda>(i, p). i = 0 \<or> i = length ps - 1 \<or> p \<noteq> []) (enumerate 0 ps))"

definition classify :: "string \<Rightarrow> classify_error + chunk" where
  "classify t =
     (if t = [] then Inl EmptyChunk
      else if t = ''*'' then Inr (ChSingle None)
      else if t = ''**'' then Inr (ChMulti None)
      else if CHR ''#'' \<in> set t \<or> CHR ''?'' \<in> set t then Inl ReservedChar
      else if star_char \<notin> set t \<and> dollar_char \<notin> set t then Inr (ChLiteral t)
      else if verbatim t then Inl VerbatimWildcard
      else
        (let pieces = split_glob t in
         if list_ex (\<lambda>p. dollar_char \<in> set p) pieces then Inl LoneDollar
         else if list_ex (\<lambda>p. star_char \<in> set p) pieces then Inl LoneStar
         else if list_all (\<lambda>p. p = []) (retain_pieces pieces) then Inr (ChSingle None)
         else Inr (ChGlob (retain_pieces pieces))))"

definition chunk_of_raw :: "raw_level \<Rightarrow> zenoh_error + chunk" where
  "chunk_of_raw r =
     (case raw_capture r of
        Some (n, multi) \<Rightarrow>
          if raw_text r \<noteq> [] then Inl WholeChunk
          else Inr (if multi then ChMulti (Some n) else ChSingle (Some n))
      | None \<Rightarrow> map_sum BadChunk (\<lambda>c. c) (classify (raw_text r)))"

fun chunks_of :: "raw_level list \<Rightarrow> zenoh_error + chunk list" where
  "chunks_of [] = Inr []"
| "chunks_of (r # rs) =
     (case chunk_of_raw r of
        Inl e \<Rightarrow> Inl e
      | Inr c \<Rightarrow> map_sum (\<lambda>e. e) ((#) c) (chunks_of rs))"

subsection \<open>The canonical expression\<close>

definition flush_wild :: "nat \<Rightarrow> bool \<Rightarrow> string list" where
  "flush_wild singles multi = replicate singles ''*'' @ (if multi then [''**''] else [])"

fun canonical_texts :: "chunk list \<Rightarrow> nat \<Rightarrow> bool \<Rightarrow> string list" where
  "canonical_texts [] singles multi = flush_wild singles multi"
| "canonical_texts (ChSingle _ # cs) singles multi = canonical_texts cs (Suc singles) multi"
| "canonical_texts (ChMulti _ # cs) singles multi = canonical_texts cs singles True"
| "canonical_texts (ChLiteral t # cs) singles multi = flush_wild singles multi @ t # canonical_texts cs 0 False"
| "canonical_texts (ChGlob ps # cs) singles multi =
     flush_wild singles multi @ join_with ''$*'' ps # canonical_texts cs 0 False"

definition canonical :: "chunk list \<Rightarrow> string" where
  "canonical cs = join_with [slash] (canonical_texts cs 0 False)"

subsection \<open>Matching\<close>

text \<open>Each middle piece lands at its first place after the piece before it.\<close>

fun glob_middles :: "string list \<Rightarrow> string \<Rightarrow> bool" where
  "glob_middles [] body = True"
| "glob_middles (m # ms) body =
     (case find_sub m body of
        Some at \<Rightarrow> glob_middles ms (drop (at + length m) body)
      | None \<Rightarrow> False)"

definition glob_matches :: "string list \<Rightarrow> string \<Rightarrow> bool" where
  "glob_matches pieces t =
     (case pieces of
        [] \<Rightarrow> False
      | first # rest \<Rightarrow>
          (case strip_prefix first t of
             None \<Rightarrow> False
           | Some body \<Rightarrow>
               (case strip_suffix (last pieces) body of
                  None \<Rightarrow> False
                | Some body' \<Rightarrow> glob_middles (butlast rest) body')))"

definition chunk_at :: "string \<Rightarrow> nat \<Rightarrow> string \<times> nat option" where
  "chunk_at topic at =
     (case position (\<lambda>c. c = slash) (drop at topic) of
        Some n \<Rightarrow> (take n (drop at topic), Some (at + n + 1))
      | None \<Rightarrow> (drop at topic, None))"

definition chunk_fits :: "chunk \<Rightarrow> string \<Rightarrow> bool" where
  "chunk_fits c t =
     (case c of
        ChLiteral l \<Rightarrow> l = t
      | ChSingle _ \<Rightarrow> \<not> verbatim t
      | ChGlob ps \<Rightarrow> \<not> verbatim t \<and> glob_matches ps t
      | ChMulti _ \<Rightarrow> False)"

text \<open>Where the topic continues after the segment, if it fits at \<open>at\<close>; the spans written on the way.\<close>

fun segment_at :: "chunk list \<Rightarrow> string \<Rightarrow> nat option \<Rightarrow> spans \<Rightarrow> nat option option \<times> spans" where
  "segment_at [] topic at spans = (Some at, spans)"
| "segment_at (c # cs) topic at spans =
     (case at of
        None \<Rightarrow> (None, spans)
      | Some here \<Rightarrow>
          (let (t, after) = chunk_at topic here;
               spans' = (case c of ChSingle capture \<Rightarrow> set_span capture (span_of here (here + length t)) spans | _ \<Rightarrow> spans)
           in if chunk_fits c t then segment_at cs topic after spans' else (None, spans')))"

text \<open>One \<open>**\<close>: the gap grows by a chunk until the segment after it fits.\<close>

function gap_loop ::
  "chunk list \<Rightarrow> bool \<Rightarrow> nat option \<Rightarrow> string \<Rightarrow> nat \<Rightarrow> nat \<Rightarrow> nat option \<Rightarrow> spans \<Rightarrow> nat option option \<times> spans" where
  "gap_loop segment is_last capture topic gap_start gap_end here spans =
     (case segment_at segment topic here (set_span capture (span_of gap_start gap_end) spans) of
        (fit, spans') \<Rightarrow>
          if (case fit of Some after \<Rightarrow> \<not> is_last \<or> after = None | None \<Rightarrow> False) then (fit, spans')
          else
            (case here of
               None \<Rightarrow> (None, spans')
             | Some p \<Rightarrow>
                 (let (t, next) = chunk_at topic p in
                  if verbatim t then (None, spans')
                  else gap_loop segment is_last capture topic gap_start (p + length t) next spans')))"
  by pat_completeness auto
termination
  by (relation "measure (\<lambda>(_, _, _, topic, _, _, here, _). case here of None \<Rightarrow> 0 | Some p \<Rightarrow> Suc (length topic - p))")
    (auto simp: chunk_at_def dest!: position_length split: option.splits)

declare gap_loop.simps [simp del]

fun match_segments_from ::
  "chunk list list \<Rightarrow> nat option list \<Rightarrow> string \<Rightarrow> nat option \<Rightarrow> spans \<Rightarrow> bool \<times> spans" where
  "match_segments_from [] multis topic at spans = (at = None, spans)"
| "match_segments_from (segment # segments) multis topic at spans =
     (let gap_start = (case at of Some p \<Rightarrow> p | None \<Rightarrow> length topic);
          capture = (case multis of m # _ \<Rightarrow> m | [] \<Rightarrow> None)
      in case gap_loop segment (segments = []) capture topic gap_start gap_start at spans of
           (None, spans') \<Rightarrow> (False, spans')
         | (Some after, spans') \<Rightarrow> match_segments_from segments (drop 1 multis) topic after spans')"

fun split_multi :: "chunk list \<Rightarrow> chunk list list" where
  "split_multi [] = [[]]"
| "split_multi (ChMulti _ # cs) = [] # split_multi cs"
| "split_multi (c # cs) = (case split_multi cs of [] \<Rightarrow> [[c]] | s # ss \<Rightarrow> (c # s) # ss)"

definition multi_captures :: "chunk list \<Rightarrow> nat option list" where
  "multi_captures cs = List.map_filter (\<lambda>c. case c of ChMulti capture \<Rightarrow> Some capture | _ \<Rightarrow> None) cs"

definition zenoh_matches :: "chunk list \<Rightarrow> string \<Rightarrow> spans \<Rightarrow> bool \<times> spans" where
  "zenoh_matches cs topic spans =
     (if star_char \<in> set topic then (False, spans)
      else
        (case split_multi cs of
           [] \<Rightarrow> (False, spans)
         | first # segments \<Rightarrow>
             (case segment_at first topic (if topic = [] then None else Some 0) spans of
                (None, spans') \<Rightarrow> (False, spans')
              | (Some at, spans') \<Rightarrow> match_segments_from segments (multi_captures cs) topic at spans')))"

definition zenoh_filter_of :: "chunk list \<Rightarrow> topic_filter" where
  "zenoh_filter_of cs =
     \<lparr>tf_filter = canonical cs,
      tf_literal = list_all (\<lambda>c. case c of ChLiteral _ \<Rightarrow> True | _ \<Rightarrow> False) cs,
      tf_matches = zenoh_matches cs\<rparr>"

definition zenoh_chunks :: "part list \<Rightarrow> zenoh_error + chunk list" where
  "zenoh_chunks ps =
     (case raw_levels ps [raw_default] 0 of Inl _ \<Rightarrow> Inl WholeChunk | Inr raw \<Rightarrow> chunks_of raw)"

definition zenoh_compile :: "part list \<Rightarrow> zenoh_error + topic_filter" where
  "zenoh_compile ps = map_sum (\<lambda>e. e) zenoh_filter_of (zenoh_chunks ps)"

subsection \<open>Covering\<close>

fun parse_texts :: "string list \<Rightarrow> chunk list option" where
  "parse_texts [] = Some []"
| "parse_texts (t # ts) =
     (case classify t of
        Inl _ \<Rightarrow> None
      | Inr c \<Rightarrow> map_option ((#) c) (parse_texts ts))"

definition parse_filter :: "string \<Rightarrow> chunk list option" where
  "parse_filter f = parse_texts (split_on slash f)"

definition is_verbatim :: "chunk \<Rightarrow> bool" where
  "is_verbatim c \<longleftrightarrow> (case c of ChLiteral t \<Rightarrow> verbatim t | _ \<Rightarrow> False)"

definition chunk_includes :: "chunk \<Rightarrow> chunk \<Rightarrow> bool" where
  "chunk_includes a b \<longleftrightarrow>
     (if is_verbatim b then a = b
      else case (a, b) of
        (ChLiteral x, ChLiteral y) \<Rightarrow> x = y
      | (ChSingle _, _) \<Rightarrow> True
      | (ChGlob ps, ChLiteral t) \<Rightarrow> glob_matches ps t
      | (ChGlob x, ChGlob y) \<Rightarrow> glob_matches x (join_with ''$*'' y)
      | _ \<Rightarrow> False)"

function chunks_include :: "chunk list \<Rightarrow> chunk list \<Rightarrow> bool" where
  "chunks_include [] bs \<longleftrightarrow> bs = []"
| "chunks_include (a # as) bs \<longleftrightarrow>
     (case a of
        ChMulti _ \<Rightarrow>
          chunks_include as bs \<or> (case bs of [] \<Rightarrow> False | b # bs' \<Rightarrow> \<not> is_verbatim b \<and> chunks_include (a # as) bs')
      | _ \<Rightarrow>
          (case bs of
             [] \<Rightarrow> False
           | ChMulti _ # _ \<Rightarrow> False
           | b # bs' \<Rightarrow> chunk_includes a b \<and> chunks_include as bs'))"
  by pat_completeness auto
termination by (relation "measure (\<lambda>(as, bs). length as + length bs)") auto

declare chunks_include.simps(2) [simp del]

definition zenoh_covers :: "string \<Rightarrow> string \<Rightarrow> bool" where
  "zenoh_covers a b =
     (case (parse_filter a, parse_filter b) of
        (Some as, Some bs) \<Rightarrow> chunks_include as bs
      | _ \<Rightarrow> False)"

subsection \<open>What a glob means\<close>

text \<open>The pieces in order with anything between them.\<close>

fun glob_sem :: "string list \<Rightarrow> string \<Rightarrow> bool" where
  "glob_sem [] t \<longleftrightarrow> False"
| "glob_sem [p] t \<longleftrightarrow> t = p"
| "glob_sem (p # q # ps) t \<longleftrightarrow> (\<exists>g r. t = p @ g @ r \<and> glob_sem (q # ps) r)"

fun middles_sem :: "string list \<Rightarrow> string \<Rightarrow> bool" where
  "middles_sem [] body \<longleftrightarrow> True"
| "middles_sem (m # ms) body \<longleftrightarrow> (\<exists>g r. body = g @ m @ r \<and> middles_sem ms r)"

lemma find_sub_Some:
  "find_sub m xs = Some i \<Longrightarrow> \<exists>r. xs = take i xs @ m @ r \<and> i + length m \<le> length xs"
proof (induction xs arbitrary: i)
  case Nil
  then show ?case by (subst (asm) find_sub.simps) (auto simp: starts_with_iff split: if_splits)
next
  case (Cons x xs)
  show ?case
  proof (cases "starts_with m (x # xs)")
    case True
    then have "i = 0" using Cons.prems by (subst (asm) find_sub.simps) simp
    moreover obtain r where r: "x # xs = m @ r" using True by (auto simp: starts_with_iff)
    moreover have "length m \<le> length (x # xs)" unfolding r by simp
    ultimately show ?thesis by auto
  next
    case False
    then obtain j where "find_sub m xs = Some j" "i = Suc j" using Cons.prems by (subst (asm) find_sub.simps) auto
    then show ?thesis using Cons.IH by fastforce
  qed
qed

lemma find_sub_first:
  assumes "xs = g @ m @ r"
  obtains i where "find_sub m xs = Some i" and "i \<le> length g"
proof -
  have "\<exists>i. find_sub m (g @ m @ r) = Some i \<and> i \<le> length g"
  proof (induction g)
    case Nil
    then show ?case by (subst find_sub.simps) simp
  next
    case (Cons c g)
    then obtain i where "find_sub m (g @ m @ r) = Some i" "i \<le> length g" by blast
    then show ?case by (subst find_sub.simps) simp
  qed
  then show thesis using assms that by blast
qed

lemma middles_sem_prefix: "middles_sem ms r \<Longrightarrow> middles_sem ms (x @ r)"
  by (cases ms) (auto, metis append_assoc)

lemma glob_middles_iff: "glob_middles ms body \<longleftrightarrow> middles_sem ms body"
proof (induction ms arbitrary: body)
  case (Cons m ms)
  show ?case
  proof
    assume l: "glob_middles (m # ms) body"
    then obtain i where i: "find_sub m body = Some i" "glob_middles ms (drop (i + length m) body)"
      by (auto split: option.splits)
    from find_sub_Some [OF i(1)] obtain r where r: "body = take i body @ m @ r" "i + length m \<le> length body" by blast
    have "drop (i + length m) body = r" by (subst r(1)) (use r(2) in simp)
    then show "middles_sem (m # ms) body" using r(1) i(2) Cons.IH by auto
  next
    assume "middles_sem (m # ms) body"
    then obtain g r where gr: "body = g @ m @ r" "middles_sem ms r" by auto
    obtain i where i: "find_sub m body = Some i" "i \<le> length g" by (rule find_sub_first [OF gr(1)])
    have "drop (i + length m) body = drop (i + length m) (g @ m) @ r" using gr(1) i(2) by simp
    then have "middles_sem ms (drop (i + length m) body)" using middles_sem_prefix [OF gr(2)] by metis
    then show "glob_middles (m # ms) body" using i(1) Cons.IH by simp
  qed
qed simp

lemma glob_sem_ends: "glob_sem (ms @ [l]) r \<longleftrightarrow> (case ms of [] \<Rightarrow> r = l | m # ms' \<Rightarrow> \<exists>body. r = m @ body @ l \<and> middles_sem ms' body)"
proof (induction ms arbitrary: r)
  case (Cons m ms)
  show ?case
  proof (cases ms)
    case Nil
    then show ?thesis by simp
  next
    case (Cons m' ms')
    then have "glob_sem ((m # ms) @ [l]) r \<longleftrightarrow> (\<exists>g r'. r = m @ g @ r' \<and> glob_sem (ms @ [l]) r')" by simp
    also have "\<dots> \<longleftrightarrow> (\<exists>g r'. r = m @ g @ r' \<and> (\<exists>body. r' = m' @ body @ l \<and> middles_sem ms' body))"
      unfolding Cons.IH using Cons by simp
    also have "\<dots> \<longleftrightarrow> (\<exists>body. r = m @ body @ l \<and> middles_sem ms body)"
      using Cons by (auto 4 4)
    finally show ?thesis by simp
  qed
qed simp

lemma glob_matches_iff:
  assumes "2 \<le> length ps"
  shows "glob_matches ps t \<longleftrightarrow> glob_sem ps t"
proof -
  obtain m ms l where ps: "ps = m # ms @ [l]"
    using assms by (cases ps; cases "tl ps" rule: rev_cases) auto
  have "glob_matches ps t \<longleftrightarrow> (\<exists>body. t = m @ body @ l \<and> glob_middles ms body)"
    by (auto simp: glob_matches_def ps strip_prefix_Some strip_suffix_Some split: option.splits)
      (metis option.distinct(1) strip_prefix_Some strip_suffix_Some)+
  then show ?thesis using glob_sem_ends [of "m # ms" l t] by (simp add: ps glob_middles_iff)
qed

subsection \<open>Filling a glob in\<close>

text \<open>\<open>t\<close> is \<open>p\<close> with any text for each \<open>$*\<close>.\<close>

inductive filled :: "string \<Rightarrow> string \<Rightarrow> bool" where
  filled_Nil: "filled [] []"
| filled_char: "c \<noteq> dollar_char \<Longrightarrow> c \<noteq> star_char \<Longrightarrow> filled p t \<Longrightarrow> filled (c # p) (c # t)"
| filled_gap: "filled p t \<Longrightarrow> filled (dollar_char # star_char # p) (w @ t)"

definition plain :: "string \<Rightarrow> bool" where
  "plain p \<longleftrightarrow> dollar_char \<notin> set p \<and> star_char \<notin> set p"

lemma plain_simps [simp]:
  "plain []" "plain (c # p) \<longleftrightarrow> c \<noteq> dollar_char \<and> c \<noteq> star_char \<and> plain p" "plain (p @ q) \<longleftrightarrow> plain p \<and> plain q"
  by (auto simp: plain_def)

lemma filled_plain: "plain p \<Longrightarrow> filled (p @ q) t \<longleftrightarrow> (\<exists>t'. t = p @ t' \<and> filled q t')"
proof (induction p arbitrary: t)
  case (Cons c p)
  show ?case
  proof
    assume "filled ((c # p) @ q) t"
    then show "\<exists>t'. t = (c # p) @ t' \<and> filled q t'"
      by (cases rule: filled.cases) (use Cons in auto)
  next
    assume "\<exists>t'. t = (c # p) @ t' \<and> filled q t'"
    then show "filled ((c # p) @ q) t" using Cons by (auto intro: filled_char)
  qed
qed simp

lemma filled_plain_all: "plain p \<Longrightarrow> filled p t \<longleftrightarrow> t = p"
  using filled_plain [of p "[]" t] by (auto intro: filled_Nil elim: filled.cases)

lemma filled_gap_iff: "filled (dollar_char # star_char # p) t \<longleftrightarrow> (\<exists>w t'. t = w @ t' \<and> filled p t')"
proof
  assume "filled (dollar_char # star_char # p) t"
  then show "\<exists>w t'. t = w @ t' \<and> filled p t'" by (cases rule: filled.cases) auto
qed (auto intro: filled_gap)

lemma filled_glob:
  assumes "list_all plain ps" and "ps \<noteq> []"
  shows "filled (join_with ''$*'' ps) t \<longleftrightarrow> glob_sem ps t"
  using assms
proof (induction ps t rule: glob_sem.induct)
  case (3 p q ps t)
  then have "filled (join_with ''$*'' (p # q # ps)) t
      \<longleftrightarrow> (\<exists>t'. t = p @ t' \<and> (\<exists>w t''. t' = w @ t'' \<and> filled (join_with ''$*'' (q # ps)) t''))"
    by (simp add: filled_plain filled_gap_iff)
  then show ?case using "3.IH" "3.prems" by auto
qed (simp_all add: filled_plain_all)

lemma filled_append:
  assumes "filled y t" and "y = a @ b" and "\<not> (a \<noteq> [] \<and> last a = dollar_char \<and> b \<noteq> [] \<and> hd b = star_char)"
  shows "\<exists>u v. t = u @ v \<and> filled a u \<and> filled b v"
  using assms
proof (induction y t arbitrary: a rule: filled.induct)
  case filled_Nil
  then show ?case by (auto intro: filled.filled_Nil)
next
  case (filled_char c p t)
  show ?case
  proof (cases a)
    case Nil
    then show ?thesis using filled_char filled.filled_char filled.filled_Nil by fastforce
  next
    case (Cons c' a')
    then have "p = a' @ b" "c' = c" "\<not> (a' \<noteq> [] \<and> last a' = dollar_char \<and> b \<noteq> [] \<and> hd b = star_char)"
      using filled_char.prems by auto
    then obtain u v where "t = u @ v" "filled a' u" "filled b v" using filled_char.IH by blast
    then have "c # t = (c # u) @ v \<and> filled (c # a') (c # u) \<and> filled b v"
      using filled.filled_char [OF filled_char.hyps(1,2)] by simp
    then show ?thesis using Cons \<open>c' = c\<close> by blast
  qed
next
  case (filled_gap p t w)
  consider "a = []" | "a = [dollar_char]" | a' where "a = dollar_char # star_char # a'" "p = a' @ b"
    using filled_gap.prems(1) by (cases a; cases "tl a") auto
  then show ?case
  proof cases
    case 1
    then show ?thesis using filled_gap filled.filled_gap filled.filled_Nil by fastforce
  next
    case 2
    then show ?thesis using filled_gap.prems by auto
  next
    case 3
    then have "\<not> (a' \<noteq> [] \<and> last a' = dollar_char \<and> b \<noteq> [] \<and> hd b = star_char)" using filled_gap.prems(2) by auto
    then obtain u v where "t = u @ v" "filled a' u" "filled b v" using filled_gap.IH 3(2) by blast
    then have "w @ t = (w @ u) @ v \<and> filled a (w @ u) \<and> filled b v" using 3(1) filled.filled_gap by simp
    then show ?thesis by blast
  qed
qed

text \<open>The pieces of a glob: plain, and nonempty in the middle.\<close>

definition pieces_ok :: "string list \<Rightarrow> bool" where
  "pieces_ok ps \<longleftrightarrow> 2 \<le> length ps \<and> list_all plain ps \<and> list_all (\<lambda>p. p \<noteq> []) (butlast (tl ps))"

lemma glob_sem_hd:
  "glob_sem (q # qs) r \<Longrightarrow> plain q \<Longrightarrow> q \<noteq> [] \<or> qs = [] \<Longrightarrow> r \<noteq> [] \<Longrightarrow> hd r \<noteq> star_char"
  by (cases qs; cases q) auto

lemma pieces_ok_ne: "pieces_ok ps \<Longrightarrow> ps \<noteq> []"
  by (auto simp: pieces_ok_def)

text \<open>A glob that matches the pattern matches all that fills it in.\<close>

lemma glob_filled:
  assumes "glob_sem x y" and "filled y t" and "list_all plain x" and "list_all (\<lambda>p. p \<noteq> []) (butlast (tl x))"
  shows "glob_sem x t"
  using assms
proof (induction x y arbitrary: t rule: glob_sem.induct)
  case (2 p y)
  then show ?case by (simp add: filled_plain_all)
next
  case (3 p q ps y)
  then obtain g r where y: "y = p @ g @ r" "glob_sem (q # ps) r" by auto
  from 3 y obtain t' where t': "t = p @ t'" "filled (g @ r) t'" by (auto simp: filled_plain)
  have "r \<noteq> [] \<Longrightarrow> hd r \<noteq> star_char"
    by (rule glob_sem_hd [OF y(2)]) (use 3 in \<open>auto split: if_splits\<close>)
  from filled_append [OF t'(2) refl] this obtain u v where uv: "t' = u @ v" "filled r v" by blast
  have "list_all (\<lambda>p. p \<noteq> []) (butlast (tl (q # ps)))" using "3.prems"(4) by (cases ps) auto
  from "3.IH" [OF y(2) uv(2) _ this] have "glob_sem (q # ps) v" using "3.prems"(3) by simp
  then show ?case using t'(1) uv(1) by auto
qed simp

subsection \<open>The meaning of an expression\<close>

text \<open>A key's chunks; the empty key has none.\<close>

definition key_chunks :: "string \<Rightarrow> string list" where
  "key_chunks t = (if t = [] then [] else split_on slash t)"

definition chunk_sem :: "chunk \<Rightarrow> string \<Rightarrow> bool" where
  "chunk_sem c t =
     (case c of
        ChLiteral l \<Rightarrow> t = l
      | ChSingle _ \<Rightarrow> \<not> verbatim t
      | ChGlob ps \<Rightarrow> \<not> verbatim t \<and> glob_sem ps t
      | ChMulti _ \<Rightarrow> False)"

function key_sem :: "chunk list \<Rightarrow> string list \<Rightarrow> bool" where
  "key_sem [] ks \<longleftrightarrow> ks = []"
| "key_sem (c # cs) ks \<longleftrightarrow>
     (case c of
        ChMulti _ \<Rightarrow> key_sem cs ks \<or> (case ks of [] \<Rightarrow> False | k # ks' \<Rightarrow> \<not> verbatim k \<and> key_sem (c # cs) ks')
      | _ \<Rightarrow> (case ks of [] \<Rightarrow> False | k # ks' \<Rightarrow> chunk_sem c k \<and> key_sem cs ks'))"
  by pat_completeness auto
termination by (relation "measure (\<lambda>(cs, ks). length cs + length ks)") auto

declare key_sem.simps(2) [simp del]

definition zenoh_meaning :: "string \<Rightarrow> string \<Rightarrow> bool" where
  "zenoh_meaning f topic \<longleftrightarrow> star_char \<notin> set topic
     \<and> (case parse_filter f of Some cs \<Rightarrow> key_sem cs (key_chunks topic) | None \<Rightarrow> False)"

definition zenoh_valid :: "string \<Rightarrow> bool" where
  "zenoh_valid f \<longleftrightarrow> parse_filter f \<noteq> None"

definition is_multi :: "chunk \<Rightarrow> bool" where
  "is_multi c \<longleftrightarrow> (case c of ChMulti _ \<Rightarrow> True | _ \<Rightarrow> False)"

lemma key_sem_multi:
  "key_sem (ChMulti n # cs) ks \<longleftrightarrow>
     key_sem cs ks \<or> (case ks of [] \<Rightarrow> False | k # ks' \<Rightarrow> \<not> verbatim k \<and> key_sem (ChMulti n # cs) ks')"
  by (simp add: key_sem.simps)

lemma key_sem_single:
  "\<not> is_multi c \<Longrightarrow> key_sem (c # cs) ks \<longleftrightarrow> (case ks of [] \<Rightarrow> False | k # ks' \<Rightarrow> chunk_sem c k \<and> key_sem cs ks')"
  by (cases c; cases ks) (simp_all add: is_multi_def key_sem.simps)

lemma key_sem_skip: "key_sem (ChMulti n # cs) ks \<Longrightarrow> list_all (\<lambda>k. \<not> verbatim k) xs \<Longrightarrow> key_sem (ChMulti n # cs) (xs @ ks)"
  by (induction xs) (auto simp: key_sem_multi [of n cs "_ # _"])

lemma key_sem_multi_iff:
  "key_sem (ChMulti n # cs) ks \<longleftrightarrow> (\<exists>xs ys. ks = xs @ ys \<and> list_all (\<lambda>k. \<not> verbatim k) xs \<and> key_sem cs ys)"
proof
  show "key_sem (ChMulti n # cs) ks \<Longrightarrow> \<exists>xs ys. ks = xs @ ys \<and> list_all (\<lambda>k. \<not> verbatim k) xs \<and> key_sem cs ys"
  proof (induction ks)
    case (Cons k ks)
    show ?case
    proof (cases "key_sem cs (k # ks)")
      case True
      then show ?thesis by (intro exI [of _ "[]"] exI [of _ "k # ks"]) simp
    next
      case False
      then have k: "\<not> verbatim k" "key_sem (ChMulti n # cs) ks" using Cons.prems by (auto simp: key_sem_multi [of n cs "k # ks"])
      then obtain xs ys where "ks = xs @ ys" "list_all (\<lambda>k. \<not> verbatim k) xs" "key_sem cs ys" using Cons.IH by blast
      then show ?thesis using k(1) by (intro exI [of _ "k # xs"] exI [of _ ys]) simp
    qed
  qed (simp add: key_sem_multi)
next
  assume "\<exists>xs ys. ks = xs @ ys \<and> list_all (\<lambda>k. \<not> verbatim k) xs \<and> key_sem cs ys"
  then obtain xs ys where "ks = xs @ ys" "list_all (\<lambda>k. \<not> verbatim k) xs" "key_sem cs ys" by blast
  moreover from this(3) have "key_sem (ChMulti n # cs) ys" by (simp add: key_sem_multi)
  ultimately show "key_sem (ChMulti n # cs) ks" using key_sem_skip by blast
qed

text \<open>A run of chunks without \<open>**\<close> takes as many chunks of the key.\<close>

definition run_sem :: "chunk list \<Rightarrow> string list \<Rightarrow> bool" where
  "run_sem seg ks \<longleftrightarrow> list_all2 chunk_sem seg ks"

lemma key_sem_run:
  "list_all (\<lambda>c. \<not> is_multi c) seg \<Longrightarrow>
     key_sem (seg @ cs) ks \<longleftrightarrow> length seg \<le> length ks \<and> run_sem seg (take (length seg) ks) \<and> key_sem cs (drop (length seg) ks)"
proof (induction seg arbitrary: ks)
  case (Cons c seg)
  then show ?case by (cases ks) (auto simp: key_sem_single run_sem_def)
qed (simp add: run_sem_def)

subsection \<open>Matching on chunks\<close>

definition seg_take :: "chunk list \<Rightarrow> string list \<Rightarrow> string list option" where
  "seg_take seg ks = (if length seg \<le> length ks \<and> run_sem seg (take (length seg) ks) then Some (drop (length seg) ks) else None)"

fun gap_take :: "chunk list \<Rightarrow> bool \<Rightarrow> string list \<Rightarrow> string list option" where
  "gap_take seg is_last ks =
     (case seg_take seg ks of
        Some r \<Rightarrow> if \<not> is_last \<or> r = [] then Some r
                  else (case ks of [] \<Rightarrow> None | k # ks' \<Rightarrow> if verbatim k then None else gap_take seg is_last ks')
      | None \<Rightarrow> (case ks of [] \<Rightarrow> None | k # ks' \<Rightarrow> if verbatim k then None else gap_take seg is_last ks'))"

declare gap_take.simps [simp del]

fun segments_take :: "chunk list list \<Rightarrow> string list \<Rightarrow> bool" where
  "segments_take [] ks \<longleftrightarrow> ks = []"
| "segments_take (seg # segs) ks \<longleftrightarrow>
     (case gap_take seg (segs = []) ks of None \<Rightarrow> False | Some r \<Rightarrow> segments_take segs r)"

text \<open>Placing a segment as early as it fits loses no match: the chunks passed over by a later placement
  are not verbatim.\<close>

lemma early_placement:
  assumes early: "run_sem seg (take (length seg) ks)" "length seg \<le> length ks"
    and gap: "list_all (\<lambda>k. \<not> verbatim k) (take n ks)" and later: "n + length seg \<le> length ks"
      "run_sem seg (take (length seg) (drop n ks))"
  shows "list_all (\<lambda>k. \<not> verbatim k) (take n (drop (length seg) ks))"
proof (cases "n = 0")
  case False
  have skip: "\<not> verbatim (ks ! j)" if "j < n" for j
    using gap that later(1) by (auto simp: list_all_length)
  have e: "chunk_sem (seg ! i) (ks ! i)" if "i < length seg" for i
    using early that by (auto simp: run_sem_def list_all2_conv_all_nth)
  have l: "chunk_sem (seg ! i) (ks ! (n + i))" if "i < length seg" for i
    using later that by (auto simp: run_sem_def list_all2_conv_all_nth)
  have "\<not> verbatim (ks ! j)" if "j < n + length seg" for j
    using that
  proof (induction j rule: less_induct)
    case (less j)
    show ?case
    proof (cases "j < n")
      case False
      define i where "i = j - n"
      have i: "j = n + i" "i < length seg" using False less.prems by (auto simp: i_def)
      have "\<not> verbatim (ks ! i)" using less.IH [of i] i \<open>n \<noteq> 0\<close> by simp
      then show ?thesis using e [OF i(2)] l [OF i(2)] i(1) by (auto simp: chunk_sem_def split: chunk.splits)
    qed (rule skip)
  qed
  then show ?thesis using later(1) by (auto simp: list_all_length)
qed simp

lemma gap_take_middle:
  assumes "list_all (\<lambda>c. \<not> is_multi c) seg"
  shows "key_sem (ChMulti n # seg @ ChMulti n' # cs) ks \<longleftrightarrow>
     (case gap_take seg False ks of None \<Rightarrow> False | Some r \<Rightarrow> key_sem (ChMulti n' # cs) r)"
proof (induction ks)
  case Nil
  then show ?case
    by (subst gap_take.simps) (auto simp: key_sem_multi [of n] key_sem_run [OF assms] seg_take_def)
next
  case (Cons k ks)
  let ?ks = "k # ks" and ?rest = "ChMulti n' # cs"
  show ?case
  proof (cases "seg_take seg ?ks")
    case None
    then have "\<not> key_sem (seg @ ?rest) ?ks" by (auto simp: key_sem_run [OF assms] seg_take_def split: if_splits)
    then show ?thesis
      using None Cons.IH by (subst gap_take.simps) (simp add: key_sem_multi [of n _ ?ks])
  next
    case (Some r)
    then have r: "r = drop (length seg) ?ks" and early: "run_sem seg (take (length seg) ?ks)" "length seg \<le> length ?ks"
      by (auto simp: seg_take_def split: if_splits)
    have "key_sem ?rest r" if "key_sem (ChMulti n # seg @ ?rest) ?ks"
    proof -
      from that [unfolded key_sem_multi_iff [of n]] obtain xs ys where
        xy: "?ks = xs @ ys" "list_all (\<lambda>k. \<not> verbatim k) xs" "key_sem (seg @ ?rest) ys" by blast
      then have later: "length xs + length seg \<le> length ?ks" "run_sem seg (take (length seg) (drop (length xs) ?ks))"
        "key_sem ?rest (drop (length xs + length seg) ?ks)"
        by (auto simp: key_sem_run [OF assms])
      have "list_all (\<lambda>k. \<not> verbatim k) (take (length xs) (drop (length seg) ?ks))"
        by (rule early_placement [OF early]) (use xy later in simp_all)
      from key_sem_skip [OF later(3) this] have "key_sem ?rest (take (length xs) r @ drop (length xs + length seg) ?ks)"
        by (simp add: r)
      moreover have "drop (length xs + length seg) ?ks = drop (length xs) r" by (simp only: r drop_drop)
      ultimately show ?thesis by (simp only: append_take_drop_id)
    qed
    moreover have "key_sem (ChMulti n # seg @ ?rest) ?ks" if "key_sem ?rest r"
      using that early r by (simp add: key_sem_multi [of n] key_sem_run [OF assms])
    ultimately show ?thesis using Some by (subst gap_take.simps) auto
  qed
qed

lemma gap_take_last:
  assumes "list_all (\<lambda>c. \<not> is_multi c) seg"
  shows "key_sem (ChMulti n # seg) ks \<longleftrightarrow> gap_take seg True ks = Some []"
    and "gap_take seg True ks = Some r \<Longrightarrow> r = []"
proof -
  have run: "key_sem seg ks \<longleftrightarrow> seg_take seg ks = Some []" for ks
    using key_sem_run [OF assms, of "[]" ks] by (auto simp: seg_take_def)
  show "key_sem (ChMulti n # seg) ks \<longleftrightarrow> gap_take seg True ks = Some []"
  proof (induction ks)
    case Nil
    then show ?case by (subst gap_take.simps) (auto simp: key_sem_multi [of n] run split: option.splits)
  next
    case (Cons k ks)
    then show ?case
      by (subst gap_take.simps) (auto simp: key_sem_multi [of n _ "k # ks"] run split: option.splits)
  qed
  show "gap_take seg True ks = Some r \<Longrightarrow> r = []"
    by (induction ks) (subst (asm) gap_take.simps, auto split: option.splits if_splits)+
qed

text \<open>The segments of a chunk list.\<close>

lemma split_multi_ne [simp]: "split_multi cs \<noteq> []"
  by (induction cs rule: split_multi.induct) (auto split: list.splits)

lemma split_multi_cases:
  obtains (whole) "list_all (\<lambda>c. \<not> is_multi c) cs" "split_multi cs = [cs]"
  | (multi) seg n rest where "cs = seg @ ChMulti n # rest" "list_all (\<lambda>c. \<not> is_multi c) seg"
      "split_multi cs = seg # split_multi rest"
proof -
  have "list_all (\<lambda>c. \<not> is_multi c) cs \<and> split_multi cs = [cs]
     \<or> (\<exists>seg n rest. cs = seg @ ChMulti n # rest \<and> list_all (\<lambda>c. \<not> is_multi c) seg \<and> split_multi cs = seg # split_multi rest)"
  proof (induction cs)
    case (Cons c cs)
    show ?case
    proof (cases "is_multi c")
      case True
      then obtain n where "c = ChMulti n" by (auto simp: is_multi_def split: chunk.splits)
      then have "c # cs = [] @ ChMulti n # cs \<and> split_multi (c # cs) = [] # split_multi cs" by simp
      then show ?thesis by fastforce
    next
      case False
      then have s: "split_multi (c # cs) = (case split_multi cs of [] \<Rightarrow> [[c]] | s # ss \<Rightarrow> (c # s) # ss)"
        by (cases c; cases "split_multi cs") (simp_all add: is_multi_def)
      from Cons.IH show ?thesis
      proof (elim disjE exE conjE)
        assume "list_all (\<lambda>c. \<not> is_multi c) cs" "split_multi cs = [cs]"
        then show ?thesis using False s by simp
      next
        fix seg n rest
        assume "cs = seg @ ChMulti n # rest" "list_all (\<lambda>c. \<not> is_multi c) seg" "split_multi cs = seg # split_multi rest"
        then have "c # cs = (c # seg) @ ChMulti n # rest \<and> list_all (\<lambda>c. \<not> is_multi c) (c # seg)
            \<and> split_multi (c # cs) = (c # seg) # split_multi rest" using False s by simp
        then show ?thesis by blast
      qed
    qed
  qed simp
  then show thesis using whole multi by blast
qed

lemma segments_take_iff: "segments_take (split_multi cs) ks \<longleftrightarrow> key_sem (ChMulti n # cs) ks"
proof (induction "length cs" arbitrary: cs ks n rule: less_induct)
  case less
  show ?case
  proof (cases cs rule: split_multi_cases)
    case whole
    then show ?thesis
      using gap_take_last(1) [OF whole(1), of n ks] gap_take_last(2) [OF whole(1), of ks] by (auto split: option.splits)
  next
    case (multi seg n' rest)
    have "segments_take (split_multi rest) r \<longleftrightarrow> key_sem (ChMulti n' # rest) r" for r
      by (rule less.hyps) (simp add: multi(1))
    then show ?thesis
      using gap_take_middle [OF multi(2), of n n' rest ks] multi(1,3) by (simp split: option.splits)
  qed
qed

subsection \<open>Well-formed chunks\<close>

definition name_text :: "string \<Rightarrow> bool" where
  "name_text t \<longleftrightarrow> plain t \<and> slash \<notin> set t \<and> CHR ''#'' \<notin> set t \<and> CHR ''?'' \<notin> set t"

definition chunk_ok :: "chunk \<Rightarrow> bool" where
  "chunk_ok c \<longleftrightarrow>
     (case c of
        ChLiteral t \<Rightarrow> t \<noteq> [] \<and> name_text t
      | ChGlob ps \<Rightarrow> pieces_ok ps \<and> list_all name_text ps \<and> \<not> verbatim (hd ps) \<and> list_ex (\<lambda>p. p \<noteq> []) ps
      | _ \<Rightarrow> True)"

lemma chunk_fits_sem: "chunk_ok c \<Longrightarrow> chunk_fits c t \<longleftrightarrow> chunk_sem c t"
  by (cases c) (auto simp: chunk_fits_def chunk_sem_def chunk_ok_def pieces_ok_def glob_matches_iff)

lemma split_glob_ne [simp]: "split_glob t \<noteq> []"
  by (induction t rule: split_glob.induct) (auto split: list.splits)

lemma join_split_glob: "join_with ''$*'' (split_glob t) = t"
proof (induction t rule: split_glob.induct)
  case (2 c cs)
  show ?case
  proof (cases "c = dollar_char \<and> starts_with [star_char] cs")
    case True
    then obtain cs' where "cs = star_char # cs'" by (auto simp: starts_with_iff)
    then show ?thesis using 2(1) True by (simp add: join_with_Cons)
  next
    case False
    then show ?thesis
      using 2(2) by (cases "split_glob cs"; cases "tl (split_glob cs)") (auto simp: join_with_Cons)
  qed
qed simp

lemma split_glob_plain: "plain p \<Longrightarrow> split_glob p = [p]"
  by (induction p) auto

lemma split_glob_gap: "plain p \<Longrightarrow> split_glob (p @ dollar_char # star_char # t) = p # split_glob t"
  by (induction p) (auto simp: starts_with_def)

lemma split_glob_join: "list_all plain ps \<Longrightarrow> ps \<noteq> [] \<Longrightarrow> split_glob (join_with ''$*'' ps) = ps"
proof (induction ps)
  case (Cons p ps)
  then show ?case by (cases "ps = []") (simp_all add: split_glob_plain split_glob_gap join_with_Cons)
qed simp

lemma retain_middle:
  "0 < n \<Longrightarrow> n + length ms \<le> l \<Longrightarrow>
     map snd (filter (\<lambda>(i, p). i = 0 \<or> i = l \<or> p \<noteq> []) (enumerate n ms)) = filter (\<lambda>p. p \<noteq> []) ms"
  by (induction ms arbitrary: n) auto

lemma retain_pieces_eq: "retain_pieces (a # ms @ [b]) = a # filter (\<lambda>p. p \<noteq> []) ms @ [b]"
  using retain_middle [of 1 ms "Suc (length ms)"]
  by (simp add: retain_pieces_def enumerate_append_eq)

lemma name_text_join: "list_all name_text ps \<Longrightarrow> c \<in> set (join_with ''$*'' ps) \<Longrightarrow> c = dollar_char \<or> c = star_char
    \<or> (c \<noteq> slash \<and> c \<noteq> CHR ''#'' \<and> c \<noteq> CHR ''?'')"
  by (induction "''$*''" ps rule: join_with.induct) (auto simp: name_text_def)

lemma join_chars: "p \<in> set ps \<Longrightarrow> set p \<subseteq> set (join_with s ps)"
  by (induction s ps rule: join_with.induct) auto

lemma classify_ok:
  assumes "classify t = Inr c" and "slash \<notin> set t"
  shows "chunk_ok c"
proof -
  consider "c = ChSingle None" | "c = ChMulti None" | "c = ChLiteral t" "t \<noteq> []" "name_text t"
    | "c = ChGlob (retain_pieces (split_glob t))" "\<not> verbatim t" "star_char \<in> set t \<or> dollar_char \<in> set t"
      "list_all plain (split_glob t)" "CHR ''#'' \<notin> set t" "CHR ''?'' \<notin> set t"
      "\<not> list_all (\<lambda>p. p = []) (retain_pieces (split_glob t))"
    using assms
    by (auto simp: classify_def Let_def name_text_def plain_def list_all_iff list_ex_iff split: if_splits)
  then show ?thesis
  proof cases
    case 4
    have "length (split_glob t) \<noteq> 1"
    proof
      assume "length (split_glob t) = 1"
      then obtain p where "split_glob t = [p]" by (auto simp: length_Suc_conv)
      then have "plain t" using join_split_glob [of t] 4(4) by simp
      then show False using 4(3) by (simp add: plain_def)
    qed
    then obtain a ms b where ps: "split_glob t = a # ms @ [b]"
      by (cases "split_glob t"; cases "tl (split_glob t)" rule: rev_cases) auto
    let ?ps = "a # filter (\<lambda>p. p \<noteq> []) ms @ [b]"
    have eq: "retain_pieces (split_glob t) = ?ps" by (simp add: ps retain_pieces_eq)
    have "name_text p" if "p \<in> set (split_glob t)" for p
      using join_chars [OF that, of "''$*''"] that 4(4-6) assms(2)
      by (auto simp: join_split_glob name_text_def list_all_iff)
    then have "list_all name_text ?ps" by (auto simp: ps list_all_iff)
    moreover have "pieces_ok ?ps"
      using calculation by (auto simp: pieces_ok_def list_all_iff name_text_def butlast_append)
    moreover have "\<not> verbatim a"
    proof
      assume "verbatim a"
      then have "verbatim (join_with ''$*'' (split_glob t))" by (auto simp: verbatim_def starts_with_iff ps join_with_Cons)
      then show False using 4(2) by (simp add: join_split_glob)
    qed
    ultimately show ?thesis
      using 4(1,7) unfolding eq by (auto simp: chunk_ok_def list_ex_iff list_all_iff)
  qed (simp_all add: chunk_ok_def)
qed

lemma parse_texts_ok: "parse_texts ts = Some cs \<Longrightarrow> \<forall>t \<in> set ts. slash \<notin> set t \<Longrightarrow> list_all chunk_ok cs"
  by (induction ts arbitrary: cs) (auto simp: classify_ok split: sum.splits)

lemma parse_filter_ok: "parse_filter f = Some cs \<Longrightarrow> list_all chunk_ok cs"
  unfolding parse_filter_def using parse_texts_ok split_on_no_sep by metis

lemma chunks_of_ok:
  "chunks_of raw = Inr cs \<Longrightarrow> \<forall>r \<in> set raw. slash \<notin> set (raw_text r) \<Longrightarrow> list_all chunk_ok cs \<and> length cs = length raw"
proof (induction raw arbitrary: cs)
  case (Cons r rs)
  then obtain c cs' where c: "chunk_of_raw r = Inr c" "chunks_of rs = Inr cs'" "cs = c # cs'"
    by (cases "chunk_of_raw r"; cases "chunks_of rs") auto
  have "chunk_ok c"
  proof (cases "raw_capture r")
    case None
    then have "classify (raw_text r) = Inr c" using c(1) by (cases "classify (raw_text r)") (auto simp: chunk_of_raw_def)
    then show ?thesis using classify_ok Cons.prems(2) by auto
  next
    case (Some nm)
    then show ?thesis using c(1) by (auto simp: chunk_of_raw_def chunk_ok_def split: prod.splits if_splits)
  qed
  then show ?case using Cons c by auto
qed simp

lemma zenoh_chunks_ok:
  assumes "zenoh_chunks ps = Inr cs"
  shows "list_all chunk_ok cs" and "cs \<noteq> []"
proof -
  obtain raw where raw: "raw_levels ps [raw_default] 0 = Inr raw" "chunks_of raw = Inr cs"
    using assms by (auto simp: zenoh_chunks_def split: sum.splits)
  have "raw_ok raw"
    using raw_levels_props [OF raw(1)] by (auto simp: raw_ok_def raw_default_def raw_numbers_def)
  then show "list_all chunk_ok cs" and "cs \<noteq> []"
    using chunks_of_ok [OF raw(2)] by (auto simp: raw_ok_def)
qed

subsection \<open>The matcher works on chunks\<close>

definition rem_chunks :: "string \<Rightarrow> nat option \<Rightarrow> string list" where
  "rem_chunks topic at = (case at of None \<Rightarrow> [] | Some p \<Rightarrow> split_on slash (drop p topic))"

lemma rem_Nil [simp]: "rem_chunks topic at = [] \<longleftrightarrow> at = None"
  by (cases at) (simp_all add: rem_chunks_def)

lemma rem_None [simp]: "rem_chunks topic None = []"
  by (simp add: rem_chunks_def)

lemma split_on_position:
  "split_on c xs = (case position (\<lambda>x. x = c) xs of None \<Rightarrow> [xs] | Some i \<Rightarrow> take i xs # split_on c (drop (Suc i) xs))"
proof (cases "position (\<lambda>x. x = c) xs")
  case None
  then have "c \<notin> set xs" by (auto simp: position_None)
  then show ?thesis using None by (simp add: split_on_free)
next
  case (Some i)
  note s = position_split [OF Some]
  have "split_on c xs = split_on c (take i xs @ c # drop (Suc i) xs)" using s(1,3) by metis
  also have "\<dots> = take i xs # split_on c (drop (Suc i) xs)"
    using s(2) by (auto simp: split_on_append_sep split_on_free)
  finally show ?thesis using Some by simp
qed

lemma rem_Some: "chunk_at topic p = (t, next') \<Longrightarrow> rem_chunks topic (Some p) = t # rem_chunks topic next'"
  using split_on_position [of slash "drop p topic"]
  by (auto simp: rem_chunks_def chunk_at_def add.commute split: option.splits)

lemma seg_take_Nil [simp]: "seg_take [] ks = Some ks"
  by (simp add: seg_take_def run_sem_def)

lemma seg_take_Cons:
  "seg_take (c # cs) ks = (case ks of [] \<Rightarrow> None | k # ks' \<Rightarrow> if chunk_sem c k then seg_take cs ks' else None)"
  by (cases ks) (auto simp: seg_take_def run_sem_def)

lemma segment_at_take:
  "list_all chunk_ok seg \<Longrightarrow>
     map_option (rem_chunks topic) (fst (segment_at seg topic at spans)) = seg_take seg (rem_chunks topic at)"
proof (induction seg arbitrary: at spans)
  case (Cons c cs)
  show ?case
  proof (cases at)
    case (Some p)
    obtain t next' where t: "chunk_at topic p = (t, next')" by fastforce
    show ?thesis
      using Cons t rem_Some [OF t] chunk_fits_sem [of c t] by (simp add: Some seg_take_Cons Let_def)
  qed (simp add: seg_take_Cons)
qed simp

lemma gap_loop_take:
  assumes "list_all chunk_ok seg"
  shows "map_option (rem_chunks topic) (fst (gap_loop seg is_last capture topic gs ge here spans))
     = gap_take seg is_last (rem_chunks topic here)"
proof (induction "length (rem_chunks topic here)" arbitrary: here ge spans rule: less_induct)
  case less
  obtain fit spans' where s: "segment_at seg topic here (set_span capture (span_of gs ge) spans) = (fit, spans')" by fastforce
  have fit: "seg_take seg (rem_chunks topic here) = map_option (rem_chunks topic) fit"
    using segment_at_take [OF assms, of topic here "set_span capture (span_of gs ge) spans"] s by simp
  have stop: "(case fit of Some after \<Rightarrow> \<not> is_last \<or> after = None | None \<Rightarrow> False)
      \<longleftrightarrow> (case seg_take seg (rem_chunks topic here) of Some r \<Rightarrow> \<not> is_last \<or> r = [] | None \<Rightarrow> False)"
    by (cases fit) (simp_all add: fit)
  show ?case
  proof (cases "case fit of Some after \<Rightarrow> \<not> is_last \<or> after = None | None \<Rightarrow> False")
    case True
    then show ?thesis
      using s fit by (subst gap_loop.simps, subst gap_take.simps) (auto split: option.splits)
  next
    case False
    show ?thesis
    proof (cases here)
      case None
      then show ?thesis
        using s False fit by (subst gap_loop.simps, subst gap_take.simps) (auto split: option.splits)
    next
      case (Some p)
      obtain t next' where t: "chunk_at topic p = (t, next')" by fastforce
      note ks = rem_Some [OF t]
      have "map_option (rem_chunks topic) (fst (gap_loop seg is_last capture topic gs (p + length t) next' spans'))
          = gap_take seg is_last (rem_chunks topic next')"
        by (rule less.hyps) (simp add: Some ks)
      then show ?thesis
        using s False fit t ks Some
        by (subst gap_loop.simps, subst gap_take.simps) (auto split: option.splits)
    qed
  qed
qed

lemma match_segments_take:
  "list_all (list_all chunk_ok) segs \<Longrightarrow>
     fst (match_segments_from segs multis topic at spans) \<longleftrightarrow> segments_take segs (rem_chunks topic at)"
proof (induction segs arbitrary: multis at spans)
  case (Cons seg segs)
  let ?gs = "case at of Some p \<Rightarrow> p | None \<Rightarrow> length topic" and ?cap = "case multis of m # _ \<Rightarrow> m | [] \<Rightarrow> None"
  obtain fit spans' where g: "gap_loop seg (segs = []) ?cap topic ?gs ?gs at spans = (fit, spans')" by fastforce
  have "gap_take seg (segs = []) (rem_chunks topic at) = map_option (rem_chunks topic) fit"
    using gap_loop_take [of seg topic "segs = []" ?cap ?gs ?gs at spans] Cons.prems g by simp
  then show ?case using Cons g by (cases fit) (simp_all add: Let_def)
qed simp

lemma key_sem_segments:
  "key_sem cs ks \<longleftrightarrow> (case split_multi cs of [] \<Rightarrow> False | first # segs \<Rightarrow>
     (case seg_take first ks of None \<Rightarrow> False | Some r \<Rightarrow> segments_take segs r))"
proof (cases cs rule: split_multi_cases)
  case whole
  then show ?thesis using key_sem_run [OF whole(1), of "[]" ks] by (auto simp: seg_take_def)
next
  case (multi seg n rest)
  then show ?thesis
    using key_sem_run [OF multi(2), of "ChMulti n # rest" ks] segments_take_iff [of rest _ n]
    by (auto simp: seg_take_def)
qed

lemma split_multi_ok: "list_all chunk_ok cs \<Longrightarrow> list_all (list_all chunk_ok) (split_multi cs)"
  by (induction cs rule: split_multi.induct) (auto split: list.splits)

lemma zenoh_matches_sem:
  assumes "list_all chunk_ok cs"
  shows "fst (zenoh_matches cs topic spans) \<longleftrightarrow> star_char \<notin> set topic \<and> key_sem cs (key_chunks topic)"
proof -
  obtain first segs where sm: "split_multi cs = first # segs" by (cases "split_multi cs") auto
  have ok: "list_all chunk_ok first" "list_all (list_all chunk_ok) segs"
    using split_multi_ok [OF assms] by (simp_all add: sm)
  let ?at = "if topic = [] then None else Some 0"
  have ks: "key_chunks topic = rem_chunks topic ?at" by (simp add: key_chunks_def rem_chunks_def)
  obtain fit spans' where s: "segment_at first topic ?at spans = (fit, spans')" by fastforce
  have "seg_take first (rem_chunks topic ?at) = map_option (rem_chunks topic) fit"
    using segment_at_take [OF ok(1), of topic ?at spans] s by simp
  then show ?thesis
    using key_sem_segments [of cs "key_chunks topic"] match_segments_take [OF ok(2)] s
    by (cases fit) (simp_all add: zenoh_matches_def sm ks)
qed

subsection \<open>The canonical expression means the same\<close>

lemma key_sem_cong: "(\<And>ks. key_sem xs ks \<longleftrightarrow> key_sem ys ks) \<Longrightarrow> key_sem (ps @ xs) ks \<longleftrightarrow> key_sem (ps @ ys) ks"
proof (induction ps arbitrary: ks)
  case (Cons c ps)
  show ?case
  proof (cases "is_multi c")
    case True
    then obtain n where "c = ChMulti n" by (auto simp: is_multi_def split: chunk.splits)
    then show ?thesis using Cons by (simp add: key_sem_multi_iff)
  next
    case False
    then show ?thesis using Cons by (cases ks) (simp_all add: key_sem_single)
  qed
qed simp

lemma key_sem_single_name: "key_sem (ChSingle a # cs) ks \<longleftrightarrow> key_sem (ChSingle b # cs) ks"
  by (cases ks) (simp_all add: key_sem.simps chunk_sem_def)

lemma key_sem_multi_name: "key_sem (ChMulti a # cs) ks \<longleftrightarrow> key_sem (ChMulti b # cs) ks"
  by (simp only: key_sem_multi_iff)

lemma key_sem_multi_single:
  "key_sem (ChMulti a # ChSingle b # cs) ks \<longleftrightarrow> key_sem (ChSingle c # ChMulti d # cs) ks"
proof (induction ks)
  case (Cons k ks)
  then show ?case
    by (cases ks) (auto simp: key_sem.simps chunk_sem_def)
qed (simp add: key_sem.simps)

lemma key_sem_multi_multi: "key_sem (ChMulti a # ChMulti b # cs) ks \<longleftrightarrow> key_sem (ChMulti c # cs) ks"
  by (induction ks) (auto simp: key_sem_multi)

definition wild_chunks :: "nat \<Rightarrow> bool \<Rightarrow> chunk list" where
  "wild_chunks singles multi = replicate singles (ChSingle None) @ (if multi then [ChMulti None] else [])"

lemma parse_texts_append: "parse_texts xs = Some cs \<Longrightarrow> parse_texts (xs @ ys) = map_option ((@) cs) (parse_texts ys)"
  by (cases "parse_texts ys"; induction xs arbitrary: cs) (auto split: sum.splits)

lemma parse_flush: "parse_texts (flush_wild singles multi) = Some (wild_chunks singles multi)"
proof -
  have multi: "parse_texts (if multi then [''**''] else []) = Some (if multi then [ChMulti None] else [])"
    by (simp add: classify_def)
  have "parse_texts (replicate singles ''*'') = Some (replicate singles (ChSingle None))"
    by (induction singles) (simp_all add: classify_def)
  from parse_texts_append [OF this] show ?thesis by (simp only: flush_wild_def wild_chunks_def multi option.map)
qed

lemma classify_literal: "chunk_ok (ChLiteral t) \<Longrightarrow> classify t = Inr (ChLiteral t)"
  by (auto simp: classify_def chunk_ok_def name_text_def plain_def)

lemma classify_glob:
  assumes "chunk_ok (ChGlob ps)"
  shows "classify (join_with ''$*'' ps) = Inr (ChGlob ps)"
proof -
  have ok: "pieces_ok ps" "list_all name_text ps" "\<not> verbatim (hd ps)" "list_ex (\<lambda>p. p \<noteq> []) ps"
    using assms by (simp_all add: chunk_ok_def)
  obtain a ms b where ps: "ps = a # ms @ [b]"
    using ok(1) by (cases ps; cases "tl ps" rule: rev_cases) (auto simp: pieces_ok_def)
  have plain: "list_all plain ps" using ok(1) by (simp add: pieces_ok_def)
  let ?t = "join_with ''$*'' ps"
  have t: "?t = a @ dollar_char # star_char # join_with ''$*'' (ms @ [b])" by (simp add: ps join_with_Cons)
  have split: "split_glob ?t = ps" by (rule split_glob_join [OF plain]) (simp add: ps)
  have "filter (\<lambda>p. p \<noteq> []) ms = ms"
    using ok(1) by (simp add: pieces_ok_def ps butlast_append filter_id_conv list_all_iff)
  then have retain: "retain_pieces ps = ps" by (simp add: ps retain_pieces_eq)
  have "?t \<noteq> []" "?t \<noteq> ''*''" "?t \<noteq> ''**''" using t by (cases a; auto)+
  moreover have "CHR ''#'' \<notin> set ?t" "CHR ''?'' \<notin> set ?t"
    using name_text_join [OF ok(2)] by fastforce+
  moreover have "star_char \<in> set ?t" unfolding t by simp
  moreover have "\<not> verbatim ?t"
    using ok(3) unfolding t by (cases a) (simp_all add: verbatim_def starts_with_def ps)
  moreover have "\<not> list_ex (\<lambda>p. dollar_char \<in> set p) ps" "\<not> list_ex (\<lambda>p. star_char \<in> set p) ps"
    using plain by (auto simp: list_ex_iff list_all_iff plain_def)
  moreover have "\<not> list_all (\<lambda>p. p = []) ps" using ok(4) by (auto simp: list_ex_iff list_all_iff)
  ultimately show ?thesis by (simp add: classify_def Let_def split retain)
qed

lemma wild_Suc: "key_sem (wild_chunks (Suc s) m @ cs) ks \<longleftrightarrow> key_sem (wild_chunks s m @ ChSingle c # cs) ks"
proof -
  have "wild_chunks (Suc s) m @ cs = replicate s (ChSingle None) @ (ChSingle None # (if m then [ChMulti None] else []) @ cs)"
    by (simp add: wild_chunks_def replicate_app_Cons_same)
  moreover have "key_sem (ChSingle None # (if m then [ChMulti None] else []) @ cs) ks
      \<longleftrightarrow> key_sem ((if m then [ChMulti None] else []) @ ChSingle c # cs) ks" for ks
    using key_sem_single_name [of None cs ks c] key_sem_multi_single [of None c cs ks None None] by simp
  ultimately show ?thesis
    using key_sem_cong [of "ChSingle None # (if m then [ChMulti None] else []) @ cs"
        "(if m then [ChMulti None] else []) @ ChSingle c # cs" "replicate s (ChSingle None)" ks]
    by (simp add: wild_chunks_def)
qed

lemma wild_True: "key_sem (wild_chunks s True @ cs) ks \<longleftrightarrow> key_sem (wild_chunks s m @ ChMulti c # cs) ks"
proof -
  have "key_sem (ChMulti None # cs) ks \<longleftrightarrow> key_sem ((if m then [ChMulti None] else []) @ ChMulti c # cs) ks" for ks
    using key_sem_multi_name [of None cs ks c] key_sem_multi_multi [of None c cs ks None] by simp
  from key_sem_cong [of "ChMulti None # cs" "(if m then [ChMulti None] else []) @ ChMulti c # cs"
      "replicate s (ChSingle None)" ks, OF this]
  show ?thesis by (simp add: wild_chunks_def)
qed

lemma canonical_texts_parse:
  "list_all chunk_ok cs \<Longrightarrow>
     \<exists>ds. parse_texts (canonical_texts cs s m) = Some ds \<and> (\<forall>ks. key_sem ds ks \<longleftrightarrow> key_sem (wild_chunks s m @ cs) ks)"
proof (induction cs s m rule: canonical_texts.induct)
  case (2 c cs s m)
  then show ?case using wild_Suc by fastforce
next
  case (3 c cs s m)
  then show ?case using wild_True by fastforce
next
  case (4 t cs s m)
  then obtain ds where ds: "parse_texts (canonical_texts cs 0 False) = Some ds" "\<And>ks. key_sem ds ks \<longleftrightarrow> key_sem cs ks"
    by (auto simp: wild_chunks_def)
  from key_sem_cong [OF ds(2)] have "key_sem ((wild_chunks s m @ [ChLiteral t]) @ ds) ks \<longleftrightarrow> key_sem ((wild_chunks s m @ [ChLiteral t]) @ cs) ks" for ks .
  then show ?case
    using parse_texts_append [OF parse_flush] classify_literal "4.prems" ds(1) by simp
next
  case (5 ps cs s m)
  then obtain ds where ds: "parse_texts (canonical_texts cs 0 False) = Some ds" "\<And>ks. key_sem ds ks \<longleftrightarrow> key_sem cs ks"
    by (auto simp: wild_chunks_def)
  from key_sem_cong [OF ds(2)] have "key_sem ((wild_chunks s m @ [ChGlob ps]) @ ds) ks \<longleftrightarrow> key_sem ((wild_chunks s m @ [ChGlob ps]) @ cs) ks" for ks .
  then show ?case
    using parse_texts_append [OF parse_flush] classify_glob "5.prems" ds(1) by simp
qed (simp add: parse_flush)

lemma canonical_texts_slash: "list_all chunk_ok cs \<Longrightarrow> t \<in> set (canonical_texts cs s m) \<Longrightarrow> slash \<notin> set t"
proof (induction cs s m rule: canonical_texts.induct)
  case (5 ps cs s m)
  then have "list_all name_text ps" by (simp add: chunk_ok_def)
  from name_text_join [OF this] have "slash \<notin> set (join_with ''$*'' ps)" by fastforce
  then show ?case using 5 by (auto simp: flush_wild_def split: if_splits)
qed (auto simp: flush_wild_def chunk_ok_def name_text_def split: if_splits)

lemma canonical_texts_ne: "cs \<noteq> [] \<or> 0 < s \<or> m \<Longrightarrow> canonical_texts cs s m \<noteq> []"
  by (induction cs s m rule: canonical_texts.induct) (auto simp: flush_wild_def)

lemma split_canonical:
  assumes "list_all chunk_ok cs" and "cs \<noteq> []"
  shows "split_on slash (canonical cs) = canonical_texts cs 0 False"
  unfolding canonical_def
  using canonical_texts_slash [OF assms(1)] canonical_texts_ne [of cs 0 False] assms(2) by (intro split_on_join) auto

lemma parse_canonical:
  assumes "list_all chunk_ok cs" and "cs \<noteq> []"
  obtains ds where "parse_filter (canonical cs) = Some ds" and "\<forall>ks. key_sem ds ks \<longleftrightarrow> key_sem cs ks"
proof -
  obtain ds where "parse_texts (canonical_texts cs 0 False) = Some ds"
      "\<forall>ks. key_sem ds ks \<longleftrightarrow> key_sem (wild_chunks 0 False @ cs) ks"
    using canonical_texts_parse [OF assms(1)] by blast
  then show thesis
    using that [of ds] split_canonical [OF assms] by (simp add: parse_filter_def wild_chunks_def)
qed

lemma zenoh_matches_meaning:
  assumes "list_all chunk_ok cs" and "cs \<noteq> []"
  shows "fst (tf_matches (zenoh_filter_of cs) topic spans) \<longleftrightarrow> zenoh_meaning (tf_filter (zenoh_filter_of cs)) topic"
proof -
  obtain ds where "parse_filter (canonical cs) = Some ds" "\<forall>ks. key_sem ds ks \<longleftrightarrow> key_sem cs ks"
    by (rule parse_canonical [OF assms])
  then show ?thesis using zenoh_matches_sem [OF assms(1)] by (simp add: zenoh_filter_of_def zenoh_meaning_def)
qed

subsection \<open>Literal expressions\<close>

definition literal_text :: "chunk \<Rightarrow> string" where
  "literal_text c = (case c of ChLiteral t \<Rightarrow> t | _ \<Rightarrow> [])"

definition is_literal_chunk :: "chunk \<Rightarrow> bool" where
  "is_literal_chunk c \<longleftrightarrow> (case c of ChLiteral _ \<Rightarrow> True | _ \<Rightarrow> False)"

lemma literal_texts: "list_all is_literal_chunk cs \<Longrightarrow> canonical_texts cs 0 False = map literal_text cs"
  by (induction cs "0 :: nat" False rule: canonical_texts.induct)
    (simp_all add: is_literal_chunk_def flush_wild_def literal_text_def)

lemma literal_key_sem: "list_all is_literal_chunk cs \<Longrightarrow> key_sem cs ks \<longleftrightarrow> ks = map literal_text cs"
proof (induction cs arbitrary: ks)
  case (Cons c cs)
  then obtain t where "c = ChLiteral t" by (auto simp: is_literal_chunk_def split: chunk.splits)
  then show ?case using Cons by (cases ks) (auto simp: key_sem.simps chunk_sem_def literal_text_def)
qed simp

lemma zenoh_literal_meaning:
  assumes "list_all chunk_ok cs" and "cs \<noteq> []" and "list_all is_literal_chunk cs"
  shows "zenoh_meaning (canonical cs) topic \<longleftrightarrow> canonical cs = topic"
proof -
  obtain ds where ds: "parse_filter (canonical cs) = Some ds" "\<forall>ks. key_sem ds ks \<longleftrightarrow> key_sem cs ks"
    by (rule parse_canonical [OF assms(1,2)])
  have texts: "split_on slash (canonical cs) = map literal_text cs"
    using split_canonical [OF assms(1,2)] literal_texts [OF assms(3)] by simp
  have free: "star_char \<notin> set (literal_text c)" "literal_text c \<noteq> []" if "c \<in> set cs" for c
    using assms(1,3) that by (auto simp: list_all_iff is_literal_chunk_def literal_text_def chunk_ok_def name_text_def
        plain_def split: chunk.splits)
  have star: "star_char \<notin> set (canonical cs)"
  proof
    assume "star_char \<in> set (canonical cs)"
    moreover have sub: "set (join_with [slash] xs) \<subseteq> insert slash (\<Union> (set ` set xs))" for xs
      by (induction "[slash]" xs rule: join_with.induct) auto
    ultimately show False
      using free(1) literal_texts [OF assms(3)] sub [of "map literal_text cs"] by (fastforce simp: canonical_def)
  qed
  have ne: "canonical cs \<noteq> []"
  proof
    assume "canonical cs = []"
    then have "map literal_text cs = [[]]" using texts by simp
    then show False using free(2) by (cases cs) auto
  qed
  have "key_sem ds (key_chunks topic) \<longleftrightarrow> key_chunks topic = split_on slash (canonical cs)"
    by (simp only: ds(2) literal_key_sem [OF assms(3)] texts)
  also have "\<dots> \<longleftrightarrow> topic \<noteq> [] \<and> topic = canonical cs"
    using split_on_inject [of slash topic "canonical cs"] by (auto simp: key_chunks_def)
  finally show ?thesis using ds(1) star ne by (auto simp: zenoh_meaning_def)
qed

subsection \<open>Covering is sound and transitive\<close>

lemma chunk_includes_sem:
  assumes "chunk_includes a b" and "chunk_sem b k" and "chunk_ok a" and "chunk_ok b"
  shows "chunk_sem a k"
proof (cases "is_verbatim b")
  case False
  then show ?thesis
  proof (cases a)
    case (ChGlob x)
    then have x: "pieces_ok x" using assms(3) by (simp add: chunk_ok_def)
    show ?thesis
    proof (cases b)
      case (ChGlob y)
      then have y: "pieces_ok y" and b: "\<not> verbatim k" "glob_sem y k"
        using assms(2,4) by (simp_all add: chunk_ok_def chunk_sem_def)
      then have "glob_sem x (join_with ''$*'' y)"
        using assms(1) False ChGlob \<open>a = ChGlob x\<close> x by (simp add: chunk_includes_def glob_matches_iff pieces_ok_def)
      moreover have "filled (join_with ''$*'' y) k"
        using y b(2) filled_glob [of y k] pieces_ok_ne [OF y] by (simp add: pieces_ok_def)
      ultimately have "glob_sem x k" using glob_filled x by (simp add: pieces_ok_def)
      then show ?thesis using b(1) \<open>a = ChGlob x\<close> by (simp add: chunk_sem_def)
    qed (use assms False ChGlob x in \<open>auto simp: chunk_includes_def chunk_sem_def glob_matches_iff pieces_ok_def is_verbatim_def\<close>)
  qed (use assms False in \<open>auto simp: chunk_includes_def chunk_sem_def is_verbatim_def split: chunk.splits\<close>)
qed (use assms in \<open>simp add: chunk_includes_def\<close>)

lemma chunks_include_multi:
  "chunks_include (ChMulti n # as) bs \<longleftrightarrow>
     chunks_include as bs \<or> (case bs of [] \<Rightarrow> False | b # bs' \<Rightarrow> \<not> is_verbatim b \<and> chunks_include (ChMulti n # as) bs')"
  by (simp add: chunks_include.simps)

lemma chunks_include_single:
  "\<not> is_multi a \<Longrightarrow> chunks_include (a # as) bs \<longleftrightarrow>
     (\<exists>b bs'. bs = b # bs' \<and> \<not> is_multi b \<and> chunk_includes a b \<and> chunks_include as bs')"
  by (cases a; cases bs; cases "hd bs") (auto simp: is_multi_def chunks_include.simps)

lemma chunk_sem_wild: "chunk_sem b k \<Longrightarrow> \<not> is_verbatim b \<Longrightarrow> \<not> verbatim k"
  by (cases b) (auto simp: chunk_sem_def is_verbatim_def)

lemma is_multi_obtain: "is_multi c \<Longrightarrow> \<exists>n. c = ChMulti n"
  by (cases c) (auto simp: is_multi_def)

lemma chunks_include_sem:
  assumes "chunks_include as bs" and "key_sem bs ks" and "list_all chunk_ok as" and "list_all chunk_ok bs"
  shows "key_sem as ks"
  using assms
proof (induction "length as + length bs" arbitrary: as bs ks rule: less_induct)
  case less
  show ?case
  proof (cases as)
    case Nil
    then show ?thesis using less.prems by simp
  next
    case (Cons a as')
    show ?thesis
    proof (cases "is_multi a")
      case True
      then obtain n where a: "a = ChMulti n" using is_multi_obtain by blast
      consider "chunks_include as' bs" | b bs' where "bs = b # bs'" "\<not> is_verbatim b" "chunks_include as bs'"
        using less.prems(1) Cons by (auto simp: a chunks_include_multi [of n as' bs] split: list.splits)
      then show ?thesis
      proof cases
        case 1
        then have "key_sem as' ks" using less Cons by auto
        then show ?thesis by (simp add: Cons a key_sem_multi)
      next
        case 2
        have sub: "key_sem bs' r \<Longrightarrow> key_sem as r" for r
          using less.hyps [of as bs' r] less.prems(3,4) 2 by auto
        have skip: "key_sem as r \<Longrightarrow> list_all (\<lambda>k. \<not> verbatim k) xs \<Longrightarrow> key_sem as (xs @ r)" for xs r
          using key_sem_skip by (simp add: Cons a)
        show ?thesis
        proof (cases "is_multi b")
          case True
          then obtain m where "b = ChMulti m" using is_multi_obtain by blast
          then obtain xs ys where "ks = xs @ ys" "list_all (\<lambda>k. \<not> verbatim k) xs" "key_sem bs' ys"
            using less.prems(2) 2(1) by (auto simp: key_sem_multi_iff)
          then show ?thesis using sub skip by blast
        next
          case False
          then obtain k ks' where k: "ks = k # ks'" "chunk_sem b k" "key_sem bs' ks'"
            using less.prems(2) 2(1) by (auto simp: key_sem_single split: list.splits)
          then show ?thesis using sub skip [of ks' "[k]"] chunk_sem_wild 2(2) by simp
        qed
      qed
    next
      case False
      then obtain b bs' where b: "bs = b # bs'" "\<not> is_multi b" "chunk_includes a b" "chunks_include as' bs'"
        using less.prems(1) Cons by (auto simp: chunks_include_single)
      then obtain k ks' where k: "ks = k # ks'" "chunk_sem b k" "key_sem bs' ks'"
        using less.prems(2) by (auto simp: key_sem_single split: list.splits)
      have "key_sem as' ks'" using less.hyps [of as' bs' ks'] less.prems(3,4) b k Cons by simp
      moreover have "chunk_sem a k" using chunk_includes_sem [OF b(3) k(2)] less.prems(3,4) Cons b(1) by simp
      ultimately show ?thesis using False by (simp add: Cons key_sem_single k)
    qed
  qed
qed

lemma chunk_includes_trans:
  assumes "chunk_includes a b" and "chunk_includes b c" and "chunk_ok a" and "chunk_ok b"
  shows "chunk_includes a c"
proof (cases "is_verbatim c")
  case True
  then show ?thesis using assms by (simp add: chunk_includes_def)
next
  case False
  note c = False
  have b: "\<not> is_verbatim b"
    using assms(2) c by (auto simp: chunk_includes_def is_verbatim_def split: chunk.splits)
  show ?thesis
  proof (cases a)
    case (ChGlob x)
    then have x: "pieces_ok x" using assms(3) by (simp add: chunk_ok_def)
    show ?thesis
    proof (cases b)
      case (ChGlob y)
      then have y: "pieces_ok y" using assms(4) by (simp add: chunk_ok_def)
      have xy: "glob_sem x (join_with ''$*'' y)"
        using assms(1) b ChGlob \<open>a = ChGlob x\<close> x by (simp add: chunk_includes_def glob_matches_iff pieces_ok_def)
      have "glob_sem y t \<Longrightarrow> glob_sem x t" for t
        using glob_filled [OF xy] filled_glob [of y t] x y pieces_ok_ne [OF y] by (simp add: pieces_ok_def)
      then show ?thesis
        using assms(2) c x y \<open>a = ChGlob x\<close> ChGlob
        by (auto simp: chunk_includes_def glob_matches_iff pieces_ok_def split: chunk.splits)
    qed (use assms(1,2) b c ChGlob in \<open>auto simp: chunk_includes_def split: chunk.splits\<close>)
  qed (use assms(1,2) b c in \<open>auto simp: chunk_includes_def split: chunk.splits\<close>)
qed

lemma chunks_include_trans:
  assumes "chunks_include as bs" and "chunks_include bs cs" and "list_all chunk_ok as" and "list_all chunk_ok bs"
  shows "chunks_include as cs"
  using assms
proof (induction "length as + length bs + length cs" arbitrary: as bs cs rule: less_induct)
  case less
  show ?case
  proof (cases as)
    case Nil
    then show ?thesis using less.prems by simp
  next
    case (Cons a as')
    show ?thesis
    proof (cases "is_multi a")
      case True
      then obtain n where a: "a = ChMulti n" using is_multi_obtain by blast
      consider "chunks_include as' bs" | b bs' where "bs = b # bs'" "\<not> is_verbatim b" "chunks_include as bs'"
        using less.prems(1) Cons by (auto simp: a chunks_include_multi [of n as' bs] split: list.splits)
      then show ?thesis
      proof cases
        case 1
        then have "chunks_include as' cs" using less Cons by auto
        then show ?thesis by (simp add: Cons a chunks_include_multi)
      next
        case 2
        have grow: "chunks_include as (c # cs')" if "\<not> is_verbatim c" "chunks_include as cs'" for c cs'
          using that by (simp add: Cons a chunks_include_multi [of n as' "c # cs'"])
        have bs': "list_all chunk_ok bs'" using less.prems(4) 2(1) by simp
        show ?thesis
        proof (cases "is_multi b")
          case True
          then obtain m where b: "b = ChMulti m" using is_multi_obtain by blast
          consider "chunks_include bs' cs" | c cs' where "cs = c # cs'" "\<not> is_verbatim c" "chunks_include bs cs'"
            using less.prems(2) 2(1) by (auto simp: b chunks_include_multi [of m bs' cs] split: list.splits)
          then show ?thesis
          proof cases
            case 1
            then show ?thesis using less.hyps [of as bs' cs] 2(1,3) less.prems(3) bs' by simp
          next
            case (2 c cs')
            then show ?thesis using less.hyps [of as bs cs'] grow less.prems by simp
          qed
        next
          case False
          then obtain c cs' where c: "cs = c # cs'" "\<not> is_multi c" "chunk_includes b c" "chunks_include bs' cs'"
            using less.prems(2) 2(1) by (auto simp: chunks_include_single)
          then have "chunks_include as cs'" using less.hyps [of as bs' cs'] 2(1,3) less.prems(3) bs' by simp
          moreover have "\<not> is_verbatim c" using c(3) 2(2) by (auto simp: chunk_includes_def)
          ultimately show ?thesis using grow c(1) by simp
        qed
      qed
    next
      case False
      then obtain b bs' where b: "bs = b # bs'" "\<not> is_multi b" "chunk_includes a b" "chunks_include as' bs'"
        using less.prems(1) Cons by (auto simp: chunks_include_single)
      then obtain c cs' where c: "cs = c # cs'" "\<not> is_multi c" "chunk_includes b c" "chunks_include bs' cs'"
        using less.prems(2) by (auto simp: chunks_include_single)
      have "chunks_include as' cs'" using less.hyps [of as' bs' cs'] less.prems(3,4) b c Cons by simp
      moreover have "chunk_includes a c" using chunk_includes_trans [OF b(3) c(3)] less.prems(3,4) Cons b(1) by simp
      ultimately show ?thesis using False c(1,2) by (auto simp: Cons chunks_include_single)
    qed
  qed
qed

lemma zenoh_covers_include:
  assumes "zenoh_covers a b"
  obtains as bs where "parse_filter a = Some as" and "parse_filter b = Some bs" and "chunks_include as bs"
  using assms by (auto simp: zenoh_covers_def split: option.splits)

lemma zenoh_covers_meaning:
  assumes "zenoh_covers a b" and "zenoh_meaning b topic"
  shows "zenoh_meaning a topic"
proof -
  obtain as bs where p: "parse_filter a = Some as" "parse_filter b = Some bs" "chunks_include as bs"
    by (rule zenoh_covers_include [OF assms(1)])
  then show ?thesis
    using chunks_include_sem [OF p(3) _ parse_filter_ok [OF p(1)] parse_filter_ok [OF p(2)]] assms(2)
    by (simp add: zenoh_meaning_def)
qed

lemma zenoh_covers_trans: "zenoh_covers a b \<Longrightarrow> zenoh_covers b c \<Longrightarrow> zenoh_covers a c"
  by (auto simp: zenoh_covers_def split: option.splits intro: chunks_include_trans dest!: parse_filter_ok)

subsection \<open>Zenoh provides the grammar interface\<close>

definition zenoh_compile_opt :: "string \<Rightarrow> part list \<Rightarrow> topic_filter option" where
  "zenoh_compile_opt topic ps = (case zenoh_compile ps of Inl _ \<Rightarrow> None | Inr f \<Rightarrow> Some f)"

lemma zenoh_compile_chunks:
  assumes "zenoh_compile ps = Inr f"
  obtains cs where "zenoh_chunks ps = Inr cs" and "list_all chunk_ok cs" and "cs \<noteq> []" and "f = zenoh_filter_of cs"
  using assms zenoh_chunks_ok by (cases "zenoh_chunks ps") (auto simp: zenoh_compile_def)

lemma zenoh_compile_opt_chunks:
  assumes "zenoh_compile_opt topic ps = Some f"
  obtains cs where "list_all chunk_ok cs" and "cs \<noteq> []" and "f = zenoh_filter_of cs"
proof -
  have "zenoh_compile ps = Inr f"
    using assms by (auto simp: zenoh_compile_opt_def split: sum.splits)
  then show thesis using zenoh_compile_chunks that by metis
qed

interpretation zenoh: topic_grammar zenoh_compile_opt zenoh_covers zenoh_valid zenoh_meaning
proof unfold_locales
  show "zenoh_valid (tf_filter f)" if c: "zenoh_compile_opt topic ps = Some f" for topic ps f
  proof -
    obtain cs where cs: "list_all chunk_ok cs" "cs \<noteq> []" "f = zenoh_filter_of cs"
      by (rule zenoh_compile_opt_chunks [OF c])
    obtain ds where "parse_filter (canonical cs) = Some ds" by (rule parse_canonical [OF cs(1,2)])
    then show ?thesis by (simp add: zenoh_valid_def zenoh_filter_of_def cs(3))
  qed
  show "fst (tf_matches f t spans) \<longleftrightarrow> zenoh_meaning (tf_filter f) t"
    if "zenoh_compile_opt topic ps = Some f" for topic ps f t spans
    using zenoh_compile_opt_chunks [OF that] zenoh_matches_meaning by metis
  show "zenoh_meaning (tf_filter f) t \<longleftrightarrow> tf_filter f = t"
    if c: "zenoh_compile_opt topic ps = Some f" and l: "tf_literal f" for topic ps f t
  proof -
    obtain cs where cs: "list_all chunk_ok cs" "cs \<noteq> []" "f = zenoh_filter_of cs"
      by (rule zenoh_compile_opt_chunks [OF c])
    have "list_all is_literal_chunk cs"
      using l by (simp add: cs(3) zenoh_filter_of_def is_literal_chunk_def [abs_def])
    then show ?thesis using zenoh_literal_meaning [OF cs(1,2)] by (simp add: cs(3) zenoh_filter_of_def)
  qed
qed (auto intro: zenoh_covers_meaning zenoh_covers_trans)

subsection \<open>Properties\<close>

text \<open>
  C11. The router and the Zenoh network agree: the matcher a pattern compiles to, which places each
  segment as early as it fits and never goes back, accepts exactly the keys that the canonical key
  expression it subscribes means, whatever run of \<open>*\<close> and \<open>**\<close> the pattern was written with; keys
  that are wildcards themselves are never matched.
\<close>

theorem zenoh_matches_exact:
  assumes "zenoh_compile ps = Inr f"
  shows "fst (tf_matches f topic spans) \<longleftrightarrow> zenoh_meaning (tf_filter f) topic"
proof -
  obtain cs where "list_all chunk_ok cs" "cs \<noteq> []" "f = zenoh_filter_of cs"
    by (rule zenoh_compile_chunks [OF assms])
  then show ?thesis using zenoh_matches_meaning by blast
qed

text \<open>
  Dropping a covered subscription loses nothing: when \<open>covers\<close> says an expression covers another,
  it means every key the other one means, verbatim chunks and globs included.
\<close>

theorem zenoh_covers_sound:
  assumes "zenoh_covers a b" and "zenoh_meaning b topic"
  shows "zenoh_meaning a topic"
  using assms by (rule zenoh_covers_meaning)

theorem zenoh_matches_exact_witness:
  "fst (tf_matches (zenoh_filter_of [ChLiteral ''a'', ChMulti (Some 0), ChSingle (Some 1)]) ''a/b/c'' no_spans)
     \<longleftrightarrow> zenoh_meaning ''a/*/**'' ''a/b/c''"
proof -
  have "zenoh_compile [Text ''a/'', Capture ''x'' True, Text ''/'', Capture ''y'' False]
      = Inr (zenoh_filter_of [ChLiteral ''a'', ChMulti (Some 0), ChSingle (Some 1)])"
    by (simp add: zenoh_compile_def zenoh_chunks_def push_text_def update_last_def raw_default_def chunk_of_raw_def
        classify_def)
  from zenoh_matches_exact [OF this, of "''a/b/c''" no_spans] show ?thesis
    by (simp add: zenoh_filter_of_def canonical_def flush_wild_def)
qed

theorem zenoh_covers_sound_witness:
  "zenoh_meaning ''a/**'' ''a/b/c''"
proof (rule zenoh_covers_sound [of _ "''a/*/c''"])
  show "zenoh_covers ''a/**'' ''a/*/c''"
    by (simp add: zenoh_covers_def parse_filter_def classify_def chunks_include_single is_multi_def
        chunks_include_multi chunk_includes_def is_verbatim_def verbatim_def starts_with_def)
  show "zenoh_meaning ''a/*/c'' ''a/b/c''"
    by (simp add: zenoh_meaning_def parse_filter_def classify_def key_chunks_def key_sem_single is_multi_def chunk_sem_def
        verbatim_def starts_with_def)
qed

end
