(* ===== verification/Zenoh_Native.thy ===== *)
theory Zenoh_Native
  imports Zenoh_Grammar Db_Links
begin

text \<open>
  \<open>aimdb-zenoh-connector/src/native.rs\<close>: what the Zenoh connector checks when it is built, how a
  sample that reaches one or more of its subscribers is dispatched, and how an outbound message is
  put on the network.  Zenoh itself is a parameter: \<open>keyexpr_new\<close> decides whether a string is a key
  expression, which declarations and puts succeed is given, and so is the list of the subscribers
  that Zenoh hands a sample to.  A deserializer that panics (\<open>dispatch_guarded\<close>) is not modelled.
\<close>

subsection \<open>Building\<close>

definition key_max :: nat where "key_max = 65535"

datatype zenoh_build_error =
    KeyTooLong nat
  | NotKeyExpr string
  | WildcardKey string
  | FilterTooLong nat
  | FilterNotKeyExpr string
  | FilterNotPattern string
  | BuildDb db_error

fun collect_results :: "('e + 'a) list \<Rightarrow> 'e + 'a list" where
  "collect_results [] = Inr []"
| "collect_results (r # rs) =
     (case r of
        Inl e \<Rightarrow> Inl e
      | Inr x \<Rightarrow> (case collect_results rs of Inl e \<Rightarrow> Inl e | Inr xs \<Rightarrow> Inr (x # xs)))"

definition publisher_key :: "(string \<Rightarrow> bool) \<Rightarrow> route_info \<Rightarrow> zenoh_build_error + string" where
  "publisher_key keyexpr_new info =
     (let topic = bytes_str (ri_default_topic info) in
      if key_max < length topic then Inl (KeyTooLong (length topic))
      else if \<not> keyexpr_new topic then Inl (NotKeyExpr topic)
      else if star_char \<in> set topic then Inl (WildcardKey topic)
      else Inr topic)"

definition native_filter :: "(string \<Rightarrow> bool) \<Rightarrow> string \<Rightarrow> zenoh_build_error + string \<times> topic_filter" where
  "native_filter keyexpr_new f =
     (if key_max < length f then Inl (FilterTooLong (length f))
      else if \<not> keyexpr_new f then Inl (FilterNotKeyExpr f)
      else
        (case parse_pattern f of
           Inl _ \<Rightarrow> Inl (FilterNotPattern f)
         | Inr pattern \<Rightarrow>
             (case zenoh_compile pattern of
                Inl _ \<Rightarrow> Inl (FilterNotPattern f)
              | Inr compiled \<Rightarrow> Inr (f, compiled))))"

definition native_subscriptions ::
  "(string \<Rightarrow> bool) \<Rightarrow> compiled_route list \<Rightarrow> zenoh_build_error + (string \<times> topic_filter) list" where
  "native_subscriptions keyexpr_new rs = collect_results (map (native_filter keyexpr_new) (subscriptions zenoh_covers rs))"

record 'v zenoh_parts =
  zp_inbound :: "'v inbound_router"
  zp_filters :: "(string \<times> topic_filter) list"
  zp_outbound :: "('v, u64) outbound_routes"
  zp_keys :: "string list"

text \<open>\<open>None\<close> is the panic of a link whose record is gone.\<close>

definition zenoh_build ::
  "(string \<Rightarrow> bool) \<Rightarrow> ('v, 'j, 'f) aimdb \<Rightarrow> (zenoh_build_error + 'v zenoh_parts) option" where
  "zenoh_build keyexpr_new db =
     (case inbound_router zenoh_compile_opt ''zenoh'' db of
        None \<Rightarrow> None
      | Some (Inl e) \<Rightarrow> Some (Inl (BuildDb e))
      | Some (Inr inbound) \<Rightarrow>
          (let outbound = outbound_for ''zenoh'' db in
           Some
             (case collect_results (map (publisher_key keyexpr_new) (ob_routes outbound)) of
                Inl e \<Rightarrow> Inl e
              | Inr keys \<Rightarrow>
                  (case native_subscriptions keyexpr_new (map fst inbound) of
                     Inl e \<Rightarrow> Inl e
                   | Inr filters \<Rightarrow>
                       Inr \<lparr>zp_inbound = inbound, zp_filters = filters, zp_outbound = outbound, zp_keys = keys\<rparr>))))"

subsection \<open>Subscribing\<close>

text \<open>A declared subscriber: its key expression and the filters it defers to.\<close>

record zenoh_subscriber =
  zs_key :: string
  zs_shadows :: "topic_filter list"

fun subscribe_from ::
  "(string \<Rightarrow> bool) \<Rightarrow> topic_filter list \<Rightarrow> (string \<times> topic_filter) list \<Rightarrow> zenoh_subscriber list" where
  "subscribe_from declares earlier [] = []"
| "subscribe_from declares earlier ((key, compiled) # rest) =
     (if declares key
      then \<lparr>zs_key = key, zs_shadows = earlier\<rparr> # subscribe_from declares (earlier @ [compiled]) rest
      else subscribe_from declares earlier rest)"

definition zenoh_subscribe :: "(string \<Rightarrow> bool) \<Rightarrow> (string \<times> topic_filter) list \<Rightarrow> zenoh_subscriber list" where
  "zenoh_subscribe declares filters = subscribe_from declares [] filters"

datatype sample_kind = PutSample | DeleteSample

record zenoh_sample =
  sm_key :: string
  sm_kind :: sample_kind
  sm_payload :: bytes

text \<open>The session: whether the first wildcard sample was reported, and the database.\<close>

record ('v, 'j, 'f) zenoh_session =
  ss_warned :: bool
  ss_db :: "('v, 'j, 'f) aimdb"

fun shadowed :: "topic_filter list \<Rightarrow> string \<Rightarrow> spans \<Rightarrow> bool" where
  "shadowed [] key spans = False"
| "shadowed (f # fs) key spans =
     (case tf_matches f key spans of
        (True, _) \<Rightarrow> True
      | (False, spans') \<Rightarrow> shadowed fs key spans')"

text \<open>The callback of a subscriber; the first component says whether it reported a wildcard sample.\<close>

definition on_sample ::
  "(nat \<Rightarrow> u64) \<Rightarrow> 'v inbound_router \<Rightarrow> zenoh_sample \<Rightarrow> zenoh_subscriber
   \<Rightarrow> ('v, 'j, 'f) zenoh_session \<Rightarrow> ('v, 'j, 'f) zenoh_session" where
  "on_sample now inbound sample sub ss =
     (if sm_kind sample = DeleteSample then ss
      else if star_char \<in> set (sm_key sample) then ss\<lparr>ss_warned := True\<rparr>
      else if shadowed (zs_shadows sub) (sm_key sample) no_spans then ss
      else ss\<lparr>ss_db := inbound_dispatch now inbound (sm_key sample) (sm_payload sample) (ss_db ss)\<rparr>)"

definition deliver_sample ::
  "(nat \<Rightarrow> u64) \<Rightarrow> 'v inbound_router \<Rightarrow> zenoh_sample \<Rightarrow> zenoh_subscriber list
   \<Rightarrow> ('v, 'j, 'f) zenoh_session \<Rightarrow> ('v, 'j, 'f) zenoh_session" where
  "deliver_sample now inbound sample subs ss = fold (on_sample now inbound sample) subs ss"

subsection \<open>Publishing\<close>

definition written_key :: "(string \<Rightarrow> bool) \<Rightarrow> string \<Rightarrow> string option" where
  "written_key keyexpr_new topic =
     (if key_max < length topic \<or> star_char \<in> set topic then None
      else if keyexpr_new topic then Some topic else None)"

datatype zenoh_put = PublisherPut string bytes | SessionPut string bytes

fun put_key :: "zenoh_put \<Rightarrow> string" where
  "put_key (PublisherPut k _) = k"
| "put_key (SessionPut k _) = k"

fun put_payload :: "zenoh_put \<Rightarrow> bytes" where
  "put_payload (PublisherPut _ p) = p"
| "put_payload (SessionPut _ p) = p"

definition declare_publishers :: "(string \<Rightarrow> bool) \<Rightarrow> string list \<Rightarrow> string option list" where
  "declare_publishers declares keys = map (\<lambda>k. if declares k then Some k else None) keys"

text \<open>The key a message goes out on, \<open>None\<close> when it is rejected.\<close>

definition choose_put :: "(string \<Rightarrow> bool) \<Rightarrow> string option list \<Rightarrow> 'm outbound_message \<Rightarrow> zenoh_put option" where
  "choose_put keyexpr_new publishers msg =
     (let written = om_topic msg \<noteq> ri_default_topic (om_route msg) in
      case (publishers ! ri_id (om_route msg), written) of
        (Some k, False) \<Rightarrow> Some (PublisherPut k (into_vec (om_payload msg)))
      | _ \<Rightarrow>
          (case written_key keyexpr_new (bytes_str (om_topic msg)) of
             Some k \<Rightarrow> Some (SessionPut k (into_vec (om_payload msg)))
           | None \<Rightarrow> None))"

text \<open>One turn of the publishing loop: what is put, and the routes after it.\<close>

definition serve_message ::
  "(string \<Rightarrow> bool) \<Rightarrow> string option list \<Rightarrow> (zenoh_put \<Rightarrow> bool) \<Rightarrow> 'm outbound_message
   \<Rightarrow> ('v, 'm) outbound_routes \<Rightarrow> zenoh_put option \<times> ('v, 'm) outbound_routes" where
  "serve_message keyexpr_new publishers put_ok msg ob =
     (case choose_put keyexpr_new publishers msg of
        None \<Rightarrow> (None, reject (ri_id (om_route msg)) ob)
      | Some p \<Rightarrow> (Some p, if put_ok p then ob else reject (ri_id (om_route msg)) ob))"

subsection \<open>Filters written out are patterns without captures\<close>

definition brace_free :: "string \<Rightarrow> bool" where
  "brace_free s \<longleftrightarrow> (\<forall>c \<in> set s. \<not> is_brace c)"

lemma brace_free_append [simp]: "brace_free (a @ b) \<longleftrightarrow> brace_free a \<and> brace_free b"
  by (auto simp: brace_free_def)

lemma brace_free_mono: "brace_free t \<Longrightarrow> set p \<subseteq> set t \<Longrightarrow> brace_free p"
  by (auto simp: brace_free_def)

lemma split_on_chars: "p \<in> set (split_on c xs) \<Longrightarrow> set p \<subseteq> set xs"
proof -
  assume p: "p \<in> set (split_on c xs)"
  have "q \<in> set ps \<Longrightarrow> set q \<subseteq> set (join_with [c] ps)" for q ps
    by (induction "[c]" ps rule: join_with.induct) auto
  from this [OF p] show ?thesis by (simp only: join_split_on)
qed

lemma push_text_brace_free:
  assumes "brace_free t" and "\<forall>r \<in> set raw. brace_free (raw_text r)" and "raw \<noteq> []"
  shows "(\<forall>r \<in> set (push_text t raw). brace_free (raw_text r)) \<and> push_text t raw \<noteq> []"
proof -
  obtain init l where raw: "raw = init @ [l]" using assms(3) by (cases raw rule: rev_cases) auto
  obtain s ss where ss: "split_on slash t = s # ss" by (metis list.exhaust split_on_ne)
  have "brace_free p" if "p \<in> set (s # ss)" for p
    using brace_free_mono [OF assms(1) split_on_chars] that ss by metis
  then show ?thesis using assms(2) by (auto simp: push_text_def ss raw)
qed

lemma raw_levels_brace_free:
  "raw_levels ps raw n = Inr raw' \<Longrightarrow> \<forall>t. Text t \<in> set ps \<longrightarrow> brace_free t \<Longrightarrow>
     \<forall>r \<in> set raw. brace_free (raw_text r) \<Longrightarrow> raw \<noteq> [] \<Longrightarrow> \<forall>r \<in> set raw'. brace_free (raw_text r)"
proof (induction ps raw n rule: raw_levels.induct)
  case (2 t ps raw n)
  then show ?case using push_text_brace_free [of t raw] by simp
next
  case (3 name multi ps raw n)
  obtain init l where raw: "raw = init @ [l]" using 3(5) by (cases raw rule: rev_cases) auto
  show ?case
    by (rule "3.IH") (use 3(2-4) raw in \<open>auto split: if_splits\<close>)
qed simp

definition chunk_brace_free :: "chunk \<Rightarrow> bool" where
  "chunk_brace_free c \<longleftrightarrow> (case c of ChLiteral t \<Rightarrow> brace_free t | ChGlob ps \<Rightarrow> list_all brace_free ps | _ \<Rightarrow> True)"

lemma retain_pieces_subset: "set (retain_pieces ps) \<subseteq> set ps"
  by (auto simp: retain_pieces_def in_set_enumerate_eq)

lemma classify_brace_free:
  assumes "classify t = Inr c" and "brace_free t"
  shows "chunk_brace_free c"
proof -
  have pieces: "brace_free p" if "p \<in> set (retain_pieces (split_glob t))" for p
  proof -
    have "set p \<subseteq> set (join_with ''$*'' (split_glob t))"
      using that retain_pieces_subset join_chars by blast
    then show ?thesis using brace_free_mono [OF assms(2)] by (simp only: join_split_glob)
  qed
  show ?thesis
    using assms pieces
    by (auto simp: classify_def chunk_brace_free_def list_all_iff Let_def split: if_splits)
qed

lemma chunks_of_brace_free:
  "chunks_of raw = Inr cs \<Longrightarrow> \<forall>r \<in> set raw. brace_free (raw_text r) \<Longrightarrow> list_all chunk_brace_free cs"
proof (induction raw arbitrary: cs)
  case (Cons r rs)
  then obtain c cs' where c: "chunk_of_raw r = Inr c" "chunks_of rs = Inr cs'" "cs = c # cs'"
    by (cases "chunk_of_raw r"; cases "chunks_of rs") auto
  have "chunk_brace_free c"
  proof (cases "raw_capture r")
    case None
    then have "classify (raw_text r) = Inr c" using c(1) by (cases "classify (raw_text r)") (auto simp: chunk_of_raw_def)
    then show ?thesis using classify_brace_free Cons.prems(2) by auto
  next
    case (Some nm)
    then show ?thesis using c(1) by (auto simp: chunk_of_raw_def chunk_brace_free_def split: prod.splits if_splits)
  qed
  then show ?case using Cons c by auto
qed simp

lemma join_brace_free: "list_all brace_free ps \<Longrightarrow> brace_free s \<Longrightarrow> brace_free (join_with s ps)"
  by (induction s ps rule: join_with.induct) (auto simp: brace_free_def)

lemma canonical_brace_free:
  assumes "list_all chunk_brace_free cs"
  shows "brace_free (canonical cs)"
proof -
  have wild: "list_all brace_free (flush_wild s m)" for s m
    by (auto simp: flush_wild_def list_all_iff brace_free_def is_brace_def)
  have "list_all brace_free (canonical_texts cs s m)" for s m
    using assms
  proof (induction cs s m rule: canonical_texts.induct)
    case (5 ps cs s m)
    then have "brace_free (join_with ''$*'' ps)"
      by (intro join_brace_free) (auto simp: chunk_brace_free_def brace_free_def is_brace_def)
    then show ?case using 5 wild by simp
  qed (simp_all add: wild chunk_brace_free_def)
  then show ?thesis unfolding canonical_def by (rule join_brace_free) (simp add: brace_free_def is_brace_def)
qed

lemma parts_ok_texts: "parts_ok ps \<Longrightarrow> Text t \<in> set ps \<Longrightarrow> brace_free t"
  by (induction ps rule: parts_ok.induct) (auto simp: text_ok_def brace_free_def list_all_iff)

lemma compiled_filter_brace_free:
  assumes "parse_pattern topic = Inr ps" and "zenoh_compile ps = Inr f"
  shows "brace_free (tf_filter f)"
proof -
  have "parts_ok ps" using parse_loop_sound [of topic "[]" 0 ps] assms(1) by (auto simp: parse_pattern_def)
  then have texts: "\<forall>t. Text t \<in> set ps \<longrightarrow> brace_free t" using parts_ok_texts by blast
  obtain cs where cs: "zenoh_chunks ps = Inr cs" "f = zenoh_filter_of cs" by (rule zenoh_compile_chunks [OF assms(2)])
  obtain raw where raw: "raw_levels ps [raw_default] 0 = Inr raw" "chunks_of raw = Inr cs"
    using cs(1) by (auto simp: zenoh_chunks_def split: sum.splits)
  have "\<forall>r \<in> set raw. brace_free (raw_text r)"
    by (rule raw_levels_brace_free [OF raw(1) texts]) (auto simp: raw_default_def brace_free_def)
  then show ?thesis
    using canonical_brace_free chunks_of_brace_free [OF raw(2)] cs(2) by (simp add: zenoh_filter_of_def)
qed

lemma chunks_of_texts:
  "chunks_of (map (\<lambda>t. \<lparr>raw_text = t, raw_capture = None\<rparr>) ts) = Inr cs \<longleftrightarrow> parse_texts ts = Some cs"
proof (induction ts arbitrary: cs)
  case (Cons t ts)
  let ?rest = "chunks_of (map (\<lambda>t. \<lparr>raw_text = t, raw_capture = None\<rparr>) ts)"
  show ?case
  proof (cases "parse_texts ts")
    case None
    then have "?rest \<noteq> Inr cs'" for cs' using Cons.IH [of cs'] by simp
    then obtain e where "?rest = Inl e" by (cases ?rest) auto
    then show ?thesis using None by (cases "classify t") (simp_all add: chunk_of_raw_def)
  next
    case (Some cs')
    then have "?rest = Inr cs'" using Cons.IH [of cs'] by simp
    then show ?thesis using Some by (cases "classify t") (simp_all add: chunk_of_raw_def)
  qed
qed simp

lemma zenoh_chunks_text: "zenoh_chunks [Text s] = Inr cs \<longleftrightarrow> parse_filter s = Some cs"
proof -
  obtain t ts where ts: "split_on slash s = t # ts" by (metis list.exhaust split_on_ne)
  then have "push_text s [raw_default] = map (\<lambda>t. \<lparr>raw_text = t, raw_capture = None\<rparr>) (split_on slash s)"
    by (simp add: push_text_def update_last_def raw_default_def)
  then show ?thesis using chunks_of_texts [of "split_on slash s" cs] by (simp add: zenoh_chunks_def parse_filter_def)
qed

text \<open>What a subscribed filter compiles to matches what the filter means.\<close>

lemma native_filter_matches:
  assumes "native_filter keyexpr_new f = Inr (key, compiled)" and "brace_free f"
  shows "key = f" and "fst (tf_matches compiled topic spans) \<longleftrightarrow> zenoh_meaning f topic"
proof -
  obtain pattern where p: "parse_pattern f = Inr pattern" "zenoh_compile pattern = Inr compiled" and k: "key = f"
    using assms(1) by (auto simp: native_filter_def split: if_splits sum.splits)
  show "key = f" by (rule k)
  have pat: "pattern = (if f \<noteq> [] then [Text f] else [])"
    using p(1) parse_loop_text [of f "[]" 0] assms(2) by (simp add: parse_pattern_def brace_free_def split: if_splits)
  obtain cs where cs: "zenoh_chunks pattern = Inr cs" "list_all chunk_ok cs" "compiled = zenoh_filter_of cs"
    by (rule zenoh_compile_chunks [OF p(2)])
  have "f \<noteq> []" using cs(1) pat by (auto simp: zenoh_chunks_def raw_default_def chunk_of_raw_def classify_def)
  then have "parse_filter f = Some cs" using cs(1) pat zenoh_chunks_text by simp
  then show "fst (tf_matches compiled topic spans) \<longleftrightarrow> zenoh_meaning f topic"
    using zenoh_matches_sem [OF cs(2)] by (simp add: cs(3) zenoh_filter_of_def zenoh_meaning_def)
qed

subsection \<open>Which subscriber dispatches\<close>

lemma collect_results_Inr: "collect_results rs = Inr xs \<longleftrightarrow> rs = map Inr xs"
proof (induction rs arbitrary: xs)
  case (Cons r rs)
  show ?case using Cons.IH [of "tl xs"] by (cases r; cases "collect_results rs"; cases xs) auto
qed auto

definition declared_filters :: "(string \<Rightarrow> bool) \<Rightarrow> (string \<times> topic_filter) list \<Rightarrow> (string \<times> topic_filter) list" where
  "declared_filters declares filters = filter (\<lambda>d. declares (fst d)) filters"

definition subscriber_at :: "topic_filter list \<Rightarrow> (string \<times> topic_filter) list \<Rightarrow> nat \<Rightarrow> zenoh_subscriber" where
  "subscriber_at earlier ds i = \<lparr>zs_key = fst (ds ! i), zs_shadows = earlier @ map snd (take i ds)\<rparr>"

lemma subscribe_from_nth:
  "subscribe_from declares earlier filters =
     map (subscriber_at earlier (declared_filters declares filters)) [0..<length (declared_filters declares filters)]"
proof (induction declares earlier filters rule: subscribe_from.induct)
  case (2 declares earlier key compiled rest)
  have "[0..<Suc n] = 0 # map Suc [0..<n]" for n by (simp add: upt_conv_Cons map_Suc_upt del: upt_Suc)
  then show ?case using 2 by (simp add: declared_filters_def subscriber_at_def del: upt_Suc)
qed (simp add: declared_filters_def)

lemma shadowed_iff:
  "(\<And>f sp. f \<in> set fs \<Longrightarrow> fst (tf_matches f key sp) \<longleftrightarrow> P f) \<Longrightarrow> shadowed fs key spans \<longleftrightarrow> (\<exists>f \<in> set fs. P f)"
proof (induction fs arbitrary: spans)
  case (Cons f fs)
  obtain hit spans' where m: "tf_matches f key spans = (hit, spans')" by fastforce
  then have "hit \<longleftrightarrow> P f" using Cons.prems [of f spans] by simp
  then show ?case using Cons.IH [of spans'] Cons.prems m by (cases hit) auto
qed simp

lemma fold_once:
  "distinct xs \<Longrightarrow> x \<in> set xs \<Longrightarrow> (\<And>y s. y \<in> set xs \<Longrightarrow> y \<noteq> x \<Longrightarrow> g y s = s) \<Longrightarrow> fold g xs s = g x s"
proof (induction xs arbitrary: s)
  case (Cons y ys)
  have idle: "\<forall>z \<in> set zs. \<forall>s. g z s = s \<Longrightarrow> fold g zs s = s" for zs s
    by (induction zs arbitrary: s) simp_all
  show ?case
  proof (cases "y = x")
    case True
    then have "\<forall>z \<in> set ys. \<forall>s. g z s = s" using Cons.prems by auto
    then show ?thesis using True idle by simp
  next
    case False
    then show ?thesis using Cons by simp
  qed
qed simp

lemma route_from_none:
  "\<forall>r \<in> set rs. \<not> hits r topic \<Longrightarrow> route_from i rs topic payload store = ([], store)"
  by (induction rs arbitrary: i) (auto simp: route_from_miss simp del: route_from.simps(2))

lemma inbound_dispatch_none:
  assumes "\<forall>r \<in> set (map fst routes). \<not> hits r topic"
  shows "inbound_dispatch now routes topic payload db = db"
  using route_from_none [OF assms, of 0 payload "key_store db"]
  by (simp add: inbound_dispatch_def dispatch_def route_def put_key_store)

text \<open>What a successful build gives: routes of the Zenoh grammar, and the pruned filters compiled.\<close>

lemma zenoh_build_parts:
  assumes "zenoh_build keyexpr_new db = Some (Inr parts)" and "db_ok db"
  shows "\<forall>r \<in> set (map fst (zp_inbound parts)). zenoh.compiled r"
    and "map fst (zp_filters parts) = subscriptions zenoh_covers (map fst (zp_inbound parts))"
    and "(f, compiled) \<in> set (zp_filters parts) \<Longrightarrow> fst (tf_matches compiled topic spans) \<longleftrightarrow> zenoh_meaning f topic"
    and "map Inr (zp_keys parts) = map (publisher_key keyexpr_new) (ob_routes (zp_outbound parts))"
proof -
  obtain inbound where inb: "inbound_router zenoh_compile_opt ''zenoh'' db = Some (Inr inbound)"
    and keys: "collect_results (map (publisher_key keyexpr_new) (ob_routes (outbound_for ''zenoh'' db))) = Inr (zp_keys parts)"
    and subs: "native_subscriptions keyexpr_new (map fst inbound) = Inr (zp_filters parts)"
    and parts: "zp_inbound parts = inbound" "zp_outbound parts = outbound_for ''zenoh'' db"
    using assms(1) by (auto simp: zenoh_build_def Let_def split: option.splits sum.splits)
  show "map Inr (zp_keys parts) = map (publisher_key keyexpr_new) (ob_routes (zp_outbound parts))"
    using keys by (simp add: collect_results_Inr parts)
  have links: "list_all2 (route_from_link zenoh_compile_opt db) (scheme_links ''zenoh'' db) inbound"
    using collect_routes_own [OF assms(2) subset_refl, of zenoh_compile_opt "''zenoh''"] inb
    by (auto simp: inbound_router_def split: if_splits)
  have route: "\<exists>topic pattern f names key ingest. parse_pattern topic = Inr pattern \<and> zenoh_compile_opt topic pattern = Some f
      \<and> r = route_pattern f names key ingest" if "r \<in> set (map fst inbound)" for r
  proof -
    have "r \<in> fst ` set inbound" using that by simp
    then obtain y where y: "y \<in> set inbound" "r = fst y" by blast
    then obtain x where "route_from_link zenoh_compile_opt db x y"
      using links by (metis list_all2_conv_all_nth in_set_conv_nth)
    then show ?thesis unfolding y(2) by (cases x; cases y) (auto simp: route_from_link_def, blast)
  qed
  show "\<forall>r \<in> set (map fst (zp_inbound parts)). zenoh.compiled r"
    using route unfolding parts zenoh.compiled_def by blast
  have filters: "map (native_filter keyexpr_new) (subscriptions zenoh_covers (map fst inbound)) = map Inr (zp_filters parts)"
    using subs by (simp add: native_subscriptions_def collect_results_Inr)
  have len: "length (subscriptions zenoh_covers (map fst inbound)) = length (zp_filters parts)"
    using arg_cong [OF filters, of length] by simp
  have nth: "native_filter keyexpr_new (subscriptions zenoh_covers (map fst inbound) ! i) = Inr (zp_filters parts ! i)"
    if "i < length (zp_filters parts)" for i
    using arg_cong [OF filters, of "\<lambda>xs. xs ! i"] that len by simp
  have free: "brace_free s" if "s \<in> set (subscriptions zenoh_covers (map fst inbound))" for s
  proof -
    have "s \<in> set (resource_ids (map fst inbound))"
      using that by (auto simp: subscriptions_def Let_def simp del: set_resource_ids)
    then have "s \<in> cr_filter ` set (map fst inbound)" by (simp only: set_resource_ids)
    then obtain r where r: "r \<in> set (map fst inbound)" "s = cr_filter r" by blast
    then obtain topic pattern f names key ingest where "parse_pattern topic = Inr pattern"
      "zenoh_compile_opt topic pattern = Some f" "r = route_pattern f names key ingest" using route by blast
    then show ?thesis
      using compiled_filter_brace_free [of topic pattern f] r(2)
      by (auto simp: zenoh_compile_opt_def route_pattern_def split: sum.splits)
  qed
  have key: "fst (zp_filters parts ! i) = subscriptions zenoh_covers (map fst inbound) ! i" if "i < length (zp_filters parts)" for i
    using nth [OF that] native_filter_matches(1) [of keyexpr_new _ "fst (zp_filters parts ! i)" "snd (zp_filters parts ! i)"]
      free len that by (auto simp: nth_mem)
  then show "map fst (zp_filters parts) = subscriptions zenoh_covers (map fst (zp_inbound parts))"
    unfolding parts by (intro nth_equalityI) (simp_all add: len)
  show "fst (tf_matches compiled topic spans) \<longleftrightarrow> zenoh_meaning f topic" if "(f, compiled) \<in> set (zp_filters parts)"
  proof -
    obtain i where i: "i < length (zp_filters parts)" "zp_filters parts ! i = (f, compiled)"
      using \<open>(f, compiled) \<in> set (zp_filters parts)\<close> by (auto simp: in_set_conv_nth)
    then have "native_filter keyexpr_new f = Inr (f, compiled)" "brace_free f"
      using nth [OF i(1)] key [OF i(1)] free len by (auto simp: nth_mem)
    then show ?thesis by (rule native_filter_matches(2))
  qed
qed

lemma distinct_subscriptions: "distinct (subscriptions covers rs)"
proof -
  have "inj_on (\<lambda>i. resource_ids rs ! i) (set (filter (\<lambda>i. \<not> redundant covers (resource_ids rs) i) [0..<length (resource_ids rs)]))"
    using distinct_resource_ids [of rs] by (auto simp: inj_on_def nth_eq_iff_index_eq)
  then show ?thesis by (simp add: subscriptions_def Let_def distinct_map)
qed

text \<open>
  The subscriber of the first declared filter a key is in dispatches; every other one defers to it.
\<close>

lemma first_subscriber_dispatches:
  fixes ss :: "('v, 'j, 'f) zenoh_session"
  assumes matches: "\<And>f compiled sp. (f, compiled) \<in> set ds \<Longrightarrow> fst (tf_matches compiled key sp) \<longleftrightarrow> zenoh_meaning f key"
    and ds: "distinct (map fst ds)" and hit: "distinct hit"
      "set hit = {sub \<in> set (map (subscriber_at [] ds) [0..<length ds]). zenoh_meaning (zs_key sub) key}"
    and any: "\<exists>d \<in> set ds. zenoh_meaning (fst d) key"
    and sample: "sm_kind sample = PutSample" "sm_key sample = key" "star_char \<notin> set key"
  shows "deliver_sample now inbound sample hit ss = ss\<lparr>ss_db := inbound_dispatch now inbound key (sm_payload sample) (ss_db ss)\<rparr>"
proof -
  define i where "i = (LEAST i. i < length ds \<and> zenoh_meaning (fst (ds ! i)) key)"
  have ex: "\<exists>i. i < length ds \<and> zenoh_meaning (fst (ds ! i)) key" using any by (metis in_set_conv_nth)
  have i: "i < length ds" "zenoh_meaning (fst (ds ! i)) key" using LeastI_ex [OF ex] by (simp_all add: i_def)
  have before: "\<not> zenoh_meaning (fst (ds ! j)) key" if "j < i" for j
    using not_less_Least [of j "\<lambda>i. i < length ds \<and> zenoh_meaning (fst (ds ! i)) key"] that i(1) by (simp add: i_def)
  have shadow: "shadowed (map snd (take n ds)) key no_spans \<longleftrightarrow> (\<exists>j < n. zenoh_meaning (fst (ds ! j)) key)" if n: "n \<le> length ds" for n
  proof -
    have "shadowed (map snd (take n ds)) key no_spans \<longleftrightarrow> (\<exists>f \<in> set (map snd (take n ds)). fst (tf_matches f key no_spans))"
    proof (rule shadowed_iff)
      fix f sp assume "f \<in> set (map snd (take n ds))"
      then obtain k where "(k, f) \<in> set ds" by (auto dest: in_set_takeD)
      then show "fst (tf_matches f key sp) = fst (tf_matches f key no_spans)" using matches by metis
    qed
    also have "\<dots> \<longleftrightarrow> (\<exists>d \<in> set (take n ds). zenoh_meaning (fst d) key)"
    proof -
      have "fst (tf_matches (snd d) key no_spans) \<longleftrightarrow> zenoh_meaning (fst d) key" if "d \<in> set (take n ds)" for d
        using matches [of "fst d" "snd d" no_spans] in_set_takeD [OF that] by simp
      then show ?thesis by auto
    qed
    also have "\<dots> \<longleftrightarrow> (\<exists>j < n. zenoh_meaning (fst (ds ! j)) key)"
      unfolding nth_image [OF n, symmetric] by auto
    finally show ?thesis .
  qed
  let ?g = "on_sample now inbound sample" and ?x = "subscriber_at [] ds i"
  have "?x \<in> set hit" using i by (auto simp: hit(2) subscriber_at_def)
  moreover have "?g y s = s" if "y \<in> set hit" "y \<noteq> ?x" for y and s :: "('v, 'j, 'f) zenoh_session"
  proof -
    obtain j where j: "j < length ds" "y = subscriber_at [] ds j" "zenoh_meaning (fst (ds ! j)) key"
      using \<open>y \<in> set hit\<close> by (auto simp: hit(2) subscriber_at_def)
    then have "i < j" using before [of j] \<open>y \<noteq> ?x\<close> by (cases "j < i"; cases "j = i") auto
    then have "shadowed (zs_shadows y) key no_spans"
      using shadow [of j] i j(1) by (auto simp: j(2) subscriber_at_def)
    then show ?thesis using sample by (simp add: on_sample_def)
  qed
  ultimately have "deliver_sample now inbound sample hit ss = ?g ?x ss"
    unfolding deliver_sample_def by (rule fold_once [OF hit(1)])
  moreover have "\<not> shadowed (zs_shadows ?x) key no_spans"
    using shadow [of i] i(1) before by (auto simp: subscriber_at_def)
  ultimately show ?thesis using sample by (simp add: on_sample_def)
qed

subsection \<open>Properties\<close>

text \<open>
  C15. A sample is ingested once: whatever the filters overlap in, when a value is put on a key
  without wildcards, the subscribers Zenoh hands it to (those whose expression means the key, in any
  order) together do exactly one dispatch of it, provided one of them could be declared; when all
  were declared and none is hit, no route is either, and the dispatch would have done nothing.
\<close>

theorem zenoh_sample_once:
  fixes db :: "('v, 'j, 'f) aimdb" and ss :: "('v, 'j, 'f) zenoh_session"
  assumes "db_ok db" and "zenoh_build keyexpr_new db = Some (Inr parts)"
    and "sm_kind sample = PutSample" and "star_char \<notin> set (sm_key sample)"
    and "distinct hit"
    and "set hit = {sub \<in> set (zenoh_subscribe declares (zp_filters parts)). zenoh_meaning (zs_key sub) (sm_key sample)}"
  shows "deliver_sample now (zp_inbound parts) sample hit ss =
    (if (\<exists>f \<in> fst ` set (zp_filters parts). declares f \<and> zenoh_meaning f (sm_key sample))
        \<or> (\<forall>f \<in> fst ` set (zp_filters parts). declares f)
     then ss\<lparr>ss_db := inbound_dispatch now (zp_inbound parts) (sm_key sample) (sm_payload sample) (ss_db ss)\<rparr>
     else ss)"
proof -
  note parts = zenoh_build_parts [OF assms(2,1)]
  let ?ds = "declared_filters declares (zp_filters parts)" and ?key = "sm_key sample"
  have subs: "zenoh_subscribe declares (zp_filters parts) = map (subscriber_at [] ?ds) [0..<length ?ds]"
    by (simp add: zenoh_subscribe_def subscribe_from_nth)
  show ?thesis
  proof (cases "\<exists>d \<in> set ?ds. zenoh_meaning (fst d) ?key")
    case True
    have "distinct (map fst ?ds)"
      using distinct_subscriptions [of zenoh_covers "map fst (zp_inbound parts)"] unfolding parts(2) [symmetric]
      by (simp add: declared_filters_def distinct_map_filter)
    moreover have "fst (tf_matches compiled ?key sp) \<longleftrightarrow> zenoh_meaning f ?key" if "(f, compiled) \<in> set ?ds" for f compiled sp
      using parts(3) that by (simp add: declared_filters_def)
    ultimately have "deliver_sample now (zp_inbound parts) sample hit ss
        = ss\<lparr>ss_db := inbound_dispatch now (zp_inbound parts) ?key (sm_payload sample) (ss_db ss)\<rparr>"
      using first_subscriber_dispatches [of ?ds ?key hit sample] assms(3-6) True subs by simp
    moreover obtain d where "d \<in> set (zp_filters parts)" "declares (fst d)" "zenoh_meaning (fst d) ?key"
      using True by (auto simp: declared_filters_def)
    then have "\<exists>f \<in> fst ` set (zp_filters parts). declares f \<and> zenoh_meaning f ?key" by blast
    ultimately show ?thesis by simp
  next
    case False
    have none: "\<not> zenoh_meaning (zs_key sub) ?key" if "sub \<in> set (zenoh_subscribe declares (zp_filters parts))" for sub
      using False that by (auto simp: subs subscriber_at_def)
    have "sub \<notin> set hit" for sub unfolding assms(6) using none by blast
    then have "hit = []" by (metis list.set_intros(1) neq_Nil_conv)
    then have idle: "deliver_sample now (zp_inbound parts) sample hit ss = ss" by (simp add: deliver_sample_def)
    have unhit: "\<not> (\<exists>f \<in> fst ` set (zp_filters parts). declares f \<and> zenoh_meaning f ?key)"
      using False by (auto simp: declared_filters_def)
    have "inbound_dispatch now (zp_inbound parts) ?key (sm_payload sample) (ss_db ss) = ss_db ss"
      if all: "\<forall>f \<in> fst ` set (zp_filters parts). declares f"
    proof (rule inbound_dispatch_none, rule ballI, rule notI)
      fix r assume "r \<in> set (map fst (zp_inbound parts))" "hits r ?key"
      then obtain s where "s \<in> set (subscriptions zenoh_covers (map fst (zp_inbound parts)))" "zenoh_meaning s ?key"
        using zenoh.matched_subscribed [OF parts(1)] by (auto simp: hits_def)
      then show False using unhit all by (metis parts(2) list.set_map)
    qed
    then show ?thesis using idle unhit by auto
  qed
qed

text \<open>
  A message goes out under exactly its topic with exactly its payload, or is counted as rejected:
  it is put when the topic is a key expression without wildcards that the wire format can carry,
  over the declared publisher or the session, and never otherwise.
\<close>

theorem zenoh_put_exact:
  assumes "zenoh_build keyexpr_new db = Some (Inr parts)" and "db_ok db"
    and "ri_id (om_route msg) < length (ob_routes (zp_outbound parts))"
    and "om_route msg = ob_routes (zp_outbound parts) ! ri_id (om_route msg)"
  shows "map_option (\<lambda>p. (put_key p, put_payload p))
      (fst (serve_message keyexpr_new (declare_publishers declares (zp_keys parts)) put_ok msg ob))
    = (let topic = bytes_str (om_topic msg) in
       if length topic \<le> key_max \<and> star_char \<notin> set topic \<and> keyexpr_new topic
       then Some (topic, into_vec (om_payload msg)) else None)"
proof -
  let ?i = "ri_id (om_route msg)"
  have "map Inr (zp_keys parts) = map (publisher_key keyexpr_new) (ob_routes (zp_outbound parts))"
    by (rule zenoh_build_parts(4) [OF assms(1,2)])
  then have len: "length (zp_keys parts) = length (ob_routes (zp_outbound parts))"
    and "publisher_key keyexpr_new (om_route msg) = Inr (zp_keys parts ! ?i)"
    using assms(3,4) by (metis length_map, metis length_map nth_map)
  then have key: "zp_keys parts ! ?i = bytes_str (ri_default_topic (om_route msg))" "length (zp_keys parts ! ?i) \<le> key_max"
    "star_char \<notin> set (zp_keys parts ! ?i)" "keyexpr_new (zp_keys parts ! ?i)"
    by (auto simp: publisher_key_def Let_def split: if_splits)
  have pub: "declare_publishers declares (zp_keys parts) ! ?i =
      (if declares (zp_keys parts ! ?i) then Some (zp_keys parts ! ?i) else None)"
    using assms(3) len by (simp add: declare_publishers_def)
  show ?thesis
  proof (cases "om_topic msg = ri_default_topic (om_route msg)")
    case True
    then show ?thesis using key pub by (simp add: serve_message_def choose_put_def written_key_def Let_def)
  next
    case False
    then show ?thesis by (auto simp: serve_message_def choose_put_def written_key_def Let_def split: option.splits)
  qed
qed

lemma native_filter_Inr:
  "length f \<le> key_max \<Longrightarrow> keyexpr_new f \<Longrightarrow> parse_pattern f = Inr pattern \<Longrightarrow> zenoh_chunks pattern = Inr cs
     \<Longrightarrow> native_filter keyexpr_new f = Inr (f, zenoh_filter_of cs)"
  by (simp add: native_filter_def zenoh_compile_def)

text \<open>Two overlapping inbound links, neither of which covers the other, and an outbound one.\<close>

definition zenoh_calls :: "(nat, nat, nat) builder_call list" where
  "zenoh_calls =
    [WithConnector \<lparr>cn_scheme = ''zenoh'', cn_owns = False, cn_id = 0\<rparr>, WithRuntime 0,
     Configure 1 ''r'' [CallBufferRaw (Mailbox None []),
       CallInput (with_deserializer (\<lambda>_. Inr 3) (inbound_link_new ''zenoh://a/*''))],
     Configure 1 ''s'' [CallBufferRaw (Mailbox None []),
       CallInput (with_deserializer (\<lambda>_. Inr 4) (inbound_link_new ''zenoh://*/b''))],
     Configure 1 ''o'' [CallSource 7, CallBufferRaw (Mailbox None []),
       CallOutput (with_serializer (\<lambda>_. Inr [5]) (outbound_link_new ''zenoh://out''))]]"

definition zenoh_demo_build :: "(nat, nat, nat) aimdb \<times> nat future list" where
  "zenoh_demo_build =
    (case build_db (\<lambda>_. Inl '''') (\<lambda>_ _. (Inr [], [])) (builder_run 0 zenoh_calls) of
       Some (Inr x) \<Rightarrow> x
     | _ \<Rightarrow> demo_build)"

definition zenoh_demo_db :: "(nat, nat, nat) aimdb" where
  "zenoh_demo_db = fst zenoh_demo_build"

lemma zenoh_demo_ok: "db_ok zenoh_demo_db"
proof -
  have "case build_db (\<lambda>_. Inl '''') (\<lambda>_ _. (Inr [], [])) (builder_run 0 zenoh_calls) of Some (Inr x) \<Rightarrow> True | _ \<Rightarrow> False"
    by code_simp
  then have "build_db (\<lambda>_. Inl '''') (\<lambda>_ _. (Inr [], [])) (builder_run 0 zenoh_calls) = Some (Inr (zenoh_demo_db, snd zenoh_demo_build))"
    by (auto simp: zenoh_demo_db_def zenoh_demo_build_def split: option.splits sum.splits)
  moreover have "length (bd_records (builder_run 0 zenoh_calls)) = 3" by code_simp
  then have "length (bd_records (builder_run 0 zenoh_calls)) < 2 ^ 32" by simp
  ultimately show ?thesis using running_ok [of 0 zenoh_calls _ _ _ _ undefined "[]"] by (simp add: db_run_def)
qed

definition zenoh_demo_inbound :: "nat inbound_router" where
  "zenoh_demo_inbound = (case inbound_router zenoh_compile_opt ''zenoh'' zenoh_demo_db of Some (Inr rs) \<Rightarrow> rs | _ \<Rightarrow> [])"

definition zenoh_demo_filters :: "(string \<times> topic_filter) list" where
  "zenoh_demo_filters =
     [(''*/b'', zenoh_filter_of [ChSingle None, ChLiteral ''b'']), (''a/*'', zenoh_filter_of [ChLiteral ''a'', ChSingle None])]"

definition zenoh_demo_parts :: "nat zenoh_parts" where
  "zenoh_demo_parts =
    \<lparr>zp_inbound = zenoh_demo_inbound, zp_filters = zenoh_demo_filters,
     zp_outbound = outbound_for ''zenoh'' zenoh_demo_db, zp_keys = [''out'']\<rparr>"

lemma zenoh_demo_built: "zenoh_build (\<lambda>_. True) zenoh_demo_db = Some (Inr zenoh_demo_parts)"
proof -
  have "case inbound_router zenoh_compile_opt ''zenoh'' zenoh_demo_db of Some (Inr rs) \<Rightarrow> True | _ \<Rightarrow> False" by code_simp
  then have inbound: "inbound_router zenoh_compile_opt ''zenoh'' zenoh_demo_db = Some (Inr zenoh_demo_inbound)"
    by (auto simp: zenoh_demo_inbound_def split: option.splits sum.splits)
  have routes: "map cr_filter (map fst zenoh_demo_inbound) = [''a/*'', ''*/b'']" by code_simp
  have "remdups_adj (sort [''a/*'', ''*/b'']) = [''*/b'', ''a/*'']" by code_simp
  then have ids: "resource_ids (map fst zenoh_demo_inbound) = [''*/b'', ''a/*'']"
    unfolding resource_ids_def routes .
  have covers: "\<not> zenoh_covers ''a/*'' ''*/b''" "\<not> zenoh_covers ''*/b'' ''a/*''" by code_simp+
  have upt: "[0..<length [''*/b'', ''a/*'']] = [0, 1]" by (simp add: upt_rec)
  have subs: "subscriptions zenoh_covers (map fst zenoh_demo_inbound) = [''*/b'', ''a/*'']"
    unfolding subscriptions_def ids Let_def redundant_def upt using covers by simp
  have patterns: "parse_pattern ''*/b'' = Inr [Text ''*/b'']" "parse_pattern ''a/*'' = Inr [Text ''a/*'']"
    by (simp_all add: parse_pattern_def parse_loop_text is_brace_def)
  have chunks: "zenoh_chunks [Text ''*/b''] = Inr [ChSingle None, ChLiteral ''b'']"
    "zenoh_chunks [Text ''a/*''] = Inr [ChLiteral ''a'', ChSingle None]"
    by (simp_all add: zenoh_chunks_text parse_filter_def classify_def)
  have filters: "native_filter (\<lambda>_. True) ''*/b'' = Inr (''*/b'', zenoh_filter_of [ChSingle None, ChLiteral ''b''])"
    "native_filter (\<lambda>_. True) ''a/*'' = Inr (''a/*'', zenoh_filter_of [ChLiteral ''a'', ChSingle None])"
    by (rule native_filter_Inr [OF _ _ patterns(1) chunks(1)] native_filter_Inr [OF _ _ patterns(2) chunks(2)];
      simp add: key_max_def)+
  have "map ri_default_topic (ob_routes (outbound_for ''zenoh'' zenoh_demo_db)) = [str_bytes ''out'']" by code_simp
  then obtain info where "ob_routes (outbound_for ''zenoh'' zenoh_demo_db) = [info]" "ri_default_topic info = str_bytes ''out''"
    by auto
  then have "map (publisher_key (\<lambda>_. True)) (ob_routes (outbound_for ''zenoh'' zenoh_demo_db)) = [Inr ''out'']"
    by (simp add: publisher_key_def bytes_str_str_bytes key_max_def)
  then show ?thesis
    by (simp add: zenoh_build_def inbound native_subscriptions_def subs filters zenoh_demo_parts_def zenoh_demo_filters_def)
qed

theorem zenoh_sample_once_witness:
  "deliver_sample (\<lambda>_. 7) zenoh_demo_inbound \<lparr>sm_key = ''a/b'', sm_kind = PutSample, sm_payload = [1]\<rparr>
     (rev (zenoh_subscribe (\<lambda>_. True) zenoh_demo_filters)) \<lparr>ss_warned = False, ss_db = zenoh_demo_db\<rparr>
   = \<lparr>ss_warned = False, ss_db = inbound_dispatch (\<lambda>_. 7) zenoh_demo_inbound ''a/b'' [1] zenoh_demo_db\<rparr>"
proof -
  let ?sample = "\<lparr>sm_key = ''a/b'', sm_kind = PutSample, sm_payload = [1]\<rparr>"
  let ?hit = "rev (zenoh_subscribe (\<lambda>_. True) zenoh_demo_filters)"
  have meaning: "zenoh_meaning ''a/*'' ''a/b''" "zenoh_meaning ''*/b'' ''a/b''"
    by (simp_all add: zenoh_meaning_def parse_filter_def classify_def key_chunks_def key_sem_single is_multi_def chunk_sem_def
        verbatim_def starts_with_def)
  then have all: "set ?hit = {sub \<in> set (zenoh_subscribe (\<lambda>_. True) (zp_filters zenoh_demo_parts)). zenoh_meaning (zs_key sub) (sm_key ?sample)}"
    by (auto simp: zenoh_demo_parts_def zenoh_demo_filters_def zenoh_subscribe_def)
  have "distinct ?hit" by (simp add: zenoh_demo_filters_def zenoh_subscribe_def)
  moreover have "sm_kind ?sample = PutSample" "star_char \<notin> set (sm_key ?sample)" by simp_all
  ultimately show ?thesis
    using zenoh_sample_once [OF zenoh_demo_ok zenoh_demo_built _ _ _ all] by (simp add: zenoh_demo_parts_def)
qed

theorem zenoh_put_exact_witness:
  "map_option (\<lambda>p. (put_key p, put_payload p))
     (fst (serve_message (\<lambda>_. True) (declare_publishers (\<lambda>_. True) (zp_keys zenoh_demo_parts)) (\<lambda>_. True)
        \<lparr>om_route = ob_routes (zp_outbound zenoh_demo_parts) ! 0, om_topic = str_bytes ''x/1'', om_payload = Owned [5], om_metadata = ()\<rparr>
        (outbound_new [] [] [] :: (nat, unit) outbound_routes)))
   = Some (''x/1'', [5])"
proof -
  have "ri_id (ob_routes (zp_outbound zenoh_demo_parts) ! 0) = 0" "0 < length (ob_routes (zp_outbound zenoh_demo_parts))"
    by code_simp+
  then show ?thesis
    by (subst zenoh_put_exact [OF zenoh_demo_built zenoh_demo_ok]) (simp_all add: key_max_def bytes_str_str_bytes)
qed

end
