(* ===== verification/Ros2_Names.thy ===== *)
theory Ros2_Names
  imports Topic_Pattern Session_Messages
begin

text \<open>
  The conventions of rmw_zenoh that \<open>aimdb-zenoh-connector/src/profile/\<close> keeps (name rules, data keys,
  liveliness tokens, the QoS field, GIDs and the publication attachment) and the ROS type names of
  \<open>aimdb-data-contracts/src/ros_message.rs\<close>.  The XXH3 hash behind a GID is a parameter; the signed sequence number and time of
  an attachment are kept as their 64 bits.
\<close>

subsection \<open>Names\<close>

definition topic_max :: nat where "topic_max = 247"
definition namespace_max :: nat where "namespace_max = 245"
definition node_name_max :: nat where "node_name_max = 255"

datatype name_error =
    NameEmpty
  | NotAbsolute
  | EndsWithSlash
  | NameCharacters
  | RepeatedSlash
  | StartsWithDigit
  | TooLong nat

abbreviation slash_char :: char where "slash_char \<equiv> CHR ''/''"
abbreviation percent_char :: char where "percent_char \<equiv> CHR ''%''"

definition digit_char :: "char \<Rightarrow> bool" where
  "digit_char c \<longleftrightarrow> c \<in> set ''0123456789''"

definition lower_char :: "char \<Rightarrow> bool" where
  "lower_char c \<longleftrightarrow> c \<in> set ''abcdefghijklmnopqrstuvwxyz''"

definition upper_char :: "char \<Rightarrow> bool" where
  "upper_char c \<longleftrightarrow> c \<in> set ''ABCDEFGHIJKLMNOPQRSTUVWXYZ''"

definition absolute :: "string \<Rightarrow> nat \<Rightarrow> name_error + unit" where
  "absolute name limit =
     (if name = [] then Inl NameEmpty
      else if \<not> starts_with ''/'' name then Inl NotAbsolute
      else if last name = slash_char then Inl EndsWithSlash
      else if \<not> list_all (\<lambda>c. name_char c \<or> c = slash_char) name then Inl NameCharacters
      else if find_sub ''//'' name \<noteq> None then Inl RepeatedSlash
      else if list_ex (\<lambda>p. p \<noteq> [] \<and> digit_char (hd p)) (split_on slash_char (tl name)) then Inl StartsWithDigit
      else if limit < length name then Inl (TooLong limit)
      else Inr ())"

definition validate_topic :: "string \<Rightarrow> name_error + unit" where
  "validate_topic name = absolute name topic_max"

definition validate_namespace :: "string \<Rightarrow> name_error + unit" where
  "validate_namespace name = (if name = ''/'' then Inr () else absolute name namespace_max)"

definition validate_node_name :: "string \<Rightarrow> name_error + unit" where
  "validate_node_name name =
     (if name = [] then Inl NameEmpty
      else if \<not> list_all name_char name then Inl NameCharacters
      else if digit_char (hd name) then Inl StartsWithDigit
      else if node_name_max < length name then Inl (TooLong node_name_max)
      else Inr ())"

subsection \<open>Keys and tokens\<close>

record ros2_identity =
  nd_domain :: u32
  nd_zid :: string
  nd_id :: u32
  nd_enclave :: string
  nd_namespace :: string
  nd_name :: string

datatype entity_kind = Publisher | Subscription

definition mangle :: "string \<Rightarrow> string" where
  "mangle name = (if name = [] then ''%'' else join_with ''%'' (split_on slash_char name))"

definition trim_slashes :: "string \<Rightarrow> string" where
  "trim_slashes s =
     rev (dropWhile (\<lambda>c. c = slash_char) (rev (dropWhile (\<lambda>c. c = slash_char) s)))"

definition data_key :: "u32 \<Rightarrow> string \<Rightarrow> string \<Rightarrow> string \<Rightarrow> string" where
  "data_key domain topic type_name type_hash =
     decimal (unat domain) @ ''/'' @ trim_slashes topic @ ''/'' @ type_name @ ''/'' @ type_hash"

definition node_token :: "ros2_identity \<Rightarrow> string" where
  "node_token n =
     ''@ros2_lv/'' @ decimal (unat (nd_domain n)) @ ''/'' @ nd_zid n @ ''/'' @ decimal (unat (nd_id n)) @ ''/''
     @ decimal (unat (nd_id n)) @ ''/NN/'' @ mangle (nd_enclave n) @ ''/'' @ mangle (nd_namespace n) @ ''/'' @ nd_name n"

subsection \<open>QoS\<close>

datatype reliability = Reliable | BestEffort
datatype durability = Volatile | TransientLocal
datatype history = KeepLast | KeepAll

record qos =
  q_reliability :: reliability
  q_durability :: durability
  q_history :: history
  q_depth :: u32

definition rmw_default_depth :: u32 where "rmw_default_depth = 42"

definition qos_default :: qos where
  "qos_default = \<lparr>q_reliability = Reliable, q_durability = Volatile, q_history = KeepLast, q_depth = 10\<rparr>"

definition reliability_str :: "reliability \<Rightarrow> string" where
  "reliability_str r = (case r of Reliable \<Rightarrow> ''reliable'' | BestEffort \<Rightarrow> ''best_effort'')"

definition reliability_parse :: "string \<Rightarrow> reliability option" where
  "reliability_parse s =
     (if s = ''reliable'' then Some Reliable else if s = ''best_effort'' then Some BestEffort else None)"

definition qos_encode :: "qos \<Rightarrow> string" where
  "qos_encode q =
     (case q_reliability q of Reliable \<Rightarrow> [] | BestEffort \<Rightarrow> ''2'') @ '':'' @
     (case q_durability q of Volatile \<Rightarrow> [] | TransientLocal \<Rightarrow> ''1'') @ '':'' @
     (case q_history q of KeepLast \<Rightarrow> [] | KeepAll \<Rightarrow> ''2'') @ '','' @
     (if q_depth q \<noteq> rmw_default_depth then decimal (unat (q_depth q)) else []) @ '':,:,:,,''"

definition entity_token ::
  "ros2_identity \<Rightarrow> u32 \<Rightarrow> entity_kind \<Rightarrow> string \<Rightarrow> string \<Rightarrow> string \<Rightarrow> qos \<Rightarrow> string" where
  "entity_token n entity_id kind topic type_name type_hash q =
     ''@ros2_lv/'' @ decimal (unat (nd_domain n)) @ ''/'' @ nd_zid n @ ''/'' @ decimal (unat (nd_id n)) @ ''/''
     @ decimal (unat entity_id) @ ''/'' @ (case kind of Publisher \<Rightarrow> ''MP'' | Subscription \<Rightarrow> ''MS'') @ ''/''
     @ mangle (nd_enclave n) @ ''/'' @ mangle (nd_namespace n) @ ''/'' @ nd_name n @ ''/''
     @ mangle topic @ ''/'' @ type_name @ ''/'' @ type_hash @ ''/'' @ qos_encode q"

subsection \<open>The attachment and the GID\<close>

record attachment =
  at_sequence :: u64
  at_timestamp :: u64
  at_gid :: bytes

definition attachment_len :: nat where "attachment_len = 33"

definition attachment_encode :: "attachment \<Rightarrow> bytes" where
  "attachment_encode a = le_bytes 8 (unat (at_sequence a)) @ le_bytes 8 (unat (at_timestamp a)) @ [16] @ at_gid a"

definition attachment_decode :: "bytes \<Rightarrow> attachment option" where
  "attachment_decode bs =
     (if length bs \<noteq> attachment_len then None
      else if bs ! 16 \<noteq> 16 then None
      else Some \<lparr>at_sequence = of_nat (of_le_bytes (take 8 bs)),
                 at_timestamp = of_nat (of_le_bytes (take 8 (drop 8 bs))),
                 at_gid = drop 17 bs\<rparr>)"

definition gid_of :: "(string \<Rightarrow> 128 word) \<Rightarrow> string \<Rightarrow> bytes" where
  "gid_of xxh3 token =
     le_bytes 8 (unat (ucast (xxh3 token) :: u64)) @ le_bytes 8 (unat (ucast (drop_bit 64 (xxh3 token)) :: u64))"

subsection \<open>Type names\<close>

datatype ros_name_error = TypeShape | TypePackage | TypeMessage | TypeHash

definition dds_infix :: string where "dds_infix = ''::msg::dds_::''"
definition hash_prefix :: string where "hash_prefix = ''RIHS01_''"

definition check_package :: "string \<Rightarrow> ros_name_error + unit" where
  "check_package p =
     (if p \<noteq> [] \<and> lower_char (hd p) \<and> last p \<noteq> CHR ''_'' \<and> find_sub ''__'' p = None
         \<and> list_all (\<lambda>c. lower_char c \<or> digit_char c \<or> c = CHR ''_'') p
      then Inr () else Inl TypePackage)"

definition check_message :: "string \<Rightarrow> ros_name_error + unit" where
  "check_message m =
     (if m \<noteq> [] \<and> upper_char (hd m) \<and> list_all (\<lambda>c. lower_char c \<or> upper_char c \<or> digit_char c) m
      then Inr () else Inl TypeMessage)"

definition dds_type_name :: "string \<Rightarrow> ros_name_error + string" where
  "dds_type_name ros_type =
     (case split_on slash_char ros_type of
        [package, kind, message] \<Rightarrow>
          if kind \<noteq> ''msg'' then Inl TypeShape
          else (case check_package package of
                  Inl e \<Rightarrow> Inl e
                | Inr _ \<Rightarrow>
                    (case check_message message of
                       Inl e \<Rightarrow> Inl e
                     | Inr _ \<Rightarrow> Inr (package @ dds_infix @ message @ ''_'')))
      | _ \<Rightarrow> Inl TypeShape)"

definition validate_dds_type_name :: "string \<Rightarrow> ros_name_error + unit" where
  "validate_dds_type_name name =
     (case split_once dds_infix name of
        None \<Rightarrow> Inl TypeShape
      | Some (package, rest) \<Rightarrow>
          (case strip_suffix ''_'' rest of
             None \<Rightarrow> Inl TypeShape
           | Some message \<Rightarrow>
               (case check_package package of Inl e \<Rightarrow> Inl e | Inr _ \<Rightarrow> check_message message)))"

definition validate_type_hash :: "string \<Rightarrow> ros_name_error + unit" where
  "validate_type_hash hash =
     (case strip_prefix hash_prefix hash of
        None \<Rightarrow> Inl TypeHash
      | Some digits \<Rightarrow>
          if length digits = 64 \<and> list_all (\<lambda>c. digit_char c \<or> c \<in> set ''abcdef'') digits then Inr () else Inl TypeHash)"

subsection \<open>Lemmas on names\<close>

lemma join_concat: "ps \<noteq> [] \<Longrightarrow> c # join_with [c] ps = concat (map ((#) c) ps)"
proof (induction ps)
  case (Cons p ps)
  then show ?case by (cases "ps = []") (simp_all add: join_with_Cons)
qed simp

lemma concat_split_on: "c # xs = concat (map ((#) c) (split_on c xs))"
  using join_concat [of "split_on c xs" c] by (simp add: join_split_on)

lemma empty_piece:
  "[] \<in> set (split_on c xs) \<longleftrightarrow> last (c # xs) = c \<or> (\<exists>a b. c # xs = a @ [c, c] @ b)"
proof
  assume "[] \<in> set (split_on c xs)"
  then obtain ps qs where s: "split_on c xs = ps @ [] # qs" by (meson split_list)
  then have xs: "c # xs = concat (map ((#) c) ps) @ c # concat (map ((#) c) qs)"
    using concat_split_on [of c xs] by simp
  show "last (c # xs) = c \<or> (\<exists>a b. c # xs = a @ [c, c] @ b)"
  proof (cases qs)
    case Nil
    then show ?thesis unfolding xs by simp
  next
    case (Cons q qs')
    then show ?thesis unfolding xs by (intro disjI2 exI) auto
  qed
next
  assume "last (c # xs) = c \<or> (\<exists>a b. c # xs = a @ [c, c] @ b)"
  then show "[] \<in> set (split_on c xs)"
  proof
    assume l: "last (c # xs) = c"
    show ?thesis
    proof (cases xs rule: rev_cases)
      case (snoc ys y)
      then show ?thesis using l split_on_append_sep [of c ys "[]"] by simp
    qed simp
  next
    assume "\<exists>a b. c # xs = a @ [c, c] @ b"
    then obtain a b where ab: "c # xs = a @ [c, c] @ b" by blast
    show ?thesis
    proof (cases a)
      case Nil
      then show ?thesis using ab by simp
    next
      case (Cons x a')
      then have "xs = a' @ c # c # b" using ab by simp
      then show ?thesis using split_on_append_sep [of c a' "c # b"] by simp
    qed
  qed
qed

lemma find_sub_None: "find_sub s xs = None \<longleftrightarrow> (\<forall>a b. xs \<noteq> a @ s @ b)"
proof (induction xs)
  case Nil
  then show ?case by (subst find_sub.simps) (auto simp: starts_with_iff)
next
  case (Cons x xs)
  have "(\<forall>a b. x # xs \<noteq> a @ s @ b) \<longleftrightarrow> (\<forall>b. x # xs \<noteq> s @ b) \<and> (\<forall>a b. xs \<noteq> a @ s @ b)"
    by (auto simp: Cons_eq_append_conv)
  then show ?case using Cons by (subst find_sub.simps) (auto simp: starts_with_iff)
qed

lemma name_char_not: "\<not> name_char slash_char" "\<not> name_char percent_char"
  by (simp_all add: name_char_def)

definition part_ok :: "string \<Rightarrow> bool" where
  "part_ok p \<longleftrightarrow> p \<noteq> [] \<and> list_all name_char p \<and> \<not> digit_char (hd p)"

text \<open>A valid name is a sequence of nonempty parts, each after a slash.\<close>

lemma absolute_iff:
  "absolute name limit = Inr () \<longleftrightarrow>
     (\<exists>ps. ps \<noteq> [] \<and> list_all part_ok ps \<and> name = slash_char # join_with [slash_char] ps \<and> length name \<le> limit)"
proof
  assume ok: "absolute name limit = Inr ()"
  then obtain xs where xs: "name = slash_char # xs"
    by (cases name) (auto simp: absolute_def starts_with_def split: if_splits)
  let ?ps = "split_on slash_char xs"
  have "last name \<noteq> slash_char" "find_sub ''//'' name = None"
    using ok by (auto simp: absolute_def split: if_splits)
  then have "[] \<notin> set ?ps" unfolding empty_piece using xs by (auto simp: find_sub_None)
  then have ne: "p \<noteq> []" if "p \<in> set ?ps" for p using that by metis
  have chars: "list_all (\<lambda>c. name_char c \<or> c = slash_char) xs" and len: "length name \<le> limit"
    and digit: "\<not> list_ex (\<lambda>p. p \<noteq> [] \<and> digit_char (hd p)) ?ps"
    using ok xs by (auto simp: absolute_def split: if_splits)
  have "part_ok p" if p: "p \<in> set ?ps" for p
  proof -
    have "q \<in> set ps \<Longrightarrow> set q \<subseteq> set (join_with [slash_char] ps)" for q ps
      by (induction "[slash_char]" ps rule: join_with.induct) auto
    from this [OF p] have "set p \<subseteq> set xs" by (simp only: join_split_on)
    then have "list_all name_char p" using chars split_on_no_sep [OF p] by (auto simp: list_all_iff)
    moreover have "\<not> digit_char (hd p)" using digit ne [OF p] p by (auto simp: list_ex_iff)
    ultimately show ?thesis using ne [OF p] by (simp add: part_ok_def)
  qed
  then have "list_all part_ok ?ps" by (simp add: list_all_iff)
  then show "\<exists>ps. ps \<noteq> [] \<and> list_all part_ok ps \<and> name = slash_char # join_with [slash_char] ps \<and> length name \<le> limit"
    using xs len by (intro exI [of _ ?ps]) (simp add: join_split_on)
next
  assume "\<exists>ps. ps \<noteq> [] \<and> list_all part_ok ps \<and> name = slash_char # join_with [slash_char] ps \<and> length name \<le> limit"
  then obtain ps where ps: "ps \<noteq> []" "list_all part_ok ps" "name = slash_char # join_with [slash_char] ps" "length name \<le> limit"
    by blast
  have free: "slash_char \<notin> set p" if "p \<in> set ps" for p
    using ps(2) that name_char_not(1) by (auto simp: list_all_iff part_ok_def)
  have split: "split_on slash_char (tl name) = ps" using split_on_join [OF ps(1)] free by (simp add: ps(3))
  have "[] \<notin> set ps" using ps(2) by (auto simp: list_all_iff part_ok_def)
  then have "last name \<noteq> slash_char" "find_sub ''//'' name = None"
    using empty_piece [of slash_char "tl name"] split by (auto simp: ps(3) find_sub_None)
  moreover have "set (join_with [slash_char] qs) \<subseteq> insert slash_char (\<Union> (set ` set qs))" for qs
    by (induction "[slash_char]" qs rule: join_with.induct) auto
  then have "list_all (\<lambda>c. name_char c \<or> c = slash_char) name"
    using ps(2) unfolding ps(3) by (fastforce simp: list_all_iff part_ok_def)
  moreover have "\<not> list_ex (\<lambda>p. p \<noteq> [] \<and> digit_char (hd p)) ps"
    using ps(2) by (auto simp: list_ex_iff list_all_iff part_ok_def)
  ultimately show "absolute name limit = Inr ()"
    using ps(3,4) split by (simp add: absolute_def starts_with_def)
qed

lemma absolute_chars: "absolute name limit = Inr () \<Longrightarrow> c \<in> set name \<Longrightarrow> name_char c \<or> c = slash_char"
  by (auto simp: absolute_def list_all_iff split: if_splits)

subsection \<open>The attachment\<close>

lemma le_bytes_of_le_bytes: "le_bytes (length bs) (of_le_bytes bs) = bs"
proof (induction bs)
  case (Cons b bs)
  have "unat b < 256" using unat_bound [of b] by simp
  then have "(unat b + 256 * of_le_bytes bs) mod 256 = unat b" "(unat b + 256 * of_le_bytes bs) div 256 = of_le_bytes bs"
    by simp_all
  then show ?case using Cons by simp
qed simp

lemma le_bytes_inverse: "length bs = n \<Longrightarrow> le_bytes n (of_le_bytes bs) = bs"
  using le_bytes_of_le_bytes by blast

lemma word64_le_bytes: "(of_nat (of_le_bytes (le_bytes 8 (unat w))) :: u64) = w"
proof -
  have "unat w < 256 ^ 8" using unat_bound [of w] by simp
  then show ?thesis by (simp add: of_le_bytes_le_bytes)
qed

lemma unat_of_le_bytes: "length bs = 8 \<Longrightarrow> unat (of_nat (of_le_bytes bs) :: u64) = of_le_bytes bs"
  using of_le_bytes_bound [of bs] by (simp add: unat_of_nat)

text \<open>
  The attachment is read back exactly: decoding accepts the encodings of attachments with a 16-byte
  GID and nothing else, and returns the attachment that was encoded.
\<close>

theorem attachment_exact:
  "attachment_decode bs = Some a \<longleftrightarrow> length (at_gid a) = 16 \<and> bs = attachment_encode a"
proof
  assume "attachment_decode bs = Some a"
  then have len: "length bs = 33" and tag: "bs ! 16 = 16"
    and a: "a = \<lparr>at_sequence = of_nat (of_le_bytes (take 8 bs)), at_timestamp = of_nat (of_le_bytes (take 8 (drop 8 bs))), at_gid = drop 17 bs\<rparr>"
    by (auto simp: attachment_decode_def attachment_len_def split: if_splits)
  have "drop 16 bs = 16 # drop 17 bs" using Cons_nth_drop_Suc [of 16 bs] len tag by simp
  moreover have "take 8 bs @ take 8 (drop 8 bs) @ drop 16 bs = bs"
    using append_take_drop_id [of 8 "drop 8 bs"] by (simp add: add.commute)
  ultimately have bs: "take 8 bs @ take 8 (drop 8 bs) @ [16] @ drop 17 bs = bs" by simp
  have "attachment_encode a = take 8 bs @ take 8 (drop 8 bs) @ [16] @ drop 17 bs"
    using len by (simp add: attachment_encode_def a unat_of_le_bytes le_bytes_inverse)
  then show "length (at_gid a) = 16 \<and> bs = attachment_encode a" using len bs by (simp add: a)
next
  assume e: "length (at_gid a) = 16 \<and> bs = attachment_encode a"
  then show "attachment_decode bs = Some a"
    by (simp add: attachment_decode_def attachment_encode_def attachment_len_def nth_append word64_le_bytes)
qed

subsection \<open>Tokens\<close>

lemma map_subst: "join_with [d] (split_on c xs) = map (\<lambda>x. if x = c then d else x) xs"
proof (induction xs)
  case (Cons x xs)
  then show ?case by (cases "split_on c xs"; cases "tl (split_on c xs)") (auto simp: join_with_Cons)
qed simp

lemma mangle_map: "name \<noteq> [] \<Longrightarrow> mangle name = map (\<lambda>c. if c = slash_char then percent_char else c) name"
  by (simp add: mangle_def map_subst)

lemma mangle_no_slash: "slash_char \<notin> set (mangle name)"
  by (cases "name = []") (auto simp: mangle_map, simp add: mangle_def)

lemma mangle_inject:
  assumes "a \<noteq> []" and "b \<noteq> []" and "percent_char \<notin> set a" and "percent_char \<notin> set b" and "mangle a = mangle b"
  shows "a = b"
proof -
  let ?from_back = "\<lambda>c. if c = percent_char then slash_char else c"
  have "map ?from_back (mangle s) = s" if "s \<noteq> []" "percent_char \<notin> set s" for s
    using that by (auto simp: mangle_map comp_def intro!: map_idI)
  then show ?thesis using assms by metis
qed

lemma decimal_digits: "c \<in> set (decimal n) \<Longrightarrow> digit_char c"
proof (induction n rule: decimal.induct)
  case (1 n)
  have "digit_char (digit (n mod 10))" for n
    using nth_mem [of "n mod 10" "''0123456789''"] by (simp add: digit_def digit_char_def del: set_simps)
  from this [of n] show ?case using 1 by (subst (asm) (2) decimal.simps) (auto split: if_splits)
qed

lemma decimal_no_slash: "slash_char \<notin> set (decimal n)"
  using decimal_digits by (force simp: digit_char_def)

lemma qos_no_slash: "slash_char \<notin> set (qos_encode q)"
  using decimal_no_slash by (simp add: qos_encode_def split: reliability.split durability.split history.split)

lemma qos_inject: "qos_encode q = qos_encode q' \<Longrightarrow> q = q'"
proof -
  assume eq: "qos_encode q = qos_encode q'"
  define depth where "depth q = (if q_depth q \<noteq> rmw_default_depth then decimal (unat (q_depth q)) else [])" for q :: qos
  have "q_reliability q = q_reliability q' \<and> q_durability q = q_durability q' \<and> q_history q = q_history q'
      \<and> depth q = depth q'"
    using eq unfolding qos_encode_def depth_def [symmetric]
    by (simp split: reliability.splits durability.splits history.splits)
  moreover from this have "q_depth q = q_depth q'"
    by (auto simp: depth_def decimal_inject word_unat_eq_iff split: if_splits)
  ultimately show "q = q'" by (cases q; cases q') simp
qed

lemma node_name_ok: "validate_node_name name = Inr () \<Longrightarrow> slash_char \<notin> set name"
  using name_char_not(1) by (auto simp: validate_node_name_def list_all_iff split: if_splits)

lemma absolute_mangles: "absolute name limit = Inr () \<Longrightarrow> name \<noteq> [] \<and> percent_char \<notin> set name"
  using absolute_chars [of name limit percent_char] name_char_not(2) by (auto simp: absolute_def)

lemma namespace_mangles: "validate_namespace name = Inr () \<Longrightarrow> name \<noteq> [] \<and> percent_char \<notin> set name"
  using absolute_mangles by (auto simp: validate_namespace_def split: if_splits)

lemma check_package_chars:
  assumes "check_package p = Inr ()"
  shows "slash_char \<notin> set p" and "CHR '':'' \<notin> set p"
proof -
  have "list_all (\<lambda>c. lower_char c \<or> digit_char c \<or> c = CHR ''_'') p"
    using assms by (simp add: check_package_def split: if_splits)
  moreover have "\<not> lower_char slash_char" "\<not> digit_char slash_char" "\<not> lower_char CHR '':''" "\<not> digit_char CHR '':''"
    by (simp_all add: lower_char_def digit_char_def)
  ultimately show "slash_char \<notin> set p" and "CHR '':'' \<notin> set p" by (auto simp: list_all_iff)
qed

lemma check_message_chars: "check_message m = Inr () \<Longrightarrow> slash_char \<notin> set m"
proof -
  assume "check_message m = Inr ()"
  then have "list_all (\<lambda>c. lower_char c \<or> upper_char c \<or> digit_char c) m"
    by (simp add: check_message_def split: if_splits)
  moreover have "\<not> lower_char slash_char" "\<not> digit_char slash_char" "\<not> upper_char slash_char"
    by (simp_all add: lower_char_def digit_char_def upper_char_def)
  ultimately show ?thesis by (auto simp: list_all_iff)
qed

lemma split_once_Some: "split_once s xs = Some (a, b) \<Longrightarrow> xs = a @ s @ b"
proof -
  assume "split_once s xs = Some (a, b)"
  then obtain i where i: "find_sub s xs = Some i" "a = take i xs" "b = drop (i + length s) xs"
    by (auto simp: split_once_def split: option.splits)
  have "\<exists>r. xs = take i xs @ s @ r \<and> i + length s \<le> length xs"
    using i(1)
  proof (induction xs arbitrary: i)
    case Nil
    then show ?case by (subst (asm) find_sub.simps) (auto simp: starts_with_iff split: if_splits)
  next
    case (Cons x xs)
    show ?case
    proof (cases "starts_with s (x # xs)")
      case True
      then have "i = 0" using Cons.prems by (subst (asm) find_sub.simps) simp
      moreover obtain r where r: "x # xs = s @ r" using True by (auto simp: starts_with_iff)
      moreover have "length s \<le> length (x # xs)" unfolding r by simp
      ultimately show ?thesis by auto
    next
      case False
      then obtain j where "find_sub s xs = Some j" "i = Suc j" using Cons.prems by (subst (asm) find_sub.simps) auto
      then show ?thesis using Cons.IH by fastforce
    qed
  qed
  then obtain r where r: "xs = take i xs @ s @ r" "i + length s \<le> length xs" by blast
  have "b = r" unfolding i(3) by (subst r(1)) (use r(2) in simp)
  then show "xs = a @ s @ b" using r(1) i(2) by simp
qed

lemma split_once_first: "c \<notin> set a \<Longrightarrow> split_once (c # s) (a @ (c # s) @ b) = Some (a, b)"
proof -
  assume "c \<notin> set a"
  then have "find_sub (c # s) (a @ (c # s) @ b) = Some (length a)"
  proof (induction a)
    case Nil
    then show ?case by (subst find_sub.simps) (simp add: starts_with_def)
  next
    case (Cons x a)
    then have "\<not> starts_with (c # s) ((x # a) @ (c # s) @ b)" by (auto simp: starts_with_def)
    then show ?case using Cons by (subst find_sub.simps) simp
  qed
  then show ?thesis by (simp add: split_once_def)
qed

text \<open>
  A DDS type name is accepted exactly when it is the one some ROS message type \<open>pkg/msg/Name\<close> has.
\<close>

theorem dds_names_exact:
  "validate_dds_type_name name = Inr () \<longleftrightarrow> (\<exists>ros_type. dds_type_name ros_type = Inr name)"
proof
  assume "validate_dds_type_name name = Inr ()"
  then obtain package rest message where s: "split_once dds_infix name = Some (package, rest)"
    "strip_suffix ''_'' rest = Some message" and ok: "check_package package = Inr ()" "check_message message = Inr ()"
    by (auto simp: validate_dds_type_name_def split: option.splits prod.splits sum.splits)
  have name: "name = package @ dds_infix @ message @ ''_''"
    using split_once_Some [OF s(1)] s(2) by (simp add: strip_suffix_Some)
  have free: "slash_char \<notin> set package" "slash_char \<notin> set message"
    using check_package_chars(1) check_message_chars ok by blast+
  have "split_on slash_char (package @ ''/msg/'' @ message) = [package, ''msg'', message]"
    using split_on_append_sep [of slash_char package "''msg/'' @ message"]
    by (simp add: split_on_free [OF free(1)] split_on_free [OF free(2)])
  then have "dds_type_name (package @ ''/msg/'' @ message) = Inr name"
    using ok by (simp add: dds_type_name_def name)
  then show "\<exists>ros_type. dds_type_name ros_type = Inr name" by blast
next
  assume "\<exists>ros_type. dds_type_name ros_type = Inr name"
  then obtain ros_type where t: "dds_type_name ros_type = Inr name" by blast
  then obtain package kind message where "split_on slash_char ros_type = [package, kind, message]"
    by (auto simp: dds_type_name_def split: list.splits)
  then have ok: "check_package package = Inr ()" "check_message message = Inr ()"
    and name: "name = package @ dds_infix @ message @ ''_''"
    using t by (auto simp: dds_type_name_def split: if_splits sum.splits)
  have "split_once dds_infix name = Some (package, message @ ''_'')"
    unfolding name dds_infix_def using split_once_first [OF check_package_chars(2) [OF ok(1)], of "'':msg::dds_::''" "message @ ''_''"] by simp
  moreover have "strip_suffix ''_'' (message @ ''_'') = Some message" by (simp only: strip_suffix_Some)
  ultimately show "validate_dds_type_name name = Inr ()" using ok by (simp add: validate_dds_type_name_def)
qed

lemma dds_no_slash: "validate_dds_type_name name = Inr () \<Longrightarrow> slash_char \<notin> set name"
proof -
  assume "validate_dds_type_name name = Inr ()"
  then obtain package rest message where s: "split_once dds_infix name = Some (package, rest)"
    "strip_suffix ''_'' rest = Some message" and ok: "check_package package = Inr ()" "check_message message = Inr ()"
    by (auto simp: validate_dds_type_name_def split: option.splits prod.splits sum.splits)
  have "name = package @ dds_infix @ message @ ''_''"
    using split_once_Some [OF s(1)] s(2) by (simp add: strip_suffix_Some)
  then show ?thesis using check_package_chars(1) [OF ok(1)] check_message_chars [OF ok(2)] by (simp add: dds_infix_def)
qed

lemma hash_no_slash: "validate_type_hash hash = Inr () \<Longrightarrow> slash_char \<notin> set hash"
proof -
  assume "validate_type_hash hash = Inr ()"
  then obtain ds where ds: "hash = hash_prefix @ ds" "list_all (\<lambda>c. digit_char c \<or> c \<in> set ''abcdef'') ds"
    by (auto simp: validate_type_hash_def strip_prefix_Some split: option.splits if_splits)
  have "\<not> digit_char slash_char" "slash_char \<notin> set ''abcdef''" by (simp_all add: digit_char_def)
  then have "slash_char \<notin> set ds" using ds(2) unfolding list_all_iff by blast
  then show ?thesis by (simp add: ds(1) hash_prefix_def)
qed

text \<open>The fields of a token, between slashes.\<close>

definition kind_str :: "entity_kind \<Rightarrow> string" where
  "kind_str kind = (case kind of Publisher \<Rightarrow> ''MP'' | Subscription \<Rightarrow> ''MS'')"

definition token_fields ::
  "ros2_identity \<Rightarrow> u32 \<Rightarrow> entity_kind \<Rightarrow> string \<Rightarrow> string \<Rightarrow> string \<Rightarrow> qos \<Rightarrow> string list" where
  "token_fields n eid kind topic ty hash q =
     [''@ros2_lv'', decimal (unat (nd_domain n)), nd_zid n, decimal (unat (nd_id n)), decimal (unat eid), kind_str kind,
      mangle (nd_enclave n), mangle (nd_namespace n), nd_name n, mangle topic, ty, hash, qos_encode q]"

lemma entity_token_join:
  "entity_token n eid kind topic ty hash q = join_with ''/'' (token_fields n eid kind topic ty hash q)"
  by (simp add: entity_token_def token_fields_def kind_str_def)

definition entity_ok :: "ros2_identity \<Rightarrow> string \<Rightarrow> string \<Rightarrow> string \<Rightarrow> bool" where
  "entity_ok n topic ty hash \<longleftrightarrow>
     slash_char \<notin> set (nd_zid n) \<and> nd_enclave n = ''/'' \<and> validate_namespace (nd_namespace n) = Inr ()
     \<and> validate_node_name (nd_name n) = Inr () \<and> validate_topic topic = Inr ()
     \<and> validate_dds_type_name ty = Inr () \<and> validate_type_hash hash = Inr ()"

lemma split_entity_token:
  assumes "entity_ok n topic ty hash"
  shows "split_on slash_char (entity_token n eid kind topic ty hash q) = token_fields n eid kind topic ty hash q"
proof -
  have "slash_char \<notin> set f" if "f \<in> set (token_fields n eid kind topic ty hash q)" for f
    using that assms node_name_ok dds_no_slash hash_no_slash
    by (auto simp: token_fields_def entity_ok_def decimal_no_slash mangle_no_slash qos_no_slash kind_str_def
        split: entity_kind.splits)
  then show ?thesis unfolding entity_token_join by (intro split_on_join) (simp_all add: token_fields_def)
qed

lemma token_fields_entity:
  assumes "entity_ok n topic ty hash" and "entity_ok n' topic' ty' hash'"
    and "entity_token n eid kind topic ty hash q = entity_token n' eid' kind' topic' ty' hash' q'"
  shows "token_fields n eid kind topic ty hash q = token_fields n' eid' kind' topic' ty' hash' q'" and "eid = eid'"
proof -
  show f: "token_fields n eid kind topic ty hash q = token_fields n' eid' kind' topic' ty' hash' q'"
    using split_entity_token assms by metis
  show "eid = eid'" using f by (simp add: token_fields_def decimal_inject word_unat_eq_iff)
qed

text \<open>
  A liveliness token tells everything: two entities with valid names have the same token only when
  node, entity id, kind, topic, type, hash and QoS are the same, although slashes are rewritten and
  default QoS values left out.
\<close>

theorem token_faithful:
  assumes "entity_ok n topic ty hash" and "entity_ok n' topic' ty' hash'"
  shows "entity_token n eid kind topic ty hash q = entity_token n' eid' kind' topic' ty' hash' q'
     \<longleftrightarrow> (n, eid, kind, topic, ty, hash, q) = (n', eid', kind', topic', ty', hash', q')"
proof
  assume "entity_token n eid kind topic ty hash q = entity_token n' eid' kind' topic' ty' hash' q'"
  then have f: "token_fields n eid kind topic ty hash q = token_fields n' eid' kind' topic' ty' hash' q'"
    using token_fields_entity(1) assms by blast
  have "nd_domain n = nd_domain n'" "nd_id n = nd_id n'" "eid = eid'"
    using f by (simp_all add: token_fields_def decimal_inject word_unat_eq_iff)
  moreover have "mangle (nd_namespace n) = mangle (nd_namespace n')" "mangle topic = mangle topic'"
    and rest: "nd_zid n = nd_zid n'" "nd_name n = nd_name n'" "ty = ty'" "hash = hash'" "q = q'" "kind_str kind = kind_str kind'"
    using f qos_inject by (simp_all add: token_fields_def)
  moreover have "nd_namespace n = nd_namespace n'" "topic = topic'"
    using assms calculation(4,5) mangle_inject namespace_mangles absolute_mangles
    by (auto simp: entity_ok_def validate_topic_def)
  moreover have "kind = kind'" using rest(6) by (cases kind; cases kind') (simp_all add: kind_str_def)
  moreover have "nd_enclave n = nd_enclave n'" using assms by (simp add: entity_ok_def)
  ultimately show "(n, eid, kind, topic, ty, hash, q) = (n', eid', kind', topic', ty', hash', q')" by simp
qed simp

lemma trim_slashes_topic:
  assumes "absolute name limit = Inr ()"
  shows "trim_slashes name = tl name" and "name = slash_char # tl name"
proof -
  obtain ps where ps: "ps \<noteq> []" "list_all part_ok ps" "name = slash_char # join_with [slash_char] ps"
    using assms by (auto simp: absolute_iff)
  let ?s = "join_with [slash_char] ps"
  obtain p qs where p: "ps = p # qs" "p \<noteq> []" "name_char (hd p)"
    using ps(1,2) by (cases ps) (auto simp: part_ok_def list_all_iff)
  then have first: "hd p \<noteq> slash_char" using name_char_not(1) by metis
  have s: "?s \<noteq> []" "hd ?s \<noteq> slash_char" using p first by (cases "qs = []"; simp add: join_with_Cons)+
  have l: "last ?s \<noteq> slash_char"
    using assms s(1) by (auto simp: absolute_def ps(3) split: if_splits)
  have "dropWhile (\<lambda>c. c = slash_char) ?s = ?s" using s by (cases ?s) auto
  moreover have "dropWhile (\<lambda>c. c = slash_char) (rev ?s) = rev ?s" using s(1) l by (cases ?s rule: rev_cases) auto
  ultimately show "trim_slashes name = tl name" by (simp add: trim_slashes_def ps(3))
  show "name = slash_char # tl name" by (simp add: ps(3))
qed

lemma data_key_join:
  assumes "validate_topic topic = Inr ()" and "validate_dds_type_name ty = Inr ()" and "validate_type_hash hash = Inr ()"
  shows "split_on slash_char (data_key d topic ty hash) = decimal (unat d) # split_on slash_char (tl topic) @ [ty, hash]"
proof -
  have t: "trim_slashes topic = tl topic" using trim_slashes_topic assms(1) by (simp add: validate_topic_def)
  have "split_on slash_char (data_key d topic ty hash)
      = split_on slash_char (decimal (unat d)) @ split_on slash_char (tl topic) @ split_on slash_char ty @ split_on slash_char hash"
    by (simp add: data_key_def t split_on_append_sep)
  then show ?thesis
    using split_on_free [OF decimal_no_slash] split_on_free [OF dds_no_slash [OF assms(2)]] split_on_free [OF hash_no_slash [OF assms(3)]]
    by simp
qed

lemma data_key_inject:
  assumes "validate_topic topic = Inr ()" "validate_dds_type_name ty = Inr ()" "validate_type_hash hash = Inr ()"
    and "validate_topic topic' = Inr ()" "validate_dds_type_name ty' = Inr ()" "validate_type_hash hash' = Inr ()"
  shows "data_key d topic ty hash = data_key d' topic' ty' hash' \<longleftrightarrow> d = d' \<and> topic = topic' \<and> ty = ty' \<and> hash = hash'"
proof
  assume "data_key d topic ty hash = data_key d' topic' ty' hash'"
  then have "decimal (unat d) # split_on slash_char (tl topic) @ [ty, hash]
      = decimal (unat d') # split_on slash_char (tl topic') @ [ty', hash']"
    using data_key_join assms by metis
  then have "d = d'" "split_on slash_char (tl topic) = split_on slash_char (tl topic')" "ty = ty'" "hash = hash'"
    by (simp_all add: decimal_inject word_unat_eq_iff)
  moreover have "topic = topic'"
    using split_on_inject [OF calculation(2)] trim_slashes_topic(2) assms(1,4) unfolding validate_topic_def by metis
  ultimately show "d = d' \<and> topic = topic' \<and> ty = ty' \<and> hash = hash'" by simp
qed simp

theorem token_faithful_witness:
  "entity_token \<lparr>nd_domain = 0, nd_zid = ''ab'', nd_id = 0, nd_enclave = ''/'', nd_namespace = ''/a'', nd_name = ''n''\<rparr> 1 Publisher
     ''/t'' ''p::msg::dds_::M_'' (hash_prefix @ replicate 64 CHR ''0'') qos_default
   \<noteq> entity_token \<lparr>nd_domain = 0, nd_zid = ''ab'', nd_id = 0, nd_enclave = ''/'', nd_namespace = ''/'', nd_name = ''n''\<rparr> 1 Publisher
     ''/t'' ''p::msg::dds_::M_'' (hash_prefix @ replicate 64 CHR ''0'') qos_default"
proof -
  let ?n = "\<lambda>ns. \<lparr>nd_domain = 0, nd_zid = ''ab'', nd_id = 0, nd_enclave = ''/'', nd_namespace = ns, nd_name = ''n''\<rparr>"
  let ?ty = "''p::msg::dds_::M_''" and ?hash = "hash_prefix @ replicate 64 CHR ''0''"
  have "validate_topic ''/t'' = Inr ()" "validate_namespace ''/a'' = Inr ()" "validate_namespace ''/'' = Inr ()"
    "validate_node_name ''n'' = Inr ()" "validate_dds_type_name ?ty = Inr ()" by code_simp+
  moreover have "strip_prefix hash_prefix ?hash = Some (replicate 64 CHR ''0'')" by (simp only: strip_prefix_Some)
  then have "validate_type_hash ?hash = Inr ()" by (simp add: validate_type_hash_def digit_char_def list_all_iff)
  ultimately have "entity_ok (?n ''/a'') ''/t'' ?ty ?hash" "entity_ok (?n ''/'') ''/t'' ?ty ?hash"
    by (simp_all add: entity_ok_def)
  from token_faithful [OF this, of 1 Publisher qos_default 1 Publisher qos_default] show ?thesis by simp
qed

end
