(* ===== verification/Zenoh_Ros2.thy ===== *)
theory Zenoh_Ros2
  imports Zenoh_Native Ros2_Names
begin

text \<open>
  \<open>aimdb-zenoh-connector/src/ros2.rs\<close>: what the ROS 2 connector checks and fixes when it is built, the
  tokens it declares, and what it publishes.  The environment variable is taken as ASCII text.  As in
  \<open>Zenoh_Native\<close>, \<open>keyexpr_new\<close> decides what a key expression is and the outcomes of declarations and
  puts are given.
\<close>

subsection \<open>The domain\<close>

definition ascii_space :: "char \<Rightarrow> bool" where
  "ascii_space c \<longleftrightarrow> c = CHR '' '' \<or> c \<in> {CHR 0x09, CHR 0x0A, CHR 0x0B, CHR 0x0C, CHR 0x0D}"

definition trim_space :: "string \<Rightarrow> string" where
  "trim_space s = rev (dropWhile ascii_space (rev (dropWhile ascii_space s)))"

text \<open>The value of a digit of any radix up to 16.\<close>

definition hex_value :: "char \<Rightarrow> nat option" where
  "hex_value c =
     (case position (\<lambda>d. d = c) ''0123456789abcdef'' of
        Some v \<Rightarrow> Some v
      | None \<Rightarrow> position (\<lambda>d. d = c) ''0123456789ABCDEF'')"

fun radix_digits :: "nat \<Rightarrow> string \<Rightarrow> nat \<Rightarrow> nat option" where
  "radix_digits radix [] acc = Some acc"
| "radix_digits radix (c # cs) acc =
     (case hex_value c of
        None \<Rightarrow> None
      | Some v \<Rightarrow>
          if radix \<le> v then None
          else if 2 ^ 32 \<le> acc * radix + v then None
          else radix_digits radix cs (acc * radix + v))"

text \<open>\<open>u32::from_str_radix\<close> of text without a sign.\<close>

definition from_str_radix :: "string \<Rightarrow> nat \<Rightarrow> u32 option" where
  "from_str_radix s radix = (if s = [] then None else map_option of_nat (radix_digits radix s 0))"

text \<open>\<open>u32::from_str\<close>: one leading plus sign is allowed.\<close>

definition parse_u32 :: "string \<Rightarrow> u32 option" where
  "parse_u32 s = from_str_radix (if starts_with ''+'' s \<and> s \<noteq> ''+'' then tl s else s) 10"

definition parse_domain :: "string \<Rightarrow> u32 option" where
  "parse_domain s =
     (let (digits, radix) =
        (if starts_with ''0'' s \<and> tl s \<noteq> [] \<and> (hd (tl s) = CHR ''x'' \<or> hd (tl s) = CHR ''X'') \<and> tl (tl s) \<noteq> []
         then (drop 2 s, 16)
         else if starts_with ''0'' s \<and> tl s \<noteq> [] then (tl s, 8)
         else (s, 10))
      in if \<not> list_all (\<lambda>c. hex_value c \<noteq> None) digits then None else from_str_radix digits radix)"

datatype ros2_error =
    BadDomain string
  | BadNodeName name_error
  | BadNamespace name_error
  | TypeNotCdr nat
  | BadTypeName ros_name_error
  | BadTypeHash ros_name_error
  | TopicWriter string
  | BadTopic name_error
  | Unregistered string
  | ForeignCodec string
  | BadDepth string
  | BadReliability string
  | BadDataKey string
  | TwoTypes string
  | Ros2Db db_error

definition resolve_domain :: "u32 option \<Rightarrow> string option \<Rightarrow> ros2_error + u32" where
  "resolve_domain explicit env =
     (case explicit of
        Some d \<Rightarrow> Inr d
      | None \<Rightarrow>
          (case (case map_option trim_space env of Some [] \<Rightarrow> None | v \<Rightarrow> v) of
             Some v \<Rightarrow> (case parse_domain v of None \<Rightarrow> Inl (BadDomain v) | Some d \<Rightarrow> Inr d)
           | None \<Rightarrow> Inr 0))"

subsection \<open>Links\<close>

datatype wire_format = FormatUnspecified | FormatJson | FormatPostcard | FormatCdr

definition recorded_in :: "(string \<times> string) list \<Rightarrow> wire_format" where
  "recorded_in config =
     (case map_option snd (find (\<lambda>(key, _). key = wire_format_key) config) of
        None \<Rightarrow> FormatUnspecified
      | Some v \<Rightarrow>
          if v = ''json'' then FormatJson
          else if v = ''postcard'' then FormatPostcard
          else if v = ''cdr'' then FormatCdr
          else FormatUnspecified)"

record ros_type =
  ry_type :: nat
  ry_dds :: string
  ry_hash :: string
  ry_wire :: wire_format

definition check_type :: "ros_type \<Rightarrow> ros2_error + unit" where
  "check_type ty =
     (if ry_wire ty \<noteq> FormatCdr then Inl (TypeNotCdr (ry_type ty))
      else (case validate_dds_type_name (ry_dds ty) of
              Inl e \<Rightarrow> Inl (BadTypeName e)
            | Inr _ \<Rightarrow> map_sum BadTypeHash (\<lambda>u. u) (validate_type_hash (ry_hash ty))))"

definition codec_is_unchecked :: "string \<Rightarrow> (string \<times> string) list \<Rightarrow> ros2_error + bool" where
  "codec_is_unchecked resource options =
     (case recorded_in options of
        FormatCdr \<Rightarrow> Inr False
      | FormatUnspecified \<Rightarrow> Inr True
      | _ \<Rightarrow> Inl (ForeignCodec resource))"

definition depth_key :: string where "depth_key = ''ros2.depth''"
definition reliability_key :: string where "reliability_key = ''ros2.reliability''"

fun link_qos_from :: "qos \<Rightarrow> (string \<times> string) list \<Rightarrow> ros2_error + qos" where
  "link_qos_from q [] = Inr q"
| "link_qos_from q ((key, v) # options) =
     (if key = depth_key then
        (case parse_u32 v of
           None \<Rightarrow> Inl (BadDepth v)
         | Some d \<Rightarrow> if 0 < d then link_qos_from (q\<lparr>q_depth := d\<rparr>) options else Inl (BadDepth v))
      else if key = reliability_key then
        (case reliability_parse v of
           None \<Rightarrow> Inl (BadReliability v)
         | Some r \<Rightarrow> link_qos_from (q\<lparr>q_reliability := r\<rparr>) options)
      else link_qos_from q options)"

definition link_qos :: "(string \<times> string) list \<Rightarrow> ros2_error + qos" where
  "link_qos options = link_qos_from qos_default options"

record ros2_link =
  lk_topic :: string
  lk_type :: ros_type
  lk_qos :: qos
  lk_entity :: u32
  lk_key :: string
  lk_unchecked :: bool

definition ros_link ::
  "(string \<Rightarrow> bool) \<Rightarrow> string \<Rightarrow> nat \<Rightarrow> (string \<times> string) list \<Rightarrow> ros_type list \<Rightarrow> u32 \<Rightarrow> u32 \<Rightarrow> ros2_error + ros2_link" where
  "ros_link keyexpr_new resource ty options types domain entity =
     (let topic = slash_char # resource in
      case validate_topic topic of
        Inl e \<Rightarrow> Inl (BadTopic e)
      | Inr _ \<Rightarrow>
          (case find (\<lambda>t. ry_type t = ty) types of
             None \<Rightarrow> Inl (Unregistered resource)
           | Some t \<Rightarrow>
               (case codec_is_unchecked resource options of
                  Inl e \<Rightarrow> Inl e
                | Inr unchecked \<Rightarrow>
                    (case link_qos options of
                       Inl e \<Rightarrow> Inl e
                     | Inr q \<Rightarrow>
                         (let key = data_key domain topic (ry_dds t) (ry_hash t) in
                          if \<not> keyexpr_new key then Inl (BadDataKey resource)
                          else Inr \<lparr>lk_topic = topic, lk_type = t, lk_qos = q, lk_entity = entity, lk_key = key,
                                    lk_unchecked = unchecked\<rparr>)))))"

fun one_type_from :: "ros2_link list \<Rightarrow> ros2_link list \<Rightarrow> ros2_error + unit" where
  "one_type_from seen [] = Inr ()"
| "one_type_from seen (l # links) =
     (case find (\<lambda>s. lk_topic s = lk_topic l) seen of
        Some other \<Rightarrow>
          if (ry_dds (lk_type other), ry_hash (lk_type other)) \<noteq> (ry_dds (lk_type l), ry_hash (lk_type l))
          then Inl (TwoTypes (lk_topic l))
          else one_type_from seen links
      | None \<Rightarrow> one_type_from (seen @ [l]) links)"

definition one_type_per_topic :: "ros2_link list \<Rightarrow> ros2_error + unit" where
  "one_type_per_topic links = one_type_from [] links"

text \<open>A \<open>RouteInfo\<close> as far as the connector reads it.\<close>

record ros2_route =
  rr_resource :: string
  rr_type :: nat
  rr_options :: "(string \<times> string) list"
  rr_topic_capacity :: nat

definition ros2_out_routes :: "('v, 'j, 'f) aimdb \<Rightarrow> ros2_route list" where
  "ros2_out_routes db =
     map (\<lambda>(e, l). \<lparr>rr_resource = la_resource (cl_url l), rr_type = en_type e,
                     rr_options = protocol_options (cl_config l),
                     rr_topic_capacity = (case cl_topic_writer l of Some (c, _) \<Rightarrow> c | None \<Rightarrow> 0)\<rparr>)
       (scheme_out_links ''ros2'' db)"

definition ros2_publisher ::
  "(string \<Rightarrow> bool) \<Rightarrow> ros_type list \<Rightarrow> u32 \<Rightarrow> u32 \<Rightarrow> ros2_route \<Rightarrow> ros2_error + ros2_link" where
  "ros2_publisher keyexpr_new types domain entity r =
     (if 0 < rr_topic_capacity r then Inl (TopicWriter (rr_resource r))
      else ros_link keyexpr_new (rr_resource r) (rr_type r) (rr_options r) types domain entity)"

definition ros2_publishers ::
  "(string \<Rightarrow> bool) \<Rightarrow> ros_type list \<Rightarrow> u32 \<Rightarrow> ros2_route list \<Rightarrow> ros2_error + ros2_link list" where
  "ros2_publishers keyexpr_new types domain routes =
     collect_results (map (\<lambda>(i, r). ros2_publisher keyexpr_new types domain (of_nat i + 1) r) (enumerate 0 routes))"

fun ros2_subscriptions_from ::
  "(string \<Rightarrow> bool) \<Rightarrow> ros_type list \<Rightarrow> u32 \<Rightarrow> u32 \<Rightarrow> nat \<Rightarrow> inbound_route_info list
   \<Rightarrow> ros2_link list \<Rightarrow> (string \<times> string) list \<Rightarrow> ros2_error + ros2_link list \<times> (string \<times> string) list" where
  "ros2_subscriptions_from keyexpr_new types domain first_id i [] links subscribers = Inr (links, subscribers)"
| "ros2_subscriptions_from keyexpr_new types domain first_id i (r # rs) links subscribers =
     (case ros_link keyexpr_new (ir_topic r) (ir_type r) (protocol_options (ir_config r)) types domain (first_id + of_nat i) of
        Inl e \<Rightarrow> Inl e
      | Inr l \<Rightarrow>
          ros2_subscriptions_from keyexpr_new types domain first_id (Suc i) rs (links @ [l])
            (if list_ex (\<lambda>k. lk_topic k = lk_topic l) links then subscribers
             else subscribers @ [(lk_key l, ir_topic r)]))"

definition ros2_subscriptions ::
  "(string \<Rightarrow> bool) \<Rightarrow> ros_type list \<Rightarrow> u32 \<Rightarrow> u32 \<Rightarrow> inbound_route_info list
   \<Rightarrow> ros2_error + ros2_link list \<times> (string \<times> string) list" where
  "ros2_subscriptions keyexpr_new types domain first_id routes =
     ros2_subscriptions_from keyexpr_new types domain first_id 0 routes [] []"

subsection \<open>Building\<close>

record ros2_node =
  rn_name :: string
  rn_namespace :: string

record ros2_connector =
  rc_node :: ros2_node
  rc_domain :: "u32 option"
  rc_types :: "ros_type list"

record 'v ros2_parts =
  rp_domain :: u32
  rp_node :: ros2_node
  rp_outbound :: "('v, u64) outbound_routes"
  rp_publishers :: "ros2_link list"
  rp_inbound :: "'v inbound_router"
  rp_links :: "ros2_link list"
  rp_subscribers :: "(string \<times> string) list"

definition ros2_build ::
  "(string \<Rightarrow> bool) \<Rightarrow> string option \<Rightarrow> ros2_connector \<Rightarrow> ('v, 'j, 'f) aimdb \<Rightarrow> (ros2_error + 'v ros2_parts) option" where
  "ros2_build keyexpr_new env c db =
     (case resolve_domain (rc_domain c) env of
        Inl e \<Rightarrow> Some (Inl e)
      | Inr domain \<Rightarrow>
     (case validate_node_name (rn_name (rc_node c)) of
        Inl e \<Rightarrow> Some (Inl (BadNodeName e))
      | Inr _ \<Rightarrow>
     (case validate_namespace (rn_namespace (rc_node c)) of
        Inl e \<Rightarrow> Some (Inl (BadNamespace e))
      | Inr _ \<Rightarrow>
     (case collect_results (map check_type (rc_types c)) of
        Inl e \<Rightarrow> Some (Inl e)
      | Inr _ \<Rightarrow>
     (case ros2_publishers keyexpr_new (rc_types c) domain (ros2_out_routes db) of
        Inl e \<Rightarrow> Some (Inl e)
      | Inr publishers \<Rightarrow>
     (case inbound_router exact_compile ''ros2'' db of
        None \<Rightarrow> None
      | Some (Inl e) \<Rightarrow> Some (Inl (Ros2Db e))
      | Some (Inr inbound) \<Rightarrow>
     (case ros2_subscriptions keyexpr_new (rc_types c) domain (of_nat (length publishers) + 1) (map (\<lambda>x. snd (snd x)) inbound) of
        Inl e \<Rightarrow> Some (Inl e)
      | Inr (links, subscribers) \<Rightarrow>
     (case one_type_per_topic (publishers @ links) of
        Inl e \<Rightarrow> Some (Inl e)
      | Inr _ \<Rightarrow>
          Some (Inr \<lparr>rp_domain = domain, rp_node = rc_node c, rp_outbound = outbound_for ''ros2'' db,
                     rp_publishers = publishers, rp_inbound = inbound, rp_links = links,
                     rp_subscribers = subscribers\<rparr>)))))))))"

subsection \<open>Serving\<close>

definition ros2_identity_of :: "string \<Rightarrow> 'v ros2_parts \<Rightarrow> ros2_identity" where
  "ros2_identity_of zid parts =
     \<lparr>nd_domain = rp_domain parts, nd_zid = zid, nd_id = 0, nd_enclave = ''/'',
      nd_namespace = rn_namespace (rp_node parts), nd_name = rn_name (rp_node parts)\<rparr>"

definition link_token :: "ros2_identity \<Rightarrow> entity_kind \<Rightarrow> ros2_link \<Rightarrow> string" where
  "link_token n kind l =
     entity_token n (lk_entity l) kind (lk_topic l) (ry_dds (lk_type l)) (ry_hash (lk_type l)) (lk_qos l)"

definition ros2_tokens :: "string \<Rightarrow> 'v ros2_parts \<Rightarrow> string list" where
  "ros2_tokens zid parts =
     (let n = ros2_identity_of zid parts in
      node_token n # map (link_token n Publisher) (rp_publishers parts) @ map (link_token n Subscription) (rp_links parts))"

definition ros2_gids :: "(string \<Rightarrow> 128 word) \<Rightarrow> string \<Rightarrow> 'v ros2_parts \<Rightarrow> bytes list" where
  "ros2_gids xxh3 zid parts =
     map (\<lambda>l. gid_of xxh3 (link_token (ros2_identity_of zid parts) Publisher l)) (rp_publishers parts)"

text \<open>A sample of a subscriber: \<open>topic\<close> is the link topic it is dispatched under.\<close>

definition ros2_on_sample ::
  "(nat \<Rightarrow> u64) \<Rightarrow> 'v inbound_router \<Rightarrow> zenoh_sample \<Rightarrow> string \<Rightarrow> ('v, 'j, 'f) aimdb \<Rightarrow> ('v, 'j, 'f) aimdb" where
  "ros2_on_sample now inbound sample topic db =
     (if sm_kind sample = PutSample then inbound_dispatch now inbound topic (sm_payload sample) db else db)"

text \<open>Zenoh hands a sample to the subscribers of its key, in any order.\<close>

definition ros2_deliver ::
  "(nat \<Rightarrow> u64) \<Rightarrow> 'v inbound_router \<Rightarrow> zenoh_sample \<Rightarrow> (string \<times> string) list \<Rightarrow> ('v, 'j, 'f) aimdb \<Rightarrow> ('v, 'j, 'f) aimdb" where
  "ros2_deliver now inbound sample subscribers db =
     fold (\<lambda>(_, topic). ros2_on_sample now inbound sample topic) (filter (\<lambda>(key, _). key = sm_key sample) subscribers) db"

record ros2_put =
  rt_put_route :: nat
  rt_put_payload :: bytes
  rt_put_attachment :: bytes

record ('v, 'm) ros2_loop =
  rl_sequence :: "u64 list"
  rl_outbound :: "('v, 'm) outbound_routes"
  rl_puts :: "ros2_put list"

text \<open>One turn of the publishing loop at time \<open>now\<close>; \<open>senders\<close> tells which publishers could be declared.\<close>

definition ros2_serve_message ::
  "bytes list \<Rightarrow> bool list \<Rightarrow> u64 \<times> bool \<times> 'm outbound_message \<Rightarrow> ('v, 'm) ros2_loop \<Rightarrow> ('v, 'm) ros2_loop" where
  "ros2_serve_message gids senders turn st =
     (case turn of (now, put_ok, msg) \<Rightarrow>
        (let rid = ri_id (om_route msg) in
         if \<not> senders ! rid then st\<lparr>rl_outbound := reject rid (rl_outbound st)\<rparr>
         else
           (let n = rl_sequence st ! rid + 1;
                a = \<lparr>at_sequence = n, at_timestamp = now, at_gid = gids ! rid\<rparr>
            in st\<lparr>rl_sequence := (rl_sequence st)[rid := n],
                  rl_puts := rl_puts st @ [\<lparr>rt_put_route = rid, rt_put_payload = into_vec (om_payload msg),
                                            rt_put_attachment = attachment_encode a\<rparr>],
                  rl_outbound := (if put_ok then rl_outbound st else reject rid (rl_outbound st))\<rparr>)))"

definition ros2_serve ::
  "bytes list \<Rightarrow> bool list \<Rightarrow> (u64 \<times> bool \<times> 'm outbound_message) list \<Rightarrow> ('v, 'm) outbound_routes \<Rightarrow> ('v, 'm) ros2_loop" where
  "ros2_serve gids senders turns ob =
     fold (ros2_serve_message gids senders) turns
       \<lparr>rl_sequence = replicate (length gids) 0, rl_outbound = ob, rl_puts = []\<rparr>"

subsection \<open>What a build gives\<close>

definition link_ok :: "u32 \<Rightarrow> ros2_link \<Rightarrow> bool" where
  "link_ok domain l \<longleftrightarrow>
     validate_topic (lk_topic l) = Inr () \<and> validate_dds_type_name (ry_dds (lk_type l)) = Inr ()
     \<and> validate_type_hash (ry_hash (lk_type l)) = Inr ()
     \<and> lk_key l = data_key domain (lk_topic l) (ry_dds (lk_type l)) (ry_hash (lk_type l))"

definition same_type :: "ros2_link \<Rightarrow> ros2_link \<Rightarrow> bool" where
  "same_type a b \<longleftrightarrow> (ry_dds (lk_type a), ry_hash (lk_type a)) = (ry_dds (lk_type b), ry_hash (lk_type b))"

definition one_type :: "ros2_link list \<Rightarrow> bool" where
  "one_type links \<longleftrightarrow> (\<forall>a \<in> set links. \<forall>b \<in> set links. lk_topic a = lk_topic b \<longrightarrow> same_type a b)"

lemma one_type_repeat:
  assumes "o' \<in> set xs" and "lk_topic o' = lk_topic l" and "same_type o' l"
  shows "one_type (xs @ l # ys) \<longleftrightarrow> one_type (xs @ ys)"
proof
  assume "one_type (xs @ ys)"
  moreover have "same_type a l \<longleftrightarrow> same_type a o'" "same_type l a \<longleftrightarrow> same_type o' a" for a
    using assms(3) by (auto simp: same_type_def)
  ultimately show "one_type (xs @ l # ys)"
    using assms(1,2) by (auto simp: one_type_def simp flip: assms(2))
qed (auto simp: one_type_def)

lemma one_type_from_iff:
  "one_type seen \<Longrightarrow> one_type_from seen links = Inr () \<longleftrightarrow> one_type (seen @ links)"
proof (induction seen links rule: one_type_from.induct)
  case (2 seen l links)
  show ?case
  proof (cases "find (\<lambda>s. lk_topic s = lk_topic l) seen")
    case None
    then have "\<forall>k \<in> set seen. lk_topic k \<noteq> lk_topic l" by (auto simp: find_None_iff)
    then have "one_type (seen @ [l])"
      using "2.prems" unfolding one_type_def set_append by (fastforce simp: same_type_def)
    then show ?thesis using "2.IH" None by simp
  next
    case (Some other)
    then have o: "other \<in> set seen" "lk_topic other = lk_topic l"
      by (auto simp: find_Some_iff)
    show ?thesis
    proof (cases "same_type other l")
      case True
      have "one_type (seen @ l # links) \<longleftrightarrow> one_type (seen @ links)"
        by (rule one_type_repeat [OF o True])
      then show ?thesis using "2.IH" "2.prems" Some True by (simp add: same_type_def)
    next
      case False
      then have "\<not> one_type (seen @ l # links)" using o by (auto simp: one_type_def)
      then show ?thesis using Some False by (simp add: same_type_def)
    qed
  qed
qed simp

lemma one_type_per_topic_iff: "one_type_per_topic links = Inr () \<longleftrightarrow> one_type links"
  using one_type_from_iff [of "[]" links] by (simp add: one_type_per_topic_def one_type_def)

lemma ros_link_Inr:
  assumes "ros_link keyexpr_new res ty options types domain entity = Inr l"
    and "\<forall>t \<in> set types. check_type t = Inr ()"
  shows "link_ok domain l" and "lk_topic l = slash_char # res" and "lk_entity l = entity"
proof -
  obtain t where t: "find (\<lambda>t. ry_type t = ty) types = Some t" "lk_type l = t" "validate_topic (slash_char # res) = Inr ()"
    and l: "lk_topic l = slash_char # res" "lk_key l = data_key domain (slash_char # res) (ry_dds t) (ry_hash t)"
      "lk_entity l = entity"
    using assms(1) by (auto simp: ros_link_def Let_def split: sum.splits option.splits if_splits)
  have "check_type t = Inr ()" using assms(2) t(1) by (auto simp: find_Some_iff)
  then have "validate_dds_type_name (ry_dds t) = Inr ()" "validate_type_hash (ry_hash t) = Inr ()"
    by (auto simp: check_type_def map_sum_def split: if_splits sum.splits)
  then show "link_ok domain l" "lk_topic l = slash_char # res" "lk_entity l = entity"
    using t l by (simp_all add: link_ok_def)
qed

text \<open>One subscriber for each topic of \<open>links\<close>, under the key of the first link on it.\<close>

definition subscribers_ok :: "ros2_link list \<Rightarrow> (string \<times> string) list \<Rightarrow> bool" where
  "subscribers_ok links subs \<longleftrightarrow>
     distinct (map snd subs) \<and> snd ` set subs = tl ` lk_topic ` set links
     \<and> (\<forall>(key, topic) \<in> set subs. \<exists>l \<in> set links. key = lk_key l \<and> topic = tl (lk_topic l))"

lemma ros2_subscriptions_from_Inr:
  assumes "ros2_subscriptions_from keyexpr_new types domain first_id i rs links subs = Inr (links', subs')"
    and "\<forall>t \<in> set types. check_type t = Inr ()"
    and "subscribers_ok links subs" and "\<forall>l \<in> set links. link_ok domain l \<and> lk_topic l = slash_char # tl (lk_topic l)"
    and "map lk_entity links = map (\<lambda>j. first_id + of_nat j) [0..<i]"
  shows "subscribers_ok links' subs'
    \<and> (\<forall>l \<in> set links'. link_ok domain l \<and> lk_topic l = slash_char # tl (lk_topic l))
    \<and> map lk_entity links' = map (\<lambda>j. first_id + of_nat j) [0..<i + length rs]
    \<and> map lk_topic links' = map lk_topic links @ map (\<lambda>r. slash_char # ir_topic r) rs"
  using assms
proof (induction rs arbitrary: i links subs)
  case (Cons r rs)
  obtain l where l: "ros_link keyexpr_new (ir_topic r) (ir_type r) (protocol_options (ir_config r)) types domain (first_id + of_nat i) = Inr l"
    and rest: "ros2_subscriptions_from keyexpr_new types domain first_id (Suc i) rs (links @ [l])
            (if list_ex (\<lambda>k. lk_topic k = lk_topic l) links then subs else subs @ [(lk_key l, ir_topic r)]) = Inr (links', subs')"
    using Cons.prems(1) by (auto split: sum.splits)
  note link = ros_link_Inr [OF l Cons.prems(2)]
  let ?subs = "if list_ex (\<lambda>k. lk_topic k = lk_topic l) links then subs else subs @ [(lk_key l, ir_topic r)]"
  have "subscribers_ok (links @ [l]) ?subs"
  proof (cases "list_ex (\<lambda>k. lk_topic k = lk_topic l) links")
    case True
    then obtain k where "k \<in> set links" "lk_topic k = lk_topic l" by (auto simp: list_ex_iff)
    then have "tl (lk_topic l) \<in> tl ` lk_topic ` set links" by (metis imageI)
    then show ?thesis using True Cons.prems(3) by (fastforce simp: subscribers_ok_def)
  next
    case False
    have "tl (lk_topic l) \<notin> tl ` lk_topic ` set links"
    proof
      assume "tl (lk_topic l) \<in> tl ` lk_topic ` set links"
      then obtain k where k: "k \<in> set links" "tl (lk_topic k) = tl (lk_topic l)" by auto
      then have "lk_topic k = lk_topic l" using Cons.prems(4) link(2) by (metis list.sel(3))
      then show False using False k(1) by (auto simp: list_ex_iff)
    qed
    then show ?thesis using False Cons.prems(3) link(2) by (fastforce simp: subscribers_ok_def)
  qed
  then show ?case
    using Cons.IH [OF rest Cons.prems(2)] Cons.prems(4,5) link by simp
qed simp

lemma ros2_publishers_Inr:
  assumes "ros2_publishers keyexpr_new types domain routes = Inr pubs" and "\<forall>t \<in> set types. check_type t = Inr ()"
  shows "\<forall>l \<in> set pubs. link_ok domain l" and "map lk_entity pubs = map (\<lambda>j. of_nat j + 1) [0..<length routes]"
    and "length pubs = length routes"
proof -
  have eq: "map (\<lambda>(i, r). ros2_publisher keyexpr_new types domain (of_nat i + 1) r) (enumerate 0 routes) = map Inr pubs"
    using assms(1) by (simp add: ros2_publishers_def collect_results_Inr)
  have len: "length pubs = length routes" using arg_cong [OF eq, of length] by simp
  have nth: "ros2_publisher keyexpr_new types domain (of_nat i + 1) (routes ! i) = Inr (pubs ! i)" if "i < length routes" for i
    using arg_cong [OF eq, of "\<lambda>xs. xs ! i"] that len by (simp add: nth_enumerate_eq)
  have link: "link_ok domain (pubs ! i) \<and> lk_entity (pubs ! i) = of_nat i + 1" if "i < length routes" for i
    using nth [OF that] ros_link_Inr [OF _ assms(2)] by (auto simp: ros2_publisher_def split: if_splits)
  show "\<forall>l \<in> set pubs. link_ok domain l" using link len by (auto simp: in_set_conv_nth)
  show "map lk_entity pubs = map (\<lambda>j. of_nat j + 1) [0..<length routes]"
    using link len by (intro nth_equalityI) simp_all
  show "length pubs = length routes" by (rule len)
qed

lemma collect_checks: "collect_results (map check_type ts) = Inr us \<Longrightarrow> \<forall>t \<in> set ts. check_type t = Inr ()"
proof
  fix t
  assume "collect_results (map check_type ts) = Inr us" and t: "t \<in> set ts"
  then have "map check_type ts = map Inr us" by (simp add: collect_results_Inr)
  then have "check_type t \<in> set (map Inr us)" using t by (metis image_eqI list.set_map)
  then show "check_type t = Inr ()" by auto
qed

definition ros2_links :: "'v ros2_parts \<Rightarrow> ros2_link list" where
  "ros2_links parts = rp_publishers parts @ rp_links parts"

lemma ros2_build_parts:
  assumes "ros2_build keyexpr_new env c db = Some (Inr parts)"
  shows "\<forall>l \<in> set (ros2_links parts). link_ok (rp_domain parts) l"
    and "one_type (ros2_links parts)"
    and "map lk_entity (ros2_links parts) = map (\<lambda>j. of_nat j + 1) [0..<length (ros2_links parts)]"
    and "subscribers_ok (rp_links parts) (rp_subscribers parts)"
    and "validate_node_name (rn_name (rp_node parts)) = Inr ()"
    and "validate_namespace (rn_namespace (rp_node parts)) = Inr ()"
proof -
  obtain domain us pubs inbound links subs where
    node: "validate_node_name (rn_name (rc_node c)) = Inr ()" "validate_namespace (rn_namespace (rc_node c)) = Inr ()"
    and types: "collect_results (map check_type (rc_types c)) = Inr us"
    and pubs: "ros2_publishers keyexpr_new (rc_types c) domain (ros2_out_routes db) = Inr pubs"
    and "inbound_router exact_compile ''ros2'' db = Some (Inr inbound)"
    and subs: "ros2_subscriptions keyexpr_new (rc_types c) domain (of_nat (length pubs) + 1) (map (\<lambda>x. snd (snd x)) inbound) = Inr (links, subs)"
    and one: "one_type_per_topic (pubs @ links) = Inr ()"
    and parts: "rp_domain parts = domain" "rp_node parts = rc_node c" "rp_publishers parts = pubs" "rp_links parts = links"
      "rp_subscribers parts = subs"
    using assms by (auto simp: ros2_build_def split: sum.splits option.splits prod.splits)
  have ok: "\<forall>t \<in> set (rc_types c). check_type t = Inr ()" using types by (rule collect_checks)
  note p = ros2_publishers_Inr [OF pubs ok]
  have q: "subscribers_ok links subs" "\<forall>l \<in> set links. link_ok domain l"
    "map lk_entity links = map (\<lambda>j. of_nat (length pubs) + 1 + of_nat j) [0..<length inbound]"
    "map lk_topic links = map (\<lambda>r. slash_char # ir_topic r) (map (\<lambda>x. snd (snd x)) inbound)"
    using ros2_subscriptions_from_Inr [OF subs [unfolded ros2_subscriptions_def] ok] by (simp_all add: subscribers_ok_def)
  show "\<forall>l \<in> set (ros2_links parts). link_ok (rp_domain parts) l" using p(1) q(2) by (auto simp: ros2_links_def parts)
  show "one_type (ros2_links parts)" using one by (simp add: one_type_per_topic_iff ros2_links_def parts)
  have len: "length links = length inbound" using arg_cong [OF q(4), of length] by simp
  have "map (\<lambda>j. of_nat j + 1) [0..<m + n] = map (\<lambda>j. of_nat j + 1) [0..<m] @ map (\<lambda>j. of_nat m + 1 + of_nat j :: u32) [0..<n]"
    for m n by (rule nth_equalityI) (auto simp: nth_append)
  from this [of "length pubs" "length links"]
  show "map lk_entity (ros2_links parts) = map (\<lambda>j. of_nat j + 1) [0..<length (ros2_links parts)]"
    using p(2,3) q(3) len by (simp add: ros2_links_def parts del: upt_Suc)
  show "subscribers_ok (rp_links parts) (rp_subscribers parts)" using q(1) by (simp add: parts)
  show "validate_node_name (rn_name (rp_node parts)) = Inr ()" "validate_namespace (rn_namespace (rp_node parts)) = Inr ()"
    using node by (simp_all add: parts)
qed

lemma same_key_same_topic:
  assumes "link_ok d a" and "link_ok d b" and "one_type [a, b]"
  shows "lk_key a = lk_key b \<longleftrightarrow> lk_topic a = lk_topic b"
proof -
  have "lk_key a = lk_key b \<longleftrightarrow> lk_topic a = lk_topic b \<and> same_type a b"
    using assms(1,2) by (simp add: link_ok_def data_key_inject same_type_def)
  then show ?thesis using assms(3) by (auto simp: one_type_def)
qed

lemma one_type_pair: "one_type links \<Longrightarrow> a \<in> set links \<Longrightarrow> b \<in> set links \<Longrightarrow> one_type [a, b]"
  by (simp add: one_type_def)

lemma split_node_token:
  assumes "slash_char \<notin> set (nd_zid n)" and "validate_namespace (nd_namespace n) = Inr ()"
    and "validate_node_name (nd_name n) = Inr ()" and "nd_enclave n = ''/''"
  shows "length (split_on slash_char (node_token n)) = 9"
proof -
  let ?fs = "[''@ros2_lv'', decimal (unat (nd_domain n)), nd_zid n, decimal (unat (nd_id n)), decimal (unat (nd_id n)), ''NN'',
    mangle (nd_enclave n), mangle (nd_namespace n), nd_name n]"
  have "slash_char \<notin> set f" if "f \<in> set ?fs" for f
    using that assms node_name_ok by (auto simp: decimal_no_slash mangle_no_slash)
  then have "split_on slash_char (join_with ''/'' ?fs) = ?fs" by (intro split_on_join) simp_all
  moreover have "node_token n = join_with ''/'' ?fs" by (simp add: node_token_def)
  ultimately show ?thesis by simp
qed

text \<open>
  C18. A configuration that passes the build is unambiguous on the wire: two links have the same data key
  exactly when they are on the same topic, every link has an entity id of its own, and no liveliness
  token is declared twice.
\<close>

theorem ros2_wire_unambiguous:
  assumes "ros2_build keyexpr_new env c db = Some (Inr parts)"
    and "length (ros2_links parts) < 2 ^ 32" and "slash_char \<notin> set zid"
  shows "(\<forall>a \<in> set (ros2_links parts). \<forall>b \<in> set (ros2_links parts). lk_key a = lk_key b \<longleftrightarrow> lk_topic a = lk_topic b)
     \<and> distinct (map lk_entity (ros2_links parts)) \<and> distinct (ros2_tokens zid parts)"
proof (intro conjI ballI)
  note built = ros2_build_parts [OF assms(1)]
  let ?n = "ros2_identity_of zid parts"
  show "lk_key a = lk_key b \<longleftrightarrow> lk_topic a = lk_topic b" if "a \<in> set (ros2_links parts)" "b \<in> set (ros2_links parts)" for a b
    using same_key_same_topic one_type_pair built(1,2) that by blast
  have ids: "inj_on (\<lambda>j. of_nat j + 1 :: u32) (set [0..<length (ros2_links parts)])"
    using assms(2) by (auto intro!: inj_onI simp: word_of_nat_eq_iff take_bit_nat_eq_self)
  show ents: "distinct (map lk_entity (ros2_links parts))"
    unfolding built(3) using ids by (simp add: distinct_map)
  have ok: "entity_ok ?n (lk_topic l) (ry_dds (lk_type l)) (ry_hash (lk_type l))" if "l \<in> set (ros2_links parts)" for l
    using built(1,5,6) that assms(3) by (simp add: entity_ok_def link_ok_def ros2_identity_of_def)
  have tok: "link_token ?n k a = link_token ?n k' b \<Longrightarrow> lk_entity a = lk_entity b"
    if "a \<in> set (ros2_links parts)" "b \<in> set (ros2_links parts)" for a b k k'
    using token_fields_entity [OF ok [OF that(1)] ok [OF that(2)]] by (simp add: link_token_def)
  have own: "lk_entity a = lk_entity b \<Longrightarrow> a = b" if "a \<in> set (ros2_links parts)" "b \<in> set (ros2_links parts)" for a b
    using ents that by (auto simp: distinct_map dest: inj_onD)
  have "distinct (ros2_links parts)" using ents unfolding distinct_map by blast
  then have apart: "distinct (rp_publishers parts)" "distinct (rp_links parts)" "set (rp_publishers parts) \<inter> set (rp_links parts) = {}"
    by (simp_all add: ros2_links_def)
  have no_node: "link_token ?n k l \<noteq> node_token ?n" if "l \<in> set (ros2_links parts)" for k l
  proof
    assume same: "link_token ?n k l = node_token ?n"
    have "length (split_on slash_char (node_token ?n)) = 9"
      using ok [OF that] by (intro split_node_token) (simp_all add: entity_ok_def)
    then have "length (token_fields ?n (lk_entity l) k (lk_topic l) (ry_dds (lk_type l)) (ry_hash (lk_type l)) (lk_qos l)) = 9"
      unfolding same [symmetric] link_token_def split_entity_token [OF ok [OF that]] .
    then show False by (simp add: token_fields_def)
  qed
  have tells: "link_token ?n k a = link_token ?n k' b \<Longrightarrow> a = b"
    if "a \<in> set (ros2_links parts)" "b \<in> set (ros2_links parts)" for a b k k'
    using own [OF that] tok [OF that] by blast
  have sub: "set (rp_publishers parts) \<subseteq> set (ros2_links parts)" "set (rp_links parts) \<subseteq> set (ros2_links parts)"
    by (simp_all add: ros2_links_def)
  have inj: "inj_on (link_token ?n k) (set (rp_publishers parts))" "inj_on (link_token ?n k) (set (rp_links parts))" for k
    by (rule inj_onI, rule tells [of _ _ k k]; use sub in blast)+
  have kinds: "link_token ?n Publisher a \<noteq> link_token ?n Subscription b"
    if "a \<in> set (rp_publishers parts)" "b \<in> set (rp_links parts)" for a b
  proof
    assume "link_token ?n Publisher a = link_token ?n Subscription b"
    then have "a = b" using tells sub that by blast
    then show False using apart(3) that by blast
  qed
  have "distinct (map (link_token ?n Publisher) (rp_publishers parts))" "distinct (map (link_token ?n Subscription) (rp_links parts))"
    using apart(1,2) inj by (simp_all add: distinct_map)
  moreover have "set (map (link_token ?n Publisher) (rp_publishers parts)) \<inter> set (map (link_token ?n Subscription) (rp_links parts)) = {}"
    using kinds by auto
  moreover have "node_token ?n \<notin> set (map (link_token ?n Publisher) (rp_publishers parts))"
    "node_token ?n \<notin> set (map (link_token ?n Subscription) (rp_links parts))"
    using no_node unfolding ros2_links_def by (auto dest: sym)
  ultimately show "distinct (ros2_tokens zid parts)" unfolding ros2_tokens_def Let_def by simp
qed

lemma single_of_set: "distinct xs \<Longrightarrow> set xs = {x} \<Longrightarrow> xs = [x]"
  using distinct_card [of xs] by (cases xs; cases "tl xs") auto

definition link_for :: "string \<Rightarrow> string \<Rightarrow> string \<Rightarrow> ros2_link \<Rightarrow> bool" where
  "link_for topic ty hash l \<longleftrightarrow> lk_topic l = topic \<and> ry_dds (lk_type l) = ty \<and> ry_hash (lk_type l) = hash"

lemma topic_tl_inject:
  assumes "validate_topic a = Inr ()" and "validate_topic b = Inr ()" and "tl a = tl b"
  shows "a = b"
proof -
  have "a = slash_char # tl a" "b = slash_char # tl b"
    by (rule trim_slashes_topic(2) [OF assms(1) [unfolded validate_topic_def]])
      (rule trim_slashes_topic(2) [OF assms(2) [unfolded validate_topic_def]])
  then show ?thesis unfolding assms(3) by (rule trans [OF _ sym])
qed

lemma ros2_subscribers_hit:
  assumes "ros2_build keyexpr_new env c db = Some (Inr parts)"
    and "validate_topic topic = Inr ()" and "validate_dds_type_name ty = Inr ()" and "validate_type_hash hash = Inr ()"
  shows "filter (\<lambda>(key, _). key = data_key d topic ty hash) (rp_subscribers parts)
     = (if d = rp_domain parts \<and> (\<exists>l \<in> set (rp_links parts). link_for topic ty hash l)
        then [(data_key d topic ty hash, tl topic)] else [])"
proof -
  note built = ros2_build_parts [OF assms(1)]
  let ?key = "data_key d topic ty hash"
  let ?hits = "filter (\<lambda>(key, _). key = ?key) (rp_subscribers parts)"
  have sub: "subscribers_ok (rp_links parts) (rp_subscribers parts)" by (rule built(4))
  have ok: "link_ok (rp_domain parts) l" if "l \<in> set (rp_links parts)" for l using built(1) that by (simp add: ros2_links_def)
  have key: "lk_key l = ?key \<longleftrightarrow> d = rp_domain parts \<and> link_for topic ty hash l" if "l \<in> set (rp_links parts)" for l
    using ok [OF that] assms(2-4) by (auto simp: link_ok_def data_key_inject link_for_def)
  have hit: "\<exists>l \<in> set (rp_links parts). d = rp_domain parts \<and> link_for topic ty hash l \<and> x = (?key, tl topic)"
    if in_hits: "x \<in> set ?hits" for x
  proof -
    obtain k t where kt: "x = (k, t)" by (cases x)
    then have x: "x = (?key, t)" "(?key, t) \<in> set (rp_subscribers parts)" using in_hits by auto
    from x(2) obtain l where "l \<in> set (rp_links parts)" "?key = lk_key l" "t = tl (lk_topic l)"
      using sub by (auto simp: subscribers_ok_def)
    then show ?thesis using key x(1) by (auto simp: link_for_def)
  qed
  show ?thesis
  proof (cases "d = rp_domain parts \<and> (\<exists>l \<in> set (rp_links parts). link_for topic ty hash l)")
    case True
    then obtain l where l: "l \<in> set (rp_links parts)" "link_for topic ty hash l" "d = rp_domain parts" by blast
    then have "tl topic \<in> tl ` lk_topic ` set (rp_links parts)" by (auto simp: link_for_def)
    then have "tl topic \<in> snd ` set (rp_subscribers parts)" using sub by (simp add: subscribers_ok_def)
    then obtain k where k: "(k, tl topic) \<in> set (rp_subscribers parts)" by auto
    then obtain l' where l': "l' \<in> set (rp_links parts)" "k = lk_key l'" "tl topic = tl (lk_topic l')"
      using sub by (auto simp: subscribers_ok_def)
    have "lk_topic l' = topic"
      using topic_tl_inject [OF _ assms(2) l'(3) [symmetric]] ok [OF l'(1)] by (simp add: link_ok_def)
    moreover have "one_type [l', l]" using one_type_pair [OF built(2)] l(1) l'(1) by (simp add: ros2_links_def)
    ultimately have "lk_key l' = lk_key l"
      using same_key_same_topic [OF ok [OF l'(1)] ok [OF l(1)]] l(2) by (simp add: link_for_def)
    then have "k = ?key" using key [OF l(1)] l l'(2) by simp
    then have "(?key, tl topic) \<in> set ?hits" using k by simp
    then have "set ?hits = {(?key, tl topic)}" using hit by blast
    moreover have "distinct ?hits" using sub distinct_map [of snd "rp_subscribers parts"]
      by (simp add: subscribers_ok_def)
    ultimately have "?hits = [(?key, tl topic)]" by (intro single_of_set)
    then show ?thesis unfolding if_P [OF True] .
  next
    case False
    then have "set ?hits = {}" using hit by (intro equals0I) blast
    then have "?hits = []" by (rule set_empty [THEN iffD1])
    then show ?thesis unfolding if_not_P [OF False] .
  qed
qed

text \<open>
  What arrives on a ROS topic: a sample put under the key of a topic, type and hash in some domain is
  dispatched exactly once, under the link topic, when the domain is the connector's and an inbound link
  has that topic, type and hash, however many links share the topic; otherwise, and for a delete,
  nothing changes.
\<close>

theorem ros2_sample_once:
  assumes "ros2_build keyexpr_new env c db = Some (Inr parts)"
    and "validate_topic topic = Inr ()" and "validate_dds_type_name ty = Inr ()" and "validate_type_hash hash = Inr ()"
    and "sm_key sample = data_key d topic ty hash"
  shows "ros2_deliver now (rp_inbound parts) sample (rp_subscribers parts) db'
     = (if sm_kind sample = PutSample \<and> d = rp_domain parts \<and> (\<exists>l \<in> set (rp_links parts). link_for topic ty hash l)
        then inbound_dispatch now (rp_inbound parts) (tl topic) (sm_payload sample) db' else db')"
  unfolding ros2_deliver_def assms(5) ros2_subscribers_hit [OF assms(1-4)] by (auto simp: ros2_on_sample_def)

subsection \<open>Sequence numbers\<close>

abbreviation turn_route :: "u64 \<times> bool \<times> 'm outbound_message \<Rightarrow> nat" where
  "turn_route turn \<equiv> ri_id (om_route (snd (snd turn)))"

lemma ros2_serve_message_parts:
  "rl_sequence (ros2_serve_message gids senders t st)
     = (if senders ! turn_route t then (rl_sequence st)[turn_route t := rl_sequence st ! turn_route t + 1] else rl_sequence st)"
  "rl_puts (ros2_serve_message gids senders t st)
     = rl_puts st @ (if senders ! turn_route t
         then [\<lparr>rt_put_route = turn_route t, rt_put_payload = into_vec (om_payload (snd (snd t))),
                rt_put_attachment = attachment_encode \<lparr>at_sequence = rl_sequence st ! turn_route t + 1, at_timestamp = fst t,
                  at_gid = gids ! turn_route t\<rparr>\<rparr>] else [])"
  "rl_outbound (ros2_serve_message gids senders t st)
     = (if \<not> senders ! turn_route t \<or> \<not> fst (snd t) then reject (turn_route t) (rl_outbound st) else rl_outbound st)"
  by (simp_all add: ros2_serve_message_def Let_def case_prod_beta)

lemma enumerate_1_Cons: "enumerate (Suc 0) (x # xs) = (Suc 0, x) # map (\<lambda>(n, y). (Suc n, y)) (enumerate (Suc 0) xs)"
  by (rule nth_equalityI) (auto simp: nth_enumerate_eq nth_Cons split: nat.splits)

lemma ros2_serve_fold:
  assumes "\<forall>t \<in> set turns. turn_route t < length gids" and "length (rl_sequence st) = length gids"
    and "\<forall>g \<in> set gids. length g = 16" and "r < length gids"
  shows "map (\<lambda>p. (rt_put_payload p, attachment_decode (rt_put_attachment p)))
        (filter (\<lambda>p. rt_put_route p = r) (rl_puts (fold (ros2_serve_message gids senders) turns st)))
     = map (\<lambda>p. (rt_put_payload p, attachment_decode (rt_put_attachment p))) (filter (\<lambda>p. rt_put_route p = r) (rl_puts st))
       @ (if senders ! r then
            map (\<lambda>(n, now, _, msg). (into_vec (om_payload msg),
                  Some \<lparr>at_sequence = rl_sequence st ! r + of_nat n, at_timestamp = now, at_gid = gids ! r\<rparr>))
              (enumerate 1 (filter (\<lambda>t. turn_route t = r) turns))
          else [])
     \<and> rl_outbound (fold (ros2_serve_message gids senders) turns st)
       = fold reject (map turn_route (filter (\<lambda>t. \<not> senders ! turn_route t \<or> \<not> fst (snd t)) turns)) (rl_outbound st)"
  using assms
proof (induction turns arbitrary: st)
  case (Cons t turns)
  let ?st = "ros2_serve_message gids senders t st"
  have rid: "turn_route t < length gids" using Cons.prems(1) by simp
  have dec: "attachment_decode (attachment_encode \<lparr>at_sequence = n, at_timestamp = now, at_gid = gids ! r\<rparr>)
      = Some \<lparr>at_sequence = n, at_timestamp = now, at_gid = gids ! r\<rparr>" for n now
    using Cons.prems(3,4) by (simp add: attachment_exact)
  have "length (rl_sequence ?st) = length gids" using Cons.prems(2) by (simp add: ros2_serve_message_parts)
  note IH = Cons.IH [OF _ this Cons.prems(3,4)]
  show ?case
    using IH Cons.prems rid
    by (simp add: ros2_serve_message_parts dec enumerate_1_Cons o_def case_prod_beta add.assoc del: enumerate_simps)
qed simp

text \<open>
  The values of one publisher are put in order under the attachments 1, 2, 3 and so on, each with the
  time of its turn and the publisher's GID, whatever the other publishers and failed puts do; what is
  rejected is exactly what had no sender or failed to be put.
\<close>

theorem ros2_sequences:
  assumes "\<forall>t \<in> set turns. turn_route t < length gids" and "\<forall>g \<in> set gids. length g = 16" and "r < length gids"
  shows "map (\<lambda>p. (rt_put_payload p, attachment_decode (rt_put_attachment p)))
        (filter (\<lambda>p. rt_put_route p = r) (rl_puts (ros2_serve gids senders turns ob)))
     = (if senders ! r then
          map (\<lambda>(n, now, _, msg). (into_vec (om_payload msg),
                Some \<lparr>at_sequence = of_nat n, at_timestamp = now, at_gid = gids ! r\<rparr>))
            (enumerate 1 (filter (\<lambda>t. turn_route t = r) turns))
        else [])
     \<and> rl_outbound (ros2_serve gids senders turns ob)
       = fold reject (map turn_route (filter (\<lambda>t. \<not> senders ! turn_route t \<or> \<not> fst (snd t)) turns)) ob"
  using ros2_serve_fold [OF assms(1) _ assms(2,3), of "\<lparr>rl_sequence = replicate (length gids) 0, rl_outbound = ob, rl_puts = []\<rparr>" senders]
    assms(3) by (simp add: ros2_serve_def)

subsection \<open>A node with two inbound links and an outbound one\<close>

definition ros2_hash :: string where "ros2_hash = hash_prefix @ replicate 64 CHR ''0''"

definition ros2_demo_type :: ros_type where
  "ros2_demo_type = \<lparr>ry_type = 1, ry_dds = ''p::msg::dds_::M_'', ry_hash = ros2_hash, ry_wire = FormatCdr\<rparr>"

definition ros2_calls :: "(nat, nat, nat) builder_call list" where
  "ros2_calls =
    [WithConnector \<lparr>cn_scheme = ''ros2'', cn_owns = True, cn_id = 0\<rparr>, WithRuntime 0,
     Configure 1 ''r'' [CallBufferRaw (Mailbox None []),
       CallInput (with_deserializer (\<lambda>_. Inr 3) (inbound_link_new ''ros2://a/t''))],
     Configure 1 ''s'' [CallBufferRaw (Mailbox None []),
       CallInput (with_deserializer (\<lambda>_. Inr 4) (inbound_link_new ''ros2://a/t''))],
     Configure 1 ''o'' [CallSource 7, CallBufferRaw (Mailbox None []),
       CallOutput (with_serializer (\<lambda>_. Inr [5]) (outbound_link_new ''ros2://b''))]]"

definition ros2_demo_db :: "(nat, nat, nat) aimdb" where
  "ros2_demo_db =
    fst (case build_db (\<lambda>_. Inl '''') (\<lambda>_ _. (Inr [], [])) (builder_run 0 ros2_calls) of
       Some (Inr x) \<Rightarrow> x
     | _ \<Rightarrow> demo_build)"

definition ros2_demo_connector :: ros2_connector where
  "ros2_demo_connector = \<lparr>rc_node = \<lparr>rn_name = ''n'', rn_namespace = ''/''\<rparr>, rc_domain = None, rc_types = [ros2_demo_type]\<rparr>"

definition ros2_demo_link :: "string \<Rightarrow> u32 \<Rightarrow> ros2_link" where
  "ros2_demo_link resource entity =
    \<lparr>lk_topic = slash_char # resource, lk_type = ros2_demo_type, lk_qos = qos_default, lk_entity = entity,
     lk_key = data_key 8 (slash_char # resource) (ry_dds ros2_demo_type) ros2_hash, lk_unchecked = True\<rparr>"

definition ros2_demo_inbound :: "nat inbound_router" where
  "ros2_demo_inbound = (case inbound_router exact_compile ''ros2'' ros2_demo_db of Some (Inr rs) \<Rightarrow> rs | _ \<Rightarrow> [])"

definition ros2_demo_parts :: "nat ros2_parts" where
  "ros2_demo_parts =
    \<lparr>rp_domain = 8, rp_node = rc_node ros2_demo_connector, rp_outbound = outbound_for ''ros2'' ros2_demo_db,
     rp_publishers = [ros2_demo_link ''b'' 1], rp_inbound = ros2_demo_inbound,
     rp_links = [ros2_demo_link ''a/t'' 2, ros2_demo_link ''a/t'' 3],
     rp_subscribers = [(data_key 8 ''/a/t'' ''p::msg::dds_::M_'' ros2_hash, ''a/t'')]\<rparr>"

lemma ros2_demo_link_parts:
  "lk_topic (ros2_demo_link resource entity) = slash_char # resource"
  "lk_key (ros2_demo_link resource entity) = data_key 8 (slash_char # resource) ''p::msg::dds_::M_'' ros2_hash"
  by (simp_all add: ros2_demo_link_def ros2_demo_type_def)

lemma ros2_demo_names:
  "validate_topic ''/b'' = Inr ()" "validate_topic ''/a/t'' = Inr ()" "validate_node_name ''n'' = Inr ()"
  "validate_namespace ''/'' = Inr ()" "check_type ros2_demo_type = Inr ()"
  by code_simp+

lemma ros_link_demo:
  assumes "resource \<in> {''b'', ''a/t''}"
  shows "ros_link (\<lambda>_. True) resource (Suc 0) [] [ros2_demo_type] 8 entity = Inr (ros2_demo_link resource entity)"
proof -
  have "codec_is_unchecked resource [] = Inr True" by (simp add: codec_is_unchecked_def recorded_in_def)
  then show ?thesis
    using assms ros2_demo_names(1,2)
    by (auto simp: ros_link_def link_qos_def Let_def ros2_demo_link_def ros2_demo_type_def)
qed

lemma ros2_demo_built: "ros2_build (\<lambda>_. True) (Some '' 010 '') ros2_demo_connector ros2_demo_db = Some (Inr ros2_demo_parts)"
proof -
  have "trim_space '' 010 '' = ''010''" by code_simp
  moreover have "parse_domain ''010'' = from_str_radix ''10'' 8" by (simp add: parse_domain_def hex_value_def starts_with_def)
  moreover have "from_str_radix ''10'' 8 = Some 8" by (simp add: from_str_radix_def hex_value_def)
  ultimately have domain: "resolve_domain None (Some '' 010 '') = Inr 8" by (simp add: resolve_domain_def)
  have "map (\<lambda>r. (rr_resource r, rr_type r, rr_options r, rr_topic_capacity r)) (ros2_out_routes ros2_demo_db) = [(''b'', 1, [], 0)]"
    by code_simp
  then obtain r where "ros2_out_routes ros2_demo_db = [r]" "rr_resource r = ''b''" "rr_type r = 1" "rr_options r = []" "rr_topic_capacity r = 0"
    by auto
  then have pubs: "ros2_publishers (\<lambda>_. True) [ros2_demo_type] 8 (ros2_out_routes ros2_demo_db) = Inr [ros2_demo_link ''b'' 1]"
    by (simp add: ros2_publishers_def ros2_publisher_def ros_link_demo)
  have "case inbound_router exact_compile ''ros2'' ros2_demo_db of
      Some (Inr rs) \<Rightarrow> map (\<lambda>x. (ir_topic (snd (snd x)), ir_type (snd (snd x)), ir_config (snd (snd x)))) rs
        = [(''a/t'', 1, []), (''a/t'', 1, [])]
    | _ \<Rightarrow> False" by code_simp
  then have inbound: "inbound_router exact_compile ''ros2'' ros2_demo_db = Some (Inr ros2_demo_inbound)"
    and infos: "map (\<lambda>i. (ir_topic i, ir_type i, ir_config i)) (map (\<lambda>x. snd (snd x)) ros2_demo_inbound) = [(''a/t'', 1, []), (''a/t'', 1, [])]"
    by (auto simp: ros2_demo_inbound_def o_def split: option.splits sum.splits)
  obtain rs where rs: "map (\<lambda>x. snd (snd x)) ros2_demo_inbound = rs" by simp
  obtain a b where "rs = [a, b]" "ir_topic a = ''a/t''" "ir_type a = 1" "ir_config a = []"
    "ir_topic b = ''a/t''" "ir_type b = 1" "ir_config b = []"
    using infos [unfolded rs] by auto
  then have subs: "ros2_subscriptions (\<lambda>_. True) [ros2_demo_type] 8 2 (map (\<lambda>x. snd (snd x)) ros2_demo_inbound)
      = Inr ([ros2_demo_link ''a/t'' 2, ros2_demo_link ''a/t'' 3], [(data_key 8 ''/a/t'' ''p::msg::dds_::M_'' ros2_hash, ''a/t'')])"
    unfolding rs by (simp add: ros2_subscriptions_def protocol_options_def ros_link_demo ros2_demo_link_parts)
  have one: "one_type_per_topic [ros2_demo_link ''b'' 1, ros2_demo_link ''a/t'' 2, ros2_demo_link ''a/t'' 3] = Inr ()"
    by (simp add: one_type_per_topic_iff one_type_def same_type_def ros2_demo_link_def)
  show ?thesis
    by (simp add: ros2_build_def ros2_demo_connector_def domain ros2_demo_names pubs inbound subs one ros2_demo_parts_def)
qed

theorem ros2_wire_unambiguous_witness:
  "distinct (ros2_tokens ''ab'' ros2_demo_parts) \<and> length (ros2_tokens ''ab'' ros2_demo_parts) = 4"
proof -
  have "length (ros2_links ros2_demo_parts) < 2 ^ 32" by (simp add: ros2_links_def ros2_demo_parts_def)
  then show ?thesis
    using ros2_wire_unambiguous [OF ros2_demo_built, of "''ab''"] by (simp add: ros2_tokens_def ros2_demo_parts_def Let_def)
qed

theorem ros2_sample_once_witness:
  "ros2_deliver (\<lambda>_. 7) ros2_demo_inbound
     \<lparr>sm_key = data_key 8 ''/a/t'' ''p::msg::dds_::M_'' ros2_hash, sm_kind = PutSample, sm_payload = [1]\<rparr>
     (rp_subscribers ros2_demo_parts) ros2_demo_db
   = inbound_dispatch (\<lambda>_. 7) ros2_demo_inbound ''a/t'' [1] ros2_demo_db"
proof -
  let ?sample = "\<lparr>sm_key = data_key 8 ''/a/t'' ''p::msg::dds_::M_'' ros2_hash, sm_kind = PutSample, sm_payload = [1]\<rparr>"
  have names: "validate_dds_type_name ''p::msg::dds_::M_'' = Inr ()" "validate_type_hash ros2_hash = Inr ()" by code_simp+
  have hit: "link_for ''/a/t'' ''p::msg::dds_::M_'' ros2_hash (ros2_demo_link ''a/t'' e)" for e
    by (simp add: ros2_demo_link_def ros2_demo_type_def link_for_def)
  show ?thesis
    using ros2_sample_once [OF ros2_demo_built ros2_demo_names(2) names, of ?sample 8 "\<lambda>_. 7" ros2_demo_db]
    by (simp add: ros2_demo_parts_def hit)
qed

definition ros2_demo_turn :: "nat \<Rightarrow> u64 \<Rightarrow> bool \<Rightarrow> u64 \<times> bool \<times> unit outbound_message" where
  "ros2_demo_turn i now ok =
    (now, ok, \<lparr>om_route = (ob_routes (rp_outbound ros2_demo_parts) ! 0)\<lparr>ri_id := i\<rparr>, om_topic = [], om_payload = Owned [5], om_metadata = ()\<rparr>)"

theorem ros2_sequences_witness:
  "map (\<lambda>p. (rt_put_payload p, attachment_decode (rt_put_attachment p)))
      (filter (\<lambda>p. rt_put_route p = 0)
        (rl_puts (ros2_serve [replicate 16 1, replicate 16 2] [True, True]
          [ros2_demo_turn 0 7 True, ros2_demo_turn 1 8 False, ros2_demo_turn 0 9 True] (outbound_new [] [] [] :: (nat, unit) outbound_routes))))
   = [([5], Some \<lparr>at_sequence = 1, at_timestamp = 7, at_gid = replicate 16 1\<rparr>),
      ([5], Some \<lparr>at_sequence = 2, at_timestamp = 9, at_gid = replicate 16 1\<rparr>)]"
  by (subst conjunct1 [OF ros2_sequences]) (simp_all add: ros2_demo_turn_def)

end
