(* ===== verification/Mqtt_Links.thy ===== *)
theory Mqtt_Links
  imports Db_Links
begin

text \<open>
  \<open>aimdb-mqtt-connector\<close>: the options of links (\<open>publish_opts.rs\<close>), the filters to subscribe and
  their QoS (\<open>subscribe_qos.rs\<close>), the keep-alive (\<open>connector.rs\<close>, \<open>embedded/manager.rs\<close>), and what
  building the embedded backend checks (\<open>embedded/mod.rs\<close>).  The sizes \<open>mountain-mqtt\<close> encodes packets
  to are parameters.  Times are milliseconds.
\<close>

subsection \<open>Options of a link\<close>

datatype mqtt_problem =
    BadQos string string
  | BadRetain string string
  | BadFilter string
  | PublishFrame string nat
  | ConnectFrame nat
  | SubscribeFrame string nat
  | Unsized

record publish_opts =
  po_qos :: nat
  po_retain :: bool

definition config_option :: "string \<Rightarrow> (string \<times> string) list \<Rightarrow> string option" where
  "config_option key options = map_option snd (find (\<lambda>(k, _). k = key) options)"

definition parse_qos :: "(string \<times> string) list \<Rightarrow> string \<Rightarrow> mqtt_problem + nat" where
  "parse_qos options topic =
     (case config_option ''qos'' options of
        None \<Rightarrow> Inr 1
      | Some v \<Rightarrow>
          if v = ''0'' then Inr 0
          else if v = ''1'' then Inr 1
          else if v = ''2'' then Inr 2
          else Inl (BadQos topic v))"

definition publish_opts_parse :: "string \<Rightarrow> (string \<times> string) list \<Rightarrow> mqtt_problem + publish_opts" where
  "publish_opts_parse topic options =
     (case parse_qos options topic of
        Inl e \<Rightarrow> Inl e
      | Inr q \<Rightarrow>
          (case config_option ''retain'' options of
             None \<Rightarrow> Inr \<lparr>po_qos = q, po_retain = False\<rparr>
           | Some v \<Rightarrow>
               if v = ''false'' then Inr \<lparr>po_qos = q, po_retain = False\<rparr>
               else if v = ''true'' then Inr \<lparr>po_qos = q, po_retain = True\<rparr>
               else Inl (BadRetain topic v)))"

subsection \<open>The QoS of a subscription\<close>

record mqtt_subscription =
  su_filter :: string
  su_qos :: nat

definition route_qos :: "inbound_route_info \<Rightarrow> mqtt_problem + nat" where
  "route_qos info = parse_qos (protocol_options (ir_config info)) (ir_topic info)"

definition filter_of :: "string \<Rightarrow> mqtt_problem + string" where
  "filter_of topic =
     (case parse_pattern topic of
        Inl _ \<Rightarrow> Inl (BadFilter topic)
      | Inr pattern \<Rightarrow>
          (case mqtt_compile pattern of
             Inl _ \<Rightarrow> Inl (BadFilter topic)
           | Inr f \<Rightarrow> Inr (tf_filter f)))"

fun qos_links :: "inbound_route_info list \<Rightarrow> mqtt_problem list \<times> (string \<times> nat) list" where
  "qos_links [] = ([], [])"
| "qos_links (r # rs) =
     (case qos_links rs of (problems, links) \<Rightarrow>
        (case (route_qos r, filter_of (ir_topic r)) of
           (Inr q, Inr f) \<Rightarrow> (problems, (f, q) # links)
         | (Inl e, _) \<Rightarrow> (e # problems, links)
         | (_, Inl e) \<Rightarrow> (e # problems, links)))"

definition highest :: "nat list \<Rightarrow> nat" where
  "highest qs = (case qs of [] \<Rightarrow> 1 | q # rest \<Rightarrow> fold max rest q)"

definition assign_qos :: "string list \<Rightarrow> (string \<times> nat) list \<Rightarrow> mqtt_subscription list" where
  "assign_qos filters links =
     map (\<lambda>f. \<lparr>su_filter = f, su_qos = highest (map snd (filter (\<lambda>(link, _). mqtt_covers f link) links))\<rparr>) filters"

definition mqtt_subscriptions :: "'v inbound_router \<Rightarrow> mqtt_problem list + mqtt_subscription list" where
  "mqtt_subscriptions inbound =
     (case qos_links (map (\<lambda>x. snd (snd x)) inbound) of (problems, links) \<Rightarrow>
        if problems \<noteq> [] then Inl problems
        else Inr (assign_qos (subscriptions mqtt_covers (map fst inbound)) links))"

datatype quality_of_service = Qos0 | Qos1 | Qos2

text \<open>\<open>mountain-mqtt\<close> has no QoS 2.\<close>

definition mountain_qos :: "nat \<Rightarrow> quality_of_service" where
  "mountain_qos q = (if q = 0 then Qos0 else Qos1)"

definition rumqtt_qos :: "nat \<Rightarrow> quality_of_service" where
  "rumqtt_qos q = (if q = 0 then Qos0 else if q = 2 then Qos2 else Qos1)"

subsection \<open>Keep-alive\<close>

datatype keep_alive_error = KeepAliveTooShort nat | KeepAliveTooLong nat

definition keep_alive_min :: nat where "keep_alive_min = 10"

definition keep_alive_secs :: "nat \<Rightarrow> keep_alive_error + nat" where
  "keep_alive_secs secs =
     (if secs < keep_alive_min then Inl (KeepAliveTooShort secs)
      else if 2 ^ 16 \<le> secs then Inl (KeepAliveTooLong secs)
      else Inr secs)"

record settings =
  se_keep_alive_secs :: nat
  se_ping_interval :: nat
  se_max_silence :: nat
  se_reconnection_delay :: nat
  se_response_timeout :: nat

definition from_keep_alive_secs :: "nat \<Rightarrow> settings" where
  "from_keep_alive_secs secs =
     (let keep_alive = 1000 * secs
      in \<lparr>se_keep_alive_secs = secs, se_ping_interval = keep_alive div 2, se_max_silence = keep_alive * 3 div 2,
          se_reconnection_delay = 2000, se_response_timeout = keep_alive\<rparr>)"

subsection \<open>What the embedded backend checks\<close>

definition control_reserve :: nat where "control_reserve = 64"

definition fits_ring :: "nat \<Rightarrow> nat \<Rightarrow> nat \<Rightarrow> bool" where
  "fits_ring capacity len reserve \<longleftrightarrow> len + reserve \<le> capacity div 2"

record mqtt_sizes =
  sz_publish :: "nat \<Rightarrow> nat \<Rightarrow> nat option"
  sz_connect :: "nat option"
  sz_subscribe :: "string \<Rightarrow> nat option"

text \<open>The routes: the problems and options so far, or \<open>None\<close> when a packet could not be sized.\<close>

fun check_routes ::
  "mqtt_sizes \<Rightarrow> nat \<Rightarrow> (string \<times> (string \<times> string) list \<times> nat \<times> nat) list
   \<Rightarrow> mqtt_problem list \<Rightarrow> publish_opts list \<Rightarrow> (mqtt_problem list \<times> publish_opts list) option" where
  "check_routes sizes write_buffer [] problems opts = Some (problems, opts)"
| "check_routes sizes write_buffer ((topic, options, topic_capacity, payload_capacity) # routes) problems opts =
     (let (problems, opts) =
        (case publish_opts_parse topic options of
           Inr opt \<Rightarrow> (problems, opts @ [opt])
         | Inl e \<Rightarrow> (problems @ [e], opts))
      in (case sz_publish sizes (max (length topic) topic_capacity) payload_capacity of
            None \<Rightarrow> None
          | Some frame \<Rightarrow>
              check_routes sizes write_buffer routes
                (if fits_ring write_buffer frame control_reserve then problems else problems @ [PublishFrame topic frame])
                opts))"

fun check_topics :: "mqtt_sizes \<Rightarrow> nat \<Rightarrow> mqtt_subscription list \<Rightarrow> mqtt_problem list \<Rightarrow> mqtt_problem list option" where
  "check_topics sizes write_buffer [] problems = Some problems"
| "check_topics sizes write_buffer (t # topics) problems =
     (case sz_subscribe sizes (su_filter t) of
        None \<Rightarrow> None
      | Some n \<Rightarrow>
          check_topics sizes write_buffer topics
            (if fits_ring write_buffer n 0 then problems else problems @ [SubscribeFrame (su_filter t) n]))"

definition mqtt_out_routes :: "string \<Rightarrow> ('v, 'j, 'f) aimdb \<Rightarrow> (string \<times> (string \<times> string) list \<times> nat \<times> nat) list" where
  "mqtt_out_routes scheme db =
     map (\<lambda>(e, l). (la_resource (cl_url l), protocol_options (cl_config l),
         (case cl_topic_writer l of Some (c, _) \<Rightarrow> c | None \<Rightarrow> 0), (case cl_serialize_into l of Some (c, _) \<Rightarrow> c | None \<Rightarrow> 0)))
       (scheme_out_links scheme db)"

definition prepare_outbound ::
  "mqtt_sizes \<Rightarrow> string \<Rightarrow> nat \<Rightarrow> mqtt_subscription list \<Rightarrow> ('v, 'j, 'f) aimdb
   \<Rightarrow> mqtt_problem list + ('v, u64) outbound_routes \<times> publish_opts list" where
  "prepare_outbound sizes scheme write_buffer topics db =
     (case check_routes sizes write_buffer (mqtt_out_routes scheme db) [] [] of
        None \<Rightarrow> Inl [Unsized]
      | Some (problems, opts) \<Rightarrow>
          (case sz_connect sizes of
             None \<Rightarrow> Inl [Unsized]
           | Some connect \<Rightarrow>
               (case check_topics sizes write_buffer topics
                       (if fits_ring write_buffer connect 0 then problems else problems @ [ConnectFrame connect]) of
                  None \<Rightarrow> Inl [Unsized]
                | Some problems \<Rightarrow>
                    if problems \<noteq> [] then Inl problems else Inr (outbound_for scheme db, opts))))"

subsection \<open>Every link gets its QoS\<close>

lemma mqtt_covers_refl: "mqtt_covers f f"
proof -
  have "covers_from i fs fs" if "0 < i" for i fs
    using that by (induction fs arbitrary: i) auto
  then show ?thesis
    unfolding mqtt_covers_def by (cases "split_on slash f") (auto simp: starts_with_def)
qed

lemma fold_max_in: "fold max qs q \<in> set (q # qs) \<and> (\<forall>x \<in> set (q # qs). x \<le> fold max qs q)" for q :: nat
  by (induction qs arbitrary: q) (force simp: max_def)+

lemma highest_in: "qs \<noteq> [] \<Longrightarrow> highest qs \<in> set qs"
  and highest_ge: "q \<in> set qs \<Longrightarrow> q \<le> highest qs"
  using fold_max_in by (cases qs; fastforce simp: highest_def)+

lemma qos_links_ok:
  assumes "qos_links infos = ([], links)"
  shows "list_all2 (\<lambda>info l. filter_of (ir_topic info) = Inr (fst l) \<and> route_qos info = Inr (snd l)) infos links"
  using assms
proof (induction infos arbitrary: links)
  case (Cons r rs)
  then show ?case
    by (cases "qos_links rs"; cases "route_qos r"; cases "filter_of (ir_topic r)") auto
qed simp

lemma inbound_filter_of:
  assumes "db_ok db" and "inbound_router mqtt_compile_opt scheme db = Some (Inr inbound)" and "(r, g, info) \<in> set inbound"
  shows "mqtt.compiled r" and "filter_of (ir_topic info) = Inr (cr_filter r)"
proof -
  have "list_all2 (route_from_link mqtt_compile_opt db) (scheme_links scheme db) inbound"
    using collect_routes_own [OF assms(1) subset_refl, of mqtt_compile_opt scheme] assms(2)
    by (auto simp: inbound_router_def split: if_splits)
  then obtain x where "route_from_link mqtt_compile_opt db x (r, g, info)"
    using assms(3) by (metis list_all2_conv_all_nth in_set_conv_nth)
  then obtain pattern f names key ingest where f: "parse_pattern (ir_topic info) = Inr pattern"
    "mqtt_compile_opt (ir_topic info) pattern = Some f" "r = route_pattern f names key ingest"
    by (cases x) (auto simp: route_from_link_def)
  then show "mqtt.compiled r" unfolding mqtt.compiled_def by blast
  show "filter_of (ir_topic info) = Inr (cr_filter r)"
    using f by (auto simp: filter_of_def mqtt_compile_opt_def route_pattern_def split: sum.splits)
qed

text \<open>
  C31. Pruning the subscriptions costs no link its quality: when a topic hits an inbound link, the broker
  is asked for it through a filter that selects the topic, at no less than the QoS of the link; and no
  filter is subscribed at a QoS that none of the links it covers asked for.
\<close>

theorem mqtt_qos_met:
  assumes "db_ok db" and "inbound_router mqtt_compile_opt scheme db = Some (Inr inbound)"
    and "mqtt_subscriptions inbound = Inr subs"
  shows "(\<forall>(r, g, info) \<in> set inbound. \<forall>topic. hits r topic \<longrightarrow>
        (\<exists>s \<in> set subs. \<exists>q. mqtt_meaning (su_filter s) topic \<and> route_qos info = Inr q \<and> q \<le> su_qos s))
    \<and> (\<forall>s \<in> set subs. \<exists>(r, g, info) \<in> set inbound. mqtt_covers (su_filter s) (cr_filter r) \<and> route_qos info = Inr (su_qos s))"
proof -
  let ?infos = "map (\<lambda>x. snd (snd x)) inbound" and ?filters = "subscriptions mqtt_covers (map fst inbound)"
  obtain links where links: "qos_links ?infos = ([], links)" and subs: "subs = assign_qos ?filters links"
    using assms(3) by (auto simp: mqtt_subscriptions_def split: prod.splits if_splits)
  note all = qos_links_ok [OF links]
  have compiled: "\<forall>r \<in> set (map fst inbound). mqtt.compiled r"
    using inbound_filter_of(1) [OF assms(1,2)] by auto
  have link: "\<exists>q. route_qos info = Inr q \<and> (cr_filter r, q) \<in> set links" if x: "(r, g, info) \<in> set inbound" for r g info
  proof -
    obtain i where i: "i < length inbound" "inbound ! i = (r, g, info)" using x by (auto simp: in_set_conv_nth)
    then have "filter_of (ir_topic info) = Inr (fst (links ! i))" "route_qos info = Inr (snd (links ! i))" "i < length links"
      using all by (auto simp: list_all2_conv_all_nth)
    moreover have "filter_of (ir_topic info) = Inr (cr_filter r)" using inbound_filter_of(2) [OF assms(1,2) x] .
    ultimately show ?thesis by (metis nth_mem prod.collapse sum.inject(2))
  qed
  have from_link: "\<exists>(r, g, info) \<in> set inbound. cr_filter r = f \<and> route_qos info = Inr q" if l: "(f, q) \<in> set links" for f q
  proof -
    obtain i where i: "i < length links" "links ! i = (f, q)" using l by (auto simp: in_set_conv_nth)
    then have "i < length inbound" using all by (auto simp: list_all2_conv_all_nth)
    moreover obtain r g info where x: "inbound ! i = (r, g, info)" by (cases "inbound ! i")
    ultimately have mem: "(r, g, info) \<in> set inbound" by (metis nth_mem)
    have "filter_of (ir_topic info) = Inr f" "route_qos info = Inr q"
      using all i \<open>i < length inbound\<close> x by (auto simp: list_all2_conv_all_nth)
    then show ?thesis using inbound_filter_of(2) [OF assms(1,2) mem] mem by auto
  qed
  let ?qs = "\<lambda>f. map snd (filter (\<lambda>(link, _). mqtt_covers f link) links)"
  have "\<exists>s \<in> set subs. \<exists>q. mqtt_meaning (su_filter s) topic \<and> route_qos info = Inr q \<and> q \<le> su_qos s"
    if x: "(r, g, info) \<in> set inbound" and hit: "hits r topic" for r g info topic
  proof -
    have r: "r \<in> set (map fst inbound)" using x by force
    obtain f where f: "f \<in> set ?filters" "mqtt_valid f" "f = cr_filter r \<or> mqtt_covers f (cr_filter r)"
      using mqtt.subscription_above [OF compiled r] by blast
    then have covers: "mqtt_covers f (cr_filter r)" using mqtt_covers_refl by auto
    have "mqtt_meaning (cr_filter r) topic" using mqtt.compiled_hit [of r topic no_spans] compiled r hit unfolding hits_def by blast
    then have "mqtt_meaning f topic" using mqtt_covers_sound [OF covers f(2)] by blast
    moreover obtain q where q: "route_qos info = Inr q" "(cr_filter r, q) \<in> set links" using link [OF x] by blast
    then have "q \<in> set (?qs f)" using covers by force
    then have "q \<le> highest (?qs f)" by (rule highest_ge)
    ultimately show ?thesis using f(1) q(1) by (auto simp: subs assign_qos_def)
  qed
  moreover have "\<exists>(r, g, info) \<in> set inbound. mqtt_covers (su_filter s) (cr_filter r) \<and> route_qos info = Inr (su_qos s)"
    if s: "s \<in> set subs" for s
  proof -
    have f: "su_filter s \<in> set ?filters" "su_qos s = highest (?qs (su_filter s))"
      using s by (auto simp: subs assign_qos_def)
    then have "su_filter s \<in> set (resource_ids (map fst inbound))"
      by (auto simp: subscriptions_def Let_def simp del: set_resource_ids)
    then obtain r g info where x: "(r, g, info) \<in> set inbound" "cr_filter r = su_filter s" by auto
    then obtain q where "(su_filter s, q) \<in> set links" using link [OF x(1)] by auto
    then have "?qs (su_filter s) \<noteq> []" using mqtt_covers_refl by (force simp: filter_empty_conv)
    then have "su_qos s \<in> set (?qs (su_filter s))" unfolding f(2) by (intro highest_in) (simp only: map_is_Nil_conv not_False_eq_True)
    then obtain l where "(l, su_qos s) \<in> set links" "mqtt_covers (su_filter s) l" by auto
    then show ?thesis using from_link by fastforce
  qed
  ultimately show ?thesis by blast
qed

theorem mqtt_qos_met_witness:
  "\<exists>(r, g, info) \<in> set demo_routes. mqtt_covers ''t'' (cr_filter r) \<and> route_qos info = Inr 1"
proof -
  have ok: "db_ok demo_db" using running_ok [OF demo_len demo_built, of undefined "[]"] by (simp add: db_run_def)
  have "case inbound_router mqtt_compile_opt ''mqtt'' demo_db of Some (Inr rs) \<Rightarrow> True | _ \<Rightarrow> False" by code_simp
  then have routes: "inbound_router mqtt_compile_opt ''mqtt'' demo_db = Some (Inr demo_routes)"
    by (auto simp: demo_routes_def split: option.splits sum.splits)
  have links: "qos_links (map (\<lambda>x. snd (snd x)) demo_routes) = ([], [(''t'', 1)])" by code_simp
  have filters: "map cr_filter (map fst demo_routes) = [''t'']" by code_simp
  have ids: "resource_ids (map fst demo_routes) = [''t'']" unfolding resource_ids_def filters by simp
  have "subscriptions mqtt_covers (map fst demo_routes) = [''t'']"
    unfolding subscriptions_def ids Let_def by (simp add: redundant_def upt_rec)
  moreover have "mqtt_covers ''t'' ''t''" by (rule mqtt_covers_refl)
  ultimately have "mqtt_subscriptions demo_routes = Inr [\<lparr>su_filter = ''t'', su_qos = 1\<rparr>]"
    by (simp add: mqtt_subscriptions_def links assign_qos_def highest_def)
  from conjunct2 [OF mqtt_qos_met [OF ok routes this]] show ?thesis by simp
qed

subsection \<open>What a build accepts\<close>

definition route_fits :: "mqtt_sizes \<Rightarrow> nat \<Rightarrow> string \<times> (string \<times> string) list \<times> nat \<times> nat \<Rightarrow> bool" where
  "route_fits sizes write_buffer r =
     (case r of (topic, _, tc, pc) \<Rightarrow>
        (case sz_publish sizes (max (length topic) tc) pc of None \<Rightarrow> False | Some n \<Rightarrow> fits_ring write_buffer n control_reserve))"

definition route_opts :: "string \<times> (string \<times> string) list \<times> nat \<times> nat \<Rightarrow> mqtt_problem + publish_opts" where
  "route_opts r = publish_opts_parse (fst r) (fst (snd r))"

lemma check_routes_iff:
  "check_routes sizes wb routes problems opts = Some ([], opts')
     \<longleftrightarrow> problems = [] \<and> (\<exists>more. opts' = opts @ more \<and> map route_opts routes = map Inr more) \<and> list_all (route_fits sizes wb) routes"
proof (induction sizes wb routes problems opts rule: check_routes.induct)
  case (2 sizes wb topic options tc pc routes problems opts)
  show ?case
  proof (cases "publish_opts_parse topic options")
    case (Inl e)
    then show ?thesis
      using "2.IH" by (auto simp: route_opts_def Cons_eq_map_conv split: option.split)
  next
    case (Inr opt)
    have "(\<exists>more. opts' = (opts @ [opt]) @ more \<and> map route_opts routes = map Inr more)
        \<longleftrightarrow> (\<exists>more. opts' = opts @ more \<and> Inr opt # map route_opts routes = map Inr more)"
      by (auto simp: Cons_eq_map_conv)
    then show ?thesis
      using "2.IH" Inr by (auto simp: route_opts_def route_fits_def split: option.split)
  qed
qed auto

lemma check_topics_iff:
  "check_topics sizes wb topics problems = Some []
     \<longleftrightarrow> problems = [] \<and> (\<forall>t \<in> set topics. \<exists>n. sz_subscribe sizes (su_filter t) = Some n \<and> fits_ring wb n 0)"
  by (induction sizes wb topics problems rule: check_topics.induct) (auto split: option.split)

text \<open>
  A build is accepted exactly when the options of every outbound link parse and every packet the
  session has to send fits the write ring: the CONNECT, each SUBSCRIBE, and the largest PUBLISH of each
  link with the bytes kept for the control packet behind it.
\<close>

theorem mqtt_build_exact:
  "prepare_outbound sizes scheme wb topics db = Inr (ob, opts) \<longleftrightarrow>
     ob = outbound_for scheme db \<and> map route_opts (mqtt_out_routes scheme db) = map Inr opts
     \<and> list_all (route_fits sizes wb) (mqtt_out_routes scheme db)
     \<and> (\<exists>n. sz_connect sizes = Some n \<and> fits_ring wb n 0)
     \<and> (\<forall>t \<in> set topics. \<exists>n. sz_subscribe sizes (su_filter t) = Some n \<and> fits_ring wb n 0)"
proof -
  let ?routes = "mqtt_out_routes scheme db"
  show ?thesis
  proof (cases "check_routes sizes wb ?routes [] []")
    case None
    then have "\<nexists>opts. map route_opts ?routes = map Inr opts \<and> list_all (route_fits sizes wb) ?routes"
      using check_routes_iff [of sizes wb ?routes "[]" "[]"] by auto
    then show ?thesis using None by (auto simp: prepare_outbound_def)
  next
    case (Some x)
    obtain problems os where x: "x = (problems, os)" by (cases x)
    have routes: "problems = [] \<and> os = opts \<longleftrightarrow> map route_opts ?routes = map Inr opts \<and> list_all (route_fits sizes wb) ?routes"
      using check_routes_iff [of sizes wb ?routes "[]" "[]" opts] Some x by auto
    have topics: "(check_topics sizes wb topics ps = Some [])
        \<longleftrightarrow> ps = [] \<and> (\<forall>t \<in> set topics. \<exists>n. sz_subscribe sizes (su_filter t) = Some n \<and> fits_ring wb n 0)" for ps
      by (rule check_topics_iff)
    have "prepare_outbound sizes scheme wb topics db = Inr (ob, opts) \<longleftrightarrow>
        (\<exists>n. sz_connect sizes = Some n
           \<and> check_topics sizes wb topics (if fits_ring wb n 0 then problems else problems @ [ConnectFrame n]) = Some [])
        \<and> ob = outbound_for scheme db \<and> os = opts"
      by (auto simp: prepare_outbound_def Some x split: option.split)
    also have "\<dots> \<longleftrightarrow> (\<exists>n. sz_connect sizes = Some n \<and> fits_ring wb n 0 \<and> problems = []
           \<and> (\<forall>t \<in> set topics. \<exists>n. sz_subscribe sizes (su_filter t) = Some n \<and> fits_ring wb n 0))
        \<and> ob = outbound_for scheme db \<and> os = opts"
      unfolding topics by auto
    finally show ?thesis using routes by blast
  qed
qed

end
