(* ===== verification/Mqtt_Packets.thy ===== *)
theory Mqtt_Packets
  imports Prelude
begin

unbundle bit_operations_syntax

text \<open>
  \<open>aimdb-mqtt-connector/src/embedded/packet_reader.rs\<close>: MQTT packets cut out of a stream.  What
  \<open>mountain-mqtt\<close> decides of a first byte (\<open>is_valid_first_header_byte\<close>) and of a length field
  (\<open>get_variable_u32\<close>) are the parameters \<open>valid_first\<close> and \<open>variable_u32\<close>.  The array is a list of
  length \<open>N\<close>.
\<close>

datatype packet_read_error =
    PacketTooLargeForBuffer
  | InvalidPacketType
  | InvalidVariableByteIntegerEncoding
  | ConnectionReceive
  | OtherRead nat

record packet_reader =
  pr_buf :: bytes
  pr_len :: nat

definition reader_new :: "nat \<Rightarrow> packet_reader" where
  "reader_new N = \<lparr>pr_buf = replicate N 0, pr_len = 0\<rparr>"

definition feed :: "bytes \<Rightarrow> packet_reader \<Rightarrow> packet_read_error + packet_reader" where
  "feed bs r =
     (if length (pr_buf r) < pr_len r + length bs then Inl PacketTooLargeForBuffer
      else Inr \<lparr>pr_buf = take (pr_len r) (pr_buf r) @ bs @ drop (pr_len r + length bs) (pr_buf r),
                pr_len = pr_len r + length bs\<rparr>)"

text \<open>The loop over the length field from \<open>pos\<close>; \<open>None\<close> while the field is still arriving.\<close>

function length_end :: "packet_reader \<Rightarrow> nat \<Rightarrow> packet_read_error + nat option" where
  "length_end r pos =
     (if 4 < pos then Inl InvalidVariableByteIntegerEncoding
      else if pr_len r < pos + 1 then Inr None
      else if pr_buf r ! pos AND 128 = 0 then Inr (Some (pos + 1))
      else length_end r (pos + 1))"
  by pat_completeness auto
termination
  by (relation "measure (\<lambda>(r, pos). 5 - pos)") auto

declare length_end.simps [simp del]

definition framed_len ::
  "(u8 \<Rightarrow> bool) \<Rightarrow> (bytes \<Rightarrow> packet_read_error + nat) \<Rightarrow> packet_reader \<Rightarrow> packet_read_error + nat option" where
  "framed_len valid_first variable_u32 r =
     (if pr_len r < 1 then Inr None
      else if \<not> valid_first (pr_buf r ! 0) then Inl InvalidPacketType
      else (case length_end r 1 of
              Inl e \<Rightarrow> Inl e
            | Inr None \<Rightarrow> Inr None
            | Inr (Some pos) \<Rightarrow>
                (case variable_u32 (take (pos - 1) (drop 1 (pr_buf r))) of
                   Inl e \<Rightarrow> Inl e
                 | Inr remaining \<Rightarrow>
                     if length (pr_buf r) < pos + remaining then Inl PacketTooLargeForBuffer
                     else if pr_len r < pos + remaining then Inr None
                     else Inr (Some (pos + remaining)))))"

definition head_needs_ack :: "packet_reader \<Rightarrow> bool" where
  "head_needs_ack r \<longleftrightarrow>
     0 < pr_len r \<and> drop_bit 4 (pr_buf r ! 0) = 3 \<and> drop_bit 1 (pr_buf r ! 0) AND 3 \<noteq> 0"

text \<open>The bytes \<open>parse\<close> reads.\<close>

definition head_packet :: "nat \<Rightarrow> packet_reader \<Rightarrow> bytes" where
  "head_packet total_len r = take total_len (pr_buf r)"

definition consume :: "nat \<Rightarrow> packet_reader \<Rightarrow> packet_reader" where
  "consume total_len r =
     \<lparr>pr_buf = take (pr_len r - total_len) (drop total_len (pr_buf r)) @ drop (pr_len r - total_len) (pr_buf r),
      pr_len = pr_len r - total_len\<rparr>"

subsection \<open>The bytes held\<close>

definition held :: "packet_reader \<Rightarrow> bytes" where
  "held r = take (pr_len r) (pr_buf r)"

definition reader_ok :: "nat \<Rightarrow> packet_reader \<Rightarrow> bool" where
  "reader_ok N r \<longleftrightarrow> length (pr_buf r) = N \<and> pr_len r \<le> N"

lemma length_held: "reader_ok N r \<Longrightarrow> length (held r) = pr_len r"
  by (simp add: reader_ok_def held_def)

lemma held_nth: "reader_ok N r \<Longrightarrow> i < pr_len r \<Longrightarrow> pr_buf r ! i = held r ! i"
  by (simp add: held_def)

lemma reader_new_ok [simp]: "reader_ok N (reader_new N)" "held (reader_new N) = []"
  by (simp_all add: reader_ok_def reader_new_def held_def)

lemma feed_iff:
  assumes "reader_ok N r"
  shows "feed bs r = Inl e \<longleftrightarrow> e = PacketTooLargeForBuffer \<and> N < length (held r) + length bs"
    and "feed bs r = Inr r' \<Longrightarrow> reader_ok N r' \<and> held r' = held r @ bs"
    and "length (held r) + length bs \<le> N \<Longrightarrow> \<exists>r'. feed bs r = Inr r'"
  using assms by (auto simp: feed_def reader_ok_def held_def split: if_splits)

lemma consume_ok:
  assumes "reader_ok N r" and "n \<le> length (held r)"
  shows "reader_ok N (consume n r)" and "held (consume n r) = drop n (held r)"
  using assms by (auto simp: consume_def reader_ok_def held_def drop_take)

text \<open>What a length field says, as a function of the bytes held.\<close>

fun field_end :: "bytes \<Rightarrow> nat \<Rightarrow> nat \<Rightarrow> packet_read_error + nat option" where
  "field_end [] pos budget = (if budget = 0 then Inl InvalidVariableByteIntegerEncoding else Inr None)"
| "field_end (b # bs) pos budget =
     (if budget = 0 then Inl InvalidVariableByteIntegerEncoding
      else if b AND 128 = 0 then Inr (Some (pos + 1))
      else field_end bs (pos + 1) (budget - 1))"

lemma length_end_held:
  assumes "reader_ok N r" and "pos \<le> 5"
  shows "length_end r pos = field_end (drop pos (held r)) pos (5 - pos)"
  using assms
proof (induction r pos rule: length_end.induct)
  case (1 r pos)
  show ?case
  proof (cases "4 < pos")
    case True
    then have "pos = 5" using "1.prems" by simp
    then show ?thesis by (subst length_end.simps) (cases "drop 5 (held r)"; simp)
  next
    case small: False
    show ?thesis
    proof (cases "pr_len r < pos + 1")
      case True
      then have "drop pos (held r) = []" using length_held [OF "1.prems"(1)] by simp
      then show ?thesis using small True by (subst length_end.simps) simp
    next
      case False
      then have d: "drop pos (held r) = held r ! pos # drop (Suc pos) (held r)"
        using length_held [OF "1.prems"(1)] Cons_nth_drop_Suc [of pos "held r"] by simp
      have "pr_buf r ! pos = held r ! pos" using held_nth [OF "1.prems"(1)] False by simp
      then show ?thesis
        using "1.IH" [OF small False] "1.prems" small False d by (subst length_end.simps) simp
    qed
  qed
qed

lemma field_end_bound: "field_end bs pos n = Inr (Some e) \<Longrightarrow> pos < e \<and> e \<le> pos + length bs \<and> e \<le> pos + n"
  by (induction bs pos n rule: field_end.induct) (auto split: if_splits)

lemma length_end_grows: "length_end r pos = Inr (Some e) \<Longrightarrow> pos < e"
proof (induction r pos rule: length_end.induct)
  case (1 r pos)
  then show ?case by (simp add: length_end.simps [of r pos] split: if_splits)
qed

lemma framed_len_Some:
  assumes "framed_len valid_first variable_u32 r = Inr (Some n)"
  shows "0 < n" and "n \<le> pr_len r"
proof -
  obtain pos remaining where "length_end r 1 = Inr (Some pos)" "n = pos + remaining" "n \<le> pr_len r"
    using assms by (auto simp: framed_len_def split: if_splits sum.splits option.splits)
  then show "0 < n" and "n \<le> pr_len r" using length_end_grows by fastforce+
qed

lemma framed_len_less: "framed_len valid_first variable_u32 r = Inr (Some n) \<Longrightarrow> pr_len r - n < pr_len r"
  using framed_len_Some [of valid_first variable_u32 r n] by simp

subsection \<open>Taking packets out\<close>

text \<open>
  The loop of \<open>drain_packets\<close>: what is done with a packet is \<open>handle\<close>, which is told whether the head
  needs an acknowledgement; its error ends the session.
\<close>

function drain_packets ::
  "(u8 \<Rightarrow> bool) \<Rightarrow> (bytes \<Rightarrow> packet_read_error + nat) \<Rightarrow> (packet_read_error \<Rightarrow> 'e) \<Rightarrow> (bool \<Rightarrow> bytes \<Rightarrow> 's \<Rightarrow> 'e option \<times> 's)
   \<Rightarrow> packet_reader \<Rightarrow> 's \<Rightarrow> 'e option \<times> packet_reader \<times> 's" where
  "drain_packets valid_first variable_u32 read_error handle r st =
     (case framed_len valid_first variable_u32 r of
        Inl e \<Rightarrow> (Some (read_error e), r, st)
      | Inr None \<Rightarrow> (None, r, st)
      | Inr (Some n) \<Rightarrow>
          (case handle (head_needs_ack r) (head_packet n r) st of
             (Some e, st') \<Rightarrow> (Some e, r, st')
           | (None, st') \<Rightarrow> drain_packets valid_first variable_u32 read_error handle (consume n r) st'))"
  by pat_completeness auto
termination
  by (relation "measure (\<lambda>(v, u, e, h, r, st). pr_len r)")
    (auto simp: consume_def dest: framed_len_less)

declare drain_packets.simps [simp del]

text \<open>Chunks off the socket, one after the other.\<close>

fun read_chunks ::
  "(u8 \<Rightarrow> bool) \<Rightarrow> (bytes \<Rightarrow> packet_read_error + nat) \<Rightarrow> (packet_read_error \<Rightarrow> 'e) \<Rightarrow> (bool \<Rightarrow> bytes \<Rightarrow> 's \<Rightarrow> 'e option \<times> 's)
   \<Rightarrow> bytes list \<Rightarrow> packet_reader \<Rightarrow> 's \<Rightarrow> 'e option \<times> packet_reader \<times> 's" where
  "read_chunks valid_first variable_u32 read_error handle [] r st = (None, r, st)"
| "read_chunks valid_first variable_u32 read_error handle (c # cs) r st =
     (case feed c r of
        Inl e \<Rightarrow> (Some (read_error e), r, st)
      | Inr r' \<Rightarrow>
          (case drain_packets valid_first variable_u32 read_error handle r' st of
             (Some e, r'', st') \<Rightarrow> (Some e, r'', st')
           | (None, r'', st') \<Rightarrow> read_chunks valid_first variable_u32 read_error handle cs r'' st'))"

subsection \<open>The packets of a stream\<close>

text \<open>The variable byte integer of MQTT 3.1.1, 2.2.3, and a packet with it.\<close>

fun vbi :: "nat \<Rightarrow> bytes" where
  "vbi n = (if n < 128 then [of_nat n] else of_nat (n mod 128 + 128) # vbi (n div 128))"

declare vbi.simps [simp del]

definition mqtt_packet :: "(u8 \<Rightarrow> bool) \<Rightarrow> bytes \<Rightarrow> bool" where
  "mqtt_packet valid_first p \<longleftrightarrow>
     (\<exists>b body. p = b # vbi (length body) @ body \<and> valid_first b \<and> length body < 2 ^ 28)"

definition decodes_vbi :: "(bytes \<Rightarrow> packet_read_error + nat) \<Rightarrow> bool" where
  "decodes_vbi variable_u32 \<longleftrightarrow> (\<forall>n < 2 ^ 28. variable_u32 (vbi n) = Inr n)"

definition needs_ack :: "bytes \<Rightarrow> bool" where
  "needs_ack p \<longleftrightarrow> drop_bit 4 (hd p) = 3 \<and> drop_bit 1 (hd p) AND 3 \<noteq> 0"

fun handle_all :: "(bool \<Rightarrow> bytes \<Rightarrow> 's \<Rightarrow> 'e option \<times> 's) \<Rightarrow> bytes list \<Rightarrow> 's \<Rightarrow> 'e option \<times> 's" where
  "handle_all handle [] st = (None, st)"
| "handle_all handle (p # ps) st =
     (case handle (needs_ack p) p st of
        (Some e, st') \<Rightarrow> (Some e, st')
      | (None, st') \<Rightarrow> handle_all handle ps st')"

lemma high_bit: "(of_nat n :: u8) AND 128 = 0 \<longleftrightarrow> even (n div 128)"
proof -
  have "(of_nat n :: u8) AND 2 ^ 7 = 0 \<longleftrightarrow> \<not> bit (of_nat n :: u8) 7" by (rule and_exp_eq_0_iff_not_bit)
  also have "bit (of_nat n :: u8) 7 \<longleftrightarrow> bit n 7" by (simp add: bit_of_nat_iff)
  also have "bit n 7 \<longleftrightarrow> odd (n div 2 ^ 7)" by (rule bit_iff_odd)
  finally show ?thesis by simp
qed

lemma length_vbi: "n < 128 ^ Suc k \<Longrightarrow> 0 < length (vbi n) \<and> length (vbi n) \<le> Suc k"
proof (induction k arbitrary: n)
  case 0
  then show ?case by (subst (1 2) vbi.simps) simp
next
  case (Suc k)
  have "n div 128 < 128 ^ Suc k" using Suc.prems by (simp add: less_mult_imp_div_less mult.commute)
  then show ?case using Suc.IH [of "n div 128"] by (subst (1 2) vbi.simps) simp
qed

lemma vbi_more: "\<not> n < 128 \<Longrightarrow> \<exists>w. vbi n = w # vbi (n div 128) \<and> w AND 128 \<noteq> 0"
proof -
  assume "\<not> n < 128"
  then have "vbi n = of_nat (n mod 128 + 128) # vbi (n div 128)" by (subst vbi.simps) simp
  moreover have "(n mod 128 + 128) div 128 = 1" using div_add_self2 [of 128 "n mod 128"] by simp
  then have "odd ((n mod 128 + 128) div 128)" by (simp only: odd_one not_False_eq_True)
  then have "(of_nat (n mod 128 + 128) :: u8) AND 128 \<noteq> 0" using high_bit by blast
  ultimately show ?thesis by blast
qed

lemma field_end_vbi: "length (vbi n) \<le> k \<Longrightarrow> field_end (vbi n @ rest) pos k = Inr (Some (pos + length (vbi n)))"
proof (induction n arbitrary: pos k rule: vbi.induct)
  case (1 n)
  show ?case
  proof (cases "n < 128")
    case True
    then have "vbi n = [of_nat n]" by (subst vbi.simps) simp
    then show ?thesis using True 1 high_bit [of n] by (cases k) simp_all
  next
    case False
    obtain w where v: "vbi n = w # vbi (n div 128)" "w AND 128 \<noteq> 0" using vbi_more [OF False] by blast
    then show ?thesis using 1 False v by (cases k) simp_all
  qed
qed

lemma field_end_partial: "length (vbi n) \<le> k \<Longrightarrow> i < length (vbi n) \<Longrightarrow> field_end (take i (vbi n)) pos k = Inr None"
proof (induction n arbitrary: i pos k rule: vbi.induct)
  case (1 n)
  show ?case
  proof (cases "n < 128")
    case True
    then have "vbi n = [of_nat n]" by (subst vbi.simps) simp
    then show ?thesis using True 1 by (cases k) simp_all
  next
    case False
    obtain w where v: "vbi n = w # vbi (n div 128)" "w AND 128 \<noteq> 0" using vbi_more [OF False] by blast
    then show ?thesis using 1 False v by (cases k; cases i) simp_all
  qed
qed

lemma take_field: "reader_ok N r \<Longrightarrow> n \<le> length (held r) \<Longrightarrow> take n (pr_buf r) = take n (held r)"
  by (simp add: held_def reader_ok_def)

lemma framed_packet:
  assumes "reader_ok N r" and "decodes_vbi variable_u32" and "mqtt_packet valid_first p" and "length p \<le> N"
    and "held r = p @ rest"
  shows "framed_len valid_first variable_u32 r = Inr (Some (length p))"
    and "head_packet (length p) r = p" and "head_needs_ack r \<longleftrightarrow> needs_ack p"
proof -
  obtain b body where p: "p = b # vbi (length body) @ body" "valid_first b" "length body < 2 ^ 28"
    using assms(3) by (auto simp: mqtt_packet_def)
  let ?v = "vbi (length body)"
  have v: "length ?v \<le> 4" "0 < length ?v" using length_vbi [of "length body" 3] p(3) by simp_all
  have len: "length (held r) = pr_len r" using length_held [OF assms(1)] .
  have b: "pr_buf r ! 0 = b" using held_nth [OF assms(1), of 0] len assms(5) p(1) by simp
  have "length_end r 1 = field_end (?v @ body @ rest) 1 4"
    using length_end_held [OF assms(1), of 1] assms(5) p(1) by simp
  then have e: "length_end r 1 = Inr (Some (1 + length ?v))" using field_end_vbi [OF v(1)] by simp
  have "take (1 + length ?v) (pr_buf r) = b # ?v"
    using take_field [OF assms(1), of "1 + length ?v"] assms(5) p(1) by simp
  then have f: "take (length ?v) (drop 1 (pr_buf r)) = ?v" by (simp add: take_drop)
  have "variable_u32 ?v = Inr (length body)" using assms(2) p(3) by (simp add: decodes_vbi_def)
  moreover have "length (pr_buf r) = N" using assms(1) by (simp add: reader_ok_def)
  moreover have "length p \<le> pr_len r" using len assms(5) by simp
  ultimately show "framed_len valid_first variable_u32 r = Inr (Some (length p))"
    using b p e f assms(4) by (simp add: framed_len_def)
  show "head_packet (length p) r = p" using take_field [OF assms(1)] assms(5) by (simp add: head_packet_def)
  have "0 < pr_len r" using len assms(5) p(1) by simp
  then show "head_needs_ack r \<longleftrightarrow> needs_ack p" using b p(1) by (simp add: head_needs_ack_def needs_ack_def)
qed

lemma framed_partial:
  assumes "reader_ok N r" and "decodes_vbi variable_u32" and "mqtt_packet valid_first p" and "length p \<le> N"
    and "held r = take i p" and "i < length p"
  shows "framed_len valid_first variable_u32 r = Inr None"
proof (cases i)
  case 0
  then show ?thesis using assms(5) length_held [OF assms(1)] by (simp add: framed_len_def)
next
  case (Suc j)
  obtain b body where p: "p = b # vbi (length body) @ body" "valid_first b" "length body < 2 ^ 28"
    using assms(3) by (auto simp: mqtt_packet_def)
  let ?v = "vbi (length body)"
  have v: "length ?v \<le> 4" "0 < length ?v" using length_vbi [of "length body" 3] p(3) by simp_all
  have len: "length (held r) = pr_len r" using length_held [OF assms(1)] .
  have h: "held r = b # take j ?v @ take (j - length ?v) body" using assms(5) p(1) Suc by simp
  have b: "pr_buf r ! 0 = b" "0 < pr_len r" using held_nth [OF assms(1), of 0] len h by simp_all
  have e: "length_end r 1 = field_end (take j ?v @ take (j - length ?v) body) 1 4"
    using length_end_held [OF assms(1), of 1] h by simp
  show ?thesis
  proof (cases "j < length ?v")
    case True
    then have "length_end r 1 = Inr None" using e field_end_partial [OF v(1) True] by simp
    then show ?thesis using b p(2) by (simp add: framed_len_def)
  next
    case False
    then have e: "length_end r 1 = Inr (Some (1 + length ?v))" using e field_end_vbi [OF v(1)] by simp
    have "take (1 + length ?v) (pr_buf r) = b # ?v"
      using take_field [OF assms(1), of "1 + length ?v"] h False by simp
    then have f: "take (length ?v) (drop 1 (pr_buf r)) = ?v" by (simp add: take_drop)
    have "variable_u32 ?v = Inr (length body)" using assms(2) p(3) by (simp add: decodes_vbi_def)
    moreover have "length (pr_buf r) = N" using assms(1) by (simp add: reader_ok_def)
    moreover have "pr_len r < length p" using len h Suc assms(6) p(1) False by simp
    ultimately show ?thesis using b p e f assms(4) by (simp add: framed_len_def)
  qed
qed

subsection \<open>However the stream is cut\<close>

lemma drain_exact:
  assumes "decodes_vbi variable_u32" and "\<forall>p \<in> set (ps @ [q]). mqtt_packet valid_first p \<and> length p \<le> N"
    and "reader_ok N r" and "held r = concat ps @ take i q" and "i < length q"
  shows "case handle_all handle ps st of
      (Some e, st') \<Rightarrow> \<exists>r'. drain_packets valid_first variable_u32 read_error handle r st = (Some e, r', st')
    | (None, st') \<Rightarrow> \<exists>r'. drain_packets valid_first variable_u32 read_error handle r st = (None, r', st')
        \<and> reader_ok N r' \<and> held r' = take i q"
  using assms
proof (induction ps arbitrary: r st)
  case Nil
  then have "framed_len valid_first variable_u32 r = Inr None" using framed_partial [of N r variable_u32 valid_first q i] by simp
  then show ?case using Nil by (subst drain_packets.simps) simp
next
  case (Cons p ps)
  then have h: "held r = p @ concat ps @ take i q" and p: "mqtt_packet valid_first p" "length p \<le> N" by simp_all
  note f = framed_packet [OF Cons.prems(3,1) p h]
  have c: "reader_ok N (consume (length p) r)" "held (consume (length p) r) = concat ps @ take i q"
    using consume_ok [OF Cons.prems(3), of "length p"] h by simp_all
  obtain e st1 where hp: "handle (needs_ack p) p st = (e, st1)" by fastforce
  have step: "drain_packets valid_first variable_u32 read_error handle r st
      = (case e of Some e \<Rightarrow> (Some e, r, st1) | None \<Rightarrow> drain_packets valid_first variable_u32 read_error handle (consume (length p) r) st1)"
    using f hp by (subst drain_packets.simps) (simp split: option.split)
  show ?case
  proof (cases e)
    case None
    then have step': "drain_packets valid_first variable_u32 read_error handle r st
        = drain_packets valid_first variable_u32 read_error handle (consume (length p) r) st1" using step by simp
    show ?thesis unfolding step' using Cons.IH [OF Cons.prems(1) _ c Cons.prems(5), of st1] Cons.prems(2) hp None by simp
  next
    case (Some x)
    then show ?thesis using hp step by simp
  qed
qed

lemma prefix_of_packets:
  assumes "xs @ ys = concat ps @ take i q" and "i < length q"
  shows "\<exists>ps1 ps2 j. ps = ps1 @ ps2 \<and> j < length (hd (ps2 @ [q])) \<and> xs = concat ps1 @ take j (hd (ps2 @ [q]))
     \<and> take j (hd (ps2 @ [q])) @ ys = concat ps2 @ take i q"
  using assms(1)
proof (induction ps arbitrary: xs)
  case Nil
  have "length xs + length ys = min (length q) i" using arg_cong [OF Nil, of length] by simp
  then have "length xs \<le> i" by linarith
  moreover have "xs = take (length xs) (take i q)" using Nil by (metis append_eq_conv_conj append_Nil concat.simps(1))
  ultimately have "xs = take (length xs) q" "length xs < length q" using assms(2) by (simp_all add: min_def)
  then show ?case using Nil by (intro exI [of _ "[]"] exI [of _ "length xs"]) simp
next
  case (Cons p ps)
  show ?case
  proof (cases "length xs < length p")
    case True
    have "xs = take (length xs) p"
      using Cons.prems True by (simp add: append_eq_append_conv_if)
    then show ?thesis
      using True Cons.prems by (intro exI [of _ "[]"] exI [of _ "p # ps"] exI [of _ "length xs"]) simp
  next
    case False
    have eq: "xs @ ys = p @ concat ps @ take i q" using Cons.prems by simp
    have "take (length p) xs = p" "drop (length p) xs @ ys = concat ps @ take i q"
      using arg_cong [OF eq, of "take (length p)"] arg_cong [OF eq, of "drop (length p)"] False by simp_all
    then obtain xs' where xs: "xs = p @ xs'" "xs' @ ys = concat ps @ take i q"
      by (metis append_take_drop_id)
    from Cons.IH [OF xs(2)] obtain ps1 ps2 j where "ps = ps1 @ ps2" "j < length (hd (ps2 @ [q]))"
      "xs' = concat ps1 @ take j (hd (ps2 @ [q]))" "take j (hd (ps2 @ [q])) @ ys = concat ps2 @ take i q" by blast
    then show ?thesis using xs(1) by (intro exI [of _ "p # ps1"] exI [of _ ps2] exI [of _ j]) simp
  qed
qed

lemma handle_all_append:
  "handle_all handle (ps @ qs) st = (case handle_all handle ps st of
      (Some e, st') \<Rightarrow> (Some e, st') | (None, st') \<Rightarrow> handle_all handle qs st')"
  by (induction ps arbitrary: st) (auto split: prod.splits option.splits)

text \<open>The bytes held are the beginning of the next packet.\<close>

lemma read_chunks_exact:
  assumes "decodes_vbi variable_u32" and "\<forall>p \<in> set (ps @ [q]). mqtt_packet valid_first p \<and> length p + C \<le> N"
    and "\<forall>c \<in> set cs. length c \<le> C" and "i < length q" and "reader_ok N r"
    and "held r @ concat cs = concat ps @ take i q"
    and "held r = take j (hd (ps @ [q]))" and "j < length (hd (ps @ [q]))"
  shows "case read_chunks valid_first variable_u32 read_error handle cs r st of
      (e, r', st') \<Rightarrow> (e, st') = handle_all handle ps st \<and> (e = None \<longrightarrow> reader_ok N r' \<and> held r' = take i q)"
  using assms
proof (induction cs arbitrary: r st ps j)
  case Nil
  have "ps = []"
  proof (cases ps)
    case (Cons p ps')
    have "take j p = p @ concat ps' @ take i q" "j < length p" using Nil Cons by simp_all
    from arg_cong [OF this(1), of length] this(2) show ?thesis by simp
  qed
  then show ?case using Nil by simp
next
  case (Cons c cs)
  have "hd (ps @ [q]) \<in> set (ps @ [q])" by (cases ps) simp_all
  then have "length (held r) + C \<le> N" using Cons.prems(2,7,8) by fastforce
  moreover have "length c \<le> C" using Cons.prems(3) by simp
  ultimately obtain r' where fed: "feed c r = Inr r'" using feed_iff(3) [OF Cons.prems(5), of c] by fastforce
  obtain ps1 ps2 k where s: "ps = ps1 @ ps2" "k < length (hd (ps2 @ [q]))" "held r @ c = concat ps1 @ take k (hd (ps2 @ [q]))"
    "take k (hd (ps2 @ [q])) @ concat cs = concat ps2 @ take i q"
    using prefix_of_packets [of "held r @ c" "concat cs" ps i q] Cons.prems(4,6) by auto
  let ?p = "hd (ps2 @ [q])"
  have r': "reader_ok N r'" "held r' = concat ps1 @ take k ?p" using feed_iff(2) [OF Cons.prems(5) fed] s(3) by simp_all
  have "?p \<in> set (ps2 @ [q])" by (cases ps2) simp_all
  moreover have "\<forall>x \<in> set (ps @ [q]). mqtt_packet valid_first x \<and> length x \<le> N" using Cons.prems(2) by (auto intro: add_leD1)
  ultimately have all: "\<forall>x \<in> set (ps1 @ [?p]). mqtt_packet valid_first x \<and> length x \<le> N" unfolding s(1) by auto
  obtain e st1 where h1: "handle_all handle ps1 st = (e, st1)" by fastforce
  note drained = drain_exact [OF Cons.prems(1) all r' s(2), where handle = handle and st = st and read_error = read_error, unfolded h1]
  show ?case
  proof (cases e)
    case (Some x)
    then show ?thesis using drained h1 fed s(1) by (auto simp: handle_all_append)
  next
    case None
    then obtain r'' where d: "drain_packets valid_first variable_u32 read_error handle r' st = (None, r'', st1)"
      "reader_ok N r''" "held r'' = take k ?p" using drained by auto
    have "\<forall>x \<in> set (ps2 @ [q]). mqtt_packet valid_first x \<and> length x + C \<le> N" "\<forall>c \<in> set cs. length c \<le> C"
      using Cons.prems(2,3) s(1) by auto
    from Cons.IH [OF Cons.prems(1) this Cons.prems(4) d(2) _ d(3) s(2), of st1]
    show ?thesis using s(1,4) d fed h1 None by (simp add: handle_all_append)
  qed
qed

text \<open>
  However the broker's bytes are cut into chunks, the session handles exactly the packets sent, whole
  and in order, up to the first one it fails on: no packet that leaves room for a chunk is refused, and
  what is held at the end is the part of the next packet that has arrived.
\<close>

theorem mqtt_stream_exact:
  assumes "decodes_vbi variable_u32" and "\<forall>p \<in> set (ps @ [q]). mqtt_packet valid_first p \<and> length p + C \<le> N"
    and "\<forall>c \<in> set cs. length c \<le> C" and "concat cs = concat ps @ take i q" and "i < length q"
  shows "case read_chunks valid_first variable_u32 read_error handle cs (reader_new N) st of
      (e, r, st') \<Rightarrow> (e, st') = handle_all handle ps st \<and> (e = None \<longrightarrow> held r = take i q)"
proof -
  have "hd (ps @ [q]) \<in> set (ps @ [q])" by (cases ps) simp_all
  then have "mqtt_packet valid_first (hd (ps @ [q]))" using assms(2) by blast
  then have "0 < length (hd (ps @ [q]))" by (auto simp: mqtt_packet_def)
  then show ?thesis
    using read_chunks_exact [OF assms(1-3,5) reader_new_ok(1), of 0, where read_error = read_error and handle = handle and st = st] assms(4) by auto
qed

definition vbi_value :: "bytes \<Rightarrow> packet_read_error + nat" where
  "vbi_value bs = Inr (foldr (\<lambda>b n. unat b mod 128 + 128 * n) bs 0)"

lemma vbi_value_ok: "decodes_vbi vbi_value"
proof -
  have "foldr (\<lambda>b n. unat b mod 128 + 128 * n) (vbi n) 0 = n" for n
  proof (induction n rule: vbi.induct)
    case (1 n)
    have "n mod 128 + 128 < 256" by simp
    then have "unat (of_nat (n mod 128 + 128) :: u8) = n mod 128 + 128" by (simp add: unat_of_nat del: of_nat_add)
    then show ?case using 1 by (subst vbi.simps) (simp add: unat_of_nat del: of_nat_add)
  qed
  then show ?thesis by (simp add: decodes_vbi_def vbi_value_def)
qed

text \<open>Two packets in three chunks, and the beginning of a third.\<close>

theorem mqtt_stream_exact_witness:
  "case read_chunks (\<lambda>_. True) vbi_value id (\<lambda>ack p st. (None, st @ [p])) [[48, 3, 1], [2, 3, 208], [0, 48]] (reader_new 16) [] of
      (e, r, st') \<Rightarrow> (e, st') = (None, [[48, 3, 1, 2, 3], [208, 0]]) \<and> (e = None \<longrightarrow> held r = [48])"
proof -
  have v: "vbi (Suc (Suc (Suc 0))) = [3]" "vbi 0 = [0]" by (simp_all add: vbi.simps)
  have "mqtt_packet (\<lambda>_. True) [48, 3, 1, 2, 3]" unfolding mqtt_packet_def
    by (intro exI [of _ 48] exI [of _ "[1, 2, 3]"]) (simp add: v)
  moreover have "mqtt_packet (\<lambda>_. True) [208, 0]" unfolding mqtt_packet_def
    by (intro exI [of _ 208] exI [of _ "[]"]) (simp add: v)
  ultimately have all: "\<forall>p \<in> set ([[48, 3, 1, 2, 3], [208, 0]] @ [[48, 3, 1, 2, 3]]). mqtt_packet (\<lambda>_. True) p \<and> length p + 3 \<le> 16"
    by simp
  have h: "handle_all (\<lambda>ack p st. (None, st @ [p])) [[48, 3, 1, 2, 3], [208, 0]] [] = (None :: packet_read_error option, [[48, 3, 1, 2, 3], [208, 0]] :: bytes list)"
    by simp
  from mqtt_stream_exact [OF vbi_value_ok all, where cs = "[[48, 3, 1], [2, 3, 208], [0, 48]]" and i = 1 and read_error = id and handle = "\<lambda>ack p st. (None, st @ [p])" and st = "[]"]
  show ?thesis unfolding h by (simp split: prod.splits)
qed

end
