(* ===== verification/Mqtt_Session.thy ===== *)
theory Mqtt_Session
  imports Mqtt_Links Mqtt_Packets
begin

text \<open>
  \<open>aimdb-mqtt-connector/src/embedded/session_loop.rs\<close> and \<open>write_ring.rs\<close>: one session with a broker.
  The client state of \<open>mountain-mqtt\<close> and the byte ring of \<open>bbqueue\<close> are parameters (\<open>mqtt_client\<close>,
  \<open>byte_ring\<close>).  Each pass of the loop is a turn: the clock, what happened while the loop was parked, and
  the chunk that ended the wait, if one did, are its input.  A wait that never ends has no further turn.
  Times are milliseconds.
\<close>

subsection \<open>What the code relies on\<close>

datatype packet_write_error = WriteOverflow | ConnectionSend | OtherWrite nat

datatype client_error =
    PacketRead packet_read_error
  | PacketWrite packet_write_error
  | TimeoutOnResponsePacket
  | EmptyTopicName
  | Disconnected nat
  | OtherClient nat

datatype session_end = ClientFailed client_error | ServerUnresponsive

datatype receive_event =
    EvAck
  | EvPublish string bytes
  | EvPublishAndPuback string bytes
  | EvGrantedBelowMaximumQos
  | EvNoMatchingSubscribers
  | EvNoSubscriptionExisted
  | EvDisconnect nat

text \<open>
  \<open>'c\<close> is the client state, \<open>'p\<close> a packet received and \<open>'a\<close> one to send.  \<open>mc_connack\<close> lists, for the
  properties of a CONNACK, the Maximum Packet Size a property gives.
\<close>

record ('c, 'p, 'a) mqtt_client =
  mc_new :: 'c
  mc_connect_packet :: "nat \<Rightarrow> nat \<Rightarrow> 'a"
  mc_connect :: "'a \<Rightarrow> 'c \<Rightarrow> client_error + 'c"
  mc_waiting :: "'c \<Rightarrow> bool"
  mc_connected :: "'c \<Rightarrow> bool"
  mc_ping :: "'c \<Rightarrow> client_error + 'a \<times> 'c"
  mc_subscribe_packet :: "string \<Rightarrow> quality_of_service \<Rightarrow> 'c \<Rightarrow> client_error + 'a \<times> 'c"
  mc_subscribe_update :: "'a \<Rightarrow> 'c \<Rightarrow> client_error + 'c"
  mc_publish_packet :: "bytes \<Rightarrow> bytes \<Rightarrow> quality_of_service \<Rightarrow> bool \<Rightarrow> 'c \<Rightarrow> client_error + 'a \<times> 'c"
  mc_publish_update :: "'a \<Rightarrow> 'c \<Rightarrow> client_error + 'c"
  mc_response :: "'p \<Rightarrow> 'c \<Rightarrow> client_error + 'a option \<times> 'c"
  mc_receive :: "'p \<Rightarrow> 'c \<Rightarrow> client_error + receive_event \<times> 'c"
  mc_connack :: "'p \<Rightarrow> nat option list option"
  mc_parse :: "bytes \<Rightarrow> packet_read_error + 'p"
  mc_encode :: "'a \<Rightarrow> packet_write_error + bytes"
  mc_valid_first :: "u8 \<Rightarrow> bool"
  mc_variable_u32 :: "bytes \<Rightarrow> packet_read_error + nat"

text \<open>
  A ring: whether it grants so many bytes in a row now (asking may move its pointers), what it is once it
  does, and a commit.
\<close>

record 'r byte_ring =
  br_capacity :: nat
  br_grants :: "nat \<Rightarrow> 'r \<Rightarrow> bool \<times> 'r"
  br_await :: "nat \<Rightarrow> 'r \<Rightarrow> 'r"
  br_commit :: "bytes \<Rightarrow> 'r \<Rightarrow> 'r"
  br_drain :: "'r \<Rightarrow> 'r"

subsection \<open>The session\<close>

definition buffer_size :: nat where "buffer_size = 4096"
definition rx_chunk :: nat where "rx_chunk = 256"
definition packet_buffer_size :: nat where "packet_buffer_size = buffer_size - 2 * rx_chunk"
definition max_inbound_packet :: nat where "max_inbound_packet = packet_buffer_size - rx_chunk"
definition puback_room :: nat where "puback_room = 16"

text \<open>What the session committed to the ring, in order.\<close>

datatype sent =
    SentConnect bytes
  | SentPing bytes
  | SentSubscribe string bytes
  | SentPuback bytes
  | SentPublish nat bytes

text \<open>
  The variables of \<open>client_loop\<close> and what it was lent: the ring, the records behind \<open>dispatch\<close> (the parameter \<open>sink\<close>), the
  outbound routes with the buffers they read.  \<open>ms_sent\<close>, \<open>ms_fed\<close>, \<open>ms_received\<close> and \<open>ms_events\<close> record
  what was committed, the bytes taken from the socket, and the packets handled with what they meant.
\<close>

record ('c, 'r, 'd, 'v) mqtt_session =
  ms_client :: 'c
  ms_reader :: packet_reader
  ms_ring :: 'r
  ms_data :: 'd
  ms_out :: "('v, u64) out_sys"
  ms_last_ack :: nat
  ms_last_ping :: nat
  ms_waiting_since :: "nat option"
  ms_connected :: bool
  ms_next_topic :: nat
  ms_broker_max :: "nat option"
  ms_outbound_done :: bool
  ms_sent :: "sent list"
  ms_fed :: bytes
  ms_received :: "bytes list"
  ms_events :: "receive_event list"

definition max_publish :: "'r byte_ring \<Rightarrow> nat" where
  "max_publish ring = br_capacity ring div 2 - control_reserve"

definition commit ::
  "'r byte_ring \<Rightarrow> (bytes \<Rightarrow> sent) \<Rightarrow> bytes \<Rightarrow> ('c, 'r, 'd, 'v) mqtt_session \<Rightarrow> ('c, 'r, 'd, 'v) mqtt_session" where
  "commit ring kind bs s = s\<lparr>ms_ring := br_commit ring bs (ms_ring s), ms_sent := ms_sent s @ [kind bs]\<rparr>"

definition put_sized ::
  "'r byte_ring \<Rightarrow> (bytes \<Rightarrow> sent) \<Rightarrow> bytes \<Rightarrow> nat \<Rightarrow> ('c, 'r, 'd, 'v) mqtt_session \<Rightarrow> ('c, 'r, 'd, 'v) mqtt_session" where
  "put_sized ring kind bs reserve s =
     commit ring kind bs (s\<lparr>ms_ring := br_await ring (length bs + reserve) (ms_ring s)\<rparr>)"

definition ring_put ::
  "('c, 'p, 'a) mqtt_client \<Rightarrow> 'r byte_ring \<Rightarrow> (bytes \<Rightarrow> sent) \<Rightarrow> 'a \<Rightarrow> nat \<Rightarrow> ('c, 'r, 'd, 'v) mqtt_session
   \<Rightarrow> session_end option \<times> ('c, 'r, 'd, 'v) mqtt_session" where
  "ring_put client ring kind packet reserve s =
     (case mc_encode client packet of
        Inl e \<Rightarrow> (Some (ClientFailed (PacketWrite e)), s)
      | Inr bs \<Rightarrow>
          if \<not> fits_ring (br_capacity ring) (length bs) reserve then (Some (ClientFailed (PacketWrite WriteOverflow)), s)
          else (None, put_sized ring kind bs reserve s))"

text \<open>\<open>try_put\<close>: whether the packet went in.\<close>

definition try_put ::
  "('c, 'p, 'a) mqtt_client \<Rightarrow> 'r byte_ring \<Rightarrow> (bytes \<Rightarrow> sent) \<Rightarrow> 'a \<Rightarrow> ('c, 'r, 'd, 'v) mqtt_session
   \<Rightarrow> (session_end + bool) \<times> ('c, 'r, 'd, 'v) mqtt_session" where
  "try_put client ring kind packet s =
     (case mc_encode client packet of
        Inl e \<Rightarrow> (Inl (ClientFailed (PacketWrite e)), s)
      | Inr bs \<Rightarrow>
          (case br_grants ring (length bs) (ms_ring s) of
             (False, r) \<Rightarrow> (Inr False, s\<lparr>ms_ring := r\<rparr>)
           | (True, r) \<Rightarrow> (Inr True, commit ring kind bs (s\<lparr>ms_ring := r\<rparr>))))"

definition poll_room :: "'r byte_ring \<Rightarrow> nat \<Rightarrow> 'r \<Rightarrow> bool \<times> 'r" where
  "poll_room ring n r = (case br_grants ring n r of (True, r) \<Rightarrow> (True, r) | (False, r) \<Rightarrow> br_grants ring n r)"

subsection \<open>Receiving\<close>

definition deliver_event ::
  "(string \<Rightarrow> bytes \<Rightarrow> 'd \<Rightarrow> 'd) \<Rightarrow> receive_event \<Rightarrow> ('c, 'r, 'd, 'v) mqtt_session
   \<Rightarrow> session_end option \<times> ('c, 'r, 'd, 'v) mqtt_session" where
  "deliver_event sink ev s =
     (let publish = (\<lambda>topic payload.
            if topic = [] then (Some (ClientFailed EmptyTopicName), s)
            else (None, s\<lparr>ms_data := sink topic payload (ms_data s)\<rparr>))
      in (case ev of
            EvPublish topic payload \<Rightarrow> publish topic payload
          | EvPublishAndPuback topic payload \<Rightarrow> publish topic payload
          | EvDisconnect reason \<Rightarrow> (Some (ClientFailed (Disconnected reason)), s)
          | _ \<Rightarrow> (None, s)))"

text \<open>The acknowledgement of a packet goes in at once or ends the session.\<close>

definition put_puback ::
  "('c, 'p, 'a) mqtt_client \<Rightarrow> 'r byte_ring \<Rightarrow> 'a option \<Rightarrow> ('c, 'r, 'd, 'v) mqtt_session
   \<Rightarrow> session_end option \<times> ('c, 'r, 'd, 'v) mqtt_session" where
  "put_puback client ring puback s =
     (case puback of
        None \<Rightarrow> (None, s)
      | Some a \<Rightarrow>
          (case try_put client ring SentPuback a s of
             (Inl e, s) \<Rightarrow> (Some e, s)
           | (Inr False, s) \<Rightarrow> (Some (ClientFailed (PacketWrite WriteOverflow)), s)
           | (Inr True, s) \<Rightarrow> (None, s)))"

text \<open>
  What \<open>drain_packets\<close> does with a packet; \<open>now\<close> is the clock behind it, given per chunk: the loop reads
  \<open>last_ack_ms\<close> again only when the chunk is drained.
\<close>

definition handle_packet ::
  "('c, 'p, 'a) mqtt_client \<Rightarrow> 'r byte_ring \<Rightarrow> (string \<Rightarrow> bytes \<Rightarrow> 'd \<Rightarrow> 'd) \<Rightarrow> nat \<Rightarrow> bool \<Rightarrow> bytes
   \<Rightarrow> ('c, 'r, 'd, 'v) mqtt_session \<Rightarrow> session_end option \<times> ('c, 'r, 'd, 'v) mqtt_session" where
  "handle_packet client ring sink now needs bs s =
     (let s = (if needs then s\<lparr>ms_ring := br_await ring puback_room (ms_ring s)\<rparr> else s) in
      case mc_parse client bs of
        Inl e \<Rightarrow> (Some (ClientFailed (PacketRead e)), s)
      | Inr packet \<Rightarrow>
          (let s = (case mc_connack client packet of
                      None \<Rightarrow> s
                    | Some props \<Rightarrow> s\<lparr>ms_broker_max := Option.bind (find (\<lambda>p. p \<noteq> None) props) (\<lambda>p. p)\<rparr>)
           in (case mc_response client packet (ms_client s) of
                 Inl e \<Rightarrow> (Some (ClientFailed e), s)
               | Inr (puback, c) \<Rightarrow>
                   (let s = s\<lparr>ms_client := c\<rparr> in
                    case put_puback client ring puback s of
                      (Some e, s) \<Rightarrow> (Some e, s)
                    | (None, s) \<Rightarrow>
                        (case mc_receive client packet (ms_client s) of
                           Inl e \<Rightarrow> (Some (ClientFailed e), s)
                         | Inr (ev, c) \<Rightarrow>
                             (case deliver_event sink ev (s\<lparr>ms_client := c\<rparr>) of
                                (Some e, s) \<Rightarrow> (Some e, s)
                              | (None, s) \<Rightarrow>
                                  (None, s\<lparr>ms_last_ack := now, ms_connected := ms_connected s \<or> mc_connected client (ms_client s),
                                           ms_received := ms_received s @ [bs], ms_events := ms_events s @ [ev]\<rparr>)))))))"

definition receive_chunk ::
  "('c, 'p, 'a) mqtt_client \<Rightarrow> 'r byte_ring \<Rightarrow> (string \<Rightarrow> bytes \<Rightarrow> 'd \<Rightarrow> 'd) \<Rightarrow> nat \<Rightarrow> bytes
   \<Rightarrow> ('c, 'r, 'd, 'v) mqtt_session \<Rightarrow> session_end option \<times> ('c, 'r, 'd, 'v) mqtt_session" where
  "receive_chunk client ring sink now chunk s =
     (let s = s\<lparr>ms_fed := ms_fed s @ chunk\<rparr> in
      case feed chunk (ms_reader s) of
        Inl e \<Rightarrow> (Some (ClientFailed (PacketRead e)), s)
      | Inr r \<Rightarrow>
          (case drain_packets (mc_valid_first client) (mc_variable_u32 client) (\<lambda>e. ClientFailed (PacketRead e))
                  (handle_packet client ring sink now) r s of
             (e, r, s) \<Rightarrow> (e, s\<lparr>ms_reader := r\<rparr>)))"

subsection \<open>Publishing\<close>

text \<open>While the loop is parked: the socket takes bytes, records are written, the arm is polled.\<close>

record ('r, 'v) park_poll =
  pp_release :: "'r \<Rightarrow> 'r"
  pp_writes :: "(nat \<times> ('v, u64) stamped) list"
  pp_racing :: "(nat \<times> ('v, u64) stamped) list list"

definition poll_arm ::
  "'r byte_ring \<Rightarrow> bool \<Rightarrow> ('r, 'v) park_poll \<Rightarrow> ('c, 'r, 'd, 'v) mqtt_session \<Rightarrow> nat option \<times> ('c, 'r, 'd, 'v) mqtt_session" where
  "poll_arm ring publish_ready p s =
     (let out = out_run (map (\<lambda>(i, v). Write i v) (pp_writes p)) (ms_out s);
          s = s\<lparr>ms_ring := pp_release p (ms_ring s), ms_out := out\<rparr>
      in if \<not> publish_ready then (None, s)
         else
           (case poll_room ring (max_publish ring + control_reserve) (ms_ring s) of
              (False, r) \<Rightarrow> (None, s\<lparr>ms_ring := r\<rparr>)
            | (True, r) \<Rightarrow>
                (let polled = fst (poll_stage (os_routes out, \<lparr>wd_bufs = os_bufs out, wd_racing = pp_racing p\<rparr>));
                     s = s\<lparr>ms_ring := r, ms_out := out_step (Poll_Stage (pp_racing p)) out\<rparr>
                 in (case polled of
                       PollReady (Some rid) \<Rightarrow> (Some rid, s)
                     | PollReady None \<Rightarrow> (None, s\<lparr>ms_outbound_done := True\<rparr>)
                     | PollPending \<Rightarrow> (None, s)))))"

fun park ::
  "'r byte_ring \<Rightarrow> bool \<Rightarrow> ('r, 'v) park_poll list \<Rightarrow> ('c, 'r, 'd, 'v) mqtt_session \<Rightarrow> nat option \<times> ('c, 'r, 'd, 'v) mqtt_session" where
  "park ring publish_ready [] s = (None, s)"
| "park ring publish_ready (p # ps) s =
     (case poll_arm ring publish_ready p s of
        (Some rid, s') \<Rightarrow> (Some rid, s')
      | (None, s') \<Rightarrow> park ring publish_ready ps s')"

definition publish_staged ::
  "('c, 'p, 'a) mqtt_client \<Rightarrow> 'r byte_ring \<Rightarrow> publish_opts list \<Rightarrow> nat \<Rightarrow> ('c, 'r, 'd, 'v) mqtt_session
   \<Rightarrow> session_end option \<times> ('c, 'r, 'd, 'v) mqtt_session" where
  "publish_staged client ring opts rid s =
     (let opt = (if rid < length opts then opts ! rid else \<lparr>po_qos = 1, po_retain = False\<rparr>) in
      case take_staged (os_routes (ms_out s)) of
        (None, _) \<Rightarrow> (None, s)
      | (Some msg, _) \<Rightarrow>
          (let s = s\<lparr>ms_out := out_step Take_Staged (ms_out s)\<rparr> in
           case mc_publish_packet client (om_topic msg) (as_slice (om_payload msg)) (mountain_qos (po_qos opt)) (po_retain opt) (ms_client s) of
             Inl e \<Rightarrow> (Some (ClientFailed e), s)
           | Inr (packet, c) \<Rightarrow>
               (let s = s\<lparr>ms_client := c\<rparr> in
                case mc_encode client packet of
                  Inl e \<Rightarrow> (Some (ClientFailed (PacketWrite e)), s)
                | Inr bs \<Rightarrow>
                    if \<not> fits_ring (br_capacity ring) (length bs) control_reserve
                       \<or> (case ms_broker_max s of None \<Rightarrow> False | Some limit \<Rightarrow> limit < length bs)
                    then (None, s\<lparr>ms_out := out_step (Reject rid) (ms_out s)\<rparr>)
                    else
                      (let s = put_sized ring (SentPublish rid) bs control_reserve s in
                       case mc_publish_update client packet (ms_client s) of
                         Inl e \<Rightarrow> (Some (ClientFailed e), s)
                       | Inr c \<Rightarrow> (None, s\<lparr>ms_client := c\<rparr>)))))"

subsection \<open>A turn\<close>

definition session_deadline :: "nat \<Rightarrow> bool \<Rightarrow> nat \<Rightarrow> nat \<Rightarrow> nat option \<Rightarrow> nat" where
  "session_deadline now connected ping_at liveness_at response_at =
     (let earliest = liveness_at;
          earliest = (if connected then min earliest ping_at else earliest);
          earliest = (case response_at of None \<Rightarrow> earliest | Some at \<Rightarrow> min earliest at)
      in max (earliest - now) 1)"

record ('r, 'v) mqtt_turn =
  tn_now :: nat
  tn_polls :: "('r, 'v) park_poll list"
  tn_chunk :: "bytes option"
  tn_ack :: nat
  tn_end :: nat

definition ping_due ::
  "('c, 'p, 'a) mqtt_client \<Rightarrow> 'r byte_ring \<Rightarrow> settings \<Rightarrow> nat \<Rightarrow> ('c, 'r, 'd, 'v) mqtt_session
   \<Rightarrow> session_end option \<times> ('c, 'r, 'd, 'v) mqtt_session" where
  "ping_due client ring settings now s =
     (if ms_connected s \<and> se_ping_interval settings \<le> now - ms_last_ping s then
        (let s = s\<lparr>ms_last_ping := now\<rparr> in
         case mc_ping client (ms_client s) of
           Inl e \<Rightarrow> (Some (ClientFailed e), s)
         | Inr (ping, c) \<Rightarrow>
             (case try_put client ring SentPing ping (s\<lparr>ms_client := c\<rparr>) of
                (Inl e, s) \<Rightarrow> (Some e, s)
              | (Inr _, s) \<Rightarrow> (None, s)))
      else (None, s))"

definition subscribe_next ::
  "('c, 'p, 'a) mqtt_client \<Rightarrow> 'r byte_ring \<Rightarrow> nat \<Rightarrow> string \<times> quality_of_service \<Rightarrow> ('c, 'r, 'd, 'v) mqtt_session
   \<Rightarrow> session_end option \<times> ('c, 'r, 'd, 'v) mqtt_session" where
  "subscribe_next client ring now t s =
     (case mc_subscribe_packet client (fst t) (snd t) (ms_client s) of
        Inl e \<Rightarrow> (Some (ClientFailed e), s)
      | Inr (packet, c) \<Rightarrow>
          (case ring_put client ring (SentSubscribe (fst t)) packet 0 (s\<lparr>ms_client := c\<rparr>) of
             (Some e, s) \<Rightarrow> (Some e, s)
           | (None, s) \<Rightarrow>
               (case mc_subscribe_update client packet (ms_client s) of
                  Inl e \<Rightarrow> (Some (ClientFailed e), s)
                | Inr c \<Rightarrow>
                    (None, s\<lparr>ms_client := c, ms_next_topic := ms_next_topic s + 1, ms_waiting_since := Some now\<rparr>))))"

definition turn_event ::
  "('c, 'p, 'a) mqtt_client \<Rightarrow> 'r byte_ring \<Rightarrow> (string \<Rightarrow> bytes \<Rightarrow> 'd \<Rightarrow> 'd) \<Rightarrow> publish_opts list \<Rightarrow> bool
   \<Rightarrow> ('r, 'v) mqtt_turn \<Rightarrow> ('c, 'r, 'd, 'v) mqtt_session \<Rightarrow> session_end option \<times> ('c, 'r, 'd, 'v) mqtt_session" where
  "turn_event client ring sink opts publish_ready t s =
     (case park ring publish_ready (tn_polls t) s of
        (Some rid, s) \<Rightarrow> publish_staged client ring opts rid s
      | (None, s) \<Rightarrow>
          (case tn_chunk t of
             Some chunk \<Rightarrow> receive_chunk client ring sink (tn_ack t) chunk s
           | None \<Rightarrow> (None, s)))"

definition session_turn ::
  "('c, 'p, 'a) mqtt_client \<Rightarrow> 'r byte_ring \<Rightarrow> (string \<Rightarrow> bytes \<Rightarrow> 'd \<Rightarrow> 'd) \<Rightarrow> settings
   \<Rightarrow> (string \<times> quality_of_service) list \<Rightarrow> publish_opts list \<Rightarrow> ('r, 'v) mqtt_turn
   \<Rightarrow> ('c, 'r, 'd, 'v) mqtt_session \<Rightarrow> session_end option \<times> ('c, 'r, 'd, 'v) mqtt_session" where
  "session_turn client ring sink settings topics opts t s =
     (if se_max_silence settings < tn_now t - ms_last_ack s then (Some ServerUnresponsive, s)
      else if (case ms_waiting_since s of None \<Rightarrow> False | Some since \<Rightarrow> se_response_timeout settings < tn_now t - since)
      then (Some (ClientFailed TimeoutOnResponsePacket), s)
      else (case ping_due client ring settings (tn_now t) s of
              (Some e, s) \<Rightarrow> (Some e, s)
            | (None, s) \<Rightarrow>
                (let idle = ms_connected s \<and> \<not> mc_waiting client (ms_client s) in
                 if idle \<and> ms_next_topic s < length topics
                 then subscribe_next client ring (tn_now t) (topics ! ms_next_topic s) s
                 else
                   (case turn_event client ring sink opts (idle \<and> \<not> ms_outbound_done s) t s of
                      (Some e, s) \<Rightarrow> (Some e, s)
                    | (None, s) \<Rightarrow>
                        (None, s\<lparr>ms_waiting_since :=
                           (if mc_waiting client (ms_client s)
                            then (case ms_waiting_since s of None \<Rightarrow> Some (tn_end t) | Some since \<Rightarrow> Some since)
                            else None)\<rparr>)))))"

text \<open>How long the turn sleeps at most, from the state it parks in.\<close>

definition turn_sleep :: "settings \<Rightarrow> nat \<Rightarrow> ('c, 'r, 'd, 'v) mqtt_session \<Rightarrow> nat" where
  "turn_sleep settings now s =
     session_deadline now (ms_connected s) (ms_last_ping s + se_ping_interval settings)
       (ms_last_ack s + se_max_silence settings)
       (map_option (\<lambda>since. since + se_response_timeout settings) (ms_waiting_since s))"

subsection \<open>A session\<close>

definition client_loop_new :: "('c, 'p, 'a) mqtt_client \<Rightarrow> 'r byte_ring \<Rightarrow> nat \<Rightarrow> 'r \<Rightarrow> 'd \<Rightarrow> ('v, u64) out_sys \<Rightarrow> ('c, 'r, 'd, 'v) mqtt_session" where
  "client_loop_new client ring start r data out =
     \<lparr>ms_client = mc_new client, ms_reader = reader_new packet_buffer_size, ms_ring = br_drain ring r, ms_data = data,
      ms_out = out, ms_last_ack = start, ms_last_ping = start, ms_waiting_since = Some start, ms_connected = False,
      ms_next_topic = 0, ms_broker_max = None, ms_outbound_done = False, ms_sent = [], ms_fed = [], ms_received = [],
      ms_events = []\<rparr>"

definition client_loop_connect ::
  "('c, 'p, 'a) mqtt_client \<Rightarrow> 'r byte_ring \<Rightarrow> settings \<Rightarrow> nat \<Rightarrow> 'r \<Rightarrow> 'd \<Rightarrow> ('v, u64) out_sys
   \<Rightarrow> session_end option \<times> ('c, 'r, 'd, 'v) mqtt_session" where
  "client_loop_connect client ring settings start r data out =
     (let s = client_loop_new client ring start r data out;
          packet = mc_connect_packet client (se_keep_alive_secs settings) max_inbound_packet
      in (case mc_connect client packet (ms_client s) of
            Inl e \<Rightarrow> (Some (ClientFailed e), s)
          | Inr c \<Rightarrow> ring_put client ring SentConnect packet 0 (s\<lparr>ms_client := c\<rparr>)))"

fun session_turns ::
  "('c, 'p, 'a) mqtt_client \<Rightarrow> 'r byte_ring \<Rightarrow> (string \<Rightarrow> bytes \<Rightarrow> 'd \<Rightarrow> 'd) \<Rightarrow> settings
   \<Rightarrow> (string \<times> quality_of_service) list \<Rightarrow> publish_opts list \<Rightarrow> ('r, 'v) mqtt_turn list
   \<Rightarrow> session_end option \<times> ('c, 'r, 'd, 'v) mqtt_session \<Rightarrow> session_end option \<times> ('c, 'r, 'd, 'v) mqtt_session" where
  "session_turns client ring sink settings topics opts [] x = x"
| "session_turns client ring sink settings topics opts (t # ts) (Some e, s) = (Some e, s)"
| "session_turns client ring sink settings topics opts (t # ts) (None, s) =
     session_turns client ring sink settings topics opts ts
       (session_turn client ring sink settings topics opts t s)"

definition client_loop ::
  "('c, 'p, 'a) mqtt_client \<Rightarrow> 'r byte_ring \<Rightarrow> (string \<Rightarrow> bytes \<Rightarrow> 'd \<Rightarrow> 'd) \<Rightarrow> settings
   \<Rightarrow> (string \<times> quality_of_service) list \<Rightarrow> publish_opts list \<Rightarrow> nat \<Rightarrow> 'r \<Rightarrow> 'd \<Rightarrow> ('v, u64) out_sys \<Rightarrow> ('r, 'v) mqtt_turn list
   \<Rightarrow> session_end option \<times> ('c, 'r, 'd, 'v) mqtt_session" where
  "client_loop client ring sink settings topics opts start r data out ts =
     session_turns client ring sink settings topics opts ts (client_loop_connect client ring settings start r data out)"

subsection \<open>What each operation keeps\<close>

datatype request = ReqConnect | ReqSubscribe string | ReqPublish nat

fun requests :: "sent list \<Rightarrow> request list" where
  "requests [] = []"
| "requests (SentConnect _ # xs) = ReqConnect # requests xs"
| "requests (SentSubscribe topic _ # xs) = ReqSubscribe topic # requests xs"
| "requests (SentPublish rid _ # xs) = ReqPublish rid # requests xs"
| "requests (SentPing _ # xs) = requests xs"
| "requests (SentPuback _ # xs) = requests xs"

lemma requests_append [simp]: "requests (xs @ ys) = requests xs @ requests ys"
  by (induction xs rule: requests.induct) simp_all

definition dispatch_event :: "(string \<Rightarrow> bytes \<Rightarrow> 'd \<Rightarrow> 'd) \<Rightarrow> receive_event \<Rightarrow> 'd \<Rightarrow> 'd" where
  "dispatch_event sink ev d =
     (case ev of EvPublish topic payload \<Rightarrow> sink topic payload d | EvPublishAndPuback topic payload \<Rightarrow> sink topic payload d | _ \<Rightarrow> d)"

text \<open>What receiving leaves alone.\<close>

definition outgoing :: "('c, 'r, 'd, 'v) mqtt_session \<Rightarrow> request list \<times> nat \<times> nat option \<times> ('v, u64) out_sys \<times> nat" where
  "outgoing s = (requests (ms_sent s), ms_next_topic s, ms_waiting_since s, ms_out s, ms_last_ping s)"

text \<open>What sending leaves alone.\<close>

definition incoming :: "('c, 'r, 'd, 'v) mqtt_session \<Rightarrow> packet_reader \<times> bytes \<times> bytes list \<times> receive_event list \<times> 'd \<times> nat" where
  "incoming s = (ms_reader s, ms_fed s, ms_received s, ms_events s, ms_data s, ms_last_ack s)"

lemmas session_views = outgoing_def incoming_def

lemma commit_views [simp]:
  "incoming (commit ring kind bs s) = incoming s"
  "ms_next_topic (commit ring kind bs s) = ms_next_topic s" "ms_waiting_since (commit ring kind bs s) = ms_waiting_since s"
  "ms_out (commit ring kind bs s) = ms_out s" "ms_last_ping (commit ring kind bs s) = ms_last_ping s"
  "ms_sent (commit ring kind bs s) = ms_sent s @ [kind bs]" "ms_client (commit ring kind bs s) = ms_client s"
  "ms_connected (commit ring kind bs s) = ms_connected s" "ms_broker_max (commit ring kind bs s) = ms_broker_max s"
  by (simp_all add: commit_def incoming_def)

lemma put_sized_views [simp]:
  "incoming (put_sized ring kind bs n s) = incoming s"
  "ms_next_topic (put_sized ring kind bs n s) = ms_next_topic s" "ms_waiting_since (put_sized ring kind bs n s) = ms_waiting_since s"
  "ms_out (put_sized ring kind bs n s) = ms_out s" "ms_last_ping (put_sized ring kind bs n s) = ms_last_ping s"
  "ms_sent (put_sized ring kind bs n s) = ms_sent s @ [kind bs]" "ms_client (put_sized ring kind bs n s) = ms_client s"
  "ms_connected (put_sized ring kind bs n s) = ms_connected s" "ms_broker_max (put_sized ring kind bs n s) = ms_broker_max s"
  by (simp_all add: put_sized_def) (simp add: incoming_def)

lemma try_put_views:
  assumes "try_put client ring kind a s = (res, s')" and "\<And>bs. requests [kind bs] = []"
  shows "outgoing s' = outgoing s" and "incoming s' = incoming s" and "ms_client s' = ms_client s"
    and "ms_connected s' = ms_connected s" and "ms_broker_max s' = ms_broker_max s"
  using assms by (auto simp: try_put_def commit_def session_views split: sum.splits prod.splits bool.splits)

lemma deliver_views:
  assumes "deliver_event sink ev s = (e, s')"
  shows "outgoing s' = outgoing s" and "ms_received s' = ms_received s" and "ms_events s' = ms_events s" and "ms_fed s' = ms_fed s"
    and "e = None \<Longrightarrow> ms_data s' = dispatch_event sink ev (ms_data s)" and "ms_client s' = ms_client s"
  using assms
  by (auto simp: deliver_event_def Let_def outgoing_def dispatch_event_def split: receive_event.splits if_splits)

lemma put_puback_views:
  assumes "put_puback client ring puback s = (e, s')"
  shows "outgoing s' = outgoing s" and "incoming s' = incoming s"
proof -
  have "outgoing s' = outgoing s \<and> incoming s' = incoming s"
  proof (cases puback)
    case (Some a)
    obtain res s1 where t: "try_put client ring SentPuback a s = (res, s1)" by fastforce
    then have "s' = s1" using assms Some by (auto simp: put_puback_def split: sum.splits bool.splits)
    then show ?thesis using try_put_views(1,2) [OF t] by simp
  qed (use assms in \<open>simp add: put_puback_def\<close>)
  then show "outgoing s' = outgoing s" and "incoming s' = incoming s" by simp_all
qed

lemma handle_packet_views:
  assumes "handle_packet client ring sink now needs bs s = (e, s')"
  shows "outgoing s' = outgoing s \<and> ms_fed s' = ms_fed s
    \<and> (e = None \<longrightarrow> ms_received s' = ms_received s @ [bs]
         \<and> (\<exists>ev. ms_events s' = ms_events s @ [ev] \<and> ms_data s' = dispatch_event sink ev (ms_data s)))"
proof -
  let ?s1 = "if needs then s\<lparr>ms_ring := br_await ring puback_room (ms_ring s)\<rparr> else s"
  have v1: "outgoing ?s1 = outgoing s" "incoming ?s1 = incoming s" by (simp_all add: session_views)
  show ?thesis
  proof (cases "mc_parse client bs")
    case (Inl x)
    then show ?thesis using assms v1 by (auto simp: handle_packet_def Let_def session_views)
  next
    case (Inr packet)
    let ?s2 = "case mc_connack client packet of None \<Rightarrow> ?s1
      | Some props \<Rightarrow> ?s1\<lparr>ms_broker_max := Option.bind (find (\<lambda>p. p \<noteq> None) props) (\<lambda>p. p)\<rparr>"
    have v2: "outgoing ?s2 = outgoing s" "incoming ?s2 = incoming s"
      using v1 by (simp_all add: session_views split: option.split)
    have step: "handle_packet client ring sink now needs bs s =
        (case mc_response client packet (ms_client ?s2) of
           Inl e \<Rightarrow> (Some (ClientFailed e), ?s2)
         | Inr (puback, c) \<Rightarrow>
             (case put_puback client ring puback (?s2\<lparr>ms_client := c\<rparr>) of
                (Some e, s) \<Rightarrow> (Some e, s)
              | (None, s) \<Rightarrow>
                  (case mc_receive client packet (ms_client s) of
                     Inl e \<Rightarrow> (Some (ClientFailed e), s)
                   | Inr (ev, c) \<Rightarrow>
                       (case deliver_event sink ev (s\<lparr>ms_client := c\<rparr>) of
                          (Some e, s) \<Rightarrow> (Some e, s)
                        | (None, s) \<Rightarrow>
                            (None, s\<lparr>ms_last_ack := now, ms_connected := ms_connected s \<or> mc_connected client (ms_client s),
                                     ms_received := ms_received s @ [bs], ms_events := ms_events s @ [ev]\<rparr>)))))"
      by (simp only: handle_packet_def Inr Let_def sum.case)
    show ?thesis
    proof (cases "mc_response client packet (ms_client ?s2)")
      case (Inl x)
      then have "s' = ?s2" "e \<noteq> None" using assms unfolding step by auto
      then show ?thesis using v2 by (simp only: session_views prod.inject simp_thms)
    next
      case (Inr pc)
      obtain puback c where pc: "pc = (puback, c)" by (cases pc)
      obtain e3 s3 where put: "put_puback client ring puback (?s2\<lparr>ms_client := c\<rparr>) = (e3, s3)" by fastforce
      have v3: "outgoing s3 = outgoing s" "incoming s3 = incoming s"
        using put_puback_views [OF put] v2 by (simp_all add: session_views)
      note step = step [unfolded Inr pc sum.case prod.case put]
      show ?thesis
      proof (cases "e3 = None \<and> (\<exists>ev c. mc_receive client packet (ms_client s3) = Inr (ev, c))")
        case False
        then have "s' = s3" "e \<noteq> None" using assms step by (auto split: option.splits sum.splits)
        then show ?thesis using v3 by (simp add: session_views)
      next
        case True
        then obtain ev c' where rec: "e3 = None" "mc_receive client packet (ms_client s3) = Inr (ev, c')" by blast
        obtain e4 s4 where del: "deliver_event sink ev (s3\<lparr>ms_client := c'\<rparr>) = (e4, s4)" by fastforce
        note v4 = deliver_views [OF del]
        show ?thesis
          using assms step rec del v3 v4 by (cases e4) (auto simp: session_views)
      qed
    qed
  qed
qed

lemma drain_loop_keeps:
  assumes "\<forall>needs bs s. f (snd (handle needs bs s)) = f s"
  shows "f (snd (snd (drain_packets v u h handle r s))) = f s"
  using assms
proof (induction v u h handle r s rule: drain_packets.induct)
  case (1 v u h handle r s)
  show ?case
  proof (cases "\<exists>n. framed_len v u r = Inr (Some n)")
    case True
    then obtain n where n: "framed_len v u r = Inr (Some n)" by blast
    obtain e st where hp: "handle (head_needs_ack r) (head_packet n r) s = (e, st)" by fastforce
    have keep: "f st = f s" using "1.prems" hp by (metis snd_conv)
    show ?thesis
      using "1.IH" [OF n refl hp [symmetric]] "1.prems" n hp keep
      by (subst drain_packets.simps) (simp split: option.split)
  next
    case False
    then show ?thesis by (subst drain_packets.simps) (auto split: sum.split option.split)
  qed
qed

lemma receive_chunk_keeps:
  assumes "receive_chunk client ring sink now chunk s = (e, s')"
  shows "outgoing s' = outgoing s" and "ms_fed s' = ms_fed s @ chunk"
proof -
  let ?s = "s\<lparr>ms_fed := ms_fed s @ chunk\<rparr>" and ?h = "handle_packet client ring sink now"
  have v: "outgoing ?s = outgoing s" by (simp add: session_views)
  have "outgoing s' = outgoing s \<and> ms_fed s' = ms_fed s @ chunk"
  proof (cases "feed chunk (ms_reader s)")
    case (Inl x)
    then show ?thesis using assms v by (auto simp: receive_chunk_def)
  next
    case (Inr r)
    let ?d = "drain_packets (mc_valid_first client) (mc_variable_u32 client) (\<lambda>e. ClientFailed (PacketRead e)) ?h r ?s"
    have h: "outgoing (snd (?h needs bs s)) = outgoing s" "ms_fed (snd (?h needs bs s)) = ms_fed s" for needs bs s
      using handle_packet_views [of client ring sink now needs bs s] by (cases "?h needs bs s"; simp)+
    have "outgoing (snd (snd ?d)) = outgoing ?s" "ms_fed (snd (snd ?d)) = ms_fed ?s"
      by (rule drain_loop_keeps, simp add: h)+
    moreover have "s' = (snd (snd ?d))\<lparr>ms_reader := fst (snd ?d)\<rparr>"
      using assms Inr by (simp add: receive_chunk_def split: prod.splits)
    ultimately show ?thesis using v by (simp add: session_views)
  qed
  then show "outgoing s' = outgoing s" and "ms_fed s' = ms_fed s @ chunk" by simp_all
qed

lemma poll_arm_views:
  assumes "poll_arm ring can p s = (res, s')"
  shows "ms_sent s' = ms_sent s" "ms_next_topic s' = ms_next_topic s" "ms_waiting_since s' = ms_waiting_since s"
    "ms_last_ping s' = ms_last_ping s" "incoming s' = incoming s" "ms_client s' = ms_client s" "ms_connected s' = ms_connected s"
    "ms_broker_max s' = ms_broker_max s" "res \<noteq> None \<Longrightarrow> can"
  using assms by (auto simp: poll_arm_def Let_def session_views split: if_splits prod.splits bool.splits poll_result.splits option.splits)

lemma park_views:
  assumes "park ring can ps s = (res, s')"
  shows "ms_sent s' = ms_sent s" "ms_next_topic s' = ms_next_topic s" "ms_waiting_since s' = ms_waiting_since s"
    "ms_last_ping s' = ms_last_ping s" "incoming s' = incoming s" "ms_client s' = ms_client s" "ms_connected s' = ms_connected s"
    "ms_broker_max s' = ms_broker_max s" "res \<noteq> None \<Longrightarrow> can"
proof -
  have "ms_sent s' = ms_sent s \<and> ms_next_topic s' = ms_next_topic s \<and> ms_waiting_since s' = ms_waiting_since s
    \<and> ms_last_ping s' = ms_last_ping s \<and> incoming s' = incoming s \<and> ms_client s' = ms_client s \<and> ms_connected s' = ms_connected s
    \<and> ms_broker_max s' = ms_broker_max s \<and> (res \<noteq> None \<longrightarrow> can)"
    using assms
  proof (induction ps arbitrary: s)
    case (Cons p ps)
    obtain r s1 where poll: "poll_arm ring can p s = (r, s1)" by fastforce
    then show ?case using Cons poll_arm_views [OF poll] by (cases r) auto
  qed simp
  then show "ms_sent s' = ms_sent s" "ms_next_topic s' = ms_next_topic s" "ms_waiting_since s' = ms_waiting_since s"
    "ms_last_ping s' = ms_last_ping s" "incoming s' = incoming s" "ms_client s' = ms_client s" "ms_connected s' = ms_connected s"
    "ms_broker_max s' = ms_broker_max s" "res \<noteq> None \<Longrightarrow> can" by simp_all
qed

lemma ring_put_views:
  assumes "ring_put client ring kind a n s = (e, s')"
  shows "incoming s' = incoming s" and "ms_next_topic s' = ms_next_topic s" and "ms_waiting_since s' = ms_waiting_since s"
    and "ms_client s' = ms_client s" and "ms_connected s' = ms_connected s" and "ms_out s' = ms_out s"
    and "e = None \<Longrightarrow> \<exists>bs. mc_encode client a = Inr bs \<and> fits_ring (br_capacity ring) (length bs) n \<and> ms_sent s' = ms_sent s @ [kind bs]"
    and "e \<noteq> None \<Longrightarrow> s' = s"
  using assms by (auto simp: ring_put_def split: sum.splits if_splits)

lemma ping_due_views:
  assumes "ping_due client ring settings now s = (e, s')"
  shows "requests (ms_sent s') = requests (ms_sent s)" and "ms_next_topic s' = ms_next_topic s"
    and "ms_waiting_since s' = ms_waiting_since s" and "incoming s' = incoming s" and "ms_connected s' = ms_connected s"
    and "ms_outbound_done s' = ms_outbound_done s" and "ms_broker_max s' = ms_broker_max s" and "ms_out s' = ms_out s"
proof -
  have "requests (ms_sent s') = requests (ms_sent s) \<and> ms_next_topic s' = ms_next_topic s \<and> ms_waiting_since s' = ms_waiting_since s
    \<and> incoming s' = incoming s \<and> ms_connected s' = ms_connected s \<and> ms_outbound_done s' = ms_outbound_done s
    \<and> ms_broker_max s' = ms_broker_max s \<and> ms_out s' = ms_out s"
    using assms
    by (auto simp: ping_due_def Let_def try_put_def session_views commit_def split: if_splits sum.splits prod.splits bool.splits)
  then show "requests (ms_sent s') = requests (ms_sent s)" and "ms_next_topic s' = ms_next_topic s"
    and "ms_waiting_since s' = ms_waiting_since s" and "incoming s' = incoming s" and "ms_connected s' = ms_connected s"
    and "ms_outbound_done s' = ms_outbound_done s" and "ms_broker_max s' = ms_broker_max s" and "ms_out s' = ms_out s" by simp_all
qed

lemma subscribe_next_views:
  assumes "subscribe_next client ring now t s = (e, s')"
  shows "incoming s' = incoming s" and "ms_connected s' = ms_connected s"
    and "(\<exists>bs. ms_sent s' = ms_sent s @ [SentSubscribe (fst t) bs]) \<or> ms_sent s' = ms_sent s \<and> e \<noteq> None"
    and "e = None \<Longrightarrow> ms_next_topic s' = ms_next_topic s + 1 \<and> ms_waiting_since s' = Some now"
proof -
  have "incoming s' = incoming s \<and> ms_connected s' = ms_connected s
    \<and> ((\<exists>bs. ms_sent s' = ms_sent s @ [SentSubscribe (fst t) bs]) \<or> ms_sent s' = ms_sent s \<and> e \<noteq> None)
    \<and> (e = None \<longrightarrow> ms_next_topic s' = ms_next_topic s + 1 \<and> ms_waiting_since s' = Some now)"
  proof (cases "mc_subscribe_packet client (fst t) (snd t) (ms_client s)")
    case (Inl x)
    then show ?thesis using assms by (auto simp: subscribe_next_def)
  next
    case (Inr pc)
    obtain packet c where pc: "pc = (packet, c)" by (cases pc)
    obtain e1 s1 where put: "ring_put client ring (SentSubscribe (fst t)) packet 0 (s\<lparr>ms_client := c\<rparr>) = (e1, s1)" by fastforce
    note v = ring_put_views [OF put]
    show ?thesis
      using assms Inr pc put v by (cases e1) (auto simp: subscribe_next_def session_views split: sum.splits)
  qed
  then show "incoming s' = incoming s" and "ms_connected s' = ms_connected s"
    and "(\<exists>bs. ms_sent s' = ms_sent s @ [SentSubscribe (fst t) bs]) \<or> ms_sent s' = ms_sent s \<and> e \<noteq> None"
    and "e = None \<Longrightarrow> ms_next_topic s' = ms_next_topic s + 1 \<and> ms_waiting_since s' = Some now" by blast+
qed

lemma publish_staged_views:
  assumes "publish_staged client ring opts rid s = (e, s')"
  shows "incoming s' = incoming s" and "ms_connected s' = ms_connected s" and "ms_next_topic s' = ms_next_topic s"
    and "ms_waiting_since s' = ms_waiting_since s"
    and "ms_sent s' = ms_sent s \<or> (\<exists>bs. ms_sent s' = ms_sent s @ [SentPublish rid bs])"
proof -
  have "incoming s' = incoming s \<and> ms_connected s' = ms_connected s \<and> ms_next_topic s' = ms_next_topic s
    \<and> ms_waiting_since s' = ms_waiting_since s
    \<and> (ms_sent s' = ms_sent s \<or> (\<exists>bs. ms_sent s' = ms_sent s @ [SentPublish rid bs]))"
    using assms
    by (auto simp: publish_staged_def Let_def session_views put_sized_def commit_def
        split: prod.splits option.splits sum.splits if_splits)
  then show "incoming s' = incoming s" and "ms_connected s' = ms_connected s" and "ms_next_topic s' = ms_next_topic s"
    and "ms_waiting_since s' = ms_waiting_since s"
    and "ms_sent s' = ms_sent s \<or> (\<exists>bs. ms_sent s' = ms_sent s @ [SentPublish rid bs])" by blast+
qed

lemma turn_event_views:
  assumes "turn_event client ring sink opts can t s = (e, s')"
  shows "ms_next_topic s' = ms_next_topic s" and "ms_waiting_since s' = ms_waiting_since s"
    and "requests (ms_sent s') = requests (ms_sent s) \<or> can \<and> (\<exists>rid. requests (ms_sent s') = requests (ms_sent s) @ [ReqPublish rid])"
proof -
  obtain res s1 where park: "park ring can (tn_polls t) s = (res, s1)" by fastforce
  note v = park_views [OF park]
  have "ms_next_topic s' = ms_next_topic s \<and> ms_waiting_since s' = ms_waiting_since s
    \<and> (requests (ms_sent s') = requests (ms_sent s) \<or> can \<and> (\<exists>rid. requests (ms_sent s') = requests (ms_sent s) @ [ReqPublish rid]))"
  proof (cases res)
    case (Some rid)
    then have pub: "publish_staged client ring opts rid s1 = (e, s')" using assms park by (simp add: turn_event_def)
    show ?thesis using publish_staged_views(3-5) [OF pub] v Some by auto
  next
    case None
    show ?thesis
    proof (cases "tn_chunk t")
      case (Some chunk)
      then have "receive_chunk client ring sink (tn_ack t) chunk s1 = (e, s')" using assms park None by (simp add: turn_event_def)
      then have "outgoing s' = outgoing s1" by (rule receive_chunk_keeps)
      then show ?thesis using v by (simp add: outgoing_def)
    next
      case no: None
      then show ?thesis using assms park None v by (simp add: turn_event_def)
    qed
  qed
  then show "ms_next_topic s' = ms_next_topic s" and "ms_waiting_since s' = ms_waiting_since s"
    and "requests (ms_sent s') = requests (ms_sent s) \<or> can \<and> (\<exists>rid. requests (ms_sent s') = requests (ms_sent s) @ [ReqPublish rid])"
    by blast+
qed

text \<open>A turn that goes past its deadlines, in parts.\<close>

lemma session_turn_cases:
  assumes "session_turn client ring sink settings topics opts t s = (e, s')"
  obtains (late) "e \<noteq> None" and "s' = s"
  | (ping_failed) "ping_due client ring settings (tn_now t) s = (e, s')" and "e \<noteq> None"
  | (subscribed) s1 where "ping_due client ring settings (tn_now t) s = (None, s1)" and "ms_next_topic s1 < length topics"
      and "ms_connected s1" and "\<not> mc_waiting client (ms_client s1)"
      and "subscribe_next client ring (tn_now t) (topics ! ms_next_topic s1) s1 = (e, s')"
      and "tn_now t - ms_last_ack s \<le> se_max_silence settings"
      and "\<And>since. ms_waiting_since s = Some since \<Longrightarrow> tn_now t - since \<le> se_response_timeout settings"
  | (parked) s1 can e2 s2 where "ping_due client ring settings (tn_now t) s = (None, s1)"
      and "can \<longleftrightarrow> ms_connected s1 \<and> \<not> mc_waiting client (ms_client s1) \<and> \<not> ms_outbound_done s1"
      and "\<not> (ms_connected s1 \<and> \<not> mc_waiting client (ms_client s1) \<and> ms_next_topic s1 < length topics)"
      and "turn_event client ring sink opts can t s1 = (e2, s2)"
      and "e2 = None \<and> e = None \<and> s' = s2\<lparr>ms_waiting_since := (if mc_waiting client (ms_client s2)
              then (case ms_waiting_since s2 of None \<Rightarrow> Some (tn_end t) | Some since \<Rightarrow> Some since) else None)\<rparr>
           \<or> e2 \<noteq> None \<and> e = e2 \<and> s' = s2"
      and "tn_now t - ms_last_ack s \<le> se_max_silence settings"
      and "\<And>since. ms_waiting_since s = Some since \<Longrightarrow> tn_now t - since \<le> se_response_timeout settings"
proof -
  show thesis
  proof (cases "se_max_silence settings < tn_now t - ms_last_ack s
      \<or> (case ms_waiting_since s of None \<Rightarrow> False | Some since \<Rightarrow> se_response_timeout settings < tn_now t - since)")
    case True
    then show thesis using assms late by (auto simp: session_turn_def split: if_splits)
  next
    case False
    then have times: "tn_now t - ms_last_ack s \<le> se_max_silence settings"
      "\<And>since. ms_waiting_since s = Some since \<Longrightarrow> tn_now t - since \<le> se_response_timeout settings" by auto
    obtain e1 s1 where ping: "ping_due client ring settings (tn_now t) s = (e1, s1)" by fastforce
    show thesis
    proof (cases e1)
      case (Some x)
      then show thesis using assms False ping ping_failed by (auto simp: session_turn_def)
    next
      case None
      let ?idle = "ms_connected s1 \<and> \<not> mc_waiting client (ms_client s1)"
      show thesis
      proof (cases "?idle \<and> ms_next_topic s1 < length topics")
        case True
        then have "subscribe_next client ring (tn_now t) (topics ! ms_next_topic s1) s1 = (e, s')"
          using assms False ping None by (simp add: session_turn_def)
        then show thesis using subscribed ping None True times by blast
      next
        case rest: False
        obtain e2 s2 where event: "turn_event client ring sink opts (?idle \<and> \<not> ms_outbound_done s1) t s1 = (e2, s2)" by fastforce
        have "e2 = None \<and> e = None \<and> s' = s2\<lparr>ms_waiting_since := (if mc_waiting client (ms_client s2)
              then (case ms_waiting_since s2 of None \<Rightarrow> Some (tn_end t) | Some since \<Rightarrow> Some since) else None)\<rparr>
           \<or> e2 \<noteq> None \<and> e = e2 \<and> s' = s2"
          using assms False ping None rest event by (cases e2) (auto simp: session_turn_def Let_def)
        then show thesis using parked [OF ping [unfolded None] _ _ event] rest times by blast
      qed
    qed
  qed
qed

subsection \<open>The order of requests\<close>

definition order_ok :: "(string \<times> quality_of_service) list \<Rightarrow> ('c, 'r, 'd, 'v) mqtt_session \<Rightarrow> bool" where
  "order_ok topics s \<longleftrightarrow>
     (\<exists>pubs. requests (ms_sent s) = ReqConnect # map ReqSubscribe (take (ms_next_topic s) (map fst topics)) @ map ReqPublish pubs
        \<and> (pubs = [] \<or> length topics \<le> ms_next_topic s)) \<and> ms_next_topic s \<le> length topics"

definition log_ok :: "(string \<times> quality_of_service) list \<Rightarrow> sent list \<Rightarrow> bool" where
  "log_ok topics sent \<longleftrightarrow>
     (\<exists>n pubs. requests sent = take n (ReqConnect # map (\<lambda>t. ReqSubscribe (fst t)) topics) @ map ReqPublish pubs
        \<and> (pubs = [] \<or> length topics < n))"

lemma order_log: "order_ok topics s \<Longrightarrow> log_ok topics (ms_sent s)"
proof -
  assume "order_ok topics s"
  then obtain pubs where p: "requests (ms_sent s) = ReqConnect # map ReqSubscribe (take (ms_next_topic s) (map fst topics)) @ map ReqPublish pubs"
    "pubs = [] \<or> length topics \<le> ms_next_topic s" by (auto simp: order_ok_def)
  show ?thesis unfolding log_ok_def
    by (rule exI [of _ "Suc (ms_next_topic s)"], rule exI [of _ pubs]) (use p in \<open>auto simp: take_map o_def\<close>)
qed

lemma turn_order:
  assumes "session_turn client ring sink settings topics opts t s = (e, s')" and "order_ok topics s"
  shows "(e = None \<longrightarrow> order_ok topics s') \<and> log_ok topics (ms_sent s')"
  using assms(1)
proof (cases rule: session_turn_cases)
  case late
  then show ?thesis using order_log assms(2) by blast
next
  case ping_failed
  then have "order_ok topics s'" using ping_due_views(1,2) [OF ping_failed(1)] assms(2) by (simp add: order_ok_def)
  then show ?thesis using order_log ping_failed(2) by blast
next
  case (subscribed s1)
  have s1: "order_ok topics s1" using ping_due_views(1,2) [OF subscribed(1)] assms(2) by (simp add: order_ok_def)
  note v = subscribe_next_views [OF subscribed(5)]
  have reqs: "requests (ms_sent s1) = ReqConnect # map ReqSubscribe (take (ms_next_topic s1) (map fst topics))"
    using s1 subscribed(2) by (auto simp: order_ok_def)
  show ?thesis
  proof (cases "ms_sent s' = ms_sent s1 \<and> e \<noteq> None")
    case True
    then show ?thesis using order_log [OF s1] by auto
  next
    case False
    then have "requests (ms_sent s') = ReqConnect # map ReqSubscribe (take (Suc (ms_next_topic s1)) (map fst topics))"
      using v(3) reqs subscribed(2) by (auto simp: take_Suc_conv_app_nth)
    then have order: "order_ok topics (s'\<lparr>ms_next_topic := Suc (ms_next_topic s1)\<rparr>)"
      using subscribed(2) by (simp add: order_ok_def)
    then have "log_ok topics (ms_sent s')" using order_log [OF order] by simp
    then show ?thesis using v(4) order by (auto simp: order_ok_def)
  qed
next
  case (parked s1 can e2 s2)
  have s1: "order_ok topics s1" using ping_due_views(1,2) [OF parked(1)] assms(2) by (simp add: order_ok_def)
  note v = turn_event_views [OF parked(4)]
  have "order_ok topics s2"
  proof (cases "requests (ms_sent s2) = requests (ms_sent s1)")
    case True
    then show ?thesis using s1 v(1) by (simp add: order_ok_def)
  next
    case False
    then obtain rid where "can" "requests (ms_sent s2) = requests (ms_sent s1) @ [ReqPublish rid]" using v(3) by blast
    moreover have "length topics \<le> ms_next_topic s1" using calculation(1) parked(2,3) by auto
    moreover obtain pubs where "requests (ms_sent s1) = ReqConnect # map ReqSubscribe (take (ms_next_topic s1) (map fst topics)) @ map ReqPublish pubs"
      using s1 by (auto simp: order_ok_def)
    ultimately show ?thesis
      using s1 v(1) by (auto simp: order_ok_def intro!: exI [of _ "pubs @ [rid]"])
  qed
  then have "order_ok topics s'" using parked(5) by (auto simp: order_ok_def)
  then show ?thesis using order_log by blast
qed

lemma session_start_order:
  assumes "client_loop_connect client ring settings start r data out = (e, s)"
  shows "(e = None \<longrightarrow> order_ok topics s) \<and> log_ok topics (ms_sent s)"
proof -
  let ?packet = "mc_connect_packet client (se_keep_alive_secs settings) max_inbound_packet"
  let ?new = "client_loop_new client ring start r data out"
  have new: "ms_sent ?new = []" "ms_next_topic ?new = 0" by (simp_all add: client_loop_new_def)
  have log: "log_ok topics []" unfolding log_ok_def by (intro exI [of _ 0] exI [of _ "[]"]) simp
  show ?thesis
  proof (cases "mc_connect client ?packet (ms_client ?new)")
    case (Inl x)
    then show ?thesis using assms log new by (auto simp: client_loop_connect_def)
  next
    case (Inr c)
    then have put: "ring_put client ring SentConnect ?packet 0 (?new\<lparr>ms_client := c\<rparr>) = (e, s)"
      using assms by (simp add: client_loop_connect_def Let_def)
    note v = ring_put_views [OF put]
    have none: "order_ok topics s" if "e = None" using v(2,7) that new by (auto simp: order_ok_def)
    show ?thesis
    proof (cases e)
      case None
      then show ?thesis using none order_log by blast
    next
      case (Some x)
      then show ?thesis using v(8) log new by simp
    qed
  qed
qed

lemma session_turns_invariant:
  assumes "\<And>t s e s'. t \<in> set ts \<Longrightarrow> I s \<Longrightarrow> session_turn client ring sink settings topics opts t s = (e, s') \<Longrightarrow> (e = None \<longrightarrow> I s') \<and> J s'"
    and "session_turns client ring sink settings topics opts ts (e0, s0) = (e, s)" and "e0 = None \<longrightarrow> I s0" and "J s0"
  shows "(e = None \<longrightarrow> I s) \<and> J s"
  using assms
proof (induction ts arbitrary: e0 s0)
  case (Cons t ts)
  show ?case
  proof (cases e0)
    case None
    obtain e1 s1 where turn: "session_turn client ring sink settings topics opts t s0 = (e1, s1)" by fastforce
    have "(e1 = None \<longrightarrow> I s1) \<and> J s1" using Cons.prems(1) [OF _ _ turn] Cons.prems(3) None by simp
    moreover have "session_turns client ring sink settings topics opts ts (e1, s1) = (e, s)" using Cons.prems(2) None turn by simp
    ultimately show ?thesis using Cons.IH [of e1 s1] Cons.prems(1) by (meson list.set_intros(2))
  qed (use Cons.prems in simp)
qed simp

text \<open>
  C21. Whatever the broker, the clock and the records do, the requests of a session are its CONNECT, then the
  subscriptions in their order, one each, then publications: nothing precedes the CONNECT, no subscription
  is repeated or skipped, and nothing is published before the last one is placed.
\<close>

theorem mqtt_request_order:
  assumes "client_loop client ring sink settings topics opts start r data out ts = (e, s)"
  shows "\<exists>n pubs. requests (ms_sent s) = take n (ReqConnect # map (\<lambda>t. ReqSubscribe (fst t)) topics) @ map ReqPublish pubs
     \<and> (pubs = [] \<or> length topics < n)"
proof -
  obtain e0 s0 where start: "client_loop_connect client ring settings start r data out = (e0, s0)" by fastforce
  have turns: "session_turns client ring sink settings topics opts ts (e0, s0) = (e, s)"
    using assms start by (simp add: client_loop_def)
  have "(e = None \<longrightarrow> order_ok topics s) \<and> log_ok topics (ms_sent s)"
    by (rule session_turns_invariant [where I = "order_ok topics" and J = "\<lambda>s. log_ok topics (ms_sent s)", OF _ turns])
      (use session_start_order [OF start, of topics] turn_order in blast)+
  then show ?thesis by (simp add: log_ok_def)
qed

subsection \<open>What arrives\<close>

definition inbound_ok :: "(u8 \<Rightarrow> bool) \<Rightarrow> ('c, 'r, 'd, 'v) mqtt_session \<Rightarrow> bool" where
  "inbound_ok valid_first s \<longleftrightarrow>
     reader_ok packet_buffer_size (ms_reader s)
     \<and> (\<forall>ps q i. (\<forall>p \<in> set (ps @ [q]). mqtt_packet valid_first p \<and> length p \<le> max_inbound_packet) \<and> i < length q
          \<and> ms_fed s = concat ps @ take i q \<longrightarrow> ms_received s = ps \<and> held (ms_reader s) = take i q)"

definition data_ok :: "(string \<Rightarrow> bytes \<Rightarrow> 'd \<Rightarrow> 'd) \<Rightarrow> 'd \<Rightarrow> ('c, 'r, 'd, 'v) mqtt_session \<Rightarrow> bool" where
  "data_ok sink data s \<longleftrightarrow>
     ms_data s = fold (dispatch_event sink) (ms_events s) data \<and> length (ms_events s) = length (ms_received s)"

lemma incoming_ok:
  "incoming s' = incoming s \<Longrightarrow> inbound_ok v s' = inbound_ok v s" "incoming s' = incoming s \<Longrightarrow> data_ok sink d s' = data_ok sink d s"
  by (simp_all add: incoming_def inbound_ok_def data_ok_def)

lemma incoming_keeps:
  assumes "incoming s' = incoming s" and "inbound_ok v s \<and> data_ok sink d s"
  shows "inbound_ok v s' \<and> data_ok sink d s'"
  using assms(2) unfolding incoming_ok [OF assms(1)] .

lemma handle_packet_data:
  assumes "handle_packet client ring sink now needs bs s = (None, s')" and "data_ok sink data s"
  shows "data_ok sink data s'" and "ms_received s' = ms_received s @ [bs]"
  using handle_packet_views [OF assms(1)] assms(2) by (auto simp: data_ok_def)

lemma handle_all_received:
  "handle_all (handle_packet client ring sink now) ps s = (None, s') \<Longrightarrow> ms_received s' = ms_received s @ ps"
proof (induction ps arbitrary: s)
  case (Cons p ps)
  obtain e s1 where h: "handle_packet client ring sink now (needs_ack p) p s = (e, s1)" by fastforce
  have "e = None" using Cons.prems h by (cases e) simp_all
  then show ?case using Cons h handle_packet_views [OF h] by simp
qed simp

lemma drain_loop_None:
  assumes "\<forall>needs bs s s'. P s \<and> handle needs bs s = (None, s') \<longrightarrow> P s'" and "reader_ok N r" and "P s"
    and "drain_packets v u h handle r s = (None, r', s')"
  shows "P s' \<and> reader_ok N r'"
  using assms
proof (induction v u h handle r s rule: drain_packets.induct)
  case (1 v u h handle r s)
  have unfolded: "(case framed_len v u r of
        Inl e \<Rightarrow> (Some (h e), r, s)
      | Inr None \<Rightarrow> (None, r, s)
      | Inr (Some n) \<Rightarrow>
          (case handle (head_needs_ack r) (head_packet n r) s of
             (Some e, st') \<Rightarrow> (Some e, r, st')
           | (None, st') \<Rightarrow> drain_packets v u h handle (consume n r) st')) = (None, r', s')"
    using "1.prems"(4) drain_packets.simps [of v u h handle r s] by simp
  show ?case
  proof (cases "framed_len v u r")
    case (Inl e)
    then show ?thesis using unfolded by simp
  next
    case (Inr f)
    show ?thesis
    proof (cases f)
      case None
      then show ?thesis using unfolded Inr "1.prems"(2,3) by simp
    next
      case (Some n)
      obtain e st where hp: "handle (head_needs_ack r) (head_packet n r) s = (e, st)" by fastforce
      have none: "e = None" and rest: "drain_packets v u h handle (consume n r) st = (None, r', s')"
        using unfolded Inr Some hp by (cases e; simp)+
      have "n \<le> pr_len r" using framed_len_Some(2) [of v u r n] Inr Some by simp
      then have "reader_ok N (consume n r)" using consume_ok(1) "1.prems"(2) length_held by fastforce
      moreover have "P st" using "1.prems"(1,3) hp none by blast
      ultimately show ?thesis
        using "1.IH" [OF Inr Some hp [symmetric] none] "1.prems"(1) rest by blast
    qed
  qed
qed

lemma receive_chunk_ok:
  assumes "receive_chunk client ring sink now chunk s = (None, s')" and "decodes_vbi (mc_variable_u32 client)"
    and "length chunk \<le> rx_chunk" and "inbound_ok (mc_valid_first client) s" and "data_ok sink data s"
  shows "inbound_ok (mc_valid_first client) s' \<and> data_ok sink data s'"
proof -
  let ?s = "s\<lparr>ms_fed := ms_fed s @ chunk\<rparr>" and ?h = "handle_packet client ring sink now"
  obtain r where fed: "feed chunk (ms_reader s) = Inr r"
    using assms(1) by (cases "feed chunk (ms_reader s)") (simp_all add: receive_chunk_def)
  obtain e r2 s2 where drain: "drain_packets (mc_valid_first client) (mc_variable_u32 client) (\<lambda>e. ClientFailed (PacketRead e)) ?h r ?s = (e, r2, s2)"
    by (metis prod_cases3)
  then have e: "e = None" and s': "s' = s2\<lparr>ms_reader := r2\<rparr>" using assms(1) fed by (simp_all add: receive_chunk_def)
  have ok: "reader_ok packet_buffer_size (ms_reader s)" using assms(4) by (simp add: inbound_ok_def)
  have r: "reader_ok packet_buffer_size r" "held r = held (ms_reader s) @ chunk" using feed_iff(2) [OF ok fed] by simp_all
  have data: "data_ok sink data ?s" using assms(5) by (simp add: data_ok_def)
  have keep: "\<forall>needs bs s s'. data_ok sink data s \<and> ?h needs bs s = (None, s') \<longrightarrow> data_ok sink data s'"
    by (intro allI impI, elim conjE, rule handle_packet_data(1))
  have d: "data_ok sink data s2 \<and> reader_ok packet_buffer_size r2"
    by (rule drain_loop_None [OF keep r(1) data drain [unfolded e]])
  have fed': "ms_fed s' = ms_fed s @ chunk" using receive_chunk_keeps(2) [OF assms(1)] .
  have "ms_received s' = ps \<and> held (ms_reader s') = take i q"
    if all: "\<forall>p \<in> set (ps @ [q]). mqtt_packet (mc_valid_first client) p \<and> length p \<le> max_inbound_packet"
      and i: "i < length q" and f: "ms_fed s' = concat ps @ take i q" for ps q i
  proof -
    obtain ps1 ps2 j where dec: "ps = ps1 @ ps2" "j < length (hd (ps2 @ [q]))" "ms_fed s = concat ps1 @ take j (hd (ps2 @ [q]))"
      "take j (hd (ps2 @ [q])) @ chunk = concat ps2 @ take i q"
      using prefix_of_packets [of "ms_fed s" chunk ps i q] f fed' i by auto
    have "hd (ps2 @ [q]) \<in> set (ps @ [q])" using dec(1) by (cases ps2) simp_all
    then have "\<forall>p \<in> set (ps1 @ [hd (ps2 @ [q])]). mqtt_packet (mc_valid_first client) p \<and> length p \<le> max_inbound_packet"
      using all dec(1) by auto
    then have before: "ms_received s = ps1" "held (ms_reader s) = take j (hd (ps2 @ [q]))"
      using assms(4) dec(2,3) unfolding inbound_ok_def by blast+
    have "\<forall>p \<in> set (ps2 @ [q]). mqtt_packet (mc_valid_first client) p \<and> length p \<le> packet_buffer_size"
      using all dec(1) unfolding max_inbound_packet_def by (metis Un_iff diff_le_self le_trans set_append append.assoc)
    from drain_exact [OF assms(2) this r(1) _ i, where handle = ?h and st = ?s and read_error = "\<lambda>e. ClientFailed (PacketRead e)"]
    have "case handle_all ?h ps2 ?s of (Some x, st') \<Rightarrow> (e, r2, s2) = (Some x, r2, st')
      | (None, st') \<Rightarrow> (e, r2, s2) = (None, r2, st') \<and> held r2 = take i q"
      using before(2) dec(4) r(2) drain by (auto split: prod.splits option.splits)
    then have "handle_all ?h ps2 ?s = (None, s2)" "held r2 = take i q"
      using e by (auto split: prod.splits option.splits)
    moreover have "ms_received s2 = ps1 @ ps2" using handle_all_received [OF calculation(1)] before(1) by simp
    ultimately show ?thesis using s' dec(1) by simp
  qed
  then show ?thesis using d s' by (auto simp: inbound_ok_def data_ok_def)
qed

lemma turn_receives:
  assumes "session_turn client ring sink settings topics opts t s = (None, s')" and "decodes_vbi (mc_variable_u32 client)"
    and "\<forall>c. tn_chunk t = Some c \<longrightarrow> length c \<le> rx_chunk"
    and "inbound_ok (mc_valid_first client) s \<and> data_ok sink data s"
  shows "inbound_ok (mc_valid_first client) s' \<and> data_ok sink data s'"
  using assms(1)
proof (cases rule: session_turn_cases)
  case (subscribed s1)
  have "incoming s' = incoming s" using ping_due_views(4) [OF subscribed(1)] subscribe_next_views(1) [OF subscribed(5)] by simp
  then show ?thesis using assms(4) by (rule incoming_keeps)
next
  case (parked s1 can e2 s2)
  have s1: "inbound_ok (mc_valid_first client) s1 \<and> data_ok sink data s1"
    by (rule incoming_keeps [OF ping_due_views(4) [OF parked(1)] assms(4)])
  have e2: "e2 = None" and s': "incoming s' = incoming s2" using parked(5) by (auto simp: incoming_def)
  obtain res s3 where park: "park ring can (tn_polls t) s1 = (res, s3)" by fastforce
  have s3: "inbound_ok (mc_valid_first client) s3 \<and> data_ok sink data s3"
    by (rule incoming_keeps [OF park_views(5) [OF park] s1])
  have "inbound_ok (mc_valid_first client) s2 \<and> data_ok sink data s2"
  proof (cases res)
    case (Some rid)
    then have pub: "publish_staged client ring opts rid s3 = (e2, s2)" using parked(4) park by (simp add: turn_event_def)
    show ?thesis by (rule incoming_keeps [OF publish_staged_views(1) [OF pub] s3])
  next
    case None
    show ?thesis
    proof (cases "tn_chunk t")
      case (Some chunk)
      then have "receive_chunk client ring sink (tn_ack t) chunk s3 = (None, s2)"
        using parked(4) park None e2 by (simp add: turn_event_def)
      then show ?thesis by (rule receive_chunk_ok) (use assms(2,3) s3 Some in simp_all)
    next
      case no: None
      then show ?thesis using parked(4) park None s3 by (simp add: turn_event_def)
    qed
  qed
  then show ?thesis by (rule incoming_keeps [OF s'])
qed simp_all

lemma session_start_views:
  assumes "client_loop_connect client ring settings start r data out = (None, s)"
  shows "incoming s = incoming (client_loop_new client ring start r data out)"
    and "ms_waiting_since s = Some start"
proof -
  let ?packet = "mc_connect_packet client (se_keep_alive_secs settings) max_inbound_packet"
  let ?new = "client_loop_new client ring start r data out"
  obtain c where "ring_put client ring SentConnect ?packet 0 (?new\<lparr>ms_client := c\<rparr>) = (None, s)"
    using assms by (auto simp: client_loop_connect_def Let_def split: sum.splits)
  note v = ring_put_views [OF this]
  show "incoming s = incoming ?new" using v(1) by (simp add: incoming_def)
  show "ms_waiting_since s = Some start" using v(3) by (simp add: client_loop_new_def)
qed

lemma session_turns_reach:
  assumes "\<And>t s s'. t \<in> set ts \<Longrightarrow> I s \<Longrightarrow> session_turn client ring sink settings topics opts t s = (None, s') \<Longrightarrow> I s'"
    and "client_loop client ring sink settings topics opts start r data out ts = (None, s)"
    and "\<And>s. client_loop_connect client ring settings start r data out = (None, s) \<Longrightarrow> I s"
  shows "I s"
proof -
  obtain e0 s0 where start: "client_loop_connect client ring settings start r data out = (e0, s0)" by fastforce
  then have turns: "session_turns client ring sink settings topics opts ts (e0, s0) = (None, s)"
    using assms(2) by (simp add: client_loop_def)
  have "((None :: session_end option) = None \<longrightarrow> I s) \<and> True"
    using session_turns_invariant [where I = I and J = "\<lambda>_. True", OF _ turns] assms(1,3) start by fastforce
  then show ?thesis by simp
qed

text \<open>
  C16. What the broker sends arrives: while a session lasts, the packets it has handled are exactly those
  that have arrived whole, in order, however the socket cut the bytes and whatever else the loop did in
  between; the part of the next one is kept; and the records have received exactly the publications among
  them, in order.
\<close>

theorem mqtt_session_delivers:
  assumes "client_loop client ring sink settings topics opts start r data out ts = (None, s)"
    and "decodes_vbi (mc_variable_u32 client)" and "\<forall>t \<in> set ts. \<forall>c. tn_chunk t = Some c \<longrightarrow> length c \<le> rx_chunk"
    and "\<forall>p \<in> set (ps @ [q]). mqtt_packet (mc_valid_first client) p \<and> length p \<le> max_inbound_packet"
    and "ms_fed s = concat ps @ take i q" and "i < length q"
  shows "ms_received s = ps \<and> held (ms_reader s) = take i q
    \<and> length (ms_events s) = length ps \<and> ms_data s = fold (dispatch_event sink) (ms_events s) data"
proof -
  have "inbound_ok (mc_valid_first client) s \<and> data_ok sink data s"
  proof (rule session_turns_reach [OF _ assms(1), where I = "\<lambda>s. inbound_ok (mc_valid_first client) s \<and> data_ok sink data s"])
    fix s0
    assume "client_loop_connect client ring settings start r data out = (None, s0)"
    then have same: "incoming s0 = incoming (client_loop_new client ring start r data out)" by (rule session_start_views)
    let ?new = "client_loop_new client ring start r data out"
    have "inbound_ok v ?new" for v
    proof -
      have "ps = [] \<and> i = 0" if "[] = concat ps @ take i q" "i < length q" "\<forall>p \<in> set (ps @ [q]). mqtt_packet v p \<and> length p \<le> max_inbound_packet" for ps q i
        using that by (cases ps) (auto simp: mqtt_packet_def)
      then show ?thesis by (fastforce simp: inbound_ok_def client_loop_new_def)
    qed
    moreover have "data_ok sink data ?new" by (simp add: data_ok_def client_loop_new_def)
    ultimately show "inbound_ok (mc_valid_first client) s0 \<and> data_ok sink data s0" using incoming_ok [OF same] by blast
  next
    fix t s s'
    assume "t \<in> set ts" "inbound_ok (mc_valid_first client) s \<and> data_ok sink data s"
      "session_turn client ring sink settings topics opts t s = (None, s')"
    then show "inbound_ok (mc_valid_first client) s' \<and> data_ok sink data s'"
      using turn_receives [where t = t and s = s and s' = s', OF _ assms(2)] bspec [OF assms(3)] by metis
  qed
  then show ?thesis using assms(4-6) unfolding inbound_ok_def data_ok_def by blast
qed

subsection \<open>Deadlines\<close>

lemma next_deadline_bounds:
  "1 \<le> session_deadline now connected ping live response"
  "now + session_deadline now connected ping live response \<le> max (now + 1) live"
  "connected \<Longrightarrow> now + session_deadline now connected ping live response \<le> max (now + 1) ping"
  "response = Some at \<Longrightarrow> now + session_deadline now connected ping live response \<le> max (now + 1) at"
  by (auto simp: session_deadline_def Let_def split: option.split)

lemma turn_arms:
  assumes "session_turn client ring sink settings topics opts t s = (None, s')"
  shows "mc_waiting client (ms_client s') \<Longrightarrow> ms_waiting_since s' \<noteq> None"
  using assms
proof (cases rule: session_turn_cases)
  case (subscribed s1)
  show "mc_waiting client (ms_client s') \<Longrightarrow> ms_waiting_since s' \<noteq> None" using subscribe_next_views(4) [OF subscribed(5)] by simp
next
  case (parked s1 can e2 s2)
  show "mc_waiting client (ms_client s') \<Longrightarrow> ms_waiting_since s' \<noteq> None" using parked(5) by (auto split: option.splits)
qed simp_all

text \<open>
  C36. A silent broker is noticed: in every session, a turn goes on only if the broker was heard within the
  liveness window, and, while an acknowledgement is outstanding, only if it has been outstanding for no
  longer than the response timeout; and the loop never sleeps past the liveness, response or ping
  deadline, nor for less than a millisecond.
\<close>

theorem mqtt_deadlines:
  assumes "client_loop client ring sink settings topics opts start r data out ts = (None, s)"
    and "session_turn client ring sink settings topics opts t s = (None, s')"
    and "ping_due client ring settings (tn_now t) s = (None, p)"
  shows "tn_now t - ms_last_ack s \<le> se_max_silence settings
    \<and> (mc_waiting client (ms_client s) \<longrightarrow>
         (\<exists>since. ms_waiting_since s = Some since \<and> tn_now t - since \<le> se_response_timeout settings))
    \<and> 1 \<le> turn_sleep settings (tn_now t) p
    \<and> tn_now t + turn_sleep settings (tn_now t) p \<le> max (tn_now t + 1) (ms_last_ack s + se_max_silence settings)
    \<and> (\<forall>since. ms_waiting_since s = Some since \<longrightarrow>
         tn_now t + turn_sleep settings (tn_now t) p \<le> max (tn_now t + 1) (since + se_response_timeout settings))
    \<and> (ms_connected s \<longrightarrow>
         tn_now t + turn_sleep settings (tn_now t) p \<le> max (tn_now t + 1) (ms_last_ping p + se_ping_interval settings))"
proof -
  have armed: "mc_waiting client (ms_client s) \<longrightarrow> ms_waiting_since s \<noteq> None"
    by (rule session_turns_reach [OF _ assms(1), where I = "\<lambda>s. mc_waiting client (ms_client s) \<longrightarrow> ms_waiting_since s \<noteq> None"])
      (use turn_arms session_start_views(2) in fastforce)+
  have times: "tn_now t - ms_last_ack s \<le> se_max_silence settings
      \<and> (\<forall>since. ms_waiting_since s = Some since \<longrightarrow> tn_now t - since \<le> se_response_timeout settings)"
    using assms(2) by (cases rule: session_turn_cases) auto
  have p: "ms_last_ack p = ms_last_ack s" "ms_waiting_since p = ms_waiting_since s" "ms_connected p = ms_connected s"
    using ping_due_views(3-5) [OF assms(3)] by (simp_all add: incoming_def)
  show ?thesis
    using armed times next_deadline_bounds by (auto simp: turn_sleep_def p)
qed

subsection \<open>Witnesses\<close>

text \<open>
  A client that is connected by a CONNACK and waits for the acknowledgement of its CONNECT and of each
  SUBSCRIBE; a ring with room for everything; a session that subscribes, receives one publication and
  publishes one record.
\<close>

definition demo_client :: "(bool \<times> bool, bytes, bytes) mqtt_client" where
  "demo_client =
     \<lparr>mc_new = (False, False), mc_connect_packet = (\<lambda>_ _. [16, 0]), mc_connect = (\<lambda>_ _. Inr (False, True)),
      mc_waiting = snd, mc_connected = fst, mc_ping = (\<lambda>c. Inr ([192, 0], c)),
      mc_subscribe_packet = (\<lambda>_ _ c. Inr ([130, 0], c)), mc_subscribe_update = (\<lambda>_ c. Inr (fst c, True)),
      mc_publish_packet = (\<lambda>topic payload _ _ c. Inr (48 # topic @ payload, c)), mc_publish_update = (\<lambda>_. Inr),
      mc_response = (\<lambda>_ c. Inr (None, c)),
      mc_receive = (\<lambda>p c. Inr (if hd p = 48 then (EvPublish ''a'' (drop 2 p), c) else (EvAck, (True, False)))),
      mc_connack = (\<lambda>p. if hd p = 32 then Some [] else None), mc_parse = Inr, mc_encode = Inr,
      mc_valid_first = (\<lambda>_. True), mc_variable_u32 = vbi_value\<rparr>"

definition demo_ring :: "unit byte_ring" where
  "demo_ring = \<lparr>br_capacity = 4096, br_grants = (\<lambda>_ r. (True, r)), br_await = (\<lambda>_ r. r), br_commit = (\<lambda>_ r. r), br_drain = (\<lambda>r. r)\<rparr>"

definition demo_turn :: "nat \<Rightarrow> bytes option \<Rightarrow> (nat \<times> (u8, u64) stamped) list \<Rightarrow> (unit, u8) mqtt_turn" where
  "demo_turn now chunk writes =
     \<lparr>tn_now = now, tn_polls = [\<lparr>pp_release = (\<lambda>r. r), pp_writes = writes, pp_racing = []\<rparr>], tn_chunk = chunk,
      tn_ack = now, tn_end = now\<rparr>"

definition demo_turns :: "(unit, u8) mqtt_turn list" where
  "demo_turns =
     [demo_turn 10 (Some [32, 0, 48]) [], demo_turn 20 None [], demo_turn 30 (Some [1, 7, 144]) [],
      demo_turn 40 (Some [0, 48]) [], demo_turn 50 None [(0, \<lparr>st_value = 5, st_metadata = 1\<rparr>)]]"

lemma demo_chunk:
  fixes s :: "(bool \<times> bool, unit, (string \<times> bytes) list, u8) mqtt_session"
  assumes "held (ms_reader s) @ chunk = p @ take i q" and "reader_ok packet_buffer_size (ms_reader s)"
    and "mqtt_packet (\<lambda>_. True) p" "mqtt_packet (\<lambda>_. True) q" and "length p \<le> 3" "length q \<le> 3" "i < length q" "length chunk \<le> 3"
    and "handle_packet demo_client demo_ring sink now (needs_ack p) p (s\<lparr>ms_fed := ms_fed s @ chunk\<rparr>) = (None, s')"
  shows "\<exists>r. receive_chunk demo_client demo_ring sink now chunk s = (None, s'\<lparr>ms_reader := r\<rparr>)
    \<and> reader_ok packet_buffer_size r \<and> held r = take i q"
proof -
  let ?h = "handle_packet demo_client demo_ring sink now"
  have "length (held (ms_reader s)) + length chunk = length p + i" using arg_cong [OF assms(1), of length] assms(7) by simp
  then have "length (held (ms_reader s)) + length chunk \<le> packet_buffer_size"
    using assms(5-7) by (simp add: packet_buffer_size_def buffer_size_def rx_chunk_def)
  then obtain r where fed: "feed chunk (ms_reader s) = Inr r" using feed_iff(3) [OF assms(2)] by blast
  have r: "reader_ok packet_buffer_size r" "held r = concat [p] @ take i q" using feed_iff(2) [OF assms(2) fed] assms(1) by simp_all
  have all: "\<forall>x \<in> set ([p] @ [q]). mqtt_packet (mc_valid_first demo_client) x \<and> length x \<le> packet_buffer_size"
    using assms(3-6) by (simp add: demo_client_def packet_buffer_size_def buffer_size_def rx_chunk_def)
  have dec: "decodes_vbi (mc_variable_u32 demo_client)" by (simp add: demo_client_def vbi_value_ok)
  from drain_exact [OF dec all r assms(7), where handle = ?h and st = "s\<lparr>ms_fed := ms_fed s @ chunk\<rparr>"
      and read_error = "\<lambda>e. ClientFailed (PacketRead e)"]
  obtain r' where "drain_packets (mc_valid_first demo_client) (mc_variable_u32 demo_client) (\<lambda>e. ClientFailed (PacketRead e)) ?h r
      (s\<lparr>ms_fed := ms_fed s @ chunk\<rparr>) = (None, r', s')" "reader_ok packet_buffer_size r'" "held r' = take i q"
    using assms(9) by auto
  then show ?thesis using fed by (intro exI [of _ r']) (simp add: receive_chunk_def)
qed

definition demo_sink :: "string \<Rightarrow> bytes \<Rightarrow> (string \<times> bytes) list \<Rightarrow> (string \<times> bytes) list" where
  "demo_sink topic payload d = d @ [(topic, payload)]"

definition demo_out :: "(u8, u64) out_sys" where
  "demo_out = out_init [CfgSpmcRing 4] [[demo_link]] [1]"

abbreviation demo_step :: "nat \<Rightarrow> (bool \<times> bool, unit, (string \<times> bytes) list, u8) mqtt_session
   \<Rightarrow> session_end option \<times> (bool \<times> bool, unit, (string \<times> bytes) list, u8) mqtt_session" where
  "demo_step i s \<equiv> session_turn demo_client demo_ring demo_sink (from_keep_alive_secs 60) [(''a'', Qos1)] [] (demo_turns ! i) s"

lemmas demo_turn_defs = session_turn_def ping_due_def turn_event_def poll_arm_def poll_room_def demo_turns_def demo_turn_def demo_client_def
  demo_ring_def from_keep_alive_secs_def

lemmas demo_packet_defs = handle_packet_def put_puback_def deliver_event_def demo_client_def demo_ring_def needs_ack_def demo_sink_def

lemma demo_packets:
  "mqtt_packet (\<lambda>_. True) [32, 0]" "mqtt_packet (\<lambda>_. True) [48, 1, 7]" "mqtt_packet (\<lambda>_. True) [144, 0]"
proof -
  have v: "vbi (Suc 0) = [1]" "vbi 0 = [0]" by (simp_all add: vbi.simps)
  show "mqtt_packet (\<lambda>_. True) [32, 0]" "mqtt_packet (\<lambda>_. True) [144, 0]" unfolding mqtt_packet_def
    by (intro exI [of _ "[]"] exI, simp add: v)+
  show "mqtt_packet (\<lambda>_. True) [48, 1, 7]" unfolding mqtt_packet_def
    by (intro exI [of _ "[7]"] exI [of _ 48]) (simp add: v)
qed

text \<open>The states between the turns.\<close>

definition demo_connected :: "packet_reader \<Rightarrow> (bool \<times> bool, unit, (string \<times> bytes) list, u8) mqtt_session" where
  "demo_connected r =
     \<lparr>ms_client = (True, False), ms_reader = r, ms_ring = (), ms_data = [], ms_out = demo_out,
       ms_last_ack = 10, ms_last_ping = 0, ms_waiting_since = None, ms_connected = True, ms_next_topic = 0, ms_broker_max = None,
       ms_outbound_done = False, ms_sent = [SentConnect [16, 0]], ms_fed = [32, 0, 48], ms_received = [[32, 0]], ms_events = [EvAck]\<rparr>"

definition demo_subscribed :: "packet_reader \<Rightarrow> (bool \<times> bool, unit, (string \<times> bytes) list, u8) mqtt_session" where
  "demo_subscribed r =
     (demo_connected r)\<lparr>ms_client := (True, True), ms_next_topic := 1, ms_waiting_since := Some 20,
        ms_sent := [SentConnect [16, 0], SentSubscribe ''a'' [130, 0]]\<rparr>"

definition demo_received :: "packet_reader \<Rightarrow> (bool \<times> bool, unit, (string \<times> bytes) list, u8) mqtt_session" where
  "demo_received r =
     (demo_subscribed r)\<lparr>ms_data := [(''a'', [7])], ms_last_ack := 30, ms_fed := [32, 0, 48, 1, 7, 144],
        ms_received := [[32, 0], [48, 1, 7]], ms_events := [EvAck, EvPublish ''a'' [7]]\<rparr>"

definition demo_acknowledged :: "packet_reader \<Rightarrow> (bool \<times> bool, unit, (string \<times> bytes) list, u8) mqtt_session" where
  "demo_acknowledged r =
     (demo_received r)\<lparr>ms_client := (True, False), ms_waiting_since := None, ms_last_ack := 40, ms_fed := [32, 0, 48, 1, 7, 144, 0, 48],
        ms_received := [[32, 0], [48, 1, 7], [144, 0]], ms_events := [EvAck, EvPublish ''a'' [7], EvAck]\<rparr>"

lemmas demo_states = demo_acknowledged_def demo_received_def demo_subscribed_def demo_connected_def

lemma demo_start:
  "client_loop_connect demo_client demo_ring (from_keep_alive_secs 60) 0 () [] demo_out =
    (None, \<lparr>ms_client = (False, True), ms_reader = reader_new packet_buffer_size, ms_ring = (), ms_data = [], ms_out = demo_out,
       ms_last_ack = 0, ms_last_ping = 0, ms_waiting_since = Some 0, ms_connected = False, ms_next_topic = 0, ms_broker_max = None,
       ms_outbound_done = False, ms_sent = [SentConnect [16, 0]], ms_fed = [], ms_received = [], ms_events = []\<rparr>)"
  by (simp add: client_loop_connect_def client_loop_new_def ring_put_def put_sized_def commit_def fits_ring_def demo_client_def demo_ring_def)

lemma demo_turn_0:
  assumes "client_loop_connect demo_client demo_ring (from_keep_alive_secs 60) 0 () [] demo_out = (None, s)"
  obtains r where "demo_step 0 s = (None, demo_connected r)" "reader_ok packet_buffer_size r" "held r = [48]"
proof -
  note s = assms [unfolded demo_start prod.inject, THEN conjunct2, symmetric]
  have "\<exists>r. receive_chunk demo_client demo_ring demo_sink 10 [32, 0, 48] s =
      (None, s\<lparr>ms_client := (True, False), ms_reader := r, ms_last_ack := 10, ms_connected := True, ms_fed := [32, 0, 48],
         ms_received := [[32, 0]], ms_events := [EvAck]\<rparr>) \<and> reader_ok packet_buffer_size r \<and> held r = [48]"
    using demo_chunk [of s "[32, 0, 48]" "[32, 0]" 1 "[48, 1, 7]" demo_sink 10] demo_packets
    by (simp add: s demo_packet_defs reader_new_def held_def reader_ok_def)
  then show thesis using that by (auto simp: s demo_turn_defs out_run_def demo_connected_def)
qed

lemma demo_turn_1: "demo_step 1 (demo_connected r) = (None, demo_subscribed r)"
  by (simp add: demo_turn_defs demo_states subscribe_next_def ring_put_def put_sized_def commit_def fits_ring_def)

lemma demo_turn_2:
  assumes "reader_ok packet_buffer_size r" "held r = [48]"
  obtains r' where "demo_step 2 (demo_subscribed r) = (None, demo_received r')" "reader_ok packet_buffer_size r'" "held r' = [144]"
proof -
  let ?s = "demo_subscribed r"
  have "\<exists>r'. receive_chunk demo_client demo_ring demo_sink 30 [1, 7, 144] ?s = (None, demo_received r')
      \<and> reader_ok packet_buffer_size r' \<and> held r' = [144]"
    using demo_chunk [of ?s "[1, 7, 144]" "[48, 1, 7]" 1 "[144, 0]" demo_sink 30] demo_packets assms
    by (simp add: demo_packet_defs demo_states)
  then show thesis using that by (auto simp: demo_turn_defs out_run_def demo_states)
qed

lemma demo_turn_3:
  assumes "reader_ok packet_buffer_size r" "held r = [144]"
  obtains r' where "demo_step 3 (demo_received r) = (None, demo_acknowledged r')" "reader_ok packet_buffer_size r'" "held r' = [48]"
proof -
  let ?s = "demo_received r"
  have "\<exists>r'. receive_chunk demo_client demo_ring demo_sink 40 [0, 48] ?s = (None, (demo_acknowledged r')\<lparr>ms_waiting_since := Some 20\<rparr>)
      \<and> reader_ok packet_buffer_size r' \<and> held r' = [48]"
    using demo_chunk [of ?s "[0, 48]" "[144, 0]" 1 "[48, 1, 7]" demo_sink 40] demo_packets assms
    by (simp add: demo_packet_defs demo_states)
  then show thesis using that by (auto simp: demo_turn_defs out_run_def demo_states)
qed

lemma demo_turn_4:
  obtains out where "demo_step 4 (demo_acknowledged r) = (None, (demo_acknowledged r)\<lparr>ms_out := out,
      ms_sent := [SentConnect [16, 0], SentSubscribe ''a'' [130, 0], SentPublish 0 [48, 7, 5, 5]]\<rparr>)"
proof -
  let ?written = "out_run [Write 0 \<lparr>st_value = 5, st_metadata = 1\<rparr>] demo_out"
  let ?polled = "out_step (Poll_Stage []) ?written"
  have ready: "fst (poll_stage (os_routes ?written, \<lparr>wd_bufs = os_bufs ?written, wd_racing = []\<rparr>)) = PollReady (Some 0)" by code_simp
  have "case take_staged (os_routes ?polled) of (Some m, _) \<Rightarrow> om_topic m = [7, 5] \<and> as_slice (om_payload m) = [5] | _ \<Rightarrow> False" by code_simp
  then obtain m x where m: "take_staged (os_routes ?polled) = (Some m, x)" "om_topic m = [7, 5]" "as_slice (om_payload m) = [5]"
    by (auto split: prod.splits option.splits)
  show thesis
    by (rule that, use m ready in \<open>simp add: demo_turn_defs demo_states publish_staged_def put_sized_def commit_def fits_ring_def control_reserve_def
        Let_def del: out_step.simps\<close>)
qed

definition mqtt_demo_session :: "session_end option \<times> (bool \<times> bool, unit, (string \<times> bytes) list, u8) mqtt_session" where
  "mqtt_demo_session =
     client_loop demo_client demo_ring demo_sink (from_keep_alive_secs 60) [(''a'', Qos1)] []
       0 () [] demo_out demo_turns"

lemma demo_session_done:
  "\<exists>r out. mqtt_demo_session = (None, (demo_acknowledged r)\<lparr>ms_out := out,
      ms_sent := [SentConnect [16, 0], SentSubscribe ''a'' [130, 0], SentPublish 0 [48, 7, 5, 5]]\<rparr>)"
proof -
  obtain r1 where r1: "demo_step 0 (snd (client_loop_connect demo_client demo_ring (from_keep_alive_secs 60) 0 () [] demo_out)) = (None, demo_connected r1)"
    "reader_ok packet_buffer_size r1" "held r1 = [48]" using demo_turn_0 demo_start by (metis snd_conv)
  obtain r2 where r2: "demo_step 2 (demo_subscribed r1) = (None, demo_received r2)" "reader_ok packet_buffer_size r2" "held r2 = [144]"
    using demo_turn_2 [OF r1(2,3)] .
  obtain r3 where r3: "demo_step 3 (demo_received r2) = (None, demo_acknowledged r3)" using demo_turn_3 [OF r2(2,3)] by blast
  obtain out where r4: "demo_step 4 (demo_acknowledged r3) = (None, (demo_acknowledged r3)\<lparr>ms_out := out,
      ms_sent := [SentConnect [16, 0], SentSubscribe ''a'' [130, 0], SentPublish 0 [48, 7, 5, 5]]\<rparr>)" by (rule demo_turn_4)
  have all: "map ((!) demo_turns) [0, 1, 2, 3, 4] = demo_turns" by (simp add: demo_turns_def)
  have "session_turns demo_client demo_ring demo_sink (from_keep_alive_secs 60) [(''a'', Qos1)] [] (map ((!) demo_turns) [0, 1, 2, 3, 4])
      (client_loop_connect demo_client demo_ring (from_keep_alive_secs 60) 0 () [] demo_out) = (None, (demo_acknowledged r3)\<lparr>ms_out := out,
      ms_sent := [SentConnect [16, 0], SentSubscribe ''a'' [130, 0], SentPublish 0 [48, 7, 5, 5]]\<rparr>)"
    using r1(1) unfolding demo_start snd_conv
    by (simp only: list.map session_turns.simps demo_turn_1 r2(1) r3 r4)
  then show ?thesis unfolding mqtt_demo_session_def client_loop_def all by blast
qed

lemma demo_bounds:
  "decodes_vbi (mc_variable_u32 demo_client)" "\<forall>t \<in> set demo_turns. \<forall>c. tn_chunk t = Some c \<longrightarrow> length c \<le> rx_chunk"
  "\<forall>p \<in> set ([[32, 0], [48, 1, 7], [144, 0]] @ [[48, 1, 7]]). mqtt_packet (mc_valid_first demo_client) p \<and> length p \<le> max_inbound_packet"
  using demo_packets
  by (simp_all add: vbi_value_ok demo_client_def demo_turns_def demo_turn_def rx_chunk_def max_inbound_packet_def packet_buffer_size_def
      buffer_size_def)

theorem mqtt_request_order_witness:
  "\<exists>n pubs. requests (ms_sent (snd mqtt_demo_session)) = take n [ReqConnect, ReqSubscribe ''a''] @ map ReqPublish pubs
     \<and> (pubs = [] \<or> 1 < n)"
  using mqtt_request_order [of demo_client demo_ring demo_sink "from_keep_alive_secs 60" "[(''a'', Qos1)]" "[]" 0 "()" "[]" demo_out
      demo_turns "fst mqtt_demo_session" "snd mqtt_demo_session"]
  by (simp add: mqtt_demo_session_def)

theorem mqtt_session_delivers_witness:
  "ms_received (snd mqtt_demo_session) = [[32, 0], [48, 1, 7], [144, 0]] \<and> held (ms_reader (snd mqtt_demo_session)) = [48]
     \<and> length (ms_events (snd mqtt_demo_session)) = 3"
proof -
  obtain s where s: "mqtt_demo_session = (None, s)" "ms_fed s = concat [[32, 0], [48, 1, 7], [144, 0]] @ take 1 [48, 1, 7]"
    using demo_session_done by (auto simp: demo_states)
  show ?thesis unfolding s(1) snd_conv using mqtt_session_delivers [OF s(1) [unfolded mqtt_demo_session_def] demo_bounds s(2)] by simp
qed

theorem mqtt_deadlines_witness:
  "1 \<le> turn_sleep (from_keep_alive_secs 60) 60 (snd mqtt_demo_session)
     \<and> 60 + turn_sleep (from_keep_alive_secs 60) 60 (snd mqtt_demo_session) \<le> ms_last_ack (snd mqtt_demo_session) + 90000"
proof -
  let ?t = "demo_turn 60 None []"
  obtain r out where s: "mqtt_demo_session = (None, (demo_acknowledged r)\<lparr>ms_out := out,
      ms_sent := [SentConnect [16, 0], SentSubscribe ''a'' [130, 0], SentPublish 0 [48, 7, 5, 5]]\<rparr>)"
    using demo_session_done by blast
  let ?s = "snd mqtt_demo_session"
  have ping: "ping_due demo_client demo_ring (from_keep_alive_secs 60) (tn_now (?t\<lparr>tn_polls := []\<rparr>)) ?s = (None, ?s)"
    by (simp add: s ping_due_def demo_turn_def demo_states from_keep_alive_secs_def)
  have "\<exists>s'. session_turn demo_client demo_ring demo_sink (from_keep_alive_secs 60) [(''a'', Qos1)] [] (?t\<lparr>tn_polls := []\<rparr>) ?s = (None, s')"
    by (simp add: s demo_turn_defs demo_states)
  then obtain s' where turn: "session_turn demo_client demo_ring demo_sink (from_keep_alive_secs 60) [(''a'', Qos1)] []
      (?t\<lparr>tn_polls := []\<rparr>) ?s = (None, s')" by blast
  have run: "client_loop demo_client demo_ring demo_sink (from_keep_alive_secs 60) [(''a'', Qos1)] [] 0 () [] demo_out demo_turns = (None, ?s)"
    unfolding mqtt_demo_session_def [symmetric] unfolding s snd_conv ..
  from mqtt_deadlines [OF run turn ping] show ?thesis
    by (simp add: s demo_turn_def demo_states from_keep_alive_secs_def)
qed

end
