(* ===== verification/Persistence.thy ===== *)
theory Persistence
  imports Aimx_Dispatch "HOL-Library.List_Lexorder" "HOL-Library.Char_ord" "HOL-Library.Multiset"
begin

text \<open>
  The history of records: \<open>aimdb-persistence\<close> (the prefix of a pattern in \<open>pattern.rs\<close>, the subscriber of
  \<open>ext.rs\<close>, the query handler and the retention sweep of \<open>builder_ext.rs\<close>, the queries of
  \<open>query_ext.rs\<close>) over the SQLite backend (\<open>aimdb-persistence-sqlite/src/lib.rs\<close>), whose three SQL
  statements are translated.  Among rows that its \<open>ORDER BY\<close> leaves equal the newest comes first; only the order of values
  stored at one time, in what is read back, depends on it.  A stored time is a non-negative \<open>i64\<close>, kept as a \<open>u64\<close>.  JSON text and
  \<open>serde\<close>'s conversions are parameters; a failing disk is not modelled.
\<close>

subsection \<open>The prefix of a pattern\<close>

definition wild_segment :: "string \<Rightarrow> bool" where
  "wild_segment s \<longleftrightarrow> s = star \<or> s = hash"

definition literal_prefix :: "string \<Rightarrow> string" where
  "literal_prefix pattern =
     (let segs = split_on dot pattern; n = length (takeWhile (\<lambda>s. \<not> wild_segment s) segs) in
      if n = length segs then pattern
      else if n = 0 then []
      else take (sum_list (map (\<lambda>s. length s + 1) (take n segs))) pattern)"

definition next_byte :: "char \<Rightarrow> char" where
  "next_byte c = char_of (of_char c + 1 :: nat)"

fun bump_last :: "string \<Rightarrow> string option" where
  "bump_last [] = None"
| "bump_last (b # bs) = (if b < CHR 0xFF then Some (rev (next_byte b # bs)) else bump_last bs)"

text \<open>The bytes are popped off the end.\<close>

definition prefix_upper_bound :: "string \<Rightarrow> string option" where
  "prefix_upper_bound lead = bump_last (rev lead)"

definition scan_range :: "string \<Rightarrow> string option \<times> string option" where
  "scan_range pattern =
     (let lead = literal_prefix pattern in
      if lead = [] then (None, None) else (Some lead, prefix_upper_bound lead))"

subsection \<open>The table\<close>

record hist_row =
  hr_id :: nat
  hr_name :: string
  hr_text :: bytes
  hr_at :: u64

text \<open>Rows in the order of their insertion, and the next \<open>AUTOINCREMENT\<close> id.\<close>

record hist_table =
  hi_rows :: "hist_row list"
  hi_next :: nat

datatype persistence_error = NotConfigured | BackendShutdown | Backend string | Serialization

record hist_params =
  hp_limit :: "nat option"
  hp_start :: "u64 option"
  hp_end :: "u64 option"

record stored_value =
  sv_name :: string
  sv_value :: json
  sv_at :: u64

definition i64_fits :: "nat \<Rightarrow> bool" where
  "i64_fits n \<longleftrightarrow> n < 2 ^ 63"

definition history_store ::
  "json_text \<Rightarrow> string \<Rightarrow> json \<Rightarrow> u64 \<Rightarrow> hist_table \<Rightarrow> (persistence_error + unit) \<times> hist_table" where
  "history_store jt name v timestamp h =
     (case jt_print jt v of
        None \<Rightarrow> (Inl Serialization, h)
      | Some row_text \<Rightarrow>
          if \<not> i64_fits (unat timestamp) then (Inl (Backend ''timestamp overflows i64''), h)
          else (Inr (), h\<lparr>hi_rows := hi_rows h @ [\<lparr>hr_id = hi_next h, hr_name = name, hr_text = row_text, hr_at = timestamp\<rparr>],
                         hi_next := hi_next h + 1\<rparr>))"

definition history_cleanup :: "u64 \<Rightarrow> hist_table \<Rightarrow> (persistence_error + nat) \<times> hist_table" where
  "history_cleanup older_than h =
     (if \<not> i64_fits (unat older_than) then (Inl (Backend ''cleanup cutoff overflows i64''), h)
      else (Inr (length (filter (\<lambda>r. hr_at r < older_than) (hi_rows h))),
            h\<lparr>hi_rows := filter (\<lambda>r. \<not> hr_at r < older_than) (hi_rows h)\<rparr>))"

subsection \<open>Queries\<close>

text \<open>The \<open>WHERE\<close> of the inner select, its window, and the whole statement.\<close>

definition in_time :: "u64 option \<Rightarrow> u64 option \<Rightarrow> hist_row \<Rightarrow> bool" where
  "in_time start_time end_time r \<longleftrightarrow>
     (case start_time of None \<Rightarrow> True | Some t \<Rightarrow> t \<le> hr_at r) \<and> (case end_time of None \<Rightarrow> True | Some t \<Rightarrow> hr_at r \<le> t)"

definition in_scan :: "string option \<times> string option \<Rightarrow> string \<Rightarrow> bool" where
  "in_scan bounds name \<longleftrightarrow>
     (case fst bounds of None \<Rightarrow> True | Some lo \<Rightarrow> lo \<le> name) \<and> (case snd bounds of None \<Rightarrow> True | Some hi \<Rightarrow> name < hi)"

definition newer :: "hist_row \<Rightarrow> hist_row \<Rightarrow> bool" where
  "newer r r' \<longleftrightarrow> hr_at r' < hr_at r \<or> hr_at r' = hr_at r \<and> hr_id r' < hr_id r"

definition row_number :: "hist_row list \<Rightarrow> hist_row \<Rightarrow> nat" where
  "row_number rows r = 1 + length (filter (\<lambda>r'. hr_name r' = hr_name r \<and> newer r' r) rows)"

definition by_name_and_time :: "hist_row list \<Rightarrow> hist_row list" where
  "by_name_and_time rows = sort_key hr_name (rev (sort_key hr_at rows))"

definition select_rows :: "string option \<times> string option \<Rightarrow> hist_params \<Rightarrow> hist_row list \<Rightarrow> hist_row list" where
  "select_rows bounds p table =
     (let scanned = filter (\<lambda>r. in_scan bounds (hr_name r) \<and> in_time (hp_start p) (hp_end p) r) table
      in by_name_and_time
           (filter (\<lambda>r. case hp_limit p of None \<Rightarrow> True | Some n \<Rightarrow> row_number scanned r \<le> n) scanned))"

definition stored_of :: "json_text \<Rightarrow> hist_row \<Rightarrow> stored_value" where
  "stored_of jt r =
     \<lparr>sv_name = hr_name r, sv_value = (case jt_parse jt (hr_text r) of Some v \<Rightarrow> v | None \<Rightarrow> JNull), sv_at = hr_at r\<rparr>"

definition query_sync :: "json_text \<Rightarrow> string \<Rightarrow> hist_params \<Rightarrow> hist_table \<Rightarrow> persistence_error + stored_value list" where
  "query_sync jt pattern p h =
     (if \<not> pred_option i64_fits (hp_limit p) then Inl (Backend ''limit_per_record overflows i64'')
      else if \<not> pred_option (i64_fits \<circ> unat) (hp_start p) then Inl (Backend ''start_time overflows i64'')
      else if \<not> pred_option (i64_fits \<circ> unat) (hp_end p) then Inl (Backend ''end_time overflows i64'')
      else Inr (filter (\<lambda>sv. topic_matches pattern (sv_name sv))
             (map (stored_of jt) (select_rows (scan_range pattern) p (hi_rows h)))))"

text \<open>The queries of a database; without a backend there is no history.\<close>

definition query_raw ::
  "json_text \<Rightarrow> hist_table option \<Rightarrow> string \<Rightarrow> hist_params \<Rightarrow> persistence_error + stored_value list" where
  "query_raw jt backend pattern p =
     (case backend of None \<Rightarrow> Inl NotConfigured | Some h \<Rightarrow> query_sync jt pattern p h)"

definition query_latest ::
  "json_text \<Rightarrow> (json \<Rightarrow> 'v option) \<Rightarrow> hist_table option \<Rightarrow> string \<Rightarrow> nat \<Rightarrow> persistence_error + 'v list" where
  "query_latest jt from_value backend pattern limit =
     (case backend of
        None \<Rightarrow> Inl NotConfigured
      | Some h \<Rightarrow>
          (case query_sync jt pattern \<lparr>hp_limit = Some limit, hp_start = None, hp_end = None\<rparr> h of
             Inl e \<Rightarrow> Inl e
           | Inr stored \<Rightarrow> Inr (List.map_filter (\<lambda>sv. from_value (sv_value sv)) stored)))"

definition query_range ::
  "json_text \<Rightarrow> (json \<Rightarrow> 'v option) \<Rightarrow> hist_table option \<Rightarrow> string \<Rightarrow> u64 \<Rightarrow> u64 \<Rightarrow> nat option \<Rightarrow> persistence_error + 'v list" where
  "query_range jt from_value backend pattern start_ts end_ts limit =
     (case backend of
        None \<Rightarrow> Inl NotConfigured
      | Some h \<Rightarrow>
          (case query_sync jt pattern \<lparr>hp_limit = limit, hp_start = Some start_ts, hp_end = Some end_ts\<rparr> h of
             Inl e \<Rightarrow> Inl e
           | Inr stored \<Rightarrow> Inr (List.map_filter (\<lambda>sv. from_value (sv_value sv)) stored)))"

text \<open>What \<open>with_persistence\<close> registers for \<open>record.query\<close>.\<close>

definition query_handler :: "json_text \<Rightarrow> (persistence_error \<Rightarrow> string) \<Rightarrow> hist_table \<Rightarrow> query_params \<Rightarrow> string + query_record list" where
  "query_handler jt display h p =
     (case query_sync jt (qp_name p) \<lparr>hp_limit = Some (qp_limit p), hp_start = qp_start p, hp_end = qp_end p\<rparr> h of
        Inl e \<Rightarrow> Inl (display e)
      | Inr stored \<Rightarrow>
          Inr (sort_key qr_ts (map (\<lambda>sv. \<lparr>qr_topic = sv_name sv, qr_payload = sv_value sv, qr_ts = sv_at sv\<rparr>) stored)))"

subsection \<open>Writing and forgetting\<close>

text \<open>The subscriber: what each \<open>recv\<close> gives, and the clock at the time of the store.\<close>

fun persist_loop ::
  "json_text \<Rightarrow> ('v \<Rightarrow> json option) \<Rightarrow> string \<Rightarrow> ((db_error + 'v) \<times> u64) list \<Rightarrow> hist_table \<Rightarrow> hist_table" where
  "persist_loop jt to_value name [] h = h"
| "persist_loop jt to_value name ((r, now) # rs) h =
     (case r of
        Inl (DbBufferLagged _) \<Rightarrow> persist_loop jt to_value name rs h
      | Inl _ \<Rightarrow> h
      | Inr v \<Rightarrow>
          (case to_value v of
             None \<Rightarrow> persist_loop jt to_value name rs h
           | Some j \<Rightarrow> persist_loop jt to_value name rs (snd (history_store jt name j now h))))"

definition retention_sweep :: "u64 \<Rightarrow> u64 \<Rightarrow> hist_table \<Rightarrow> hist_table" where
  "retention_sweep retention now h = snd (history_cleanup (sat_sub now retention) h)"

subsection \<open>The range is the prefix\<close>

lemma char_255: "c \<le> CHR 0xFF" for c :: char
  using nat_of_char_less_256 [of c] by (simp add: less_eq_char_def del: nat_of_char_less_256)

lemma less_next_byte:
  assumes "b < CHR 0xFF"
  shows "k < next_byte b \<longleftrightarrow> k \<le> b"
proof -
  have "of_char b + 1 < (256 :: nat)" using assms by (simp add: less_char_def)
  then have "of_char (next_byte b) = (of_char b + 1 :: nat)" by (simp add: next_byte_def)
  then show ?thesis by (simp add: less_char_def less_eq_char_def less_Suc_eq_le)
qed

lemma bump_last_append:
  "bump_last (bs @ [c]) =
     (case bump_last bs of Some u \<Rightarrow> Some (c # u) | None \<Rightarrow> if c < CHR 0xFF then Some [next_byte c] else None)"
  by (induction bs) auto

lemma prefix_range: "in_scan (Some lead, prefix_upper_bound lead) name \<longleftrightarrow> starts_with lead name"
proof (induction lead arbitrary: name)
  case Nil
  then show ?case by (simp add: in_scan_def prefix_upper_bound_def starts_with_def)
next
  case (Cons c p)
  show ?case
  proof (cases name)
    case Nil
    then show ?thesis by (simp add: in_scan_def starts_with_def)
  next
    case (Cons k ks)
    have top: "\<not> c < CHR 0xFF \<Longrightarrow> c < k \<Longrightarrow> False" using char_255 [of k] char_255 [of c] by auto
    show ?thesis
      using Cons.IH [of ks] less_next_byte [of c k] top
      by (auto simp: Cons in_scan_def starts_with_def prefix_upper_bound_def bump_last_append split: option.splits)
  qed
qed

lemma join_with_append:
  "ys \<noteq> [] \<Longrightarrow> join_with [c] (xs @ ys) = concat (map (\<lambda>x. x @ [c]) xs) @ join_with [c] ys"
  by (induction xs) (simp_all add: join_with_Cons)

lemma join_with_closed: "xs \<noteq> [] \<Longrightarrow> join_with [c] xs @ [c] = concat (map (\<lambda>x. x @ [c]) xs)"
proof (induction xs)
  case (Cons x xs)
  then show ?case by (cases "xs = []") (simp_all add: join_with_Cons)
qed simp

lemma literal_prefix_segments:
  fixes pattern :: string
  defines "lits \<equiv> takeWhile (\<lambda>s. \<not> wild_segment s) (split_on dot pattern)"
  shows "lits = split_on dot pattern \<Longrightarrow> literal_prefix pattern = pattern"
    and "lits \<noteq> split_on dot pattern \<Longrightarrow> literal_prefix pattern = concat (map (\<lambda>s. s @ [dot]) lits)"
proof -
  show "lits = split_on dot pattern \<Longrightarrow> literal_prefix pattern = pattern"
    unfolding literal_prefix_def lits_def Let_def by (simp only: simp_thms if_True)
  assume some: "lits \<noteq> split_on dot pattern"
  obtain rest where rest: "split_on dot pattern = lits @ rest"
    unfolding lits_def by (metis takeWhile_dropWhile_id)
  have "rest \<noteq> []" using some rest by auto
  then have "pattern = concat (map (\<lambda>s. s @ [dot]) lits) @ join_with [dot] rest"
    using join_split_on [of dot pattern] by (simp add: rest join_with_append)
  moreover have "length (concat (map (\<lambda>s. s @ [dot]) lits)) = sum_list (map (\<lambda>s. length s + 1) lits)"
    by (simp add: length_concat comp_def)
  ultimately have "take (sum_list (map (\<lambda>s. length s + 1) lits)) pattern = concat (map (\<lambda>s. s @ [dot]) lits)"
    by (metis append_eq_conv_conj)
  moreover have "length lits \<noteq> length (split_on dot pattern)" using rest \<open>rest \<noteq> []\<close> by simp
  moreover have "take (length lits) (split_on dot pattern) = lits" by (simp add: rest)
  ultimately show "literal_prefix pattern = concat (map (\<lambda>s. s @ [dot]) lits)"
    unfolding literal_prefix_def Let_def lits_def [symmetric] by (simp only: if_False if_cancel length_0_conv) auto
qed

lemma seg_match_fixed:
  assumes "seg_match topic_covers (lits @ rest) ks" and "\<forall>l \<in> set lits. \<not> wild_segment l"
  shows "\<exists>ks'. ks = lits @ ks' \<and> seg_match topic_covers rest ks'"
  using assms
  by (induction lits arbitrary: ks) (auto simp: wild_segment_def topic_covers_def)

text \<open>The range holds every key the pattern matches, but for the one that is the literal part itself.\<close>

lemma matched_in_range:
  assumes "topic_matches pattern key"
  shows "in_scan (scan_range pattern) key \<longleftrightarrow> key @ [dot] \<noteq> literal_prefix pattern"
proof -
  let ?segs = "split_on dot pattern"
  let ?lits = "takeWhile (\<lambda>s. \<not> wild_segment s) ?segs"
  have range: "in_scan (scan_range pattern) key \<longleftrightarrow> starts_with (literal_prefix pattern) key"
    using prefix_range by (simp add: scan_range_def Let_def in_scan_def starts_with_def)
  obtain rest where rest: "?segs = ?lits @ rest" by (metis takeWhile_dropWhile_id)
  have "seg_match topic_covers (?lits @ rest) (split_on dot key)"
    using assms unfolding topic_matches_exact rest [symmetric] .
  moreover have "\<forall>l \<in> set ?lits. \<not> wild_segment l" by (auto dest: set_takeWhileD)
  ultimately obtain ks where ks: "split_on dot key = ?lits @ ks" "seg_match topic_covers rest ks"
    using seg_match_fixed by blast
  show ?thesis
  proof (cases "rest = []")
    case True
    then have key: "key = pattern" using ks rest split_on_inject by (metis append_Nil2 seg_match_Nil_iff)
    have "literal_prefix pattern = pattern"
      by (rule literal_prefix_segments(1)) (use rest True in \<open>simp only: append_Nil2\<close>)
    then show ?thesis using range key by (simp add: starts_with_def)
  next
    case False
    then have lead: "literal_prefix pattern = concat (map (\<lambda>s. s @ [dot]) ?lits)"
      using literal_prefix_segments(2) [of pattern] rest by (metis append_self_conv)
    have key: "key = join_with [dot] (?lits @ ks)" using join_split_on [of dot key] ks(1) by simp
    show ?thesis
    proof (cases "ks = []")
      case True
      then have "?lits \<noteq> []" using ks(1) split_on_ne by (metis append_Nil2)
      then have eq: "key @ [dot] = literal_prefix pattern" using key True lead join_with_closed by simp
      then have "length key < length (literal_prefix pattern)" by (metis length_append_singleton lessI)
      then have "\<not> starts_with (literal_prefix pattern) key" by (auto simp: starts_with_def)
      then show ?thesis using range eq by simp
    next
      case nonempty: False
      then have "key = literal_prefix pattern @ join_with [dot] ks" using key lead join_with_append by simp
      moreover from this have "key @ [dot] \<noteq> literal_prefix pattern"
        by (metis append_assoc append_is_Nil_conv append_self_conv not_Cons_self2)
      ultimately show ?thesis using range by (simp add: starts_with_def)
    qed
  qed
qed

subsection \<open>What a query returns\<close>

lemma insort_key_sorted_wrt:
  assumes "sorted_wrt (\<lambda>a b. f a < f b \<or> f a = f b \<and> Q a b) ys" and "\<forall>y \<in> set ys. Q x y"
  shows "sorted_wrt (\<lambda>a b. f a < f b \<or> f a = f b \<and> Q a b) (insort_key f x ys)"
  using assms
proof (induction ys)
  case (Cons y ys)
  show ?case
  proof (cases "f x \<le> f y")
    case True
    then show ?thesis using Cons.prems by (auto simp: less_le)
  next
    case False
    then show ?thesis using Cons by (auto simp: set_insort_key)
  qed
qed simp

text \<open>Sorting by one key keeps the order the list has within each.\<close>

lemma sort_key_sorted_wrt: "sorted_wrt Q xs \<Longrightarrow> sorted_wrt (\<lambda>a b. f a < f b \<or> f a = f b \<and> Q a b) (sort_key f xs)"
  by (induction xs) (simp_all add: insort_key_sorted_wrt)

lemma by_name_and_time_sorted:
  "sorted_wrt (\<lambda>a b. hr_name a < hr_name b \<or> hr_name a = hr_name b \<and> hr_at b \<le> hr_at a) (by_name_and_time rows)"
proof -
  have "sorted_wrt (\<lambda>a b. hr_at a \<le> hr_at b) (sort_key hr_at rows)"
    using sorted_sort_key [of hr_at rows] by (simp add: sorted_wrt_map)
  then show ?thesis
    unfolding by_name_and_time_def by (intro sort_key_sorted_wrt) (simp add: sorted_wrt_rev)
qed

lemma mset_by_name_and_time [simp]: "mset (by_name_and_time rows) = mset rows"
  by (simp add: by_name_and_time_def)

text \<open>How many of its record's rows in the time asked for are newer than a row.\<close>

definition newer_rows :: "hist_params \<Rightarrow> hist_row list \<Rightarrow> hist_row \<Rightarrow> nat" where
  "newer_rows p rows r = length (filter (\<lambda>r'. hr_name r' = hr_name r \<and> in_time (hp_start p) (hp_end p) r' \<and> newer r' r) rows)"

definition wanted :: "string \<Rightarrow> hist_params \<Rightarrow> hist_row list \<Rightarrow> hist_row \<Rightarrow> bool" where
  "wanted pattern p rows r \<longleftrightarrow>
     topic_matches pattern (hr_name r) \<and> in_time (hp_start p) (hp_end p) r
     \<and> (case hp_limit p of None \<Rightarrow> True | Some n \<Rightarrow> newer_rows p rows r < n)"

definition params_fit :: "hist_params \<Rightarrow> bool" where
  "params_fit p \<longleftrightarrow> pred_option i64_fits (hp_limit p) \<and> pred_option (i64_fits \<circ> unat) (hp_start p)
     \<and> pred_option (i64_fits \<circ> unat) (hp_end p)"

lemma row_number_scanned:
  "in_scan bounds (hr_name r) \<Longrightarrow>
     row_number (filter (\<lambda>r. in_scan bounds (hr_name r) \<and> in_time (hp_start p) (hp_end p) r) rows) r = Suc (newer_rows p rows r)"
  by (auto simp: row_number_def newer_rows_def intro!: arg_cong [of _ _ length] filter_cong)

lemma selected_wanted:
  "filter_mset (\<lambda>r. topic_matches pattern (hr_name r)) (mset (select_rows (scan_range pattern) p rows))
   = mset (filter (\<lambda>r. wanted pattern p rows r \<and> hr_name r @ [dot] \<noteq> literal_prefix pattern) rows)"
proof -
  let ?scan = "\<lambda>r. in_scan (scan_range pattern) (hr_name r) \<and> in_time (hp_start p) (hp_end p) r"
  have "topic_matches pattern (hr_name r)
      \<and> (case hp_limit p of None \<Rightarrow> True | Some n \<Rightarrow> row_number (filter ?scan rows) r \<le> n) \<and> ?scan r
    \<longleftrightarrow> wanted pattern p rows r \<and> hr_name r @ [dot] \<noteq> literal_prefix pattern" for r
    using matched_in_range [of pattern "hr_name r"] row_number_scanned [of "scan_range pattern" r p rows]
    by (auto simp: wanted_def split: option.splits)
  then show ?thesis
    by (simp add: select_rows_def Let_def filter_filter_mset conj_ac flip: mset_filter cong: filter_cong)
qed

lemma query_sync_rows:
  assumes "params_fit p"
  shows "\<exists>out. query_sync jt pattern p h = Inr out
    \<and> mset out = mset (map (stored_of jt) (filter (\<lambda>r. wanted pattern p (hi_rows h) r \<and> hr_name r @ ''.'' \<noteq> literal_prefix pattern) (hi_rows h)))
    \<and> sorted_wrt (\<lambda>a b. sv_name a < sv_name b \<or> sv_name a = sv_name b \<and> sv_at b \<le> sv_at a) out"
proof -
  let ?rows = "select_rows (scan_range pattern) p (hi_rows h)"
  let ?out = "filter (\<lambda>sv. topic_matches pattern (sv_name sv)) (map (stored_of jt) ?rows)"
  have out: "?out = map (stored_of jt) (filter (\<lambda>r. topic_matches pattern (hr_name r)) ?rows)"
    by (simp add: filter_map comp_def stored_of_def)
  have "sorted_wrt (\<lambda>a b. hr_name a < hr_name b \<or> hr_name a = hr_name b \<and> hr_at b \<le> hr_at a) ?rows"
    by (simp add: select_rows_def Let_def by_name_and_time_sorted)
  then have "sorted_wrt (\<lambda>a b. sv_name a < sv_name b \<or> sv_name a = sv_name b \<and> sv_at b \<le> sv_at a) ?out"
    unfolding out by (simp add: sorted_wrt_map stored_of_def sorted_wrt_filter)
  moreover have "mset ?out = mset (map (stored_of jt)
      (filter (\<lambda>r. wanted pattern p (hi_rows h) r \<and> hr_name r @ ''.'' \<noteq> literal_prefix pattern) (hi_rows h)))"
    unfolding out mset_map mset_filter selected_wanted [unfolded mset_filter] ..
  ultimately show ?thesis using assms by (simp add: query_sync_def params_fit_def)
qed

text \<open>
  C22. A query of the history fails exactly when a bound does not fit the database, and otherwise
  returns the newest rows of each record the pattern matches, up to the limit, in the time
  asked for, ordered by record and newest first; but of the record that is the literal part of the pattern
  before its first wildcard, which a trailing \<open>#\<close> matches, it returns none.
\<close>

theorem history_query_exact:
  "case query_sync jt pattern p h of
     Inl e \<Rightarrow> \<not> params_fit p
   | Inr out \<Rightarrow> params_fit p
       \<and> mset out = mset (map (stored_of jt) (filter (\<lambda>r. wanted pattern p (hi_rows h) r \<and> hr_name r @ ''.'' \<noteq> literal_prefix pattern) (hi_rows h)))
       \<and> sorted_wrt (\<lambda>a b. sv_name a < sv_name b \<or> sv_name a = sv_name b \<and> sv_at b \<le> sv_at a) out"
proof (cases "params_fit p")
  case False
  then show ?thesis by (auto simp: query_sync_def params_fit_def)
next
  case True
  then show ?thesis using query_sync_rows [of p jt pattern h] by auto
qed

text \<open>
  C40. Retention is invisible to queries of what is retained: a sweep removes exactly the rows older than its cutoff, and
  a query that starts at the cutoff or later answers the same before and after it.
\<close>

theorem retention_transparent:
  assumes "history_cleanup cutoff h = (Inr n, h')" and "hp_start p = Some t" and "cutoff \<le> t"
  shows "query_sync jt pattern p h' = query_sync jt pattern p h
    \<and> hi_rows h' = filter (\<lambda>r. cutoff \<le> hr_at r) (hi_rows h) \<and> n = length (hi_rows h) - length (hi_rows h')"
proof -
  have h': "hi_rows h' = filter (\<lambda>r. cutoff \<le> hr_at r) (hi_rows h)"
    and n: "n = length (filter (\<lambda>r. hr_at r < cutoff) (hi_rows h))"
    using assms(1) by (auto simp: history_cleanup_def not_less split: if_splits)
  have "filter (\<lambda>r. in_scan bounds (hr_name r) \<and> in_time (hp_start p) (hp_end p) r) (hi_rows h')
      = filter (\<lambda>r. in_scan bounds (hr_name r) \<and> in_time (hp_start p) (hp_end p) r) (hi_rows h)" for bounds
    unfolding h' using assms(2,3) by (auto simp: in_time_def intro!: filter_cong)
  then have "select_rows bounds p (hi_rows h') = select_rows bounds p (hi_rows h)" for bounds
    by (simp add: select_rows_def)
  moreover have "n = length (hi_rows h) - length (hi_rows h')"
    using sum_length_filter_compl [of "\<lambda>r. hr_at r < cutoff" "hi_rows h"] by (simp add: n h' not_less)
  ultimately show ?thesis using h' by (simp add: query_sync_def)
qed

subsection \<open>What was persisted is read back\<close>

text \<open>In a list that grows newer, the rows with fewer than \<open>n\<close> newer ones are the last \<open>n\<close>.\<close>

lemma newest_are_last:
  assumes "sorted_wrt (\<lambda>a b. newer b a) xs"
  shows "filter (\<lambda>r. length (filter (\<lambda>r'. newer r' r) xs) < n) xs = drop (length xs - n) xs"
  using assms
proof (induction xs)
  case (Cons x xs)
  have "filter (\<lambda>r'. newer r' r) (x # xs) = filter (\<lambda>r'. newer r' r) xs" if "r \<in> set xs" for r
    using Cons.prems that by (auto simp: newer_def)
  then have "filter (\<lambda>r. length (filter (\<lambda>r'. newer r' r) (x # xs)) < n) xs = drop (length xs - n) xs"
    using Cons by (metis (mono_tags, lifting) filter_cong sorted_wrt.simps(2))
  moreover have "filter (\<lambda>r'. newer r' x) (x # xs) = xs"
    using Cons.prems by (auto simp: newer_def filter_id_conv)
  moreover have "drop (length (x # xs) - n) (x # xs) = (if length xs < n then x # xs else drop (length xs - n) xs)"
    by (simp add: Suc_diff_le not_less)
  ultimately show ?case by simp
qed simp

definition row_of :: "json_text \<Rightarrow> ('v \<Rightarrow> json option) \<Rightarrow> string \<Rightarrow> nat \<Rightarrow> 'v \<times> u64 \<Rightarrow> hist_row" where
  "row_of jt to_value name i x =
     \<lparr>hr_id = i, hr_name = name, hr_text = the (jt_print jt (the (to_value (fst x)))), hr_at = snd x\<rparr>"

text \<open>The values a subscriber receives, each with the time of its store.\<close>

definition subscriber_values :: "((db_error + 'v) \<times> u64) list \<Rightarrow> ('v \<times> u64) list" where
  "subscriber_values rs = List.map_filter (\<lambda>(r, now). case r of Inr v \<Rightarrow> Some (v, now) | Inl _ \<Rightarrow> None) rs"

definition codes :: "json_text \<Rightarrow> ('v \<Rightarrow> json option) \<Rightarrow> (json \<Rightarrow> 'v option) \<Rightarrow> 'v \<Rightarrow> bool" where
  "codes jt to_value from_value v \<longleftrightarrow>
     (\<exists>j row_text. to_value v = Some j \<and> jt_print jt j = Some row_text \<and> jt_parse jt row_text = Some j \<and> from_value j = Some v)"

lemma persist_loop_rows:
  assumes "\<forall>x \<in> set rs. case fst x of Inr v \<Rightarrow> codes jt to_value from_value v \<and> unat (snd x) < 2 ^ 63
      | Inl e \<Rightarrow> (\<exists>k. e = DbBufferLagged k)"
  shows "hi_rows (persist_loop jt to_value name rs h)
    = hi_rows h @ map (\<lambda>(i, x). row_of jt to_value name (hi_next h + i) x) (enumerate 0 (subscriber_values rs))"
  using assms
proof (induction rs arbitrary: h)
  case (Cons y rs)
  obtain x now where y: "y = (x, now)" by (cases y)
  show ?case
  proof (cases x)
    case (Inl e)
    then obtain k where "e = DbBufferLagged k" using Cons.prems y by auto
    then show ?thesis using Cons y Inl by (simp add: subscriber_values_def List.map_filter_def)
  next
    case (Inr v)
    obtain j row_text where v: "to_value v = Some j" "jt_print jt j = Some row_text" "unat now < 2 ^ 63"
      using Cons.prems y Inr by (auto simp: codes_def)
    let ?h = "snd (history_store jt name j now h)"
    have h: "hi_rows ?h = hi_rows h @ [row_of jt to_value name (hi_next h) (v, now)]" "hi_next ?h = hi_next h + 1"
      using v by (simp_all add: history_store_def i64_fits_def row_of_def)
    have "map (\<lambda>(i, x). row_of jt to_value name (Suc (hi_next h) + i) x) (enumerate 0 (subscriber_values rs))
        = map (\<lambda>(i, x). row_of jt to_value name (hi_next h + i) x) (enumerate 1 (subscriber_values rs))"
      by (simp add: enumerate_eq_zip map_zip_map [symmetric] map_Suc_upt [symmetric] zip_map1 comp_def case_prod_beta
          del: upt_Suc map_Suc_upt)
    moreover have "subscriber_values (y # rs) = (v, now) # subscriber_values rs" by (simp add: subscriber_values_def List.map_filter_def y Inr)
    moreover have "persist_loop jt to_value name (y # rs) h = persist_loop jt to_value name rs ?h" by (simp add: y Inr v)
    ultimately show ?thesis using Cons.IH [of ?h] Cons.prems h by simp
  qed
qed (simp add: subscriber_values_def List.map_filter_def)

lemma literal_matches:
  assumes "\<forall>s \<in> set (split_on dot name). \<not> wild_segment s"
  shows "topic_matches name key \<longleftrightarrow> key = name" and "literal_prefix name = name"
proof -
  have "key = name" if "topic_matches name key"
  proof -
    have "seg_match topic_covers (split_on dot name @ []) (split_on dot key)" using that by (simp add: topic_matches_exact)
    then show ?thesis using seg_match_fixed assms split_on_inject by fastforce
  qed
  moreover have "topic_matches name name" by (simp add: topic_matches_def)
  ultimately show "topic_matches name key \<longleftrightarrow> key = name" by blast
  have "takeWhile (\<lambda>s. \<not> wild_segment s) (split_on dot name) = split_on dot name" using assms by (simp add: takeWhile_eq_all_conv)
  then show "literal_prefix name = name" by (rule literal_prefix_segments(1))
qed

text \<open>
  Ids grow with the rows: true of an empty table, and every operation keeps it.  Of one record the newest rows then are
  the last of its rows in the order of their times.
\<close>

definition ids_grow :: "hist_table \<Rightarrow> bool" where
  "ids_grow h \<longleftrightarrow> sorted_wrt (\<lambda>a b. hr_id a < hr_id b) (hi_rows h) \<and> (\<forall>r \<in> set (hi_rows h). hr_id r < hi_next h)"

lemma store_ids_grow: "ids_grow h \<Longrightarrow> ids_grow (snd (history_store jt name v now h))"
  by (fastforce simp: ids_grow_def history_store_def sorted_wrt_append split: option.splits)

lemma cleanup_ids_grow: "ids_grow h \<Longrightarrow> ids_grow (snd (history_cleanup cutoff h))"
  by (auto simp: ids_grow_def history_cleanup_def sorted_wrt_filter)

lemma persist_ids_grow: "ids_grow h \<Longrightarrow> ids_grow (persist_loop jt to_value name rs h)"
  by (induction jt to_value name rs h rule: persist_loop.induct)
    (auto simp: store_ids_grow split: sum.splits db_error.splits option.splits)

lemma sort_key_append:
  assumes "sorted (map f ys)" and "\<forall>x \<in> set xs. \<forall>y \<in> set ys. f x \<le> f y"
  shows "sort_key f (xs @ ys) = sort_key f xs @ ys"
proof -
  have ins: "insort_key f x (zs @ ys) = insort_key f x zs @ ys" if "\<forall>y \<in> set ys. f x \<le> f y" for x zs
    using that by (induction zs) (cases ys; simp)+
  show ?thesis using assms by (induction xs) (simp_all add: sort_key_id_if_sorted ins)
qed

definition rows_in_time :: "string \<Rightarrow> hist_table \<Rightarrow> hist_row list" where
  "rows_in_time name h = sort_key hr_at (filter (\<lambda>r. hr_name r = name) (hi_rows h))"

lemma rows_in_time_newer:
  assumes "ids_grow h"
  shows "sorted_wrt (\<lambda>a b. newer b a) (rows_in_time name h)"
proof -
  have "sorted_wrt (\<lambda>a b. hr_id a < hr_id b) (filter (\<lambda>r. hr_name r = name) (hi_rows h))"
    using assms by (simp add: ids_grow_def sorted_wrt_filter)
  from sort_key_sorted_wrt [OF this, of hr_at] show ?thesis
    unfolding rows_in_time_def by (rule sorted_wrt_mono_rel [rotated]) (auto simp: newer_def)
qed

lemma latest_rows:
  assumes "ids_grow h" and "\<forall>s \<in> set (split_on dot name). \<not> wild_segment s" and "n < 2 ^ 63"
  shows "query_sync jt name \<lparr>hp_limit = Some n, hp_start = None, hp_end = None\<rparr> h
    = Inr (map (stored_of jt) (take n (rev (rows_in_time name h))))"
proof -
  let ?p = "\<lparr>hp_limit = Some n, hp_start = None, hp_end = None\<rparr>" and ?R = "filter (\<lambda>r. hr_name r = name) (hi_rows h)"
  let ?scan = "\<lambda>r. in_scan (scan_range name) (hr_name r) \<and> in_time (hp_start ?p) (hp_end ?p) r"
  have in_range: "in_scan (scan_range name) name"
    using matched_in_range [of name name] literal_matches [OF assms(2)] by simp
  have newer: "row_number (filter ?scan (hi_rows h)) r = Suc (length (filter (\<lambda>r'. newer r' r) ?R))" if "hr_name r = name" for r
    using row_number_scanned [of "scan_range name" r ?p "hi_rows h"] in_range that
    by (simp add: newer_rows_def in_time_def)
  have "filter (\<lambda>r. topic_matches name (hr_name r)) (select_rows (scan_range name) ?p (hi_rows h))
      = sort_key hr_name (rev (sort_key hr_at (filter (\<lambda>r. topic_matches name (hr_name r))
          (filter (\<lambda>r. row_number (filter ?scan (hi_rows h)) r \<le> n) (filter ?scan (hi_rows h))))))"
    by (simp add: select_rows_def by_name_and_time_def filter_sort Let_def flip: rev_filter)
  also have "filter (\<lambda>r. topic_matches name (hr_name r))
          (filter (\<lambda>r. row_number (filter ?scan (hi_rows h)) r \<le> n) (filter ?scan (hi_rows h)))
      = filter (\<lambda>r. length (filter (\<lambda>r'. newer r' r) ?R) < n) ?R"
    using newer in_range by (auto simp: literal_matches [OF assms(2)] in_time_def intro!: filter_cong)
  also have "sort_key hr_at (filter (\<lambda>r. length (filter (\<lambda>r'. newer r' r) ?R) < n) ?R)
      = filter (\<lambda>r. length (filter (\<lambda>r'. newer r' r) (rows_in_time name h)) < n) (rows_in_time name h)"
    unfolding rows_in_time_def filter_sort length_sort ..
  also have "\<dots> = drop (length (rows_in_time name h) - n) (rows_in_time name h)"
    by (rule newest_are_last [OF rows_in_time_newer [OF assms(1)]])
  also have "rev \<dots> = take n (rev (rows_in_time name h))" by (simp add: take_rev)
  also have "sort_key hr_name (take n (rev (rows_in_time name h))) = take n (rev (rows_in_time name h))"
  proof (rule sort_key_id_if_sorted)
    have "map hr_name (take n (rev (rows_in_time name h))) = map (\<lambda>_. name) (take n (rev (rows_in_time name h)))"
      by (auto simp: rows_in_time_def dest!: in_set_takeD)
    then show "sorted (map hr_name (take n (rev (rows_in_time name h))))" by (simp add: map_replicate_const)
  qed
  finally show ?thesis using assms(3) by (simp add: query_sync_def i64_fits_def filter_map comp_def stored_of_def)
qed

lemma map_filter_append: "List.map_filter f (xs @ ys) = List.map_filter f xs @ List.map_filter f ys"
  by (simp add: List.map_filter_def)

lemma read_back:
  assumes "\<forall>(i, x) \<in> set ixs. codes jt to_value from_value (fst x)"
  shows "List.map_filter (\<lambda>sv. from_value (sv_value sv)) (map (stored_of jt) (map (\<lambda>(i, x). row_of jt to_value name (k + i) x) ixs))
    = map (fst \<circ> snd) ixs"
  using assms by (induction ixs) (auto simp: List.map_filter_def codes_def stored_of_def row_of_def)


subsection \<open>Witnesses\<close>

definition demo_text :: json_text where
  "demo_text = \<lparr>jt_parse = (\<lambda>bs. case bs of [b] \<Rightarrow> Some (JNumber (PosInt (ucast b))) | _ \<Rightarrow> None),
     jt_print = (\<lambda>v. case v of JNumber (PosInt n) \<Rightarrow> Some [ucast n] | _ \<Rightarrow> None)\<rparr>"

definition demo_history :: hist_table where
  "demo_history = \<lparr>hi_rows = [\<lparr>hr_id = 1, hr_name = ''a'', hr_text = [1], hr_at = 10\<rparr>, \<lparr>hr_id = 2, hr_name = ''a.b'', hr_text = [2], hr_at = 20\<rparr>],
     hi_next = 3\<rparr>"

theorem retention_transparent_witness:
  "query_sync demo_text ''a.#'' \<lparr>hp_limit = None, hp_start = Some 15, hp_end = None\<rparr> (snd (history_cleanup 15 demo_history))
     = query_sync demo_text ''a.#'' \<lparr>hp_limit = None, hp_start = Some 15, hp_end = None\<rparr> demo_history"
proof -
  have "history_cleanup 15 demo_history = (Inr 1, snd (history_cleanup 15 demo_history))"
    by (simp add: history_cleanup_def i64_fits_def demo_history_def)
  from retention_transparent [OF this, where t = 15] show ?thesis by simp
qed

definition demo_recvs :: "((db_error + u8) \<times> u64) list" where
  "demo_recvs = [(Inr 5, 30), (Inl (DbBufferLagged 2), 31), (Inr 6, 40), (Inr 7, 40)]"


end
