(* ===== verification/Spec2Isabelle.thy ===== *)
theory Spec2Isabelle
  imports Topic_Match Dependency_Graph Tcp_Framing Serial_Framing Router Wasm_Buffer Session_Accounting Cdr
    Knx_Tunnel Outbound_Routes Db_Links Aimx_Records Zenoh_Ros2 Mqtt_Session Persistence
begin

text \<open>
  A verification development for AimDB, a Rust in-memory database whose typed records are wired to
  sources, transforms and connectors.

  \<^bold>\<open>The program and how its parts interact.\<close>  A record keeps its values in a buffer (a ring with a
  cursor per reader, a latest value, or a mailbox).  The builder checks the configuration, orders the
  records by their dependencies and collects the futures of their services.  Connectors carry values out (\<open>outbound/\<close>: a transport task pulls serialized
  messages from the routes whose readers woke) and in (\<open>router\<close>: an incoming topic is matched
  against patterns and handed to each route).  Remote access runs over sessions: a framed connection,
  a client engine that issues calls and subscriptions and redials, and a server engine that answers
  calls and pumps subscription events through one bounded funnel per connection.  The KNX connector
  drives a tunnelling protocol without I/O of its own, and CDR is the wire format of ROS 2.

  \<^bold>\<open>Theories.\<close>
  \<^item> \<open>Prelude\<close>: machine types, saturating arithmetic, splitting and searching of strings, byte order.
  \<^item> \<open>Topic_Match\<close> (\<open>aimdb-core/src/session/topic_match.rs\<close>), \<open>Topic_Pattern\<close> (\<open>topic_pattern.rs\<close>,
    with the locale \<open>topic_grammar\<close> every connector's grammar must satisfy), \<open>Mqtt_Grammar\<close>
    (\<open>aimdb-mqtt-connector/src/grammar.rs\<close>, an interpretation), \<open>Key_Table\<close> (\<open>inbound_key.rs\<close>),
    \<open>Router\<close> (\<open>router.rs\<close>, \<open>inbound_dispatch.rs\<close>): matching is decided against a relation between
    segments and patterns; covering is sound (and complete for MQTT); the broker subscriptions kept
    after dropping redundant ones lose no message; a message reaches exactly the routes that match.
  \<^item> \<open>Dependency_Graph\<close> (\<open>graph.rs\<close>): the build accepts exactly the acyclic graphs, its order puts
    each record after its inputs, and each error names a real defect.
  \<^item> \<open>Framed_Connection\<close> (\<open>session/io.rs\<close>), \<open>Tcp_Framing\<close>, \<open>Serial_Framing\<close>: frames arrive whole and
    in order however the stream is cut into reads; a damaged serial frame costs only itself; what the
    receiver holds is bounded.
  \<^item> \<open>Wasm_Buffer\<close> (\<open>aimdb-wasm-adapter/src/buffer.rs\<close>): every reader of a ring sees every value or an
    exact lag; a latest-value reader is never stale; a pending poll is woken.
  \<^item> \<open>Channels\<close> (the locale \<open>bounded_channel\<close> with list channels as its instance), \<open>Session_Messages\<close>
    (\<open>session/mod.rs\<close>), \<open>Session_Client\<close> and \<open>Session_Calls\<close> (\<open>session/client.rs\<close>), \<open>Session_Server\<close>
    (\<open>session/server.rs\<close>), \<open>Session_Accounting\<close> (both ends composed): a value lost anywhere between
    a record and a client's stream is reported in the \<open>dropped\<close> count of the next update; a call is resolved at
    most once and its entry reclaimed when it is abandoned; the last word of a subscription is
    delivered; redialling stops within its budget.
  \<^item> \<open>Cdr\<close> (\<open>aimdb-cdr\<close>): decoding an encoding gives the value back at every alignment; the size
    computed is the size written; decoding keeps the type it was asked for.
  \<^item> \<open>Knx_Tunnel\<close> (\<open>aimdb-knx-connector/src/tunnel.rs\<close>): an unacknowledged telegram is tracked until it
    is answered, reported or the connection ends, or until the 256th telegram after it takes its sequence number
    and it is lost unreported; retransmission and deadlines are exact.  Two fields that only number the telegrams
    are added to the state.
  \<^item> \<open>Ready_Routes\<close> (\<open>outbound/ready.rs\<close>) and \<open>Outbound_Routes\<close> (\<open>outbound/routes.rs\<close>, \<open>TypedRoute\<close> and
    \<open>TopicBuf\<close>): the scan of masked words refines a walk over two sets; no wake-up is lost when
    producers preempt the scan; turns are fair; every value taken from a ring is counted once; a staged
    message is the value's topic and payload, whole.

  \<^item> \<open>Record_Core\<close> (\<open>typed_record.rs\<close>), \<open>Record_Registrar\<close> (\<open>typed_api.rs\<close>, the links of \<open>connector.rs\<close>),
    \<open>Db_Core\<close> and \<open>Db_Builder\<close> (\<open>builder.rs\<close>, \<open>identity.rs\<close>), \<open>Db_Validation\<close>, \<open>Db_Startup\<close>, \<open>Db_Links\<close>: what a
    configuration is, the one pass that accepts or reports it (\<open>build_registry\<close>), the futures \<open>build\<close> hands
    to the runner, and the running database.  The lemmas show the registry exact, the set of mistakes
    reported exact, every service collected once and after its inputs, the invariant \<open>db_ok\<close> kept by every
    write, the outcome of remote writes, and the path of a message from a link into its record's buffer.
    Two of them show defects: a remote write overrides a running source, and a transform of a record without
    a buffer is accepted.

  \<^item> \<open>Record_Stream\<close> (\<open>remote/stream.rs\<close> and the drain loop), \<open>Json_Value\<close> (JSON trees and the reply
    assembly of \<open>session/aimx/codec.rs\<close>), \<open>Build_Info\<close> (\<open>aimdb-build-info\<close>), \<open>Post_Link\<close>
    (\<open>remote/instance.rs\<close> against \<open>aimdb-client/src/engine.rs\<close>), \<open>Aimx_Dispatch\<close>
    (\<open>session/aimx/dispatch.rs\<close>, \<open>remote/config.rs\<close>, \<open>protocol.rs\<close>, \<open>query.rs\<close>), \<open>Aimx_Access\<close> and
    \<open>Aimx_Records\<close>: what a remote peer can see and do.  The dispatch is interpreted as a \<open>session_contract\<close> of the
    server engine, so that no sequence of frames changes a record outside the policy; the handshake, the
    listing and the check agree on what is writable; \<open>record.set\<close> has an exact outcome on every built
    database; a drained ring gives each value once and in order, and a subscription accounts for each value lost;
    a build-info section reads back as written, and the download of its post-link bytes is exact
    against the server and unforged against any peer.

  \<^item> \<open>Zenoh_Grammar\<close> (\<open>aimdb-zenoh-connector/src/grammar.rs\<close>), a third interpretation of \<open>topic_grammar\<close>, and
    \<open>Zenoh_Native\<close> (\<open>native.rs\<close>): key expressions have a meaning on the chunks of a key; the matcher, which
    places segments early and never goes back, decides it, writing the expression canonically keeps it, and
    covering is sound; a sample is dispatched once however the subscribed expressions overlap.
    \<open>Ros2_Names\<close> (\<open>profile/\<close>, \<open>aimdb-data-contracts/src/ros_message.rs\<close>) and \<open>Zenoh_Ros2\<close> (\<open>ros2.rs\<close>):
    valid ROS names give data keys and liveliness tokens that determine what they name, an attachment reads
    back as written, a connector that builds has one key per topic and one subscriber per key, and its
    publications are numbered without gaps.

  \<^item> \<open>Mqtt_Links\<close> (\<open>aimdb-mqtt-connector/src/publish_opts.rs\<close>, \<open>subscribe_qos.rs\<close>, \<open>connector.rs\<close>,
    \<open>embedded/manager.rs\<close>, \<open>embedded/mod.rs\<close>), \<open>Mqtt_Packets\<close> (\<open>embedded/packet_reader.rs\<close>) and \<open>Mqtt_Session\<close>
    (\<open>embedded/session_loop.rs\<close>, \<open>embedded/write_ring.rs\<close>): every link is subscribed at no less than its QoS, and
    a build is accepted exactly when every packet a session must send fits the ring; bytes cut anyhow are
    reassembled into the packets sent; a session is a run of turns of \<open>client_loop\<close>, which sends
    its requests in order, hands each publication received to the records once, and sleeps past no deadline.

  \<^item> \<open>Persistence\<close> (\<open>aimdb-persistence\<close>, \<open>aimdb-persistence-sqlite/src/lib.rs\<close>): what a query of the
    history returns is exact, which shows that its prefix scan drops one record a trailing \<open>#\<close> matches; what a
    record's subscriber stored is read back, before what the table held of the record, and retention does not touch what is retained.

  \<^bold>\<open>Correspondence.\<close>  A struct is a record or datatype with the source's fields, in the order of the
  source; a handler is one definition, and each early return is a branch of it.  A \<open>str\<close> is the list
  of its bytes.  \<open>u8\<close> to \<open>u64\<close> are words, so counters wrap; \<open>usize\<close> positions are naturals.  A
  \<open>Result\<close> is a sum, a panic or \<open>Pending\<close> a \<open>None\<close> as the definition says.  A waker is the number of the
  task or route it wakes.  Asynchronous code is a state with one step per event that can happen
  between two awaits; the properties quantify over all sequences of steps.

  \<^bold>\<open>Parameters and their laws.\<close>  Code outside the repository is an argument: the channels of the
  session engines (locale \<open>bounded_channel\<close>: capacity, order, what is dropped), the wire codec and the
  connection, the link and the broker, \<open>knx_pico\<close>'s frame types, the removal order of the pending
  table (locales \<open>seq_table\<close> and \<open>ack_table\<close>), COBS (a law of decoding after encoding), and user functions
  (serializers, topic writers, handlers, JSON codecs), the build of a connector (its answer and its calls
  on the database), JSON text, the derived serialisation of listings and graphs, and the query handler of the
  persistence crate (\<open>aimx_env\<close>); whether \<open>serde_json\<close> reads a payload as an object;
  what Zenoh accepts as a key expression, and the XXH3 hash; the client state of \<open>mountain-mqtt\<close> with its packets,
  sizes and Variable Byte Integers, and the byte ring of \<open>bbqueue\<close>.  Each locale is interpreted on definitions of the model.
  The readers an outbound scheduler polls are the locale \<open>route_readers\<close>, interpreted on the typed
  routes over the WASM buffers.

  \<^bold>\<open>Bounds and fuel.\<close>  Loops that consume their input are structural or carry a measure: a pass over
  the routes ends because its position grows to \<open>start + len\<close>, skips in a row are bounded by the budget
  32, and redialling by the attempts left; reading a record by what its reader has
  left, a download by the bytes a section can still hold, and a drain of MQTT packets by the bytes buffered.  \<open>flush_funnel\<close> is given the number of events queued as its
  fuel, which is enough because each round takes one.  Theorems about sequence numbers assume fewer
  than \<open>2 ^ 64\<close> writes where the code does.

  \<^bold>\<open>Not modelled.\<close>  The end of an MQTT session in the middle of a wait, and its redialling; sockets, timers, TLS, SNTP and the async runtimes (tokio, embassy, the browser);
  JSON text (\<open>serde_json\<close>) and how SQLite stores; memory orderings of atomics (each operation on a
  shared word is one step); logging, profiling and error text; derive macros, which generate code at
  build time; tools, benchmarks and examples.

  \<^bold>\<open>Plan.\<close>  The typed calls of the AimX client, endpoint URLs, the contract lock and its shape
  comparison, the fan-in of joins.
\<close>

end
